(* ===== verification/Prelude.thy ===== *)
theory Prelude
  imports Main "HOL-Library.Word" "HOL-Library.Multiset" "HOL-Library.Signed_Division"
begin

text \<open>
  Shared vocabulary of the development: Go's fixed-width integers as words, run-time panics as
  values, and the generic lemmas on words and lists that several components use.
  Unsigned and signed Go integers of the same width are the same word type; a signed reading is
  \<^term>\<open>sint\<close>, a conversion to a narrower type is \<^term>\<open>ucast\<close> and a widening conversion of a
  signed value is \<^term>\<open>scast\<close>.
\<close>

unbundle bit_operations_syntax

section \<open>Types\<close>

type_synonym u8 = "8 word"
type_synonym u16 = "16 word"
type_synonym u32 = "32 word"
type_synonym u64 = "64 word"

text \<open>A run-time panic is a value: \<open>Inl\<close> of the panic, \<open>Inr\<close> of the normal result.\<close>

datatype go_panic =
    PanicDivide            \<comment> \<open>integer division by zero\<close>
  | PanicIndex             \<comment> \<open>index out of range\<close>
  | PanicSlice             \<comment> \<open>slice bounds out of range\<close>
  | PanicMsg string        \<comment> \<open>an explicit panic with a message\<close>

type_synonym 'a go = "go_panic + 'a"

text \<open>
  A computation whose loops are not bounded by construction has the type \<open>'a go option\<close>:
  \<open>None\<close> is "does not return". \<open>go_then\<close> sequences two such computations.
\<close>

fun go_then :: "'a go option \<Rightarrow> ('a \<Rightarrow> 'b go option) \<Rightarrow> 'b go option" where
  "go_then None f = None"
| "go_then (Some (Inl p)) f = Some (Inl p)"
| "go_then (Some (Inr x)) f = f x"

lemma go_then_bind: "go_then r f = Option.bind r (case_sum (\<lambda>p. Some (Inl p)) f)"
  by (cases "(r, f)" rule: go_then.cases) auto

lemma go_then_mono [partial_function_mono]:
  assumes B: "monotone (fun_ord option_ord) option_ord B" "\<And>y. monotone (fun_ord option_ord) option_ord (\<lambda>f. C y f)"
  shows "monotone (fun_ord option_ord) option_ord (\<lambda>f. go_then (B f) (\<lambda>y. C y f))"
proof -
  have "monotone (fun_ord option_ord) option_ord (\<lambda>f. case z of Inl p \<Rightarrow> Some (Inl p) | Inr y \<Rightarrow> C y f)" for z
    by (cases z) (auto intro: B(2) option.const_mono)
  then show ?thesis unfolding go_then_bind using B(1) by (intro bind_mono)
qed

text \<open>Sequencing of computations that always return, normally or with a panic.\<close>

fun go_bind :: "'a go \<Rightarrow> ('a \<Rightarrow> 'b go) \<Rightarrow> 'b go" where
  "go_bind (Inl p) f = Inl p"
| "go_bind (Inr x) f = f x"

lemma go_bind_if: "go_bind (if P then Inr x else Inl p) f = (if P then f x else Inl p)"
  by simp

text \<open>An indexed read and an indexed assignment of a slice, with Go's bounds check.\<close>

definition go_get :: "'a list \<Rightarrow> nat \<Rightarrow> 'a go" where
  "go_get xs i = (if i < length xs then Inr (xs ! i) else Inl PanicIndex)"

definition go_set :: "'a list \<Rightarrow> nat \<Rightarrow> 'a \<Rightarrow> 'a list go" where
  "go_set xs i v = (if i < length xs then Inr (xs[i := v]) else Inl PanicIndex)"

text \<open>
  \<open>make([]T, n)\<close> with elements of \<open>sz\<close> bytes (\<open>runtime/slice.go\<close>): the panic of \<open>makeslice\<close> when the length is
  negative or the slice does not fit in the address space of a 32-bit port, whose \<open>maxmem\<close> is \<open>2\<^sup>32 - 1\<close>.
\<close>

definition maxmem :: int where
  "maxmem = 2 ^ 32 - 1"

definition makeslice :: "nat \<Rightarrow> int \<Rightarrow> 'a \<Rightarrow> 'a list go" where
  "makeslice sz n z =
    (if n < 0 \<or> 2 ^ 31 \<le> n \<or> sz > 0 \<and> n > maxmem div int sz then Inl (PanicMsg ''makeslice: len out of range'')
     else Inr (replicate (nat n) z))"

text \<open>Runes have 4 bytes, strings 8 and slices 12.\<close>

lemma makeslice_runes: "makeslice 4 (int n) z =
    (if n \<le> 1073741823 then Inr (replicate n z) else Inl (PanicMsg ''makeslice: len out of range''))"
  by (simp add: makeslice_def maxmem_def)

lemma makeslice_strings: "makeslice 8 (int n) z =
    (if n \<le> 536870911 then Inr (replicate n z) else Inl (PanicMsg ''makeslice: len out of range''))"
  by (simp add: makeslice_def maxmem_def)

lemma makeslice_slices: "makeslice 12 (int n) z =
    (if n \<le> 357913941 then Inr (replicate n z) else Inl (PanicMsg ''makeslice: len out of range''))"
  by (simp add: makeslice_def maxmem_def)

text \<open>An \<open>int\<close> of the mips32 ports has 32 bits: what the number \<open>k\<close> wraps around to.\<close>

definition wrap32 :: "int \<Rightarrow> int" where
  "wrap32 k = sint (word_of_int k :: u32)"

named_theorems word_nat \<open>readings of word operations as operations on natural numbers\<close>

section \<open>Truncated signed division, as Go's \<open>/\<close> and \<open>%\<close> on signed integers\<close>

definition go_sdiv :: "'a::len word \<Rightarrow> 'a word \<Rightarrow> 'a word" where
  "go_sdiv a b = word_of_int (sint a sdiv sint b)"

definition go_smod :: "'a::len word \<Rightarrow> 'a word \<Rightarrow> 'a word" where
  "go_smod a b = word_of_int (sint a smod sint b)"

section \<open>Words as numbers\<close>

lemma unat_lt2p: "unat (x :: 'a::len word) < 2 ^ LENGTH('a)"
  by (rule unsigned_less)

lemma len64: "LENGTH(64) = 64" and len32: "LENGTH(32) = 32"
  by simp_all

lemma unat_push_bit:
  fixes x :: "'a::len word"
  shows "unat (push_bit n x) = unat x * 2 ^ n mod 2 ^ LENGTH('a)"
  unfolding unsigned_push_bit_eq by (simp add: push_bit_eq_mult take_bit_eq_mod)

lemma unat_shl [word_nat]:
  fixes x :: "'a::len word"
  assumes "unat x * 2 ^ n < 2 ^ LENGTH('a)"
  shows "unat (push_bit n x) = unat x * 2 ^ n"
  unfolding unat_push_bit using assms by (rule mod_less)

lemma unat_double [word_nat]:
  fixes x :: "'a::len word"
  shows "unat x * 2 < 2 ^ LENGTH('a) \<Longrightarrow> unat (x * 2) = unat x * 2"
  using unat_shl [of x 1] by (simp add: push_bit_eq_mult)

lemma unat_half [word_nat]: "unat (x div 2) = unat x div 2"
  using unat_drop_bit_eq [of 1 x] by (simp add: drop_bit_eq_div)

lemma unat_shr [word_nat]: "unat (drop_bit n x) = unat x div 2 ^ n"
  unfolding unat_drop_bit_eq by (rule drop_bit_eq_div)

lemma unat_and_mask [word_nat]: "unat (x AND mask n) = unat x mod 2 ^ n"
  unfolding take_bit_eq_mask [symmetric] unsigned_take_bit_eq by (rule take_bit_eq_mod)

lemma unat_uminus:
  fixes w :: "'a::len word"
  shows "unat (- w) = (if w = 0 then 0 else 2 ^ LENGTH('a) - unat w)"
proof -
  have "uint (- w) = (if uint w = 0 then 0 else 2 ^ LENGTH('a) - uint w)"
    by (simp add: uint_word_ariths(4) zmod_zminus1_eq_if)
  then have "int (unat (- w)) = int (if w = 0 then 0 else 2 ^ LENGTH('a) - unat w)"
    using unat_lt2p [of w] by (auto simp: of_nat_diff less_imp_le uint_0_iff)
  then show ?thesis by (simp only: of_nat_eq_iff)
qed

lemma unat_not:
  fixes w :: "'a::len word"
  shows "unat (NOT w) = 2 ^ LENGTH('a) - 1 - unat w"
proof -
  define M where "M = (2::nat) ^ LENGTH('a)"
  have "w + NOT w = - 1" by (simp add: not_eq_complement)
  then have m: "(unat w + unat (NOT w)) mod M = M - 1"
    using unat_word_ariths(1) [of w "NOT w"] unat_uminus [of "1 :: 'a word"] by (simp add: M_def)
  have b: "unat w < M" "unat (NOT w) < M"
    using unat_lt2p [of w] unat_lt2p [of "NOT w"] by (simp_all add: M_def)
  have "unat w + unat (NOT w) < M"
  proof (rule ccontr)
    assume n: "\<not> unat w + unat (NOT w) < M"
    then have "(unat w + unat (NOT w)) mod M = unat w + unat (NOT w) - M"
      using b by (simp add: mod_if)
    then show False using m b n by linarith
  qed
  then show ?thesis using m b by (simp add: M_def)
qed

text \<open>The high and the low half of a 64-bit value, and their concatenation.\<close>

definition hi32 :: "u64 \<Rightarrow> u32" where
  "hi32 x = ucast (drop_bit 32 x)"

definition lo32 :: "u64 \<Rightarrow> u32" where
  "lo32 x = ucast x"

definition join32 :: "u32 \<Rightarrow> u32 \<Rightarrow> u64" where
  "join32 h l = push_bit 32 (ucast h) OR ucast l"

lemma unat_hi32 [word_nat]: "unat (hi32 x) = unat x div 2 ^ 32"
proof -
  have "unat x div 2 ^ 32 < 2 ^ 32"
    using unat_lt2p [of x] by (simp add: less_mult_imp_div_less)
  then show ?thesis
    by (simp add: hi32_def unsigned_ucast_eq unat_shr take_bit_eq_mod)
qed

lemma unat_lo32 [word_nat]: "unat (lo32 x) = unat x mod 2 ^ 32"
  by (simp add: lo32_def unsigned_ucast_eq take_bit_eq_mod)

lemma unat_ucast_32_64 [word_nat]: "unat (ucast (x :: u32) :: u64) = unat x"
  using unat_lt2p [of x] by (simp add: unsigned_ucast_eq take_bit_eq_mod)

lemma unat_ucast_16_32: "unat (ucast (w :: u16) :: u32) = unat w"
  using unat_lt2p [of w] by (simp add: unsigned_ucast_eq take_bit_eq_mod)

lemma unat_join32 [word_nat]: "unat (join32 h l) = unat h * 2 ^ 32 + unat l"
proof -
  have "push_bit 32 (ucast h) AND (ucast l :: u64) = 0"
    by (rule bit_word_eqI) (auto simp: bit_simps dest: bit_imp_le_length)
  then have "join32 h l = push_bit 32 (ucast h) + ucast l"
    unfolding join32_def by (rule disjunctive_add_eq_or [symmetric])
  moreover have "unat (push_bit 32 (ucast h) :: u64) = unat h * 2 ^ 32"
    using unat_lt2p [of h] by (simp add: unat_push_bit unat_ucast_32_64)
  moreover have "unat h * 2 ^ 32 + unat l < 2 ^ 64"
    using unat_lt2p [of h] unat_lt2p [of l] by simp
  ultimately show ?thesis
    by (simp add: unat_word_ariths unat_ucast_32_64)
qed

lemma bit_join32:
  "bit (join32 h l) n \<longleftrightarrow> (if n < 32 then bit l n else n < 64 \<and> bit h (n - 32))"
  by (auto simp: join32_def bit_simps dest: bit_imp_le_length)

lemma join32_hi_lo: "join32 (hi32 x) (lo32 x) = x"
  by (rule word_unat_eq_iff [THEN iffD2]) (simp add: unat_join32 unat_hi32 unat_lo32)

lemma hi32_0 [simp]: "hi32 0 = 0" and lo32_0 [simp]: "lo32 0 = 0"
  by (simp_all add: hi32_def lo32_def)

lemma and_mask_and_exp:
  "n \<le> m \<Longrightarrow> (x AND mask n) AND push_bit m 1 = (0 :: 'a::len word)"
  by (rule bit_word_eqI) (auto simp: bit_simps bit_1_iff)

lemma and_push_bit_1_iff: "x AND push_bit n 1 \<noteq> 0 \<longleftrightarrow> bit x n" for x :: "'a::len word"
  by (simp add: push_bit_of_1 and_exp_eq_0_iff_not_bit)

lemma mask_or_exp:
  "n < LENGTH('a) \<Longrightarrow> (x AND mask n) OR push_bit n 1 = (x AND mask n) + push_bit n (1 :: 'a::len word)"
  by (rule disjunctive_add_eq_or [symmetric]) (rule and_mask_and_exp, simp)

lemma double_or_1: "x * 2 OR 1 = x * 2 + (1 :: 'a::len word)"
  by (simp add: or_one_eq)

lemma unat_or_shift:
  fixes a b :: "'a::len word"
  assumes b: "unat b < 2 ^ n" and a: "unat a * 2 ^ n < 2 ^ LENGTH('a)" and n: "n \<le> LENGTH('a)"
  shows "unat (push_bit n a OR b) = unat a * 2 ^ n + unat b"
proof -
  have tb: "take_bit n b = b"
    by (rule word_unat_eq_iff [THEN iffD2]) (use b in \<open>simp add: unsigned_take_bit_eq take_bit_nat_eq_self\<close>)
  have "push_bit n a AND take_bit n b = 0"
    by (rule bit_word_eqI) (auto simp: bit_simps)
  then have "push_bit n a OR b = push_bit n a + b"
    unfolding tb by (rule disjunctive_add_eq_or [symmetric])
  moreover have "unat (push_bit n a) = unat a * 2 ^ n"
    by (rule unat_shl) (rule a)
  moreover obtain k where k: "LENGTH('a) = n + k" using n le_Suc_ex by blast
  then have "unat a < 2 ^ k" using a by (simp add: power_add mult.commute)
  then have "Suc (unat a) * 2 ^ n \<le> 2 ^ k * 2 ^ n" by (intro mult_le_mono1) simp
  then have "unat a * 2 ^ n + unat b < 2 ^ LENGTH('a)"
    using b k by (simp add: power_add mult.commute)
  ultimately show ?thesis by (simp add: unat_word_ariths)
qed

section \<open>Signed readings\<close>

lemma word_of_int_sint: "word_of_int (sint x) = (x :: 'a::len word)"
  by simp

lemma word_eq_of_unat:
  assumes "unat w = nat k" and "0 \<le> k"
  shows "w = word_of_int k"
proof -
  have "w = of_nat (unat w)" by simp
  also have "\<dots> = word_of_int (int (nat k))" by (simp only: assms(1) of_int_of_nat_eq)
  finally show ?thesis using assms(2) by simp
qed

lemma sint_bounds:
  fixes x :: "'a::len word"
  shows "- (2 ^ (LENGTH('a) - 1)) \<le> sint x" and "sint x < 2 ^ (LENGTH('a) - 1)"
  using sint_greater_eq [of x] sint_less [of x] by simp_all

lemma sint_scast_32_64: "sint (scast (x :: u32) :: u64) = sint x"
proof -
  have "- (2 ^ 63) \<le> sint x" "sint x < 2 ^ 63"
    using sint_bounds [of x] by simp_all
  then show ?thesis
    by (simp add: signed_scast_eq signed_take_bit_int_eq_self)
qed

lemma sint_word_of_int_32:
  assumes "- (2 ^ 31) \<le> k" and "k < 2 ^ 31"
  shows "sint (word_of_int k :: u32) = k"
  using assms by (simp add: signed_of_int signed_take_bit_int_eq_self)

lemma wrap32_id: "- (2 ^ 31) \<le> k \<Longrightarrow> k < 2 ^ 31 \<Longrightarrow> wrap32 k = k"
  by (simp add: wrap32_def sint_word_of_int_32)

lemma wrap32_small: "0 \<le> k \<Longrightarrow> k < 2 ^ 31 \<Longrightarrow> wrap32 k = k"
  by (simp add: wrap32_id)

lemma wrap32_above: "2 ^ 31 \<le> k \<Longrightarrow> k < 2 ^ 32 + 2 ^ 31 \<Longrightarrow> wrap32 k = k - 2 ^ 32"
proof -
  assume k: "2 ^ 31 \<le> k" "k < 2 ^ 32 + 2 ^ 31"
  have "take_bit 32 (k - 2 ^ 32) = take_bit 32 k" by (simp add: take_bit_eq_mod)
  then have "(word_of_int (k - 2 ^ 32) :: u32) = word_of_int k" by (simp add: word_of_int_eq_iff)
  then have "wrap32 (k - 2 ^ 32) = wrap32 k" unfolding wrap32_def by (rule arg_cong)
  moreover have "wrap32 (k - 2 ^ 32) = k - 2 ^ 32" using k by (intro wrap32_id) simp_all
  ultimately show ?thesis by metis
qed

lemma sint_small:
  fixes a :: u32
  assumes "unat a < 2 ^ 31"
  shows "sint a = int (unat a)"
proof -
  have "uint a < 2 ^ 31" using assms of_nat_less_iff [of "unat a" "2 ^ 31", where 'a = int] by simp
  moreover have "- (2 ^ 31) \<le> uint a" by (rule order_trans [of _ 0]) simp_all
  ultimately show ?thesis by (simp add: sint_uint signed_take_bit_int_eq_self)
qed

lemma sle_small: "unat a < 2 ^ 31 \<Longrightarrow> unat b < 2 ^ 31 \<Longrightarrow> a \<le>s b \<longleftrightarrow> unat a \<le> unat b"
  for a b :: u32
  by (simp only: word_sle_eq sint_small of_nat_le_iff)

lemma sless_small: "unat a < 2 ^ 31 \<Longrightarrow> unat b < 2 ^ 31 \<Longrightarrow> a <s b \<longleftrightarrow> unat a < unat b"
  for a b :: u32
  by (simp only: word_sless_alt sint_small of_nat_less_iff)

lemma unat_abs_sint:
  fixes x :: "'a::len word"
  shows "unat (if x <s 0 then - x else x) = nat \<bar>sint x\<bar>"
proof -
  have w: "x = word_of_int (sint x)" by simp
  have b: "\<bar>sint x\<bar> < 2 ^ LENGTH('a)"
  proof -
    have "(2::int) ^ (LENGTH('a) - 1) < 2 ^ LENGTH('a)" by simp
    then show ?thesis using sint_bounds [of x] by linarith
  qed
  have "(if x <s 0 then - x else x) = word_of_int \<bar>sint x\<bar>"
    by (auto simp: word_sless_alt abs_if)
  then have "uint (if x <s 0 then - x else x) = \<bar>sint x\<bar>"
    using b by (simp only: unsigned_of_int) (simp add: take_bit_int_eq_self)
  then show ?thesis by (metis nat_uint_eq)
qed

section \<open>Filling a slice\<close>

text \<open>Writing a block of elements at a fill index.\<close>

definition fill :: "'a list \<Rightarrow> nat \<Rightarrow> 'a list \<Rightarrow> 'a list" where
  "fill a n b = take n a @ b @ drop (n + length b) a"

lemma length_fill [simp]: "n + length b \<le> length a \<Longrightarrow> length (fill a n b) = length a"
  by (simp add: fill_def)

lemma take_fill: "n + length b \<le> length a \<Longrightarrow> take (n + length b) (fill a n b) = take n a @ b"
  by (simp add: fill_def)

lemma go_set_fill: "n < length a \<Longrightarrow> go_set a n v = Inr (fill a n [v])"
  by (simp add: go_set_def fill_def upd_conv_take_nth_drop)

lemma fill_fill: "n + length b + length c \<le> length a \<Longrightarrow> fill (fill a n b) (n + length b) c = fill a n (b @ c)"
  by (simp add: fill_def ac_simps)

section \<open>Prefix codes\<close>

text \<open>
  The contract between a loop that decodes a whole sequence and the coder it calls: \<open>dec1\<close> reads one
  symbol and its width, \<open>dec1\<close> of an encoding followed by anything is the symbol, and \<open>all\<close> decodes
  symbol by symbol. What the loop then does with a sequence of encodings is proved once.
\<close>

locale prefix_code =
  fixes valid :: "'a \<Rightarrow> bool" and enc :: "'a \<Rightarrow> 'b list" and dec1 :: "'b list \<Rightarrow> 'a \<times> nat"
    and all :: "'b list \<Rightarrow> 'a list"
  assumes enc_not_Nil: "enc x \<noteq> []"
    and dec1_enc: "valid x \<Longrightarrow> dec1 (enc x @ rest) = (x, length (enc x))"
    and all_Nil: "all [] = []"
    and all_step: "p \<noteq> [] \<Longrightarrow> all p = fst (dec1 p) # all (drop (snd (dec1 p)) p)"
begin

lemma all_append: "valid x \<Longrightarrow> all (enc x @ rest) = x # all rest"
  using all_step [of "enc x @ rest"] by (simp add: enc_not_Nil dec1_enc)

lemma all_concat: "list_all valid xs \<Longrightarrow> all (concat (map enc xs) @ rest) = xs @ all rest"
  by (induction xs) (simp_all add: all_append)

lemma all_encodings: "list_all valid xs \<Longrightarrow> all (concat (map enc xs)) = xs"
  using all_concat [of xs "[]"] by (simp add: all_Nil)

lemma encodings_inject:
  "list_all valid xs \<Longrightarrow> list_all valid ys \<Longrightarrow> concat (map enc xs) = concat (map enc ys) \<Longrightarrow> xs = ys"
  using all_encodings by metis

end

end
