(* ===== verification/Vlrt.thy ===== *)
theory Vlrt
  imports Prelude
begin

text \<open>
  The 64-bit integer runtime of the 32-bit ports, \<^verbatim>\<open>src/src/runtime/vlrt.go\<close>.
\<close>

section \<open>Shift-and-subtract division\<close>

definition sign64 :: u64 where
  "sign64 = push_bit 63 1"

partial_function (option) slowdodiv_norm :: "u64 \<Rightarrow> u64 \<Rightarrow> nat \<Rightarrow> (u64 \<times> nat) option" where
  "slowdodiv_norm d capn i =
     (if d < capn then slowdodiv_norm (push_bit 1 d) capn (i + 1) else Some (d, i))"

fun slowdodiv_loop :: "nat \<Rightarrow> u64 \<Rightarrow> u64 \<Rightarrow> u64 \<Rightarrow> u64 \<times> u64" where
  "slowdodiv_loop 0 n d q = (q, n)"
| "slowdodiv_loop (Suc k) n d q =
     (let q = push_bit 1 q in
      if n \<ge> d then slowdodiv_loop k (n - d) (drop_bit 1 d) (q OR 1)
      else slowdodiv_loop k n (drop_bit 1 d) q)"

definition slowdodiv :: "u64 \<Rightarrow> u64 \<Rightarrow> (u64 \<times> u64) go option" where
  "slowdodiv n d =
     (if d = 0 then Some (Inl PanicDivide)
      else let capn = (if n \<ge> sign64 then sign64 else n) in
        (case slowdodiv_norm d capn 0 of
           None \<Rightarrow> None
         | Some (d, i) \<Rightarrow> Some (Inr (slowdodiv_loop (Suc i) n d 0))))"

lemma slowdodiv_norm_returns:
  assumes "d \<noteq> 0" and "unat capn \<le> 2 ^ 63"
  shows "\<exists>j d'. slowdodiv_norm d capn i = Some (d', i + j) \<and> unat d' = unat d * 2 ^ j \<and> capn \<le> d'"
  using assms
proof (induction "unat capn - unat d" arbitrary: d i rule: less_induct)
  case less
  show ?case
  proof (cases "d < capn")
    case True
    then have lt: "unat d < unat capn" by (simp add: word_less_nat_alt)
    with less.prems have dd: "unat (push_bit 1 d) = 2 * unat d"
      by (simp add: unat_double)
    have pos: "unat d > 0" using less.prems(1) by (simp add: unat_gt_0)
    then have "unat capn - unat (push_bit 1 d) < unat capn - unat d" "push_bit 1 d \<noteq> 0"
      using dd lt by (auto simp: unat_eq_zero unat_double)
    from less.hyps [OF this less.prems(2), of "i + 1"] obtain j d' where
      "slowdodiv_norm (push_bit 1 d) capn (i + 1) = Some (d', i + 1 + j)"
      "unat d' = unat (push_bit 1 d) * 2 ^ j" "capn \<le> d'" by blast
    with True dd show ?thesis
      by (intro exI [of _ "Suc j"] exI [of _ d']) (simp add: slowdodiv_norm.simps [of d])
  next
    case False
    then show ?thesis
      by (intro exI [of _ 0] exI [of _ d]) (simp add: slowdodiv_norm.simps [of d])
  qed
qed

lemma slowdodiv_loop_divides:
  assumes "unat d = D * 2 ^ k" and "unat n < D * 2 ^ Suc k" and "D > 0"
  shows "slowdodiv_loop (Suc k) n d q =
           (push_bit (Suc k) q + of_nat (unat n div D), of_nat (unat n mod D))"
  using assms
proof (induction k arbitrary: n d q)
  case 0
  show ?case
  proof (cases "n \<ge> d")
    case True
    then have "unat (n - d) = unat n - D" "unat n \<ge> D"
      using 0 by (simp_all add: unat_sub word_le_nat_alt)
    moreover have "of_nat (unat (n - d)) = n - d" by simp
    moreover from calculation 0 have "unat n div D = 1" "unat n mod D = unat n - D"
      by (auto simp: div_nat_eqI mod_if less_diff_conv2)
    ultimately show ?thesis
      using True by (simp add: double_or_1 del: of_nat_unat)
  next
    case False
    then show ?thesis using 0
      by (simp add: word_le_nat_alt)
  qed
next
  case (Suc k)
  have d': "unat (drop_bit 1 d) = D * 2 ^ k"
    using Suc.prems(1) by (simp add: word_nat)
  show ?case
  proof (cases "n \<ge> d")
    case True
    then have n': "unat (n - d) = unat n - D * 2 ^ Suc k" "unat n \<ge> D * 2 ^ Suc k"
      using Suc.prems by (simp_all add: unat_sub word_le_nat_alt)
    have eq: "unat n = unat (n - d) + D * 2 ^ Suc k" using n' by simp
    have "unat n div D = unat (n - d) div D + 2 ^ Suc k" "unat n mod D = unat (n - d) mod D"
      unfolding eq using Suc.prems(3) by (simp_all add: mult.commute)
    moreover have "slowdodiv_loop (Suc k) (n - d) (drop_bit 1 d) (push_bit 1 q OR 1) =
        (push_bit (Suc k) (push_bit 1 q OR 1) + of_nat (unat (n - d) div D),
         of_nat (unat (n - d) mod D))"
      using d' n' Suc.prems by (intro Suc.IH) auto
    ultimately show ?thesis
      using True by (simp add: double_or_1 push_bit_add algebra_simps push_bit_eq_mult del: slowdodiv_loop.simps(2) add: slowdodiv_loop.simps(2) [of "Suc k"])
  next
    case False
    have "slowdodiv_loop (Suc k) n (drop_bit 1 d) (push_bit 1 q) =
        (push_bit (Suc k) (push_bit 1 q) + of_nat (unat n div D), of_nat (unat n mod D))"
      using d' False Suc.prems by (intro Suc.IH) (auto simp: not_le word_less_nat_alt)
    with False show ?thesis
      by (simp add: push_bit_eq_mult algebra_simps del: slowdodiv_loop.simps(2) add: slowdodiv_loop.simps(2) [of "Suc k"])
  qed
qed


lemma slowdodiv_zero: "slowdodiv n 0 = Some (Inl PanicDivide)"
  by (simp add: slowdodiv_def)

lemma slowdodiv_divides:
  assumes "d \<noteq> 0"
  shows "slowdodiv n d = Some (Inr (n div d, n mod d))"
proof -
  let ?capn = "if n \<ge> sign64 then sign64 else n"
  have s: "unat sign64 = 2 ^ 63" by (simp add: sign64_def)
  then have cap: "unat ?capn \<le> 2 ^ 63" by (auto simp: word_le_nat_alt)
  from slowdodiv_norm_returns [OF assms cap, of 0] obtain j d' where
    r: "slowdodiv_norm d ?capn 0 = Some (d', j)" and d': "unat d' = unat d * 2 ^ j"
    and le: "?capn \<le> d'" by auto
  have "unat n < 2 * unat d'"
  proof (cases "n \<ge> sign64")
    case True
    with le s have "2 ^ 63 \<le> unat d'" by (simp add: word_le_nat_alt)
    then show ?thesis using unat_lt2p [of n] by simp
  next
    case False
    with le have "n \<le> d'" by simp
    then have "unat n \<le> unat d'" by (simp add: word_le_nat_alt)
    moreover have "0 < unat d'" using assms d' by (simp add: unat_gt_0)
    ultimately show ?thesis by simp
  qed
  then have "slowdodiv_loop (Suc j) n d' 0 = (of_nat (unat n div unat d), of_nat (unat n mod unat d))"
    using slowdodiv_loop_divides [of d' "unat d" j n 0] d' assms by (simp add: unat_gt_0)
  then show ?thesis
    using assms r by (simp add: slowdodiv_def word_arith_nat_div word_arith_nat_mod Let_def)
qed

section \<open>The divider each port selects\<close>

datatype goarch = Arch386 | ArchArm | ArchMips32 | ArchMips32le

text \<open>
  The two 386 assembly helpers of \<^verbatim>\<open>vlop_386.s\<close>: a 64 by 32 bit multiply into 96 bits,
  and the \<open>DIVL\<close> instruction, which faults (and the runtime panics) when the divisor is zero or
  the quotient does not fit in 32 bits.
\<close>

definition mul64by32 :: "u64 \<Rightarrow> u32 \<Rightarrow> u64 \<times> u32" where
  "mul64by32 a b =
     (let p0 = (ucast (lo32 a) :: u64) * ucast b;
          p1 = (ucast (hi32 a) :: u64) * ucast b;
          bx = hi32 p0 + lo32 p1;
          carry = (if bx < lo32 p1 then 1 else 0)
      in (join32 bx (lo32 p0), hi32 p1 + carry))"

definition div64by32 :: "u64 \<Rightarrow> u32 \<Rightarrow> (u32 \<times> u32) go" where
  "div64by32 a b =
     (if b = 0 \<or> unat a div unat b \<ge> 2 ^ 32 then Inl PanicDivide
      else Inr (lo32 (a div ucast b), lo32 (a mod ucast b)))"

definition dodiv :: "goarch \<Rightarrow> u64 \<Rightarrow> u64 \<Rightarrow> (u64 \<times> u64) go option" where
  "dodiv arch n d =
     (if arch = ArchArm \<or> arch = ArchMips32 \<or> arch = ArchMips32le then slowdodiv n d
      else if d > n then Some (Inr (0, n))
      else if hi32 d \<noteq> 0 then
        (let t = hi32 n div hi32 d;
             (lo64, h) = mul64by32 d t
         in if h \<noteq> 0 \<or> lo64 > n then slowdodiv n d
            else Some (Inr (ucast t, n - lo64)))
      else if hi32 n \<ge> lo32 d \<and> lo32 d = 0 then Some (Inl PanicDivide)
      else
        (let qhi = (if hi32 n \<ge> lo32 d then hi32 n div lo32 d else 0);
             n = (if hi32 n \<ge> lo32 d then n - push_bit 32 (ucast (lo32 d * qhi)) else n)
         in (case div64by32 n (lo32 d) of
               Inl p \<Rightarrow> Some (Inl p)
             | Inr (qlo, rlo) \<Rightarrow> Some (Inr (push_bit 32 (ucast qhi) + ucast qlo, ucast rlo)))))"

section \<open>64-bit division and remainder\<close>

text \<open>
  The four entry points the compiler calls, each with the divider (\<open>dodiv\<close>) as its first
  argument.
\<close>

type_synonym divider = "u64 \<Rightarrow> u64 \<Rightarrow> (u64 \<times> u64) go option"

definition uint64div :: "divider \<Rightarrow> u64 \<Rightarrow> u64 \<Rightarrow> u64 go option" where
  "uint64div dv n d =
     (if hi32 n = 0 \<and> hi32 d = 0 then
        (if lo32 d = 0 then Some (Inl PanicDivide) else Some (Inr (ucast (lo32 n div lo32 d))))
      else go_then (dv n d) (\<lambda>(q, _). Some (Inr q)))"

definition uint64mod :: "divider \<Rightarrow> u64 \<Rightarrow> u64 \<Rightarrow> u64 go option" where
  "uint64mod dv n d =
     (if hi32 n = 0 \<and> hi32 d = 0 then
        (if lo32 d = 0 then Some (Inl PanicDivide) else Some (Inr (ucast (lo32 n mod lo32 d))))
      else go_then (dv n d) (\<lambda>(_, r). Some (Inr r)))"

definition int64div :: "divider \<Rightarrow> u64 \<Rightarrow> u64 \<Rightarrow> u64 go option" where
  "int64div dv n d =
     (if scast (lo32 n) = n \<and> scast (lo32 d) = d then
        (if lo32 n = - 0x80000000 \<and> lo32 d = - 1 then Some (Inr 0x80000000)
         else if lo32 d = 0 then Some (Inl PanicDivide)
         else Some (Inr (scast (go_sdiv (lo32 n) (lo32 d)))))
      else
        (let nneg = n <s 0; dneg = d <s 0;
             n = (if nneg then - n else n);
             d = (if dneg then - d else d)
         in go_then (dv n d) (\<lambda>(uq, _). Some (Inr (if nneg \<noteq> dneg then - uq else uq)))))"

definition int64mod :: "divider \<Rightarrow> u64 \<Rightarrow> u64 \<Rightarrow> u64 go option" where
  "int64mod dv n d =
     (if scast (lo32 n) = n \<and> scast (lo32 d) = d then
        (if lo32 d = 0 then Some (Inl PanicDivide)
         else Some (Inr (scast (go_smod (lo32 n) (lo32 d)))))
      else
        (let nneg = n <s 0;
             n = (if nneg then - n else n);
             d = (if d <s 0 then - d else d)
         in go_then (dv n d) (\<lambda>(_, ur). Some (Inr (if nneg then - ur else ur)))))"

subsection \<open>What a divider promises, and what the entry points then compute\<close>

lemma hi32_zero_iff: "hi32 x = 0 \<longleftrightarrow> unat x < 2 ^ 32"
proof -
  have "hi32 x = 0 \<longleftrightarrow> unat x div 2 ^ 32 = 0"
    by (metis unat_eq_zero unat_hi32)
  then show ?thesis by (simp add: div_eq_0_iff)
qed

lemma ucast_lo32: "hi32 x = 0 \<Longrightarrow> ucast (lo32 x) = x"
  by (rule word_unat_eq_iff [THEN iffD2]) (simp add: unat_ucast_32_64 unat_lo32 hi32_zero_iff)

lemma ucast_div_lo32:
  assumes "hi32 n = 0" "hi32 d = 0"
  shows "ucast (lo32 n div lo32 d) = n div d" and "ucast (lo32 n mod lo32 d) = n mod d"
  using assms
  by (auto intro!: word_unat_eq_iff [THEN iffD2]
      simp: unat_ucast_32_64 unat_lo32 hi32_zero_iff unat_div_distrib unat_mod_distrib)

lemma sdiv_fits_32:
  fixes a b :: int
  assumes "- (2 ^ 31) \<le> a" "a < 2 ^ 31" "\<not> (a = - (2 ^ 31) \<and> b = - 1)"
  shows "- (2 ^ 31) \<le> a sdiv b" and "a sdiv b < 2 ^ 31"
proof -
  have r: "- \<bar>a\<bar> \<le> a sdiv b" "a sdiv b \<le> \<bar>a\<bar>" using sdiv_int_range [of a b] by auto
  then show "- (2 ^ 31) \<le> a sdiv b" using assms by linarith
  show "a sdiv b < 2 ^ 31"
  proof (cases "a = - (2 ^ 31)")
    case True
    with assms(3) have b: "b \<noteq> - 1" by simp
    have half: "\<bar>a\<bar> div \<bar>b\<bar> \<le> \<bar>a\<bar> div 2" if "b < 0"
      using that b by (intro zdiv_mono2) auto
    show ?thesis
    proof (cases "b < 0")
      case True
      with half \<open>a = - (2 ^ 31)\<close> show ?thesis by (simp add: signed_divide_int_def)
    next
      case False
      then have "a sdiv b \<le> 0"
        using \<open>a = - (2 ^ 31)\<close> by (simp add: signed_divide_int_def sgn_if pos_imp_zdiv_nonneg_iff)
      then show ?thesis by simp
    qed
  next
    case False
    with r assms show ?thesis by linarith
  qed
qed

lemma word_of_int_sdiv:
  fixes n d :: u64
  shows "word_of_int (sint n sdiv sint d) =
    (let q = (if n <s 0 then - n else n) div (if d <s 0 then - d else d)
     in if (n <s 0) \<noteq> (d <s 0) then - q else q)"
proof -
  let ?q = "(if n <s 0 then - n else n) div (if d <s 0 then - d else d)"
  have "unat ?q = nat \<bar>sint n\<bar> div nat \<bar>sint d\<bar>"
    by (simp add: unat_div_distrib unat_abs_sint del: if_split_asm split del: if_split)
  then have q: "?q = word_of_int (\<bar>sint n\<bar> div \<bar>sint d\<bar>)"
    by (intro word_eq_of_unat) (simp_all add: nat_div_distrib div_int_pos_iff)
  show ?thesis
    unfolding Let_def q
    by (auto simp: word_sless_alt signed_divide_int_def sgn_if)
qed

lemma word_of_int_smod:
  fixes n d :: u64
  shows "word_of_int (sint n smod sint d) =
    (let r = (if n <s 0 then - n else n) mod (if d <s 0 then - d else d)
     in if n <s 0 then - r else r)"
proof -
  let ?r = "(if n <s 0 then - n else n) mod (if d <s 0 then - d else d)"
  have "unat ?r = nat \<bar>sint n\<bar> mod nat \<bar>sint d\<bar>"
    by (simp add: unat_mod_distrib unat_abs_sint del: if_split_asm split del: if_split)
  then have r: "?r = word_of_int (\<bar>sint n\<bar> mod \<bar>sint d\<bar>)"
    by (intro word_eq_of_unat) (simp_all add: nat_mod_distrib mod_int_pos_iff)
  show ?thesis
    unfolding Let_def r
    by (auto simp: word_sless_alt signed_modulo_int_def sgn_if)
qed

locale divmod64 =
  fixes dv :: divider
  assumes dv_zero: "dv n 0 = Some (Inl PanicDivide)"
    and dv_divides: "d \<noteq> 0 \<Longrightarrow> dv n d = Some (Inr (n div d, n mod d))"
begin

lemma uint64div_spec:
  "uint64div dv n d = Some (if d = 0 then Inl PanicDivide else Inr (n div d))"
proof (cases "hi32 n = 0 \<and> hi32 d = 0")
  case True
  then have "lo32 d = 0 \<longleftrightarrow> d = 0" using ucast_lo32 [of d] by auto
  with True show ?thesis by (simp add: uint64div_def ucast_div_lo32)
next
  case False
  then show ?thesis by (auto simp: uint64div_def dv_zero dv_divides)
qed

lemma uint64mod_spec:
  "uint64mod dv n d = Some (if d = 0 then Inl PanicDivide else Inr (n mod d))"
proof (cases "hi32 n = 0 \<and> hi32 d = 0")
  case True
  then have "lo32 d = 0 \<longleftrightarrow> d = 0" using ucast_lo32 [of d] by auto
  with True show ?thesis by (simp add: uint64mod_def ucast_div_lo32)
next
  case False
  then show ?thesis by (auto simp: uint64mod_def dv_zero dv_divides)
qed

lemma int64div_spec:
  "int64div dv n d = Some (if d = 0 then Inl PanicDivide else Inr (go_sdiv n d))"
proof (cases "scast (lo32 n) = n \<and> scast (lo32 d) = d")
  case True
  then have s: "sint n = sint (lo32 n)" "sint d = sint (lo32 d)"
    using sint_scast_32_64 by metis+
  have d0: "lo32 d = 0 \<longleftrightarrow> d = 0" using True by auto
  show ?thesis
  proof (cases "lo32 n = - 0x80000000 \<and> lo32 d = - 1")
    case True
    then have "sint n = - 0x80000000" "sint d = - 1" "d \<noteq> 0"
      using s d0 by auto
    then have "go_sdiv n d = 0x80000000" by (simp add: go_sdiv_def)
    with True \<open>scast (lo32 n) = n \<and> scast (lo32 d) = d\<close> \<open>d \<noteq> 0\<close> show ?thesis
      by (simp add: int64div_def)
  next
    case False
    have "\<not> (sint (lo32 n) = - (2 ^ 31) \<and> sint (lo32 d) = - 1)"
    proof
      assume "sint (lo32 n) = - (2 ^ 31) \<and> sint (lo32 d) = - 1"
      then have "lo32 n = word_of_int (- (2 ^ 31))" "lo32 d = word_of_int (- 1)"
        by (metis word_of_int_sint)+
      with False show False by simp
    qed
    then have "sint (scast (go_sdiv (lo32 n) (lo32 d)) :: u64) = sint (lo32 n) sdiv sint (lo32 d)"
      using sdiv_fits_32 [of "sint (lo32 n)" "sint (lo32 d)"] sint_bounds [of "lo32 n"]
      by (simp add: sint_scast_32_64 go_sdiv_def sint_word_of_int_32)
    then have "scast (go_sdiv (lo32 n) (lo32 d)) = go_sdiv n d"
      unfolding go_sdiv_def [of n d] s by (metis word_of_int_sint)
    with True False d0 show ?thesis by (auto simp: int64div_def)
  qed
next
  case False
  have "(if d <s 0 then - d else d) = 0 \<longleftrightarrow> d = 0" by simp
  then show ?thesis
    using False by (auto simp: int64div_def dv_zero dv_divides go_sdiv_def word_of_int_sdiv Let_def)
qed

lemma int64mod_spec:
  "int64mod dv n d = Some (if d = 0 then Inl PanicDivide else Inr (go_smod n d))"
proof (cases "scast (lo32 n) = n \<and> scast (lo32 d) = d")
  case True
  then have s: "sint n = sint (lo32 n)" "sint d = sint (lo32 d)"
    using sint_scast_32_64 by metis+
  have d0: "lo32 d = 0 \<longleftrightarrow> d = 0" using True by auto
  have "scast (go_smod (lo32 n) (lo32 d)) = go_smod n d" if "d \<noteq> 0"
  proof -
    have "sint (lo32 d) \<noteq> 0" using that d0 by (metis word_of_int_sint of_int_0)
    then have "- (2 ^ 31) \<le> sint (lo32 n) smod sint (lo32 d)" "sint (lo32 n) smod sint (lo32 d) < 2 ^ 31"
      using smod_int_range [of "sint (lo32 d)" "sint (lo32 n)"] sint_bounds [of "lo32 d"] by auto
    then have "sint (scast (go_smod (lo32 n) (lo32 d)) :: u64) = sint (lo32 n) smod sint (lo32 d)"
      by (simp add: sint_scast_32_64 go_smod_def sint_word_of_int_32)
    then show ?thesis
      unfolding go_smod_def [of n d] s by (metis word_of_int_sint)
  qed
  with True d0 show ?thesis by (auto simp: int64mod_def)
next
  case False
  have "(if d <s 0 then - d else d) = 0 \<longleftrightarrow> d = 0" by simp
  then show ?thesis
    using False by (auto simp: int64mod_def dv_zero dv_divides go_smod_def word_of_int_smod Let_def)
qed

end

subsection \<open>Every port's divider keeps the promise\<close>

interpretation slow: divmod64 slowdodiv
  by unfold_locales (simp_all add: slowdodiv_zero slowdodiv_divides)

lemma unat_mul_ucast: "unat ((ucast (a :: u32) :: u64) * ucast (b :: u32)) = unat a * unat b"
proof -
  have "unat a * unat b < 2 ^ 32 * 2 ^ 32"
    using unat_lt2p [of a] unat_lt2p [of b] by (intro mult_strict_mono) auto
  then show ?thesis by (simp add: unat_word_ariths unat_ucast_32_64)
qed

lemma schoolbook_carry:
  fixes B :: nat
  assumes "S = P0 div B + P1 mod B"
  shows "(P1 div B + S div B) * (B * B) + S mod B * B + P0 mod B = P1 * B + P0"
proof -
  have "S div B * (B * B) + S mod B * B = S * B"
    by (metis div_mult_mod_eq distrib_right mult.assoc)
  moreover have "P1 div B * (B * B) + P1 mod B * B = P1 * B"
    by (metis div_mult_mod_eq distrib_right mult.assoc)
  moreover have "S * B = P0 div B * B + P1 mod B * B"
    by (simp add: assms distrib_right)
  ultimately show ?thesis
    using div_mult_mod_eq [of P0 B] by (simp only: distrib_right)
qed

lemma mul64by32_product:
  assumes "mul64by32 a b = (lo, h)"
  shows "unat h * 2 ^ 64 + unat lo = unat a * unat b"
proof -
  define P0 P1 where "P0 = unat (lo32 a) * unat b" and "P1 = unat (hi32 a) * unat b"
  define S where "S = P0 div 2 ^ 32 + P1 mod 2 ^ 32"
  have ab: "unat a * unat b = P1 * 2 ^ 32 + P0"
  proof -
    have "unat a = unat (hi32 a) * 2 ^ 32 + unat (lo32 a)"
      by (metis join32_hi_lo unat_join32)
    then show ?thesis by (simp add: P0_def P1_def algebra_simps)
  qed
  have "P0 < 2 ^ 64"
    using unat_lt2p [of "(ucast (lo32 a) :: u64) * ucast b"] by (simp add: unat_mul_ucast P0_def)
  then have P0': "P0 div 2 ^ 32 < 2 ^ 32" by (simp add: less_mult_imp_div_less)
  have P1': "P1 div 2 ^ 32 \<le> 2 ^ 32 - 2"
  proof -
    have "P1 \<le> (2 ^ 32 - 1) * (2 ^ 32 - 1)"
      unfolding P1_def using unat_lt2p [of "hi32 a"] unat_lt2p [of b] by (intro mult_mono) auto
    then have "P1 < (2 ^ 32 - 1) * 2 ^ 32" by simp
    then show ?thesis by (simp add: less_mult_imp_div_less)
  qed
  define bx where "bx = hi32 ((ucast (lo32 a) :: u64) * ucast b) + lo32 ((ucast (hi32 a) :: u64) * ucast b)"
  have bx: "unat bx = S mod 2 ^ 32"
    by (simp add: bx_def unat_word_ariths(1) unat_hi32 unat_lo32 unat_mul_ucast S_def P0_def P1_def)
  have carry: "bx < lo32 ((ucast (hi32 a) :: u64) * ucast b) \<longleftrightarrow> S \<ge> 2 ^ 32"
  proof -
    have "S < 2 * 2 ^ 32" using P0' by (simp add: S_def)
    then have "S mod 2 ^ 32 < P1 mod 2 ^ 32 \<longleftrightarrow> S \<ge> 2 ^ 32"
      using P0' unfolding S_def by (auto simp: mod_if [of "P0 div _ + _"])
    then show ?thesis
      by (simp add: word_less_nat_alt bx unat_lo32 unat_mul_ucast P1_def)
  qed
  have "unat h = P1 div 2 ^ 32 + S div 2 ^ 32"
  proof -
    have "S div 2 ^ 32 = (if S \<ge> 2 ^ 32 then 1 else 0)"
      using P0' by (auto simp: S_def div_nat_eqI)
    moreover have "unat (hi32 ((ucast (hi32 a) :: u64) * ucast b)) = P1 div 2 ^ 32"
      by (simp add: unat_hi32 unat_mul_ucast P1_def)
    ultimately show ?thesis
      using assms P1' carry unfolding mul64by32_def Let_def bx_def [symmetric]
      by (auto simp: unat_word_ariths)
  qed
  moreover have "unat lo = (S mod 2 ^ 32) * 2 ^ 32 + P0 mod 2 ^ 32"
    using assms bx unfolding mul64by32_def Let_def bx_def [symmetric]
    by (auto simp: unat_join32 unat_lo32 unat_mul_ucast P0_def)
  moreover have "(P1 div 2 ^ 32 + S div 2 ^ 32) * 2 ^ 64 + (S mod 2 ^ 32) * 2 ^ 32 + P0 mod 2 ^ 32 = P1 * 2 ^ 32 + P0"
    using schoolbook_carry [OF S_def] by simp
  ultimately show ?thesis using ab by simp
qed

lemma div_by_high_half:
  fixes N D :: nat
  assumes "D div 2 ^ 32 > 0"
  shows "N div D \<le> N div 2 ^ 32 div (D div 2 ^ 32)"
proof -
  have "N div D \<le> N div (2 ^ 32 * (D div 2 ^ 32))"
    using assms by (intro div_le_mono2) auto
  then show ?thesis by (simp add: div_mult2_eq)
qed

lemma dodiv_wide_divisor:
  assumes "d \<le> n" and "hi32 d \<noteq> 0" and "mul64by32 d (hi32 n div hi32 d) = (lo64, h)"
    and "h = 0" and "lo64 \<le> n"
  shows "ucast (hi32 n div hi32 d) = n div d" and "n - lo64 = n mod d"
proof -
  define T where "T = unat (hi32 n div hi32 d)"
  have T: "T = unat n div 2 ^ 32 div (unat d div 2 ^ 32)"
    by (simp add: T_def unat_div_distrib unat_hi32)
  have "unat d div 2 ^ 32 > 0"
    using assms(2) by (metis gr0I unat_eq_zero unat_hi32)
  then have le: "unat n div unat d \<le> T" unfolding T by (rule div_by_high_half)
  have lo: "unat lo64 = unat d * T"
    using mul64by32_product [OF assms(3)] assms(4) by (simp add: T_def)
  have "unat lo64 \<le> unat n" using assms(5) by (simp add: word_le_nat_alt)
  moreover have "unat d > 0" using \<open>unat d div 2 ^ 32 > 0\<close> by (cases "unat d") auto
  ultimately have "T \<le> unat n div unat d" using lo
    by (simp add: less_eq_div_iff_mult_less_eq mult.commute)
  with le have q: "unat n div unat d = T" by simp
  then show "ucast (hi32 n div hi32 d) = n div d"
    by (intro word_unat_eq_iff [THEN iffD2]) (simp add: unat_ucast_32_64 unat_div_distrib T_def)
  have "unat n - unat lo64 = unat n mod unat d"
    unfolding lo q [symmetric] by (rule minus_mult_div_eq_mod)
  then show "n - lo64 = n mod d"
    using assms(5) by (intro word_unat_eq_iff [THEN iffD2])
      (simp add: unat_sub word_le_nat_alt unat_mod_distrib)
qed

lemma dodiv_narrow_divisor:
  fixes n d :: u64
  assumes "hi32 d = 0" and "d \<noteq> 0"
  defines "qhi \<equiv> (if hi32 n \<ge> lo32 d then hi32 n div lo32 d else 0)"
  defines "n' \<equiv> (if hi32 n \<ge> lo32 d then n - push_bit 32 (ucast (lo32 d * qhi)) else n)"
  shows "div64by32 n' (lo32 d) = Inr (lo32 (n' div d), lo32 (n' mod d))"
    and "push_bit 32 (ucast qhi) + ucast (lo32 (n' div d)) = n div d"
    and "ucast (lo32 (n' mod d)) = n mod d"
proof -
  define N H D where "N = unat n" and "H = unat n div 2 ^ 32" and "D = unat d"
  have D: "D < 2 ^ 32" "unat (lo32 d) = D" "0 < D" "ucast (lo32 d) = d"
    using assms(1,2) ucast_lo32 by (simp_all add: D_def hi32_zero_iff unat_lo32 unat_gt_0)
  have H: "unat (hi32 n) = H" "H < 2 ^ 32" "N = H * 2 ^ 32 + N mod 2 ^ 32"
    using unat_hi32 [of n] unat_lt2p [of "hi32 n"] by (simp_all add: H_def N_def)
  have Q: "unat qhi = H div D"
    using D H by (auto simp: qhi_def unat_div_distrib word_le_nat_alt)
  have DQ: "D * (H div D) \<le> H" by simp
  then have m: "unat (lo32 d * qhi) = D * (H div D)"
    using le_less_trans [OF DQ H(2)] by (simp add: unat_word_ariths D Q)
  have sh: "unat (push_bit 32 (ucast (lo32 d * qhi)) :: u64) = D * (H div D) * 2 ^ 32"
    using le_less_trans [OF DQ H(2)] by (subst unat_shl) (simp_all add: unat_ucast_32_64 m)
  have n': "unat n' = H mod D * 2 ^ 32 + N mod 2 ^ 32"
  proof (cases "hi32 n \<ge> lo32 d")
    case True
    have "D * (H div D) * 2 ^ 32 \<le> N"
      using mult_le_mono1 [OF DQ, of "2 ^ 32"] H(3) by linarith
    then have "unat n' = N - D * (H div D) * 2 ^ 32"
      using True by (simp add: n'_def unat_sub word_le_nat_alt sh N_def)
    also have "\<dots> = (H - D * (H div D)) * 2 ^ 32 + N mod 2 ^ 32"
      using H(3) DQ by (simp add: diff_mult_distrib)
    finally show ?thesis by (simp add: minus_mult_div_eq_mod)
  next
    case False
    then have "H < D" using D H by (simp add: word_le_nat_alt)
    then show ?thesis using False H(3) by (simp add: n'_def N_def)
  qed
  have lt: "unat n' div D < 2 ^ 32"
  proof -
    have "H mod D + 1 \<le> D" using D(3) by (simp add: Suc_leI)
    then have "(H mod D + 1) * 2 ^ 32 \<le> D * 2 ^ 32" by (rule mult_le_mono1)
    moreover have "N mod 2 ^ 32 < 2 ^ 32" by simp
    ultimately have "unat n' < D * 2 ^ 32" unfolding n' by simp
    then show ?thesis using D(3) by (simp add: less_mult_imp_div_less mult.commute)
  qed
  then show "div64by32 n' (lo32 d) = Inr (lo32 (n' div d), lo32 (n' mod d))"
    using D by (auto simp: div64by32_def D_def)
  have "N = D * (H div D) * 2 ^ 32 + unat n'"
  proof -
    have "H = D * (H div D) + H mod D" by simp
    then have "H * 2 ^ 32 = D * (H div D) * 2 ^ 32 + H mod D * 2 ^ 32"
      by (metis add_mult_distrib)
    then show ?thesis using H(3) n' by simp
  qed
  then have N: "N = unat n' + D * (H div D * 2 ^ 32)" by simp
  have ql: "unat (lo32 (n' div d)) = unat n' div D"
    using lt by (simp add: unat_lo32 unat_div_distrib D_def)
  have qh: "unat (push_bit 32 (ucast qhi) :: u64) = H div D * 2 ^ 32"
    using H(2) Q by (subst unat_shl) (auto simp: unat_ucast_32_64 intro: le_less_trans [OF div_le_dividend])
  have "unat (n div d) = H div D * 2 ^ 32 + unat n' div D"
    using N D(3) by (simp add: unat_div_distrib N_def [symmetric] D_def [symmetric])
  moreover have "unat (n div d) < 2 ^ 64" using unat_lt2p [of "n div d"] by simp
  ultimately show "push_bit 32 (ucast qhi) + ucast (lo32 (n' div d)) = n div d"
    by (intro word_unat_eq_iff [THEN iffD2]) (simp add: unat_word_ariths(1) qh unat_ucast_32_64 ql)
  have "unat n' mod D < 2 ^ 32" using D by (meson less_trans mod_less_divisor)
  then have "unat (ucast (lo32 (n' mod d)) :: u64) = unat n' mod D"
    by (simp add: unat_lo32 unat_ucast_32_64 unat_mod_distrib D_def)
  then show "ucast (lo32 (n' mod d)) = n mod d"
    using N by (intro word_unat_eq_iff [THEN iffD2])
      (simp add: unat_mod_distrib N_def [symmetric] D_def [symmetric])
qed

interpretation arch: divmod64 "dodiv a"
proof
  fix n show "dodiv a n 0 = Some (Inl PanicDivide)"
    by (cases a) (simp_all add: dodiv_def slowdodiv_zero)
next
  fix n d :: u64 assume d: "d \<noteq> 0"
  show "dodiv a n d = Some (Inr (n div d, n mod d))"
  proof (cases "a = Arch386 \<and> d \<le> n")
    case False
    have small: "n div d = 0" "n mod d = n" if "n < d"
      using that by (simp_all add: word_arith_nat_div word_arith_nat_mod word_less_nat_alt)
    show ?thesis
      using False by (cases a) (auto simp: dodiv_def slowdodiv_divides [OF d] small not_le)
  next
    case True
    obtain lo64 h where m: "mul64by32 d (hi32 n div hi32 d) = (lo64, h)" by fastforce
    show ?thesis
    proof (cases "hi32 d = 0")
      case False
      with True m show ?thesis
        using dodiv_wide_divisor [OF conjunct2 [OF True] False m]
        by (auto simp: dodiv_def slowdodiv_divides [OF d] not_less)
    next
      case hd: True
      then have "lo32 d \<noteq> 0" using d ucast_lo32 [of d] by auto
      moreover have "a = Arch386" "\<not> n < d" using True by auto
      ultimately show ?thesis
        using hd by (simp add: dodiv_def dodiv_narrow_divisor [OF hd d] Let_def split del: if_split)
    qed
  qed
qed

section \<open>Conversion of a double to a 64-bit integer\<close>

text \<open>
  \<open>_d2v\<close> on the bit pattern \<open>x\<close> of the argument. Where the magnitude does not fit, the source
  converts the double with \<open>uint32(d)\<close>, whose result Go leaves to the implementation: it is the
  parameter \<open>u32_of\<close>.
\<close>

definition d2v :: "(u64 \<Rightarrow> u32) \<Rightarrow> u64 \<Rightarrow> u64" where
  "d2v u32_of x =
     (let xhi = (hi32 x AND 0xfffff) OR 0x100000;
          xlo = lo32 x;
          sh = 1075 - int (unat ((ucast (drop_bit 52 x) :: u32) AND 0x7ff));
          (ylo, yhi) =
            (if sh \<ge> 0 then
               (let sh = nat sh in
                if sh < 32 then
                  (if sh = 0 then (xlo, xhi)
                   else (drop_bit sh xlo OR push_bit (32 - sh) xhi, drop_bit sh xhi))
                else if sh = 32 then (xhi, 0)
                else if sh < 64 then (drop_bit (sh - 32) xhi, 0)
                else (0, 0))
             else
               (let sh = nat (- sh) in
                if sh \<le> 11 then (push_bit sh xlo, push_bit sh xhi OR drop_bit (32 - sh) xlo)
                else (0, u32_of x)));
          (ylo, yhi) =
            (if x AND sign64 \<noteq> 0 then
               (if ylo \<noteq> 0 then (- ylo, NOT yhi) else (ylo, - yhi))
             else (ylo, yhi))
      in join32 yhi ylo)"

definition float64toint64 :: "(u64 \<Rightarrow> u32) \<Rightarrow> u64 \<Rightarrow> u64" where
  "float64toint64 u32_of d = d2v u32_of d"

definition float64touint64 :: "(u64 \<Rightarrow> u32) \<Rightarrow> u64 \<Rightarrow> u64" where
  "float64touint64 u32_of d = d2v u32_of d"

text \<open>The fields of a double: the biased exponent and the significand with its implicit bit.\<close>

definition f64_exp :: "u64 \<Rightarrow> nat" where
  "f64_exp x = unat x div 2 ^ 52 mod 2 ^ 11"

definition f64_sig :: "u64 \<Rightarrow> nat" where
  "f64_sig x = 2 ^ 52 + unat x mod 2 ^ 52"

text \<open>The integer part of the magnitude of a finite double.\<close>

definition f64_trunc :: "u64 \<Rightarrow> nat" where
  "f64_trunc x =
     (if f64_exp x \<ge> 1075 then f64_sig x * 2 ^ (f64_exp x - 1075)
      else f64_sig x div 2 ^ (1075 - f64_exp x))"

lemma join32_shr:
  "0 < s \<Longrightarrow> s < 32 \<Longrightarrow>
   join32 (drop_bit s h) (drop_bit s l OR push_bit (32 - s) h) = drop_bit s (join32 h l)"
  by (rule bit_word_eqI) (auto simp: bit_join32 bit_simps ac_simps dest: bit_imp_le_length)

lemma join32_shr_high:
  "32 \<le> s \<Longrightarrow> join32 0 (drop_bit (s - 32) h) = drop_bit s (join32 h l)"
  by (rule bit_word_eqI) (auto simp: bit_join32 bit_simps ac_simps dest: bit_imp_le_length)

lemma join32_shl:
  "s < 32 \<Longrightarrow>
   join32 (push_bit s h OR drop_bit (32 - s) l) (push_bit s l) = push_bit s (join32 h l)"
  by (rule bit_word_eqI) (auto simp: bit_join32 bit_simps ac_simps dest: bit_imp_le_length)

lemma join32_uminus:
  "- join32 h l = (if l \<noteq> 0 then join32 (NOT h) (- l) else join32 (- h) l)"
proof (rule word_unat_eq_iff [THEN iffD2])
  have z: "join32 h l = 0 \<longleftrightarrow> h = 0 \<and> l = 0"
    using unat_join32 [of h l] by (metis add_is_0 mult_is_0 unat_eq_zero power_not_zero zero_neq_numeral)
  show "unat (- join32 h l) = unat (if l \<noteq> 0 then join32 (NOT h) (- l) else join32 (- h) l)"
    using unat_lt2p [of h] unat_lt2p [of l] 
    by (auto simp: unat_uminus z unat_join32 unat_not unat_eq_zero diff_mult_distrib)
qed

lemma unat_f64_sig:
  "unat (join32 ((hi32 x AND 0xfffff) OR 0x100000) (lo32 x)) = f64_sig x"
proof -
  let ?h = "hi32 x AND 0xfffff"
  have m: "?h = hi32 x AND mask 20" by (simp add: mask_eq_exp_minus_1)
  have h: "unat ?h = unat x div 2 ^ 32 mod 2 ^ 20"
    unfolding m unat_and_mask unat_hi32 ..
  have "?h OR 0x100000 = ?h + 0x100000"
    using mask_or_exp [of 20 "hi32 x"] unfolding m by simp
  then have "unat (?h OR 0x100000) = unat x div 2 ^ 32 mod 2 ^ 20 + 2 ^ 20"
    using h by (simp add: unat_word_ariths(1))
  moreover have "unat x mod 2 ^ 52 = (unat x div 2 ^ 32 mod 2 ^ 20) * 2 ^ 32 + unat x mod 2 ^ 32"
    using mod_mult2_eq [of "unat x" "2 ^ 32" "2 ^ 20"] by simp
  ultimately show ?thesis
    by (simp add: unat_join32 unat_lo32 f64_sig_def)
qed

lemma unat_f64_exp: "unat ((ucast (drop_bit 52 x) :: u32) AND 0x7ff) = f64_exp x"
proof -
  have m: "(ucast (drop_bit 52 x) :: u32) AND 0x7ff = ucast (drop_bit 52 x) AND mask 11"
    by (simp add: mask_eq_exp_minus_1)
  have "unat x div 2 ^ 52 < 2 ^ 32"
    using unat_lt2p [of x] by (simp add: less_mult_imp_div_less)
  then have "unat (ucast (drop_bit 52 x) :: u32) = unat x div 2 ^ 52"
    by (simp add: unsigned_ucast_eq unat_shr take_bit_eq_mod)
  then show ?thesis
    unfolding m unat_and_mask f64_exp_def by simp
qed

lemma f64_sig_bounds: "2 ^ 52 \<le> f64_sig x" "f64_sig x < 2 ^ 53"
proof -
  have "unat x mod 2 ^ 52 < 2 ^ 52" by simp
  then show "2 ^ 52 \<le> f64_sig x" "f64_sig x < 2 ^ 53" by (simp_all add: f64_sig_def)
qed

text \<open>The magnitude the shifts produce, before the sign is applied.\<close>

definition d2v_magnitude :: "u64 \<Rightarrow> u64" where
  "d2v_magnitude x =
     (let X = join32 ((hi32 x AND 0xfffff) OR 0x100000) (lo32 x)
      in if f64_exp x \<le> 1075 then drop_bit (1075 - f64_exp x) X else push_bit (f64_exp x - 1075) X)"

lemma unat_d2v_magnitude:
  assumes "f64_exp x \<le> 1086"
  shows "unat (d2v_magnitude x) = f64_trunc x"
proof (cases "f64_exp x \<le> 1075")
  case True
  then show ?thesis
    by (cases "f64_exp x = 1075") (auto simp: d2v_magnitude_def f64_trunc_def Let_def unat_shr unat_f64_sig)
next
  case False
  let ?k = "f64_exp x - 1075"
  have "(2::nat) ^ ?k \<le> 2 ^ 11" using assms by (intro power_increasing) auto
  then have "f64_sig x * 2 ^ ?k < 2 ^ 53 * 2 ^ 11"
    using f64_sig_bounds(2) [of x] by (intro mult_less_le_imp_less) auto
  then show ?thesis
    using False by (simp add: d2v_magnitude_def f64_trunc_def Let_def unat_push_bit unat_f64_sig)
qed

lemma d2v_signed_magnitude:
  assumes "f64_exp x \<le> 1086"
  shows "d2v u32_of x = (if bit x 63 then - d2v_magnitude x else d2v_magnitude x)"
proof -
  define H L where "H = (hi32 x AND 0xfffff) OR 0x100000" and "L = lo32 x"
  define e where "e = f64_exp x"
  have sgn: "x AND sign64 \<noteq> 0 \<longleftrightarrow> bit x 63"
    unfolding sign64_def by (rule and_push_bit_1_iff)
  have app: "(case (if x AND sign64 \<noteq> 0 then if l \<noteq> 0 then (- l, NOT h) else (l, - h) else (l, h)) of
        (ylo, yhi) \<Rightarrow> join32 yhi ylo) = (if bit x 63 then - join32 h l else join32 h l)" for h l
    by (auto simp: sgn join32_uminus)
  have z: "join32 0 0 = 0" by (simp add: join32_def)
  show ?thesis
    using assms z join32_shr [of "1075 - e" H L] join32_shr_high [of "1075 - e" H L]
      join32_shl [of "e - 1075" H L]
    unfolding d2v_def d2v_magnitude_def unat_f64_exp Let_def H_def [symmetric] L_def [symmetric]
      e_def [symmetric]
    by (auto simp: app nat_diff_distrib)
qed

lemma d2v_truncates:
  assumes "f64_exp x \<le> 1086"
  shows "d2v u32_of x = (if bit x 63 then - of_nat (f64_trunc x) else of_nat (f64_trunc x))"
proof -
  have "d2v_magnitude x = of_nat (f64_trunc x)"
    unfolding unat_d2v_magnitude [OF assms, symmetric] by simp
  then show ?thesis by (simp add: d2v_signed_magnitude [OF assms])
qed

lemma f64_trunc_bound: "f64_exp x \<le> 1085 \<Longrightarrow> f64_trunc x < 2 ^ 63"
proof -
  assume e: "f64_exp x \<le> 1085"
  have "f64_sig x * 2 ^ (f64_exp x - 1075) < 2 ^ 53 * 2 ^ 10"
    using f64_sig_bounds(2) [of x] e by (intro mult_less_le_imp_less power_increasing) auto
  moreover have "f64_sig x div 2 ^ k < 2 ^ 63" for k
  proof -
    have "f64_sig x div 2 ^ k \<le> f64_sig x" by (rule div_le_dividend)
    also have "\<dots> < 2 ^ 63" using f64_sig_bounds(2) [of x] by simp
    finally show ?thesis .
  qed
  ultimately show ?thesis by (simp add: f64_trunc_def)
qed

section \<open>Properties\<close>

text \<open>C4: On every 32-bit port (mips32 and mips32le included) the unsigned 64-bit division returns the
  exact quotient and the unsigned remainder the exact remainder, for every dividend and every non-zero
  divisor, and both panic on a zero divisor; the shift-and-subtract loop always terminates.\<close>

theorem uint64_division_correct:
  "uint64div (dodiv a) n d = Some (if d = 0 then Inl PanicDivide else Inr (n div d)) \<and>
   uint64mod (dodiv a) n d = Some (if d = 0 then Inl PanicDivide else Inr (n mod d))"
  by (intro conjI arch.uint64div_spec arch.uint64mod_spec)

text \<open>On every 32-bit port the signed 64-bit division is Go's truncated division, with the
  two's-complement wrap of the most negative value divided by -1, for all operands (the 32-bit
  shortcut with its own special case included); the remainder has the sign of the dividend and is
  exact for all operands; both panic on a zero divisor.\<close>

theorem int64_division_correct:
  "int64div (dodiv a) n d =
     Some (if d = 0 then Inl PanicDivide else Inr (word_of_int (sint n sdiv sint d))) \<and>
   int64mod (dodiv a) n d =
     Some (if d = 0 then Inl PanicDivide else Inr (word_of_int (sint n smod sint d)))"
  unfolding arch.int64div_spec arch.int64mod_spec go_sdiv_def go_smod_def by (intro conjI refl)

text \<open>For every double of magnitude below 2^63 (biased exponent at most 1085) the conversion to a
  signed 64-bit integer truncates towards zero, whatever the platform does on overflow.\<close>

theorem float64toint64_truncates:
  assumes "f64_exp d \<le> 1085"
  shows "sint (float64toint64 u32_of d) =
           (if bit d 63 then - int (f64_trunc d) else int (f64_trunc d))"
proof -
  have b: "int (f64_trunc d) < 2 ^ 63"
    using f64_trunc_bound [OF assms] by (metis of_nat_less_iff of_nat_numeral of_nat_power)
  have "float64toint64 u32_of d =
      word_of_int (if bit d 63 then - int (f64_trunc d) else int (f64_trunc d))"
    using assms by (simp add: float64toint64_def d2v_truncates)
  then show ?thesis
    using b by (simp only: signed_of_int) (simp add: signed_take_bit_int_eq_self)
qed

theorem float64toint64_truncates_witness:
  "f64_exp 0xC00C000000000000 \<le> 1085 \<and> sint (float64toint64 (\<lambda>_. 0) 0xC00C000000000000) = - 3"
  using float64toint64_truncates [of "0xC00C000000000000" "\<lambda>_. 0"]
  by (simp add: f64_exp_def f64_trunc_def f64_sig_def)

end
