(* ===== verification/Softfloat.thy ===== *)
theory Softfloat
  imports Prelude
begin

text \<open>
  The software IEEE 754 arithmetic of \<^verbatim>\<open>src/src/runtime/softfloat64.go\<close>, on bit patterns.
  The source writes \<open>funpack\<close> and \<open>fpack\<close> once for 64 and once for 32 bits, with the same body; here
  the body is written once over the widths of the mantissa and of the exponent and instantiated
  twice. Exponents are Go \<open>int\<close>s of magnitude below 10000, modelled as \<^typ>\<open>int\<close>.

  The loops that shift a significand until its top bit is set are only entered with a non-zero
  significand; the conjunct \<open>mant \<noteq> 0\<close> in their guards makes the recursion total and is true
  wherever the source runs them.
\<close>

section \<open>Constants\<close>

definition nan64 :: u64 where "nan64 = push_bit 52 (push_bit 11 1 - 1) + 1"
definition inf64 :: u64 where "inf64 = push_bit 52 (push_bit 11 1 - 1)"
definition nan32 :: u32 where "nan32 = push_bit 23 (push_bit 8 1 - 1) + 1"
definition inf32 :: u32 where "inf32 = push_bit 23 (push_bit 8 1 - 1)"

definition fbias :: "nat \<Rightarrow> int" where
  "fbias eb = - (2 ^ (eb - 1)) + 1"

section \<open>Unpacking and packing\<close>

lemma unat_exp_word: "n < LENGTH('a) \<Longrightarrow> unat (push_bit n 1 :: 'a::len word) = 2 ^ n"
  by (subst unat_push_bit) simp

lemma below_exp_word:
  fixes x :: "'a::len word"
  assumes "x < push_bit n 1"
  shows "n < LENGTH('a)" and "unat x < 2 ^ n"
proof -
  show n: "n < LENGTH('a)"
  proof (rule ccontr)
    assume "\<not> n < LENGTH('a)"
    then have z: "push_bit n (1 :: 'a word) = 0" by (intro bit_word_eqI) (simp add: bit_simps)
    show False using assms unfolding z by simp
  qed
  then show "unat x < 2 ^ n"
    using assms unfolding word_less_nat_alt by (subst (asm) unat_exp_word)
qed

lemma norm_up_decreases:
  fixes mant :: "'a::len word"
  assumes "mant \<noteq> 0" "mant < push_bit mb 1"
  shows "unat (mant * 2) = 2 * unat mant" and "2 ^ mb - unat (mant * 2) < 2 ^ mb - unat mant"
proof -
  note b = below_exp_word [OF assms(2)]
  have "(2::nat) ^ Suc mb \<le> 2 ^ LENGTH('a)" using b(1) by (intro power_increasing) auto
  then show d: "unat (mant * 2) = 2 * unat mant" using b(2) by (simp add: unat_double)
  show "2 ^ mb - unat (mant * 2) < 2 ^ mb - unat mant"
    using assms(1) b(2) by (simp add: d unat_gt_0 diff_less_mono2)
qed

lemma unat_half_less: "mant \<noteq> 0 \<Longrightarrow> unat (drop_bit (Suc 0) mant) < unat mant"
  using unat_shr [of "Suc 0" mant] by (simp add: unat_gt_0)

lemma top_bit_clear: "v AND push_bit 63 1 = 0 \<Longrightarrow> unat (v :: u64) < 2 ^ 63"
proof -
  assume "v AND push_bit 63 1 = 0"
  then have nb: "\<not> bit v 63" using and_push_bit_1_iff [of v 63] by simp
  have "bit v n \<Longrightarrow> n < 63" for n
    using nb bit_imp_le_length [of v n] by (cases "n = 63") auto
  then have "take_bit 63 v = v" by (intro bit_word_eqI) (auto simp: bit_simps)
  then show ?thesis by (metis take_bit_nat_less_exp unsigned_take_bit_eq)
qed

lemma bit_word_ge: "bit x n \<Longrightarrow> 2 ^ n \<le> unat x"
proof (rule ccontr)
  assume b: "bit x n" and "\<not> 2 ^ n \<le> unat x"
  then have "unat x div 2 ^ n = 0" by simp
  then have "unat (drop_bit n x) = 0" by (simp only: unat_shr)
  then have "drop_bit n x = 0" by (simp only: unat_eq_zero)
  then have "\<not> bit (drop_bit n x) 0" by simp
  with b show False by (simp add: bit_drop_bit_eq)
qed

function norm_up :: "nat \<Rightarrow> 'a::len word \<Rightarrow> int \<Rightarrow> 'a word \<times> int" where
  "norm_up mb mant exp =
     (if mant \<noteq> 0 \<and> mant < push_bit mb 1 then norm_up mb (push_bit 1 mant) (exp - 1)
      else (mant, exp))"
  by pat_completeness auto
termination
  by (relation "measure (\<lambda>(mb, mant, exp). 2 ^ mb - unat mant)") (auto simp: norm_up_decreases)

declare norm_up.simps [simp del]

definition funpack :: "nat \<Rightarrow> nat \<Rightarrow> 'a::len word \<Rightarrow> 'a word \<times> 'a word \<times> int \<times> bool \<times> bool" where
  "funpack mb eb f =
     (let sign = f AND push_bit (mb + eb) 1;
          mant = f AND (push_bit mb 1 - 1);
          exp = int (unat (drop_bit mb f AND (push_bit eb 1 - 1)))
      in if exp = 2 ^ eb - 1 then
           (if mant \<noteq> 0 then (sign, mant, exp, False, True) else (sign, mant, exp, True, False))
         else if exp = 0 then
           (if mant \<noteq> 0 then
              (let (mant, exp) = norm_up mb mant (exp + fbias eb + 1)
               in (sign, mant, exp, False, False))
            else (sign, mant, exp, False, False))
         else (sign, mant OR push_bit mb 1, exp + fbias eb, False, False))"

definition funpack64 :: "u64 \<Rightarrow> u64 \<times> u64 \<times> int \<times> bool \<times> bool" where
  "funpack64 f = funpack 52 11 f"

definition funpack32 :: "u32 \<Rightarrow> u32 \<times> u32 \<times> int \<times> bool \<times> bool" where
  "funpack32 f = funpack 23 8 f"

function norm_down :: "nat \<Rightarrow> 'a::len word \<Rightarrow> int \<Rightarrow> 'a word \<Rightarrow> 'a word \<times> int \<times> 'a word" where
  "norm_down mb mant exp trunc =
     (if mant \<noteq> 0 \<and> mant \<ge> push_bit mb 4 then norm_down mb (drop_bit 1 mant) (exp + 1) (trunc OR (mant AND 1))
      else (mant, exp, trunc))"
  by pat_completeness auto
termination
  by (relation "measure (\<lambda>(mb, mant, exp, trunc). unat mant)") (auto simp: unat_half_less)

declare norm_down.simps [simp del]

function denorm :: "nat \<Rightarrow> 'a::len word \<Rightarrow> int \<Rightarrow> 'a word \<Rightarrow> 'a word \<times> int \<times> 'a word" where
  "denorm eb mant exp trunc =
     (if exp < fbias eb then denorm eb (drop_bit 1 mant) (exp + 1) (trunc OR (mant AND 1))
      else (mant, exp, trunc))"
  by pat_completeness auto
termination
  by (relation "measure (\<lambda>(eb, mant, exp, trunc). nat (fbias eb - exp))") auto

declare denorm.simps [simp del]

definition fpack :: "nat \<Rightarrow> nat \<Rightarrow> 'a::len word \<Rightarrow> 'a word \<Rightarrow> 'a word \<Rightarrow> int \<Rightarrow> 'a word \<Rightarrow> 'a word" where
  "fpack mb eb infw sign mant exp trunc =
     (let mant0 = mant; exp0 = exp; trunc0 = trunc in
      if mant = 0 then sign
      else
        (let (mant, exp) = norm_up mb mant exp;
             (mant, exp, trunc) = norm_down mb mant exp trunc;
             (mant, exp) =
               (if mant \<ge> push_bit mb 2 then
                  (let (mant, exp) =
                     (if mant AND 1 \<noteq> 0 \<and> (trunc \<noteq> 0 \<or> mant AND 2 \<noteq> 0) then
                        (let mant = mant + 1 in
                         if mant \<ge> push_bit mb 4 then (drop_bit 1 mant, exp + 1) else (mant, exp))
                      else (mant, exp))
                   in (drop_bit 1 mant, exp + 1))
                else (mant, exp))
         in if exp \<ge> 2 ^ eb - 1 + fbias eb then sign XOR infw
            else if exp < fbias eb + 1 then
              (if exp < fbias eb - int mb then sign OR 0
               else
                 (let (mant, exp, trunc) = denorm eb mant0 exp0 trunc0;
                      mant = (if mant AND 1 \<noteq> 0 \<and> (trunc \<noteq> 0 \<or> mant AND 2 \<noteq> 0) then mant + 1 else mant);
                      mant = drop_bit 1 mant;
                      exp = exp + 1
                  in if mant < push_bit mb 1 then sign OR mant
                     else sign OR push_bit mb (word_of_int (exp - fbias eb)) OR (mant AND (push_bit mb 1 - 1))))
            else sign OR push_bit mb (word_of_int (exp - fbias eb)) OR (mant AND (push_bit mb 1 - 1))))"

definition fpack64 :: "u64 \<Rightarrow> u64 \<Rightarrow> int \<Rightarrow> u64 \<Rightarrow> u64" where
  "fpack64 sign mant exp trunc = fpack 52 11 inf64 sign mant exp trunc"

definition fpack32 :: "u32 \<Rightarrow> u32 \<Rightarrow> int \<Rightarrow> u32 \<Rightarrow> u32" where
  "fpack32 sign mant exp trunc = fpack 23 8 inf32 sign mant exp trunc"

section \<open>128-bit helpers\<close>

definition mullu :: "u64 \<Rightarrow> u64 \<Rightarrow> u64 \<times> u64" where
  "mullu u v =
     (let u0 = u AND (push_bit 32 1 - 1);
          u1 = drop_bit 32 u;
          v0 = v AND (push_bit 32 1 - 1);
          v1 = drop_bit 32 v;
          w0 = u0 * v0;
          t = u1 * v0 + drop_bit 32 w0;
          w1 = t AND (push_bit 32 1 - 1);
          w2 = drop_bit 32 t;
          w1 = w1 + u0 * v1
      in (u * v, u1 * v1 + w2 + drop_bit 32 w1))"

function nlz_norm :: "nat \<Rightarrow> u64 \<Rightarrow> nat \<times> u64" where
  "nlz_norm s v =
     (if v \<noteq> 0 \<and> v AND push_bit 63 1 = 0 then nlz_norm (s + 1) (push_bit 1 v) else (s, v))"
  by pat_completeness auto
termination
proof (relation "measure (\<lambda>(s, v). 2 ^ 64 - unat v)")
  fix s and v :: u64
  assume "v \<noteq> 0 \<and> v AND push_bit 63 1 = 0"
  then have "unat v < 2 ^ 63" "0 < unat v" using top_bit_clear by (auto simp: unat_gt_0)
  moreover from this have "unat (push_bit 1 v) = unat v * 2" by (simp add: unat_double)
  ultimately show "((s + 1, push_bit 1 v), s, v) \<in> measure (\<lambda>(s, v). 2 ^ 64 - unat v)" by simp
qed simp

declare nlz_norm.simps [simp del]

text \<open>
  The quotient-digit correction at \<open>again1\<close> and \<open>again2\<close>. The high half \<open>vn1\<close> of a normalised
  divisor is non-zero and below 2^32; the two conjuncts that say so make the recursion total.
\<close>

function divlu_adjust :: "u64 \<Rightarrow> u64 \<Rightarrow> u64 \<Rightarrow> u64 \<Rightarrow> u64 \<Rightarrow> u64 \<times> u64" where
  "divlu_adjust vn1 vn0 un q rhat =
     (if q \<ge> push_bit 32 1 \<or> q * vn0 > push_bit 32 1 * rhat + un then
        (let q = q - 1; rhat' = rhat + vn1 in
         if rhat' < push_bit 32 1 \<and> vn1 \<noteq> 0 \<and> vn1 < push_bit 32 1
         then divlu_adjust vn1 vn0 un q rhat' else (q, rhat'))
      else (q, rhat))"
  by pat_completeness auto
termination
proof (relation "measure (\<lambda>(vn1, vn0, un, q, rhat). if unat rhat < 2 ^ 32 then 2 ^ 32 - unat rhat else 2 ^ 32 + 1)",
    simp, goal_cases)
  case (1 vn1 vn0 un q rhat q' rhat')
  then have r': "unat rhat' < 2 ^ 32" and v: "0 < unat vn1" "unat vn1 < 2 ^ 32"
    by (simp_all add: word_less_nat_alt unat_gt_0)
  have "unat rhat' = unat rhat + unat vn1" if "unat rhat < 2 ^ 32"
    using 1(3) that v by (simp add: unat_word_ariths)
  with r' v show ?case by auto
qed

declare divlu_adjust.simps [simp del]

definition divlu :: "u64 \<Rightarrow> u64 \<Rightarrow> u64 \<Rightarrow> u64 \<times> u64" where
  "divlu u1 u0 v =
     (if u1 \<ge> v then (- 1, - 1)
      else
        (let b = push_bit 32 1;
             (s, v) = nlz_norm 0 v;
             vn1 = drop_bit 32 v;
             vn0 = v AND (push_bit 32 1 - 1);
             un32 = push_bit s u1 OR drop_bit (64 - s) u0;
             un10 = push_bit s u0;
             un1 = drop_bit 32 un10;
             un0 = un10 AND (push_bit 32 1 - 1);
             q1 = un32 div vn1;
             rhat = un32 - q1 * vn1;
             (q1, rhat) = divlu_adjust vn1 vn0 un1 q1 rhat;
             un21 = un32 * b + un1 - q1 * v;
             q0 = un21 div vn1;
             rhat = un21 - q0 * vn1;
             (q0, rhat) = divlu_adjust vn1 vn0 un0 q0 rhat
         in (q1 * b + q0, drop_bit s (un21 * b + un0 - q0 * v))))"

section \<open>Arithmetic\<close>

definition fneg64 :: "u64 \<Rightarrow> u64" where
  "fneg64 f = f XOR push_bit (52 + 11) 1"

definition fadd64 :: "u64 \<Rightarrow> u64 \<Rightarrow> u64" where
  "fadd64 f g =
     (let (fs, fm, fe, fi, fn) = funpack64 f;
          (gs, gm, ge, gi, gn) = funpack64 g
      in if fn \<or> gn then nan64
         else if fi \<and> gi \<and> fs \<noteq> gs then nan64
         else if fi then f
         else if gi then g
         else if fm = 0 \<and> gm = 0 \<and> fs \<noteq> 0 \<and> gs \<noteq> 0 then f
         else if fm = 0 then (if gm = 0 then g XOR gs else g)
         else if gm = 0 then f
         else
           (let (fs, fm, fe, gs, gm, ge) =
                  (if fe < ge \<or> fe = ge \<and> fm < gm then (gs, gm, ge, fs, fm, fe)
                   else (fs, fm, fe, gs, gm, ge));
                shift = nat (fe - ge);
                fm = push_bit 2 fm;
                gm = push_bit 2 gm;
                trunc = gm AND (push_bit shift 1 - 1);
                gm = drop_bit shift gm;
                fm = (if fs = gs then fm + gm
                      else (let fm = fm - gm in if trunc \<noteq> 0 then fm - 1 else fm));
                fs = (if fm = 0 then 0 else fs)
            in fpack64 fs fm (fe - 2) trunc))"

definition fsub64 :: "u64 \<Rightarrow> u64 \<Rightarrow> u64" where
  "fsub64 f g = fadd64 f (fneg64 g)"

definition fmul64 :: "u64 \<Rightarrow> u64 \<Rightarrow> u64" where
  "fmul64 f g =
     (let (fs, fm, fe, fi, fn) = funpack64 f;
          (gs, gm, ge, gi, gn) = funpack64 g
      in if fn \<or> gn then nan64
         else if fi \<and> gi then f XOR gs
         else if fi \<and> gm = 0 \<or> fm = 0 \<and> gi then nan64
         else if fm = 0 then f XOR gs
         else if gm = 0 then g XOR fs
         else
           (let (lo, hi) = mullu fm gm;
                shift = 52 - 1;
                trunc = lo AND (push_bit shift 1 - 1);
                mant = push_bit (64 - shift) hi OR drop_bit shift lo
            in fpack64 (fs XOR gs) mant (fe + ge - 1) trunc))"

definition fdiv64 :: "u64 \<Rightarrow> u64 \<Rightarrow> u64" where
  "fdiv64 f g =
     (let (fs, fm, fe, fi, fn) = funpack64 f;
          (gs, gm, ge, gi, gn) = funpack64 g
      in if fn \<or> gn then nan64
         else if fi \<and> gi then nan64
         else if \<not> fi \<and> \<not> gi \<and> fm = 0 \<and> gm = 0 then nan64
         else if fi \<or> \<not> gi \<and> gm = 0 then fs XOR gs XOR inf64
         else if gi \<or> fm = 0 then fs XOR gs XOR 0
         else
           (let shift = 52 + 2;
                (q, r) = divlu (drop_bit (64 - shift) fm) (push_bit shift fm) gm
            in fpack64 (fs XOR gs) q (fe - ge - 2) r))"

definition f64to32 :: "u64 \<Rightarrow> u32" where
  "f64to32 f =
     (let (fs, fm, fe, fi, fn) = funpack64 f
      in if fn then nan32
         else (let fs32 = ucast (drop_bit 32 fs) :: u32
               in if fi then fs32 XOR inf32
                  else (let d = 52 - 23 - 1
                        in fpack32 fs32 (ucast (drop_bit d fm)) (fe - 1)
                             (ucast (fm AND (push_bit d 1 - 1))))))"

definition f32to64 :: "u32 \<Rightarrow> u64" where
  "f32to64 f =
     (let d = 52 - 23;
          (fs, fm, fe, fi, fn) = funpack32 f
      in if fn then nan64
         else (let fs64 = push_bit 32 (ucast fs) :: u64
               in if fi then fs64 XOR inf64
                  else fpack64 fs64 (push_bit d (ucast fm)) fe 0))"

definition fcmp64 :: "u64 \<Rightarrow> u64 \<Rightarrow> int \<times> bool" where
  "fcmp64 f g =
     (let (fs, fm, _, fi, fn) = funpack64 f;
          (gs, gm, _, gi, gn) = funpack64 g
      in if fn \<or> gn then (0, True)
         else if \<not> fi \<and> \<not> gi \<and> fm = 0 \<and> gm = 0 then (0, False)
         else if fs > gs then (- 1, False)
         else if fs < gs then (1, False)
         else if fs = 0 \<and> f < g \<or> fs \<noteq> 0 \<and> f > g then (- 1, False)
         else if fs = 0 \<and> f > g \<or> fs \<noteq> 0 \<and> f < g then (1, False)
         else (0, False))"

fun shl_times :: "nat \<Rightarrow> u64 \<Rightarrow> u64" where
  "shl_times 0 m = m"
| "shl_times (Suc n) m = shl_times n (push_bit 1 m)"

fun shr_times :: "nat \<Rightarrow> u64 \<Rightarrow> u64" where
  "shr_times 0 m = m"
| "shr_times (Suc n) m = shr_times n (drop_bit 1 m)"

text \<open>The two counting loops of \<open>f64toint\<close> run \<open>fe - 52\<close> and \<open>52 - fe\<close> times.\<close>

definition f64toint :: "u64 \<Rightarrow> u64 \<times> bool" where
  "f64toint f =
     (let (fs, fm, fe, fi, fn) = funpack64 f
      in if fi \<or> fn then (0, False)
         else if fe < - 1 then (0, False)
         else if fe > 63 then
           (if fs \<noteq> 0 \<and> fm = 0 then (push_bit 63 (- 1), True)
            else if fs \<noteq> 0 then (0, False)
            else (0, False))
         else
           (let fm = shl_times (nat (fe - 52)) fm;
                fm = shr_times (nat (52 - fe)) fm;
                val = fm
            in (if fs \<noteq> 0 then - val else val, True)))"

definition fintto64 :: "u64 \<Rightarrow> u64" where
  "fintto64 val =
     (let fs = val AND push_bit 63 1;
          mant = (if fs \<noteq> 0 then - val else val)
      in fpack64 fs mant 52 0)"

section \<open>The 64 by 64 bit product\<close>

lemma unat_low_bits: "unat (x AND (push_bit n 1 - 1)) = unat x mod 2 ^ n"
proof -
  have "push_bit n 1 - 1 = (mask n :: 'a word)"
    by (simp only: mask_eq_exp_minus_1 push_bit_of_1)
  then show ?thesis by (simp only: unat_and_mask)
qed

lemma unat_mult_small:
  fixes x y :: "'a::len word"
  shows "unat x * unat y < 2 ^ LENGTH('a) \<Longrightarrow> unat (x * y) = unat x * unat y"
  by (simp add: unat_word_ariths)

lemma unat_plus_small:
  fixes x y :: "'a::len word"
  shows "unat x + unat y < 2 ^ LENGTH('a) \<Longrightarrow> unat (x + y) = unat x + unat y"
  by (simp add: unat_word_ariths)

lemma mult_digits_less:
  fixes x y B :: nat
  shows "x < B \<Longrightarrow> y < B \<Longrightarrow> x * y + (B - 1) < B * B"
proof -
  assume "x < B" "y < B"
  then have "x * y \<le> (B - 1) * (B - 1)" by (intro mult_mono) auto
  moreover have "(B - 1) * (B - 1) + (B - 1) = (B - 1) * B"
    by (metis add.commute mult_Suc_right Suc_diff_1 \<open>x < B\<close> gr_implies_not0 gr0I)
  ultimately have "x * y + (B - 1) \<le> (B - 1) * B" by linarith
  also have "\<dots> < B * B" using \<open>x < B\<close> by simp
  finally show ?thesis .
qed

lemma product_by_digits:
  fixes B :: nat
  assumes "t = u1 * v0 + u0 * v0 div B" and "w = t mod B + u0 * v1"
  shows "(u1 * B + u0) * (v1 * B + v0) =
    (u1 * v1 + t div B + w div B) * (B * B) + w mod B * B + u0 * v0 mod B"
proof -
  have w: "w div B * (B * B) + w mod B * B = w * B"
    by (metis div_mult_mod_eq distrib_right mult.assoc)
  have t: "t div B * (B * B) + t mod B * B = t * B"
    by (metis div_mult_mod_eq distrib_right mult.assoc)
  have "w * B = t mod B * B + u0 * v1 * B" by (simp add: assms(2) distrib_right)
  moreover have "t * B = u1 * v0 * B + u0 * v0 div B * B" by (simp add: assms(1) distrib_right)
  moreover have "(u1 * v1 + t div B + w div B) * (B * B) =
      u1 * v1 * (B * B) + t div B * (B * B) + w div B * (B * B)" by (simp only: distrib_right)
  moreover have "(u1 * B + u0) * (v1 * B + v0) = u1 * v1 * (B * B) + u1 * v0 * B + u0 * v1 * B + u0 * v0"
    by (simp add: algebra_simps)
  ultimately show ?thesis using w t div_mult_mod_eq [of "u0 * v0" B] by linarith
qed

lemma div_of_digits: "r < M \<Longrightarrow> (q * M + r) div M = (q :: nat)"
  by simp

lemma mullu_product:
  assumes "mullu u v = (lo, hi)"
  shows "unat hi * 2 ^ 64 + unat lo = unat u * unat v"
proof -
  define B :: nat where "B = 2 ^ 32"
  define u0 u1 v0 v1 where "u0 = unat u mod B" and "u1 = unat u div B"
    and "v0 = unat v mod B" and "v1 = unat v div B"
  define t where "t = u1 * v0 + u0 * v0 div B"
  define w where "w = t mod B + u0 * v1"
  have BB: "B * B = 2 ^ 64" and B0: "0 < B" by (simp_all add: B_def)
  have lt: "u0 < B" "v0 < B" "u1 < B" "v1 < B"
    using unat_lt2p [of u] unat_lt2p [of v] B0 BB
    by (simp_all add: u0_def v0_def u1_def v1_def less_mult_imp_div_less)
  have w0: "u0 * v0 < B * B" using mult_digits_less [OF lt(1,2)] by linarith
  have "u0 * v0 div B \<le> B - 1" using w0 B0 by (simp add: less_mult_imp_div_less Suc_leI flip: less_Suc_eq_le)
  then have tb: "t < B * B" unfolding t_def using mult_digits_less [OF lt(3,2)] by linarith
  have "t mod B \<le> B - 1" using B0 by (simp flip: less_Suc_eq_le)
  then have wb: "w < B * B" unfolding w_def using mult_digits_less [OF lt(1,4)] by linarith
  define wu0 wu1 wv0 wv1 where "wu0 = u AND (push_bit 32 1 - 1)" and "wu1 = drop_bit 32 u"
    and "wv0 = v AND (push_bit 32 1 - 1)" and "wv1 = drop_bit 32 v"
  have n: "unat wu0 = u0" "unat wu1 = u1" "unat wv0 = v0" "unat wv1 = v1"
    unfolding wu0_def wu1_def wv0_def wv1_def u0_def u1_def v0_def v1_def B_def unat_low_bits unat_shr
    by simp_all
  have "unat (wu0 * wv0) = u0 * v0" using w0 BB by (simp add: unat_mult_small n)
  moreover have "unat (wu1 * wv0) = u1 * v0"
    using mult_digits_less [OF lt(3,2)] BB by (simp add: unat_mult_small n)
  ultimately have wt: "unat (wu1 * wv0 + drop_bit 32 (wu0 * wv0)) = t"
    using tb BB by (simp add: unat_plus_small unat_shr t_def B_def)
  define wt where "wt = wu1 * wv0 + drop_bit 32 (wu0 * wv0)"
  have "unat (wu0 * wv1) = u0 * v1"
    using mult_digits_less [OF lt(1,4)] BB by (simp add: unat_mult_small n)
  moreover have "unat (wt AND (push_bit 32 1 - 1)) = t mod B"
    unfolding unat_low_bits by (simp add: wt_def wt B_def)
  ultimately have ww: "unat ((wt AND (push_bit 32 1 - 1)) + wu0 * wv1) = w"
    using wb BB by (simp add: unat_plus_small w_def)
  have prod: "unat u * unat v = (u1 * v1 + t div B + w div B) * (B * B) + w mod B * B + u0 * v0 mod B"
    using product_by_digits [OF t_def w_def] by (simp add: u0_def u1_def v0_def v1_def)
  have "w mod B * B + u0 * v0 mod B < B * B"
  proof -
    have "w mod B \<le> B - 1" "u0 * v0 mod B < B" using B0 by (simp_all flip: less_Suc_eq_le)
    then have "w mod B * B + u0 * v0 mod B < (B - 1) * B + B" by (simp add: add_le_less_mono)
    also have "\<dots> = B * B" using B0 by (metis add.commute mult_Suc Suc_diff_1)
    finally show ?thesis .
  qed
  then have hd: "unat u * unat v div (B * B) = u1 * v1 + t div B + w div B"
    unfolding prod add.assoc [of _ "w mod B * B"] by (rule div_of_digits)
  have "unat u * unat v < 2 ^ 64 * 2 ^ 64"
    using unat_lt2p [of u] unat_lt2p [of v] by (intro mult_strict_mono) auto
  then have hb: "u1 * v1 + t div B + w div B < 2 ^ 64"
    unfolding hd [symmetric] BB by (simp add: less_mult_imp_div_less)
  define wx where "wx = (wt AND (push_bit 32 1 - 1)) + wu0 * wv1"
  have "hi = wu1 * wv1 + drop_bit 32 wt + drop_bit 32 wx" and lo: "lo = u * v"
    using assms unfolding mullu_def Let_def wx_def wt_def wu0_def wu1_def wv0_def wv1_def by auto
  moreover have "unat wt = t" "unat wx = w"
    using wt ww by (simp_all only: wt_def wx_def)
  moreover have "unat (wu1 * wv1) = u1 * v1"
    using hb by (simp add: unat_mult_small n)
  ultimately have "unat hi = u1 * v1 + t div B + w div B"
    using hb by (simp add: unat_plus_small unat_shr B_def)
  moreover have "unat lo = unat u * unat v mod 2 ^ 64"
    by (simp add: lo unat_word_ariths)
  ultimately show ?thesis
    using hd unfolding BB by (metis div_mult_mod_eq)
qed

section \<open>The 128 by 64 bit quotient\<close>

text \<open>One quotient digit of Knuth's algorithm D, on natural numbers.\<close>

lemma digit_not_too_big:
  fixes q B :: nat
  assumes "N = U * B + un" and "V = v1 * B + v0" and "q * v1 + r = U"
    and "q * v0 \<le> B * r + un" and "0 < V"
  shows "q \<le> N div V"
proof -
  have "q * V = q * v1 * B + q * v0" by (simp add: assms(2) algebra_simps)
  also have "\<dots> \<le> q * v1 * B + (B * r + un)" using assms(4) by simp
  also have "\<dots> = N" by (simp add: assms(1) assms(3) [symmetric] algebra_simps)
  finally show ?thesis using assms(5) by (simp add: less_eq_div_iff_mult_less_eq)
qed

lemma digit_too_big:
  fixes q B :: nat
  assumes "N = U * B + un" and "V = v1 * B + v0" and "q * v1 + r = U" and "q * v0 > B * r + un"
  shows "N div V < q"
proof -
  have "N = q * v1 * B + (B * r + un)" by (simp add: assms(1) assms(3) [symmetric] algebra_simps)
  also have "\<dots> < q * v1 * B + q * v0" using assms(4) by simp
  also have "\<dots> = q * V" by (simp add: assms(2) algebra_simps)
  finally show ?thesis by (simp add: less_mult_imp_div_less)
qed

lemma digit_below_base:
  fixes B :: nat
  assumes "U < V" and "un < B"
  shows "(U * B + un) div V < B"
proof -
  have "U * B + un < (U + 1) * B" using assms(2) by simp
  also have "\<dots> \<le> V * B" using assms(1) by (intro mult_le_mono1) simp
  finally show ?thesis by (simp add: less_mult_imp_div_less mult.commute)
qed

lemma unat_dec: "x \<noteq> 0 \<Longrightarrow> unat (x - 1) = unat x - 1"
  by (metis unat_1 unat_gt_0 unat_sub word_le_nat_alt Suc_leI One_nat_def)

lemma divlu_adjust_digit:
  fixes vn1 vn0 un q rhat :: u64
  defines "B \<equiv> (2::nat) ^ 32"
  defines "V \<equiv> unat vn1 * B + unat vn0"
  assumes v: "B \<le> 2 * unat vn1" "unat vn1 < B" "unat vn0 < B" and un: "unat un < B"
    and U: "U < V" "unat q * unat vn1 + unat rhat = U"
    and q: "(U * B + unat un) div V \<le> unat q" "unat q \<le> B + 1" and r: "unat rhat < B"
  shows "fst (divlu_adjust vn1 vn0 un q rhat) = of_nat ((U * B + unat un) div V)"
  using U(2) q r
proof (induction "B - unat rhat" arbitrary: q rhat rule: less_induct)
  case less
  let ?b = "push_bit 32 1 :: u64" and ?Q = "(U * B + unat un) div V"
  note inv = less.prems(1) and ge = less.prems(2) and le = less.prems(3) and rB = less.prems(4)
  have V0: "0 < V" using U(1) by simp
  note Veq = V_def [THEN meta_eq_to_obj_eq]
  have BB: "B * B = 2 ^ 64" and b: "unat ?b = B" by (simp_all add: B_def)
  have c1: "q \<ge> ?b \<longleftrightarrow> B \<le> unat q" unfolding word_le_nat_alt b ..
  have "unat q * unat vn0 \<le> (B + 1) * (B - 1)" using le v(3) by (intro mult_mono) auto
  also have "\<dots> < 2 ^ 64" by (simp add: B_def)
  finally have m: "unat (q * vn0) = unat q * unat vn0" by (simp add: unat_mult_small)
  have "B * unat rhat + unat un < B * (unat rhat + 1)" using un by simp
  also have "\<dots> \<le> 2 ^ 64" unfolding BB [symmetric] using rB by (intro mult_le_mono) auto
  finally have "unat (?b * rhat + un) = B * unat rhat + unat un"
    using b by (simp only: unat_word_ariths mod_less) (simp add: mod_less)
  then have c2: "q * vn0 > ?b * rhat + un \<longleftrightarrow> unat q * unat vn0 > B * unat rhat + unat un"
    by (simp only: word_less_nat_alt m)
  show ?case
  proof (cases "q \<ge> ?b \<or> q * vn0 > ?b * rhat + un")
    case False
    then have "unat q \<le> ?Q"
      using c2 by (intro digit_not_too_big [OF refl Veq inv _ V0]) simp
    with ge have "unat q = ?Q" by simp
    then have "q = of_nat ?Q" by (metis of_nat_unat ucast_id)
    moreover have "divlu_adjust vn1 vn0 un q rhat = (q, rhat)"
      using False by (simp add: divlu_adjust.simps [of vn1 vn0 un q])
    ultimately show ?thesis by simp
  next
    case True
    then have lt: "?Q < unat q"
      using c1 c2 digit_too_big [OF refl Veq inv] digit_below_base [OF U(1) un] by auto
    then have q': "unat (q - 1) = unat q - 1" by (intro unat_dec) auto
    have r': "unat (rhat + vn1) = unat rhat + unat vn1"
      using rB v(2) by (intro unat_plus_small) (simp add: B_def)
    have inv': "unat (q - 1) * unat vn1 + unat (rhat + vn1) = U"
      using lt inv unfolding q' r' by (cases "unat q") auto
    show ?thesis
    proof (cases "rhat + vn1 < ?b")
      case rec: True
      then have "unat (rhat + vn1) < B" unfolding word_less_nat_alt b .
      then have "fst (divlu_adjust vn1 vn0 un (q - 1) (rhat + vn1)) = of_nat ?Q"
        using v lt le inv' r' q' by (intro less.hyps) auto
      moreover have "vn1 \<noteq> 0" "vn1 < ?b"
        using v(1,2) b by (auto simp: word_less_nat_alt B_def)
      ultimately show ?thesis
        using True rec by (simp add: divlu_adjust.simps [of vn1 vn0 un q] Let_def)
    next
      case stop: False
      then have rb: "B \<le> unat (rhat + vn1)" unfolding word_less_nat_alt b by simp
      have "unat (q - 1) * unat vn0 \<le> B * B" using le v(3) q' by (intro mult_mono) auto
      also have "\<dots> \<le> B * unat (rhat + vn1) + unat un" using rb by (intro trans_le_add1 mult_le_mono2)
      finally have "unat (q - 1) \<le> ?Q"
        by (intro digit_not_too_big [OF refl Veq inv' _ V0])
      with lt q' have "unat (q - 1) = ?Q" by simp
      then have "q - 1 = of_nat ?Q" by (metis of_nat_unat ucast_id)
      moreover have "divlu_adjust vn1 vn0 un q rhat = (q - 1, rhat + vn1)"
        using True stop by (simp add: divlu_adjust.simps [of vn1 vn0 un q] Let_def)
      ultimately show ?thesis by simp
    qed
  qed
qed

lemma nlz_norm_shifts:
  assumes "v \<noteq> 0"
  shows "\<exists>j v'. nlz_norm s v = (s + j, v') \<and> unat v' = unat v * 2 ^ j \<and> 2 ^ 63 \<le> unat v' \<and> j \<le> 63"
proof -
  have "\<exists>j v'. nlz_norm s v = (s + j, v') \<and> unat v' = unat v * 2 ^ j \<and> 2 ^ 63 \<le> unat v'"
    using assms
  proof (induction s v rule: nlz_norm.induct)
    case (1 s v)
    show ?case
    proof (cases "v AND push_bit 63 1 = 0")
      case True
      then have lt: "unat v < 2 ^ 63" by (rule top_bit_clear)
      then have d: "unat (push_bit 1 v) = unat v * 2" by (simp add: unat_double)
      then have "push_bit 1 v \<noteq> 0" using "1.prems" by (metis mult_eq_0_iff unat_eq_zero zero_neq_numeral)
      with "1.IH" "1.prems" True obtain j v' where
        "nlz_norm (s + 1) (push_bit 1 v) = (s + 1 + j, v')" "unat v' = unat (push_bit 1 v) * 2 ^ j" "2 ^ 63 \<le> unat v'"
        by blast
      with "1.prems" True d show ?thesis
        by (intro exI [of _ "Suc j"] exI [of _ v']) (simp add: nlz_norm.simps [of s v])
    next
      case False
      then have "bit v 63" using and_push_bit_1_iff [of v 63] by simp
      then have "2 ^ 63 \<le> unat v" by (rule bit_word_ge)
      with False show ?thesis
        by (intro exI [of _ 0] exI [of _ v]) (simp add: nlz_norm.simps [of s v])
    qed
  qed
  then obtain j v' where j: "nlz_norm s v = (s + j, v')" "unat v' = unat v * 2 ^ j" "2 ^ 63 \<le> unat v'" by blast
  have "2 ^ j \<le> unat v * 2 ^ j" using assms by (simp add: Suc_leI unat_gt_0)
  also have "\<dots> < 2 ^ 64" using j(2) unat_lt2p [of v'] by simp
  finally have "j < 64" by (rule power_less_imp_less_exp [rotated]) simp
  then have "j \<le> 63" by simp
  with j show ?thesis by blast
qed

text \<open>One pass of the digit loop computes the digit and leaves the exact remainder.\<close>

lemma divlu_step:
  fixes v U un :: u64
  assumes v: "2 ^ 63 \<le> unat v" and U: "U < v" and un: "unat un < 2 ^ 32"
  defines "vn1 \<equiv> drop_bit 32 v" and "vn0 \<equiv> v AND (push_bit 32 1 - 1)"
  defines "N \<equiv> unat U * 2 ^ 32 + unat un"
  defines "q \<equiv> fst (divlu_adjust vn1 vn0 un (U div vn1) (U - U div vn1 * vn1))"
  shows "unat q = N div unat v" and "unat (U * push_bit 32 1 + un - q * v) = N mod unat v"
proof -
  let ?B = "(2::nat) ^ 32"
  have n1: "unat vn1 = unat v div ?B" and n0: "unat vn0 = unat v mod ?B"
    unfolding vn1_def vn0_def by (simp_all only: unat_shr unat_low_bits)
  then have V: "unat v = unat vn1 * ?B + unat vn0" by simp
  have n1b: "?B \<le> 2 * unat vn1" "unat vn1 < ?B" "unat vn0 < ?B"
    using v unat_lt2p [of v] unfolding n1 n0 by (simp_all add: less_mult_imp_div_less)
  have u: "unat U < unat v" using U by (simp add: word_less_nat_alt)
  have q0: "unat (U div vn1) = unat U div unat vn1" by (simp add: unat_div_distrib)
  have r0: "unat (U - U div vn1 * vn1) = unat U mod unat vn1"
    by (metis minus_div_mult_eq_mod unat_mod_distrib)
  have qle: "unat U div unat vn1 \<le> ?B + 1"
  proof -
    have "unat U < (?B + 2) * unat vn1"
      using u V n1b by (simp add: distrib_right)
    then have "unat U div unat vn1 < ?B + 2" by (simp add: less_mult_imp_div_less)
    then show ?thesis by simp
  qed
  have ge: "N div unat v \<le> unat U div unat vn1"
  proof -
    have "0 < unat vn1" using n1b(1) by (cases "unat vn1") auto
    then have "unat U < (unat U div unat vn1 + 1) * unat vn1"
      by (metis Suc_eq_plus1 dividend_less_div_times mult.commute mult_Suc)
    then have "unat U + 1 \<le> (unat U div unat vn1 + 1) * unat vn1" by simp
    then have "(unat U + 1) * ?B \<le> (unat U div unat vn1 + 1) * unat vn1 * ?B" by (rule mult_le_mono1)
    also have "\<dots> \<le> (unat U div unat vn1 + 1) * unat v"
      unfolding mult.assoc by (intro mult_le_mono2) (simp add: V)
    finally have "N < (unat U div unat vn1 + 1) * unat v" using un unfolding N_def by simp
    then show ?thesis by (simp add: less_mult_imp_div_less flip: less_Suc_eq_le)
  qed
  have "unat (U - U div vn1 * vn1) < ?B"
    unfolding r0 using n1b by (intro less_trans [OF mod_less_divisor]) auto
  moreover have "unat (U div vn1) * unat vn1 + unat (U - U div vn1 * vn1) = unat U"
    unfolding q0 r0 by (rule div_mult_mod_eq)
  ultimately have qw: "q = of_nat (N div unat v)"
    unfolding q_def N_def V
    using ge [unfolded N_def V] qle u [unfolded V]
    by (intro divlu_adjust_digit [OF n1b un]) (simp_all only: q0)
  have "N div unat v < ?B"
    unfolding N_def using u un by (rule digit_below_base)
  then show "unat q = N div unat v"
    by (simp add: qw unsigned_of_nat take_bit_eq_mod)
  have "U * push_bit 32 1 + un - q * v = of_nat (N - N div unat v * unat v)"
    unfolding qw by (simp add: of_nat_diff N_def)
  moreover have "N - N div unat v * unat v = N mod unat v" by (rule minus_div_mult_eq_mod)
  moreover have "N mod unat v < 2 ^ 64"
    using u unat_lt2p [of v] by (metis less_trans mod_less_divisor not_less_zero gr0I len64)
  ultimately show "unat (U * push_bit 32 1 + un - q * v) = N mod unat v"
    by (simp add: unsigned_of_nat take_bit_eq_mod)
qed

lemma unat_or_disjoint:
  fixes x y :: "'a::len word"
  assumes "x AND y = 0" and "unat x + unat y < 2 ^ LENGTH('a)"
  shows "unat (x OR y) = unat x + unat y"
  using assms by (simp add: unat_plus_small flip: disjunctive_add_eq_or)

lemma shifted_dividend:
  fixes u1 u0 :: u64
  assumes "s \<le> 63" and "unat u1 * 2 ^ s + 2 ^ s \<le> 2 ^ 64"
  defines "un32 \<equiv> push_bit s u1 OR drop_bit (64 - s) u0"
  shows "unat un32 = unat u1 * 2 ^ s + unat u0 div 2 ^ (64 - s)"
    and "unat un32 * 2 ^ 64 + unat (push_bit s u0) = (unat u1 * 2 ^ 64 + unat u0) * 2 ^ s"
proof -
  have p: "(2::nat) ^ 64 = 2 ^ (64 - s) * 2 ^ s" using assms(1) by (simp flip: power_add)
  have h: "unat u0 div 2 ^ (64 - s) < 2 ^ s"
    using unat_lt2p [of u0] p by (simp add: less_mult_imp_div_less mult.commute)
  have "push_bit s u1 AND drop_bit (64 - s) u0 = 0"
    using assms(1) by (intro bit_word_eqI) (auto simp: bit_simps dest: bit_imp_le_length)
  moreover have a: "unat (push_bit s u1) = unat u1 * 2 ^ s"
  proof (intro unat_shl)
    have "(0::nat) < 2 ^ s" by simp
    then show "unat u1 * 2 ^ s < 2 ^ LENGTH(64)" using assms(2) unfolding len64 by linarith
  qed
  moreover have "unat (push_bit s u1) + unat (drop_bit (64 - s) u0) < 2 ^ LENGTH(64)"
    unfolding a unat_shr using h assms(2) unfolding len64 by linarith
  ultimately show u: "unat un32 = unat u1 * 2 ^ s + unat u0 div 2 ^ (64 - s)"
    unfolding un32_def by (subst unat_or_disjoint) (simp_all add: unat_shr)
  have "unat u0 * 2 ^ s div 2 ^ 64 = unat u0 div 2 ^ (64 - s)"
    unfolding p by simp
  moreover have "unat u0 * 2 ^ s = unat u0 * 2 ^ s div 2 ^ 64 * 2 ^ 64 + unat (push_bit s u0)"
    unfolding unat_push_bit len64 by (rule div_mult_mod_eq [symmetric])
  ultimately show "unat un32 * 2 ^ 64 + unat (push_bit s u0) = (unat u1 * 2 ^ 64 + unat u0) * 2 ^ s"
    unfolding u by (simp add: algebra_simps)
qed

lemma two_digit_division:
  fixes B V :: nat
  assumes "0 < V"
  shows "((U * B + a) * B + b) div V = (U * B + a) div V * B + ((U * B + a) mod V * B + b) div V"
    and "((U * B + a) * B + b) mod V = ((U * B + a) mod V * B + b) mod V"
proof -
  let ?N = "U * B + a"
  have "?N * B + b = (?N div V * V + ?N mod V) * B + b" by simp
  also have "\<dots> = (?N mod V * B + b) + V * (?N div V * B)" by (simp only: algebra_simps)
  finally have e: "?N * B + b = (?N mod V * B + b) + V * (?N div V * B)" .
  show "(?N * B + b) div V = ?N div V * B + (?N mod V * B + b) div V"
    unfolding e using assms by simp
  show "(?N * B + b) mod V = (?N mod V * B + b) mod V"
    unfolding e by simp
qed

lemma divlu_quotient:
  assumes "u1 < v" and "divlu u1 u0 v = (q, r)"
  shows "unat q = (unat u1 * 2 ^ 64 + unat u0) div unat v"
    and "unat r = (unat u1 * 2 ^ 64 + unat u0) mod unat v"
proof -
  let ?B = "(2::nat) ^ 32" and ?U = "unat u1 * 2 ^ 64 + unat u0"
  have "v \<noteq> 0" using assms(1) by auto
  then obtain s v' where nz: "nlz_norm 0 v = (s, v')" and v': "unat v' = unat v * 2 ^ s"
    and top: "2 ^ 63 \<le> unat v'" and s: "s \<le> 63" using nlz_norm_shifts [of v 0] by auto
  define un32 un10 where "un32 = push_bit s u1 OR drop_bit (64 - s) u0" and "un10 = push_bit s u0"
  define un1 un0 where "un1 = drop_bit 32 un10" and "un0 = un10 AND (push_bit 32 1 - 1)"
  define vn1 vn0 where "vn1 = drop_bit 32 v'" and "vn0 = v' AND (push_bit 32 1 - 1)"
  define q1 where "q1 = fst (divlu_adjust vn1 vn0 un1 (un32 div vn1) (un32 - un32 div vn1 * vn1))"
  define un21 where "un21 = un32 * push_bit 32 1 + un1 - q1 * v'"
  define q0 where "q0 = fst (divlu_adjust vn1 vn0 un0 (un21 div vn1) (un21 - un21 div vn1 * vn1))"
  have nle: "\<not> v \<le> u1" using assms(1) by simp
  have "divlu u1 u0 v = (q1 * push_bit 32 1 + q0, drop_bit s (un21 * push_bit 32 1 + un0 - q0 * v'))"
    unfolding divlu_def if_not_P [OF nle] Let_def nz prod.case split_beta fst_conv snd_conv q0_def un21_def q1_def vn1_def
      vn0_def un1_def un0_def un32_def un10_def ..
  then have qr: "q = q1 * push_bit 32 1 + q0" "r = drop_bit s (un21 * push_bit 32 1 + un0 - q0 * v')"
    using assms(2) by simp_all
  have "unat u1 + 1 \<le> unat v" using assms(1) by (simp add: word_less_nat_alt)
  then have ub: "unat u1 * 2 ^ s + 2 ^ s \<le> unat v'"
    unfolding v' by (metis add.commute mult_Suc mult_le_mono1 Suc_eq_plus1)
  then have "unat u1 * 2 ^ s + 2 ^ s \<le> 2 ^ 64" using unat_lt2p [of v'] by simp
  note sd = shifted_dividend [OF s this, of u0, folded un32_def un10_def]
  have "unat u0 div 2 ^ (64 - s) < 2 ^ s"
    using unat_lt2p [of u0] s by (simp add: less_mult_imp_div_less flip: power_add)
  then have U32: "un32 < v'" using ub sd(1) by (simp add: word_less_nat_alt)
  have u10: "unat un1 < ?B" "unat un0 < ?B" "unat un10 = unat un1 * ?B + unat un0"
    unfolding un1_def un0_def unat_shr unat_low_bits using unat_lt2p [of un10]
    by (simp_all add: less_mult_imp_div_less)
  note step1 = divlu_step [OF top U32 u10(1), folded vn1_def vn0_def, folded q1_def, folded un21_def]
  have "un21 < v'" using step1(2) top by (simp add: word_less_nat_alt)
  note step2 = divlu_step [OF top this u10(2), folded vn1_def vn0_def, folded q0_def]
  have "unat un32 * 2 ^ 64 + unat un10 = (unat un32 * ?B + unat un1) * ?B + unat un0"
    using u10(3) by (simp add: algebra_simps)
  then have X: "(unat un32 * ?B + unat un1) * ?B + unat un0 = ?U * 2 ^ s"
    using sd(2) by simp
  have V0: "0 < unat v'" using top by simp
  note D = two_digit_division [OF V0, of "unat un32" ?B "unat un1" "unat un0", unfolded X]
  have "unat q1 < ?B" "unat q0 < ?B"
    unfolding step1(1) step2(1) using U32 \<open>un21 < v'\<close> u10
    by (auto intro!: digit_below_base simp: word_less_nat_alt)
  then have "unat q1 * ?B + unat q0 < 2 ^ 64" by simp
  then have "unat q = unat q1 * ?B + unat q0"
    unfolding qr by (simp add: unat_word_ariths)
  also have "\<dots> = ?U * 2 ^ s div (unat v * 2 ^ s)"
    using D(1) step1 step2(1) v' by simp
  finally show "unat q = ?U div unat v" by simp
  have "unat r = ?U * 2 ^ s mod (unat v * 2 ^ s) div 2 ^ s"
    unfolding qr unat_shr step2(2) using D(2) step1(2) v' by simp
  then show "unat r = ?U mod unat v" by (simp add: mult_mod_left [symmetric])
qed

section \<open>Packing what was unpacked\<close>

lemma norm_up_shifts:
  fixes mant :: "'a::len word"
  assumes "mant \<noteq> 0" and "unat mant < 2 ^ Suc mb" and "Suc mb < LENGTH('a)"
  shows "\<exists>j\<le>mb. norm_up mb mant exp = (push_bit j mant, exp - int j) \<and>
           2 ^ mb \<le> unat mant * 2 ^ j \<and> unat mant * 2 ^ j < 2 ^ Suc mb"
proof -
  have "\<exists>j. norm_up mb mant exp = (push_bit j mant, exp - int j) \<and>
           2 ^ mb \<le> unat mant * 2 ^ j \<and> unat mant * 2 ^ j < 2 ^ Suc mb \<and> (j = 0 \<or> unat mant * 2 ^ (j - 1) < 2 ^ mb)"
    using assms
  proof (induction mb mant exp rule: norm_up.induct)
    case (1 mb mant exp)
    show ?case
    proof (cases "mant < push_bit mb 1")
      case True
      note b = norm_up_decreases(1) [OF "1.prems"(1) True] below_exp_word(2) [OF True]
      have "push_bit 1 mant \<noteq> 0"
        using b(1) "1.prems"(1) by (metis mult_eq_0_iff push_bit_double push_bit_0_id id_apply One_nat_def unat_eq_zero zero_neq_numeral push_bit_Suc)
      then obtain j where j: "norm_up mb (push_bit 1 mant) (exp - 1) = (push_bit j (push_bit 1 mant), exp - 1 - int j)"
        "2 ^ mb \<le> unat (push_bit 1 mant) * 2 ^ j" "unat (push_bit 1 mant) * 2 ^ j < 2 ^ Suc mb"
        "j = 0 \<or> unat (push_bit 1 mant) * 2 ^ (j - 1) < 2 ^ mb"
        using "1.IH" "1.prems" True b by auto
      have "unat mant * 2 ^ j < 2 ^ mb" using j(3) b(1) by simp
      moreover have "push_bit j (push_bit 1 mant) = push_bit (Suc j) mant" by (simp only: push_bit_push_bit) simp
      ultimately show ?thesis
        using j b(1) "1.prems"(1) True
        by (intro exI [of _ "Suc j"]) (simp add: norm_up.simps [of mb mant])
    next
      case False
      moreover have "unat (push_bit mb 1 :: 'a word) = 2 ^ mb" using "1.prems"(3) by (intro unat_exp_word) simp
      ultimately have "2 ^ mb \<le> unat mant" by (simp only: word_less_nat_alt not_less)
      with False "1.prems" show ?thesis
        by (intro exI [of _ 0]) (simp add: norm_up.simps [of mb mant])
    qed
  qed
  then obtain j where j: "norm_up mb mant exp = (push_bit j mant, exp - int j)"
    "2 ^ mb \<le> unat mant * 2 ^ j" "unat mant * 2 ^ j < 2 ^ Suc mb" by blast
  have "2 ^ j \<le> unat mant * 2 ^ j" using assms(1) by (simp add: Suc_leI unat_gt_0)
  also note j(3)
  finally have "j < Suc mb" by (rule power_less_imp_less_exp [rotated]) simp
  with j show ?thesis by (intro exI [of _ j]) simp
qed

lemma norm_up_id: "\<not> mant < push_bit mb 1 \<Longrightarrow> norm_up mb mant exp = (mant, exp)"
  by (simp add: norm_up.simps [of mb mant])

lemma norm_down_id: "\<not> push_bit mb 4 \<le> mant \<Longrightarrow> norm_down mb mant exp trunc = (mant, exp, trunc)"
  by (simp add: norm_down.simps [of mb mant])

lemma denorm_shifts:
  fixes m :: "'a::len word"
  assumes "unat m * 2 ^ i < 2 ^ LENGTH('a)"
  shows "denorm eb (push_bit i m) (fbias eb - int i) 0 = (m, fbias eb, 0)"
  using assms
proof (induction i)
  case 0
  then show ?case by (simp add: denorm.simps [of eb m])
next
  case (Suc i)
  have lt: "unat m * 2 ^ i < 2 ^ LENGTH('a)"
    using Suc.prems by (simp add: mult.assoc [symmetric])
  have "unat (push_bit (Suc i) m) = unat (push_bit i m) * 2"
    using Suc.prems lt by (simp only: unat_shl) simp
  then have half: "drop_bit 1 (push_bit (Suc i) m) = push_bit i m"
    by (intro word_unat_eq_iff [THEN iffD2]) (simp only: unat_shr, simp)
  have "push_bit (Suc i) m AND 1 = 0"
    by (intro bit_word_eqI) (auto simp: bit_simps bit_1_iff simp del: push_bit_Suc)
  with half Suc.IH [OF lt] show ?case
    by (simp add: denorm.simps [of eb "push_bit (Suc i) m"] del: push_bit_Suc)
qed

text \<open>
  A binary interchange format: \<open>mb\<close> mantissa bits, \<open>eb\<close> exponent bits and a sign bit in a word.
\<close>

locale float_format =
  fixes mb eb :: nat and fmt :: "'a::len itself"
  assumes width: "LENGTH('a) = mb + eb + 1" and exponent: "2 \<le> eb"
begin

lemma unat_multiples:
  "unat (push_bit mb 1 :: 'a word) = 2 ^ mb" "unat (push_bit mb 2 :: 'a word) = 2 * 2 ^ mb"
  "unat (push_bit mb 4 :: 'a word) = 4 * 2 ^ mb"
proof -
  have "(4::nat) * 2 ^ mb = 2 ^ (mb + 2)" by (simp add: power_add)
  also have "\<dots> < 2 ^ LENGTH('a)" using width exponent by (intro power_strict_increasing) auto
  finally have b: "(4::nat) * 2 ^ mb < 2 ^ LENGTH('a)" .
  have "2 ^ 3 \<le> (2::nat) ^ LENGTH('a)" using width exponent by (intro power_increasing) auto
  then have "unat (2 :: 'a word) = 2" "unat (4 :: 'a word) = 4"
    by (simp_all add: unsigned_numeral take_bit_eq_mod)
  with b show "unat (push_bit mb 2 :: 'a word) = 2 * 2 ^ mb" "unat (push_bit mb 4 :: 'a word) = 4 * 2 ^ mb"
    by (simp_all only: unat_shl)
  show "unat (push_bit mb 1 :: 'a word) = 2 ^ mb" using width by (intro unat_exp_word) simp
qed

lemma fields_of_word:
  fixes f :: "'a word"
  shows "(f AND push_bit (mb + eb) 1) OR push_bit mb (drop_bit mb f AND mask eb) OR (f AND mask mb) = f"
proof (rule bit_word_eqI)
  fix n assume "n < LENGTH('a)"
  then have "n < mb \<or> mb \<le> n \<and> n < mb + eb \<or> n = mb + eb" using width by auto
  then show "bit ((f AND push_bit (mb + eb) 1) OR push_bit mb (drop_bit mb f AND mask eb) OR (f AND mask mb)) n = bit f n"
    by (auto simp: bit_simps bit_1_iff width simp del: push_bit_of_1 dest: bit_imp_le_length)
qed

lemma mask_minus: "push_bit n 1 - 1 = (mask n :: 'a word)"
  by (simp only: mask_eq_exp_minus_1 push_bit_of_1)

lemma fpack_normal:
  fixes m sign infw :: "'a word"
  assumes "unat m < 2 ^ mb" and "0 < e" and "e < 2 ^ eb - 1"
  shows "fpack mb eb infw sign (m OR push_bit mb 1) (int e + fbias eb) 0 =
           sign OR push_bit mb (of_nat e) OR m"
proof -
  let ?m = "m OR push_bit mb 1"
  have mm: "m = m AND mask mb"
    using assms(1) by (intro word_unat_eq_iff [THEN iffD2]) (simp only: unat_and_mask mod_less)
  have d: "m AND push_bit mb 1 = 0" by (subst mm) (rule and_mask_and_exp, simp)
  have "unat m + unat (push_bit mb 1 :: 'a word) < 2 ^ LENGTH('a)"
  proof -
    have "unat m + unat (push_bit mb 1 :: 'a word) < 2 ^ Suc mb" using assms(1) unat_multiples(1) by simp
    also have "\<dots> \<le> 2 ^ LENGTH('a)" using width by (intro power_increasing) auto
    finally show ?thesis .
  qed
  then have u: "unat ?m = unat m + 2 ^ mb"
    using unat_or_disjoint [OF d] unat_multiples(1) by simp
  then have c: "\<not> ?m < push_bit mb 1" "\<not> push_bit mb 2 \<le> ?m" "\<not> push_bit mb 4 \<le> ?m" "?m \<noteq> 0"
    using assms(1) unat_multiples unfolding word_less_nat_alt word_le_nat_alt by auto
  have low: "?m AND mask mb = m"
  proof -
    have z: "push_bit mb 1 AND mask mb = (0 :: 'a word)"
      by (intro bit_word_eqI) (auto simp: bit_simps bit_1_iff simp del: push_bit_of_1)
    show ?thesis unfolding bit.conj_disj_distrib2 z mm [symmetric] by simp
  qed
  have "e + 1 < 2 ^ eb" using assms(3) by simp
  then have "int (e + 1) < int (2 ^ eb)" by (simp only: of_nat_less_iff)
  then have "int e < 2 ^ eb - 1" by simp
  then show ?thesis
    using c assms(2) unfolding fpack_def Let_def norm_up_id [OF c(1)] norm_down_id [OF c(3)] prod.case mask_minus low
    by (simp add: low [unfolded push_bit_of_1])
qed

lemma fpack_denormal:
  fixes m sign infw :: "'a word"
  assumes "m \<noteq> 0" and "unat m < 2 ^ mb" and "norm_up mb m (fbias eb + 1) = (m', e')"
  shows "fpack mb eb infw sign m' e' 0 = sign OR m"
proof -
  have mb: "Suc mb < LENGTH('a)" using width exponent by simp
  have "unat m < 2 ^ Suc mb" using assms(2) by simp
  from norm_up_shifts [OF assms(1) this mb, of "fbias eb + 1"] assms(3) obtain j where
    j: "j \<le> mb" "m' = push_bit j m" "e' = fbias eb + 1 - int j" "2 ^ mb \<le> unat m * 2 ^ j"
    "unat m * 2 ^ j < 2 ^ Suc mb" by auto
  have "j \<noteq> 0" using j(4) assms(2) by (cases j) auto
  then obtain i where i: "j = Suc i" by (cases j) auto
  have "(2::nat) ^ Suc mb \<le> 2 ^ LENGTH('a)" using mb by (intro power_increasing) auto
  with j(5) have fit: "unat m * 2 ^ j < 2 ^ LENGTH('a)" by linarith
  then have um: "unat m' = unat m * 2 ^ j" unfolding j(2) by (rule unat_shl)
  have c: "\<not> m' < push_bit mb 1" "\<not> push_bit mb 2 \<le> m'" "\<not> push_bit mb 4 \<le> m'" "m' \<noteq> 0"
  proof -
    have "0 < unat m'" unfolding um using j(4) by (rule less_le_trans [rotated]) simp
    then show "m' \<noteq> 0" by auto
    show "\<not> m' < push_bit mb 1" "\<not> push_bit mb 2 \<le> m'" "\<not> push_bit mb 4 \<le> m'"
      unfolding word_less_nat_alt word_le_nat_alt unat_multiples um using j(4,5) by auto
  qed
  have fit1: "unat m * 2 ^ 1 < 2 ^ LENGTH('a)" using \<open>unat m < 2 ^ Suc mb\<close> assms(2) \<open>2 ^ Suc mb \<le> _\<close> by simp
  then have u1: "unat (push_bit 1 m) = unat m * 2 ^ 1" by (rule unat_shl)
  have "denorm eb m' e' 0 = (push_bit 1 m, fbias eb, 0)"
  proof -
    have "m' = push_bit i (push_bit 1 m)" unfolding j(2) i push_bit_push_bit by simp
    moreover have "unat (push_bit 1 m) * 2 ^ i < 2 ^ LENGTH('a)"
      unfolding u1 using fit i by (simp add: mult.assoc)
    moreover have "e' = fbias eb - int i" unfolding j(3) i by simp
    ultimately show ?thesis by (simp only: denorm_shifts)
  qed
  moreover have "push_bit 1 m AND 1 = 0"
    by (intro bit_word_eqI) (auto simp: bit_push_bit_iff bit_and_iff bit_1_iff simp del: push_bit_Suc One_nat_def)
  moreover have "drop_bit 1 (push_bit 1 m) = m"
    by (intro word_unat_eq_iff [THEN iffD2]) (simp only: unat_shr u1, simp)
  moreover have "m < push_bit mb 1"
    unfolding word_less_nat_alt unat_multiples(1) by (rule assms(2))
  moreover have "\<not> e' \<ge> 2 ^ eb - 1 + fbias eb" "e' < fbias eb + 1" "\<not> e' < fbias eb - int mb"
    using j(1,3) \<open>j \<noteq> 0\<close> power_increasing [OF exponent, of "2::int"] by auto
  ultimately show ?thesis
    unfolding fpack_def Let_def norm_up_id [OF c(1)] norm_down_id [OF c(3)] prod.case
    by (simp only: c prod.case if_False if_True simp_thms)
qed

lemma fpack_funpack:
  fixes f infw :: "'a word"
  assumes "funpack mb eb f = (sign, mant, exp, False, False)"
  shows "fpack mb eb infw sign mant exp 0 = f"
proof -
  define m e where "m = f AND mask mb" and "e = unat (drop_bit mb f AND mask eb)"
  have mlt: "unat m < 2 ^ mb" unfolding m_def unat_and_mask by simp
  have ee: "of_nat e = drop_bit mb f AND mask eb" unfolding e_def by simp
  have "e < 2 ^ eb" unfolding e_def unat_and_mask by simp
  have f: "(f AND push_bit (mb + eb) 1) OR push_bit mb (of_nat e) OR m = f"
    unfolding ee m_def by (rule fields_of_word)
  note u = assms [unfolded funpack_def Let_def mask_minus, folded m_def, folded e_def]
  have n: "int e \<noteq> 2 ^ eb - 1" using u by (auto split: if_splits)
  consider "e = 0" "m = 0" | "e = 0" "m \<noteq> 0" | "0 < e" by auto
  then show ?thesis
  proof cases
    case 1
    then have "sign = f AND push_bit (mb + eb) 1" "mant = 0" using u n by auto
    with f 1 show ?thesis by (simp add: fpack_def)
  next
    case 2
    then have "sign = f AND push_bit (mb + eb) 1" "norm_up mb m (fbias eb + 1) = (mant, exp)"
      using u n by (auto split: prod.splits)
    with f 2 mlt show ?thesis by (simp add: fpack_denormal)
  next
    case 3
    then have s: "sign = f AND push_bit (mb + eb) 1" "mant = m OR push_bit mb 1" "exp = int e + fbias eb"
      using u n by auto
    have "e < 2 ^ eb - 1"
    proof -
      have "int e < 2 ^ eb" using \<open>e < 2 ^ eb\<close> by (metis of_nat_less_iff of_nat_numeral of_nat_power)
      then have "int e < 2 ^ eb - 1" using n by linarith
      then have "int (e + 1) < int (2 ^ eb)" by simp
      then have "e + 1 < 2 ^ eb" by (simp only: of_nat_less_iff)
      then show ?thesis by simp
    qed
    then show ?thesis unfolding s using fpack_normal [OF mlt 3] f by simp
  qed
qed

end

interpretation f64: float_format 52 11 "TYPE(64)"
  by unfold_locales simp_all

interpretation f32: float_format 23 8 "TYPE(32)"
  by unfold_locales simp_all

section \<open>Comparison\<close>

text \<open>
  The order of the encodings of numbers: sign and magnitude as one integer. Both zeros have key 0.
\<close>

definition f64_key :: "u64 \<Rightarrow> int" where
  "f64_key f = (if bit f 63 then - int (unat f mod 2 ^ 63) else int (unat f mod 2 ^ 63))"

definition f64_is_nan :: "u64 \<Rightarrow> bool" where
  "f64_is_nan f \<longleftrightarrow> unat f div 2 ^ 52 mod 2 ^ 11 = 2047 \<and> unat f mod 2 ^ 52 \<noteq> 0"

lemma funpack64_fields:
  assumes "funpack64 f = (s, m, e, i, n)"
  shows "s = f AND push_bit 63 1" and "n \<longleftrightarrow> f64_is_nan f"
    and "\<not> i \<and> \<not> n \<and> m = 0 \<longleftrightarrow> unat f mod 2 ^ 63 = 0"
proof -
  let ?m = "f AND (push_bit 52 1 - 1)" and ?e = "unat (drop_bit 52 f AND (push_bit 11 1 - 1))"
  have m0: "?m = 0 \<longleftrightarrow> unat f mod 2 ^ 52 = 0"
    unfolding unat_eq_zero [symmetric] unat_low_bits ..
  have e: "?e = unat f div 2 ^ 52 mod 2 ^ 11" unfolding unat_low_bits unat_shr ..
  have z: "unat f mod 2 ^ 63 = 0 \<longleftrightarrow> unat f mod 2 ^ 52 = 0 \<and> unat f div 2 ^ 52 mod 2 ^ 11 = 0"
    using mod_mult2_eq [of "unat f" "2 ^ 52" "2 ^ 11"] by auto
  note u = assms [unfolded funpack64_def funpack_def Let_def e]
  have nz: "fst (norm_up 52 x y) \<noteq> 0" if xnz: "x \<noteq> 0" for x :: u64 and y
  proof (cases "unat x < 2 ^ Suc 52")
    case True
    then obtain j where j: "norm_up 52 x y = (push_bit j x, y - int j)" "2 ^ 52 \<le> unat x * 2 ^ j" "unat x * 2 ^ j < 2 ^ Suc 52"
      using norm_up_shifts [OF xnz, of 52 y] by auto
    then have "unat (push_bit j x) = unat x * 2 ^ j" by (intro unat_shl) simp
    with j show ?thesis by auto
  next
    case False
    then have "\<not> x < push_bit 52 1" by (simp add: word_less_nat_alt)
    then show ?thesis using xnz norm_up_id [of x 52 y] by simp
  qed
  have or_nz: "x OR push_bit 52 1 \<noteq> 0" for x :: u64
  proof
    assume "x OR push_bit 52 1 = 0"
    then have "\<not> bit (x OR push_bit 52 1) 52" by simp
    then show False by (simp add: bit_or_iff bit_push_bit_iff del: push_bit_of_1)
  qed
  show "s = f AND push_bit 63 1" using u by (auto split: if_splits prod.splits)
  show "n \<longleftrightarrow> f64_is_nan f"
    unfolding f64_is_nan_def using u m0 by (auto split: if_splits prod.splits)
  show "\<not> i \<and> \<not> n \<and> m = 0 \<longleftrightarrow> unat f mod 2 ^ 63 = 0"
    unfolding z using u m0 nz [of ?m "0 + fbias 11 + 1"] or_nz [of ?m]
    by (auto split: if_splits prod.splits)
qed

lemma unat_by_sign:
  fixes f :: u64
  shows "unat f = (if bit f 63 then 2 ^ 63 else 0) + unat f mod 2 ^ 63"
proof (cases "bit f 63")
  case True
  then have "2 ^ 63 \<le> unat f" by (rule bit_word_ge)
  then show ?thesis using True unat_lt2p [of f] by (simp add: le_mod_geq)
next
  case False
  then have "f AND push_bit 63 1 = 0" using and_push_bit_1_iff [of f 63] by simp
  then have "unat f < 2 ^ 63" by (rule top_bit_clear)
  then show ?thesis using False by simp
qed

lemma fcmp64_key:
  assumes "\<not> f64_is_nan f" and "\<not> f64_is_nan g"
  shows "fcmp64 f g = (sgn (f64_key f - f64_key g), False)"
proof -
  obtain fs fm fe fi fn where F: "funpack64 f = (fs, fm, fe, fi, fn)" by (metis prod_cases5)
  obtain gs gm ge gi gn where G: "funpack64 g = (gs, gm, ge, gi, gn)" by (metis prod_cases5)
  note f = funpack64_fields [OF F] and g = funpack64_fields [OF G]
  define S :: u64 where "S = push_bit 63 1"
  have sgn: "x AND S = (if bit x 63 then S else 0)" for x :: u64
  proof (rule bit_word_eqI)
    fix n assume "n < LENGTH(64)"
    then show "bit (x AND S) n = bit (if bit x 63 then S else 0) n"
      unfolding S_def by (cases "n = 63") (auto simp: bit_simps bit_1_iff simp del: push_bit_of_1)
  qed
  have fs: "fs = (if bit f 63 then S else 0)" and gs: "gs = (if bit g 63 then S else 0)"
    using f(1) g(1) sgn unfolding S_def by auto
  have S0: "S \<noteq> 0" "0 < S" "\<not> S < 0" by (simp_all add: S_def)
  have lt: "f < g \<longleftrightarrow> unat f mod 2 ^ 63 < unat g mod 2 ^ 63" if "bit f 63 = bit g 63"
    using that unat_by_sign [of f] unat_by_sign [of g] unfolding word_less_nat_alt by (auto split: if_splits)
  have gt: "g < f \<longleftrightarrow> unat g mod 2 ^ 63 < unat f mod 2 ^ 63" if "bit f 63 = bit g 63"
    using that unat_by_sign [of f] unat_by_sign [of g] unfolding word_less_nat_alt by (auto split: if_splits)
  have both: "\<not> fi \<and> \<not> gi \<and> fm = 0 \<and> gm = 0 \<longleftrightarrow> unat f mod 2 ^ 63 = 0 \<and> unat g mod 2 ^ 63 = 0"
    using f(2,3) g(2,3) assms by auto
  show ?thesis
  proof (cases "unat f mod 2 ^ 63 = 0 \<and> unat g mod 2 ^ 63 = 0")
    case True
    with both f(2) g(2) assms show ?thesis by (simp add: fcmp64_def F G f64_key_def)
  next
    case False
    then have nb: "\<not> (\<not> fi \<and> \<not> gi \<and> fm = 0 \<and> gm = 0)" using both by simp
    have nn: "\<not> (fn \<or> gn)" using f(2) g(2) assms by simp
    have "fcmp64 f g = (if fs > gs then (- 1, False) else if fs < gs then (1, False)
        else if fs = 0 \<and> f < g \<or> fs \<noteq> 0 \<and> f > g then (- 1, False)
        else if fs = 0 \<and> f > g \<or> fs \<noteq> 0 \<and> f < g then (1, False) else (0, False))"
      unfolding fcmp64_def F G Let_def prod.case if_not_P [OF nb] if_not_P [OF nn] ..
    then show ?thesis
      unfolding fs gs using False lt gt S0
      by (cases "bit f 63"; cases "bit g 63") (auto simp: f64_key_def sgn_if)
  qed
qed

section \<open>Subtraction with cancellation\<close>

lemma fbias_11: "fbias 11 = - 1023"
  by (simp add: fbias_def)

text \<open>\<open>fpack64\<close> on a subnormal value whose exponent is not below the bias: the significand is not aligned.\<close>

lemma fpack64_unaligned:
  assumes "x \<noteq> 0" "unat x * 2 ^ (e - 1) < 2 ^ 52" "3 \<le> e" "e \<le> 1000"
  shows "fpack64 0 (push_bit 2 x) (int e - 1025) 0 = push_bit 1 x"
proof -
  obtain k where e: "e = k + 3" using assms(3) by (metis add.commute le_Suc_ex)
  have x0: "0 < unat x" using assms(1) by (simp add: unat_gt_0)
  have d: "unat x * 4 * 2 ^ k < 2 ^ 52" using assms(2) by (simp add: e power_add mult.assoc)
  then have x52: "unat x * 4 < 2 ^ 52" by (rule le_less_trans [rotated]) simp
  then have um: "unat (push_bit 2 x) = unat x * 4" using unat_shl [of x 2] by simp
  then have nz: "push_bit 2 x \<noteq> 0" using x0 by (metis mult_eq_0_iff unat_0 less_irrefl zero_neq_numeral)
  obtain j where j: "j \<le> 52" "norm_up 52 (push_bit 2 x) (int e - 1025) = (push_bit j (push_bit 2 x), int e - 1025 - int j)"
    "2 ^ 52 \<le> unat x * 4 * 2 ^ j" "unat x * 4 * 2 ^ j < 2 ^ 53"
    using norm_up_shifts [OF nz, of 52 "int e - 1025"] um x52 by auto
  have "k < j"
  proof (rule ccontr)
    assume "\<not> k < j"
    then have "(2::nat) ^ j \<le> 2 ^ k" by (intro power_increasing) auto
    then have "unat x * 4 * 2 ^ j \<le> unat x * 4 * 2 ^ k" by (rule mult_le_mono2)
    then show False using d j(3) by linarith
  qed
  define m where "m = push_bit j (push_bit 2 x)"
  have "unat m = unat x * 4 * 2 ^ j" unfolding m_def using unat_shl [of "push_bit 2 x" j] um j(4) by simp
  then have c: "\<not> push_bit 52 4 \<le> m" "\<not> push_bit 52 2 \<le> m" using j(4) by (simp_all add: word_le_nat_alt)
  have even: "push_bit 2 x AND 1 = 0"
    by (intro bit_word_eqI) (auto simp: bit_push_bit_iff bit_and_iff bit_1_iff simp del: push_bit_Suc One_nat_def)
  have half: "drop_bit 1 (push_bit 2 x) = push_bit 1 x"
    using x52 unat_shl [of x 1] by (intro word_unat_eq_iff [THEN iffD2]) (simp only: unat_shr um, simp)
  have sub: "push_bit 1 x < push_bit 52 1" using x52 unat_shl [of x 1] by (simp add: word_less_nat_alt)
  have dn: "denorm 11 (push_bit 2 x) (int e - 1025) 0 = (push_bit 2 x, int e - 1025, 0)"
    using assms(3) by (subst denorm.simps) (simp add: fbias_11)
  show ?thesis
    unfolding fpack64_def fpack_def Let_def j(2) prod.case m_def [symmetric] norm_down_id [OF c(1)] dn even half fbias_11
    using nz c(2) sub \<open>k < j\<close> j(1) assms(4) half by (simp add: e half [simplified])
qed

lemma low_bits_flip:
  "(g XOR push_bit 63 1) AND (push_bit 52 1 - 1) = g AND (push_bit 52 1 - 1 :: u64)"
  "drop_bit 52 (g XOR push_bit 63 1) AND (push_bit 11 1 - 1) = drop_bit 52 g AND (push_bit 11 1 - 1 :: u64)"
proof -
  have m: "push_bit 52 1 - 1 = (mask 52 :: u64)" "push_bit 11 1 - 1 = (mask 11 :: u64)"
    by (simp_all only: mask_eq_exp_minus_1 push_bit_of_1)
  show "(g XOR push_bit 63 1) AND (push_bit 52 1 - 1) = g AND (push_bit 52 1 - 1 :: u64)"
    "drop_bit 52 (g XOR push_bit 63 1) AND (push_bit 11 1 - 1) = drop_bit 52 g AND (push_bit 11 1 - 1 :: u64)"
    unfolding m by (auto intro!: bit_word_eqI simp: bit_simps bit_1_iff simp del: push_bit_of_1)
qed

lemma funpack64_normal:
  assumes "unat f = 2 ^ 52 * e + m" "m < 2 ^ 52" "0 < e" "e < 2047"
  obtains fm where "unat fm = 2 ^ 52 + m" "funpack64 f = (0, fm, int e - 1023, False, False)"
    "funpack64 (fneg64 f) = (push_bit 63 1, fm, int e - 1023, False, False)"
proof -
  define fm where "fm = (f AND (push_bit 52 1 - 1)) OR push_bit 52 1"
  have low: "unat (f AND (push_bit 52 1 - 1)) = m" using assms(1,2) by (simp only: unat_low_bits mod_mult_self4 mod_less)
  have ex: "unat (drop_bit 52 f AND (push_bit 11 1 - 1)) = e" using assms by (simp only: unat_low_bits unat_shr) simp
  have "f AND push_bit 63 1 = 0 \<and> (f XOR push_bit 63 1) AND push_bit 63 1 = push_bit 63 1"
  proof -
    have "unat f < 2 ^ 63" using assms by simp
    then have "\<not> bit f 63" using bit_word_ge [of f 63] by linarith
    then have "f AND push_bit 63 1 = 0" using and_push_bit_1_iff [of f 63] by simp
    then show ?thesis by (simp only: bit.conj_xor_distrib2 and.idem xor.left_neutral simp_thms)
  qed
  then have s: "f AND push_bit 63 1 = 0" "(f XOR push_bit 63 1) AND push_bit 63 1 = push_bit 63 1" by simp_all
  have u: "unat fm = 2 ^ 52 + m"
  proof -
    have "(f AND (push_bit 52 1 - 1)) AND push_bit 52 1 = 0"
    proof -
      have m: "push_bit 52 1 - 1 = (mask 52 :: u64)" by (simp only: mask_eq_exp_minus_1 push_bit_of_1)
      show ?thesis unfolding m by (auto intro!: bit_word_eqI simp: bit_simps bit_1_iff simp del: push_bit_of_1)
    qed
    then show ?thesis unfolding fm_def using low assms(2) by (subst unat_or_disjoint) simp_all
  qed
  have n: "(52 :: nat) + 11 = 63" by simp
  have e: "int e \<noteq> 2 ^ 11 - 1" "int e \<noteq> 0" using assms(3,4) by simp_all
  have "funpack64 f = (0, fm, int e - 1023, False, False)"
    "funpack64 (fneg64 f) = (push_bit 63 1, fm, int e - 1023, False, False)"
    unfolding funpack64_def fneg64_def funpack_def Let_def n s low_bits_flip ex fm_def fbias_11 using e
    by (simp_all only: if_False) simp_all
  then show ?thesis using u by (rule that [rotated])
qed

text \<open>
  The value of a non-negative finite double in units of the least subnormal, 2^-1074.
\<close>

definition f64_units :: "u64 \<Rightarrow> nat" where
  "f64_units f =
     (let e = unat f div 2 ^ 52 mod 2 ^ 11; m = unat f mod 2 ^ 52
      in if e = 0 then m else (2 ^ 52 + m) * 2 ^ (e - 1))"

lemma unat_of_nat_units: "n < 2 ^ 52 \<Longrightarrow> unat (of_nat n :: u64) = n"
  by (simp add: unat_of_nat)

lemma f64_units_normal: "unat f = 2 ^ 52 * e + m \<Longrightarrow> m < 2 ^ 52 \<Longrightarrow> 0 < e \<Longrightarrow> e < 2047 \<Longrightarrow> f64_units f = (2 ^ 52 + m) * 2 ^ (e - 1)"
  by (simp add: f64_units_def Let_def)

lemma f64_units_subnormal: "unat f < 2 ^ 52 \<Longrightarrow> f64_units f = unat f"
  by (simp add: f64_units_def Let_def)

lemma fsub64_same_exponent:
  assumes f: "unat f = 2 ^ 52 * e + (m + d)" "m + d < 2 ^ 52" and g: "unat g = 2 ^ 52 * e + m"
    and d: "0 < d" "d * 2 ^ (e - 1) < 2 ^ 52" and e: "3 \<le> e" "e \<le> 1000"
  shows "unat (fsub64 f g) = 2 * d"
proof -
  obtain fm where fm: "unat fm = 2 ^ 52 + (m + d)" "funpack64 f = (0, fm, int e - 1023, False, False)"
    by (rule funpack64_normal [OF f]) (use e in auto)
  obtain gm where gm: "unat gm = 2 ^ 52 + m" "funpack64 (fneg64 g) = (push_bit 63 1, gm, int e - 1023, False, False)"
    by (rule funpack64_normal [OF g]) (use e f in auto)
  define x where "x = fm - gm"
  have "gm \<le> fm" using fm gm by (simp add: word_le_nat_alt)
  then have x: "unat x = d" using fm gm by (simp add: x_def unat_sub)
  have nz: "fm \<noteq> 0" "gm \<noteq> 0" "x \<noteq> 0" "\<not> fm < gm" using fm gm x d(1) \<open>gm \<le> fm\<close> by (auto simp: not_less)
  have p: "push_bit 2 fm - push_bit 2 gm = push_bit 2 x" by (simp add: x_def push_bit_eq_mult left_diff_distrib)
  have d51: "d < 2 ^ 51"
  proof -
    have "(2::nat) ^ 1 \<le> 2 ^ (e - 1)" using e by (intro power_increasing) auto
    then have "d * 2 ^ 1 \<le> d * 2 ^ (e - 1)" by (rule mult_le_mono2)
    then have "d * 2 ^ 1 < 2 ^ 52" using d(2) by (rule le_less_trans)
    then show ?thesis by simp
  qed
  have p0: "push_bit 2 x \<noteq> 0"
  proof
    assume "push_bit 2 x = 0"
    moreover have "unat (push_bit 2 x) = d * 4" using unat_shl [of x 2] x d51 by simp
    ultimately show False using d(1) by simp
  qed
  have s: "(push_bit 63 1 :: u64) \<noteq> 0" by simp
  have "fsub64 f g = fpack64 0 (push_bit 2 x) (int e - 1025) 0"
    unfolding fsub64_def fadd64_def fm(2) gm(2) Let_def prod.case using nz s p by simp
  also have "\<dots> = push_bit 1 x" using nz(3) x d(2) e by (intro fpack64_unaligned) auto
  finally show ?thesis using unat_shl [of x 1] x d51 by simp
qed

section \<open>Properties\<close>

text \<open>\<open>mullu\<close> returns the exact 128-bit product of two 64-bit numbers as a low and a high word; no
  partial sum overflows.\<close>

theorem mullu_exact:
  "case mullu u v of (lo, hi) \<Rightarrow> unat hi * 2 ^ 64 + unat lo = unat u * unat v"
  by (auto split: prod.split dest: mullu_product)

text \<open>C23: \<open>divlu\<close> divides a 128-bit number by a 64-bit divisor exactly whenever the quotient fits in 64
  bits: normalisation, both quotient digits and their corrections give the true quotient and
  remainder.\<close>

theorem divlu_exact:
  assumes "u1 < v"
  shows "case divlu u1 u0 v of (q, r) \<Rightarrow>
    unat q = (unat u1 * 2 ^ 64 + unat u0) div unat v \<and> unat r = (unat u1 * 2 ^ 64 + unat u0) mod unat v"
  using divlu_quotient [OF assms] by (auto split: prod.split)

theorem divlu_exact_witness:
  "(3 :: u64) < 5 \<and> (case divlu 3 7 5 of (q, r) \<Rightarrow>
     unat q = (3 * 2 ^ 64 + 7) div 5 \<and> unat r = (3 * 2 ^ 64 + 7) mod 5)"
  using divlu_exact [of 3 5 7] by simp

text \<open>C24: Packing the fields that \<open>funpack64\<close> extracted from a number (zero, subnormal or normal, of
  either sign) gives back the same bit pattern.\<close>

theorem fpack64_funpack64:
  assumes "funpack64 f = (sign, mant, exp, False, False)"
  shows "fpack64 sign mant exp 0 = f"
  using assms unfolding fpack64_def funpack64_def by (rule f64.fpack_funpack)

theorem fpack64_funpack64_witness:
  "funpack64 0x4008000000000000 = (0, 0x18000000000000, 1, False, False) \<and>
   fpack64 0 0x18000000000000 1 0 = 0x4008000000000000"
proof -
  have "funpack64 0x4008000000000000 = (0, 0x18000000000000, 1, False, False)"
    by (simp add: funpack64_def funpack_def fbias_def Let_def)
  then show ?thesis using fpack64_funpack64 by blast
qed

text \<open>The same round trip holds for the 32-bit format.\<close>

theorem fpack32_funpack32:
  assumes "funpack32 f = (sign, mant, exp, False, False)"
  shows "fpack32 sign mant exp 0 = f"
  using assms unfolding fpack32_def funpack32_def by (rule f32.fpack_funpack)

theorem fpack32_funpack32_witness:
  "funpack32 0x40400000 = (0, 0xC00000, 1, False, False) \<and> fpack32 0 0xC00000 1 0 = 0x40400000"
proof -
  have "funpack32 0x40400000 = (0, 0xC00000, 1, False, False)"
    by (simp add: funpack32_def funpack_def fbias_def Let_def)
  then show ?thesis using fpack32_funpack32 by blast
qed

text \<open>\<open>fcmp64\<close> on two numbers that are not NaN is the sign of the difference of their
  sign-magnitude keys, so it is a total order in which both zeros are equal; a NaN on either side
  is reported as such.\<close>

theorem fcmp64_compares:
  "fcmp64 f g = (if f64_is_nan f \<or> f64_is_nan g then (0, True)
                 else (sgn (f64_key f - f64_key g), False))"
proof (cases "f64_is_nan f \<or> f64_is_nan g")
  case True
  obtain fs fm fe fi fn where F: "funpack64 f = (fs, fm, fe, fi, fn)" by (metis prod_cases5)
  obtain gs gm ge gi gn where G: "funpack64 g = (gs, gm, ge, gi, gn)" by (metis prod_cases5)
  show ?thesis
    using True funpack64_fields(2) [OF F] funpack64_fields(2) [OF G] by (auto simp: fcmp64_def F G)
next
  case False
  then show ?thesis by (simp add: fcmp64_key)
qed

text \<open>C25: Subtraction with cancellation is wrong near the bottom of the range: for every two positive normal doubles
  of the same exponent (field \<open>e\<close>, at least 3) whose exact difference is subnormal, \<open>fsub64\<close> returns the exact
  difference, which is representable, divided by \<open>2\<^sup>e\<^sup>-\<^sup>2\<close>. \<open>fpack64\<close> aligns a subnormal by shifting right while the exponent
  is below the bias, but it never shifts left when the exponent it was given is already above the bias.\<close>

theorem fsub64_cancellation_wrong:
  assumes "unat f div 2 ^ 52 = e" "unat g div 2 ^ 52 = e" "3 \<le> e" "e < 2047" "g < f" "f64_units f - f64_units g < 2 ^ 52"
  shows "f64_units (of_nat (f64_units f - f64_units g)) = f64_units f - f64_units g \<and>
    f64_units f - f64_units g = f64_units (fsub64 f g) * 2 ^ (e - 2) \<and>
    0 < f64_units (fsub64 f g) \<and> f64_units (fsub64 f g) < f64_units f - f64_units g"
proof -
  define m where "m = unat g mod 2 ^ 52"
  define d where "d = unat f mod 2 ^ 52 - m"
  have g: "unat g = 2 ^ 52 * e + m" "m < 2 ^ 52" using assms(2) mult_div_mod_eq [of "2 ^ 52" "unat g"] by (simp_all add: m_def)
  have f0: "unat f = 2 ^ 52 * e + unat f mod 2 ^ 52" using assms(1) mult_div_mod_eq [of "2 ^ 52" "unat f"] by simp
  have lt: "m < unat f mod 2 ^ 52" using assms(5) g(1) f0 unfolding word_less_nat_alt by linarith
  then have f: "unat f = 2 ^ 52 * e + (m + d)" "m + d < 2 ^ 52" "0 < d" using f0 by (simp_all add: d_def)
  have uf: "f64_units f = (2 ^ 52 + (m + d)) * 2 ^ (e - 1)" using assms(3,4) by (intro f64_units_normal [OF f(1,2)]) auto
  have ug: "f64_units g = (2 ^ 52 + m) * 2 ^ (e - 1)" using assms(3,4) by (intro f64_units_normal [OF g]) auto
  have diff: "f64_units f - f64_units g = d * 2 ^ (e - 1)"
    unfolding uf ug by (simp add: diff_mult_distrib [symmetric])
  have small: "d * 2 ^ (e - 1) < 2 ^ 52" using assms(6) unfolding diff .
  have "(2::nat) ^ (e - 1) \<le> d * 2 ^ (e - 1)" using f(3) by simp
  then have "(2::nat) ^ (e - 1) < 2 ^ 52" using small by (rule le_less_trans)
  then have "e - 1 < 52" by (rule power_less_imp_less_exp [rotated]) simp
  then have e: "e \<le> 1000" by simp
  have r: "unat (fsub64 f g) = 2 * d" by (rule fsub64_same_exponent [OF f(1,2) g(1) f(3) small assms(3) e])
  have pow: "(2::nat) ^ (e - 1) = 2 * 2 ^ (e - 2)" "(2::nat) ^ (e - 2) \<ge> 2 ^ 1"
    using assms(3) power_increasing [of 1 "e - 2" "2::nat"] by (simp_all add: power_Suc [symmetric] Suc_diff_le numeral_3_eq_3 numeral_2_eq_2 Suc_diff_Suc)
  have dd: "2 * d * 2 ^ (e - 2) = d * 2 ^ (e - 1)" unfolding pow(1) by simp
  have "2 * d * 2 \<le> 2 * d * 2 ^ (e - 2)" using pow(2) by (intro mult_le_mono2) simp
  then have lt2: "2 * d < d * 2 ^ (e - 1)" using dd f(3) by linarith
  then have "unat (fsub64 f g) < 2 ^ 52" using small r by linarith
  then have ur: "f64_units (fsub64 f g) = 2 * d" using r by (simp add: f64_units_subnormal)
  have "unat (of_nat (d * 2 ^ (e - 1)) :: u64) = d * 2 ^ (e - 1)" using small by (rule unat_of_nat_units)
  then have "f64_units (of_nat (d * 2 ^ (e - 1))) = d * 2 ^ (e - 1)" using small by (simp only: f64_units_subnormal)
  then show ?thesis unfolding diff ur using dd lt2 f(3) by simp
qed

theorem fsub64_cancellation_wrong_witness:
  "f64_units 0x0030000000000001 - f64_units 0x0030000000000000 = 4 \<and>
   f64_units (fsub64 0x0030000000000001 0x0030000000000000) = 2"
proof -
  have u: "f64_units 0x0030000000000001 - f64_units 0x0030000000000000 = 4" by (simp add: f64_units_def Let_def)
  then show ?thesis using fsub64_cancellation_wrong [of "0x0030000000000001" 3 "0x0030000000000000"] by simp
qed

end
