(* ===== verification/Atomics.thy ===== *)
theory Atomics
  imports Prelude
begin

text \<open>
  The atomic operations of the mips32 and mips32le ports:
  \<^verbatim>\<open>src/src/runtime/atomic_mips32x.go\<close>, \<^verbatim>\<open>atomic_mips32.go\<close> and \<^verbatim>\<open>atomic_mips32le.go\<close>.

  The 32-bit operations are compare-and-swap loops. Each operation is given by its address, the
  value it tries to install as a function of the value it loaded, and its result; the loop itself
  (load, \<open>cas\<close>, retry on failure) is a step relation in which any number of threads interleave.
  \<open>cas\<close> is the assembly primitive: one indivisible compare and store.

  The 64-bit operations run a critical section under one of 57 mutexes selected by the address. A
  64-bit access is two 32-bit accesses on this machine, so the step relation reads and writes the
  two halves in separate steps. \<open>lock\<close> and \<open>unlock\<close> are the runtime's mutex: an acquisition waits
  until the mutex is free.
\<close>

section \<open>32-bit compare-and-swap loops\<close>

record cas_loop =
  cl_addr :: u32
  cl_new :: "u32 \<Rightarrow> u32"
  cl_ret :: "u32 \<Rightarrow> u32"

definition xadd :: "u32 \<Rightarrow> u32 \<Rightarrow> cas_loop" where
  "xadd val delta = \<lparr>cl_addr = val, cl_new = (\<lambda>oval. oval + delta), cl_ret = (\<lambda>oval. oval + delta)\<rparr>"

definition xchg :: "u32 \<Rightarrow> u32 \<Rightarrow> cas_loop" where
  "xchg addr v = \<lparr>cl_addr = addr, cl_new = (\<lambda>_. v), cl_ret = (\<lambda>old. old)\<rparr>"

text \<open>Pointers are 32-bit words on this machine, and \<open>casp\<close> is \<open>cas\<close> on them.\<close>

definition xchgp :: "u32 \<Rightarrow> u32 \<Rightarrow> cas_loop" where
  "xchgp addr v = \<lparr>cl_addr = addr, cl_new = (\<lambda>_. v), cl_ret = (\<lambda>old. old)\<rparr>"

definition xchguintptr :: "u32 \<Rightarrow> u32 \<Rightarrow> cas_loop" where
  "xchguintptr addr v = xchg addr v"

definition atomicload :: "u32 \<Rightarrow> cas_loop" where
  "atomicload addr = xadd addr 0"

definition atomicloadp :: "u32 \<Rightarrow> cas_loop" where
  "atomicloadp addr = xadd addr 0"

text \<open>The two stores return nothing; the result of their loop is 0.\<close>

definition atomicstore :: "u32 \<Rightarrow> u32 \<Rightarrow> cas_loop" where
  "atomicstore addr v = \<lparr>cl_addr = addr, cl_new = (\<lambda>_. v), cl_ret = (\<lambda>_. 0)\<rparr>"

definition atomicstorep :: "u32 \<Rightarrow> u32 \<Rightarrow> cas_loop" where
  "atomicstorep addr v = \<lparr>cl_addr = addr, cl_new = (\<lambda>_. v), cl_ret = (\<lambda>_. 0)\<rparr>"

text \<open>The byte-wide OR, which works on the aligned word around the byte.\<close>

definition atomicor8_le :: "u32 \<Rightarrow> u8 \<Rightarrow> cas_loop" where
  "atomicor8_le uaddr v =
     (let word = push_bit (unat (uaddr AND 3) * 8) (ucast v)
      in \<lparr>cl_addr = uaddr AND NOT 3, cl_new = (\<lambda>old. old OR word), cl_ret = (\<lambda>_. 0)\<rparr>)"

definition atomicor8_be :: "u32 \<Rightarrow> u8 \<Rightarrow> cas_loop" where
  "atomicor8_be uaddr v =
     (let word = push_bit (unat (4 - (uaddr AND 3)) * 8) (ucast v)
      in \<lparr>cl_addr = uaddr AND NOT 3, cl_new = (\<lambda>old. old OR word), cl_ret = (\<lambda>_. 0)\<rparr>)"

subsection \<open>Threads interleaving\<close>

datatype cas_thread =
    CasIdle
  | CasStart cas_loop            \<comment> \<open>at the top of the loop\<close>
  | CasLoaded cas_loop u32       \<comment> \<open>the old value has been loaded\<close>
  | CasDone cas_loop u32         \<comment> \<open>returned\<close>

record cas_state =
  cmem :: "u32 \<Rightarrow> u32"
  cthr :: "nat \<Rightarrow> cas_thread"
  clog :: "(nat \<times> cas_loop \<times> u32) list"   \<comment> \<open>successful swaps, latest first\<close>

inductive cas_step :: "cas_state \<Rightarrow> cas_state \<Rightarrow> bool" where
  call: "cthr s t = CasIdle \<or> (\<exists>o' r. cthr s t = CasDone o' r) \<Longrightarrow>
     cas_step s (s\<lparr>cthr := (cthr s)(t := CasStart opn)\<rparr>)"
| load: "cthr s t = CasStart opn \<Longrightarrow>
     cas_step s (s\<lparr>cthr := (cthr s)(t := CasLoaded opn (cmem s (cl_addr opn)))\<rparr>)"
| swap: "cthr s t = CasLoaded opn old \<Longrightarrow> cmem s (cl_addr opn) = old \<Longrightarrow>
     cas_step s (s\<lparr>cmem := (cmem s)(cl_addr opn := cl_new opn old),
                   cthr := (cthr s)(t := CasDone opn (cl_ret opn old)),
                   clog := (t, opn, cl_ret opn old) # clog s\<rparr>)"
| retry: "cthr s t = CasLoaded opn old \<Longrightarrow> cmem s (cl_addr opn) \<noteq> old \<Longrightarrow>
     cas_step s (s\<lparr>cthr := (cthr s)(t := CasStart opn)\<rparr>)"

definition cas_init :: "(u32 \<Rightarrow> u32) \<Rightarrow> cas_state" where
  "cas_init m0 = \<lparr>cmem = m0, cthr = (\<lambda>_. CasIdle), clog = []\<rparr>"

inductive cas_reach :: "(u32 \<Rightarrow> u32) \<Rightarrow> cas_state \<Rightarrow> bool" where
  init: "cas_reach m0 (cas_init m0)"
| step: "cas_reach m0 s \<Longrightarrow> cas_step s s' \<Longrightarrow> cas_reach m0 s'"

text \<open>
  The specification: the operations of the log, executed one at a time in the order of their
  successful swaps, each with the result the thread was given.
\<close>

fun cas_replay :: "(u32 \<Rightarrow> u32) \<Rightarrow> (nat \<times> cas_loop \<times> u32) list \<Rightarrow> (u32 \<Rightarrow> u32) option" where
  "cas_replay m0 [] = Some m0"
| "cas_replay m0 ((t, opn, r) # l) =
     (case cas_replay m0 l of
        None \<Rightarrow> None
      | Some m \<Rightarrow> if r = cl_ret opn (m (cl_addr opn))
                  then Some (m(cl_addr opn := cl_new opn (m (cl_addr opn)))) else None)"

fun last_of :: "nat \<Rightarrow> (nat \<times> 'o \<times> 'r) list \<Rightarrow> ('o \<times> 'r) option" where
  "last_of t [] = None"
| "last_of t ((t', opn, r) # l) = (if t = t' then Some (opn, r) else last_of t l)"

section \<open>64-bit operations under address locks\<close>

datatype section_body =
    Blind u64                             \<comment> \<open>store without reading\<close>
  | Rmw "u64 \<Rightarrow> u64 option \<times> u64"         \<comment> \<open>read, then possibly write; the second component is returned\<close>

record locked_op =
  lo_addr :: u32
  lo_body :: section_body

definition addrLock :: "u32 \<Rightarrow> nat" where
  "addrLock addr = unat (drop_bit 3 addr) mod 57"

text \<open>A boolean result is 1 or 0.\<close>

definition cas64 :: "u32 \<Rightarrow> u64 \<Rightarrow> u64 \<Rightarrow> locked_op" where
  "cas64 addr old new =
     \<lparr>lo_addr = addr, lo_body = Rmw (\<lambda>v. if v = old then (Some new, 1) else (None, 0))\<rparr>"

definition xadd64 :: "u32 \<Rightarrow> u64 \<Rightarrow> locked_op" where
  "xadd64 addr delta = \<lparr>lo_addr = addr, lo_body = Rmw (\<lambda>v. let r = v + delta in (Some r, r))\<rparr>"

definition xchg64 :: "u32 \<Rightarrow> u64 \<Rightarrow> locked_op" where
  "xchg64 addr v = \<lparr>lo_addr = addr, lo_body = Rmw (\<lambda>r. (Some v, r))\<rparr>"

definition atomicload64 :: "u32 \<Rightarrow> locked_op" where
  "atomicload64 addr = \<lparr>lo_addr = addr, lo_body = Rmw (\<lambda>r. (None, r))\<rparr>"

definition atomicstore64 :: "u32 \<Rightarrow> u64 \<Rightarrow> locked_op" where
  "atomicstore64 addr v = \<lparr>lo_addr = addr, lo_body = Blind v\<rparr>"

text \<open>The sequential meaning of a critical section: what it writes and what it returns.\<close>

fun section_effect :: "section_body \<Rightarrow> u64 \<Rightarrow> u64 option \<times> u64" where
  "section_effect (Blind v) _ = (Some v, 0)"
| "section_effect (Rmw f) old = f old"

datatype lk_thread =
    LIdle
  | LWant locked_op                  \<comment> \<open>calling lock\<close>
  | LHeld locked_op                  \<comment> \<open>inside, nothing read yet\<close>
  | LReadLo locked_op u32            \<comment> \<open>low half read\<close>
  | LWrite locked_op u64 u64         \<comment> \<open>value to write and result known\<close>
  | LWroteLo locked_op u64 u64       \<comment> \<open>low half written\<close>
  | LLeave locked_op u64             \<comment> \<open>calling unlock\<close>
  | LDone locked_op u64

record lk_state =
  memlo :: "u32 \<Rightarrow> u32"
  memhi :: "u32 \<Rightarrow> u32"
  locktab :: "nat \<Rightarrow> nat option"
  lthr :: "nat \<Rightarrow> lk_thread"
  llog :: "(nat \<times> locked_op \<times> u64) list"   \<comment> \<open>completed sections, latest first\<close>

inductive lk_step :: "lk_state \<Rightarrow> lk_state \<Rightarrow> bool" where
  lcall: "lthr s t = LIdle \<or> (\<exists>o' r. lthr s t = LDone o' r) \<Longrightarrow>
     lk_step s (s\<lparr>lthr := (lthr s)(t := LWant opn)\<rparr>)"
| lock: "lthr s t = LWant opn \<Longrightarrow> locktab s (addrLock (lo_addr opn)) = None \<Longrightarrow>
     lk_step s (s\<lparr>locktab := (locktab s)(addrLock (lo_addr opn) := Some t),
                  lthr := (lthr s)(t := LHeld opn)\<rparr>)"
| blind: "lthr s t = LHeld opn \<Longrightarrow> lo_body opn = Blind v \<Longrightarrow>
     lk_step s (s\<lparr>lthr := (lthr s)(t := LWrite opn v 0)\<rparr>)"
| read_lo: "lthr s t = LHeld opn \<Longrightarrow> lo_body opn = Rmw f \<Longrightarrow>
     lk_step s (s\<lparr>lthr := (lthr s)(t := LReadLo opn (memlo s (lo_addr opn)))\<rparr>)"
| read_hi_write: "lthr s t = LReadLo opn l \<Longrightarrow> lo_body opn = Rmw f \<Longrightarrow>
     f (join32 (memhi s (lo_addr opn)) l) = (Some w, r) \<Longrightarrow>
     lk_step s (s\<lparr>lthr := (lthr s)(t := LWrite opn w r)\<rparr>)"
| read_hi_only: "lthr s t = LReadLo opn l \<Longrightarrow> lo_body opn = Rmw f \<Longrightarrow>
     f (join32 (memhi s (lo_addr opn)) l) = (None, r) \<Longrightarrow>
     lk_step s (s\<lparr>lthr := (lthr s)(t := LLeave opn r), llog := (t, opn, r) # llog s\<rparr>)"
| write_lo: "lthr s t = LWrite opn w r \<Longrightarrow>
     lk_step s (s\<lparr>memlo := (memlo s)(lo_addr opn := lo32 w), lthr := (lthr s)(t := LWroteLo opn w r)\<rparr>)"
| write_hi: "lthr s t = LWroteLo opn w r \<Longrightarrow>
     lk_step s (s\<lparr>memhi := (memhi s)(lo_addr opn := hi32 w), lthr := (lthr s)(t := LLeave opn r),
                  llog := (t, opn, r) # llog s\<rparr>)"
| unlock: "lthr s t = LLeave opn r \<Longrightarrow>
     lk_step s (s\<lparr>locktab := (locktab s)(addrLock (lo_addr opn) := None),
                  lthr := (lthr s)(t := LDone opn r)\<rparr>)"

definition lk_init :: "(u32 \<Rightarrow> u64) \<Rightarrow> lk_state" where
  "lk_init m0 = \<lparr>memlo = (\<lambda>a. lo32 (m0 a)), memhi = (\<lambda>a. hi32 (m0 a)),
     locktab = (\<lambda>_. None), lthr = (\<lambda>_. LIdle), llog = []\<rparr>"

inductive lk_reach :: "(u32 \<Rightarrow> u64) \<Rightarrow> lk_state \<Rightarrow> bool" where
  linit: "lk_reach m0 (lk_init m0)"
| lstep: "lk_reach m0 s \<Longrightarrow> lk_step s s' \<Longrightarrow> lk_reach m0 s'"

fun lk_replay :: "(u32 \<Rightarrow> u64) \<Rightarrow> (nat \<times> locked_op \<times> u64) list \<Rightarrow> (u32 \<Rightarrow> u64) option" where
  "lk_replay m0 [] = Some m0"
| "lk_replay m0 ((t, opn, r) # l) =
     (case lk_replay m0 l of
        None \<Rightarrow> None
      | Some m \<Rightarrow>
          (case section_effect (lo_body opn) (m (lo_addr opn)) of
             (w, r') \<Rightarrow> if r = r' then
                (case w of None \<Rightarrow> Some m | Some v \<Rightarrow> Some (m(lo_addr opn := v))) else None))"

fun in_section :: "lk_thread \<Rightarrow> u32 option" where
  "in_section (LHeld opn) = Some (lo_addr opn)"
| "in_section (LReadLo opn l) = Some (lo_addr opn)"
| "in_section (LWrite opn w r) = Some (lo_addr opn)"
| "in_section (LWroteLo opn w r) = Some (lo_addr opn)"
| "in_section (LLeave opn r) = Some (lo_addr opn)"
| "in_section _ = None"

section \<open>Lemmas\<close>

definition cas_inv :: "(u32 \<Rightarrow> u32) \<Rightarrow> cas_state \<Rightarrow> bool" where
  "cas_inv m0 s \<longleftrightarrow> cas_replay m0 (clog s) = Some (cmem s) \<and>
     (\<forall>t opn r. cthr s t = CasDone opn r \<longrightarrow> last_of t (clog s) = Some (opn, r))"

lemma cas_step_inv: "cas_step s s' \<Longrightarrow> cas_inv m0 s \<Longrightarrow> cas_inv m0 s'"
  by (induction rule: cas_step.induct) (auto simp: cas_inv_def split: if_splits)

lemma cas_reach_inv: "cas_reach m0 s \<Longrightarrow> cas_inv m0 s"
  by (induction rule: cas_reach.induct) (auto simp: cas_inv_def cas_init_def dest: cas_step_inv)

text \<open>
  The lock invariant. \<open>m\<close> is the memory the log replays to: it is what the two halves hold, except
  that a thread between its two writes has stored the low half of its new value already.
\<close>

fun thread_ok :: "(u32 \<Rightarrow> u64) \<Rightarrow> lk_state \<Rightarrow> nat \<Rightarrow> lk_thread \<Rightarrow> bool" where
  "thread_ok m s t (LReadLo opn l) \<longleftrightarrow> l = lo32 (m (lo_addr opn))"
| "thread_ok m s t (LWrite opn w r) \<longleftrightarrow> section_effect (lo_body opn) (m (lo_addr opn)) = (Some w, r)"
| "thread_ok m s t (LWroteLo opn w r) \<longleftrightarrow>
     section_effect (lo_body opn) (m (lo_addr opn)) = (Some w, r) \<and> memlo s (lo_addr opn) = lo32 w"
| "thread_ok m s t (LLeave opn r) \<longleftrightarrow> last_of t (llog s) = Some (opn, r)"
| "thread_ok m s t (LDone opn r) \<longleftrightarrow> last_of t (llog s) = Some (opn, r)"
| "thread_ok m s t _ \<longleftrightarrow> True"

definition torn :: "lk_state \<Rightarrow> u32 \<Rightarrow> bool" where
  "torn s a \<longleftrightarrow> (\<exists>t opn w r. lthr s t = LWroteLo opn w r \<and> lo_addr opn = a)"

definition lk_inv :: "(u32 \<Rightarrow> u64) \<Rightarrow> (u32 \<Rightarrow> u64) \<Rightarrow> lk_state \<Rightarrow> bool" where
  "lk_inv m0 m s \<longleftrightarrow>
     lk_replay m0 (llog s) = Some m \<and>
     (\<forall>t a. in_section (lthr s t) = Some a \<longrightarrow> locktab s (addrLock a) = Some t) \<and>
     (\<forall>a. memhi s a = hi32 (m a)) \<and>
     (\<forall>a. \<not> torn s a \<longrightarrow> memlo s a = lo32 (m a)) \<and>
     (\<forall>t. thread_ok m s t (lthr s t))"

lemma thread_ok_frame:
  assumes "thread_ok m s t st" and "last_of t (llog s') = last_of t (llog s)"
    and "\<And>a. in_section st = Some a \<Longrightarrow> m' a = m a \<and> memlo s' a = memlo s a"
  shows "thread_ok m' s' t st"
  using assms by (cases st) auto

lemma section_exclusive:
  assumes "lk_inv m0 m s" and "in_section (lthr s t) = Some a" and "in_section (lthr s t') = Some b"
    and "addrLock a = addrLock b"
  shows "t = t'"
proof -
  have K: "\<forall>u c. in_section (lthr s u) = Some c \<longrightarrow> locktab s (addrLock c) = Some u"
    using assms(1) unfolding lk_inv_def by (elim conjE)
  have "locktab s (addrLock a) = Some t" "locktab s (addrLock b) = Some t'"
    using K [rule_format, OF assms(2)] K [rule_format, OF assms(3)] .
  with assms(4) show ?thesis by simp
qed

text \<open>A step of thread \<open>t\<close> that touches memory only at the address whose lock \<open>t\<close> holds.\<close>

lemma lk_inv_local_step:
  assumes inv: "lk_inv m0 m s"
    and thr: "lthr s' = (lthr s)(t := st)"
    and tab: "\<And>b. in_section st = Some b \<Longrightarrow> locktab s' (addrLock b) = Some t"
      "\<And>u b. u \<noteq> t \<Longrightarrow> in_section (lthr s u) = Some b \<Longrightarrow> locktab s' (addrLock b) = Some u"
    and rep: "lk_replay m0 (llog s') = Some m'"
    and log: "\<And>u. u \<noteq> t \<Longrightarrow> last_of u (llog s') = last_of u (llog s)"
    and hi: "\<And>b. memhi s' b = hi32 (m' b)"
    and lo: "\<And>b. \<not> torn s' b \<Longrightarrow> memlo s' b = lo32 (m' b)"
    and frame: "\<And>u b. u \<noteq> t \<Longrightarrow> in_section (lthr s u) = Some b \<Longrightarrow> m' b = m b \<and> memlo s' b = memlo s b"
    and ok: "thread_ok m' s' t st"
  shows "lk_inv m0 m' s'"
proof -
  have "thread_ok m' s' u (lthr s' u)" for u
  proof (cases "u = t")
    case True
    then show ?thesis using thr ok by simp
  next
    case False
    then have "thread_ok m s u (lthr s u)" using inv by (simp add: lk_inv_def)
    from thread_ok_frame [OF this log [OF False] frame [OF False]]
    show ?thesis using thr False by simp
  qed
  then show ?thesis
    unfolding lk_inv_def using thr tab rep hi lo by (auto split: if_splits)
qed

lemma not_torn_other:
  assumes "lk_inv m0 m s" and "in_section (lthr s t) = Some a" and "\<forall>opn w r. lthr s t \<noteq> LWroteLo opn w r"
  shows "\<not> torn s a"
proof
  assume "torn s a"
  then obtain u opn w r where u: "lthr s u = LWroteLo opn w r" "lo_addr opn = a" by (auto simp: torn_def)
  then have "u = t" using section_exclusive [OF assms(1,2), of u a] by simp
  with u assms(3) show False by simp
qed

lemma torn_update:
  assumes "lthr s' = (lthr s)(t := st)" and "\<And>opn w r. lthr s t \<noteq> LWroteLo opn w r"
    and "\<And>opn w r. st \<noteq> LWroteLo opn w r"
  shows "torn s' b = torn s b"
  using assms unfolding torn_def by (metis fun_upd_apply)

lemma lk_step_inv:
  assumes "lk_step s s'" and inv: "lk_inv m0 m s"
  shows "\<exists>m'. lk_inv m0 m' s'"
proof -
  have R: "lk_replay m0 (llog s) = Some m" and H: "\<And>b. memhi s b = hi32 (m b)"
    and L: "\<And>b. \<not> torn s b \<Longrightarrow> memlo s b = lo32 (m b)" and T: "\<And>u. thread_ok m s u (lthr s u)"
    and K: "\<And>u b. in_section (lthr s u) = Some b \<Longrightarrow> locktab s (addrLock b) = Some u"
    using inv unfolding lk_inv_def by auto
  note X = section_exclusive [OF inv]
  from assms(1) show ?thesis
  proof cases
    case (lcall t opn)
    then have "torn s' b = torn s b" for b by (intro torn_update [of s' s t]) auto
    then have "lk_inv m0 m s'" using R H L K lcall by (intro lk_inv_local_step [OF inv, of s' t]) auto
    then show ?thesis by blast
  next
    case (lock t opn)
    then have "torn s' b = torn s b" for b by (intro torn_update [of s' s t]) auto
    then have "lk_inv m0 m s'"
      using R H L K lock by (intro lk_inv_local_step [OF inv, of s' t]) (auto, metis option.distinct(1))
    then show ?thesis by blast
  next
    case (blind t opn v)
    then have "torn s' b = torn s b" for b by (intro torn_update [of s' s t]) auto
    then have "lk_inv m0 m s'"
      using R H L K blind by (intro lk_inv_local_step [OF inv, of s' t]) auto
    then show ?thesis by blast
  next
    case (read_lo t opn f)
    then have "torn s' b = torn s b" for b by (intro torn_update [of s' s t]) auto
    moreover have "\<not> torn s (lo_addr opn)" using read_lo by (intro not_torn_other [OF inv, of t]) auto
    ultimately have "lk_inv m0 m s'"
      using R H L K read_lo by (intro lk_inv_local_step [OF inv, of s' t]) auto
    then show ?thesis by blast
  next
    case (read_hi_write t opn l f w r)
    then have "torn s' b = torn s b" for b by (intro torn_update [of s' s t]) auto
    moreover have "join32 (memhi s (lo_addr opn)) l = m (lo_addr opn)"
      using T [of t] H read_hi_write by (simp add: join32_hi_lo)
    ultimately have "lk_inv m0 m s'"
      using R H L K read_hi_write by (intro lk_inv_local_step [OF inv, of s' t]) auto
    then show ?thesis by blast
  next
    case (read_hi_only t opn l f r)
    then have "torn s' b = torn s b" for b by (intro torn_update [of s' s t]) auto
    moreover have "join32 (memhi s (lo_addr opn)) l = m (lo_addr opn)"
      using T [of t] H read_hi_only by (simp add: join32_hi_lo)
    ultimately have "lk_inv m0 m s'"
      using R H L K read_hi_only by (intro lk_inv_local_step [OF inv, of s' t]) auto
    then show ?thesis by blast
  next
    case (write_lo t opn w r)
    have "\<not> torn s (lo_addr opn)" using write_lo by (intro not_torn_other [OF inv, of t]) auto
    moreover have "torn s' (lo_addr opn)" using write_lo by (auto simp: torn_def)
    moreover have "torn s' b = torn s b" if "b \<noteq> lo_addr opn" for b
    proof -
      have "lthr s' u = LWroteLo o' w' r' \<and> lo_addr o' = b \<longleftrightarrow>
          lthr s u = LWroteLo o' w' r' \<and> lo_addr o' = b" for u o' w' r'
        using that write_lo by auto
      then show ?thesis unfolding torn_def by simp
    qed
    moreover have "b \<noteq> lo_addr opn" if "u \<noteq> t" "in_section (lthr s u) = Some b" for u b
      using X [of t "lo_addr opn" u b] that write_lo by auto
    ultimately have "lk_inv m0 m s'"
      using R H L K T [of t] write_lo by (intro lk_inv_local_step [OF inv, of s' t]) auto
    then show ?thesis by blast
  next
    case (write_hi t opn w r)
    have other: "b \<noteq> lo_addr opn" if "u \<noteq> t" "in_section (lthr s u) = Some b" for u b
      using X [of t "lo_addr opn" u b] that write_hi by auto
    have tn: "\<not> torn s b" if "\<not> torn s' b" "b \<noteq> lo_addr opn" for b
    proof -
      have "lthr s u = LWroteLo o' w' r' \<and> lo_addr o' = b \<Longrightarrow> lthr s' u = LWroteLo o' w' r'" for u o' w' r'
        using that(2) write_hi by auto
      then show ?thesis using that(1) unfolding torn_def by blast
    qed
    have "lk_inv m0 (m(lo_addr opn := w)) s'"
      using R H L K T [of t] other tn write_hi by (intro lk_inv_local_step [OF inv, of s' t]) auto
    then show ?thesis by blast
  next
    case (unlock t opn r)
    then have "torn s' b = torn s b" for b by (intro torn_update [of s' s t]) auto
    moreover have "addrLock b \<noteq> addrLock (lo_addr opn)" if "u \<noteq> t" "in_section (lthr s u) = Some b" for u b
      using X [of t "lo_addr opn" u b] that unlock by auto
    ultimately have "lk_inv m0 m s'"
      using R H L K T [of t] unlock by (intro lk_inv_local_step [OF inv, of s' t]) auto
    then show ?thesis by blast
  qed
qed

lemma lk_reach_inv: "lk_reach m0 s \<Longrightarrow> \<exists>m. lk_inv m0 m s"
proof (induction rule: lk_reach.induct)
  case (linit m0)
  have "lk_inv m0 m0 (lk_init m0)" by (simp add: lk_inv_def lk_init_def)
  then show ?case by blast
next
  case (lstep m0 s s')
  then show ?case using lk_step_inv by blast
qed

subsection \<open>Bytes of a word\<close>

definition byte_le :: "u32 \<Rightarrow> nat \<Rightarrow> u8" where
  "byte_le w k = ucast (drop_bit (8 * k) w)"

definition byte_be :: "u32 \<Rightarrow> nat \<Rightarrow> u8" where
  "byte_be w k = ucast (drop_bit (8 * (3 - k)) w)"

lemma byte_le_or_shifted:
  assumes "k \<le> 4" and "j < 4"
  shows "byte_le (old OR push_bit (k * 8) (ucast v)) j = (if j = k then byte_le old j OR v else byte_le old j)"
proof (rule bit_word_eqI)
  fix n assume "n < LENGTH(8)"
  then have n: "n < 8" by simp
  have v: "bit v i \<Longrightarrow> i < 8" for i using bit_imp_le_length [of v i] by simp
  consider "j = k" | "j < k" | "k < j" by linarith
  then show "bit (byte_le (old OR push_bit (k * 8) (ucast v)) j) n =
      bit (if j = k then byte_le old j OR v else byte_le old j) n"
  proof cases
    case 1
    then show ?thesis using n assms by (auto simp: byte_le_def bit_simps dest: v)
  next
    case 2
    then have "8 * j + n < k * 8" using n by simp
    with 2 n show ?thesis by (simp add: byte_le_def bit_simps)
  next
    case 3
    then have "8 \<le> 8 * j + n - k * 8" by simp
    then have "\<not> bit v (8 * j + n - k * 8)" using v not_le by blast
    with 3 n show ?thesis by (simp add: byte_le_def bit_simps)
  qed
qed

lemma unat_and_3: "unat (x AND 3 :: u32) < 4"
proof -
  have "unat (x AND mask 2) < 4" unfolding unat_and_mask by simp
  then show ?thesis by (simp add: mask_eq_exp_minus_1)
qed

subsection \<open>Example runs\<close>

definition cas_example :: cas_state where
  "cas_example = \<lparr>cmem = (\<lambda>_. 5)(8 := 7), cthr = (\<lambda>_. CasIdle)(0 := CasDone (xadd 8 2) 7),
     clog = [(0, xadd 8 2, 7)]\<rparr>"

lemma cas_run_example:
  shows "cas_reach (\<lambda>_. 5) cas_example" and "cmem cas_example 8 = 7"
    and "cthr cas_example 0 = CasDone (xadd 8 2) 7"
proof -
  note r0 = cas_reach.init [of "\<lambda>_. 5"]
  note r1 = cas_reach.step [OF r0 cas_step.call [where t = 0 and opn = "xadd 8 2"]]
  note r2 = cas_reach.step [OF r1 cas_step.load [where t = 0 and opn = "xadd 8 2"]]
  note r3 = cas_reach.step [OF r2 cas_step.swap [where t = 0 and opn = "xadd 8 2" and old = 5]]
  show "cas_reach (\<lambda>_. 5) cas_example"
    using r3 by (simp add: cas_init_def xadd_def cas_example_def)
  show "cmem cas_example 8 = 7" "cthr cas_example 0 = CasDone (xadd 8 2) 7"
    by (simp_all add: cas_example_def)
qed

definition lk_example :: lk_state where
  "lk_example = \<lparr>memlo = (\<lambda>_. 0)(8 := 7), memhi = (\<lambda>_. 0)(8 := 0), locktab = (\<lambda>_. None)(1 := Some 0),
     lthr = (\<lambda>_. LIdle)(0 := LLeave (atomicstore64 8 7) 0), llog = [(0, atomicstore64 8 7, 0)]\<rparr>"

lemma lk_run_example: "lk_reach (\<lambda>_. 0) lk_example"
proof -
  let ?o = "atomicstore64 8 7"
  note r0 = lk_reach.linit [of "\<lambda>_. 0"]
  note r1 = lk_reach.lstep [OF r0 lk_step.lcall [where t = 0 and opn = ?o]]
  note r2 = lk_reach.lstep [OF r1 lk_step.lock [where t = 0 and opn = ?o]]
  note r3 = lk_reach.lstep [OF r2 lk_step.blind [where t = 0 and opn = ?o and v = 7]]
  note r4 = lk_reach.lstep [OF r3 lk_step.write_lo [where t = 0 and opn = ?o and w = 7 and r = 0]]
  note r5 = lk_reach.lstep [OF r4 lk_step.write_hi [where t = 0 and opn = ?o and w = 7 and r = 0]]
  have a: "addrLock 8 = 1" by (simp add: addrLock_def)
  show ?thesis
    using r5 by (simp add: lk_init_def atomicstore64_def lk_example_def a hi32_def lo32_def)
qed

section \<open>Properties\<close>

text \<open>Any interleaving of the 32-bit operations (xadd, xchg, loads, stores, byte ORs) by any number
  of threads is linearizable: in every reachable state the memory is what the completed operations
  produce when run one at a time in the order of their successful swaps, every recorded result is
  the sequential one, and a thread that has returned holds the result of its latest entry.\<close>

theorem cas_loops_linearizable:
  assumes "cas_reach m0 s"
  shows "cas_replay m0 (clog s) = Some (cmem s) \<and>
           (\<forall>t opn r. cthr s t = CasDone opn r \<longrightarrow> last_of t (clog s) = Some (opn, r))"
  using cas_reach_inv [OF assms] by (simp add: cas_inv_def)

theorem cas_loops_linearizable_witness:
  "\<exists>s. cas_reach (\<lambda>_. 5) s \<and> cmem s 8 = 7 \<and> cthr s 0 = CasDone (xadd 8 2) 7 \<and>
       cas_replay (\<lambda>_. 5) (clog s) = Some (cmem s)"
  using cas_loops_linearizable [OF cas_run_example(1)] cas_run_example by blast

text \<open>C7: Any interleaving of the 64-bit operations is linearizable although each access is two 32-bit
  accesses: the completed critical sections replay sequentially with the recorded results, and at
  every address that no thread is in the middle of writing the two halves are the halves of the
  replayed value, so no torn value is ever observed.\<close>

theorem atomic64_linearizable:
  assumes "lk_reach m0 s"
  shows "\<exists>m. lk_replay m0 (llog s) = Some m \<and>
           (\<forall>a. \<not> torn s a \<longrightarrow> join32 (memhi s a) (memlo s a) = m a) \<and>
           (\<forall>t opn r. lthr s t = LDone opn r \<longrightarrow> last_of t (llog s) = Some (opn, r))"
proof -
  obtain m where inv: "lk_inv m0 m s" using lk_reach_inv [OF assms] by blast
  have "last_of t (llog s) = Some (opn, r)" if "lthr s t = LDone opn r" for t opn r
  proof -
    have "thread_ok m s t (lthr s t)" using inv by (simp add: lk_inv_def)
    with that show ?thesis by simp
  qed
  then show ?thesis
    using inv by (intro exI [of _ m]) (simp add: lk_inv_def join32_hi_lo)
qed

theorem atomic64_linearizable_witness:
  "lk_reach (\<lambda>_. 0) lk_example \<and>
   (\<exists>m. lk_replay (\<lambda>_. 0) (llog lk_example) = Some m \<and> m 8 = 7 \<and>
        (\<forall>a. \<not> torn lk_example a \<longrightarrow> join32 (memhi lk_example a) (memlo lk_example a) = m a))"
  using atomic64_linearizable [OF lk_run_example] lk_run_example
  by (auto simp: lk_example_def atomicstore64_def)

text \<open>Two threads are never inside critical sections whose addresses select the same lock.\<close>

theorem address_lock_exclusive:
  assumes "lk_reach m0 s" and "in_section (lthr s t) = Some a" and "in_section (lthr s u) = Some b"
    and "addrLock a = addrLock b"
  shows "t = u"
proof -
  obtain m where "lk_inv m0 m s" using lk_reach_inv [OF assms(1)] by blast
  then show ?thesis using assms(2-4) by (rule section_exclusive)
qed

theorem address_lock_exclusive_witness:
  "lk_reach (\<lambda>_. 0) lk_example \<and> in_section (lthr lk_example 0) = Some 8 \<and> (0::nat) = 0"
  using address_lock_exclusive [OF lk_run_example, of 0 8 0 8] lk_run_example
  by (simp add: lk_example_def atomicstore64_def)

text \<open>On the little-endian port the byte OR sets exactly the bits of \<open>v\<close> in the addressed byte and
  leaves the other three bytes of the word alone.\<close>

theorem atomicor8_le_sets_byte:
  assumes "j < 4"
  shows "byte_le (cl_new (atomicor8_le uaddr v) old) j =
           (if j = unat (uaddr AND 3) then byte_le old j OR v else byte_le old j)"
  using byte_le_or_shifted [of "unat (uaddr AND 3)" j old v] unat_and_3 [of uaddr] assms
  by (simp add: atomicor8_le_def Let_def)

theorem atomicor8_le_sets_byte_witness:
  "(2 :: nat) < 4 \<and> byte_le (cl_new (atomicor8_le 0x1002 0x81) 0x11223344) 2 = 0xA3"
  using atomicor8_le_sets_byte [of 2 "0x1002" "0x81" "0x11223344"]
  by (simp add: byte_le_def)

text \<open>C26: On the big-endian port the byte OR misses its byte: the shift is one byte too large, so for
  every address the addressed byte is left unchanged; at offset 0 the whole word is unchanged, and
  at offsets 1 to 3 the bits land in the preceding byte.\<close>

theorem atomicor8_be_misses_byte:
  "let k = unat (uaddr AND 3); new = cl_new (atomicor8_be uaddr v) old
   in byte_be new k = byte_be old k \<and>
      (if k = 0 then new = old else byte_be new (k - 1) = byte_be old (k - 1) OR v)"
proof -
  define k where "k = unat (uaddr AND 3)"
  have lt: "k < 4" unfolding k_def by (rule unat_and_3)
  have sub: "unat (4 - (uaddr AND 3)) = 4 - k"
    using lt unfolding k_def by (simp add: unat_sub word_le_nat_alt)
  have eq: "cl_new (atomicor8_be uaddr v) old = old OR push_bit ((4 - k) * 8) (ucast v)"
    by (simp add: atomicor8_be_def Let_def sub)
  have be: "byte_be w i = byte_le w (3 - i)" for w i by (simp add: byte_be_def byte_le_def)
  have "byte_be (cl_new (atomicor8_be uaddr v) old) k = byte_be old k"
    unfolding eq be using lt by (subst byte_le_or_shifted) auto
  moreover have "k = 0 \<longrightarrow> cl_new (atomicor8_be uaddr v) old = old"
    unfolding eq by (auto intro!: bit_word_eqI simp: bit_simps)
  moreover have "k \<noteq> 0 \<longrightarrow> byte_be (cl_new (atomicor8_be uaddr v) old) (k - 1) = byte_be old (k - 1) OR v"
    unfolding eq be using lt by (auto simp: byte_le_or_shifted)
  ultimately show ?thesis unfolding k_def Let_def by simp
qed

end
