(* ===== verification/Utf8.thy ===== *)
theory Utf8
  imports Prelude "HOL-Library.Sublist"
begin

text \<open>
  The UTF-8 coders: package \<open>unicode/utf8\<close> (\<open>utf8.go\<close>) and the run-time's own
  coder behind \<open>range\<close> loops and string conversions (\<open>runtime/rune.go\<close>). A rune is a signed
  32-bit integer, so it is a 32-bit word compared with \<open><s\<close> where the code compares runes and with
  \<open><\<close> where it first converts to \<open>uint32\<close>; a string and a byte slice are both a list of bytes, and
  sizes and indices, which the code keeps non-negative, are natural numbers.
  The lemmas show that the encoders produce the unique shortest form of every rune, that the decoders
  invert them, that they reject everything else, and that the two implementations agree.
\<close>

type_synonym rune = u32

section \<open>Constants\<close>

definition RuneError :: rune where "RuneError = 0xFFFD"
definition RuneSelf :: nat where "RuneSelf = 0x80"
definition MaxRune :: rune where "MaxRune = 0x10FFFF"
definition UTFMax :: nat where "UTFMax = 4"
definition surrogateMin :: rune where "surrogateMin = 0xD800"
definition surrogateMax :: rune where "surrogateMax = 0xDFFF"
definition tx :: u8 where "tx = 0x80"
definition t2 :: u8 where "t2 = 0xC0"
definition t3 :: u8 where "t3 = 0xE0"
definition t4 :: u8 where "t4 = 0xF0"
definition t5 :: u8 where "t5 = 0xF8"
definition maskx :: u8 where "maskx = 0x3F"
definition mask2 :: u8 where "mask2 = 0x1F"
definition mask3 :: u8 where "mask3 = 0x0F"
definition mask4 :: u8 where "mask4 = 0x07"
definition rune1Max :: rune where "rune1Max = 0x7F"
definition rune2Max :: rune where "rune2Max = 0x7FF"
definition rune3Max :: rune where "rune3Max = 0xFFFF"

lemmas utf8_consts = RuneError_def RuneSelf_def MaxRune_def UTFMax_def surrogateMin_def
  surrogateMax_def tx_def t2_def t3_def t4_def t5_def maskx_def mask2_def mask3_def mask4_def
  rune1Max_def rune2Max_def rune3Max_def

section \<open>Package utf8: decoding\<close>

definition decodeRuneInternal :: "u8 list \<Rightarrow> rune \<times> nat \<times> bool" where
  "decodeRuneInternal p = (let n = length p in
     if n < 1 then (RuneError, 0, True) else
     let c0 = p ! 0 in
     if c0 < tx then (ucast c0, 1, False) else
     if c0 < t2 then (RuneError, 1, False) else
     if n < 2 then (RuneError, 1, True) else
     let c1 = p ! 1 in
     if c1 < tx \<or> t2 \<le> c1 then (RuneError, 1, False) else
     if c0 < t3 then
       let r = push_bit 6 (ucast (c0 AND mask2)) OR ucast (c1 AND maskx) in
       if r \<le>s rune1Max then (RuneError, 1, False) else (r, 2, False)
     else
     if n < 3 then (RuneError, 1, True) else
     let c2 = p ! 2 in
     if c2 < tx \<or> t2 \<le> c2 then (RuneError, 1, False) else
     if c0 < t4 then
       let r = push_bit 12 (ucast (c0 AND mask3)) OR push_bit 6 (ucast (c1 AND maskx))
                 OR ucast (c2 AND maskx) in
       if r \<le>s rune2Max then (RuneError, 1, False) else
       if surrogateMin \<le>s r \<and> r \<le>s surrogateMax then (RuneError, 1, False) else
       (r, 3, False)
     else
     if n < 4 then (RuneError, 1, True) else
     let c3 = p ! 3 in
     if c3 < tx \<or> t2 \<le> c3 then (RuneError, 1, False) else
     if c0 < t5 then
       let r = push_bit 18 (ucast (c0 AND mask4)) OR push_bit 12 (ucast (c1 AND maskx))
                 OR push_bit 6 (ucast (c2 AND maskx)) OR ucast (c3 AND maskx) in
       if r \<le>s rune3Max \<or> MaxRune <s r then (RuneError, 1, False) else (r, 4, False)
     else (RuneError, 1, False))"

definition decodeRuneInStringInternal :: "u8 list \<Rightarrow> rune \<times> nat \<times> bool" where
  "decodeRuneInStringInternal s = (let n = length s in
     if n < 1 then (RuneError, 0, True) else
     let c0 = s ! 0 in
     if c0 < tx then (ucast c0, 1, False) else
     if c0 < t2 then (RuneError, 1, False) else
     if n < 2 then (RuneError, 1, True) else
     let c1 = s ! 1 in
     if c1 < tx \<or> t2 \<le> c1 then (RuneError, 1, False) else
     if c0 < t3 then
       let r = push_bit 6 (ucast (c0 AND mask2)) OR ucast (c1 AND maskx) in
       if r \<le>s rune1Max then (RuneError, 1, False) else (r, 2, False)
     else
     if n < 3 then (RuneError, 1, True) else
     let c2 = s ! 2 in
     if c2 < tx \<or> t2 \<le> c2 then (RuneError, 1, False) else
     if c0 < t4 then
       let r = push_bit 12 (ucast (c0 AND mask3)) OR push_bit 6 (ucast (c1 AND maskx))
                 OR ucast (c2 AND maskx) in
       if r \<le>s rune2Max then (RuneError, 1, False) else
       if surrogateMin \<le>s r \<and> r \<le>s surrogateMax then (RuneError, 1, False) else
       (r, 3, False)
     else
     if n < 4 then (RuneError, 1, True) else
     let c3 = s ! 3 in
     if c3 < tx \<or> t2 \<le> c3 then (RuneError, 1, False) else
     if c0 < t5 then
       let r = push_bit 18 (ucast (c0 AND mask4)) OR push_bit 12 (ucast (c1 AND maskx))
                 OR push_bit 6 (ucast (c2 AND maskx)) OR ucast (c3 AND maskx) in
       if r \<le>s rune3Max \<or> MaxRune <s r then (RuneError, 1, False) else (r, 4, False)
     else (RuneError, 1, False))"

definition FullRune :: "u8 list \<Rightarrow> bool" where
  "FullRune p = (case decodeRuneInternal p of (_, _, short) \<Rightarrow> \<not> short)"

definition FullRuneInString :: "u8 list \<Rightarrow> bool" where
  "FullRuneInString s = (case decodeRuneInStringInternal s of (_, _, short) \<Rightarrow> \<not> short)"

definition DecodeRune :: "u8 list \<Rightarrow> rune \<times> nat" where
  "DecodeRune p = (case decodeRuneInternal p of (r, sz, _) \<Rightarrow> (r, sz))"

definition DecodeRuneInString :: "u8 list \<Rightarrow> rune \<times> nat" where
  "DecodeRuneInString s = (case decodeRuneInStringInternal s of (r, sz, _) \<Rightarrow> (r, sz))"

definition RuneStart :: "u8 \<Rightarrow> bool" where
  "RuneStart b \<longleftrightarrow> b AND 0xC0 \<noteq> 0x80"

text \<open>
  The backwards scan of \<open>DecodeLastRune\<close>: \<open>for start--; start >= lim; start--\<close>. Its variable
  becomes \<open>-1\<close> when the scan leaves the slice, so it is an integer here.
\<close>

function scan_start :: "u8 list \<Rightarrow> int \<Rightarrow> int \<Rightarrow> int" where
  "scan_start p lim start =
     (if start \<ge> lim \<and> start \<ge> 0 then
        if RuneStart (p ! nat start) then start else scan_start p lim (start - 1)
      else start)"
  by pat_completeness auto
termination by (relation "measure (\<lambda>(p, lim, start). nat (start + 1))") auto

declare scan_start.simps [simp del]

definition DecodeLastRune :: "u8 list \<Rightarrow> rune \<times> nat" where
  "DecodeLastRune p = (let end = length p in
     if end = 0 then (RuneError, 0) else
     let start = end - 1; r = ucast (p ! start) :: rune in
     if unat r < RuneSelf then (r, 1) else
     let lim = (if int end - int UTFMax < 0 then 0 else int end - int UTFMax);
         start = scan_start p lim (int start - 1);
         start = nat (if start < 0 then 0 else start);
         (r, sz) = DecodeRune (drop start p) in
     if start + sz \<noteq> end then (RuneError, 1) else (r, sz))"

definition DecodeLastRuneInString :: "u8 list \<Rightarrow> rune \<times> nat" where
  "DecodeLastRuneInString s = (let end = length s in
     if end = 0 then (RuneError, 0) else
     let start = end - 1; r = ucast (s ! start) :: rune in
     if unat r < RuneSelf then (r, 1) else
     let lim = (if int end - int UTFMax < 0 then 0 else int end - int UTFMax);
         start = scan_start s lim (int start - 1);
         start = nat (if start < 0 then 0 else start);
         (r, sz) = DecodeRuneInString (drop start s) in
     if start + sz \<noteq> end then (RuneError, 1) else (r, sz))"

section \<open>Package utf8: encoding, counting, validation\<close>

definition RuneLen :: "rune \<Rightarrow> int" where
  "RuneLen r =
     (if r <s 0 then -1
      else if r \<le>s rune1Max then 1
      else if r \<le>s rune2Max then 2
      else if surrogateMin \<le>s r \<and> r \<le>s surrogateMax then -1
      else if r \<le>s rune3Max then 3
      else if r \<le>s MaxRune then 4
      else -1)"

text \<open>
  \<open>EncodeRune\<close> writes into its buffer. The result is the buffer and the number of bytes written, or
  the index panic of the first write past the end. (\<open>r >> 6\<close> is an arithmetic shift.)
\<close>

definition enc3 :: "u8 list \<Rightarrow> rune \<Rightarrow> (u8 list \<times> nat) go" where
  "enc3 p r =
     go_bind (go_set p 0 (t3 OR ucast (signed_drop_bit 12 r))) (\<lambda>p.
     go_bind (go_set p 1 (tx OR (ucast (signed_drop_bit 6 r) AND maskx))) (\<lambda>p.
     go_bind (go_set p 2 (tx OR (ucast r AND maskx))) (\<lambda>p. Inr (p, 3))))"

definition EncodeRune :: "u8 list \<Rightarrow> rune \<Rightarrow> (u8 list \<times> nat) go" where
  "EncodeRune p r = (let i = r in
     if i \<le> rune1Max then go_bind (go_set p 0 (ucast r)) (\<lambda>p. Inr (p, 1))
     else if i \<le> rune2Max then
       go_bind (go_set p 0 (t2 OR ucast (signed_drop_bit 6 r))) (\<lambda>p.
       go_bind (go_set p 1 (tx OR (ucast r AND maskx))) (\<lambda>p. Inr (p, 2)))
     else if MaxRune < i \<or> surrogateMin \<le> i \<and> i \<le> surrogateMax then enc3 p RuneError
     else if i \<le> rune3Max then enc3 p r
     else
       go_bind (go_set p 0 (t4 OR ucast (signed_drop_bit 18 r))) (\<lambda>p.
       go_bind (go_set p 1 (tx OR (ucast (signed_drop_bit 12 r) AND maskx))) (\<lambda>p.
       go_bind (go_set p 2 (tx OR (ucast (signed_drop_bit 6 r) AND maskx))) (\<lambda>p.
       go_bind (go_set p 3 (tx OR (ucast r AND maskx))) (\<lambda>p. Inr (p, 4))))))"

text \<open>
  The loops over a slice carry the unread suffix \<open>p[i:]\<close>. A rune takes at least one byte of a
  non-empty slice, which is what makes them terminate.
\<close>

lemma decodeRuneInternal_size:
  "decodeRuneInternal p = (r, n, short) \<Longrightarrow> p \<noteq> [] \<Longrightarrow> 1 \<le> n \<and> n \<le> length p"
  by (auto simp: decodeRuneInternal_def Let_def Suc_le_eq split: if_splits)

lemma DecodeRune_size: "p \<noteq> [] \<Longrightarrow> 1 \<le> snd (DecodeRune p) \<and> snd (DecodeRune p) \<le> length p"
  using decodeRuneInternal_size [of p] by (auto simp: DecodeRune_def split: prod.splits)

function RuneCount :: "u8 list \<Rightarrow> nat" where
  "RuneCount p =
     (if p = [] then 0
      else if unat (p ! 0) < RuneSelf then 1 + RuneCount (drop 1 p)
      else 1 + RuneCount (drop (snd (DecodeRune p)) p))"
  by pat_completeness auto
termination
proof (relation "measure length", goal_cases)
  case (3 p)
  then show ?case using DecodeRune_size [of p] by simp
qed simp_all

function Valid :: "u8 list \<Rightarrow> bool" where
  "Valid p =
     (if p = [] then True
      else if unat (p ! 0) < RuneSelf then Valid (drop 1 p)
      else if snd (DecodeRune p) = 1 then False
      else Valid (drop (snd (DecodeRune p)) p))"
  by pat_completeness auto
termination
proof (relation "measure length", goal_cases)
  case (3 p)
  then show ?case using DecodeRune_size [of p] by simp
qed simp_all

declare RuneCount.simps [simp del] Valid.simps [simp del]

definition ValidRune :: "rune \<Rightarrow> bool" where
  "ValidRune r =
     (if r <s 0 then False
      else if surrogateMin \<le>s r \<and> r \<le>s surrogateMax then False
      else if MaxRune <s r then False
      else True)"

section \<open>The run-time's coder\<close>

definition testx :: u8 where "testx = 0xC0"
definition rune1 :: rune where "rune1 = 0x7F"
definition rune2 :: rune where "rune2 = 0x7FF"
definition rune3 :: rune where "rune3 = 0xFFFF"
definition rune4 :: rune where "rune4 = 0x1FFFFF"
definition bad :: rune where "bad = 0xFFFD"
definition runemax :: rune where "runemax = 0x10FFFF"

lemmas rune_consts = testx_def rune1_def rune2_def rune3_def rune4_def bad_def runemax_def

definition charntorune :: "u8 list \<Rightarrow> rune \<times> nat" where
  "charntorune s =
    (if length s \<le> 0 then (bad, 1) else
     let c = s ! 0 in
     if c < tx then (ucast c, 1) else
     if length s \<le> 1 then (bad, 1) else
     let c1 = s ! 1 XOR tx in
     if c1 AND testx \<noteq> 0 then (bad, 1) else
     if c < t3 then
       if c < t2 then (bad, 1) else
       let l = (push_bit 6 (ucast c) OR ucast c1) AND rune2 in
       if l \<le>s rune1 then (bad, 1) else (l, 2)
     else
     if length s \<le> 2 then (bad, 1) else
     let c2 = s ! 2 XOR tx in
     if c2 AND testx \<noteq> 0 then (bad, 1) else
     if c < t4 then
       let l = (push_bit 6 (push_bit 6 (ucast c) OR ucast c1) OR ucast c2) AND rune3 in
       if l \<le>s rune2 then (bad, 1) else
       if surrogateMin \<le>s l \<and> l \<le>s surrogateMax then (bad, 1) else (l, 3)
     else
     if length s \<le> 3 then (bad, 1) else
     let c3 = s ! 3 XOR tx in
     if c3 AND testx \<noteq> 0 then (bad, 1) else
     if c < t5 then
       let l = (push_bit 6 (push_bit 6 (push_bit 6 (ucast c) OR ucast c1) OR ucast c2) OR ucast c3)
                 AND rune4 in
       if l \<le>s rune3 \<or> runemax <s l then (bad, 1) else (l, 4)
     else (bad, 1))"

definition runetochar :: "u8 list \<Rightarrow> rune \<Rightarrow> (u8 list \<times> nat) go" where
  "runetochar str r = (let c = r in
     if c \<le> rune1 then go_bind (go_set str 0 (ucast c)) (\<lambda>str. Inr (str, 1))
     else if c \<le> rune2 then
       go_bind (go_set str 0 (ucast (0xC0 OR drop_bit 6 c))) (\<lambda>str.
       go_bind (go_set str 1 (ucast (0x80 OR (c AND 0x3F)))) (\<lambda>str. Inr (str, 2)))
     else
     let c = (if runemax < c then bad else c);
         c = (if surrogateMin \<le> c \<and> c \<le> surrogateMax then bad else c) in
     if c \<le> rune3 then
       go_bind (go_set str 0 (ucast (0xE0 OR drop_bit 12 c))) (\<lambda>str.
       go_bind (go_set str 1 (ucast (0x80 OR (drop_bit 6 c AND 0x3F)))) (\<lambda>str.
       go_bind (go_set str 2 (ucast (0x80 OR (c AND 0x3F)))) (\<lambda>str. Inr (str, 3))))
     else
       go_bind (go_set str 0 (ucast (0xF0 OR drop_bit 18 c))) (\<lambda>str.
       go_bind (go_set str 1 (ucast (0x80 OR (drop_bit 12 c AND 0x3F)))) (\<lambda>str.
       go_bind (go_set str 2 (ucast (0x80 OR (drop_bit 6 c AND 0x3F)))) (\<lambda>str.
       go_bind (go_set str 3 (ucast (0x80 OR (c AND 0x3F)))) (\<lambda>str. Inr (str, 4))))))"

section \<open>The loops over strings\<close>

text \<open>
  A \<open>range\<close> loop over a string calls \<open>stringiter2\<close> with the byte index until it returns 0; the
  result is the list of (index, rune) pairs the loop body sees.
\<close>

definition stringiter :: "u8 list \<Rightarrow> nat \<Rightarrow> nat" where
  "stringiter s k =
    (if k \<ge> length s then 0 else
     let c = s ! k in
     if unat c < RuneSelf then k + 1 else
     case charntorune (drop k s) of (_, n) \<Rightarrow> k + n)"

definition stringiter2 :: "u8 list \<Rightarrow> nat \<Rightarrow> nat \<times> rune" where
  "stringiter2 s k =
    (if k \<ge> length s then (0, 0) else
     let c = s ! k in
     if unat c < RuneSelf then (k + 1, ucast c) else
     case charntorune (drop k s) of (r, n) \<Rightarrow> (k + n, r))"

lemma charntorune_size: "1 \<le> snd (charntorune s)"
  by (auto simp: charntorune_def Let_def)

function range_string :: "u8 list \<Rightarrow> nat \<Rightarrow> (nat \<times> rune) list" where
  "range_string s k =
    (case stringiter2 s k of (k', r) \<Rightarrow> if k' = 0 then [] else (k, r) # range_string s k')"
  by pat_completeness auto
termination
proof (relation "measure (\<lambda>(s, k). length s - k)", goal_cases)
  case (2 s k k' r)
  then have "k < length s \<and> k < k'"
    using charntorune_size [of "drop k s"]
    by (auto simp: stringiter2_def Let_def split: if_splits prod.splits)
  then show ?case by auto
qed simp

declare range_string.simps [simp del]

definition RuneCountInString :: "u8 list \<Rightarrow> nat" where
  "RuneCountInString s = length (range_string s 0)"

definition ValidString :: "u8 list \<Rightarrow> bool" where
  "ValidString s = list_all (\<lambda>(i, r).
     r = RuneError \<longrightarrow> snd (DecodeRuneInString (drop i s)) \<noteq> 1) (range_string s 0)"

section \<open>Words of at most 31 bits as numbers\<close>

lemma sless_zero: "a <s 0 \<longleftrightarrow> 2 ^ 31 \<le> unat a" for a :: u32
proof (cases "unat a < 2 ^ 31")
  case True then show ?thesis by (simp add: word_sless_alt sint_small)
next
  case False
  have "sint a < 0"
  proof (rule ccontr)
    assume *: "\<not> sint a < 0"
    have "uint a = uint (word_of_int (sint a) :: u32)" by simp
    also have "\<dots> = sint a"
      using * sint_bounds [of a] by (simp only: unsigned_of_int) (simp add: take_bit_int_eq_self)
    finally have "uint a < 2 ^ 31" using sint_bounds [of a] by simp
    then show False using False of_nat_less_iff [of "unat a" "2 ^ 31", where 'a = int] by simp
  qed
  then show ?thesis using False by (simp add: word_sless_alt)
qed

lemma unat_signed_drop_bit:
  fixes r :: u32
  assumes r: "unat r < 2 ^ 31"
  shows "unat (signed_drop_bit n r) = unat r div 2 ^ n"
proof -
  have "sint (signed_drop_bit n r) = int (unat r div 2 ^ n)"
    by (simp only: sint_signed_drop_bit_eq sint_small [OF r] drop_bit_eq_div zdiv_int of_nat_power of_nat_numeral)
  then have "signed_drop_bit n r = word_of_int (int (unat r div 2 ^ n))"
    by (metis word_of_int_sint)
  then have "signed_drop_bit n r = of_nat (unat r div 2 ^ n)"
    by (simp only: of_int_of_nat_eq)
  moreover have "unat r div 2 ^ n < 2 ^ 32"
    by (rule le_less_trans [OF div_le_dividend less_trans [OF r]]) simp
  ultimately show ?thesis by (simp only: unsigned_of_nat) (simp add: take_bit_nat_eq_self)
qed
lemma unat_ucast_8: "unat (ucast (w :: u32) :: u8) = unat w mod 256"
  by (simp add: unsigned_ucast_eq take_bit_eq_mod)
lemma unat_ucast_32: "unat (ucast (w :: u8) :: u32) = unat w"
  using unat_lt2p [of w] by (simp add: unsigned_ucast_eq take_bit_eq_mod)
lemma byte_masks:
  "unat (c AND maskx) = unat c mod 64" "unat (c AND mask2) = unat c mod 32"
  "unat (c AND mask3) = unat c mod 16" "unat (c AND mask4) = unat c mod 8"
  using unat_and_mask [of c 6] unat_and_mask [of c 5] unat_and_mask [of c 4] unat_and_mask [of c 3]
  by (simp_all add: utf8_consts mask_eq_exp_minus_1)
lemma or_lead:
  fixes y :: u8
  shows "unat y < 64 \<Longrightarrow> unat (tx OR y) = 128 + unat y"
    and "unat y < 64 \<Longrightarrow> unat (t2 OR y) = 192 + unat y"
    and "unat y < 32 \<Longrightarrow> unat (t3 OR y) = 224 + unat y"
    and "unat y < 16 \<Longrightarrow> unat (t4 OR y) = 240 + unat y"
  using unat_or_shift [of y 6 2] unat_or_shift [of y 6 3] unat_or_shift [of y 5 7] unat_or_shift [of y 4 15]
  by (simp_all add: utf8_consts)

lemma or_lead32:
  fixes y :: u32
  shows "unat y < 64 \<Longrightarrow> unat (0x80 OR y) = 128 + unat y"
    and "unat y < 64 \<Longrightarrow> unat (0xC0 OR y) = 192 + unat y"
    and "unat y < 32 \<Longrightarrow> unat (0xE0 OR y) = 224 + unat y"
    and "unat y < 16 \<Longrightarrow> unat (0xF0 OR y) = 240 + unat y"
  using unat_or_shift [of y 6 2] unat_or_shift [of y 6 3] unat_or_shift [of y 5 7] unat_or_shift [of y 4 15]
  by (simp_all add: utf8_consts)

lemma unat_and_3F: "unat (y AND 0x3F) = unat y mod 64" for y :: u32
  using unat_and_mask [of y 6] by (simp add: mask_eq_exp_minus_1)

text \<open>The numbers the decoder assembles.\<close>

definition val2 :: "u8 \<Rightarrow> u8 \<Rightarrow> nat" where
  "val2 c0 c1 = unat c0 mod 32 * 64 + unat c1 mod 64"
definition val3 :: "u8 \<Rightarrow> u8 \<Rightarrow> u8 \<Rightarrow> nat" where
  "val3 c0 c1 c2 = unat c0 mod 16 * 4096 + unat c1 mod 64 * 64 + unat c2 mod 64"
definition val4 :: "u8 \<Rightarrow> u8 \<Rightarrow> u8 \<Rightarrow> u8 \<Rightarrow> nat" where
  "val4 c0 c1 c2 c3 = unat c0 mod 8 * 262144 + unat c1 mod 64 * 4096 + unat c2 mod 64 * 64 + unat c3 mod 64"

lemma val_bounds: "val2 c0 c1 < 2048" "val3 c0 c1 c2 < 65536" "val4 c0 c1 c2 c3 < 2097152"
proof -
  have "unat c0 mod 32 < 32" "unat c0 mod 16 < 16" "unat c0 mod 8 < 8" "unat c1 mod 64 < 64"
    "unat c2 mod 64 < 64" "unat c3 mod 64 < 64" by simp_all
  then show "val2 c0 c1 < 2048" "val3 c0 c1 c2 < 65536" "val4 c0 c1 c2 c3 < 2097152"
    unfolding val2_def val3_def val4_def by linarith+
qed

lemma unat_low6:
  "unat (push_bit 6 w OR ucast (c AND maskx) :: u32) = unat w * 64 + unat c mod 64" if "unat w < 2 ^ 26"
  using that by (subst unat_or_shift) (simp_all add: unat_ucast_32 byte_masks)

lemma unat_val2: "unat (push_bit 6 (ucast (c0 AND mask2)) OR ucast (c1 AND maskx) :: u32) = val2 c0 c1"
  by (subst unat_low6) (simp_all add: unat_ucast_32 byte_masks val2_def)

lemma unat_val3: "unat (push_bit 12 (ucast (c0 AND mask3)) OR push_bit 6 (ucast (c1 AND maskx))
    OR ucast (c2 AND maskx) :: u32) = val3 c0 c1 c2"
proof -
  let ?a = "ucast (c0 AND mask3) :: u32" and ?b = "ucast (c1 AND maskx) :: u32"
    and ?c = "ucast (c2 AND maskx) :: u32"
  have eq: "push_bit 12 ?a OR push_bit 6 ?b OR ?c = push_bit 6 (push_bit 6 ?a OR ?b) OR ?c"
    by (simp add: push_bit_or or.assoc)
  have lt: "unat c0 mod 16 < 16" "unat c1 mod 64 < 64" by simp_all
  have 1: "unat (push_bit 6 ?a OR ?b) = unat c0 mod 16 * 64 + unat c1 mod 64"
    by (subst unat_low6) (simp_all add: unat_ucast_32 byte_masks)
  show ?thesis
    unfolding eq by (subst unat_low6) (use 1 lt in \<open>simp_all add: val3_def\<close>)
qed

lemma unat_val4: "unat (push_bit 18 (ucast (c0 AND mask4)) OR push_bit 12 (ucast (c1 AND maskx))
    OR push_bit 6 (ucast (c2 AND maskx)) OR ucast (c3 AND maskx) :: u32) = val4 c0 c1 c2 c3"
proof -
  let ?a = "ucast (c0 AND mask4) :: u32" and ?b = "ucast (c1 AND maskx) :: u32"
    and ?c = "ucast (c2 AND maskx) :: u32" and ?d = "ucast (c3 AND maskx) :: u32"
  have eq: "push_bit 18 ?a OR push_bit 12 ?b OR push_bit 6 ?c OR ?d
      = push_bit 6 (push_bit 6 (push_bit 6 ?a OR ?b) OR ?c) OR ?d"
    by (simp add: push_bit_or or.assoc)
  have lt: "unat c0 mod 8 < 8" "unat c1 mod 64 < 64" "unat c2 mod 64 < 64" by simp_all
  have 1: "unat (push_bit 6 ?a OR ?b) = unat c0 mod 8 * 64 + unat c1 mod 64"
    by (subst unat_low6) (simp_all add: unat_ucast_32 byte_masks)
  have 2: "unat (push_bit 6 (push_bit 6 ?a OR ?b) OR ?c) = (unat c0 mod 8 * 64 + unat c1 mod 64) * 64 + unat c2 mod 64"
    by (subst unat_low6) (use 1 lt in simp_all)
  show ?thesis
    unfolding eq by (subst unat_low6) (use 2 lt in \<open>simp_all add: val4_def\<close>)
qed

section \<open>The encoding as a specification\<close>

text \<open>The scalar values of Unicode, and the bytes the standard assigns to each of them.\<close>

definition scalar :: "nat \<Rightarrow> bool" where
  "scalar v \<longleftrightarrow> v < 0xD800 \<or> 0xE000 \<le> v \<and> v \<le> 0x10FFFF"

definition utf8_nats :: "nat \<Rightarrow> nat list" where
  "utf8_nats v =
    (if v < 0x80 then [v]
     else if v < 0x800 then [192 + v div 64, 128 + v mod 64]
     else if v < 0x10000 then [224 + v div 4096, 128 + v div 64 mod 64, 128 + v mod 64]
     else [240 + v div 262144, 128 + v div 4096 mod 64, 128 + v div 64 mod 64, 128 + v mod 64])"

definition utf8 :: "rune \<Rightarrow> u8 list" where
  "utf8 r = map of_nat (utf8_nats (unat r))"

lemma ValidRune_iff_scalar: "ValidRune r \<longleftrightarrow> scalar (unat r)"
proof (cases "unat r < 2 ^ 31")
  case True
  then show ?thesis by (auto simp: ValidRune_def sless_zero sle_small sless_small utf8_consts scalar_def)
next
  case False
  then show ?thesis by (auto simp: ValidRune_def sless_zero scalar_def)
qed

lemma scalar_small: "scalar v \<Longrightarrow> v < 2 ^ 31"
  by (auto simp: scalar_def)

text \<open>A continuation byte has the top bits 10.\<close>

definition cont :: "u8 \<Rightarrow> bool" where "cont c \<longleftrightarrow> 128 \<le> unat c \<and> unat c < 192"

text \<open>The decoder, with its words read as numbers.\<close>

definition decode_spec :: "u8 list \<Rightarrow> nat \<times> nat \<times> bool" where
  "decode_spec p =
    (if p = [] then (0xFFFD, 0, True)
     else if unat (p ! 0) < 128 then (unat (p ! 0), 1, False)
     else if unat (p ! 0) < 192 then (0xFFFD, 1, False)
     else if length p < 2 then (0xFFFD, 1, True)
     else if \<not> cont (p ! 1) then (0xFFFD, 1, False)
     else if unat (p ! 0) < 224 then
       (if val2 (p ! 0) (p ! 1) < 0x80 then (0xFFFD, 1, False) else (val2 (p ! 0) (p ! 1), 2, False))
     else if length p < 3 then (0xFFFD, 1, True)
     else if \<not> cont (p ! 2) then (0xFFFD, 1, False)
     else if unat (p ! 0) < 240 then
       (if val3 (p ! 0) (p ! 1) (p ! 2) < 0x800 \<or> \<not> scalar (val3 (p ! 0) (p ! 1) (p ! 2))
        then (0xFFFD, 1, False) else (val3 (p ! 0) (p ! 1) (p ! 2), 3, False))
     else if length p < 4 then (0xFFFD, 1, True)
     else if \<not> cont (p ! 3) then (0xFFFD, 1, False)
     else if unat (p ! 0) < 248 then
       (if val4 (p ! 0) (p ! 1) (p ! 2) (p ! 3) < 0x10000 \<or> \<not> scalar (val4 (p ! 0) (p ! 1) (p ! 2) (p ! 3))
        then (0xFFFD, 1, False) else (val4 (p ! 0) (p ! 1) (p ! 2) (p ! 3), 4, False))
     else (0xFFFD, 1, False))"

lemma word32_of_unat: "r = of_nat (unat r)" for r :: u32
  by simp

lemma byte_less_iff: "c < tx \<longleftrightarrow> unat c < 128" "c < t2 \<longleftrightarrow> unat c < 192" "c < t3 \<longleftrightarrow> unat c < 224"
  "c < t4 \<longleftrightarrow> unat c < 240" "c < t5 \<longleftrightarrow> unat c < 248"
  by (simp_all add: word_less_nat_alt utf8_consts)

lemma not_cont_iff: "c < tx \<or> t2 \<le> c \<longleftrightarrow> \<not> cont c"
  by (auto simp: cont_def byte_less_iff not_less [symmetric])

lemma val2_word: "push_bit 6 (ucast (c0 AND mask2)) OR ucast (c1 AND maskx) = (of_nat (val2 c0 c1) :: u32)"
  by (simp only: flip: unat_val2) (simp only: word32_of_unat)

lemma val3_word: "push_bit 12 (ucast (c0 AND mask3)) OR push_bit 6 (ucast (c1 AND maskx))
    OR ucast (c2 AND maskx) = (of_nat (val3 c0 c1 c2) :: u32)"
  by (simp only: flip: unat_val3) (simp only: word32_of_unat)

lemma val4_word: "push_bit 18 (ucast (c0 AND mask4)) OR push_bit 12 (ucast (c1 AND maskx))
    OR push_bit 6 (ucast (c2 AND maskx)) OR ucast (c3 AND maskx) = (of_nat (val4 c0 c1 c2 c3) :: u32)"
  by (simp only: flip: unat_val4) (simp only: word32_of_unat)

lemma unat_of_nat_small: "n < 2 ^ 31 \<Longrightarrow> unat (of_nat n :: u32) = n"
  by (simp only: unsigned_of_nat) (simp add: take_bit_nat_eq_self)

lemma val2_sle: "(of_nat (val2 c0 c1) :: u32) \<le>s rune1Max \<longleftrightarrow> val2 c0 c1 < 0x80"
  using val_bounds(1) [of c0 c1] by (subst sle_small) (auto simp: unat_of_nat_small utf8_consts)

lemma val3_sle:
  "(of_nat (val3 c0 c1 c2) :: u32) \<le>s rune2Max \<longleftrightarrow> val3 c0 c1 c2 < 0x800"
  "surrogateMin \<le>s (of_nat (val3 c0 c1 c2) :: u32) \<and> (of_nat (val3 c0 c1 c2) :: u32) \<le>s surrogateMax
     \<longleftrightarrow> \<not> scalar (val3 c0 c1 c2)"
  using val_bounds(2) [of c0 c1 c2] by (auto simp: sle_small unat_of_nat_small utf8_consts scalar_def)

lemma val4_sle:
  "(of_nat (val4 c0 c1 c2 c3) :: u32) \<le>s rune3Max \<or> MaxRune <s (of_nat (val4 c0 c1 c2 c3) :: u32)
     \<longleftrightarrow> val4 c0 c1 c2 c3 < 0x10000 \<or> \<not> scalar (val4 c0 c1 c2 c3)"
  using val_bounds(3) [of c0 c1 c2 c3]
  by (auto simp: sle_small sless_small unat_of_nat_small utf8_consts scalar_def)


lemma decodeRuneInternal_spec:
  "decodeRuneInternal p = (case decode_spec p of (v, n, short) \<Rightarrow> (of_nat v, n, short))"
proof -
  have nil: "length p < 1 \<longleftrightarrow> p = []" by (cases p) auto
  have c: "ucast c = (of_nat (unat c) :: rune)" for c :: u8 by simp
  have e: "RuneError = of_nat 0xFFFD" by (simp add: RuneError_def)
  have or: "(if A then x else if B then x else y) = (if A \<or> B then x else y)"
    for A B and x y :: "rune \<times> nat \<times> bool" by simp
  show ?thesis
    unfolding decodeRuneInternal_def Let_def
    unfolding not_cont_iff val2_word val3_word val4_word val2_sle val3_sle val4_sle or nil
    unfolding byte_less_iff decode_spec_def c e
    by (simp only: if_distrib [of "case_prod f" for f] prod.case)
qed

text \<open>The encoding as bytes and as numbers.\<close>

lemma utf8_nats_byte: "scalar v \<Longrightarrow> b \<in> set (utf8_nats v) \<Longrightarrow> b < 256"
  by (auto simp: utf8_nats_def scalar_def less_mult_imp_div_less split: if_splits)

lemma utf8_unat: "scalar (unat r) \<Longrightarrow> map unat (utf8 r) = utf8_nats (unat r)"
proof -
  assume s: "scalar (unat r)"
  have "unat (of_nat b :: u8) = b" if "b \<in> set (utf8_nats (unat r))" for b
    using utf8_nats_byte [OF s that] by (simp only: unsigned_of_nat) (simp add: take_bit_nat_eq_self)
  then show ?thesis by (simp add: utf8_def map_idI)
qed

lemma utf8_of_unat: "utf8_nats (unat r) = map unat cs \<Longrightarrow> utf8 r = cs"
  by (simp add: utf8_def map_idI)

text \<open>Digits to the base 64, and the payload of a lead or continuation byte.\<close>

lemma digits3: "v div 4096 * 4096 + v div 64 mod 64 * 64 + v mod 64 = v" for v :: nat
proof -
  have "v div 4096 = v div 64 div 64" by (simp add: div_mult2_eq [symmetric])
  then show ?thesis using div_mult_mod_eq [of v 64] div_mult_mod_eq [of "v div 64" 64] by linarith
qed

lemma digits4: "v div 262144 * 262144 + v div 4096 mod 64 * 4096 + v div 64 mod 64 * 64 + v mod 64 = v"
  for v :: nat
proof -
  have "v div 262144 = v div 4096 div 64" by (simp add: div_mult2_eq [symmetric])
  then show ?thesis using digits3 [of v] div_mult_mod_eq [of "v div 4096" 64] by linarith
qed

lemma payload: "(192 + x) mod 32 = x mod 32" "(128 + x) mod 64 = x mod 64"
  "(224 + x) mod 16 = x mod 16" "(240 + x) mod 8 = x mod 8" for x :: nat
  using mod_mult_self3 [of 6 32 x] mod_mult_self3 [of 2 64 x] mod_mult_self3 [of 14 16 x]
    mod_mult_self3 [of 30 8 x]
  by simp_all

lemma mod_top: "k * m \<le> u \<Longrightarrow> u < k * m + m \<Longrightarrow> u = k * m + u mod m" for u :: nat
  by (metis add_less_cancel_left le_add_diff_inverse mod_less mod_mult_self3)

lemmas lead_top = mod_top [of 6 32] mod_top [of 2 64] mod_top [of 14 16] mod_top [of 30 8]

lemma horner3:
  fixes a b c :: nat
  assumes "b < 64" "c < 64"
  shows "(a * 4096 + b * 64 + c) div 4096 = a" "(a * 4096 + b * 64 + c) div 64 mod 64 = b"
    "(a * 4096 + b * 64 + c) mod 64 = c"
proof -
  have h: "a * 4096 + b * 64 + c = (a * 64 + b) * 64 + c" by simp
  have d: "((a * 64 + b) * 64 + c) div 64 = a * 64 + b" using assms by simp
  have "((a * 64 + b) * 64 + c) mod 64 = c" using assms by (simp only: mod_mult_self3 mod_less)
  moreover have "((a * 64 + b) * 64 + c) div 64 mod 64 = b" using assms by (simp only: d mod_mult_self3 mod_less)
  moreover have "((a * 64 + b) * 64 + c) div (64 * 64) = a" using assms by (simp add: div_mult2_eq d)
  ultimately show "(a * 4096 + b * 64 + c) div 4096 = a" "(a * 4096 + b * 64 + c) div 64 mod 64 = b"
    "(a * 4096 + b * 64 + c) mod 64 = c"
    unfolding h by simp_all
qed

lemma horner4:
  fixes a b c d :: nat
  assumes "b < 64" "c < 64" "d < 64"
  shows "(a * 262144 + b * 4096 + c * 64 + d) div 262144 = a"
    "(a * 262144 + b * 4096 + c * 64 + d) div 4096 mod 64 = b"
    "(a * 262144 + b * 4096 + c * 64 + d) div 64 mod 64 = c"
    "(a * 262144 + b * 4096 + c * 64 + d) mod 64 = d"
proof -
  have h: "a * 262144 + b * 4096 + c * 64 + d = (a * 64 + b) * 4096 + c * 64 + d" by simp
  have q: "((a * 64 + b) * 4096 + c * 64 + d) div 4096 = a * 64 + b"
    using assms by (intro horner3)
  then have "((a * 64 + b) * 4096 + c * 64 + d) div (4096 * 64) = a"
    using assms by (simp only: div_mult2_eq)
  then show "(a * 262144 + b * 4096 + c * 64 + d) div 262144 = a"
    "(a * 262144 + b * 4096 + c * 64 + d) div 4096 mod 64 = b"
    "(a * 262144 + b * 4096 + c * 64 + d) div 64 mod 64 = c"
    "(a * 262144 + b * 4096 + c * 64 + d) mod 64 = d"
    unfolding h using q assms horner3 [of c d "a * 64 + b"] by simp_all
qed

lemma utf8_decode_spec:
  assumes "scalar (unat r)"
  shows "decode_spec (utf8 r @ rest) = (unat r, length (utf8 r), False)"
proof -
  define v where "v = unat r"
  have v: "v \<le> 0x10FFFF" "scalar v" using assms by (auto simp: v_def scalar_def)
  have u: "map unat (utf8 r) = utf8_nats v" using utf8_unat [OF assms] by (simp add: v_def)
  consider "v < 0x80" | "0x80 \<le> v" "v < 0x800" | "0x800 \<le> v" "v < 0x10000" | "0x10000 \<le> v"
    by linarith
  then show ?thesis
  proof cases
    case 1
    with u obtain c0 where "utf8 r = [c0]" "unat c0 = v" by (auto simp: utf8_nats_def)
    with 1 show ?thesis by (simp add: decode_spec_def v_def)
  next
    case 2
    with u obtain c0 c1 where c: "utf8 r = [c0, c1]" "unat c0 = 192 + v div 64" "unat c1 = 128 + v mod 64"
      by (auto simp: utf8_nats_def)
    moreover have "val2 c0 c1 = v" using 2 by (simp add: val2_def c payload less_mult_imp_div_less)
    ultimately show ?thesis using 2 by (auto simp: decode_spec_def cont_def v_def)
  next
    case 3
    with u obtain c0 c1 c2 where c: "utf8 r = [c0, c1, c2]" "unat c0 = 224 + v div 4096"
      "unat c1 = 128 + v div 64 mod 64" "unat c2 = 128 + v mod 64"
      by (auto simp: utf8_nats_def)
    moreover have "val3 c0 c1 c2 = v"
      using 3 by (simp add: val3_def c payload less_mult_imp_div_less digits3)
    moreover have "v div 4096 < 16" using 3 by auto
    ultimately show ?thesis using 3 v by (auto simp: decode_spec_def cont_def v_def)
  next
    case 4
    with u obtain c0 c1 c2 c3 where c: "utf8 r = [c0, c1, c2, c3]" "unat c0 = 240 + v div 262144"
      "unat c1 = 128 + v div 4096 mod 64" "unat c2 = 128 + v div 64 mod 64" "unat c3 = 128 + v mod 64"
      by (auto simp: utf8_nats_def)
    moreover have "v div 262144 < 5" using v by auto
    moreover have "val4 c0 c1 c2 c3 = v"
      using 4 v by (simp add: val4_def c payload less_mult_imp_div_less digits4)
    ultimately show ?thesis using 4 v by (auto simp: decode_spec_def cont_def v_def)
  qed
qed

lemma decode_spec_utf8:
  assumes "decode_spec p = (v, n, short)" and "n \<noteq> 1" and "p \<noteq> []"
  shows "scalar v \<and> \<not> short \<and> n \<le> length p \<and> map unat (take n p) = utf8_nats v"
proof -
  have b: "unat c0 mod 32 < 32" "unat c0 mod 16 < 16" "unat c0 mod 8 < 8" "unat c0 mod 64 < 64" for c0 :: u8
    by simp_all
  obtain c0 p1 where p: "p = c0 # p1" using assms(3) by (cases p) auto
  from assms(1,2) obtain c1 p2 where p1: "p1 = c1 # p2" and c1: "cont c1" and c0: "192 \<le> unat c0"
    by (cases p1) (auto simp: p decode_spec_def split: if_splits)
  show ?thesis
  proof (cases "unat c0 < 224")
    case True
    with assms c0 c1 have *: "v = val2 c0 c1" "n = 2" "\<not> short" "0x80 \<le> v"
      by (auto simp: p p1 decode_spec_def split: if_splits)
    have "unat c0 = 192 + v div 64" "unat c1 = 128 + v mod 64"
      using True c0 c1 lead_top [of "unat c0"] lead_top [of "unat c1"] by (auto simp: * val2_def cont_def)
    then show ?thesis using * val_bounds(1) [of c0 c1] by (simp add: p p1 utf8_nats_def scalar_def)
  next
    case False
    with assms(1,2) c0 c1 obtain c2 p3 where p2: "p2 = c2 # p3" and c2: "cont c2"
      by (cases p2) (auto simp: p p1 decode_spec_def split: if_splits)
    show ?thesis
    proof (cases "unat c0 < 240")
      case True
      with assms False c0 c1 c2 have *: "v = val3 c0 c1 c2" "n = 3" "\<not> short" "0x800 \<le> v" "scalar v"
        by (auto simp: p p1 p2 decode_spec_def split: if_splits)
      have "unat c0 = 224 + v div 4096" "unat c1 = 128 + v div 64 mod 64" "unat c2 = 128 + v mod 64"
        using True False c1 c2 lead_top [of "unat c0"] lead_top [of "unat c1"] lead_top [of "unat c2"]
        by (simp_all add: * val3_def cont_def horner3)
      then show ?thesis using * val_bounds(2) [of c0 c1 c2] by (simp add: p p1 p2 utf8_nats_def)
    next
      case big: False
      with assms(1,2) c0 c1 c2 False obtain c3 p4 where p3: "p3 = c3 # p4" and c3: "cont c3" 
        and lt: "unat c0 < 248"
        by (cases p3) (auto simp: p p1 p2 decode_spec_def split: if_splits)
      with assms big False c0 c1 c2
      have *: "v = val4 c0 c1 c2 c3" "n = 4" "\<not> short" "0x10000 \<le> v" "scalar v"
        by (auto simp: p p1 p2 decode_spec_def split: if_splits)
      have "unat c0 = 240 + v div 262144" "unat c1 = 128 + v div 4096 mod 64"
        "unat c2 = 128 + v div 64 mod 64" "unat c3 = 128 + v mod 64"
        using lt big c1 c2 c3 lead_top [of "unat c0"] lead_top [of "unat c1"] lead_top [of "unat c2"]
          lead_top [of "unat c3"]
        by (simp_all add: * val4_def cont_def horner4)
      then show ?thesis using * val_bounds(3) [of c0 c1 c2 c3] by (simp add: p p1 p2 p3 utf8_nats_def)
    qed
  qed
qed

section \<open>The two encoders\<close>

text \<open>An encoder first replaces a rune that is not a scalar value.\<close>

definition sanitize :: "rune \<Rightarrow> rune" where
  "sanitize r = (if scalar (unat r) then r else RuneError)"

lemma scalar_sanitize [simp]: "scalar (unat (sanitize r))"
  by (simp add: sanitize_def scalar_def RuneError_def)

definition write_prefix :: "u8 list \<Rightarrow> u8 list \<Rightarrow> (u8 list \<times> nat) go" where
  "write_prefix p b =
    (if length b \<le> length p then Inr (b @ drop (length b) p, length b) else Inl PanicIndex)"

lemma write1: "go_bind (go_set p 0 a) (\<lambda>p. Inr (p, 1)) = write_prefix p [a]"
  by (cases p) (auto simp: go_set_def write_prefix_def)

lemma write2: "go_bind (go_set p 0 a) (\<lambda>p. go_bind (go_set p 1 b) (\<lambda>p. Inr (p, 2))) = write_prefix p [a, b]"
  by (cases p; cases "tl p") (auto simp: go_set_def write_prefix_def)

lemma write3:
  "go_bind (go_set p 0 a) (\<lambda>p. go_bind (go_set p 1 b) (\<lambda>p. go_bind (go_set p 2 c) (\<lambda>p. Inr (p, 3))))
     = write_prefix p [a, b, c]"
  by (cases p; cases "tl p"; cases "tl (tl p)") (auto simp: go_set_def write_prefix_def numeral_2_eq_2)

lemma write4:
  "go_bind (go_set p 0 a) (\<lambda>p. go_bind (go_set p 1 b) (\<lambda>p. go_bind (go_set p 2 c) (\<lambda>p.
     go_bind (go_set p 3 d) (\<lambda>p. Inr (p, 4))))) = write_prefix p [a, b, c, d]"
  by (cases p; cases "tl p"; cases "tl (tl p)"; cases "tl (tl (tl p))")
     (auto simp: go_set_def write_prefix_def numeral_2_eq_2 numeral_3_eq_3)

lemma le_max_iff:
  "r \<le> rune1Max \<longleftrightarrow> unat r < 0x80" "r \<le> rune2Max \<longleftrightarrow> unat r < 0x800" "r \<le> rune3Max \<longleftrightarrow> unat r < 0x10000"
  "MaxRune < r \<or> surrogateMin \<le> r \<and> r \<le> surrogateMax \<longleftrightarrow> \<not> scalar (unat r)"
  by (auto simp: word_le_nat_alt word_less_nat_alt utf8_consts scalar_def)

lemma EncodeRune_bytes1: "unat r < 0x80 \<Longrightarrow> [ucast r] = utf8 r"
  by (rule utf8_of_unat [symmetric]) (simp add: utf8_nats_def unat_ucast_8)

lemma EncodeRune_bytes2:
  assumes "\<not> unat r < 0x80" and "unat r < 0x800"
  shows "[t2 OR ucast (signed_drop_bit 6 r), tx OR (ucast r AND maskx)] = utf8 r"
  using assms
  by (intro utf8_of_unat [symmetric])
     (simp add: utf8_nats_def or_lead unat_ucast_8 unat_signed_drop_bit byte_masks less_mult_imp_div_less mod_mod_cancel)

lemma EncodeRune_bytes3:
  assumes "\<not> unat r < 0x800" and "unat r < 0x10000"
  shows "[t3 OR ucast (signed_drop_bit 12 r), tx OR (ucast (signed_drop_bit 6 r) AND maskx),
    tx OR (ucast r AND maskx)] = utf8 r"
  using assms
  by (intro utf8_of_unat [symmetric])
     (simp add: utf8_nats_def or_lead unat_ucast_8 unat_signed_drop_bit byte_masks less_mult_imp_div_less mod_mod_cancel)

lemma EncodeRune_bytes4:
  assumes "\<not> unat r < 0x10000" and "unat r \<le> 0x10FFFF"
  shows "[t4 OR ucast (signed_drop_bit 18 r), tx OR (ucast (signed_drop_bit 12 r) AND maskx),
    tx OR (ucast (signed_drop_bit 6 r) AND maskx), tx OR (ucast r AND maskx)] = utf8 r"
proof -
  have "unat r div 262144 < 5" using assms by auto
  with assms show ?thesis
  by (intro utf8_of_unat [symmetric])
     (simp add: utf8_nats_def or_lead unat_ucast_8 unat_signed_drop_bit byte_masks less_mult_imp_div_less mod_mod_cancel)
qed

lemma EncodeRune_writes: "EncodeRune p r = write_prefix p (utf8 (sanitize r))"
proof -
  have e: "enc3 p r = write_prefix p (utf8 r)" if "\<not> unat r < 0x800" "unat r < 0x10000" for r
    unfolding enc3_def write3 EncodeRune_bytes3 [OF that] ..
  have err: "enc3 p RuneError = write_prefix p (utf8 RuneError)"
    by (rule e) (simp_all add: RuneError_def)
  show ?thesis
    unfolding EncodeRune_def Let_def le_max_iff write1 write2 write4 err
    by (auto simp: EncodeRune_bytes1 EncodeRune_bytes2 EncodeRune_bytes4 e sanitize_def scalar_def)
qed

lemma runetochar_bytes2:
  assumes "\<not> unat r < 0x80" and "unat r < 0x800"
  shows "[ucast (0xC0 OR drop_bit 6 r), ucast (0x80 OR (r AND 0x3F))] = utf8 r"
  using assms
  by (intro utf8_of_unat [symmetric])
     (simp add: utf8_nats_def or_lead32 unat_ucast_8 unat_shr unat_and_3F less_mult_imp_div_less)

lemma runetochar_bytes3:
  assumes "\<not> unat r < 0x800" and "unat r < 0x10000"
  shows "[ucast (0xE0 OR drop_bit 12 r), ucast (0x80 OR (drop_bit 6 r AND 0x3F)),
    ucast (0x80 OR (r AND 0x3F))] = utf8 r"
  using assms
  by (intro utf8_of_unat [symmetric])
     (simp add: utf8_nats_def or_lead32 unat_ucast_8 unat_shr unat_and_3F less_mult_imp_div_less)

lemma runetochar_bytes4:
  assumes "\<not> unat r < 0x10000" and "unat r \<le> 0x10FFFF"
  shows "[ucast (0xF0 OR drop_bit 18 r), ucast (0x80 OR (drop_bit 12 r AND 0x3F)),
    ucast (0x80 OR (drop_bit 6 r AND 0x3F)), ucast (0x80 OR (r AND 0x3F))] = utf8 r"
proof -
  have "unat r div 262144 < 5" using assms by auto
  with assms show ?thesis
  by (intro utf8_of_unat [symmetric])
     (simp add: utf8_nats_def or_lead32 unat_ucast_8 unat_shr unat_and_3F)
qed

lemma runetochar_writes: "runetochar p r = write_prefix p (utf8 (sanitize r))"
proof -
  have s: "(let c = if runemax < r then bad else r in if surrogateMin \<le> c \<and> c \<le> surrogateMax then bad else c)
    = sanitize r"
    by (auto simp: Let_def word_le_nat_alt word_less_nat_alt utf8_consts rune_consts scalar_def sanitize_def)
  have "\<not> unat (sanitize r) < 0x800" if "\<not> unat r < 0x800"
    using that by (simp add: sanitize_def RuneError_def)
  moreover have "unat (sanitize r) \<le> 0x10FFFF"
    using scalar_sanitize [of r] by (auto simp: scalar_def)
  moreover have "sanitize r = r" if "unat r < 0x800" using that by (simp add: sanitize_def scalar_def)
  moreover have "c \<le> rune1 \<longleftrightarrow> unat c < 0x80" "c \<le> rune2 \<longleftrightarrow> unat c < 0x800" "c \<le> rune3 \<longleftrightarrow> unat c < 0x10000" for c
    by (auto simp: word_le_nat_alt rune_consts)
  ultimately show ?thesis
    unfolding runetochar_def s [unfolded Let_def] Let_def write1 write2 write3 write4
    by (simp add: EncodeRune_bytes1 runetochar_bytes2 runetochar_bytes3 runetochar_bytes4)
qed

section \<open>The run-time decoder is the package's decoder\<close>

lemma u8_eq_iff_bits: "a = b \<longleftrightarrow> (\<forall>n\<in>{0,1,2,3,4,5,6,7}. bit a n = bit b n)" for a b :: u8
proof -
  have "{0,1,2,3,4,5,6,7} = {..<8::nat}" by auto
  then have "(\<forall>n\<in>{0,1,2,3,4,5,6,7}. bit a n = bit b n) \<longleftrightarrow> (\<forall>n<8. bit a n = bit b n)"
    by (simp add: Ball_def)
  then show ?thesis by (auto intro: bit_word_eqI)
qed

lemma not_bit_length8: "8 \<le> n \<Longrightarrow> \<not> bit (c :: u8) n"
  using bit_imp_le_length [of c n] by auto

lemma cont_iff_bits: "cont c \<longleftrightarrow> bit c 7 \<and> \<not> bit c 6"
proof -
  have "cont c \<longleftrightarrow> unat c div 64 = 2" by (auto simp: cont_def)
  also have "\<dots> \<longleftrightarrow> drop_bit 6 c = 2" by (simp add: word_unat_eq_iff unat_shr)
  also have "\<dots> \<longleftrightarrow> bit c 7 \<and> \<not> bit c 6"
    unfolding u8_eq_iff_bits using not_bit_length8 by (auto simp: bit_simps)
  finally show ?thesis .
qed

lemma testx_iff: "(c XOR tx) AND testx = 0 \<longleftrightarrow> cont c"
  unfolding u8_eq_iff_bits cont_iff_bits by (auto simp: bit_simps utf8_consts rune_consts)

lemma xor_tx: "cont c \<Longrightarrow> c XOR tx = c AND maskx"
  unfolding u8_eq_iff_bits cont_iff_bits by (simp add: bit_simps utf8_consts rune_consts)

lemma maskx_testx [simp]: "(c AND maskx) AND testx = 0"
  unfolding u8_eq_iff_bits by (simp add: bit_simps utf8_consts rune_consts)

lemma and_rune_mask:
  "unat (w AND rune2) = unat w mod 2048" "unat (w AND rune3) = unat w mod 65536"
  "unat (w AND rune4) = unat w mod 2097152"
  using unat_and_mask [of w 11] unat_and_mask [of w 16] unat_and_mask [of w 21]
  by (simp_all add: rune_consts mask_eq_exp_minus_1)

lemma mod_horner: "(x * 64 + y) mod (k * 64) = x mod k * 64 + y" if "y < 64" for x y k :: nat
  using that by (simp add: mod_mult2_eq mult.commute [of k] div_mult_self3)

lemma rt_val2:
  "(push_bit 6 (ucast c0) OR ucast (c1 AND maskx)) AND rune2 = (of_nat (val2 c0 c1) :: u32)"
proof -
  have "unat (push_bit 6 (ucast c0) OR ucast (c1 AND maskx) :: u32) = unat c0 * 64 + unat c1 mod 64"
    using unat_lt2p [of c0] by (subst unat_low6) (simp_all add: unat_ucast_32)
  then have "unat ((push_bit 6 (ucast c0) OR ucast (c1 AND maskx) :: u32) AND rune2) = val2 c0 c1"
    using mod_horner [of "unat c1 mod 64" "unat c0" 32]
    by (simp add: and_rune_mask val2_def)
  then show ?thesis by (metis word32_of_unat)
qed

lemma rt_val3:
  "(push_bit 6 (push_bit 6 (ucast c0) OR ucast (c1 AND maskx)) OR ucast (c2 AND maskx)) AND rune3
     = (of_nat (val3 c0 c1 c2) :: u32)"
proof -
  let ?w = "push_bit 6 (ucast c0) OR ucast (c1 AND maskx) :: u32"
  have lt: "unat c0 < 256" "unat c1 mod 64 < 64" using unat_lt2p [of c0] by simp_all
  then have 1: "unat ?w = unat c0 * 64 + unat c1 mod 64"
    by (subst unat_low6) (simp_all add: unat_ucast_32)
  have "unat (push_bit 6 ?w OR ucast (c2 AND maskx)) = (unat c0 * 64 + unat c1 mod 64) * 64 + unat c2 mod 64"
    using 1 lt by (subst unat_low6) simp_all
  then have "unat ((push_bit 6 ?w OR ucast (c2 AND maskx)) AND rune3) = val3 c0 c1 c2"
    using mod_horner [of "unat c1 mod 64" "unat c0" 16] mod_horner [of "unat c2 mod 64" "unat c0 * 64 + unat c1 mod 64" 1024]
    by (simp add: and_rune_mask val3_def)
  then show ?thesis by (metis word32_of_unat)
qed

lemma rt_val4:
  "(push_bit 6 (push_bit 6 (push_bit 6 (ucast c0) OR ucast (c1 AND maskx)) OR ucast (c2 AND maskx))
      OR ucast (c3 AND maskx)) AND rune4 = (of_nat (val4 c0 c1 c2 c3) :: u32)"
proof -
  let ?w = "push_bit 6 (ucast c0) OR ucast (c1 AND maskx) :: u32"
  let ?w' = "push_bit 6 ?w OR ucast (c2 AND maskx) :: u32"
  let ?x = "unat c0 * 64 + unat c1 mod 64"
  have lt: "unat c0 < 256" "unat c1 mod 64 < 64" "unat c2 mod 64 < 64" using unat_lt2p [of c0] by simp_all
  then have 1: "unat ?w = ?x"
    by (subst unat_low6) (simp_all add: unat_ucast_32)
  have 2: "unat ?w' = ?x * 64 + unat c2 mod 64"
    using 1 lt by (subst unat_low6) simp_all
  have "unat (push_bit 6 ?w' OR ucast (c3 AND maskx)) = (?x * 64 + unat c2 mod 64) * 64 + unat c3 mod 64"
    using 2 lt by (subst unat_low6) simp_all
  then have "unat ((push_bit 6 ?w' OR ucast (c3 AND maskx)) AND rune4) = val4 c0 c1 c2 c3"
    using mod_horner [of "unat c1 mod 64" "unat c0" 8] mod_horner [of "unat c2 mod 64" ?x 512]
      mod_horner [of "unat c3 mod 64" "?x * 64 + unat c2 mod 64" 32768]
    by (simp add: and_rune_mask val4_def)
  then show ?thesis by (metis word32_of_unat)
qed

lemma charntorune_spec:
  assumes "s \<noteq> []"
  shows "charntorune s = (case decode_spec s of (v, n, short) \<Rightarrow> (of_nat v, n))"
proof -
  have e: "bad = of_nat 0xFFFD" by (simp add: rune_consts)
  have mono: "length s \<le> 1 \<longrightarrow> length s \<le> 2" "length s \<le> 2 \<longrightarrow> length s \<le> 3"
    "unat (s ! 0) < 128 \<longrightarrow> unat (s ! 0) < 224" "unat (s ! 0) < 224 \<longrightarrow> unat (s ! 0) < 240" by auto
  have l: "(of_nat (val2 c0 c1) :: u32) \<le>s rune1 \<longleftrightarrow> val2 c0 c1 < 0x80"
    "(of_nat (val3 c0 c1 c2) :: u32) \<le>s rune2 \<longleftrightarrow> val3 c0 c1 c2 < 0x800"
    "(of_nat (val4 c0 c1 c2 c3) :: u32) \<le>s rune3 \<or> runemax <s (of_nat (val4 c0 c1 c2 c3) :: u32)
      \<longleftrightarrow> val4 c0 c1 c2 c3 < 0x10000 \<or> \<not> scalar (val4 c0 c1 c2 c3)" for c0 c1 c2 c3
    using val2_sle val3_sle(1) val4_sle by (simp_all add: utf8_consts rune_consts)
  note eq = charntorune_def Let_def decode_spec_def byte_less_iff testx_iff e assms
  consider "unat (s ! 0) < 128" | "length s \<le> 1" "\<not> unat (s ! 0) < 128"
    | "\<not> unat (s ! 0) < 128" "\<not> length s \<le> 1" "\<not> cont (s ! 1)"
    | "\<not> unat (s ! 0) < 128" "\<not> length s \<le> 1" "cont (s ! 1)" "unat (s ! 0) < 224"
    | "\<not> unat (s ! 0) < 224" "\<not> length s \<le> 1" "cont (s ! 1)" "length s \<le> 2"
    | "\<not> unat (s ! 0) < 224" "\<not> length s \<le> 2" "cont (s ! 1)" "\<not> cont (s ! 2)"
    | "\<not> unat (s ! 0) < 224" "\<not> length s \<le> 2" "cont (s ! 1)" "cont (s ! 2)" "unat (s ! 0) < 240"
    | "\<not> unat (s ! 0) < 240" "\<not> length s \<le> 2" "cont (s ! 1)" "cont (s ! 2)" "length s \<le> 3"
    | "\<not> unat (s ! 0) < 240" "\<not> length s \<le> 3" "cont (s ! 1)" "cont (s ! 2)" "\<not> cont (s ! 3)"
    | "\<not> unat (s ! 0) < 240" "\<not> length s \<le> 3" "cont (s ! 1)" "cont (s ! 2)" "cont (s ! 3)"
    using mono by argo
  then show ?thesis
  proof cases
    case 4 then show ?thesis by (simp add: eq xor_tx rt_val2 l)
  next
    case 7 then show ?thesis 
      using val3_sle(2) [of "s ! 0" "s ! 1" "s ! 2"] by (auto simp: eq xor_tx rt_val3 [simplified] l)
  next
    case 10 then show ?thesis by (simp add: eq xor_tx rt_val4 [simplified] l)
  qed (simp_all add: eq)
qed

section \<open>What a decoder returns\<close>

lemma decodeRuneInString_eq: "decodeRuneInStringInternal = decodeRuneInternal"
  by (rule ext) (simp only: decodeRuneInStringInternal_def decodeRuneInternal_def)

lemma DecodeRuneInString_eq: "DecodeRuneInString = DecodeRune"
  by (rule ext) (simp add: DecodeRuneInString_def DecodeRune_def decodeRuneInString_eq)

lemma DecodeRune_spec: "DecodeRune p = (case decode_spec p of (v, n, short) \<Rightarrow> (of_nat v, n))"
  by (simp add: DecodeRune_def decodeRuneInternal_spec split: prod.splits)

lemma charntorune_DecodeRune: "s \<noteq> [] \<Longrightarrow> charntorune s = DecodeRune s"
  by (simp add: charntorune_spec DecodeRune_spec)

lemma utf8_not_Nil [simp]: "utf8 r \<noteq> []"
  by (simp add: utf8_def utf8_nats_def)

lemma length_utf8: "length (utf8 r) = (if unat r < 0x80 then 1 else if unat r < 0x800 then 2
    else if unat r < 0x10000 then 3 else 4)"
  by (simp add: utf8_def utf8_nats_def)

lemma DecodeRune_utf8:
  "scalar (unat r) \<Longrightarrow> DecodeRune (utf8 r @ rest) = (r, length (utf8 r))"
  by (simp add: DecodeRune_spec utf8_decode_spec)

lemma utf8_prefix_unique:
  assumes "scalar (unat r)" "scalar (unat r')" "prefix (utf8 r) p" "prefix (utf8 r') p"
  shows "r = r'"
proof -
  obtain x where "p = utf8 r @ x" using assms(3) by (elim prefixE)
  moreover obtain y where "p = utf8 r' @ y" using assms(4) by (elim prefixE)
  ultimately show ?thesis using DecodeRune_utf8 [OF assms(1), of x] DecodeRune_utf8 [OF assms(2), of y] by simp
qed

lemma utf8_ascii: "unat c < 128 \<Longrightarrow> utf8 (ucast c) = [c]"
  by (rule utf8_of_unat) (simp add: utf8_nats_def unat_ucast_32)

text \<open>The first byte decides between the one-byte forms, and every longer result is an encoding.\<close>

lemma DecodeRune_ascii: "p \<noteq> [] \<Longrightarrow> unat (p ! 0) < 128 \<Longrightarrow> DecodeRune p = (ucast (p ! 0), 1)"
  by (simp add: DecodeRune_spec decode_spec_def)

lemma decode_spec_error: "decode_spec p = (v, 1, short) \<Longrightarrow> \<not> unat (p ! 0) < 128 \<Longrightarrow> v = 0xFFFD"
  by (auto simp: decode_spec_def split: if_splits)

lemma DecodeRune_error:
  "p \<noteq> [] \<Longrightarrow> \<not> unat (p ! 0) < 128 \<Longrightarrow> snd (DecodeRune p) = 1 \<Longrightarrow> fst (DecodeRune p) = RuneError"
  using decode_spec_error [of p] by (auto simp: DecodeRune_spec RuneError_def split: prod.splits)

lemma DecodeRune_multi:
  assumes "p \<noteq> []" and "DecodeRune p = (r, n)" and "n \<noteq> 1"
  shows "scalar (unat r) \<and> n \<le> length p \<and> take n p = utf8 r"
proof -
  obtain v short where d: "decode_spec p = (v, n, short)" and r: "r = of_nat v"
    using assms(2) by (auto simp: DecodeRune_spec split: prod.splits)
  have s: "scalar v" "n \<le> length p" "map unat (take n p) = utf8_nats v"
    using decode_spec_utf8 [OF d assms(3,1)] by auto
  have "unat r = v" unfolding r using scalar_small [OF s(1)] by (rule unat_of_nat_small)
  then show ?thesis using s utf8_of_unat [of r "take n p"] by simp
qed

lemma DecodeRune_ok:
  assumes "p \<noteq> []" and "DecodeRune p = (r, n)" and "n \<noteq> 1 \<or> unat (p ! 0) < 128"
  shows "scalar (unat r) \<and> n \<le> length p \<and> take n p = utf8 r"
proof (cases "unat (p ! 0) < 128")
  case True
  then show ?thesis
    using assms DecodeRune_ascii [OF assms(1) True] utf8_ascii [OF True]
    by (cases p) (auto simp: scalar_def unat_ucast_32)
qed (use assms DecodeRune_multi in blast)

lemma utf8_ascii_iff: 
  assumes "scalar (unat r)" shows "unat (utf8 r ! 0) < 128 \<longleftrightarrow> length (utf8 r) = 1"
proof -
  have "unat (utf8 r ! 0) = utf8_nats (unat r) ! 0"
    using utf8_unat [OF assms] by (metis length_greater_0_conv nth_map utf8_not_Nil)
  then show ?thesis using length_utf8 [of r] by (auto simp: utf8_nats_def)
qed

lemma DecodeRune_no_prefix:
  assumes "p \<noteq> []" and "\<And>r. scalar (unat r) \<Longrightarrow> \<not> prefix (utf8 r) p"
  shows "DecodeRune p = (RuneError, 1)"
proof -
  obtain r n where d: "DecodeRune p = (r, n)" by fastforce
  have "n = 1" "\<not> unat (p ! 0) < 128"
    using DecodeRune_ok [OF assms(1) d] assms(2) take_is_prefix [of n p] by metis+
  then show ?thesis using DecodeRune_error [OF assms(1)] d by simp
qed

section \<open>Loops\<close>

lemma RuneCount_step: "p \<noteq> [] \<Longrightarrow> RuneCount p = 1 + RuneCount (drop (snd (DecodeRune p)) p)"
  using DecodeRune_ascii [of p] by (subst RuneCount.simps) (auto simp: RuneSelf_def)

lemma Valid_step: "p \<noteq> [] \<Longrightarrow>
    Valid p \<longleftrightarrow> (unat (p ! 0) < 128 \<or> snd (DecodeRune p) \<noteq> 1) \<and> Valid (drop (snd (DecodeRune p)) p)"
  using DecodeRune_ascii [of p] by (subst Valid.simps) (auto simp: RuneSelf_def)

lemma range_string_step: "k < length s \<Longrightarrow>
    range_string s k = (k, fst (DecodeRune (drop k s))) # range_string s (k + snd (DecodeRune (drop k s)))"
  using DecodeRune_ascii [of "drop k s"] DecodeRune_size [of "drop k s"]
  by (subst range_string.simps)
     (auto simp: stringiter2_def Let_def charntorune_DecodeRune RuneSelf_def split: prod.splits)

lemma range_string_end: "length s \<le> k \<Longrightarrow> range_string s k = []"
  by (subst range_string.simps) (simp add: stringiter2_def)

lemma RuneCount_Nil [simp]: "RuneCount [] = 0" and Valid_Nil [simp]: "Valid []"
  by (simp_all add: RuneCount.simps Valid.simps)

lemma range_string_count: "length (range_string s k) = RuneCount (drop k s)"
proof (induction "length s - k" arbitrary: k rule: less_induct)
  case less
  show ?case
  proof (cases "k < length s")
    case True
    let ?n = "snd (DecodeRune (drop k s))"
    have "1 \<le> ?n" using DecodeRune_size [of "drop k s"] True by simp
    then have "length (range_string s (k + ?n)) = RuneCount (drop (k + ?n) s)"
      using True by (intro less) auto
    then show ?thesis
      using True RuneCount_step [of "drop k s"] by (simp add: range_string_step add.commute)
  qed (simp add: range_string_end)
qed

lemma range_string_valid:
  "list_all (\<lambda>(i, r). r = RuneError \<longrightarrow> snd (DecodeRune (drop i s)) \<noteq> 1) (range_string s k)
     \<longleftrightarrow> Valid (drop k s)"
proof (induction "length s - k" arbitrary: k rule: less_induct)
  case less
  show ?case
  proof (cases "k < length s")
    case True
    let ?p = "drop k s"
    let ?n = "snd (DecodeRune ?p)"
    have p: "?p \<noteq> []" using True by simp
    have "1 \<le> ?n" using DecodeRune_size [OF p] by simp
    then have IH: "list_all (\<lambda>(i, r). r = RuneError \<longrightarrow> snd (DecodeRune (drop i s)) \<noteq> 1) (range_string s (k + ?n))
        \<longleftrightarrow> Valid (drop (k + ?n) s)"
      using True by (intro less) auto
    have "(fst (DecodeRune ?p) = RuneError \<longrightarrow> ?n \<noteq> 1) \<longleftrightarrow> unat (?p ! 0) < 128 \<or> ?n \<noteq> 1"
    proof (cases "unat (?p ! 0) < 128")
      case True
      then have "unat (ucast (?p ! 0) :: u32) \<noteq> unat RuneError" by (simp add: unat_ucast_32 RuneError_def)
      then have "(ucast (?p ! 0) :: u32) \<noteq> RuneError" by metis
      then show ?thesis using True DecodeRune_ascii [OF p True] by simp
    next
      case False then show ?thesis using DecodeRune_error [OF p False] by auto
    qed
    then show ?thesis
      using True IH Valid_step [OF p] by (simp add: range_string_step add.commute)
  qed (simp add: range_string_end)
qed

lemma Valid_append: "scalar (unat r) \<Longrightarrow> Valid (utf8 r @ q) \<longleftrightarrow> Valid q"
  using Valid_step [of "utf8 r @ q"] DecodeRune_utf8 [of r q] utf8_ascii_iff [of r]
  by (auto simp: nth_append)

lemma RuneCount_append: "scalar (unat r) \<Longrightarrow> RuneCount (utf8 r @ q) = 1 + RuneCount q"
  using RuneCount_step [of "utf8 r @ q"] DecodeRune_utf8 [of r q] by simp

lemma Valid_iff_encodings:
  "Valid p \<longleftrightarrow> (\<exists>rs. list_all (\<lambda>r. scalar (unat r)) rs \<and> p = concat (map utf8 rs))"
proof
  show "Valid p \<Longrightarrow> \<exists>rs. list_all (\<lambda>r. scalar (unat r)) rs \<and> p = concat (map utf8 rs)"
  proof (induction "length p" arbitrary: p rule: less_induct)
    case less
    show ?case
    proof (cases "p = []")
      case False
      obtain r n where d: "DecodeRune p = (r, n)" by fastforce
      have ok: "unat (p ! 0) < 128 \<or> n \<noteq> 1" "Valid (drop n p)"
        using less(2) Valid_step [OF False] d by auto
      then have r: "scalar (unat r)" "take n p = utf8 r" "n \<le> length p"
        using DecodeRune_ok [OF False d] by auto
      have "length (drop n p) < length p" using DecodeRune_size [OF False] d False by simp
      from less(1) [OF this ok(2)] obtain rs
        where "list_all (\<lambda>r. scalar (unat r)) rs" "drop n p = concat (map utf8 rs)" by blast
      with r have "list_all (\<lambda>r. scalar (unat r)) (r # rs) \<and> p = concat (map utf8 (r # rs))"
        using append_take_drop_id [of n p] by simp
      then show ?thesis by blast
    qed (simp add: exI [of _ "[]"])
  qed
next
  assume "\<exists>rs. list_all (\<lambda>r. scalar (unat r)) rs \<and> p = concat (map utf8 rs)"
  then obtain rs where "list_all (\<lambda>r. scalar (unat r)) rs" "p = concat (map utf8 rs)" by blast
  then show "Valid p" by (induction rs arbitrary: p) (simp_all add: Valid_append)
qed

lemma ValidRune_eq_scalar: "ValidRune = (\<lambda>r. scalar (unat r))"
  by (rule ext) (rule ValidRune_iff_scalar)

lemma RuneCount_encodings:
  "list_all (\<lambda>r. scalar (unat r)) rs \<Longrightarrow> RuneCount (concat (map utf8 rs)) = length rs"
  by (induction rs) (simp_all add: RuneCount_append)

section \<open>The last rune\<close>

lemma RuneStart_iff: "RuneStart b \<longleftrightarrow> \<not> cont b"
  unfolding RuneStart_def cont_iff_bits u8_eq_iff_bits by (auto simp: bit_simps)

lemma utf8_cont:
  assumes "scalar (unat r)" and "i < length (utf8 r)"
  shows "cont (utf8 r ! i) \<longleftrightarrow> i \<noteq> 0"
proof -
  have u: "unat (utf8 r ! i) = utf8_nats (unat r) ! i"
    using utf8_unat [OF assms(1)] assms(2) by (metis nth_map)
  have i: "i = 0 \<or> i = 1 \<or> i = 2 \<or> i = 3" using assms(2) length_utf8 [of r] by (auto split: if_splits)
  have b: "unat r \<le> 0x10FFFF" using assms(1) by (auto simp: scalar_def)
  show ?thesis
    using i assms(2) b unfolding cont_def u length_utf8 utf8_nats_def
    by (elim disjE) (auto split: if_splits)
qed

lemma scan_start_finds:
  assumes "lim \<le> j" "0 \<le> j" "RuneStart (p ! nat j)" "j \<le> k"
    and "\<And>i. j < i \<Longrightarrow> i \<le> k \<Longrightarrow> \<not> RuneStart (p ! nat i)"
  shows "scan_start p lim k = j"
  using assms(4,5)
proof (induction "nat (k - j)" arbitrary: k)
  case 0
  then show ?case using assms(1-3) by (subst scan_start.simps) auto
next
  case (Suc m)
  then have "scan_start p lim (k - 1) = j" by (intro Suc(1)) auto
  then show ?case using Suc assms(1,2) by (subst scan_start.simps) auto
qed

lemma scan_start_bound: "0 \<le> k \<or> k = -1 \<Longrightarrow> -1 \<le> scan_start p lim k \<and> scan_start p lim k \<le> k"
proof (induction "nat (k + 1)" arbitrary: k)
  case 0 then show ?case by (subst (1 2) scan_start.simps) auto
next
  case (Suc m)
  then have "-1 \<le> scan_start p lim (k - 1) \<and> scan_start p lim (k - 1) \<le> k - 1"
    by (intro Suc(1)) auto
  then show ?case using Suc(3) by (subst (1 2) scan_start.simps) auto
qed

lemma DecodeLastRune_suffix:
  assumes "scalar (unat r)"
  shows "DecodeLastRune (q @ utf8 r) = (r, length (utf8 r))"
proof -
  let ?b = "utf8 r" let ?p = "q @ utf8 r" let ?m = "length (utf8 r)"
  have m: "1 \<le> ?m" "?m \<le> 4" by (simp_all add: length_utf8)
  have last: "?p ! (length ?p - 1) = ?b ! (?m - 1)"
    using m nth_append_length_plus [of q "utf8 r" "?m - 1"] by simp
  show ?thesis
  proof (cases "?m = 1")
    case True
    then obtain c where c: "?b = [c]" by (cases "utf8 r") auto
    then have "unat c < 128" using utf8_ascii_iff [OF assms] by simp
    moreover have "r = ucast c"
      using DecodeRune_utf8 [OF assms, of "[]"] DecodeRune_ascii [of "[c]"] c calculation by simp
    ultimately show ?thesis using c by (simp add: DecodeLastRune_def RuneSelf_def unat_ucast_32)
  next
    case False
    have "cont (?b ! (?m - 1))" using utf8_cont [OF assms, of "?m - 1"] False m by auto
    then have hi: "\<not> unat (ucast (?p ! (length ?p - 1)) :: u32) < RuneSelf"
      by (simp only: last) (simp add: cont_def unat_ucast_32 RuneSelf_def)
    let ?lim = "if int (length ?p) - int UTFMax < 0 then 0 else int (length ?p) - int UTFMax"
    have st: "scan_start ?p ?lim (int (length ?p - 1) - 1) = int (length q)"
    proof (rule scan_start_finds)
      show "RuneStart (?p ! nat (int (length q)))"
        using utf8_cont [OF assms, of 0] by (simp add: RuneStart_iff nth_append)
    next
      fix i assume i: "int (length q) < i" "i \<le> int (length ?p - 1) - 1"
      then have "nat i < length ?p" "\<not> nat i < length q" "nat i - length q \<noteq> 0" by auto
      then show "\<not> RuneStart (?p ! nat i)"
        using utf8_cont [OF assms, of "nat i - length q"] by (simp add: RuneStart_iff nth_append)
    qed (use m False in \<open>auto simp: UTFMax_def\<close>)
    show ?thesis
      unfolding DecodeLastRune_def Let_def st
      using hi m DecodeRune_utf8 [OF assms, of "[]"] by simp
  qed
qed

lemma DecodeLastRune_no_suffix:
  assumes "p \<noteq> []" and no: "\<And>r. scalar (unat r) \<Longrightarrow> \<not> suffix (utf8 r) p"
  shows "DecodeLastRune p = (RuneError, 1)"
proof -
  have "\<not> unat (last p) < 128"
  proof
    assume *: "unat (last p) < 128"
    have "scalar (unat (ucast (last p) :: u32))" using * by (simp add: scalar_def unat_ucast_32)
    moreover have "suffix [last p] p" using assms(1) by (metis append_butlast_last_id suffixI)
    ultimately show False using no utf8_ascii [OF *] by metis
  qed
  then have hi: "\<not> unat (ucast (p ! (length p - 1)) :: u32) < RuneSelf"
    using assms(1) by (simp add: last_conv_nth unat_ucast_32 RuneSelf_def)
  let ?lim = "if int (length p) - int UTFMax < 0 then 0 else int (length p) - int UTFMax"
  define st where "st = scan_start p ?lim (int (length p - 1) - 1)"
  define st' where "st' = nat (if st < 0 then 0 else st)"
  have st: "st \<le> int (length p - 1) - 1"
    unfolding st_def using assms(1) by (intro scan_start_bound [THEN conjunct2]) auto
  then have st': "st' < length p" "drop st' p \<noteq> []" using assms(1) by (auto simp: st'_def)
  obtain r n where d: "DecodeRune (drop st' p) = (r, n)" by fastforce
  have "r = RuneError \<and> n = 1" if "st' + n = length p"
  proof (cases "n = 1")
    case True
    then have "p ! st' = last p" using that assms(1) by (simp add: last_conv_nth flip: that)
    then show ?thesis
      using True DecodeRune_error [OF st'(2)] d \<open>\<not> unat (last p) < 128\<close> st' by simp
  next
    case False
    then have "scalar (unat r)" "drop st' p = utf8 r"
      using DecodeRune_multi [OF st'(2) d False] that by auto
    then show ?thesis using no suffix_drop [of st' p] by metis
  qed
  then show ?thesis
    unfolding DecodeLastRune_def Let_def st_def [symmetric] st'_def [symmetric]
    using assms(1) hi d by auto
qed

lemma RuneLen_utf8: "RuneLen r = (if ValidRune r then int (length (utf8 r)) else -1)"
proof (cases "unat r < 2 ^ 31")
  case True
  then show ?thesis
    by (auto simp: RuneLen_def ValidRune_iff_scalar scalar_def length_utf8 sless_zero sle_small utf8_consts)
qed (auto simp: RuneLen_def ValidRune_iff_scalar scalar_def sless_zero)

section \<open>Properties\<close>

text \<open>Both encoders write, into any buffer, exactly the Unicode bytes of the rune (of U+FFFD when
  the rune is not a scalar value), leave the rest of the buffer alone, and panic exactly when the
  buffer is too short; \<open>RuneLen\<close> announces the number of bytes of a valid rune and is -1 for the
  others.\<close>
theorem encoders_write_utf8:
  "EncodeRune p r =
     (let b = utf8 (if ValidRune r then r else RuneError) in
      if length b \<le> length p then Inr (b @ drop (length b) p, length b) else Inl PanicIndex)
   \<and> runetochar p r = EncodeRune p r
   \<and> RuneLen r = (if ValidRune r then int (length (utf8 r)) else -1)"
proof (intro conjI)
  show "EncodeRune p r =
     (let b = utf8 (if ValidRune r then r else RuneError) in
      if length b \<le> length p then Inr (b @ drop (length b) p, length b) else Inl PanicIndex)"
    by (simp add: EncodeRune_writes write_prefix_def sanitize_def ValidRune_iff_scalar Let_def)
  show "runetochar p r = EncodeRune p r" by (simp add: EncodeRune_writes runetochar_writes)
  show "RuneLen r = (if ValidRune r then int (length (utf8 r)) else -1)" by (rule RuneLen_utf8)
qed

text \<open>Decoding what either encoder wrote, followed by any other bytes, gives back the rune and the
  number of bytes written, with both decoders.\<close>
theorem decode_encode_roundtrip:
  assumes "ValidRune r" and "EncodeRune p r = Inr (q, n)"
  shows "DecodeRune (take n q @ rest) = (r, n) \<and> charntorune (take n q @ rest) = (r, n)"
proof -
  have s: "scalar (unat r)" using assms(1) by (simp add: ValidRune_iff_scalar)
  then have "take n q = utf8 r" "n = length (utf8 r)"
    using assms(2) by (auto simp: EncodeRune_writes write_prefix_def sanitize_def split: if_splits)
  then show ?thesis using DecodeRune_utf8 [OF s, of rest] by (simp add: charntorune_DecodeRune)
qed

theorem decode_encode_roundtrip_witness:
  "ValidRune 0x20AC \<and> EncodeRune [0, 0, 0, 0] 0x20AC = Inr ([0xE2, 0x82, 0xAC, 0], 3)
   \<and> DecodeRune (take 3 [0xE2, 0x82, 0xAC, 0] @ [0x41]) = (0x20AC, 3)"
proof -
  have "ValidRune 0x20AC" by code_simp
  moreover have "EncodeRune [0, 0, 0, 0] 0x20AC = Inr ([0xE2, 0x82, 0xAC, 0], 3)" by code_simp
  ultimately show ?thesis using decode_encode_roundtrip [of "0x20AC" "[0, 0, 0, 0]" _ 3 "[0x41]"] by simp
qed

text \<open>C6: On every non-empty input, \<open>DecodeRune\<close>, \<open>DecodeRuneInString\<close> and the run-time's
  \<open>charntorune\<close> return the same result: the unique scalar value whose encoding starts the input, with
  the length of that encoding, or U+FFFD with width 1 when no encoding of a scalar value (no
  overlong form, surrogate, truncated or out-of-range sequence) starts it.\<close>
theorem decoders_agree:
  assumes "p \<noteq> []"
  shows "DecodeRuneInString p = DecodeRune p \<and> charntorune p = DecodeRune p
    \<and> (\<forall>r. ValidRune r \<and> prefix (utf8 r) p \<longrightarrow> DecodeRune p = (r, length (utf8 r)))
    \<and> ((\<nexists>r. ValidRune r \<and> prefix (utf8 r) p) \<longrightarrow> DecodeRune p = (RuneError, 1))"
proof -
  have "\<forall>r. ValidRune r \<and> prefix (utf8 r) p \<longrightarrow> DecodeRune p = (r, length (utf8 r))"
    by (auto simp: prefix_def ValidRune_iff_scalar DecodeRune_utf8)
  moreover have "(\<nexists>r. ValidRune r \<and> prefix (utf8 r) p) \<longrightarrow> DecodeRune p = (RuneError, 1)"
    using DecodeRune_no_prefix [OF assms] ValidRune_iff_scalar by blast
  ultimately show ?thesis using charntorune_DecodeRune [OF assms] DecodeRuneInString_eq by simp
qed

theorem decoders_agree_witness:
  "[0xE2, 0x82, 0xAC] \<noteq> ([] :: u8 list) \<and> charntorune [0xE2, 0x82, 0xAC] = DecodeRune [0xE2, 0x82, 0xAC]
   \<and> DecodeRune [0xE2, 0x82, 0xAC] = (0x20AC, 3)"
proof -
  have "DecodeRune [0xE2, 0x82, 0xAC] = (0x20AC, 3)" by code_simp
  then show ?thesis using decoders_agree [of "[0xE2, 0x82, 0xAC]"] by simp
qed

text \<open>\<open>Valid\<close> and \<open>ValidString\<close> accept exactly the concatenations of encodings of scalar values,
  \<open>RuneCount\<close> and \<open>RuneCountInString\<close> (a \<open>range\<close> loop) agree on every input, valid or not, and on a
  concatenation of encodings they count them.\<close>
theorem valid_iff_concat_of_encodings:
  "(Valid p \<longleftrightarrow> (\<exists>rs. list_all ValidRune rs \<and> p = concat (map utf8 rs)))
   \<and> ValidString p = Valid p
   \<and> RuneCountInString p = RuneCount p
   \<and> (list_all ValidRune rs \<longrightarrow> RuneCount (concat (map utf8 rs)) = length rs)"
  using Valid_iff_encodings [of p] range_string_valid [of p 0] range_string_count [of p 0]
    RuneCount_encodings [of rs]
  by (simp add: ValidRune_eq_scalar ValidString_def DecodeRuneInString_eq RuneCountInString_def)

theorem valid_iff_concat_of_encodings_witness:
  "list_all ValidRune [0x41, 0x20AC] \<and> RuneCount (concat (map utf8 [0x41, 0x20AC])) = 2"
proof -
  have "list_all ValidRune [0x41, 0x20AC]" by code_simp
  then show ?thesis using valid_iff_concat_of_encodings [of _ "[0x41, 0x20AC]"] by simp
qed

text \<open>On every non-empty input \<open>DecodeLastRune\<close> and \<open>DecodeLastRuneInString\<close> return the scalar value
  whose encoding ends the input, with its length, although they look back at most four bytes; when no
  encoding ends it they return U+FFFD with width 1.\<close>
theorem decode_last_rune:
  assumes "p \<noteq> []"
  shows "DecodeLastRuneInString p = DecodeLastRune p
    \<and> (\<forall>r. ValidRune r \<and> suffix (utf8 r) p \<longrightarrow> DecodeLastRune p = (r, length (utf8 r)))
    \<and> ((\<nexists>r. ValidRune r \<and> suffix (utf8 r) p) \<longrightarrow> DecodeLastRune p = (RuneError, 1))"
proof -
  have "\<forall>r. ValidRune r \<and> suffix (utf8 r) p \<longrightarrow> DecodeLastRune p = (r, length (utf8 r))"
    by (auto simp: suffix_def ValidRune_iff_scalar DecodeLastRune_suffix)
  moreover have "(\<nexists>r. ValidRune r \<and> suffix (utf8 r) p) \<longrightarrow> DecodeLastRune p = (RuneError, 1)"
    using DecodeLastRune_no_suffix [OF assms] ValidRune_iff_scalar by blast
  moreover have "DecodeLastRuneInString p = DecodeLastRune p"
    unfolding DecodeLastRuneInString_def DecodeLastRune_def DecodeRuneInString_eq ..
  ultimately show ?thesis by simp
qed

theorem decode_last_rune_witness:
  "[0x41, 0xC3, 0xA9] \<noteq> ([] :: u8 list) \<and> DecodeLastRune [0x41, 0xC3, 0xA9] = (0xE9, 2)"
proof -
  have u: "utf8 0xE9 = [0xC3, 0xA9]" by (simp add: utf8_def utf8_nats_def)
  have v: "ValidRune 0xE9" by code_simp
  have "suffix (utf8 0xE9) [0x41, 0xC3, 0xA9]" by (simp add: u suffix_def)
  then have "DecodeLastRune [0x41, 0xC3, 0xA9] = (0xE9, length (utf8 0xE9))"
    using decode_last_rune [of "[0x41, 0xC3, 0xA9]"] v by blast
  then show ?thesis by (simp add: u)
qed

lemma decode_spec_short_prefix:
  assumes "scalar (unat r)" and "n < length (utf8 r)"
  shows "snd (snd (decode_spec (take n (utf8 r))))"
proof -
  let ?p = "take n (utf8 r)"
  have c0: "unat (utf8 r ! 0) = utf8_nats (unat r) ! 0"
    using utf8_unat [OF assms(1)] by (metis length_greater_0_conv nth_map utf8_not_Nil)
  have c: "cont (utf8 r ! i)" if "0 < i" "i < n" for i
    using utf8_cont [OF assms(1), of i] that assms(2) by auto
  have l: "length ?p = n" using assms(2) by simp
  have "n = 0 \<or> n = 1 \<or> n = 2 \<or> n = 3" using assms(2) length_utf8 [of r] by (auto split: if_splits)
  moreover have "1 < n \<longrightarrow> cont (utf8 r ! 1)" "2 < n \<longrightarrow> cont (utf8 r ! 2)" using c by auto
  ultimately show ?thesis
    using l c0 assms(2) unfolding length_utf8 utf8_nats_def decode_spec_def
    by (elim disjE) (auto split: if_splits)
qed

text \<open>\<open>FullRune\<close> is false on every proper prefix of an encoding; when it is false no encoding of
  a scalar value starts the input. It is also false on E0 80, which no further byte can complete.\<close>
theorem full_rune_incomplete:
  "(ValidRune r \<and> n < length (utf8 r) \<longrightarrow> \<not> FullRune (take n (utf8 r)))
   \<and> (\<not> FullRune p \<and> ValidRune r \<longrightarrow> \<not> prefix (utf8 r) p)
   \<and> \<not> FullRune [0xE0, 0x80] \<and> DecodeRune ([0xE0, 0x80] @ rest) = (RuneError, 1)"
proof (intro conjI impI)
  have f: "FullRune q \<longleftrightarrow> \<not> snd (snd (decode_spec q))" for q
    by (simp add: FullRune_def decodeRuneInternal_spec split: prod.splits)
  show "\<not> FullRune (take n (utf8 r))" if "ValidRune r \<and> n < length (utf8 r)"
    using that decode_spec_short_prefix by (simp add: f ValidRune_iff_scalar)
  show "\<not> prefix (utf8 r) p" if "\<not> FullRune p \<and> ValidRune r"
    using that utf8_decode_spec [of r] by (auto simp: f ValidRune_iff_scalar prefix_def)
  show "\<not> FullRune [0xE0, 0x80]" by code_simp
  have "decode_spec ([0xE0, 0x80] @ rest) = (0xFFFD, 1, snd (snd (decode_spec ([0xE0, 0x80] @ rest))))"
    by (auto simp: decode_spec_def cont_def val3_def)
  then show "DecodeRune ([0xE0, 0x80] @ rest) = (RuneError, 1)"
    unfolding DecodeRune_spec by (cases "decode_spec ([0xE0, 0x80] @ rest)") (auto simp: RuneError_def)
qed

theorem full_rune_incomplete_witness:
  "ValidRune 0x20AC \<and> 2 < length (utf8 0x20AC) \<and> \<not> FullRune (take 2 (utf8 0x20AC))"
proof -
  have "ValidRune 0x20AC" by code_simp
  moreover have "2 < length (utf8 0x20AC)" by (simp add: length_utf8)
  ultimately show ?thesis using full_rune_incomplete [of "0x20AC" 2] by simp
qed

end
