(* ===== verification/Utf16.thy ===== *)
theory Utf16
  imports Utf8
begin

text \<open>
  Package \<open>unicode/utf16\<close> (\<open>utf16.go\<close>). The two functions that fill a slice are modelled with the
  slice as they allocate it and with bounds-checked writes, so that "the counting pass allocates
  enough" is something to prove. The loops carry the unread suffix of their input.
\<close>

section \<open>Definitions\<close>

definition replacementChar :: rune where "replacementChar = 0xFFFD"
definition maxRune :: rune where "maxRune = 0x10FFFF"
definition surr1 :: rune where "surr1 = 0xd800"
definition surr2 :: rune where "surr2 = 0xdc00"
definition surr3 :: rune where "surr3 = 0xe000"
definition surrSelf :: rune where "surrSelf = 0x10000"

lemmas utf16_consts = replacementChar_def maxRune_def surr1_def surr2_def surr3_def surrSelf_def

definition IsSurrogate :: "rune \<Rightarrow> bool" where
  "IsSurrogate r \<longleftrightarrow> surr1 \<le>s r \<and> r <s surr3"

definition utf16_DecodeRune :: "rune \<Rightarrow> rune \<Rightarrow> rune" where
  "utf16_DecodeRune r1 r2 =
    (if surr1 \<le>s r1 \<and> r1 <s surr2 \<and> surr2 \<le>s r2 \<and> r2 <s surr3
     then (push_bit 10 (r1 - surr1) OR (r2 - surr2)) + 0x10000
     else replacementChar)"

definition utf16_EncodeRune :: "rune \<Rightarrow> rune \<times> rune" where
  "utf16_EncodeRune r =
    (if r <s surrSelf \<or> maxRune <s r \<or> IsSurrogate r then (replacementChar, replacementChar)
     else let r = r - surrSelf in
       (surr1 + (signed_drop_bit 10 r AND 0x3ff), surr2 + (r AND 0x3ff)))"

definition Encode_size :: "rune list \<Rightarrow> nat" where
  "Encode_size s = fold (\<lambda>v n. if surrSelf \<le>s v then n + 1 else n) s (length s)"

fun Encode_loop :: "rune list \<Rightarrow> u16 list \<Rightarrow> nat \<Rightarrow> (u16 list \<times> nat) go" where
  "Encode_loop [] a n = Inr (a, n)"
| "Encode_loop (v # s) a n =
    (if v <s 0 \<or> surr1 \<le>s v \<and> v <s surr3 \<or> maxRune <s v then
       go_bind (go_set a n (ucast replacementChar)) (\<lambda>a. Encode_loop s a (n + 1))
     else if v <s surrSelf then
       go_bind (go_set a n (ucast v)) (\<lambda>a. Encode_loop s a (n + 1))
     else let (r1, r2) = utf16_EncodeRune v in
       go_bind (go_set a n (ucast r1)) (\<lambda>a.
       go_bind (go_set a (n + 1) (ucast r2)) (\<lambda>a. Encode_loop s a (n + 2))))"

definition utf16_Encode :: "rune list \<Rightarrow> u16 list go" where
  "utf16_Encode s =
    go_bind (Encode_loop s (replicate (Encode_size s) 0) 0) (\<lambda>(a, n). Inr (take n a))"

fun Decode_loop :: "u16 list \<Rightarrow> rune list \<Rightarrow> nat \<Rightarrow> (rune list \<times> nat) go" where
  "Decode_loop [] a n = Inr (a, n)"
| "Decode_loop (r # s) a n =
    (if ucast surr1 \<le> r \<and> r < ucast surr2 \<and> s \<noteq> [] \<and> ucast surr2 \<le> s ! 0 \<and> s ! 0 < ucast surr3 then
       go_bind (go_set a n (utf16_DecodeRune (ucast r) (ucast (s ! 0))))
         (\<lambda>a. Decode_loop (tl s) a (n + 1))
     else if ucast surr1 \<le> r \<and> r < ucast surr3 then
       go_bind (go_set a n replacementChar) (\<lambda>a. Decode_loop s a (n + 1))
     else
       go_bind (go_set a n (ucast r)) (\<lambda>a. Decode_loop s a (n + 1)))"

definition utf16_Decode :: "u16 list \<Rightarrow> rune list go" where
  "utf16_Decode s =
    go_bind (Decode_loop s (replicate (length s) 0) 0) (\<lambda>(a, n). Inr (take n a))"

section \<open>Surrogate pairs\<close>

lemma unat_ucast_16: "unat (ucast (w :: u32) :: u16) = unat w mod 65536"
  by (simp add: unsigned_ucast_eq take_bit_eq_mod)

lemma unat_and_3ff: "unat (y AND 0x3ff) = unat y mod 1024" for y :: u32
  using unat_and_mask [of y 10] by (simp add: mask_eq_exp_minus_1)

lemma unat_diff: "unat b \<le> unat a \<Longrightarrow> unat (a - b) = unat a - unat b" for a b :: "'a::len word"
  by (simp add: unat_sub word_le_nat_alt)

lemma utf16_EncodeRune_pair:
  assumes "0x10000 \<le> unat r" and "unat r \<le> 0x10FFFF"
  shows "unat (fst (utf16_EncodeRune r)) = 0xd800 + (unat r - 0x10000) div 1024"
    and "unat (snd (utf16_EncodeRune r)) = 0xdc00 + (unat r - 0x10000) mod 1024"
proof -
  let ?d = "r - surrSelf"
  have d: "unat ?d = unat r - 0x10000" using assms by (simp add: unat_diff surrSelf_def)
  have "unat r < 2 ^ 31" using assms by simp
  then have e: "utf16_EncodeRune r = (surr1 + (signed_drop_bit 10 ?d AND 0x3ff), surr2 + (?d AND 0x3ff))"
    using assms by (simp add: utf16_EncodeRune_def Let_def IsSurrogate_def sless_small sle_small utf16_consts)
  have q: "(unat r - 0x10000) div 1024 < 1024" using assms by auto
  have "unat (signed_drop_bit 10 ?d AND 0x3ff) = (unat r - 0x10000) div 1024"
    using q assms by (simp add: unat_and_3ff unat_signed_drop_bit d)
  then show "unat (fst (utf16_EncodeRune r)) = 0xd800 + (unat r - 0x10000) div 1024"
    unfolding e using q by (simp add: unat_word_ariths surr1_def)
  have "(unat r - 0x10000) mod 1024 < 1024" by simp
  then show "unat (snd (utf16_EncodeRune r)) = 0xdc00 + (unat r - 0x10000) mod 1024"
    unfolding e by (simp add: unat_word_ariths surr2_def unat_and_3ff d)
qed

lemma utf16_DecodeRune_pair:
  assumes "0xd800 \<le> unat r1" "unat r1 < 0xdc00" "0xdc00 \<le> unat r2" "unat r2 < 0xe000"
  shows "unat (utf16_DecodeRune r1 r2) = (unat r1 - 0xd800) * 1024 + (unat r2 - 0xdc00) + 0x10000"
proof -
  have "unat (push_bit 10 (r1 - surr1) OR (r2 - surr2)) = (unat r1 - 0xd800) * 1024 + (unat r2 - 0xdc00)"
    using assms by (subst unat_or_shift) (simp_all add: unat_diff utf16_consts)
  moreover have "utf16_DecodeRune r1 r2 = (push_bit 10 (r1 - surr1) OR (r2 - surr2)) + 0x10000"
    using assms by (simp add: utf16_DecodeRune_def sle_small sless_small utf16_consts)
  ultimately show ?thesis using assms by (simp add: unat_word_ariths)
qed

section \<open>Whole sequences\<close>

text \<open>The code units the standard assigns to a rune, U+FFFD standing for one that is not a scalar value.\<close>

definition utf16 :: "rune \<Rightarrow> u16 list" where
  "utf16 r = (let v = unat r in
     if \<not> scalar v then [0xFFFD]
     else if v < 0x10000 then [of_nat v]
     else [of_nat (0xd800 + (v - 0x10000) div 1024), of_nat (0xdc00 + (v - 0x10000) mod 1024)])"

lemma utf16_not_Nil [simp]: "utf16 r \<noteq> []"
  by (simp add: utf16_def Let_def)

lemma u16_of_unat: "unat (ucast (w :: u32) :: u16) = n \<Longrightarrow> (ucast w :: u16) = of_nat n"
  by (metis of_nat_unat ucast_id)

lemma Encode_size_Cons: "Encode_size (v # s) = (if surrSelf \<le>s v then 2 else 1) + Encode_size s"
proof -
  have "fold (\<lambda>v n. if surrSelf \<le>s v then n + 1 else n) s (k + m)
      = k + fold (\<lambda>v n. if surrSelf \<le>s v then n + 1 else n) s m" for k m :: nat
  proof (induction s arbitrary: m)
    case (Cons v s)
    then show ?case using Cons.IH [of "m + 1"] by simp
  qed simp
  from this [of 1 "length s"] this [of 2 "length s"] show ?thesis
    by (simp add: Encode_size_def)
qed

lemma utf16_size: "length (utf16 v) \<le> (if surrSelf \<le>s v then 2 else 1)"
  by (auto simp: utf16_def Let_def sle_small surrSelf_def scalar_def)

lemma Encode_branch:
  "v <s 0 \<or> surr1 \<le>s v \<and> v <s surr3 \<or> maxRune <s v \<longleftrightarrow> \<not> scalar (unat v)"
proof (cases "unat v < 2 ^ 31")
  case True
  then show ?thesis by (auto simp: sless_zero sle_small sless_small utf16_consts scalar_def)
next
  case False
  then show ?thesis by (auto simp: sless_zero scalar_def)
qed

lemma Encode_step:
  assumes "n + length (utf16 v) \<le> length a"
  shows "Encode_loop (v # s) a n = Encode_loop s (fill a n (utf16 v)) (n + length (utf16 v))"
proof (cases "scalar (unat v) \<and> 0x10000 \<le> unat v")
  case True
  then have v: "0x10000 \<le> unat v" "unat v \<le> 0x10FFFF" by (auto simp: scalar_def)
  note p = utf16_EncodeRune_pair [OF v]
  obtain r1 r2 where r: "utf16_EncodeRune v = (r1, r2)" by fastforce
  have q: "(unat v - 0x10000) div 1024 < 1024" "(unat v - 0x10000) mod 1024 < 1024" using v by auto
  have u: "utf16 v = [ucast r1, ucast r2]"
    using True p q r by (simp add: utf16_def Let_def u16_of_unat [OF unat_ucast_16])
  have b: "\<not> (v <s 0 \<or> surr1 \<le>s v \<and> v <s surr3 \<or> maxRune <s v)" "\<not> v <s surrSelf"
    using True v unfolding Encode_branch by (simp_all add: sless_small surrSelf_def)
  have n: "n + 1 < length a" using assms by (simp add: u)
  show ?thesis
    unfolding Encode_loop.simps(2) if_not_P [OF b(1)] if_not_P [OF b(2)] r Let_def prod.case
    using n fill_fill [of n "[ucast r1]" "[ucast r2]" a] by (simp add: go_set_fill u)
next
  case False
  then have "utf16 v = (if scalar (unat v) then [ucast v] else [ucast replacementChar])"
    by (auto simp: utf16_def Let_def replacementChar_def)
  moreover have "v <s surrSelf" if "scalar (unat v)"
    using that False by (simp add: scalar_small sless_small surrSelf_def)
  ultimately show ?thesis
    using assms unfolding Encode_loop.simps(2) Encode_branch by (auto simp: go_set_fill)
qed

lemma Encode_loop_fills:
  "n + Encode_size s \<le> length a \<Longrightarrow>
    Encode_loop s a n = Inr (fill a n (concat (map utf16 s)), n + length (concat (map utf16 s)))
    \<and> length (concat (map utf16 s)) \<le> Encode_size s"
proof (induction s arbitrary: a n)
  case Nil
  then show ?case by (simp add: fill_def Encode_size_def)
next
  case (Cons v s)
  have l: "n + length (utf16 v) + Encode_size s \<le> length a"
    using Cons.prems utf16_size [of v] by (simp add: Encode_size_Cons)
  then have "Encode_loop s (fill a n (utf16 v)) (n + length (utf16 v)) =
      Inr (fill (fill a n (utf16 v)) (n + length (utf16 v)) (concat (map utf16 s)),
        n + length (utf16 v) + length (concat (map utf16 s)))
      \<and> length (concat (map utf16 s)) \<le> Encode_size s"
    by (intro Cons.IH) simp
  moreover have "Encode_loop (v # s) a n = Encode_loop s (fill a n (utf16 v)) (n + length (utf16 v))"
    using l by (intro Encode_step) simp
  ultimately show ?case
    using l utf16_size [of v] fill_fill [of n "utf16 v" "concat (map utf16 s)" a]
    by (simp add: Encode_size_Cons add.assoc)
qed

lemma utf16_Encode_spec: "utf16_Encode s = Inr (concat (map utf16 s))"
  using Encode_loop_fills [of 0 s "replicate (Encode_size s) 0"] take_fill [of 0 "concat (map utf16 s)" "replicate (Encode_size s) 0"]
  by (simp add: utf16_Encode_def)

text \<open>Reading one symbol, and the decoding loop as a fold of that.\<close>

definition utf16_dec1 :: "u16 list \<Rightarrow> rune \<times> nat" where
  "utf16_dec1 p = (let r = p ! 0 in
     if 0xd800 \<le> unat r \<and> unat r < 0xdc00 \<and> 1 < length p \<and> 0xdc00 \<le> unat (p ! 1) \<and> unat (p ! 1) < 0xe000
     then (utf16_DecodeRune (ucast r) (ucast (p ! 1)), 2)
     else if 0xd800 \<le> unat r \<and> unat r < 0xe000 then (RuneError, 1)
     else (ucast r, 1))"

function utf16_all :: "u16 list \<Rightarrow> rune list" where
  "utf16_all p = (if p = [] then [] else fst (utf16_dec1 p) # utf16_all (drop (snd (utf16_dec1 p)) p))"
  by pat_completeness auto
termination by (relation "measure length") (auto simp: utf16_dec1_def Let_def)

declare utf16_all.simps [simp del]

lemma Decode_step:
  assumes "n < length a" and "p \<noteq> []"
  shows "Decode_loop p a n =
    Decode_loop (drop (snd (utf16_dec1 p)) p) (fill a n [fst (utf16_dec1 p)]) (n + 1)"
proof -
  obtain r s where p: "p = r # s" using assms(2) by (cases p) auto
  have c: "ucast surr1 \<le> x \<longleftrightarrow> 0xd800 \<le> unat x" "x < ucast surr2 \<longleftrightarrow> unat x < 0xdc00"
    "ucast surr2 \<le> x \<longleftrightarrow> 0xdc00 \<le> unat x" "x < ucast surr3 \<longleftrightarrow> unat x < 0xe000" for x :: u16
    by (simp_all add: word_le_nat_alt word_less_nat_alt utf16_consts)
  have e: "replacementChar = RuneError" by (simp add: utf16_consts RuneError_def)
  show ?thesis
    unfolding p Decode_loop.simps(2) c e
    using assms(1) by (auto simp: go_set_fill utf16_dec1_def Let_def drop_Suc)
qed

lemma Decode_loop_fills:
  "n + length p \<le> length a \<Longrightarrow>
    Decode_loop p a n = Inr (fill a n (utf16_all p), n + length (utf16_all p)) \<and> length (utf16_all p) \<le> length p"
proof (induction "length p" arbitrary: p a n rule: less_induct)
  case less
  show ?case
  proof (cases "p = []")
    case True then show ?thesis by (simp add: fill_def utf16_all.simps)
  next
    case False
    let ?k = "snd (utf16_dec1 p)" let ?r = "fst (utf16_dec1 p)"
    have k: "1 \<le> ?k" "?k \<le> length p" using False by (auto simp: utf16_dec1_def Let_def Suc_le_eq)
    then have IH: "Decode_loop (drop ?k p) (fill a n [?r]) (n + 1) =
        Inr (fill (fill a n [?r]) (n + 1) (utf16_all (drop ?k p)), n + 1 + length (utf16_all (drop ?k p)))
        \<and> length (utf16_all (drop ?k p)) \<le> length (drop ?k p)"
      using less.prems False by (intro less.hyps) auto
    have a: "utf16_all p = ?r # utf16_all (drop ?k p)" using False by (subst utf16_all.simps) simp
    have "Decode_loop p a n = Decode_loop (drop ?k p) (fill a n [?r]) (n + 1)"
      using less.prems False k by (intro Decode_step) auto
    moreover have l: "Suc (length (utf16_all (drop ?k p))) \<le> length p"
      using IH [THEN conjunct2] k by simp
    moreover have "fill (fill a n [?r]) (n + 1) (utf16_all (drop ?k p)) = fill a n (?r # utf16_all (drop ?k p))"
      using l less.prems fill_fill [of n "[?r]" "utf16_all (drop ?k p)" a] by simp
    ultimately show ?thesis using IH by (simp add: a)
  qed
qed

lemma utf16_Decode_spec: "utf16_Decode s = Inr (utf16_all s)"
  using Decode_loop_fills [of 0 s "replicate (length s) 0"] take_fill [of 0 "utf16_all s" "replicate (length s) 0"]
  by (simp add: utf16_Decode_def)

lemma unat_of_nat_16: "n < 65536 \<Longrightarrow> unat (of_nat n :: u16) = n"
  by (simp only: unsigned_of_nat) (simp add: take_bit_nat_eq_self)

lemma utf16_dec1_enc:
  assumes "scalar (unat r)"
  shows "utf16_dec1 (utf16 r @ rest) = (r, length (utf16 r))"
proof (cases "unat r < 0x10000")
  case True
  have "ucast (of_nat (unat r) :: u16) = r"
    using True by (intro word_unat_eq_iff [THEN iffD2]) (simp add: unat_ucast_16_32 unat_ucast_16)
  moreover have "unat r < 0xD800 \<or> 0xE000 \<le> unat r" using assms by (auto simp: scalar_def)
  ultimately show ?thesis
    using True assms unat_of_nat_16 [OF True[simplified]] by (auto simp: utf16_dec1_def utf16_def Let_def)
next
  case False
  let ?h = "0xd800 + (unat r - 0x10000) div 1024" and ?l = "0xdc00 + (unat r - 0x10000) mod 1024"
  have v: "unat r \<le> 0x10FFFF" using assms by (auto simp: scalar_def)
  then have q: "(unat r - 0x10000) div 1024 < 1024" "(unat r - 0x10000) mod 1024 < 1024" by auto
  have hl: "unat (of_nat ?h :: u16) = ?h" "unat (of_nat ?l :: u16) = ?l"
    using q by (intro unat_of_nat_16; simp)+
  have u: "utf16 r = [of_nat ?h, of_nat ?l]" using False assms by (simp add: utf16_def Let_def)
  have "unat (utf16_DecodeRune (ucast (of_nat ?h :: u16)) (ucast (of_nat ?l :: u16))) = unat r"
    using q hl False div_mult_mod_eq [of "unat r - 0x10000" 1024]
    by (subst utf16_DecodeRune_pair) (simp_all add: unat_ucast_16_32)
  then have "utf16_DecodeRune (ucast (of_nat ?h :: u16)) (ucast (of_nat ?l :: u16)) = r"
    by (rule word_unat_eq_iff [THEN iffD2])
  then show ?thesis using q hl by (simp add: utf16_dec1_def u Let_def del: of_nat_add)
qed

interpretation u16: prefix_code "\<lambda>r. scalar (unat r)" utf16 utf16_dec1 utf16_all
  by unfold_locales (simp_all add: utf16_dec1_enc, simp_all add: utf16_all.simps)

section \<open>Properties\<close>

text \<open>C27: \<open>Encode\<close> never runs past the slice its counting pass allocated and returns the code units of
  every rune in order, U+FFFD for each one that is not a scalar value; \<open>Decode\<close> of that returns the
  runes with the same replacement, so it is the identity on sequences of valid runes.\<close>
theorem utf16_roundtrip:
  "utf16_Encode s = Inr (concat (map utf16 s))
   \<and> utf16_Decode (concat (map utf16 s)) = Inr (map (\<lambda>r. if ValidRune r then r else RuneError) s)"
proof -
  have e: "utf16 r = utf16 (sanitize r)" for r
    by (auto simp: sanitize_def utf16_def Let_def RuneError_def scalar_def)
  have "concat (map utf16 s) = concat (map utf16 (map sanitize s))"
    using e by (simp add: o_def flip: e)
  moreover have "list_all (\<lambda>r. scalar (unat r)) (map sanitize s)" by (simp add: list_all_iff)
  ultimately have "utf16_all (concat (map utf16 s)) = map sanitize s"
    using u16.all_encodings by metis
  then show ?thesis
    by (simp add: utf16_Encode_spec utf16_Decode_spec sanitize_def ValidRune_iff_scalar)
qed

text \<open>\<open>utf16.EncodeRune\<close> and \<open>utf16.DecodeRune\<close> are inverse to each other between the runes from
  U+10000 to U+10FFFF and the pairs of a high and a low surrogate, and return U+FFFD outside.\<close>
theorem surrogate_pairs_bijective:
  "(0x10000 \<le> unat r \<and> unat r \<le> 0x10FFFF \<longrightarrow>
      (case utf16_EncodeRune r of (h, l) \<Rightarrow> utf16_DecodeRune h l = r \<and> IsSurrogate h \<and> IsSurrogate l))
   \<and> (unat h \<in> {0xd800..<0xdc00} \<and> unat l \<in> {0xdc00..<0xe000} \<longrightarrow>
      utf16_EncodeRune (utf16_DecodeRune h l) = (h, l))
   \<and> (\<not> (0x10000 \<le> unat r \<and> unat r \<le> 0x10FFFF) \<longrightarrow> utf16_EncodeRune r = (RuneError, RuneError))
   \<and> (\<not> (unat h \<in> {0xd800..<0xdc00} \<and> unat l \<in> {0xdc00..<0xe000}) \<longrightarrow> utf16_DecodeRune h l = RuneError)"
proof (intro conjI impI)
  have bounds: "v div 1024 < 1024" if "v < 0x100000" for v :: nat using that by auto
  show "case utf16_EncodeRune r of (h, l) \<Rightarrow> utf16_DecodeRune h l = r \<and> IsSurrogate h \<and> IsSurrogate l"
    if r: "0x10000 \<le> unat r \<and> unat r \<le> 0x10FFFF"
  proof -
    obtain h l where e: "utf16_EncodeRune r = (h, l)" by fastforce
    have q: "(unat r - 0x10000) div 1024 < 1024" "(unat r - 0x10000) mod 1024 < 1024" using r by auto
    have hl: "unat h = 0xd800 + (unat r - 0x10000) div 1024" "unat l = 0xdc00 + (unat r - 0x10000) mod 1024"
      using utf16_EncodeRune_pair [of r] r e by auto
    have "unat (utf16_DecodeRune h l) = unat r"
      using q r div_mult_mod_eq [of "unat r - 0x10000" 1024]
      by (subst utf16_DecodeRune_pair) (simp_all add: hl)
    moreover have "IsSurrogate h" "IsSurrogate l"
      using q by (simp_all add: IsSurrogate_def sle_small sless_small hl utf16_consts)
    ultimately show ?thesis by (simp add: e word_unat_eq_iff)
  qed
  show "utf16_EncodeRune (utf16_DecodeRune h l) = (h, l)"
    if hl: "unat h \<in> {0xd800..<0xdc00} \<and> unat l \<in> {0xdc00..<0xe000}"
  proof -
    let ?r = "utf16_DecodeRune h l"
    have r: "unat ?r = (unat h - 0xd800) * 1024 + (unat l - 0xdc00) + 0x10000"
      using hl by (intro utf16_DecodeRune_pair) auto
    have b: "0x10000 \<le> unat ?r" "unat ?r \<le> 0x10FFFF" using r hl by auto
    have lt: "unat l - 0xdc00 < 1024" using hl by auto
    have d: "((unat h - 0xd800) * 1024 + (unat l - 0xdc00)) div 1024 = unat h - 0xd800"
      "((unat h - 0xd800) * 1024 + (unat l - 0xdc00)) mod 1024 = unat l - 0xdc00"
      using lt by simp_all
    have "unat (fst (utf16_EncodeRune ?r)) = unat h" "unat (snd (utf16_EncodeRune ?r)) = unat l"
      using utf16_EncodeRune_pair [OF b] hl unfolding r add_diff_cancel_right' d by simp_all
    then show ?thesis by (simp add: word_unat_eq_iff prod_eq_iff)
  qed
  have e: "replacementChar = RuneError" by (simp add: utf16_consts RuneError_def)
  show "utf16_EncodeRune r = (RuneError, RuneError)" if "\<not> (0x10000 \<le> unat r \<and> unat r \<le> 0x10FFFF)"
  proof (cases "unat r < 2 ^ 31")
    case True
    then show ?thesis using that
      by (auto simp: utf16_EncodeRune_def e sless_small surrSelf_def maxRune_def)
  next
    case False
    then have "r <s surrSelf" using sless_zero [of r] by (auto simp: word_sless_alt surrSelf_def)
    then show ?thesis by (simp add: utf16_EncodeRune_def e)
  qed
  have neg: "x <s surr1" if "2 ^ 31 \<le> unat x" for x
    using that sless_zero [of x] by (auto simp: word_sless_alt surr1_def)
  have c: "surr1 \<le>s x \<and> x <s surr2 \<longleftrightarrow> unat x \<in> {0xd800..<0xdc00}"
    "surr2 \<le>s x \<and> x <s surr3 \<longleftrightarrow> unat x \<in> {0xdc00..<0xe000}" for x
  proof -
    have "(surr1 \<le>s x \<and> x <s surr2 \<longleftrightarrow> unat x \<in> {0xd800..<0xdc00})
      \<and> (surr2 \<le>s x \<and> x <s surr3 \<longleftrightarrow> unat x \<in> {0xdc00..<0xe000})"
    proof (cases "unat x < 2 ^ 31")
      case True
      then show ?thesis by (auto simp: sle_small sless_small utf16_consts)
    next
      case False
      then show ?thesis using neg [of x] by (auto simp: word_sless_alt word_sle_eq utf16_consts)
    qed
    then show "surr1 \<le>s x \<and> x <s surr2 \<longleftrightarrow> unat x \<in> {0xd800..<0xdc00}"
      "surr2 \<le>s x \<and> x <s surr3 \<longleftrightarrow> unat x \<in> {0xdc00..<0xe000}" by auto
  qed
  show "utf16_DecodeRune h l = RuneError"
    if "\<not> (unat h \<in> {0xd800..<0xdc00} \<and> unat l \<in> {0xdc00..<0xe000})"
    using that c [of h] c [of l] by (auto simp: utf16_DecodeRune_def e)
qed

theorem surrogate_pairs_bijective_witness:
  "utf16_EncodeRune (utf16_DecodeRune 0xd83d 0xde00) = (0xd83d, 0xde00)"
  using surrogate_pairs_bijective [of _ "0xd83d" "0xde00"] by simp

end
