(* ===== verification/Unicode.thy ===== *)
theory Unicode
  imports Utf8
begin

text \<open>
  Package \<open>unicode\<close>: classification and case mapping of runes by tables of ranges (\<open>letter.go\<close>, \<open>digit.go\<close>,
  \<open>graphic.go\<close>, \<open>casetables.go\<close>). The tables of \<open>tables.go\<close> are generated from the Unicode database. The small
  table of white space is given in full; the functions that read the others take them as an argument, a record of
  the variables of \<open>tables.go\<close> that they read. A division by a stride of zero is a panic.

  Linear and binary search over sorted ranges are shown to find the same range (locale \<open>ordered_ranges\<close>), so that
  \<open>Is\<close> decides membership in the set a table stands for, on runes that are not negative, and \<open>to\<close> applies the
  entry of the rune.
\<close>

section \<open>Ranges and tables\<close>

definition MaxASCII :: rune where "MaxASCII = 0x7F"
definition MaxLatin1 :: rune where "MaxLatin1 = 0xFF"
definition ReplacementChar :: rune where "ReplacementChar = 0xFFFD"
definition linearMax :: nat where "linearMax = 18"
definition UpperLower :: rune where "UpperLower = MaxRune + 1"
definition UpperCase :: int where "UpperCase = 0"
definition LowerCase :: int where "LowerCase = 1"
definition TitleCase :: int where "TitleCase = 2"
definition MaxCase :: int where "MaxCase = 3"

lemmas unicode_consts = MaxASCII_def MaxLatin1_def ReplacementChar_def linearMax_def UpperLower_def
  UpperCase_def LowerCase_def TitleCase_def MaxCase_def MaxRune_def

record 'w urange =
  Lo :: 'w
  Hi :: 'w
  Stride :: 'w

type_synonym Range16 = "u16 urange"
type_synonym Range32 = "u32 urange"

record RangeTable =
  R16 :: "Range16 list"
  R32 :: "Range32 list"
  LatinOffset :: nat

record CaseRange =
  cLo :: u32
  cHi :: u32
  Delta :: "rune \<times> rune \<times> rune"

record foldPair =
  fold_from :: u16
  fold_to :: u16

text \<open>The variables of \<open>tables.go\<close> that the functions below read.\<close>

record unicode_tables =
  Upper :: RangeTable
  Lower :: RangeTable
  Title_table :: RangeTable
  Letter :: RangeTable
  Digit :: RangeTable
  Mark :: RangeTable
  Number :: RangeTable
  Punct :: RangeTable
  Symbol :: RangeTable
  Zs :: RangeTable
  CaseRanges :: "CaseRange list"
  properties :: "u8 \<Rightarrow> u8"
  caseOrbit :: "foldPair list"

section \<open>Searching sorted ranges\<close>

text \<open>
  The two searches of \<open>is16\<close>, \<open>is32\<close> and \<open>to\<close>, up to the range they stop at: \<open>before\<close> is the test that the rune is
  below the range, \<open>within\<close> that it is not above it, \<open>inside\<close> that it is in it.
\<close>

fun linear_search :: "('a \<Rightarrow> bool) \<Rightarrow> ('a \<Rightarrow> bool) \<Rightarrow> 'a list \<Rightarrow> 'a option" where
  "linear_search before within [] = None"
| "linear_search before within (x # xs) =
    (if before x then None else if within x then Some x else linear_search before within xs)"

function binary_search :: "('a \<Rightarrow> bool) \<Rightarrow> ('a \<Rightarrow> bool) \<Rightarrow> 'a list \<Rightarrow> nat \<Rightarrow> nat \<Rightarrow> 'a option" where
  "binary_search inside before xs lo hi =
    (if lo < hi then
       let m = lo + (hi - lo) div 2; x = xs ! m in
       if inside x then Some x
       else if before x then binary_search inside before xs lo m
       else binary_search inside before xs (m + 1) hi
     else None)"
  by pat_completeness auto
termination by (relation "measure (\<lambda>(_, _, _, lo, hi). hi - lo)") auto

declare binary_search.simps [simp del]

text \<open>\<open>(r-range_.Lo)%range_.Stride == 0\<close>\<close>

definition on_stride :: "'w::len word \<Rightarrow> 'w word urange \<Rightarrow> bool go" where
  "on_stride r x =
    (if Stride x = 0 then Inl PanicDivide else Inr ((r - Lo x) mod Stride x = 0))"

definition found_on_stride :: "'w::len word \<Rightarrow> 'w word urange option \<Rightarrow> bool go" where
  "found_on_stride r found = (case found of None \<Rightarrow> Inr False | Some x \<Rightarrow> on_stride r x)"

definition is16 :: "Range16 list \<Rightarrow> u16 \<Rightarrow> bool go" where
  "is16 ranges r =
    (if length ranges \<le> linearMax \<or> r \<le> ucast MaxLatin1
     then found_on_stride r (linear_search (\<lambda>x. r < Lo x) (\<lambda>x. r \<le> Hi x) ranges)
     else found_on_stride r (binary_search (\<lambda>x. Lo x \<le> r \<and> r \<le> Hi x) (\<lambda>x. r < Lo x) ranges 0 (length ranges)))"

definition is32 :: "Range32 list \<Rightarrow> u32 \<Rightarrow> bool go" where
  "is32 ranges r =
    (if length ranges \<le> linearMax
     then found_on_stride r (linear_search (\<lambda>x. r < Lo x) (\<lambda>x. r \<le> Hi x) ranges)
     else found_on_stride r (binary_search (\<lambda>x. Lo x \<le> r \<and> r \<le> Hi x) (\<lambda>x. r < Lo x) ranges 0 (length ranges)))"

definition Is :: "RangeTable \<Rightarrow> rune \<Rightarrow> bool go" where
  "Is rangeTab r = (let r16 = R16 rangeTab; r32 = R32 rangeTab in
     if length r16 > 0 \<and> r \<le>s ucast (Hi (r16 ! (length r16 - 1))) then is16 r16 (ucast r)
     else if length r32 > 0 \<and> Lo (r32 ! 0) \<le>s r then is32 r32 r
     else Inr False)"

definition isExcludingLatin :: "RangeTable \<Rightarrow> rune \<Rightarrow> bool go" where
  "isExcludingLatin rangeTab r = (let r16 = R16 rangeTab; off = LatinOffset rangeTab; r32 = R32 rangeTab in
     if length r16 > off \<and> r \<le>s ucast (Hi (r16 ! (length r16 - 1))) then is16 (drop off r16) (ucast r)
     else if length r32 > 0 \<and> Lo (r32 ! 0) \<le>s r then is32 r32 r
     else Inr False)"

section \<open>Classes of runes\<close>

definition pC :: u8 where "pC = 1"
definition pP :: u8 where "pP = 2"
definition pN :: u8 where "pN = 4"
definition pS :: u8 where "pS = 8"
definition pZ :: u8 where "pZ = 16"
definition pLu :: u8 where "pLu = 32"
definition pLl :: u8 where "pLl = 64"
definition pp :: u8 where "pp = 128"
definition pg :: u8 where "pg = (pp OR pZ)"
definition pLo :: u8 where "pLo = (pLl OR pLu)"
definition pLmask :: u8 where "pLmask = pLo"

definition IsUpper :: "unicode_tables \<Rightarrow> rune \<Rightarrow> bool go" where
  "IsUpper tb r =
    (if r \<le> MaxLatin1 then Inr (properties tb (ucast r) AND pLmask = pLu) else isExcludingLatin (Upper tb) r)"

definition IsLower :: "unicode_tables \<Rightarrow> rune \<Rightarrow> bool go" where
  "IsLower tb r =
    (if r \<le> MaxLatin1 then Inr (properties tb (ucast r) AND pLmask = pLl) else isExcludingLatin (Lower tb) r)"

definition IsTitle :: "unicode_tables \<Rightarrow> rune \<Rightarrow> bool go" where
  "IsTitle tb r = (if r \<le>s MaxLatin1 then Inr False else isExcludingLatin (Title_table tb) r)"

definition IsDigit :: "unicode_tables \<Rightarrow> rune \<Rightarrow> bool go" where
  "IsDigit tb r = (if r \<le>s MaxLatin1 then Inr (0x30 \<le>s r \<and> r \<le>s 0x39) else isExcludingLatin (Digit tb) r)"

fun IsOneOf :: "RangeTable list \<Rightarrow> rune \<Rightarrow> bool go" where
  "IsOneOf [] r = Inr False"
| "IsOneOf (inside # ranges) r = go_bind (Is inside r) (\<lambda>b. if b then Inr True else IsOneOf ranges r)"

definition In :: "rune \<Rightarrow> RangeTable list \<Rightarrow> bool go" where
  "In r ranges = IsOneOf ranges r"

definition GraphicRanges :: "unicode_tables \<Rightarrow> RangeTable list" where
  "GraphicRanges tb = [Letter tb, Mark tb, Number tb, Punct tb, Symbol tb, Zs tb]"

definition PrintRanges :: "unicode_tables \<Rightarrow> RangeTable list" where
  "PrintRanges tb = [Letter tb, Mark tb, Number tb, Punct tb, Symbol tb]"

definition IsGraphic :: "unicode_tables \<Rightarrow> rune \<Rightarrow> bool go" where
  "IsGraphic tb r = (if r \<le> MaxLatin1 then Inr (properties tb (ucast r) AND pg \<noteq> 0) else In r (GraphicRanges tb))"

definition IsPrint :: "unicode_tables \<Rightarrow> rune \<Rightarrow> bool go" where
  "IsPrint tb r = (if r \<le> MaxLatin1 then Inr (properties tb (ucast r) AND pp \<noteq> 0) else In r (PrintRanges tb))"

definition IsControl :: "unicode_tables \<Rightarrow> rune \<Rightarrow> bool" where
  "IsControl tb r = (if r \<le> MaxLatin1 then properties tb (ucast r) AND pC \<noteq> 0 else False)"

definition IsLetter :: "unicode_tables \<Rightarrow> rune \<Rightarrow> bool go" where
  "IsLetter tb r =
    (if r \<le> MaxLatin1 then Inr (properties tb (ucast r) AND pLmask \<noteq> 0) else isExcludingLatin (Letter tb) r)"

definition IsMark :: "unicode_tables \<Rightarrow> rune \<Rightarrow> bool go" where
  "IsMark tb r = isExcludingLatin (Mark tb) r"

definition IsNumber :: "unicode_tables \<Rightarrow> rune \<Rightarrow> bool go" where
  "IsNumber tb r =
    (if r \<le> MaxLatin1 then Inr (properties tb (ucast r) AND pN \<noteq> 0) else isExcludingLatin (Number tb) r)"

definition IsPunct :: "unicode_tables \<Rightarrow> rune \<Rightarrow> bool go" where
  "IsPunct tb r = (if r \<le> MaxLatin1 then Inr (properties tb (ucast r) AND pP \<noteq> 0) else Is (Punct tb) r)"

definition IsSymbol :: "unicode_tables \<Rightarrow> rune \<Rightarrow> bool go" where
  "IsSymbol tb r =
    (if r \<le> MaxLatin1 then Inr (properties tb (ucast r) AND pS \<noteq> 0) else isExcludingLatin (Symbol tb) r)"

definition White_Space :: RangeTable where
  "White_Space =
    \<lparr>R16 =
       [\<lparr>Lo = 0x0009, Hi = 0x000d, Stride = 1\<rparr>,
        \<lparr>Lo = 0x0020, Hi = 0x0020, Stride = 1\<rparr>,
        \<lparr>Lo = 0x0085, Hi = 0x0085, Stride = 1\<rparr>,
        \<lparr>Lo = 0x00a0, Hi = 0x00a0, Stride = 1\<rparr>,
        \<lparr>Lo = 0x1680, Hi = 0x1680, Stride = 1\<rparr>,
        \<lparr>Lo = 0x2000, Hi = 0x200a, Stride = 1\<rparr>,
        \<lparr>Lo = 0x2028, Hi = 0x2029, Stride = 1\<rparr>,
        \<lparr>Lo = 0x202f, Hi = 0x202f, Stride = 1\<rparr>,
        \<lparr>Lo = 0x205f, Hi = 0x205f, Stride = 1\<rparr>,
        \<lparr>Lo = 0x3000, Hi = 0x3000, Stride = 1\<rparr>],
     R32 = [],
     LatinOffset = 4\<rparr>"

definition IsSpace :: "rune \<Rightarrow> bool go" where
  "IsSpace r =
    (if r \<le> MaxLatin1 then Inr (r \<in> {0x09, 0x0A, 0x0B, 0x0C, 0x0D, 0x20, 0x85, 0xA0})
     else isExcludingLatin White_Space r)"

section \<open>Case mapping\<close>

definition delta_at :: "rune \<times> rune \<times> rune \<Rightarrow> int \<Rightarrow> rune" where
  "delta_at d c = (case d of (u, l, t) \<Rightarrow> if c = UpperCase then u else if c = LowerCase then l else t)"

definition to :: "int \<Rightarrow> rune \<Rightarrow> CaseRange list \<Rightarrow> rune" where
  "to c r caseRange =
    (if c < 0 \<or> MaxCase \<le> c then ReplacementChar
     else case binary_search (\<lambda>cr. cLo cr \<le>s r \<and> r \<le>s cHi cr) (\<lambda>cr. r <s cLo cr) caseRange 0 (length caseRange) of
       None \<Rightarrow> r
     | Some cr \<Rightarrow> let delta = delta_at (Delta cr) c in
         if MaxRune <s delta then cLo cr + (((r - cLo cr) AND NOT 1) OR word_of_int (c AND 1))
         else r + delta)"

definition To :: "unicode_tables \<Rightarrow> int \<Rightarrow> rune \<Rightarrow> rune" where
  "To tb c r = to c r (CaseRanges tb)"

definition ToUpper :: "unicode_tables \<Rightarrow> rune \<Rightarrow> rune" where
  "ToUpper tb r =
    (if r \<le>s MaxASCII then if 0x61 \<le>s r \<and> r \<le>s 0x7A then r - 0x20 else r else To tb UpperCase r)"

definition ToLower :: "unicode_tables \<Rightarrow> rune \<Rightarrow> rune" where
  "ToLower tb r =
    (if r \<le>s MaxASCII then if 0x41 \<le>s r \<and> r \<le>s 0x5A then r + 0x20 else r else To tb LowerCase r)"

definition ToTitle :: "unicode_tables \<Rightarrow> rune \<Rightarrow> rune" where
  "ToTitle tb r =
    (if r \<le>s MaxASCII then if 0x61 \<le>s r \<and> r \<le>s 0x7A then r - 0x20 else r else To tb TitleCase r)"

definition special_ToUpper :: "unicode_tables \<Rightarrow> CaseRange list \<Rightarrow> rune \<Rightarrow> rune" where
  "special_ToUpper tb special r = (let r1 = to UpperCase r special in if r1 = r then ToUpper tb r else r1)"

definition special_ToTitle :: "unicode_tables \<Rightarrow> CaseRange list \<Rightarrow> rune \<Rightarrow> rune" where
  "special_ToTitle tb special r = (let r1 = to TitleCase r special in if r1 = r then ToTitle tb r else r1)"

definition special_ToLower :: "unicode_tables \<Rightarrow> CaseRange list \<Rightarrow> rune \<Rightarrow> rune" where
  "special_ToLower tb special r = (let r1 = to LowerCase r special in if r1 = r then ToLower tb r else r1)"

definition TurkishCase :: "CaseRange list" where
  "TurkishCase =
    [\<lparr>cLo = 0x0049, cHi = 0x0049, Delta = (0, 0x131 - 0x49, 0)\<rparr>,
     \<lparr>cLo = 0x0069, cHi = 0x0069, Delta = (0x130 - 0x69, 0, 0x130 - 0x69)\<rparr>,
     \<lparr>cLo = 0x0130, cHi = 0x0130, Delta = (0, 0x69 - 0x130, 0)\<rparr>,
     \<lparr>cLo = 0x0131, cHi = 0x0131, Delta = (0x49 - 0x131, 0, 0x49 - 0x131)\<rparr>]"

function orbit_search :: "foldPair list \<Rightarrow> rune \<Rightarrow> nat \<Rightarrow> nat \<Rightarrow> nat" where
  "orbit_search orbit r lo hi =
    (if lo < hi then
       let m = lo + (hi - lo) div 2 in
       if ucast (fold_from (orbit ! m)) <s r then orbit_search orbit r (m + 1) hi else orbit_search orbit r lo m
     else lo)"
  by pat_completeness auto
termination by (relation "measure (\<lambda>(_, _, lo, hi). hi - lo)") auto

declare orbit_search.simps [simp del]

definition SimpleFold :: "unicode_tables \<Rightarrow> rune \<Rightarrow> rune" where
  "SimpleFold tb r = (let lo = orbit_search (caseOrbit tb) r 0 (length (caseOrbit tb)) in
     if lo < length (caseOrbit tb) \<and> ucast (fold_from (caseOrbit tb ! lo)) = r then ucast (fold_to (caseOrbit tb ! lo))
     else let l = ToLower tb r in if l \<noteq> r then l else ToUpper tb r)"

section \<open>Sorted ranges\<close>

text \<open>
  What the two searches rely on: the tests are those of a point against a sequence of disjoint intervals in
  ascending order. Then both return the first element that contains the point, and it is the only one.
\<close>

locale ordered_ranges =
  fixes inside before within :: "'a \<Rightarrow> bool" and xs :: "'a list"
  assumes inside_iff: "x \<in> set xs \<Longrightarrow> inside x \<longleftrightarrow> \<not> before x \<and> within x"
    and ascending: "i < j \<Longrightarrow> j < length xs \<Longrightarrow> before (xs ! i) \<Longrightarrow> before (xs ! j)"
    and disjoint: "i < j \<Longrightarrow> j < length xs \<Longrightarrow> \<not> before (xs ! j) \<Longrightarrow> \<not> within (xs ! i)"
begin

lemma inside_nth: "i < length xs \<Longrightarrow> inside (xs ! i) \<longleftrightarrow> \<not> before (xs ! i) \<and> within (xs ! i)"
  by (simp add: inside_iff)

lemma unique_index: "i < length xs \<Longrightarrow> j < length xs \<Longrightarrow> inside (xs ! i) \<Longrightarrow> inside (xs ! j) \<Longrightarrow> i = j"
  using disjoint [of i j] disjoint [of j i] by (metis inside_nth linorder_neqE_nat)

lemma find_index: "i < length xs \<Longrightarrow> inside (xs ! i) \<Longrightarrow> find inside xs = Some (xs ! i)"
  unfolding find_Some_iff using unique_index by (metis nat_neq_iff order.strict_trans)

lemma find_none: "(\<And>i. i < length xs \<Longrightarrow> \<not> inside (xs ! i)) \<Longrightarrow> find inside xs = None"
  by (auto simp: find_None_iff in_set_conv_nth)

lemma binary_search_section:
  assumes "hi \<le> length xs" and "\<And>i. i < length xs \<Longrightarrow> inside (xs ! i) \<Longrightarrow> lo \<le> i \<and> i < hi"
  shows "binary_search inside before xs lo hi = find inside xs"
  using assms
proof (induction "hi - lo" arbitrary: lo hi rule: less_induct)
  case less
  show ?case
  proof (cases "lo < hi")
    case True
    define m where "m = lo + (hi - lo) div 2"
    have m: "lo \<le> m" "m < hi" "m < length xs" using True less(2) by (auto simp: m_def)
    consider "inside (xs ! m)" | "\<not> inside (xs ! m)" "before (xs ! m)" | "\<not> inside (xs ! m)" "\<not> before (xs ! m)" by blast
    then show ?thesis
    proof cases
      case a: 1
      then show ?thesis using True m find_index
        by (subst binary_search.simps) (simp add: m_def [symmetric] Let_def)
    next
      case a: 2
      have "i < m" if "i < length xs" "inside (xs ! i)" for i
        using that a ascending [of m i] inside_nth by (metis linorder_neqE_nat)
      then have "binary_search inside before xs lo m = find inside xs"
        using less(1) [of m lo] less(2,3) m by simp
      then show ?thesis using True a
        by (subst binary_search.simps) (simp add: m_def [symmetric] Let_def)
    next
      case a: 3
      have "m < i" if "i < length xs" "inside (xs ! i)" for i
        using that a disjoint [of i m] inside_nth m by (metis linorder_neqE_nat)
      then have "binary_search inside before xs (m + 1) hi = find inside xs"
        using less(1) [of hi "m + 1"] less(2,3) m by (simp add: Suc_le_eq)
      then show ?thesis using True a
        by (subst binary_search.simps) (simp add: m_def [symmetric] Let_def)
    qed
  next
    case False
    then have "find inside xs = None" using less(3) by (intro find_none) force
    then show ?thesis using False by (subst binary_search.simps) simp
  qed
qed

lemma binary_search_finds: "binary_search inside before xs 0 (length xs) = find inside xs"
  by (rule binary_search_section) auto

lemma linear_search_section: "k \<le> length xs \<Longrightarrow> linear_search before within (drop k xs) = find inside (drop k xs)"
proof (induction "length xs - k" arbitrary: k)
  case (Suc n)
  then have k: "k < length xs" by simp
  have rest: "find inside (drop (Suc k) xs) = None" if "before (xs ! k)"
  proof -
    have "before (xs ! i)" if "Suc k \<le> i" "i < length xs" for i
      using ascending [of k i] that \<open>before (xs ! k)\<close> by simp
    then show ?thesis
      by (auto simp: find_None_iff in_set_conv_nth inside_nth)
  qed
  have "linear_search before within (drop (Suc k) xs) = find inside (drop (Suc k) xs)"
    using Suc by simp
  then show ?case using k rest inside_nth [OF k] by (simp add: Cons_nth_drop_Suc [symmetric])
qed simp

lemma linear_search_finds: "linear_search before within xs = find inside xs"
  using linear_search_section [of 0] by simp

end

section \<open>The set a table stands for\<close>

definition covers :: "'w::len word urange \<Rightarrow> nat \<Rightarrow> bool" where
  "covers x n \<longleftrightarrow> unat (Lo x) \<le> n \<and> n \<le> unat (Hi x) \<and> (n - unat (Lo x)) mod unat (Stride x) = 0"

definition table_has :: "RangeTable \<Rightarrow> rune \<Rightarrow> bool" where
  "table_has tab r \<longleftrightarrow>
     list_ex (\<lambda>x. covers x (unat r)) (R16 tab) \<or> list_ex (\<lambda>x. covers x (unat r)) (R32 tab)"

text \<open>The conditions that the comments at \<open>RangeTable\<close>, \<open>Range16\<close> and \<open>Range32\<close> put on a table.\<close>

definition ranges_ok :: "'w::len word urange list \<Rightarrow> bool" where
  "ranges_ok xs \<longleftrightarrow> list_all (\<lambda>x. Lo x \<le> Hi x \<and> Stride x \<noteq> 0) xs \<and> sorted_wrt (\<lambda>x y. Hi x < Lo y) xs"

definition table_ok :: "RangeTable \<Rightarrow> bool" where
  "table_ok tab \<longleftrightarrow> ranges_ok (R16 tab) \<and> ranges_ok (R32 tab)
     \<and> list_all (\<lambda>x. 0x10000 \<le> Lo x \<and> Hi x \<le> MaxRune) (R32 tab)
     \<and> list_all (\<lambda>x. Hi x \<le> ucast MaxLatin1) (take (LatinOffset tab) (R16 tab))
     \<and> list_all (\<lambda>x. ucast MaxLatin1 < Hi x) (drop (LatinOffset tab) (R16 tab))"

lemma ranges_ok_nth:
  assumes "ranges_ok xs" "i < length xs"
  shows "Lo (xs ! i) \<le> Hi (xs ! i)" "Stride (xs ! i) \<noteq> 0"
  using assms by (auto simp: ranges_ok_def list_all_length)

lemma ranges_ok_less: "ranges_ok xs \<Longrightarrow> i < j \<Longrightarrow> j < length xs \<Longrightarrow> Hi (xs ! i) < Lo (xs ! j)"
  by (auto simp: ranges_ok_def sorted_wrt_iff_nth_less)

lemma ranges_ok_drop: "ranges_ok xs \<Longrightarrow> ranges_ok (drop k xs)"
  by (auto simp: ranges_ok_def sorted_wrt_drop list_all_iff dest: in_set_dropD)

lemma ranges_ok_ascending:
  assumes "ranges_ok xs" "i < j" "j < length xs"
  shows "Lo (xs ! i) < Lo (xs ! j)"
  using ranges_ok_nth(1) [OF assms(1), of i] ranges_ok_less [OF assms] assms by (simp add: le_less_trans)

lemma ranges_ordered:
  "ranges_ok xs \<Longrightarrow> ordered_ranges (\<lambda>x. Lo x \<le> r \<and> r \<le> Hi x) (\<lambda>x. r < Lo x) (\<lambda>x. r \<le> Hi x) xs"
  by unfold_locales (auto dest: ranges_ok_less intro: less_trans ranges_ok_ascending)

lemma on_stride_covers:
  "Stride x \<noteq> 0 \<Longrightarrow> Lo x \<le> r \<Longrightarrow> r \<le> Hi x \<Longrightarrow> on_stride r x = Inr (covers x (unat r))"
  by (simp add: on_stride_def covers_def word_le_nat_alt unat_sub unat_mod_distrib flip: unat_eq_0)

lemma found_covers:
  assumes "ranges_ok xs"
  shows "found_on_stride r (find (\<lambda>x. Lo x \<le> r \<and> r \<le> Hi x) xs) = Inr (list_ex (\<lambda>x. covers x (unat r)) xs)"
  using assms
proof (induction xs)
  case (Cons x xs)
  then have ok: "ranges_ok xs" "Stride x \<noteq> 0" and later: "\<And>y. y \<in> set xs \<Longrightarrow> Hi x < Lo y"
    by (auto simp: ranges_ok_def)
  show ?case
  proof (cases "Lo x \<le> r \<and> r \<le> Hi x")
    case True
    have "\<not> covers y (unat r)" if "y \<in> set xs" for y
      using later [OF that] True by (auto simp: covers_def word_le_nat_alt word_less_nat_alt)
    then show ?thesis using True ok
      by (auto simp: found_on_stride_def on_stride_covers list_ex_iff)
  next
    case False
    then have "\<not> covers x (unat r)" by (auto simp: covers_def word_le_nat_alt)
    then show ?thesis using False Cons.IH [OF ok(1)] by auto
  qed
qed (simp add: found_on_stride_def)

lemma is16_covers: "ranges_ok xs \<Longrightarrow> is16 xs r = Inr (list_ex (\<lambda>x. covers x (unat r)) xs)"
  unfolding is16_def
  by (simp add: ordered_ranges.linear_search_finds [OF ranges_ordered]
      ordered_ranges.binary_search_finds [OF ranges_ordered] found_covers)

lemma is32_covers: "ranges_ok xs \<Longrightarrow> is32 xs r = Inr (list_ex (\<lambda>x. covers x (unat r)) xs)"
  unfolding is32_def
  by (simp add: ordered_ranges.linear_search_finds [OF ranges_ordered]
      ordered_ranges.binary_search_finds [OF ranges_ordered] found_covers)

lemma unat_ucast_32_16: "unat (x :: u32) < 2 ^ 16 \<Longrightarrow> unat (ucast x :: u16) = unat x"
  by (simp add: unsigned_ucast_eq take_bit_nat_eq_self)

text \<open>The selection of the half of the table: no range of the other half can contain the rune.\<close>

lemma above_R16:
  assumes "ranges_ok xs" and "xs \<noteq> [] \<Longrightarrow> unat (Hi (xs ! (length xs - 1))) < n"
  shows "\<not> list_ex (\<lambda>x. covers x n) xs"
proof -
  have "unat (Hi (xs ! i)) \<le> unat (Hi (xs ! (length xs - 1)))" if "i < length xs" for i
  proof (cases "i = length xs - 1")
    case False
    then have "Hi (xs ! i) < Lo (xs ! (length xs - 1))" using ranges_ok_less [OF assms(1)] that by simp
    also have "\<dots> \<le> Hi (xs ! (length xs - 1))" using that by (intro ranges_ok_nth(1) [OF assms(1)]) linarith
    finally show ?thesis by (simp add: word_less_nat_alt)
  qed simp
  then show ?thesis using assms(2) by (fastforce simp: list_ex_length covers_def)
qed

lemma below_R32:
  assumes "ranges_ok xs" and "xs \<noteq> [] \<Longrightarrow> n < unat (Lo (xs ! 0))"
  shows "\<not> list_ex (\<lambda>x. covers x n) xs"
proof -
  have "unat (Lo (xs ! 0)) \<le> unat (Lo (xs ! i))" if "i < length xs" for i
    using ranges_ok_ascending [OF assms(1), of 0 i] that by (cases "i = 0") (auto simp: word_less_nat_alt)
  then show ?thesis using assms(2) by (fastforce simp: list_ex_length covers_def)
qed

lemma select_half:
  assumes "ranges_ok r16" and "ranges_ok r32"
    and "list_all (\<lambda>x. 0x10000 \<le> Lo x \<and> Hi x \<le> MaxRune) r32" and "unat r < 2 ^ 31"
    and "\<not> list_ex (\<lambda>x. covers x (unat r)) latin"
  shows "(if length r16 > 0 \<and> r \<le>s ucast (Hi (last r16)) then is16 r16 (ucast r)
      else if length r32 > 0 \<and> Lo (r32 ! 0) \<le>s r then is32 r32 r else Inr False) =
    Inr (list_ex (\<lambda>x. covers x (unat r)) (latin @ r16) \<or> list_ex (\<lambda>x. covers x (unat r)) r32)"
proof -
  have lo: "0x10000 \<le> unat (Lo (r32 ! 0)) \<and> unat (Lo (r32 ! 0)) < 2 ^ 31" if "r32 \<noteq> []"
    using assms(3) that ranges_ok_nth(1) [OF assms(2), of 0]
    by (cases r32) (auto simp: word_le_nat_alt MaxRune_def)
  have hi: "unat (ucast (Hi (last r16)) :: rune) < 2 ^ 16" for r16 :: "Range16 list"
    using unat_lt2p [of "Hi (last r16)"] by (simp add: unat_ucast_16_32)
  consider "r16 \<noteq> []" "unat r \<le> unat (Hi (last r16))"
    | "r16 \<noteq> [] \<Longrightarrow> unat (Hi (last r16)) < unat r" "r32 \<noteq> []" "unat (Lo (r32 ! 0)) \<le> unat r"
    | "r16 \<noteq> [] \<Longrightarrow> unat (Hi (last r16)) < unat r" "r32 \<noteq> [] \<Longrightarrow> unat r < unat (Lo (r32 ! 0))"
    by force
  then show ?thesis
  proof cases
    case 1
    moreover have "unat r < 2 ^ 16" using 1(2) unat_lt2p [of "Hi (last r16)"] by simp
    moreover have "\<not> list_ex (\<lambda>x. covers x (unat r)) r32"
      using below_R32 [OF assms(2), of "unat r"] lo \<open>unat r < 2 ^ 16\<close> by force
    ultimately show ?thesis using assms(1,4,5) hi [of r16]
      by (auto simp: is16_covers sle_small unat_ucast_16_32 unat_ucast_32_16 simp del: last_conv_nth)
  next
    case 2
    moreover have "\<not> list_ex (\<lambda>x. covers x (unat r)) r16"
      using above_R16 [OF assms(1), of "unat r"] 2(1) by (metis last_conv_nth)
    ultimately show ?thesis using assms(2,4,5) hi [of r16] lo
      by (auto simp: is32_covers sle_small unat_ucast_16_32)
  next
    case 3
    moreover have "\<not> list_ex (\<lambda>x. covers x (unat r)) r16"
      using above_R16 [OF assms(1), of "unat r"] 3(1) by (metis last_conv_nth)
    moreover have "\<not> list_ex (\<lambda>x. covers x (unat r)) r32"
      using below_R32 [OF assms(2), of "unat r"] 3(2) by blast
    ultimately show ?thesis using assms(4,5) hi [of r16] lo
      by (auto simp: sle_small unat_ucast_16_32)
  qed
qed

lemma Is_table_has:
  assumes "table_ok tab" and "unat r < 2 ^ 31"
  shows "Is tab r = Inr (table_has tab r)"
  using select_half [of "R16 tab" "R32 tab" r "[]"] assms
  by (simp add: Is_def table_has_def table_ok_def Let_def last_conv_nth cong: conj_cong)

lemma isExcludingLatin_table_has:
  assumes "table_ok tab" and "unat r < 2 ^ 31" and "0xFF < unat r"
  shows "isExcludingLatin tab r = Inr (table_has tab r)"
proof -
  let ?off = "LatinOffset tab" and ?r16 = "R16 tab"
  have "\<not> list_ex (\<lambda>x. covers x (unat r)) (take ?off ?r16)"
    using assms(1,3) by (fastforce simp: table_ok_def list_ex_iff list_all_iff covers_def word_le_nat_alt MaxLatin1_def)
  moreover have "last (drop ?off ?r16) = ?r16 ! (length ?r16 - 1)" if "?off < length ?r16"
    using that by (simp add: last_conv_nth)
  ultimately show ?thesis
    using select_half [of "drop ?off ?r16" "R32 tab" r "take ?off ?r16"] assms ranges_ok_drop [of ?r16 ?off]
    by (simp add: isExcludingLatin_def table_has_def table_ok_def Let_def cong: conj_cong)
qed

section \<open>Case ranges\<close>

definition cases_ok :: "CaseRange list \<Rightarrow> bool" where
  "cases_ok crs \<longleftrightarrow>
     list_all (\<lambda>cr. cLo cr \<le> cHi cr \<and> cHi cr \<le> MaxRune) crs \<and> sorted_wrt (\<lambda>x y. cHi x < cLo y) crs"

definition in_case_range :: "rune \<Rightarrow> CaseRange \<Rightarrow> bool" where
  "in_case_range r cr \<longleftrightarrow> cLo cr \<le>s r \<and> r \<le>s cHi cr"

lemma cases_ok_sint:
  assumes "cases_ok crs" and "x \<in> set crs"
  shows "sint (cLo x) = uint (cLo x)" "sint (cHi x) = uint (cHi x)" "sint (cLo x) \<le> sint (cHi x)"
proof -
  have "unat (cLo x) \<le> unat (cHi x)" "unat (cHi x) < 2 ^ 31"
    using assms by (auto simp: cases_ok_def list_all_iff word_le_nat_alt MaxRune_def)
  then show "sint (cLo x) = uint (cLo x)" "sint (cHi x) = uint (cHi x)" "sint (cLo x) \<le> sint (cHi x)"
    using sint_small [of "cLo x"] sint_small [of "cHi x"] by (simp_all add: word_le_nat_alt flip: word_le_def)
qed

lemma cases_ok_less: "cases_ok crs \<Longrightarrow> i < j \<Longrightarrow> j < length crs \<Longrightarrow> sint (cHi (crs ! i)) < sint (cLo (crs ! j))"
  by (simp add: cases_ok_sint) (auto simp: cases_ok_def sorted_wrt_iff_nth_less simp flip: word_less_def)

lemma cases_ordered:
  assumes "cases_ok crs"
  shows "ordered_ranges (\<lambda>cr. cLo cr \<le>s r \<and> r \<le>s cHi cr) (\<lambda>cr. r <s cLo cr) (\<lambda>cr. r \<le>s cHi cr) crs"
proof (unfold_locales, goal_cases)
  case (1 x) then show ?case by (auto simp: word_sle_eq word_sless_alt)
next
  case (2 i j)
  then have "sint (cLo (crs ! i)) \<le> sint (cHi (crs ! i))" using cases_ok_sint [OF assms, of "crs ! i"] by simp
  then show ?case using 2 cases_ok_less [OF assms 2(1,2)] by (simp add: word_sless_alt)
next
  case (3 i j)
  then show ?case using cases_ok_less [OF assms 3(1,2)] by (simp add: word_sle_eq word_sless_alt)
qed

lemma to_finds:
  assumes "cases_ok crs" and "cr \<in> set crs" and "in_case_range r cr"
  shows "binary_search (\<lambda>cr. cLo cr \<le>s r \<and> r \<le>s cHi cr) (\<lambda>cr. r <s cLo cr) crs 0 (length crs) = Some cr"
proof -
  obtain i where "i < length crs" "crs ! i = cr" using assms(2) by (auto simp: in_set_conv_nth)
  then show ?thesis using assms(3) ordered_ranges.find_index [OF cases_ordered [OF assms(1)], of i r]
    by (simp add: ordered_ranges.binary_search_finds [OF cases_ordered [OF assms(1)]] in_case_range_def)
qed

lemma to_unlisted:
  assumes "cases_ok crs" and "\<And>cr. cr \<in> set crs \<Longrightarrow> \<not> in_case_range r cr" and "0 \<le> c" "c < MaxCase"
  shows "to c r crs = r"
proof -
  have "find (\<lambda>cr. cLo cr \<le>s r \<and> r \<le>s cHi cr) crs = None"
    using assms(2) by (auto simp: find_None_iff in_case_range_def)
  then show ?thesis using assms(3,4)
    by (simp add: to_def ordered_ranges.binary_search_finds [OF cases_ordered [OF assms(1)]])
qed

lemma and_not_mask: "w AND NOT (mask n) = push_bit n (drop_bit n w)" for w :: "'a::len word"
  by (rule bit_word_eqI) (auto simp: bit_simps)

lemma and_not_one: "w AND NOT 1 = 2 * (w div 2)" for w :: "'a::len word"
  using and_not_mask [of w 1] by (simp add: push_bit_eq_mult drop_bit_eq_div mult.commute)

lemma to_pair:
  assumes "cases_ok crs" and "cr \<in> set crs" and "in_case_range r cr"
    and "Delta cr = (UpperLower, UpperLower, UpperLower)"
    and "r = cLo cr + 2 * k \<or> r = cLo cr + 2 * k + 1" and "unat k < 2 ^ 31"
  shows "to UpperCase r crs = cLo cr + 2 * k" "to TitleCase r crs = cLo cr + 2 * k"
    "to LowerCase r crs = cLo cr + 2 * k + 1"
proof -
  have u: "unat (2 * k) = 2 * unat k" using assms(6) unat_double [of k] by (simp add: mult.commute)
  then have "unat (2 * k + 1) = 2 * unat k + 1" using assms(6) by (simp add: unat_word_ariths)
  then have d: "(2 * k) div 2 = k" "(2 * k + 1) div 2 = k" using u by (simp_all add: word_unat_eq_iff unat_div)
  have "(r - cLo cr) AND NOT 1 = 2 * k" unfolding and_not_one using assms(5) d by auto
  moreover have "2 * k OR 1 = 2 * k + 1" by (simp add: or_one_eq)
  ultimately show "to UpperCase r crs = cLo cr + 2 * k" "to TitleCase r crs = cLo cr + 2 * k"
    "to LowerCase r crs = cLo cr + 2 * k + 1"
    by (simp_all add: to_def to_finds [OF assms(1-3)] assms(4) delta_at_def unicode_consts Let_def)
qed

lemma White_Space_ok: "table_ok White_Space"
  by code_simp

lemma TurkishCase_ok: "cases_ok TurkishCase"
  by code_simp

interpretation space: ordered_ranges
  "\<lambda>x. Lo x \<le> r \<and> r \<le> Hi x" "\<lambda>x. r < Lo x" "\<lambda>x. r \<le> Hi x" "R16 White_Space" for r
  using White_Space_ok by (intro ranges_ordered) (simp add: table_ok_def)

interpretation turkish: ordered_ranges
  "\<lambda>cr. cLo cr \<le>s r \<and> r \<le>s cHi cr" "\<lambda>cr. r <s cLo cr" "\<lambda>cr. r \<le>s cHi cr" TurkishCase for r
  by (intro cases_ordered TurkishCase_ok)

section \<open>Theorems\<close>

text \<open>C35: For every table that meets the conditions of its documentation (sorted disjoint ranges, 32-bit ranges
  above \<open>0xFFFF\<close>, the right number of Latin-1 ranges) and every rune that is not negative, \<open>Is\<close>, by linear or
  binary search, reports membership in the set that the ranges and strides of the table describe, without a
  panic; above Latin-1 so does \<open>isExcludingLatin\<close>, which skips the first ranges.\<close>
theorem Is_decides:
  assumes "table_ok tab" and "0 \<le>s r"
  shows "Is tab r = Inr (table_has tab r) \<and> (MaxLatin1 <s r \<longrightarrow> isExcludingLatin tab r = Inr (table_has tab r))"
proof -
  have r: "unat r < 2 ^ 31" using assms(2) sless_zero [of r] by (simp add: word_sless_alt word_sle_eq)
  then have "MaxLatin1 <s r \<longleftrightarrow> 0xFF < unat r" by (simp add: sless_small MaxLatin1_def)
  then show ?thesis using Is_table_has [OF assms(1) r] isExcludingLatin_table_has [OF assms(1) r] by simp
qed

theorem Is_decides_witness:
  "table_ok White_Space \<and> Is White_Space 0x2003 = Inr True \<and> isExcludingLatin White_Space 0x2003 = Inr True
   \<and> Is White_Space 0x200B = Inr False"
  using Is_decides [of White_Space "0x2003"] Is_decides [of White_Space "0x200B"] White_Space_ok
  by (simp add: table_has_def White_Space_def covers_def word_sle_eq word_sless_alt MaxLatin1_def)

text \<open>A negative rune passes the comparison with the last 16-bit range and is then cut to 16 bits, so \<open>Is\<close>
  answers for another character: \<open>IsSpace(0x1680 - 0x10000)\<close> is true, and so is \<open>IsDigit\<close>, \<open>IsLetter\<close> and the like
  wherever the low half is in their table.\<close>
theorem Is_negative_rune:
  assumes "table_ok tab" and "R16 tab \<noteq> []" and "r <s 0"
  shows "Is tab r = Inr (list_ex (\<lambda>x. covers x (unat r mod 2 ^ 16)) (R16 tab))"
proof -
  have "sint r < 0" using assms(3) by (simp add: word_sless_alt)
  moreover have "0 \<le> sint (ucast (Hi (R16 tab ! (length (R16 tab) - 1))) :: rune)"
    using unat_lt2p [of "Hi (R16 tab ! (length (R16 tab) - 1))"] by (simp add: sint_small unat_ucast_16_32)
  ultimately have "r \<le>s ucast (Hi (R16 tab ! (length (R16 tab) - 1)))" by (simp add: word_sle_eq)
  moreover have "unat (ucast r :: u16) = unat r mod 2 ^ 16" by (simp add: unsigned_ucast_eq take_bit_eq_mod)
  ultimately show ?thesis using assms(1,2) by (simp add: Is_def Let_def is16_covers table_ok_def)
qed

theorem Is_negative_rune_witness:
  "(0xFFFF1680 :: rune) <s 0 \<and> Is White_Space 0xFFFF1680 = Inr True \<and> IsSpace 0xFFFF1680 = Inr True"
proof -
  have "Is White_Space 0xFFFF1680 = Inr True"
    using Is_negative_rune [of White_Space "0xFFFF1680"] White_Space_ok
    by (simp add: White_Space_def covers_def word_sless_alt)
  moreover have "IsSpace 0xFFFF1680 = Inr True" by code_simp
  ultimately show ?thesis by (simp add: word_sless_alt)
qed

text \<open>In a range of alternating upper and lower case letters (the delta \<open>UpperLower\<close>) with an even number of
  letters, the letters come in pairs \<open>u\<close>, \<open>u + 1\<close> with \<open>u\<close> at an even offset: \<open>to\<close> maps both letters of a pair to
  \<open>u\<close> for upper and title case and to \<open>u + 1\<close> for lower case.\<close>
theorem to_upper_lower_pairs:
  assumes "cases_ok crs" and "cr \<in> set crs" and "Delta cr = (UpperLower, UpperLower, UpperLower)"
    and "odd (unat (cHi cr) - unat (cLo cr))" and "cLo cr \<le> r" and "r \<le> cHi cr"
  shows "\<exists>u. even (unat u - unat (cLo cr)) \<and> r \<in> {u, u + 1} \<and>
    (\<forall>q \<in> {u, u + 1}. to UpperCase q crs = u \<and> to TitleCase q crs = u \<and> to LowerCase q crs = u + 1)"
proof -
  define d where "d = unat r - unat (cLo cr)"
  define k :: rune where "k = of_nat (d div 2)"
  let ?u = "cLo cr + 2 * k"
  have b: "unat (cLo cr) \<le> unat r" "unat r \<le> unat (cHi cr)" using assms(5,6) by (simp_all add: word_le_nat_alt)
  have hi: "unat (cHi cr) < 2 ^ 31" using assms(1,2) by (auto simp: cases_ok_def list_all_iff word_le_nat_alt MaxRune_def)
  have k: "unat k = d div 2" using hi b by (simp add: k_def d_def unat_of_nat_small)
  have u: "unat ?u = unat (cLo cr) + 2 * (d div 2)"
    using k hi b by (simp add: d_def unat_word_ariths)
  have "2 * (d div 2) + 1 \<le> unat (cHi cr) - unat (cLo cr)" using assms(4) b unfolding d_def by presburger
  then have v: "unat (?u + 1) = unat ?u + 1" "unat (?u + 1) \<le> unat (cHi cr)"
    using u hi by (simp_all add: unat_word_ariths)
  have r: "r = ?u \<or> r = ?u + 1" using u v(1) b unfolding word_unat_eq_iff d_def by presburger
  have q: "in_case_range q cr" if "q = ?u \<or> q = ?u + 1" for q
    using that u v hi by (auto simp: in_case_range_def sle_small)
  have "unat k < 2 ^ 31" using k hi b by (simp add: d_def)
  then have "\<forall>q \<in> {?u, ?u + 1}. to UpperCase q crs = ?u \<and> to TitleCase q crs = ?u \<and> to LowerCase q crs = ?u + 1"
    using to_pair [OF assms(1,2) q assms(3), of _ k] by blast
  moreover have "even (unat ?u - unat (cLo cr))" using u by simp
  ultimately show ?thesis using r by blast
qed

theorem to_upper_lower_pairs_witness:
  "\<exists>u. 0x012E \<in> {u, u + 1} \<and>
    to UpperCase 0x012E [\<lparr>cLo = 0x0100, cHi = 0x012F, Delta = (UpperLower, UpperLower, UpperLower)\<rparr>] = u"
proof -
  let ?cr = "\<lparr>cLo = 0x0100, cHi = 0x012F, Delta = (UpperLower, UpperLower, UpperLower)\<rparr>"
  have "cases_ok [?cr]" by code_simp
  then show ?thesis using to_upper_lower_pairs [of "[?cr]" ?cr "0x012E"] by auto
qed

end
