(* ===== verification/GoString.thy ===== *)
theory GoString
  imports Utf8
begin

text \<open>
  The run-time's string operations (\<open>runtime/string.go\<close>): concatenation, the conversions between
  strings, byte slices, rune slices and integers, and substring search. Freshly allocated storage is
  not zeroed, so its contents are a parameter \<open>mem\<close> (the byte or rune found at each offset) and the
  results are shown not to depend on it. \<open>int\<close> is 32 bits wide, as on the mips32 ports.
\<close>

section \<open>Definitions\<close>

definition rawstring :: "(nat \<Rightarrow> u8) \<Rightarrow> nat \<Rightarrow> u8 list" where
  "rawstring mem n = map mem [0..<n]"

definition rawruneslice :: "(nat \<Rightarrow> rune) \<Rightarrow> nat \<Rightarrow> rune list" where
  "rawruneslice mem n = map mem [0..<n]"

text \<open>\<open>copy(b[l:], x)\<close>\<close>

definition copy_at :: "u8 list \<Rightarrow> nat \<Rightarrow> u8 list \<Rightarrow> u8 list go" where
  "copy_at b l x =
    (if l \<le> length b then Inr (take l b @ take (length b - l) x @ drop (l + length x) b) else Inl PanicSlice)"

fun concat_scan :: "u8 list list \<Rightarrow> nat \<Rightarrow> u32 \<Rightarrow> nat \<Rightarrow> nat \<Rightarrow> (u32 \<times> nat \<times> nat) go" where
  "concat_scan [] i l cnt idx = Inr (l, cnt, idx)"
| "concat_scan (x # a) i l cnt idx = (let n = of_nat (length x) :: u32 in
     if n = 0 then concat_scan a (i + 1) l cnt idx
     else if l + n <s l then Inl (PanicMsg ''string concatenation too long'')
     else concat_scan a (i + 1) (l + n) (cnt + 1) i)"

fun concat_copy :: "u8 list list \<Rightarrow> u8 list \<Rightarrow> nat \<Rightarrow> u8 list go" where
  "concat_copy [] b l = Inr b"
| "concat_copy (x # a) b l = go_bind (copy_at b l x) (\<lambda>b. concat_copy a b (l + length x))"

definition concatstrings :: "(nat \<Rightarrow> u8) \<Rightarrow> u8 list list \<Rightarrow> u8 list go" where
  "concatstrings mem a =
    go_bind (concat_scan a 0 0 0 0) (\<lambda>(l, cnt, idx).
      if cnt = 0 then Inr []
      else if cnt = 1 then go_get a idx
      else concat_copy a (rawstring mem (unat l)) 0)"

definition slicebytetostring :: "(nat \<Rightarrow> u8) \<Rightarrow> u8 list \<Rightarrow> u8 list go" where
  "slicebytetostring mem b = copy_at (rawstring mem (length b)) 0 b"

definition stringtoslicebyte :: "(nat \<Rightarrow> u8) \<Rightarrow> u8 list \<Rightarrow> u8 list go" where
  "stringtoslicebyte mem s = copy_at (rawstring mem (length s)) 0 s"

function runes_count :: "u8 list \<Rightarrow> nat" where
  "runes_count s = (if length s > 0 then 1 + runes_count (drop (snd (charntorune s)) s) else 0)"
  by pat_completeness auto
termination
proof (relation "measure length", goal_cases)
  case (2 s)
  then show ?case using charntorune_size [of s] by simp
qed simp

function runes_fill :: "u8 list \<Rightarrow> rune list \<Rightarrow> nat \<Rightarrow> rune list go" where
  "runes_fill t a n =
    (if length t > 0 then
       case charntorune t of (r, k) \<Rightarrow>
         go_bind (go_set a n r) (\<lambda>a. runes_fill (drop k t) a (n + 1))
     else Inr a)"
  by pat_completeness auto
termination
proof (relation "measure (\<lambda>(t, a, n). length t)", goal_cases)
  case (2 t a n r k)
  then show ?case using charntorune_size [of t] by (cases "charntorune t") simp
qed simp

declare runes_count.simps [simp del] runes_fill.simps [simp del]

definition stringtoslicerune :: "(nat \<Rightarrow> rune) \<Rightarrow> u8 list \<Rightarrow> rune list go" where
  "stringtoslicerune mem s = (let n = runes_count s; a = rawruneslice mem n in runes_fill s a 0)"

fun runes_size :: "rune list \<Rightarrow> u8 list \<Rightarrow> nat \<Rightarrow> nat go" where
  "runes_size [] dum size1 = Inr size1"
| "runes_size (r # a) dum size1 =
    go_bind (runetochar dum r) (\<lambda>(dum, n). runes_size a dum (size1 + n))"

text \<open>\<open>runetochar(b[size2:], r)\<close> writes through to \<open>b\<close>.\<close>

fun runes_write :: "rune list \<Rightarrow> u8 list \<Rightarrow> nat \<Rightarrow> nat \<Rightarrow> (u8 list \<times> nat) go" where
  "runes_write [] b size1 size2 = Inr (b, size2)"
| "runes_write (r # a) b size1 size2 =
    (if size2 \<ge> size1 then Inr (b, size2)
     else if size2 > length b then Inl PanicSlice
     else go_bind (runetochar (drop size2 b) r) (\<lambda>(t, n).
       runes_write a (take size2 b @ t) size1 (size2 + n)))"

definition slicerunetostring :: "(nat \<Rightarrow> u8) \<Rightarrow> rune list \<Rightarrow> u8 list go" where
  "slicerunetostring mem a =
    go_bind (runes_size a [0, 0, 0, 0] 0) (\<lambda>size1.
    go_bind (runes_write a (rawstring mem (size1 + 3)) size1 0) (\<lambda>(b, size2). Inr (take size2 b)))"

definition intstring :: "(nat \<Rightarrow> u8) \<Rightarrow> u64 \<Rightarrow> u8 list go" where
  "intstring mem v =
    go_bind (runetochar (rawstring mem 4) (ucast v)) (\<lambda>(b, n). Inr (take n b))"

definition hasprefix :: "u8 list \<Rightarrow> u8 list \<Rightarrow> bool" where
  "hasprefix s t \<longleftrightarrow> length s \<ge> length t \<and> take (length t) s = t"

function index_loop :: "u8 list \<Rightarrow> u8 list \<Rightarrow> nat \<Rightarrow> int" where
  "index_loop s t i =
    (if i < length s then
       if s ! i = t ! 0 \<and> hasprefix (drop i s) t then int i else index_loop s t (i + 1)
     else -1)"
  by pat_completeness auto
termination by (relation "measure (\<lambda>(s, t, i). length s - i)") auto

declare index_loop.simps [simp del]

definition index :: "u8 list \<Rightarrow> u8 list \<Rightarrow> int" where
  "index s t = (if length t = 0 then 0 else index_loop s t 0)"

definition contains :: "u8 list \<Rightarrow> u8 list \<Rightarrow> bool" where
  "contains s t \<longleftrightarrow> index s t \<ge> 0"

section \<open>Concatenation\<close>

lemma length_rawstring [simp]: "length (rawstring mem n) = n" "length (rawruneslice mem' n) = n"
  by (simp_all add: rawstring_def rawruneslice_def)

lemma copy_at_fill: "l + length x \<le> length b \<Longrightarrow> copy_at b l x = Inr (fill b l x)"
  by (simp add: copy_at_def fill_def)

lemma concat_copy_fills:
  "l + length (concat a) \<le> length b \<Longrightarrow> concat_copy a b l = Inr (fill b l (concat a))"
proof (induction a arbitrary: b l)
  case (Cons x a)
  then have "concat_copy a (fill b l x) (l + length x) = Inr (fill (fill b l x) (l + length x) (concat a))"
    by (intro Cons.IH) simp
  then show ?case using Cons.prems fill_fill [of l x "concat a" b] by (simp add: copy_at_fill)
qed (simp add: fill_def)

lemma fill_all: "length b = length x \<Longrightarrow> fill b 0 x = x"
  by (simp add: fill_def)

text \<open>The signed test sees every overflow of a sum of two lengths.\<close>

lemma length_sum_overflow:
  assumes "l < 2 ^ 31" "n < 2 ^ 31"
  shows "of_nat l + (of_nat n :: u32) <s of_nat l \<longleftrightarrow> 2 ^ 31 \<le> l + n"
proof -
  have s: "unat (of_nat l + of_nat n :: u32) = l + n"
    using assms by (simp add: unat_word_ariths unat_of_nat_small)
  have l: "sint (of_nat l :: u32) = int l" using assms(1) by (simp add: sint_small unat_of_nat_small)
  show ?thesis
  proof (cases "l + n < 2 ^ 31")
    case True
    then show ?thesis using s l by (simp add: word_sless_alt sint_small del: of_nat_add)
  next
    case False
    then have "of_nat l + (of_nat n :: u32) <s 0" by (simp add: sless_zero s)
    then show ?thesis using False l by (simp add: word_sless_alt del: of_nat_add)
  qed
qed

definition nonempty :: "u8 list list \<Rightarrow> u8 list list" where
  "nonempty a = filter (\<lambda>x. x \<noteq> []) a"

lemma of_nat_u32_0: "n < 2 ^ 31 \<Longrightarrow> (of_nat n :: u32) = 0 \<longleftrightarrow> n = 0"
  using unat_of_nat_small [of n] by (metis unat_eq_zero of_nat_0)

lemma concat_scan_empty: "nonempty a = [] \<Longrightarrow> concat_scan a i l c k = Inr (l, c, k)"
  by (induction a arbitrary: i) (auto simp: nonempty_def Let_def split: if_splits)

lemma concat_scan_ok:
  assumes "l + length (concat a) < 2 ^ 31"
  shows "\<exists>idx'. concat_scan a i (of_nat l) c idx = Inr (of_nat (l + length (concat a)), c + length (nonempty a), idx')
    \<and> (nonempty a \<noteq> [] \<longrightarrow> i \<le> idx' \<and> idx' - i < length a \<and> a ! (idx' - i) = last (nonempty a))"
  using assms
proof (induction a arbitrary: i l c idx)
  case Nil
  then show ?case by (simp add: nonempty_def)
next
  case (Cons x a)
  have n: "(of_nat (length x) :: u32) = 0 \<longleftrightarrow> x = []"
    using Cons.prems of_nat_u32_0 [of "length x"] by simp
  have no: "\<not> of_nat l + (of_nat (length x) :: u32) <s of_nat l"
    using Cons.prems length_sum_overflow [of l "length x"] by simp
  let ?c = "if x = [] then c else c + 1" and ?idx = "if x = [] then idx else i"
  have "l + length x + length (concat a) < 2 ^ 31" using Cons.prems by simp
  from Cons.IH [OF this, of "i + 1" ?c ?idx] obtain idx'
    where r: "concat_scan a (i + 1) (of_nat (l + length x)) ?c ?idx
        = Inr (of_nat (l + length x + length (concat a)), ?c + length (nonempty a), idx')"
      and e: "nonempty a \<noteq> [] \<longrightarrow> i + 1 \<le> idx' \<and> idx' - (i + 1) < length a \<and> a ! (idx' - (i + 1)) = last (nonempty a)"
    by blast
  have step: "concat_scan (x # a) i (of_nat l) c idx = concat_scan a (i + 1) (of_nat (l + length x)) ?c ?idx"
    using n no by (auto simp: Let_def)
  show ?case
  proof (cases "nonempty a = []")
    case True
    then have "idx' = ?idx" using r concat_scan_empty [OF True] by simp
    then show ?thesis using True step r by (auto simp: nonempty_def add.assoc)
  next
    case False
    then have "i \<le> idx'" "idx' - i < length (x # a)" "(x # a) ! (idx' - i) = last (nonempty a)"
      using e by (auto simp: nth_Cons' )
    then show ?thesis using False step r by (auto simp: nonempty_def add.assoc)
  qed
qed

lemma concat_scan_overflow:
  assumes "list_all (\<lambda>x. length x < 2 ^ 31) a" and "l < 2 ^ 31" and "2 ^ 31 \<le> l + length (concat a)"
  shows "concat_scan a i (of_nat l) c idx = Inl (PanicMsg ''string concatenation too long'')"
  using assms
proof (induction a arbitrary: i l c idx)
  case (Cons x a)
  have n: "(of_nat (length x) :: u32) = 0 \<longleftrightarrow> x = []"
    using Cons.prems of_nat_u32_0 [of "length x"] by simp
  have o: "of_nat l + (of_nat (length x) :: u32) <s of_nat l \<longleftrightarrow> 2 ^ 31 \<le> l + length x"
    using Cons.prems by (intro length_sum_overflow) simp_all
  show ?case
  proof (cases "2 ^ 31 \<le> l + length x")
    case True
    moreover have "x \<noteq> []" using True Cons.prems by auto
    ultimately show ?thesis using n o by (simp add: Let_def)
  next
    case False
    then have "concat_scan a (i + 1) (of_nat (l + length x)) c' k = Inl (PanicMsg ''string concatenation too long'')" for c' k
      using Cons.prems by (intro Cons.IH) simp_all
    then show ?thesis using n o False by (auto simp: Let_def)
  qed
qed simp

lemma concat_nonempty: "concat (nonempty a) = concat a"
  by (induction a) (auto simp: nonempty_def)

section \<open>Conversions\<close>

lemma runes_count_eq: "runes_count s = length (range_string s 0)"
proof -
  have "runes_count s = RuneCount s"
  proof (induction "length s" arbitrary: s rule: less_induct)
    case less
    show ?case
    proof (cases "s = []")
      case False
      then have "runes_count (drop (snd (DecodeRune s)) s) = RuneCount (drop (snd (DecodeRune s)) s)"
        using DecodeRune_size [OF False] by (intro less) simp
      then show ?thesis using False
        by (subst runes_count.simps) (simp add: RuneCount_step charntorune_DecodeRune)
    qed (simp add: runes_count.simps)
  qed
  then show ?thesis by (simp add: range_string_count)
qed

text \<open>The runes of a string, as a \<open>range\<close> loop sees them.\<close>

function runes :: "u8 list \<Rightarrow> rune list" where
  "runes s = (if s = [] then [] else fst (DecodeRune s) # runes (drop (snd (DecodeRune s)) s))"
  by pat_completeness auto
termination
proof (relation "measure length", goal_cases)
  case (2 s)
  then show ?case using DecodeRune_size [of s] by simp
qed simp

declare runes.simps [simp del]

lemma runes_range_string: "map snd (range_string s k) = runes (drop k s)"
proof (induction "length s - k" arbitrary: k rule: less_induct)
  case less
  show ?case
  proof (cases "k < length s")
    case True
    let ?n = "snd (DecodeRune (drop k s))"
    have "1 \<le> ?n" using DecodeRune_size [of "drop k s"] True by simp
    then have "map snd (range_string s (k + ?n)) = runes (drop (k + ?n) s)"
      using True by (intro less) auto
    then show ?thesis
      using True by (subst runes.simps) (simp add: range_string_step add.commute)
  qed (simp add: range_string_end runes.simps)
qed

interpretation u8: prefix_code "\<lambda>r. scalar (unat r)" utf8 DecodeRune runes
  by unfold_locales (simp_all add: DecodeRune_utf8, simp_all add: runes.simps)

lemma runes_fill_fills:
  "n + length (runes t) \<le> length a \<Longrightarrow> runes_fill t a n = Inr (fill a n (runes t))"
proof (induction "length t" arbitrary: t a n rule: less_induct)
  case less
  show ?case
  proof (cases "t = []")
    case True then show ?thesis by (subst runes_fill.simps) (simp add: fill_def runes.simps)
  next
    case False
    let ?r = "fst (DecodeRune t)" and ?t = "drop (snd (DecodeRune t)) t"
    have rs: "runes t = ?r # runes ?t" using False by (subst runes.simps) simp
    then have "runes_fill ?t (fill a n [?r]) (n + 1) = Inr (fill (fill a n [?r]) (n + 1) (runes ?t))"
      using less.prems False DecodeRune_size [OF False] by (intro less.hyps) auto
    then show ?thesis
      using False less.prems rs fill_fill [of n "[?r]" "runes ?t" a]
      by (subst runes_fill.simps, cases "DecodeRune t") (simp add: charntorune_DecodeRune go_set_fill)
  qed
qed

lemma stringtoslicerune_spec: "stringtoslicerune mem s = Inr (runes s)"
proof -
  have "length (runes s) = runes_count s"
    using runes_range_string [of s 0] by (simp add: runes_count_eq flip: length_map [of snd])
  then show ?thesis
    using runes_fill_fills [of 0 s "rawruneslice mem (runes_count s)"] by (simp add: stringtoslicerune_def fill_all)
qed

text \<open>The bytes of a sequence of runes.\<close>

definition runes_bytes :: "rune list \<Rightarrow> u8 list" where
  "runes_bytes a = concat (map (\<lambda>r. utf8 (sanitize r)) a)"

lemma runes_size_spec: "length dum = 4 \<Longrightarrow> runes_size a dum k = Inr (k + length (runes_bytes a))"
proof (induction a arbitrary: dum k)
  case (Cons r a)
  have "length (utf8 (sanitize r)) \<le> 4" by (simp add: length_utf8)
  then show ?case using Cons by (simp add: runetochar_writes write_prefix_def runes_bytes_def add.assoc)
qed (simp add: runes_bytes_def)

lemma runes_write_spec:
  "size2 + length (runes_bytes a) = size1 \<Longrightarrow> size1 \<le> length b \<Longrightarrow>
    runes_write a b size1 size2 = Inr (fill b size2 (runes_bytes a), size1)"
proof (induction a arbitrary: b size2)
  case Nil then show ?case by (simp add: fill_def runes_bytes_def)
next
  case (Cons r a)
  let ?u = "utf8 (sanitize r)"
  have u: "0 < length ?u" "runes_bytes (r # a) = ?u @ runes_bytes a" by (simp_all add: runes_bytes_def)
  have "runes_write a (fill b size2 ?u) size1 (size2 + length ?u)
      = Inr (fill (fill b size2 ?u) (size2 + length ?u) (runes_bytes a), size1)"
    using Cons.prems u by (intro Cons.IH) simp_all
  moreover have "fill (fill b size2 ?u) (size2 + length ?u) (runes_bytes a) = fill b size2 (runes_bytes (r # a))"
    using Cons.prems u by (simp add: fill_fill)
  moreover have "runetochar (drop size2 b) r = Inr (?u @ drop (size2 + length ?u) b, length ?u)"
    using Cons.prems u by (simp add: runetochar_writes write_prefix_def add.commute)
  moreover have "take size2 b @ ?u @ drop (size2 + length ?u) b = fill b size2 ?u"
    by (simp add: fill_def)
  moreover have "\<not> size2 \<ge> size1" using Cons.prems(1) u by auto
  ultimately show ?case using Cons.prems u by simp
qed

lemma slicerunetostring_spec: "slicerunetostring mem a = Inr (runes_bytes a)"
  using runes_write_spec [of 0 a "length (runes_bytes a)" "rawstring mem (length (runes_bytes a) + 3)"]
  by (simp add: slicerunetostring_def runes_size_spec fill_def)

section \<open>Search\<close>

lemma hasprefix_iff: "hasprefix s t \<longleftrightarrow> prefix t s"
  by (metis hasprefix_def append_eq_conv_conj prefix_def prefix_length_le take_is_prefix)

lemma index_loop_spec:
  assumes "t \<noteq> []"
  shows "(index_loop s t i = -1 \<and> (\<forall>j\<ge>i. \<not> prefix t (drop j s)))
    \<or> (\<exists>k. index_loop s t i = int k \<and> i \<le> k \<and> prefix t (drop k s) \<and> (\<forall>j. i \<le> j \<and> j < k \<longrightarrow> \<not> prefix t (drop j s)))"
proof (induction "length s - i" arbitrary: i rule: less_induct)
  case less
  note h = hasprefix_iff
  have c: "s ! j = t ! 0" if "prefix t (drop j s)" "j < length s" for j
    using that assms by (auto simp: prefix_def) (metis add_0_right length_greater_0_conv nth_append nth_drop less_imp_le)
  show ?case
  proof (cases "i < length s")
    case True
    show ?thesis
    proof (cases "prefix t (drop i s)")
      case p: True
      then have "index_loop s t i = int i" using True c [OF p True] h by (subst index_loop.simps) simp
      then show ?thesis using p by auto
    next
      case np: False
      then have e: "index_loop s t i = index_loop s t (i + 1)" using True h by (subst index_loop.simps) simp
      have below: "\<not> prefix t (drop j s)" if "i \<le> j" "i + 1 \<le> j \<longrightarrow> \<not> prefix t (drop j s)" for j
        using that np by (cases "j = i") auto
      have "length s - (i + 1) < length s - i" using True by simp
      from less [OF this] show ?thesis
      proof (elim disjE conjE exE)
        assume "index_loop s t (i + 1) = -1" "\<forall>j\<ge>i + 1. \<not> prefix t (drop j s)"
        then show ?thesis using below e by auto
      next
        fix k assume "index_loop s t (i + 1) = int k" "i + 1 \<le> k" "prefix t (drop k s)"
          "\<forall>j. i + 1 \<le> j \<and> j < k \<longrightarrow> \<not> prefix t (drop j s)"
        then show ?thesis using below e by (intro disjI2 exI [of _ k]) auto
      qed
    qed
  next
    case False
    then have "\<not> prefix t (drop j s)" if "i \<le> j" for j using that assms by simp
    then show ?thesis using False by (subst (1) index_loop.simps) auto
  qed
qed

section \<open>Properties\<close>

text \<open>String concatenation returns the concatenation of its operands, whatever the fresh storage
  held, when the total length fits a 32-bit \<open>int\<close>, and throws exactly when it does not.\<close>
theorem concatstrings_correct:
  assumes "list_all (\<lambda>x. length x < 2 ^ 31) a"
  shows "concatstrings mem a =
    (if length (concat a) < 2 ^ 31 then Inr (concat a) else Inl (PanicMsg ''string concatenation too long''))"
proof (cases "length (concat a) < 2 ^ 31")
  case False
  then show ?thesis using concat_scan_overflow [OF assms, of 0 0 0 0] by (simp add: concatstrings_def)
next
  case True
  obtain idx where r: "concat_scan a 0 0 0 0 = Inr (of_nat (length (concat a)), length (nonempty a), idx)"
    and e: "nonempty a \<noteq> [] \<longrightarrow> idx < length a \<and> a ! idx = last (nonempty a)"
    using concat_scan_ok [of 0 a 0 0 0] True by auto
  consider "nonempty a = []" | x where "nonempty a = [x]" | "1 < length (nonempty a)"
    by (cases "nonempty a"; cases "tl (nonempty a)") auto
  then show ?thesis
  proof cases
    case 1 then show ?thesis using r True concat_nonempty [of a] by (simp add: concatstrings_def)
  next
    case 2 then show ?thesis using r e True concat_nonempty [of a] by (simp add: concatstrings_def go_get_def)
  next
    case 3
    then have "nonempty a \<noteq> []" by auto
    with 3 show ?thesis
      using r True concat_copy_fills [of 0 a "rawstring mem (length (concat a))"]
      by (simp add: concatstrings_def unat_of_nat_small fill_all)
  qed
qed

theorem concatstrings_correct_witness:
  "list_all (\<lambda>x. length x < 2 ^ 31) [[1], [], [2, 3 :: u8]]
   \<and> concatstrings (\<lambda>_. 0xFF) [[1], [], [2, 3]] = Inr [1, 2, 3]"
  using concatstrings_correct [of "[[1], [], [2, 3]]" "\<lambda>_. 0xFF"] by simp

text \<open>Converting a string to runes and back is the identity on valid UTF-8; converting runes to a
  string and back only replaces what is not a scalar value; a \<open>range\<close> loop sees the converted runes.
  None of it depends on the contents of fresh storage, and no write is out of bounds.\<close>
theorem string_rune_conversions:
  "stringtoslicerune mem s = Inr (map snd (range_string s 0))
   \<and> slicerunetostring mem' a = Inr (concat (map (\<lambda>r. utf8 (if ValidRune r then r else RuneError)) a))
   \<and> go_bind (slicerunetostring mem' a) (stringtoslicerune mem)
       = Inr (map (\<lambda>r. if ValidRune r then r else RuneError) a)
   \<and> (Valid s \<longrightarrow> go_bind (stringtoslicerune mem s) (slicerunetostring mem') = Inr s)"
proof (intro conjI impI)
  have e: "runes_bytes a = concat (map utf8 (map sanitize a))" for a by (simp add: runes_bytes_def o_def)
  have v: "sanitize = (\<lambda>r. if ValidRune r then r else RuneError)"
    by (rule ext) (simp add: sanitize_def ValidRune_iff_scalar)
  have ok: "list_all (\<lambda>r. scalar (unat r)) (map sanitize a)" for a by (simp add: list_all_iff)
  show "stringtoslicerune mem s = Inr (map snd (range_string s 0))"
    by (simp add: stringtoslicerune_spec runes_range_string)
  show "slicerunetostring mem' a = Inr (concat (map (\<lambda>r. utf8 (if ValidRune r then r else RuneError)) a))"
    by (simp add: slicerunetostring_spec runes_bytes_def v)
  show "go_bind (slicerunetostring mem' a) (stringtoslicerune mem)
       = Inr (map (\<lambda>r. if ValidRune r then r else RuneError) a)"
    using u8.all_encodings [OF ok [of a]] by (simp add: slicerunetostring_spec stringtoslicerune_spec e v)
  show "go_bind (stringtoslicerune mem s) (slicerunetostring mem') = Inr s" if vs: "Valid s"
  proof -
    obtain rs where rs: "list_all (\<lambda>r. scalar (unat r)) rs" "s = concat (map utf8 rs)"
      using iffD1 [OF Valid_iff_encodings vs] by (elim exE conjE)
    have "map sanitize rs = rs" using rs(1) by (intro map_idI) (simp add: sanitize_def list_all_iff)
    then show ?thesis
      using u8.all_encodings [OF rs(1)] rs by (simp add: slicerunetostring_spec stringtoslicerune_spec e)
  qed
qed

theorem string_rune_conversions_witness:
  "Valid [0xC3, 0xA9] \<and>
   go_bind (stringtoslicerune (\<lambda>_. 7) [0xC3, 0xA9]) (slicerunetostring (\<lambda>_. 9)) = Inr [0xC3, 0xA9]"
proof -
  have "Valid [0xC3, 0xA9]" by code_simp
  then show ?thesis using string_rune_conversions [of "\<lambda>_. 7" "[0xC3, 0xA9]" "\<lambda>_. 9"] by blast
qed

text \<open>The conversion of an integer to a string encodes the low 32 bits of the integer. So it is
  the integer's own encoding whenever the integer is a scalar value, but an integer outside the
  range of a rune is not always converted to U+FFFD: 4294967361 gives the string of 65.\<close>
theorem intstring_truncates:
  "(intstring mem v = Inr (utf8 (if ValidRune (ucast v) then ucast v else RuneError)))
   \<and> intstring mem 0x100000041 = Inr [0x41]"
proof -
  have i: "intstring mem v = Inr (utf8 (sanitize (ucast v)))" for v
  proof -
    have "length (utf8 (sanitize (ucast v))) \<le> 4" by (simp add: length_utf8)
    then show ?thesis by (simp add: intstring_def runetochar_writes write_prefix_def)
  qed
  have "ucast (0x100000041 :: u64) = (0x41 :: rune)" by code_simp
  moreover have "utf8 0x41 = [0x41]" by (simp add: utf8_def utf8_nats_def)
  ultimately have "intstring mem 0x100000041 = Inr [0x41]"
    by (simp only: i) (simp add: sanitize_def scalar_def)
  then show ?thesis by (simp add: i sanitize_def ValidRune_iff_scalar)
qed

end
