(* ===== verification/SortNat.thy ===== *)
theory SortNat
  imports Prelude
begin

text \<open>
  The unstable sort of package \<open>sort\<close> on natural-number indices that do not overflow: the reference for the model
  of the code in theory \<open>Sort\<close>, which has the 32-bit indices and the bounds checks of the code. Every routine of
  the package has its counterpart here, with the suffix \<open>_nat\<close>; each is a total function of the collection for
  every \<open>Less\<close> and only permutes its segment. That the result is sorted needs \<open>Less\<close> to be a strict weak order,
  the contract of \<open>Less\<close>, which is the locale \<^term>\<open>strict_weak\<close> below.
\<close>

section \<open>Definitions\<close>

definition Swap :: "'a list \<Rightarrow> nat \<Rightarrow> nat \<Rightarrow> 'a list" where
  "Swap xs i j = xs[i := xs ! j, j := xs ! i]"

function insert_loop_nat :: "('a \<Rightarrow> 'a \<Rightarrow> bool) \<Rightarrow> nat \<Rightarrow> 'a list \<Rightarrow> nat \<Rightarrow> 'a list" where
  "insert_loop_nat Less a data j =
    (if j > a \<and> Less (data ! j) (data ! (j - 1))
     then insert_loop_nat Less a (Swap data j (j - 1)) (j - 1) else data)"
  by pat_completeness auto
termination by (relation "measure (\<lambda>(Less, a, data, j). j)") auto

function insertionSort_loop_nat :: "('a \<Rightarrow> 'a \<Rightarrow> bool) \<Rightarrow> nat \<Rightarrow> nat \<Rightarrow> 'a list \<Rightarrow> nat \<Rightarrow> 'a list" where
  "insertionSort_loop_nat Less a b data i =
    (if i < b then insertionSort_loop_nat Less a b (insert_loop_nat Less a data i) (i + 1) else data)"
  by pat_completeness auto
termination by (relation "measure (\<lambda>(Less, a, b, data, i). b - i)") auto

definition insertionSort_nat :: "('a \<Rightarrow> 'a \<Rightarrow> bool) \<Rightarrow> 'a list \<Rightarrow> nat \<Rightarrow> nat \<Rightarrow> 'a list" where
  "insertionSort_nat Less data a b = insertionSort_loop_nat Less a b data (a + 1)"

function siftDown_nat :: "('a \<Rightarrow> 'a \<Rightarrow> bool) \<Rightarrow> 'a list \<Rightarrow> nat \<Rightarrow> nat \<Rightarrow> nat \<Rightarrow> 'a list" where
  "siftDown_nat Less data root hi first =
    (let child = 2 * root + 1 in
     if child \<ge> hi then data else
     let child = (if child + 1 < hi \<and> Less (data ! (first + child)) (data ! (first + child + 1))
                  then child + 1 else child) in
     if \<not> Less (data ! (first + root)) (data ! (first + child)) then data
     else siftDown_nat Less (Swap data (first + root) (first + child)) child hi first)"
  by pat_completeness auto
termination by (relation "measure (\<lambda>(Less, data, root, hi, first). hi - root)") (auto simp: Let_def)

fun heap_build_nat :: "('a \<Rightarrow> 'a \<Rightarrow> bool) \<Rightarrow> 'a list \<Rightarrow> nat \<Rightarrow> nat \<Rightarrow> nat \<Rightarrow> 'a list" where
  "heap_build_nat Less data hi first 0 = siftDown_nat Less data 0 hi first"
| "heap_build_nat Less data hi first (Suc i) = heap_build_nat Less (siftDown_nat Less data (Suc i) hi first) hi first i"

text \<open>\<open>heap_pop_nat Less data first k\<close> runs the second loop for \<open>i\<close> from \<open>k - 1\<close> down to 0.\<close>

fun heap_pop_nat :: "('a \<Rightarrow> 'a \<Rightarrow> bool) \<Rightarrow> 'a list \<Rightarrow> nat \<Rightarrow> nat \<Rightarrow> 'a list" where
  "heap_pop_nat Less data first 0 = data"
| "heap_pop_nat Less data first (Suc i) =
    heap_pop_nat Less (siftDown_nat Less (Swap data first (first + i)) 0 i first) first i"

definition heapSort_nat :: "('a \<Rightarrow> 'a \<Rightarrow> bool) \<Rightarrow> 'a list \<Rightarrow> nat \<Rightarrow> nat \<Rightarrow> 'a list" where
  "heapSort_nat Less data a b =
    (let first = a; hi = b - a; data = heap_build_nat Less data hi first ((hi - 1) div 2) in
     heap_pop_nat Less data first hi)"

definition medianOfThree_nat :: "('a \<Rightarrow> 'a \<Rightarrow> bool) \<Rightarrow> 'a list \<Rightarrow> nat \<Rightarrow> nat \<Rightarrow> nat \<Rightarrow> 'a list" where
  "medianOfThree_nat Less data a b c =
    (let m0 = b; m1 = a; m2 = c;
         data = (if Less (data ! m1) (data ! m0) then Swap data m1 m0 else data);
         data = (if Less (data ! m2) (data ! m1) then Swap data m2 m1 else data) in
     if Less (data ! m1) (data ! m0) then Swap data m1 m0 else data)"

fun swapRange_nat :: "'a list \<Rightarrow> nat \<Rightarrow> nat \<Rightarrow> nat \<Rightarrow> 'a list" where
  "swapRange_nat data a b 0 = data"
| "swapRange_nat data a b (Suc n) = Swap (swapRange_nat data a b n) (a + n) (b + n)"

definition choosePivot_nat :: "('a \<Rightarrow> 'a \<Rightarrow> bool) \<Rightarrow> 'a list \<Rightarrow> nat \<Rightarrow> nat \<Rightarrow> 'a list" where
  "choosePivot_nat Less data lo hi =
    (let m = lo + (hi - lo) div 2;
         data =
           (if hi - lo > 40 then
              let s = (hi - lo) div 8;
                  data = medianOfThree_nat Less data lo (lo + s) (lo + 2 * s);
                  data = medianOfThree_nat Less data m (m - s) (m + s) in
              medianOfThree_nat Less data (hi - 1) (hi - 1 - s) (hi - 1 - 2 * s)
            else data) in
     medianOfThree_nat Less data lo m (hi - 1))"

function pivot_up_nat :: "('a \<Rightarrow> 'a \<Rightarrow> bool) \<Rightarrow> nat \<Rightarrow> 'a list \<Rightarrow> nat \<Rightarrow> nat \<Rightarrow> nat \<Rightarrow> 'a list \<times> nat \<times> nat" where
  "pivot_up_nat Less pivot data a b c =
    (if b < c then
       if Less (data ! b) (data ! pivot) then pivot_up_nat Less pivot data a (b + 1) c
       else if \<not> Less (data ! pivot) (data ! b) then pivot_up_nat Less pivot (Swap data a b) (a + 1) (b + 1) c
       else (data, a, b)
     else (data, a, b))"
  by pat_completeness auto
termination by (relation "measure (\<lambda>(Less, pivot, data, a, b, c). c - b)") auto

function pivot_down_nat :: "('a \<Rightarrow> 'a \<Rightarrow> bool) \<Rightarrow> nat \<Rightarrow> 'a list \<Rightarrow> nat \<Rightarrow> nat \<Rightarrow> nat \<Rightarrow> 'a list \<times> nat \<times> nat" where
  "pivot_down_nat Less pivot data b c d =
    (if b < c then
       if Less (data ! pivot) (data ! (c - 1)) then pivot_down_nat Less pivot data b (c - 1) d
       else if \<not> Less (data ! (c - 1)) (data ! pivot)
         then pivot_down_nat Less pivot (Swap data (c - 1) (d - 1)) b (c - 1) (d - 1)
       else (data, c, d)
     else (data, c, d))"
  by pat_completeness auto
termination by (relation "measure (\<lambda>(Less, pivot, data, b, c, d). c - b)") auto

declare insert_loop_nat.simps [simp del] insertionSort_loop_nat.simps [simp del] siftDown_nat.simps [simp del]
  pivot_up_nat.simps [simp del] pivot_down_nat.simps [simp del]

lemma pivot_up_le: "b \<le> snd (snd (pivot_up_nat Less pivot data a b c))"
proof (induction Less pivot data a b c rule: pivot_up_nat.induct)
  case (1 Less pivot data a b c)
  then show ?case by (subst pivot_up_nat.simps) (auto dest: Suc_leD)
qed

lemma pivot_down_le: "fst (snd (pivot_down_nat Less pivot data b c d)) \<le> c"
proof (induction Less pivot data b c d rule: pivot_down_nat.induct)
  case (1 Less pivot data b c d)
  then show ?case by (subst pivot_down_nat.simps) (auto intro: le_trans [OF _ diff_le_self])
qed

function pivot_loop_nat :: "('a \<Rightarrow> 'a \<Rightarrow> bool) \<Rightarrow> nat \<Rightarrow> 'a list \<Rightarrow> nat \<Rightarrow> nat \<Rightarrow> nat \<Rightarrow> nat
    \<Rightarrow> 'a list \<times> nat \<times> nat \<times> nat \<times> nat" where
  "pivot_loop_nat Less pivot data a b c d =
    (case pivot_up_nat Less pivot data a b c of (data, a, b) \<Rightarrow>
     case pivot_down_nat Less pivot data b c d of (data, c, d) \<Rightarrow>
     if b \<ge> c then (data, a, b, c, d)
     else pivot_loop_nat Less pivot (Swap data b (c - 1)) a (b + 1) (c - 1) d)"
  by pat_completeness auto
termination
proof (relation "measure (\<lambda>(Less, pivot, data, a, b, c, d). c - b)", goal_cases)
  case (2 Less pivot data a b c d data1 y a1 b1 data2 z c1 d1)
  then have "b \<le> b1" "c1 \<le> c"
    using pivot_up_le [of b Less pivot data a c] pivot_down_le [of Less pivot data1 b1 c d]
    by (metis snd_conv, metis fst_conv snd_conv)
  with 2 show ?case by auto
qed simp

declare pivot_loop_nat.simps [simp del]

definition doPivot_nat :: "('a \<Rightarrow> 'a \<Rightarrow> bool) \<Rightarrow> 'a list \<Rightarrow> nat \<Rightarrow> nat \<Rightarrow> 'a list \<times> nat \<times> nat" where
  "doPivot_nat Less data lo hi =
    (case pivot_loop_nat Less lo (choosePivot_nat Less data lo hi) (lo + 1) (lo + 1) hi hi of (data, a, b, c, d) \<Rightarrow>
     let n = min (b - a) (a - lo);
         data = swapRange_nat data lo (b - n) n;
         n = min (hi - d) (d - c);
         data = swapRange_nat data c (hi - n) n in
     (data, lo + b - a, hi - (d - c)))"

fun quickSort_nat :: "('a \<Rightarrow> 'a \<Rightarrow> bool) \<Rightarrow> 'a list \<Rightarrow> nat \<Rightarrow> nat \<Rightarrow> nat \<Rightarrow> 'a list" where
  "quickSort_nat Less data a b maxDepth =
    (if b - a > 7 then
       case maxDepth of 0 \<Rightarrow> heapSort_nat Less data a b
       | Suc maxDepth \<Rightarrow>
         case doPivot_nat Less data a b of (data, mlo, mhi) \<Rightarrow>
         if mlo - a < b - mhi
         then quickSort_nat Less (quickSort_nat Less data a mlo maxDepth) mhi b maxDepth
         else quickSort_nat Less (quickSort_nat Less data mhi b maxDepth) a mlo maxDepth
     else if b - a > 1 then insertionSort_nat Less data a b else data)"

declare quickSort_nat.simps [simp del]

section \<open>Permutations of a segment\<close>

text \<open>
  \<open>seg_perm a b xs ys\<close>: \<open>ys\<close> is \<open>xs\<close> with only the elements at indices from \<open>a\<close> to below \<open>b\<close>
  permuted. Every routine of the package satisfies it, whatever \<open>Less\<close> answers.
\<close>

definition seg_perm :: "nat \<Rightarrow> nat \<Rightarrow> 'a list \<Rightarrow> 'a list \<Rightarrow> bool" where
  "seg_perm a b xs ys \<longleftrightarrow> length ys = length xs \<and> mset ys = mset xs \<and> (\<forall>i. i < a \<or> b \<le> i \<longrightarrow> ys ! i = xs ! i)"

lemma length_Swap [simp]: "length (Swap xs i j) = length xs"
  by (simp add: Swap_def)

lemma nth_Swap: "i < length xs \<Longrightarrow> j < length xs \<Longrightarrow>
    Swap xs i j ! k = (if k = i then xs ! j else if k = j then xs ! i else xs ! k)"
  by (cases "k < length xs") (auto simp: Swap_def nth_list_update)

lemma nth_Swap_other: "k \<noteq> i \<Longrightarrow> k \<noteq> j \<Longrightarrow> Swap xs i j ! k = xs ! k"
  by (simp add: Swap_def)

lemma mset_Swap: "i < length xs \<Longrightarrow> j < length xs \<Longrightarrow> mset (Swap xs i j) = mset xs"
  unfolding Swap_def by (rule mset_swap)

lemma seg_perm_refl [simp]: "seg_perm a b xs xs"
  by (simp add: seg_perm_def)

lemma seg_perm_length: "seg_perm a b xs ys \<Longrightarrow> length ys = length xs"
  by (simp add: seg_perm_def)

lemma seg_perm_trans [trans]: "seg_perm a b xs ys \<Longrightarrow> seg_perm a b ys zs \<Longrightarrow> seg_perm a b xs zs"
  by (simp add: seg_perm_def)

lemma seg_perm_mono: "seg_perm a b xs ys \<Longrightarrow> a' \<le> a \<Longrightarrow> b \<le> b' \<Longrightarrow> seg_perm a' b' xs ys"
  by (auto simp: seg_perm_def)

lemma seg_perm_Swap: "a \<le> i \<Longrightarrow> i < b \<Longrightarrow> a \<le> j \<Longrightarrow> j < b \<Longrightarrow> b \<le> length xs \<Longrightarrow> seg_perm a b xs (Swap xs i j)"
  by (auto simp: seg_perm_def mset_Swap nth_Swap_other)

lemma seg_perm_outside: "seg_perm a b xs ys \<Longrightarrow> i < a \<or> b \<le> i \<Longrightarrow> ys ! i = xs ! i"
  by (auto simp: seg_perm_def)

definition seg :: "nat \<Rightarrow> nat \<Rightarrow> 'a list \<Rightarrow> 'a list" where
  "seg a b xs = take (b - a) (drop a xs)"

lemma seg_nth_mem: "a \<le> i \<Longrightarrow> i < b \<Longrightarrow> b \<le> length xs \<Longrightarrow> xs ! i \<in> set (seg a b xs)"
  using nth_mem [of "i - a" "seg a b xs"] by (simp add: seg_def)

lemma seg_mem_nth: "x \<in> set (seg a b xs) \<Longrightarrow> \<exists>i. a \<le> i \<and> i < b \<and> i < length xs \<and> x = xs ! i"
  unfolding seg_def in_set_conv_nth by (elim exE conjE) (rule exI [of _ "a + k" for k], auto)

lemma seg_perm_mset:
  assumes "seg_perm a b xs ys" and "a \<le> b" and "b \<le> length xs"
  shows "mset (seg a b ys) = mset (seg a b xs)"
proof -
  have l: "length ys = length xs" and m: "mset ys = mset xs" using assms(1) by (auto simp: seg_perm_def)
  have "take a ys = take a xs" "drop b ys = drop b xs"
    using assms l by (auto intro!: nth_equalityI simp: seg_perm_def)
  moreover have "zs = take a zs @ seg a b zs @ drop b zs" if "length zs = length xs" for zs :: "'a list"
    using that assms(2,3) by (metis append_take_drop_id le_add_diff_inverse2 seg_def drop_drop)
  ultimately show ?thesis
    using m l by (metis add_left_cancel add_right_cancel mset_append)
qed

lemma seg_perm_all:
  assumes "seg_perm a b xs ys" and "b \<le> length xs" and "\<And>i. a \<le> i \<Longrightarrow> i < b \<Longrightarrow> P (xs ! i)"
    and "a \<le> i" and "i < b"
  shows "P (ys ! i)"
proof -
  have "a \<le> b" using assms(4,5) by simp
  then have "set (seg a b ys) = set (seg a b xs)"
    by (rule mset_eq_setD [OF seg_perm_mset [OF assms(1) _ assms(2)]])
  moreover have "ys ! i \<in> set (seg a b ys)"
    using assms by (intro seg_nth_mem) (auto simp: seg_perm_length)
  ultimately obtain j where "a \<le> j" "j < b" "ys ! i = xs ! j"
    using seg_mem_nth [of "ys ! i" a b xs] by auto
  then show ?thesis using assms(3) by simp
qed

lemma seg_perm_insert_loop:
  "a \<le> j \<Longrightarrow> j < b \<Longrightarrow> b \<le> length data \<Longrightarrow> seg_perm a b data (insert_loop_nat Less a data j)"
proof (induction Less a data j rule: insert_loop_nat.induct)
  case (1 Less a data j)
  then show ?case
    by (subst insert_loop_nat.simps)
       (auto intro: seg_perm_trans [OF seg_perm_Swap, of a j b "j - 1" data])
qed

lemma seg_perm_insertionSort_loop:
  "a < i \<Longrightarrow> b \<le> length data \<Longrightarrow> seg_perm a b data (insertionSort_loop_nat Less a b data i)"
proof (induction Less a b data i rule: insertionSort_loop_nat.induct)
  case (1 Less a b data i)
  show ?case
  proof (cases "i < b")
    case True
    have p: "seg_perm a b data (insert_loop_nat Less a data i)" using "1.prems" True by (intro seg_perm_insert_loop) auto
    have "seg_perm a b (insert_loop_nat Less a data i) (insertionSort_loop_nat Less a b (insert_loop_nat Less a data i) (i + 1))"
      using 1 True seg_perm_length [OF p] by simp
    with p show ?thesis using True by (subst insertionSort_loop_nat.simps) (auto intro: seg_perm_trans)
  qed (simp add: insertionSort_loop_nat.simps)
qed

lemma seg_perm_insertionSort: "b \<le> length data \<Longrightarrow> seg_perm a b data (insertionSort_nat Less data a b)"
  by (simp add: insertionSort_nat_def seg_perm_insertionSort_loop)

text \<open>One iteration of \<open>siftDown_nat\<close>, with the child it compares against.\<close>

definition max_child :: "('a \<Rightarrow> 'a \<Rightarrow> bool) \<Rightarrow> 'a list \<Rightarrow> nat \<Rightarrow> nat \<Rightarrow> nat \<Rightarrow> nat" where
  "max_child Less data root hi first =
    (if 2 * root + 2 < hi \<and> Less (data ! (first + (2 * root + 1))) (data ! (first + (2 * root + 2)))
     then 2 * root + 2 else 2 * root + 1)"

lemma siftDown_step:
  "siftDown_nat Less data root hi first =
    (if hi \<le> 2 * root + 1 \<or> \<not> Less (data ! (first + root)) (data ! (first + max_child Less data root hi first))
     then data
     else siftDown_nat Less (Swap data (first + root) (first + max_child Less data root hi first))
       (max_child Less data root hi first) hi first)"
  by (subst siftDown_nat.simps) (simp add: Let_def max_child_def)

lemma max_child_bounds:
  "\<not> hi \<le> 2 * root + 1 \<Longrightarrow> root < max_child Less data root hi first \<and> max_child Less data root hi first < hi"
  by (auto simp: max_child_def)

lemma siftDown_induct [case_names step]:
  assumes "\<And>data root. (\<not> hi \<le> 2 * root + 1 \<Longrightarrow>
      Less (data ! (first + root)) (data ! (first + max_child Less data root hi first)) \<Longrightarrow>
      P (Swap data (first + root) (first + max_child Less data root hi first)) (max_child Less data root hi first))
    \<Longrightarrow> P data root"
  shows "P data root"
proof (induction "hi - root" arbitrary: data root rule: less_induct)
  case less
  show ?case
  proof (rule assms)
    assume h: "\<not> hi \<le> 2 * root + 1"
    show "P (Swap data (first + root) (first + max_child Less data root hi first)) (max_child Less data root hi first)"
      using max_child_bounds [OF h, of Less data first] by (intro less) auto
  qed
qed

lemma seg_perm_siftDown:
  "first + hi \<le> length data \<Longrightarrow> seg_perm first (first + hi) data (siftDown_nat Less data root hi first)"
proof (induction data root rule: siftDown_induct [where hi = hi and first = first and Less = Less])
  case (step data root)
  let ?c = "max_child Less data root hi first"
  show ?case
  proof (cases "hi \<le> 2 * root + 1 \<or> \<not> Less (data ! (first + root)) (data ! (first + ?c))")
    case False
    then have "seg_perm first (first + hi) data (Swap data (first + root) (first + ?c))"
      using step.prems max_child_bounds [of hi root Less data first] by (intro seg_perm_Swap) auto
    moreover have "seg_perm first (first + hi) (Swap data (first + root) (first + ?c))
        (siftDown_nat Less (Swap data (first + root) (first + ?c)) ?c hi first)"
      using False step by simp
    ultimately show ?thesis using False siftDown_step [of Less data root hi first] by (metis seg_perm_trans)
  qed (use siftDown_step [of Less data root hi first] in simp)
qed

lemma seg_perm_heap_build:
  "first + hi \<le> length data \<Longrightarrow> seg_perm first (first + hi) data (heap_build_nat Less data hi first k)"
proof (induction k arbitrary: data)
  case (Suc k)
  note p = seg_perm_siftDown [OF Suc.prems, of Less "Suc k"]
  show ?case using Suc.IH [of "siftDown_nat Less data (Suc k) hi first"] p Suc.prems
    by (auto simp: seg_perm_length [OF p] intro: seg_perm_trans)
qed (simp add: seg_perm_siftDown)

lemma seg_perm_heap_pop:
  "first + k \<le> length data \<Longrightarrow> seg_perm first (first + k) data (heap_pop_nat Less data first k)"
proof (induction k arbitrary: data)
  case (Suc k)
  let ?d = "siftDown_nat Less (Swap data first (first + k)) 0 k first"
  have 1: "seg_perm first (first + Suc k) data (Swap data first (first + k))"
    using Suc.prems by (intro seg_perm_Swap) auto
  have 2: "seg_perm first (first + k) (Swap data first (first + k)) ?d"
    using Suc.prems by (intro seg_perm_siftDown) simp
  have "seg_perm first (first + k) ?d (heap_pop_nat Less ?d first k)"
    using Suc.prems seg_perm_length [OF 2] by (intro Suc.IH) simp
  with 2 have "seg_perm first (first + Suc k) (Swap data first (first + k)) (heap_pop_nat Less ?d first k)"
    by (auto intro: seg_perm_mono seg_perm_trans)
  with 1 show ?case by (auto intro: seg_perm_trans)
qed simp

lemma seg_perm_heapSort:
  "a \<le> b \<Longrightarrow> b \<le> length data \<Longrightarrow> seg_perm a b data (heapSort_nat Less data a b)"
  using seg_perm_heap_build [of a "b - a" data Less "(b - a - 1) div 2"]
    seg_perm_heap_pop [of a "b - a" "heap_build_nat Less data (b - a) a ((b - a - 1) div 2)" Less]
  by (auto simp: heapSort_nat_def Let_def seg_perm_length intro: seg_perm_trans)

lemma seg_perm_medianOfThree:
  assumes "lo \<le> a" "a < hi" "lo \<le> b" "b < hi" "lo \<le> c" "c < hi" "hi \<le> length data"
  shows "seg_perm lo hi data (medianOfThree_nat Less data a b c)"
proof -
  have s: "seg_perm lo hi xs (if P then Swap xs i j else xs)"
    if "lo \<le> i" "i < hi" "lo \<le> j" "j < hi" "length xs = length data" for xs :: "'a list" and P i j
    using that assms(7) by (auto intro: seg_perm_Swap)
  show ?thesis
    unfolding medianOfThree_nat_def Let_def
    by (rule seg_perm_trans [OF s seg_perm_trans [OF s s]]) (use assms in \<open>auto simp: seg_perm_length\<close>)
qed

lemma seg_perm_choosePivot:
  assumes "lo + 7 < hi" "hi \<le> length data"
  shows "seg_perm lo hi data (choosePivot_nat Less data lo hi)"
proof -
  have m: "seg_perm lo hi xs (medianOfThree_nat Less xs a b c)"
    if "lo \<le> a" "a < hi" "lo \<le> b" "b < hi" "lo \<le> c" "c < hi" "length xs = length data" for xs a b c
    using that assms(2) by (intro seg_perm_medianOfThree) auto
  define h where "h = (hi - lo) div 2"
  define s where "s = (hi - lo) div 8"
  let ?m = "lo + h"
  let ?d1 = "medianOfThree_nat Less data lo (lo + s) (lo + 2 * s)"
  let ?d2 = "medianOfThree_nat Less ?d1 ?m (?m - s) (?m + s)"
  let ?d3 = "medianOfThree_nat Less ?d2 (hi - 1) (hi - 1 - s) (hi - 1 - 2 * s)"
  have "8 * (x div 8) \<le> x" "x \<le> 2 * (x div 2) + 1" "2 * (x div 2) \<le> x" for x :: nat by linarith+
  from this [of "hi - lo"] have n: "8 * s \<le> hi - lo" "hi - lo \<le> 2 * h + 1" "2 * h \<le> hi - lo"
    unfolding h_def s_def .
  have 1: "seg_perm lo hi data ?d1" using assms(1) n by (intro m) linarith+
  have 2: "seg_perm lo hi ?d1 ?d2" using assms(1) n seg_perm_length [OF 1] by (intro m) linarith+
  have 3: "seg_perm lo hi ?d2 ?d3" using assms(1) n seg_perm_length [OF 1] seg_perm_length [OF 2]
    by (intro m) linarith+
  have p: "seg_perm lo hi data (if hi - lo > 40 then ?d3 else data)"
    using seg_perm_trans [OF seg_perm_trans [OF 1 2] 3] by simp
  moreover have "seg_perm lo hi (if hi - lo > 40 then ?d3 else data)
     (medianOfThree_nat Less (if hi - lo > 40 then ?d3 else data) lo ?m (hi - 1))"
    using assms(1) n seg_perm_length [OF p] by (intro m) linarith+
  ultimately show ?thesis
    unfolding choosePivot_nat_def Let_def h_def [symmetric] s_def [symmetric] by (rule seg_perm_trans)
qed

lemma seg_perm_swapRange:
  "lo \<le> a \<Longrightarrow> lo \<le> b \<Longrightarrow> a + n \<le> hi \<Longrightarrow> b + n \<le> hi \<Longrightarrow> hi \<le> length data \<Longrightarrow> seg_perm lo hi data (swapRange_nat data a b n)"
proof (induction n)
  case (Suc n)
  then have p: "seg_perm lo hi data (swapRange_nat data a b n)" by simp
  have "seg_perm lo hi (swapRange_nat data a b n) (Swap (swapRange_nat data a b n) (a + n) (b + n))"
    using Suc.prems seg_perm_length [OF p] by (intro seg_perm_Swap) auto
  with p show ?case by (auto intro: seg_perm_trans)
qed simp

lemma pivot_up_perm:
  assumes "pivot_up_nat Less pivot data a b c = (data', a', b')" "lo \<le> a" "a \<le> b" "b \<le> c \<or> b \<le> hi" "c \<le> hi" "hi \<le> length data"
  shows "seg_perm lo hi data data' \<and> a \<le> a' \<and> a' \<le> b' \<and> b \<le> b' \<and> (b \<le> c \<longrightarrow> b' \<le> c) \<and> (c \<le> b \<longrightarrow> b' = b)"
  using assms
proof (induction Less pivot data a b c arbitrary: data' a' b' rule: pivot_up_nat.induct)
  case (1 Less pivot data a b c)
  show ?case
  proof (cases "b < c")
    case False then show ?thesis using "1.prems" by (simp add: pivot_up_nat.simps)
  next
    case True
    have sw: "seg_perm lo hi data (Swap data a b)" using "1.prems" True by (intro seg_perm_Swap) auto
    consider "Less (data ! b) (data ! pivot)" | "\<not> Less (data ! b) (data ! pivot)" "\<not> Less (data ! pivot) (data ! b)"
      | "\<not> Less (data ! b) (data ! pivot)" "Less (data ! pivot) (data ! b)" by blast
    then show ?thesis
    proof cases
      case 1
      then show ?thesis using "1.IH"(1) [OF True 1, of data' a' b'] "1.prems" True pivot_up_nat.simps [of Less pivot data a b c] by simp
    next
      case 2
      then show ?thesis
        using "1.IH"(2) [OF True 2, of data' a' b'] "1.prems" True pivot_up_nat.simps [of Less pivot data a b c]
          seg_perm_trans [OF sw, of data'] by simp
    next
      case 3 then show ?thesis using "1.prems" True pivot_up_nat.simps [of Less pivot data a b c] by simp
    qed
  qed
qed

lemma pivot_down_perm:
  assumes "pivot_down_nat Less pivot data b c d = (data', c', d')" "lo \<le> b" "c \<le> d" "d \<le> hi" "hi \<le> length data"
  shows "seg_perm lo hi data data' \<and> c' \<le> c \<and> c' \<le> d' \<and> d' \<le> d \<and> (b \<le> c \<longrightarrow> b \<le> c') \<and> (c \<le> b \<longrightarrow> c' = c)"
  using assms
proof (induction Less pivot data b c d arbitrary: data' c' d' rule: pivot_down_nat.induct)
  case (1 Less pivot data b c d)
  show ?case
  proof (cases "b < c")
    case False then show ?thesis using "1.prems" by (simp add: pivot_down_nat.simps)
  next
    case True
    have sw: "seg_perm lo hi data (Swap data (c - 1) (d - 1))" using "1.prems" True by (intro seg_perm_Swap) auto
    consider "Less (data ! pivot) (data ! (c - 1))"
      | "\<not> Less (data ! pivot) (data ! (c - 1))" "\<not> Less (data ! (c - 1)) (data ! pivot)"
      | "\<not> Less (data ! pivot) (data ! (c - 1))" "Less (data ! (c - 1)) (data ! pivot)" by blast
    then show ?thesis
    proof cases
      case 1
      then have "seg_perm lo hi data data' \<and> c' \<le> c - 1 \<and> c' \<le> d' \<and> d' \<le> d \<and> (b \<le> c - 1 \<longrightarrow> b \<le> c') \<and> (c - 1 \<le> b \<longrightarrow> c' = c - 1)"
        using "1.prems" True pivot_down_nat.simps [of Less pivot data b c d] by (intro "1.IH"(1) [OF True 1]) auto
      then show ?thesis using True by auto
    next
      case 2
      then have "seg_perm lo hi (Swap data (c - 1) (d - 1)) data' \<and> c' \<le> c - 1 \<and> c' \<le> d' \<and> d' \<le> d - 1
          \<and> (b \<le> c - 1 \<longrightarrow> b \<le> c') \<and> (c - 1 \<le> b \<longrightarrow> c' = c - 1)"
        using "1.prems" True pivot_down_nat.simps [of Less pivot data b c d] by (intro "1.IH"(2) [OF True 2]) auto
      then show ?thesis using True seg_perm_trans [OF sw, of data'] by auto
    next
      case 3 then show ?thesis using "1.prems" True pivot_down_nat.simps [of Less pivot data b c d] by simp
    qed
  qed
qed

lemma pivot_loop_perm:
  assumes "pivot_loop_nat Less pivot data a b c d = (data', a', b', c', d')"
    "lo \<le> a" "a \<le> b" "b \<le> hi" "b \<le> c + 1" "c \<le> d" "d \<le> hi" "hi \<le> length data"
  shows "seg_perm lo hi data data' \<and> lo \<le> a' \<and> a' \<le> b' \<and> b' \<le> hi \<and> b' \<le> c' + 1 \<and> c' \<le> d' \<and> d' \<le> hi"
  using assms
proof (induction Less pivot data a b c d arbitrary: data' a' b' c' d' rule: pivot_loop_nat.induct)
  case (1 Less pivot data a b c d)
  obtain data1 a1 b1 where u: "pivot_up_nat Less pivot data a b c = (data1, a1, b1)" by (metis prod_cases3)
  obtain data2 c1 d1 where w: "pivot_down_nat Less pivot data1 b1 c d = (data2, c1, d1)" by (metis prod_cases3)
  have pu: "seg_perm lo hi data data1 \<and> a \<le> a1 \<and> a1 \<le> b1 \<and> b \<le> b1 \<and> (b \<le> c \<longrightarrow> b1 \<le> c) \<and> (c \<le> b \<longrightarrow> b1 = b)"
    using "1.prems" by (intro pivot_up_perm [OF u]) auto
  have pd: "seg_perm lo hi data1 data2 \<and> c1 \<le> c \<and> c1 \<le> d1 \<and> d1 \<le> d \<and> (b1 \<le> c \<longrightarrow> b1 \<le> c1) \<and> (c \<le> b1 \<longrightarrow> c1 = c)"
    using "1.prems" pu seg_perm_length [OF pu [THEN conjunct1]] by (intro pivot_down_perm [OF w]) linarith+
  have p2: "seg_perm lo hi data data2" by (rule seg_perm_trans [OF pu [THEN conjunct1] pd [THEN conjunct1]])
  have e: "pivot_loop_nat Less pivot data a b c d = (if b1 \<ge> c1 then (data2, a1, b1, c1, d1)
      else pivot_loop_nat Less pivot (Swap data2 b1 (c1 - 1)) a1 (b1 + 1) (c1 - 1) d1)"
    by (subst pivot_loop_nat.simps) (simp add: u w)
  show ?case
  proof (cases "b1 \<ge> c1")
    case True
    then show ?thesis using "1.prems" e pu pd p2 by auto
  next
    case False
    have sw: "seg_perm lo hi data (Swap data2 b1 (c1 - 1))"
      using False "1.prems" pu pd seg_perm_length [OF p2]
      by (intro seg_perm_trans [OF p2] seg_perm_Swap) linarith+
    have "seg_perm lo hi (Swap data2 b1 (c1 - 1)) data' \<and> lo \<le> a' \<and> a' \<le> b' \<and> b' \<le> hi \<and> b' \<le> c' + 1 \<and> c' \<le> d' \<and> d' \<le> hi"
      using False "1.prems" e pu pd seg_perm_length [OF p2]
      by (intro "1.IH" [OF u [symmetric] refl w [symmetric] refl False]) auto
    then show ?thesis using seg_perm_trans [OF sw] by blast
  qed
qed

lemma doPivot_perm:
  assumes "doPivot_nat Less data lo hi = (data', mlo, mhi)" "lo + 7 < hi" "hi \<le> length data"
  shows "seg_perm lo hi data data' \<and> lo \<le> mlo \<and> mlo \<le> hi \<and> lo \<le> mhi \<and> mhi \<le> hi"
proof -
  let ?d0 = "choosePivot_nat Less data lo hi"
  have p0: "seg_perm lo hi data ?d0" using assms by (intro seg_perm_choosePivot)
  obtain d1 a b c d where l: "pivot_loop_nat Less lo ?d0 (lo + 1) (lo + 1) hi hi = (d1, a, b, c, d)"
    by (metis prod_cases5)
  have pl: "seg_perm (lo + 1) hi ?d0 d1 \<and> lo + 1 \<le> a \<and> a \<le> b \<and> b \<le> hi \<and> b \<le> c + 1 \<and> c \<le> d \<and> d \<le> hi"
    using assms seg_perm_length [OF p0] by (intro pivot_loop_perm [OF l]) auto
  define n1 where "n1 = min (b - a) (a - lo)"
  define n2 where "n2 = min (hi - d) (d - c)"
  have n: "n1 + a \<le> b" "n1 + lo \<le> a" "n2 + d \<le> hi" "n2 + c \<le> d"
    using pl by (auto simp: n1_def n2_def)
  let ?d2 = "swapRange_nat d1 lo (b - n1) n1"
  have "seg_perm lo hi ?d0 d1" by (rule seg_perm_mono [OF pl [THEN conjunct1]]) auto
  with p0 have p1: "seg_perm lo hi data d1" by (rule seg_perm_trans)
  have p2: "seg_perm lo hi d1 ?d2"
    using pl n assms(3) seg_perm_length [OF p1] by (intro seg_perm_swapRange) linarith+
  have p3: "seg_perm lo hi ?d2 (swapRange_nat ?d2 c (hi - n2) n2)"
    using pl n assms(3) seg_perm_length [OF p1] seg_perm_length [OF p2] by (intro seg_perm_swapRange) linarith+
  have e: "data' = swapRange_nat ?d2 c (hi - n2) n2" "mlo = lo + b - a" "mhi = hi - (d - c)"
    using assms(1) l by (auto simp: doPivot_nat_def Let_def n1_def n2_def)
  have "seg_perm lo hi data data'" unfolding e by (rule seg_perm_trans [OF seg_perm_trans [OF p1 p2] p3])
  then show ?thesis using e(2,3) pl by auto
qed

lemma seg_perm_quickSort:
  "a \<le> b \<Longrightarrow> b \<le> length data \<Longrightarrow> seg_perm a b data (quickSort_nat Less data a b k)"
proof (induction k arbitrary: data a b)
  case 0
  then show ?case by (subst quickSort_nat.simps) (auto simp: seg_perm_heapSort seg_perm_insertionSort)
next
  case (Suc k)
  show ?case
  proof (cases "b - a > 7")
    case False
    then show ?thesis using Suc.prems by (subst quickSort_nat.simps) (auto simp: seg_perm_insertionSort)
  next
    case True
    obtain d mlo mhi where dp: "doPivot_nat Less data a b = (d, mlo, mhi)" by (metis prod_cases3)
    have p: "seg_perm a b data d" "a \<le> mlo" "mlo \<le> b" "a \<le> mhi" "mhi \<le> b"
      using doPivot_perm [OF dp] True Suc.prems by auto
    have q: "seg_perm a b xs (quickSort_nat Less xs a mlo k)" "seg_perm a b xs (quickSort_nat Less xs mhi b k)"
      if "length xs = length data" for xs
      using Suc.IH [of a mlo xs] Suc.IH [of mhi b xs] p that Suc.prems by (auto intro: seg_perm_mono)
    have "seg_perm a b d (quickSort_nat Less (quickSort_nat Less d a mlo k) mhi b k)"
      "seg_perm a b d (quickSort_nat Less (quickSort_nat Less d mhi b k) a mlo k)"
      using q seg_perm_length [OF p(1)] by (metis seg_perm_trans seg_perm_length)+
    then show ?thesis using True dp p(1) by (subst quickSort_nat.simps) (auto intro: seg_perm_trans)
  qed
qed

section \<open>Sortedness\<close>

definition sorted_seg :: "('a \<Rightarrow> 'a \<Rightarrow> bool) \<Rightarrow> nat \<Rightarrow> nat \<Rightarrow> 'a list \<Rightarrow> bool" where
  "sorted_seg Less a b xs \<longleftrightarrow> (\<forall>p q. a \<le> p \<longrightarrow> p < q \<longrightarrow> q < b \<longrightarrow> \<not> Less (xs ! q) (xs ! p))"

lemma sorted_segD: "sorted_seg Less a b xs \<Longrightarrow> a \<le> p \<Longrightarrow> p < q \<Longrightarrow> q < b \<Longrightarrow> \<not> Less (xs ! q) (xs ! p)"
  by (simp add: sorted_seg_def)

lemma sorted_seg_cong:
  "sorted_seg Less a b xs \<Longrightarrow> (\<And>i. a \<le> i \<Longrightarrow> i < b \<Longrightarrow> ys ! i = xs ! i) \<Longrightarrow> sorted_seg Less a b ys"
  by (auto simp: sorted_seg_def)

text \<open>The heap property from node \<open>k\<close> on, and the property with one exception at \<open>root\<close>.\<close>

definition heap_from :: "('a \<Rightarrow> 'a \<Rightarrow> bool) \<Rightarrow> nat \<Rightarrow> nat \<Rightarrow> nat \<Rightarrow> 'a list \<Rightarrow> bool" where
  "heap_from Less first k hi xs \<longleftrightarrow>
    (\<forall>i. 0 < i \<longrightarrow> i < hi \<longrightarrow> k \<le> (i - 1) div 2 \<longrightarrow> \<not> Less (xs ! (first + (i - 1) div 2)) (xs ! (first + i)))"

definition heap_except :: "('a \<Rightarrow> 'a \<Rightarrow> bool) \<Rightarrow> nat \<Rightarrow> nat \<Rightarrow> nat \<Rightarrow> nat \<Rightarrow> 'a list \<Rightarrow> bool" where
  "heap_except Less first k root hi xs \<longleftrightarrow>
    (\<forall>i. 0 < i \<longrightarrow> i < hi \<longrightarrow> k \<le> (i - 1) div 2 \<longrightarrow> (i - 1) div 2 \<noteq> root
       \<longrightarrow> \<not> Less (xs ! (first + (i - 1) div 2)) (xs ! (first + i)))
    \<and> (\<forall>i. 0 < i \<longrightarrow> i < hi \<longrightarrow> (i - 1) div 2 = root \<longrightarrow> 0 < root \<longrightarrow> k \<le> (root - 1) div 2
       \<longrightarrow> \<not> Less (xs ! (first + (root - 1) div 2)) (xs ! (first + i)))"

text \<open>The same without the edge from \<open>root\<close> to its own parent: \<open>root\<close> holds an arbitrary element.\<close>

definition heap_hole :: "('a \<Rightarrow> 'a \<Rightarrow> bool) \<Rightarrow> nat \<Rightarrow> nat \<Rightarrow> nat \<Rightarrow> nat \<Rightarrow> 'a list \<Rightarrow> bool" where
  "heap_hole Less first k root hi xs \<longleftrightarrow>
    (\<forall>i. 0 < i \<longrightarrow> i < hi \<longrightarrow> k \<le> (i - 1) div 2 \<longrightarrow> (i - 1) div 2 \<noteq> root \<longrightarrow> i \<noteq> root
       \<longrightarrow> \<not> Less (xs ! (first + (i - 1) div 2)) (xs ! (first + i)))
    \<and> (\<forall>i. 0 < i \<longrightarrow> i < hi \<longrightarrow> (i - 1) div 2 = root \<longrightarrow> 0 < root \<longrightarrow> k \<le> (root - 1) div 2
       \<longrightarrow> \<not> Less (xs ! (first + (root - 1) div 2)) (xs ! (first + i)))"

lemma heap_except_hole: "heap_except Less first k root hi xs \<Longrightarrow> heap_hole Less first k root hi xs"
  by (auto simp: heap_except_def heap_hole_def)

text \<open>The pivot loop's invariant: the four zones around the unexamined part.\<close>

definition zones :: "('a \<Rightarrow> 'a \<Rightarrow> bool) \<Rightarrow> 'a \<Rightarrow> nat \<Rightarrow> nat \<Rightarrow> nat \<Rightarrow> nat \<Rightarrow> nat \<Rightarrow> nat \<Rightarrow> 'a list \<Rightarrow> bool" where
  "zones Less pv lo hi a b c d xs \<longleftrightarrow>
    lo < a \<and> a \<le> b \<and> b \<le> c \<and> c \<le> d \<and> d \<le> hi \<and> hi \<le> length xs \<and> xs ! lo = pv
    \<and> (\<forall>i. lo \<le> i \<longrightarrow> i < a \<longrightarrow> \<not> Less (xs ! i) pv \<and> \<not> Less pv (xs ! i))
    \<and> (\<forall>i. a \<le> i \<longrightarrow> i < b \<longrightarrow> Less (xs ! i) pv)
    \<and> (\<forall>i. c \<le> i \<longrightarrow> i < d \<longrightarrow> Less pv (xs ! i))
    \<and> (\<forall>i. d \<le> i \<longrightarrow> i < hi \<longrightarrow> \<not> Less (xs ! i) pv \<and> \<not> Less pv (xs ! i))"

text \<open>The contract of \<open>Less\<close>, and what the routines make of it.\<close>

locale strict_weak =
  fixes Less :: "'a \<Rightarrow> 'a \<Rightarrow> bool"
  assumes irrefl: "\<not> Less x x"
    and trans: "Less x y \<Longrightarrow> Less y z \<Longrightarrow> Less x z"
    and negtrans: "Less x z \<Longrightarrow> Less x y \<or> Less y z"
begin

lemma asym: "Less x y \<Longrightarrow> \<not> Less y x"
  using irrefl trans by blast

lemma le_trans: "\<not> Less y x \<Longrightarrow> \<not> Less z y \<Longrightarrow> \<not> Less z x"
  using negtrans by blast

lemma less_le_trans: "Less x y \<Longrightarrow> \<not> Less z y \<Longrightarrow> Less x z"
  using negtrans by blast

lemma le_less_trans: "\<not> Less y x \<Longrightarrow> Less y z \<Longrightarrow> Less x z"
  using negtrans by blast

lemma insert_loop_sorted:
  assumes "a \<le> j" "j \<le> i" "i < length data"
    and "\<And>p q. a \<le> p \<Longrightarrow> p < q \<Longrightarrow> q \<le> i \<Longrightarrow> p \<noteq> j \<Longrightarrow> q \<noteq> j \<Longrightarrow> \<not> Less (data ! q) (data ! p)"
    and "\<And>q. j < q \<Longrightarrow> q \<le> i \<Longrightarrow> \<not> Less (data ! q) (data ! j)"
  shows "sorted_seg Less a (i + 1) (insert_loop_nat Less a data j)"
  using assms
proof (induction j arbitrary: data)
  case 0
  have "\<not> Less (data ! q) (data ! p)" if "p < q" "q \<le> i" for p q
    using "0.prems"(4) [of p q] "0.prems"(1,5) that by (cases "p = 0") auto
  then show ?case by (subst insert_loop_nat.simps) (auto simp: sorted_seg_def)
next
  case (Suc j)
  show ?case
  proof (cases "Suc j > a \<and> Less (data ! Suc j) (data ! j)")
    case True
    let ?d = "Swap data (Suc j) j"
    have n: "?d ! k = (if k = Suc j then data ! j else if k = j then data ! Suc j else data ! k)" for k
      using Suc.prems by (intro nth_Swap) auto
    have "sorted_seg Less a (i + 1) (insert_loop_nat Less a ?d j)"
    proof (rule Suc.IH)
      fix p q assume "a \<le> p" "p < q" "q \<le> i" "p \<noteq> j" "q \<noteq> j"
      then show "\<not> Less (?d ! q) (?d ! p)"
        using Suc.prems(4) [of p j] Suc.prems(4) [of j q] Suc.prems(4) [of p q] True Suc.prems(2) by (auto simp: n)
    next
      fix q assume "j < q" "q \<le> i"
      then show "\<not> Less (?d ! q) (?d ! j)" using Suc.prems(5) [of q] True asym by (auto simp: n)
    qed (use Suc.prems True in auto)
    then show ?thesis using True by (subst insert_loop_nat.simps) simp
  next
    case False
    have "\<not> Less (data ! q) (data ! p)" if pq: "a \<le> p" "p < q" "q \<le> i" for p q
    proof (cases "q = Suc j")
      case True
      then have "\<not> Less (data ! Suc j) (data ! j)" using False pq by auto
      moreover have "p = j \<or> \<not> Less (data ! j) (data ! p)"
        using Suc.prems(4) [of p j] pq True Suc.prems(2) by auto
      ultimately show ?thesis using True le_trans by blast
    next
      case nq: False
      then show ?thesis using Suc.prems(4) [of p q] Suc.prems(5) [of q] pq by (cases "p = Suc j") auto
    qed
    then show ?thesis using False by (subst insert_loop_nat.simps) (auto simp: sorted_seg_def)
  qed
qed

lemma insertionSort_loop_sorted:
  assumes "a < i" "b \<le> length data" "sorted_seg Less a i data" "i \<le> b"
  shows "sorted_seg Less a b (insertionSort_loop_nat Less a b data i)"
  using assms
proof (induction "b - i" arbitrary: data i)
  case 0
  then show ?case by (subst insertionSort_loop_nat.simps) simp
next
  case (Suc m)
  let ?d = "insert_loop_nat Less a data i"
  have i: "i < b" using Suc.hyps(2) by simp
  have p: "seg_perm a b data ?d" using Suc.prems i by (intro seg_perm_insert_loop) auto
  have "sorted_seg Less a (i + 1) ?d"
    using Suc.prems i by (intro insert_loop_sorted) (auto simp: sorted_seg_def)
  then have "sorted_seg Less a b (insertionSort_loop_nat Less a b ?d (i + 1))"
    using Suc.prems Suc.hyps(2) i seg_perm_length [OF p] by (intro Suc.hyps(1)) auto
  then show ?case using i by (subst insertionSort_loop_nat.simps) simp
qed

lemma insertionSort_sorted:
  "a \<le> b \<Longrightarrow> b \<le> length data \<Longrightarrow> sorted_seg Less a b (insertionSort_nat Less data a b)"
proof (cases "a < b")
  case True
  assume "b \<le> length data"
  then show ?thesis using True unfolding insertionSort_nat_def
    by (intro insertionSort_loop_sorted) (auto simp: sorted_seg_def)
qed (auto simp: sorted_seg_def)

lemma heap_except_done:
  assumes "heap_except Less first k root hi data"
    and "\<And>i. i = 2 * root + 1 \<or> i = 2 * root + 2 \<Longrightarrow> i < hi \<Longrightarrow> \<not> Less (data ! (first + root)) (data ! (first + i))"
  shows "heap_from Less first k hi data"
  unfolding heap_from_def
proof (intro allI impI)
  fix i assume i: "0 < i" "i < hi" "k \<le> (i - 1) div 2"
  show "\<not> Less (data ! (first + (i - 1) div 2)) (data ! (first + i))"
  proof (cases "(i - 1) div 2 = root")
    case True
    then have "i = 2 * root + 1 \<or> i = 2 * root + 2" using i(1) by auto
    then show ?thesis using assms(2) [of i] i(2) True by simp
  next
    case False then show ?thesis using assms(1) i by (auto simp: heap_except_def)
  qed
qed

lemma heap_hole_swap:
  assumes he: "heap_hole Less first k root hi data" and k: "k \<le> root" and len: "first + hi \<le> length data"
    and c: "c = 2 * root + 1 \<or> c = 2 * root + 2" "c < hi" and lt: "Less (data ! (first + root)) (data ! (first + c))"
    and cmax: "\<And>i. i = 2 * root + 1 \<or> i = 2 * root + 2 \<Longrightarrow> i < hi \<Longrightarrow> \<not> Less (data ! (first + c)) (data ! (first + i))"
  shows "heap_except Less first k c hi (Swap data (first + root) (first + c))" (is "heap_except _ _ _ _ _ ?d")
  unfolding heap_except_def
proof (intro conjI allI impI)
  have pc: "(c - 1) div 2 = root" "root < c" using c by auto
  have n: "?d ! (first + j) = (if j = root then data ! (first + c) else if j = c then data ! (first + root) else data ! (first + j))" for j
    using len c pc by (subst nth_Swap) auto
  fix i assume i: "0 < i" "i < hi"
  show "\<not> Less (?d ! (first + (i - 1) div 2)) (?d ! (first + i))" if "k \<le> (i - 1) div 2" "(i - 1) div 2 \<noteq> c"
  proof (cases "(i - 1) div 2 = root")
    case pr: True
    then have i12: "i = 2 * root + 1 \<or> i = 2 * root + 2" using i(1) by auto
    show ?thesis
    proof (cases "i = c")
      case True
      then show ?thesis using pr pc lt asym by (simp add: n)
    next
      case False
      then show ?thesis using pr cmax [OF i12 i(2)] i12 pc by (auto simp: n)
    qed
  next
    case npr: False
    have nc: "i \<noteq> c" using npr pc by auto
    show ?thesis
    proof (cases "i = root")
      case True
      then have "\<not> Less (data ! (first + (root - 1) div 2)) (data ! (first + c))"
        using he i c pc that by (auto simp: heap_hole_def)
      then show ?thesis using True npr that by (simp add: n)
    next
      case False
      then have "\<not> Less (data ! (first + (i - 1) div 2)) (data ! (first + i))"
        using he i npr that by (auto simp: heap_hole_def)
      then show ?thesis using False nc npr that by (simp add: n)
    qed
  qed
  show "\<not> Less (?d ! (first + (c - 1) div 2)) (?d ! (first + i))" if "(i - 1) div 2 = c" "0 < c" "k \<le> (c - 1) div 2"
  proof -
    have ci: "c < i" using i(1) that by auto
    then have "\<not> Less (data ! (first + c)) (data ! (first + i))"
      using he [unfolded heap_hole_def, THEN conjunct1, rule_format, of i] k i that pc ci by simp
    then show ?thesis using pc ci by (simp add: n)
  qed
qed

lemma siftDown_heap:
  assumes "heap_except Less first k root hi data" "k \<le> root" "first + hi \<le> length data"
  shows "heap_from Less first k hi (siftDown_nat Less data root hi first)"
  using assms
proof (induction data root rule: siftDown_induct [where hi = hi and first = first and Less = Less])
  case (step data root)
  let ?c = "max_child Less data root hi first"
  let ?d = "Swap data (first + root) (first + ?c)"
  show ?case
  proof (cases "hi \<le> 2 * root + 1")
    case True
    then have "heap_from Less first k hi data" by (intro heap_except_done [OF step.prems(1)]) auto
    then show ?thesis using True siftDown_step [of Less data root hi first] by simp
  next
    case in_range: False
    have c: "?c = 2 * root + 1 \<or> ?c = 2 * root + 2" "?c < hi" "root < ?c"
      using in_range by (auto simp: max_child_def)
    have cmax: "\<not> Less (data ! (first + ?c)) (data ! (first + i))" if "i = 2 * root + 1 \<or> i = 2 * root + 2" "i < hi" for i
      using that in_range asym irrefl by (auto simp: max_child_def)
    show ?thesis
    proof (cases "Less (data ! (first + root)) (data ! (first + ?c))")
      case False
      then have "heap_from Less first k hi data"
        using cmax le_less_trans by (intro heap_except_done [OF step.prems(1)]) blast
      then show ?thesis using False siftDown_step [of Less data root hi first] by simp
    next
      case True
      have "heap_except Less first k ?c hi ?d"
        using step.prems(2,3) c(1,2) True cmax by (rule heap_hole_swap [OF heap_except_hole [OF step.prems(1)]])
      then have "heap_from Less first k hi (siftDown_nat Less ?d ?c hi first)"
        using step.prems c by (intro step.IH [OF in_range True]) auto
      then show ?thesis using True in_range siftDown_step [of Less data root hi first] by simp
    qed
  qed
qed

end

lemma heap_except_of_from: "heap_from Less first (k + 1) hi xs \<Longrightarrow> heap_except Less first k k hi xs"
  by (auto simp: heap_from_def heap_except_def)

lemma swapRange_nth:
  assumes "a + n \<le> b" "b + n \<le> length xs"
  shows "swapRange_nat xs a b n ! i =
    (if a \<le> i \<and> i < a + n then xs ! (b + (i - a)) else if b \<le> i \<and> i < b + n then xs ! (a + (i - b)) else xs ! i)"
  using assms
proof (induction n arbitrary: i)
  case (Suc n)
  have l: "length (swapRange_nat xs a b n) = length xs"
    using seg_perm_length [OF seg_perm_swapRange [of 0 a b n "length xs" xs]] Suc.prems by simp
  show ?case using Suc by (auto simp: nth_Swap l)
qed auto

lemma length_swapRange [simp]: "length (swapRange_nat xs a b n) = length xs"
  by (induction n) simp_all

context strict_weak
begin

lemma heap_build_heap:
  assumes "heap_from Less first (k + 1) hi data" "first + hi \<le> length data"
  shows "heap_from Less first 0 hi (heap_build_nat Less data hi first k)"
  using assms
proof (induction k arbitrary: data)
  case 0
  then show ?case using siftDown_heap [OF heap_except_of_from, of first 0 hi data] by simp
next
  case (Suc k)
  have "heap_from Less first (Suc k) hi (siftDown_nat Less data (Suc k) hi first)"
    using Suc.prems siftDown_heap [OF heap_except_of_from, of first "Suc k" hi data] by simp
  then show ?case
    using Suc seg_perm_length [OF seg_perm_siftDown [OF Suc.prems(2), of Less "Suc k"]] by simp
qed

lemma heap_max:
  assumes "heap_from Less first 0 n xs" "i < n"
  shows "\<not> Less (xs ! first) (xs ! (first + i))"
  using assms(2)
proof (induction i rule: less_induct)
  case (less i)
  show ?case
  proof (cases "i = 0")
    case False
    then have "\<not> Less (xs ! first) (xs ! (first + (i - 1) div 2))" using less by (intro less.IH) auto
    moreover have "\<not> Less (xs ! (first + (i - 1) div 2)) (xs ! (first + i))"
      using assms(1) False less.prems by (simp add: heap_from_def)
    ultimately show ?thesis using le_trans by blast
  qed (simp add: irrefl)
qed

lemma heap_pop_sorted:
  assumes "heap_from Less first 0 k data" "first + hi \<le> length data" "k \<le> hi"
    and "sorted_seg Less (first + k) (first + hi) data"
    and "\<And>i j. i < k \<Longrightarrow> k \<le> j \<Longrightarrow> j < hi \<Longrightarrow> \<not> Less (data ! (first + j)) (data ! (first + i))"
  shows "sorted_seg Less first (first + hi) (heap_pop_nat Less data first k)"
  using assms
proof (induction k arbitrary: data)
  case 0
  then show ?case by simp
next
  case (Suc k)
  let ?s = "Swap data first (first + k)"
  let ?d = "siftDown_nat Less ?s 0 k first"
  have len: "first + k < length data" using Suc.prems by simp
  have n: "?s ! i = (if i = first then data ! (first + k) else if i = first + k then data ! first else data ! i)" for i
    using len by (intro nth_Swap) auto
  have p: "seg_perm first (first + k) ?s ?d" using len by (intro seg_perm_siftDown) simp
  have out: "?d ! i = ?s ! i" if "first + k \<le> i" for i
    using p that by (simp add: seg_perm_outside)
  have max: "\<not> Less (data ! first) (data ! (first + i))" if "i < Suc k" for i
    using heap_max [OF Suc.prems(1) that] .
  have "heap_except Less first 0 0 k ?s"
  proof (rule heap_except_of_from, unfold heap_from_def, intro allI impI)
    fix i assume i: "0 < i" "i < k" "0 + 1 \<le> (i - 1) div 2"
    then have "(i - 1) div 2 < k" by auto
    then show "\<not> Less (?s ! (first + (i - 1) div 2)) (?s ! (first + i))"
      using Suc.prems(1) i by (auto simp: n heap_from_def)
  qed
  then have "heap_from Less first 0 k ?d" using len by (intro siftDown_heap) auto
  moreover have "\<not> Less (?d ! (first + j)) (?d ! (first + i))" if "i < k" "k \<le> j" "j < hi" for i j
  proof (rule seg_perm_all [OF p, where P = "\<lambda>x. \<not> Less (?d ! (first + j)) x"])
    fix l assume l: "first \<le> l" "l < first + k"
    define m where "m = l - first"
    have m: "l = first + m" "m < k" using l by (auto simp: m_def)
    show "\<not> Less (?d ! (first + j)) (?s ! l)"
    proof (cases "j = k")
      case True
      then show ?thesis using m max [of k] max [of m] that by (auto simp: out n)
    next
      case False
      then show ?thesis using m Suc.prems(5) [of k j] Suc.prems(5) [of m j] that by (auto simp: out n)
    qed
  qed (use that len in auto)
  moreover have "sorted_seg Less (first + k) (first + hi) ?d"
    unfolding sorted_seg_def
  proof (intro allI impI)
    fix u v assume uv: "first + k \<le> u" "u < v" "v < first + hi"
    define u' where "u' = u - first"
    define v' where "v' = v - first"
    have e: "u = first + u'" "v = first + v'" "k \<le> u'" "u' < v'" "v' < hi" using uv by (auto simp: u'_def v'_def)
    show "\<not> Less (?d ! v) (?d ! u)"
    proof (cases "u' = k")
      case True
      then show ?thesis using e Suc.prems(5) [of 0 v'] by (auto simp: out n)
    next
      case False
      then show ?thesis using e sorted_segD [OF Suc.prems(4), of u v] by (auto simp: out n)
    qed
  qed
  ultimately show ?case
    using Suc.IH [of ?d] Suc.prems seg_perm_length [OF p] by simp
qed

lemma heapSort_sorted:
  assumes "a \<le> b" "b \<le> length data"
  shows "sorted_seg Less a b (heapSort_nat Less data a b)"
proof -
  let ?n = "b - a"
  let ?h = "heap_build_nat Less data ?n a ((?n - 1) div 2)"
  have "heap_from Less a ((?n - 1) div 2 + 1) ?n data"
  proof (unfold heap_from_def, intro allI impI)
    fix i assume "0 < i" "i < ?n" "(?n - 1) div 2 + 1 \<le> (i - 1) div 2"
    then show "\<not> Less (data ! (a + (i - 1) div 2)) (data ! (a + i))" by linarith
  qed
  then have "heap_from Less a 0 ?n ?h" using assms by (intro heap_build_heap) auto
  moreover have "length ?h = length data"
    using seg_perm_length [OF seg_perm_heap_build [of a ?n data]] assms by simp
  ultimately have "sorted_seg Less a (a + ?n) (heap_pop_nat Less ?h a ?n)"
    using assms by (intro heap_pop_sorted) (auto simp: sorted_seg_def)
  then show ?thesis using assms by (simp add: heapSort_nat_def Let_def)
qed

text \<open>The pivot loops.\<close>

lemma pivot_up_zones:
  assumes "zones Less pv lo hi a b c d data" "pivot_up_nat Less lo data a b c = (data', a', b')"
  shows "zones Less pv lo hi a' b' c d data' \<and> (b' < c \<longrightarrow> Less pv (data' ! b'))"
  using assms
proof (induction "c - b" arbitrary: data a b)
  case 0
  then show ?case using pivot_up_nat.simps [of Less lo data a b c] by (auto simp: zones_def)
next
  case (Suc m)
  have bc: "b < c" using Suc.hyps(2) by simp
  have z: "lo < a" "a \<le> b" "c \<le> d" "d \<le> hi" "hi \<le> length data" "data ! lo = pv"
    using Suc.prems(1) by (auto simp: zones_def)
  consider "Less (data ! b) pv" | "\<not> Less (data ! b) pv" "\<not> Less pv (data ! b)" | "\<not> Less (data ! b) pv" "Less pv (data ! b)"
    by blast
  then show ?case
  proof cases
    case 1
    then have "zones Less pv lo hi a (b + 1) c d data"
      using Suc.prems(1) bc by (auto simp: zones_def less_Suc_eq)
    then show ?thesis
      using Suc.hyps(1) [of "b + 1" a data] Suc.hyps(2) Suc.prems(2) 1 bc z pivot_up_nat.simps [of Less lo data a b c] by simp
  next
    case 2
    have n: "Swap data a b ! k = (if k = a then data ! b else if k = b then data ! a else data ! k)" for k
      using z bc by (intro nth_Swap) auto
    have "Less (data ! a) pv" if "a \<noteq> b" using Suc.prems(1) that z by (auto simp: zones_def)
    then have "zones Less pv lo hi (a + 1) (b + 1) c d (Swap data a b)"
      using Suc.prems(1) bc 2 z by (auto simp: zones_def less_Suc_eq n)
    then show ?thesis
      using Suc.hyps(1) [of "b + 1" "a + 1" "Swap data a b"] Suc.hyps(2) Suc.prems(2) 2 bc z
        pivot_up_nat.simps [of Less lo data a b c] by simp
  next
    case 3
    then show ?thesis using Suc.prems bc z pivot_up_nat.simps [of Less lo data a b c] by simp
  qed
qed

lemma pivot_down_zones:
  assumes "zones Less pv lo hi a b c d data" "pivot_down_nat Less lo data b c d = (data', c', d')"
  shows "zones Less pv lo hi a b c' d' data' \<and> (b < c' \<longrightarrow> Less (data' ! (c' - 1)) pv \<and> data' ! b = data ! b)"
  using assms
proof (induction "c - b" arbitrary: data c d)
  case 0
  then show ?case using pivot_down_nat.simps [of Less lo data b c d] by (auto simp: zones_def)
next
  case (Suc m)
  have bc: "b < c" using Suc.hyps(2) by simp
  have z: "lo < a" "a \<le> b" "c \<le> d" "d \<le> hi" "hi \<le> length data" "data ! lo = pv"
    using Suc.prems(1) by (auto simp: zones_def)
  consider "Less pv (data ! (c - 1))" | "\<not> Less (data ! (c - 1)) pv" "\<not> Less pv (data ! (c - 1))"
    | "Less (data ! (c - 1)) pv" "\<not> Less pv (data ! (c - 1))"
    by blast
  then show ?case
  proof cases
    case 1
    have "Less pv (data ! i)" if "c - 1 \<le> i" "i < d" for i
      using 1 Suc.prems(1) that by (cases "i = c - 1") (auto simp: zones_def)
    then have "zones Less pv lo hi a b (c - 1) d data"
      using Suc.prems(1) bc by (auto simp: zones_def)
    then show ?thesis
      using Suc.hyps(1) [of "c - 1" d data] Suc.hyps(2) Suc.prems(2) 1 bc z pivot_down_nat.simps [of Less lo data b c d] by simp
  next
    case 2
    let ?s = "Swap data (c - 1) (d - 1)"
    have n: "?s ! k = (if k = c - 1 then data ! (d - 1) else if k = d - 1 then data ! (c - 1) else data ! k)" for k
      using z bc by (intro nth_Swap) auto
    have 3: "Less pv (data ! (d - 1))" if "c \<noteq> d" using Suc.prems(1) that z bc by (auto simp: zones_def)
    have "Less pv (?s ! i)" if "c - 1 \<le> i" "i < d - 1" for i
      using 3 Suc.prems(1) that by (cases "i = c - 1") (auto simp: zones_def n [unfolded One_nat_def])
    moreover have "\<not> Less (?s ! i) pv \<and> \<not> Less pv (?s ! i)" if "d - 1 \<le> i" "i < hi" for i
      using 2 Suc.prems(1) that bc z by (cases "i = d - 1") (auto simp: zones_def n [unfolded One_nat_def])
    ultimately have "zones Less pv lo hi a b (c - 1) (d - 1) ?s"
      using Suc.prems(1) bc z by (auto simp: zones_def n [unfolded One_nat_def])
    moreover have "?s ! b = data ! b" if "b < c - 1" using that z by (simp add: n [unfolded One_nat_def])
    moreover have e: "pivot_down_nat Less lo ?s b (c - 1) (d - 1) = (data', c', d')"
      using Suc.prems(2) 2 bc z pivot_down_nat.simps [of Less lo data b c d] by simp
    moreover have "c' \<le> c - 1" using pivot_down_le [of Less lo ?s b "c - 1" "d - 1"] e by simp
    moreover have "m = c - 1 - b" using Suc.hyps(2) by simp
    ultimately show ?thesis using Suc.hyps(1) [of "c - 1" "d - 1" ?s] by auto
  next
    case 3
    then show ?thesis using Suc.prems bc z pivot_down_nat.simps [of Less lo data b c d] by simp
  qed
qed

lemma pivot_loop_zones:
  assumes "zones Less pv lo hi a b c d data" "pivot_loop_nat Less lo data a b c d = (data', a', b', c', d')"
  shows "zones Less pv lo hi a' b' c' d' data' \<and> b' = c'"
  using assms
proof (induction "c - b" arbitrary: data a b c d rule: less_induct)
  case less
  obtain data1 a1 b1 where u: "pivot_up_nat Less lo data a b c = (data1, a1, b1)" by (metis prod_cases3)
  obtain data2 c1 d1 where w: "pivot_down_nat Less lo data1 b1 c d = (data2, c1, d1)" by (metis prod_cases3)
  have zu: "zones Less pv lo hi a1 b1 c d data1" "b1 < c \<longrightarrow> Less pv (data1 ! b1)"
    using pivot_up_zones [OF less.prems(1) u] by auto
  have zd: "zones Less pv lo hi a1 b1 c1 d1 data2" "b1 < c1 \<longrightarrow> Less (data2 ! (c1 - 1)) pv \<and> data2 ! b1 = data1 ! b1"
    using pivot_down_zones [OF zu(1) w] by auto
  have le: "b \<le> b1" "c1 \<le> c"
    using pivot_up_le [of b Less lo data a c] pivot_down_le [of Less lo data1 b1 c d] u w by auto
  have e: "pivot_loop_nat Less lo data a b c d = (if b1 \<ge> c1 then (data2, a1, b1, c1, d1)
      else pivot_loop_nat Less lo (Swap data2 b1 (c1 - 1)) a1 (b1 + 1) (c1 - 1) d1)"
    by (subst pivot_loop_nat.simps) (simp add: u w)
  show ?case
  proof (cases "b1 \<ge> c1")
    case True
    then show ?thesis using less.prems(2) e zd by (auto simp: zones_def)
  next
    case False
    let ?s = "Swap data2 b1 (c1 - 1)"
    have g: "Less pv (data2 ! b1)" "Less (data2 ! (c1 - 1)) pv" using zu zd False le by auto
    then have ne: "b1 + 1 \<le> c1 - 1" using False asym by (cases "b1 = c1 - 1") auto
    have n: "?s ! k = (if k = b1 then data2 ! (c1 - 1) else if k = c1 - 1 then data2 ! b1 else data2 ! k)" for k
      using zd(1) False by (intro nth_Swap) (auto simp: zones_def)
    have "Less pv (?s ! i)" if "c1 - 1 \<le> i" "i < d1" for i
      using g zd(1) that ne by (cases "i = c1 - 1") (auto simp: zones_def n [unfolded One_nat_def])
    moreover have "Less (?s ! i) pv" if "a1 \<le> i" "i < b1 + 1" for i
      using g zd(1) that ne by (cases "i = b1") (auto simp: zones_def n [unfolded One_nat_def])
    ultimately have zs: "zones Less pv lo hi a1 (b1 + 1) (c1 - 1) d1 ?s"
      using zd(1) ne by (auto simp: zones_def n [unfolded One_nat_def])
    have lt: "c1 - 1 - (b1 + 1) < c - b" using False le by linarith
    have "pivot_loop_nat Less lo ?s a1 (b1 + 1) (c1 - 1) d1 = (data', a', b', c', d')"
      using less.prems(2) e False by simp
    then show ?thesis by (rule less.hyps [OF lt zs])
  qed
qed

text \<open>Moving the "equal" zones to the middle.\<close>

lemma doPivot_partitions:
  assumes dp: "doPivot_nat Less data lo hi = (data', mlo, mhi)" and lh: "lo + 7 < hi" "hi \<le> length data"
  shows "\<exists>pv. lo \<le> mlo \<and> mlo \<le> mhi \<and> mhi \<le> hi
    \<and> (\<forall>i. lo \<le> i \<longrightarrow> i < mlo \<longrightarrow> Less (data' ! i) pv)
    \<and> (\<forall>i. mlo \<le> i \<longrightarrow> i < mhi \<longrightarrow> \<not> Less (data' ! i) pv \<and> \<not> Less pv (data' ! i))
    \<and> (\<forall>i. mhi \<le> i \<longrightarrow> i < hi \<longrightarrow> Less pv (data' ! i))"
proof -
  let ?d0 = "choosePivot_nat Less data lo hi"
  obtain d1 a b c d where l: "pivot_loop_nat Less lo ?d0 (lo + 1) (lo + 1) hi hi = (d1, a, b, c, d)"
    by (metis prod_cases5)
  define pv where "pv = ?d0 ! lo"
  have "length ?d0 = length data" by (rule seg_perm_length [OF seg_perm_choosePivot [OF lh]])
  then have "zones Less pv lo hi (lo + 1) (lo + 1) hi hi ?d0"
    using lh irrefl by (auto simp: zones_def pv_def less_Suc_eq)
  from pivot_loop_zones [OF this l] have z: "zones Less pv lo hi a b b d d1" and bc: "c = b" by auto
  define n1 where "n1 = min (b - a) (a - lo)"
  define n2 where "n2 = min (hi - d) (d - b)"
  let ?d2 = "swapRange_nat d1 lo (b - n1) n1"
  let ?d3 = "swapRange_nat ?d2 b (hi - n2) n2"
  have o: "lo < a" "a \<le> b" "b \<le> d" "d \<le> hi" "hi \<le> length d1" using z by (auto simp: zones_def)
  have n: "n1 + a \<le> b" "n1 + lo \<le> a" "n2 + d \<le> hi" "n2 + b \<le> d" using o by (auto simp: n1_def n2_def)
  have n1': "n1 = b - a \<or> n1 = a - lo" and n2': "n2 = hi - d \<or> n2 = d - b" by (auto simp: n1_def n2_def)
  have e: "data' = ?d3" "mlo = lo + b - a" "mhi = hi - (d - b)"
    using dp l by (auto simp: doPivot_nat_def Let_def n1_def n2_def bc)
  have d2: "?d2 ! i = (if lo \<le> i \<and> i < lo + n1 then d1 ! (b - n1 + (i - lo))
      else if b - n1 \<le> i \<and> i < b - n1 + n1 then d1 ! (lo + (i - (b - n1))) else d1 ! i)" for i
    using o n by (intro swapRange_nth) linarith+
  have d3: "?d3 ! i = (if b \<le> i \<and> i < b + n2 then ?d2 ! (hi - n2 + (i - b))
      else if hi - n2 \<le> i \<and> i < hi - n2 + n2 then ?d2 ! (b + (i - (hi - n2))) else ?d2 ! i)" for i
    using o n by (intro swapRange_nth) auto
  have left: "?d2 ! i = d1 ! i" if "b \<le> i" for i using that n o by (auto simp: d2)
  have right: "?d3 ! i = ?d2 ! i" if "i < b" for i using that n o by (auto simp: d3)
  have L: "Less (data' ! i) pv" if "lo \<le> i" "i < mlo" for i
  proof -
    have i: "i < b" using that e o by simp
    have "\<exists>j. a \<le> j \<and> j < b \<and> ?d2 ! i = d1 ! j"
    proof (cases "i < lo + n1")
      case True
      then show ?thesis using that n n1' e o by (intro exI [of _ "b - n1 + (i - lo)"]) (auto simp: d2)
    next
      case False
      then show ?thesis using that n n1' e o by (intro exI [of _ i]) (auto simp: d2)
    qed
    then show ?thesis using z i right e(1) by (auto simp: zones_def)
  qed
  have M1: "\<not> Less (data' ! i) pv \<and> \<not> Less pv (data' ! i)" if "mlo \<le> i" "i < b" for i
  proof -
    have "\<exists>j. lo \<le> j \<and> j < a \<and> ?d2 ! i = d1 ! j"
    proof (cases "b - n1 \<le> i")
      case True
      then show ?thesis using that n n1' e o by (intro exI [of _ "lo + (i - (b - n1))"]) (auto simp: d2)
    next
      case False
      then show ?thesis using that n n1' e o by (intro exI [of _ i]) (auto simp: d2)
    qed
    then show ?thesis using z that right e(1) by (auto simp: zones_def)
  qed
  have M2: "\<not> Less (data' ! i) pv \<and> \<not> Less pv (data' ! i)" if "b \<le> i" "i < mhi" for i
  proof -
    have "\<exists>j. d \<le> j \<and> j < hi \<and> ?d3 ! i = d1 ! j"
    proof (cases "i < b + n2")
      case True
      then show ?thesis using that n n2' e o
        by (intro exI [of _ "hi - n2 + (i - b)"]) (auto simp: d3 left)
    next
      case False
      then show ?thesis using that n n2' e o by (intro exI [of _ i]) (auto simp: d3 left)
    qed
    then show ?thesis using z e(1) by (auto simp: zones_def)
  qed
  have R: "Less pv (data' ! i)" if "mhi \<le> i" "i < hi" for i
  proof -
    have "\<exists>j. b \<le> j \<and> j < d \<and> ?d3 ! i = d1 ! j"
    proof (cases "hi - n2 \<le> i")
      case True
      then show ?thesis using that n n2' e o
        by (intro exI [of _ "b + (i - (hi - n2))"]) (auto simp: d3 left)
    next
      case False
      then show ?thesis using that n n2' e o by (intro exI [of _ i]) (auto simp: d3 left)
    qed
    then show ?thesis using z e(1) by (auto simp: zones_def)
  qed
  have "lo \<le> mlo" "mlo \<le> mhi" "mhi \<le> hi" using e o by auto
  then show ?thesis using L M1 M2 R by (metis not_less)
qed

lemma sorted_seg_partition:
  assumes "sorted_seg Less a m xs" "sorted_seg Less m' b xs"
    and "\<And>i. a \<le> i \<Longrightarrow> i < m \<Longrightarrow> Less (xs ! i) pv"
    and "\<And>i. m \<le> i \<Longrightarrow> i < m' \<Longrightarrow> \<not> Less (xs ! i) pv \<and> \<not> Less pv (xs ! i)"
    and "\<And>i. m' \<le> i \<Longrightarrow> i < b \<Longrightarrow> Less pv (xs ! i)"
  shows "sorted_seg Less a b xs"
  unfolding sorted_seg_def
proof (intro allI impI)
  fix p q assume pq: "a \<le> p" "p < q" "q < b"
  have le: "\<not> Less pv (xs ! i)" if "a \<le> i" "i < m'" for i
    using assms(3) [of i] assms(4) [of i] that asym by (cases "i < m") auto
  have ge: "\<not> Less (xs ! i) pv" if "m \<le> i" "i < b" for i
    using assms(4) [of i] assms(5) [of i] that asym by (cases "i < m'") auto
  consider "q < m" | "m' \<le> p" | "p < m'" "m \<le> q" by linarith
  then show "\<not> Less (xs ! q) (xs ! p)"
  proof cases
    case 1 then show ?thesis using sorted_segD [OF assms(1)] pq by blast
  next
    case 2 then show ?thesis using sorted_segD [OF assms(2)] pq by blast
  next
    case 3 then show ?thesis using le [of p] ge [of q] pq le_trans by blast
  qed
qed

lemma quickSort_sorted:
  "a \<le> b \<Longrightarrow> b \<le> length data \<Longrightarrow> sorted_seg Less a b (quickSort_nat Less data a b k)"
proof (induction k arbitrary: data a b)
  case 0
  show ?case
    using 0 heapSort_sorted [of a b data] insertionSort_sorted [of a b data]
    by (subst quickSort_nat.simps) (auto simp: sorted_seg_def)
next
  case (Suc k)
  show ?case
  proof (cases "b - a > 7")
    case False
    then show ?thesis
      using Suc.prems insertionSort_sorted [of a b data] by (subst quickSort_nat.simps) (auto simp: sorted_seg_def)
  next
    case True
    obtain d mlo mhi where dp: "doPivot_nat Less data a b = (d, mlo, mhi)" by (metis prod_cases3)
    have ab: "a + 7 < b" using True by simp
    have len: "length d = length data" using doPivot_perm [OF dp ab Suc.prems(2)] seg_perm_length by blast
    obtain pv where o: "a \<le> mlo" "mlo \<le> mhi" "mhi \<le> b"
      and z: "\<And>i. a \<le> i \<Longrightarrow> i < mlo \<Longrightarrow> Less (d ! i) pv"
        "\<And>i. mlo \<le> i \<Longrightarrow> i < mhi \<Longrightarrow> \<not> Less (d ! i) pv \<and> \<not> Less pv (d ! i)"
        "\<And>i. mhi \<le> i \<Longrightarrow> i < b \<Longrightarrow> Less pv (d ! i)"
      using doPivot_partitions [OF dp ab Suc.prems(2)] by blast
    have final: "sorted_seg Less a b zs"
      if p1: "seg_perm a1 b1 d ys" and p2: "seg_perm a2 b2 ys zs" and s1: "sorted_seg Less a1 b1 ys"
        and s2: "sorted_seg Less a2 b2 zs"
        and which: "a1 = a \<and> b1 = mlo \<and> a2 = mhi \<and> b2 = b \<or> a1 = mhi \<and> b1 = b \<and> a2 = a \<and> b2 = mlo"
      for ys zs a1 b1 a2 b2
    proof -
      have len': "length ys = length data" using p1 len by (simp add: seg_perm_length)
      have s1': "sorted_seg Less a1 b1 zs"
        using s1 seg_perm_outside [OF p2] which o by (intro sorted_seg_cong [OF s1]) auto
      have zys: "a \<le> i \<Longrightarrow> i < mlo \<Longrightarrow> Less (ys ! i) pv"
          "mlo \<le> i \<Longrightarrow> i < mhi \<Longrightarrow> \<not> Less (ys ! i) pv \<and> \<not> Less pv (ys ! i)"
          "mhi \<le> i \<Longrightarrow> i < b \<Longrightarrow> Less pv (ys ! i)" for i
        using which z seg_perm_outside [OF p1, of i] o len Suc.prems(2)
          seg_perm_all [OF p1, of "\<lambda>x. Less x pv" i] seg_perm_all [OF p1, of "\<lambda>x. Less pv x" i] by auto
      have zzs: "a \<le> i \<Longrightarrow> i < mlo \<Longrightarrow> Less (zs ! i) pv"
          "mlo \<le> i \<Longrightarrow> i < mhi \<Longrightarrow> \<not> Less (zs ! i) pv \<and> \<not> Less pv (zs ! i)"
          "mhi \<le> i \<Longrightarrow> i < b \<Longrightarrow> Less pv (zs ! i)" for i
        using which zys seg_perm_outside [OF p2, of i] o len' Suc.prems(2)
          seg_perm_all [OF p2, of "\<lambda>x. Less x pv" i] seg_perm_all [OF p2, of "\<lambda>x. Less pv x" i] by auto
      show ?thesis
        using sorted_seg_partition [of a mlo zs mhi b pv] s1' s2 which zzs by blast
    qed
    have q: "seg_perm u v xs (quickSort_nat Less xs u v k)" "sorted_seg Less u v (quickSort_nat Less xs u v k)"
      if "u \<le> v" "v \<le> b" "length xs = length data" for u v xs
      using that Suc.prems seg_perm_quickSort [of u v xs] Suc.IH [of u v xs] by auto
    have l: "length (quickSort_nat Less d u v k) = length data" if "u \<le> v" "v \<le> b" for u v
      using seg_perm_length [OF q(1) [OF that len]] len by simp
    have "sorted_seg Less a b (quickSort_nat Less (quickSort_nat Less d a mlo k) mhi b k)"
      using o len l by (intro final [OF q(1) q(1) q(2) q(2)]) auto
    moreover have "sorted_seg Less a b (quickSort_nat Less (quickSort_nat Less d mhi b k) a mlo k)"
      using o len l by (intro final [OF q(1) q(1) q(2) q(2)]) auto
    ultimately show ?thesis using True dp by (subst quickSort_nat.simps) simp
  qed
qed

end

end
