(* ===== verification/Sort.thy ===== *)
theory Sort
  imports SortNat Softfloat
begin

text \<open>
  Package \<open>sort\<close>, the unstable sort (\<open>sort/sort.go\<close>) and binary search (\<open>sort/search.go\<close>). A collection that
  implements the package's interface is the list of its elements; \<open>Less(i, j)\<close> compares the elements at two
  indices with the parameter \<open>Less\<close>, \<open>Swap(i, j)\<close> exchanges them, and both panic on an index out of range. An index
  is an \<open>int\<close> of 32 bits that wraps around. The one index that can overflow for a collection whose length is an
  \<open>int\<close> is \<open>2 * root + 1\<close> in \<open>siftDown\<close>: in a heap of more than \<open>2^30\<close> elements it becomes negative, and \<open>Less\<close> panics.
  A loop whose end depends on that is \<open>partial_function (option)\<close>. Every routine is shown to do what its
  counterpart in \<open>SortNat\<close> does, or to panic if the collection has more than \<open>2^30\<close> elements.
\<close>

section \<open>Definitions\<close>

definition Less_at :: "('a \<Rightarrow> 'a \<Rightarrow> bool) \<Rightarrow> 'a list \<Rightarrow> int \<Rightarrow> int \<Rightarrow> bool go" where
  "Less_at Less data i j =
    (if 0 \<le> i \<and> i < int (length data) \<and> 0 \<le> j \<and> j < int (length data)
     then Inr (Less (data ! nat i) (data ! nat j)) else Inl PanicIndex)"

definition Swap_at :: "'a list \<Rightarrow> int \<Rightarrow> int \<Rightarrow> 'a list go" where
  "Swap_at data i j =
    (if 0 \<le> i \<and> i < int (length data) \<and> 0 \<le> j \<and> j < int (length data)
     then Inr (Swap data (nat i) (nat j)) else Inl PanicIndex)"

function insert_loop :: "('a \<Rightarrow> 'a \<Rightarrow> bool) \<Rightarrow> int \<Rightarrow> 'a list \<Rightarrow> int \<Rightarrow> 'a list go" where
  "insert_loop Less a data j =
    (if j > a then
       go_bind (Less_at Less data j (j - 1)) (\<lambda>l.
       if l then go_bind (Swap_at data j (j - 1)) (\<lambda>data. insert_loop Less a data (j - 1)) else Inr data)
     else Inr data)"
  by pat_completeness auto
termination by (relation "measure (\<lambda>(Less, a, data, j). nat (j - a))") auto

function insertionSort_loop :: "('a \<Rightarrow> 'a \<Rightarrow> bool) \<Rightarrow> int \<Rightarrow> int \<Rightarrow> 'a list \<Rightarrow> int \<Rightarrow> 'a list go" where
  "insertionSort_loop Less a b data i =
    (if i < b then go_bind (insert_loop Less a data i) (\<lambda>data. insertionSort_loop Less a b data (i + 1)) else Inr data)"
  by pat_completeness auto
termination by (relation "measure (\<lambda>(Less, a, b, data, i). nat (b - i))") auto

definition insertionSort :: "('a \<Rightarrow> 'a \<Rightarrow> bool) \<Rightarrow> 'a list \<Rightarrow> int \<Rightarrow> int \<Rightarrow> 'a list go" where
  "insertionSort Less data a b = insertionSort_loop Less a b data (wrap32 (a + 1))"

partial_function (option) siftDown :: "('a \<Rightarrow> 'a \<Rightarrow> bool) \<Rightarrow> 'a list \<Rightarrow> int \<Rightarrow> int \<Rightarrow> int \<Rightarrow> 'a list go option" where
  "siftDown Less data root hi first =
    (let child = wrap32 (2 * root + 1) in
     if child \<ge> hi then Some (Inr data) else
     go_then (Some (if child + 1 < hi then Less_at Less data (wrap32 (first + child)) (wrap32 (first + child + 1)) else Inr False)) (\<lambda>l.
     let child = (if l then child + 1 else child) in
     go_then (Some (Less_at Less data (wrap32 (first + root)) (wrap32 (first + child)))) (\<lambda>l.
     if \<not> l then Some (Inr data)
     else go_then (Some (Swap_at data (wrap32 (first + root)) (wrap32 (first + child)))) (\<lambda>data.
       siftDown Less data child hi first))))"

text \<open>The two loops of \<open>heapSort\<close>.\<close>

function heap_build :: "('a \<Rightarrow> 'a \<Rightarrow> bool) \<Rightarrow> 'a list \<Rightarrow> int \<Rightarrow> int \<Rightarrow> int \<Rightarrow> 'a list go option" where
  "heap_build Less data hi first i =
    (if i \<ge> 0 then go_then (siftDown Less data i hi first) (\<lambda>data. heap_build Less data hi first (i - 1))
     else Some (Inr data))"
  by pat_completeness auto
termination by (relation "measure (\<lambda>(Less, data, hi, first, i). nat (i + 1))") auto

function heap_pop :: "('a \<Rightarrow> 'a \<Rightarrow> bool) \<Rightarrow> 'a list \<Rightarrow> int \<Rightarrow> int \<Rightarrow> 'a list go option" where
  "heap_pop Less data first i =
    (if i \<ge> 0 then
       go_then (Some (Swap_at data first (wrap32 (first + i)))) (\<lambda>data.
       go_then (siftDown Less data 0 i first) (\<lambda>data. heap_pop Less data first (i - 1)))
     else Some (Inr data))"
  by pat_completeness auto
termination by (relation "measure (\<lambda>(Less, data, first, i). nat (i + 1))") auto

definition heapSort :: "('a \<Rightarrow> 'a \<Rightarrow> bool) \<Rightarrow> 'a list \<Rightarrow> int \<Rightarrow> int \<Rightarrow> 'a list go option" where
  "heapSort Less data a b =
    (let first = a; hi = wrap32 (b - a) in
     go_then (heap_build Less data hi first (wrap32 (hi - 1) sdiv 2)) (\<lambda>data.
     heap_pop Less data first (wrap32 (hi - 1))))"

text \<open>\<open>if data.Less(i, j) { data.Swap(i, j) }\<close>\<close>

definition cond_swap :: "('a \<Rightarrow> 'a \<Rightarrow> bool) \<Rightarrow> 'a list \<Rightarrow> int \<Rightarrow> int \<Rightarrow> 'a list go" where
  "cond_swap Less data i j = go_bind (Less_at Less data i j) (\<lambda>l. if l then Swap_at data i j else Inr data)"

definition medianOfThree :: "('a \<Rightarrow> 'a \<Rightarrow> bool) \<Rightarrow> 'a list \<Rightarrow> int \<Rightarrow> int \<Rightarrow> int \<Rightarrow> 'a list go" where
  "medianOfThree Less data a b c =
    (let m0 = b; m1 = a; m2 = c in
     go_bind (cond_swap Less data m1 m0) (\<lambda>data.
     go_bind (cond_swap Less data m2 m1) (\<lambda>data.
     cond_swap Less data m1 m0)))"

function swapRange_loop :: "'a list \<Rightarrow> int \<Rightarrow> int \<Rightarrow> int \<Rightarrow> int \<Rightarrow> 'a list go" where
  "swapRange_loop data a b n i =
    (if i < n then go_bind (Swap_at data (wrap32 (a + i)) (wrap32 (b + i))) (\<lambda>data. swapRange_loop data a b n (i + 1))
     else Inr data)"
  by pat_completeness auto
termination by (relation "measure (\<lambda>(data, a, b, n, i). nat (n - i))") auto

definition swapRange :: "'a list \<Rightarrow> int \<Rightarrow> int \<Rightarrow> int \<Rightarrow> 'a list go" where
  "swapRange data a b n = swapRange_loop data a b n 0"

text \<open>The beginning of \<open>doPivot\<close>.\<close>

definition choosePivot :: "('a \<Rightarrow> 'a \<Rightarrow> bool) \<Rightarrow> 'a list \<Rightarrow> int \<Rightarrow> int \<Rightarrow> 'a list go" where
  "choosePivot Less data lo hi =
    (let m = wrap32 (lo + wrap32 (hi - lo) sdiv 2) in
     go_bind
      (if wrap32 (hi - lo) > 40 then
         let s = wrap32 (hi - lo) sdiv 8 in
         go_bind (medianOfThree Less data lo (wrap32 (lo + s)) (wrap32 (lo + 2 * s))) (\<lambda>data.
         go_bind (medianOfThree Less data m (wrap32 (m - s)) (wrap32 (m + s))) (\<lambda>data.
         medianOfThree Less data (wrap32 (hi - 1)) (wrap32 (hi - 1 - s)) (wrap32 (hi - 1 - 2 * s))))
       else Inr data) (\<lambda>data.
     medianOfThree Less data lo m (wrap32 (hi - 1))))"

text \<open>The two loops that move \<open>b\<close> up and \<open>c\<close> down, and the loop around them.\<close>

function pivot_up :: "('a \<Rightarrow> 'a \<Rightarrow> bool) \<Rightarrow> int \<Rightarrow> 'a list \<Rightarrow> int \<Rightarrow> int \<Rightarrow> int \<Rightarrow> ('a list \<times> int \<times> int) go" where
  "pivot_up Less pivot data a b c =
    (if b < c then
       go_bind (Less_at Less data b pivot) (\<lambda>l.
       if l then pivot_up Less pivot data a (b + 1) c
       else go_bind (Less_at Less data pivot b) (\<lambda>l.
       if \<not> l then go_bind (Swap_at data a b) (\<lambda>data. pivot_up Less pivot data (wrap32 (a + 1)) (b + 1) c)
       else Inr (data, a, b)))
     else Inr (data, a, b))"
  by pat_completeness auto
termination by (relation "measure (\<lambda>(Less, pivot, data, a, b, c). nat (c - b))") auto

function pivot_down :: "('a \<Rightarrow> 'a \<Rightarrow> bool) \<Rightarrow> int \<Rightarrow> 'a list \<Rightarrow> int \<Rightarrow> int \<Rightarrow> int \<Rightarrow> ('a list \<times> int \<times> int) go" where
  "pivot_down Less pivot data b c d =
    (if b < c then
       go_bind (Less_at Less data pivot (c - 1)) (\<lambda>l.
       if l then pivot_down Less pivot data b (c - 1) d
       else go_bind (Less_at Less data (c - 1) pivot) (\<lambda>l.
       if \<not> l then go_bind (Swap_at data (c - 1) (wrap32 (d - 1))) (\<lambda>data. pivot_down Less pivot data b (c - 1) (wrap32 (d - 1)))
       else Inr (data, c, d)))
     else Inr (data, c, d))"
  by pat_completeness auto
termination by (relation "measure (\<lambda>(Less, pivot, data, b, c, d). nat (c - b))") auto

partial_function (option) pivot_loop :: "('a \<Rightarrow> 'a \<Rightarrow> bool) \<Rightarrow> int \<Rightarrow> 'a list \<Rightarrow> int \<Rightarrow> int \<Rightarrow> int \<Rightarrow> int
    \<Rightarrow> ('a list \<times> int \<times> int \<times> int \<times> int) go option" where
  "pivot_loop Less pivot data a b c d =
    go_then (Some (pivot_up Less pivot data a b c)) (\<lambda>(data, a, b).
    go_then (Some (pivot_down Less pivot data b c d)) (\<lambda>(data, c, d).
    if b \<ge> c then Some (Inr (data, a, b, c, d))
    else go_then (Some (Swap_at data b (c - 1))) (\<lambda>data. pivot_loop Less pivot data a (b + 1) (c - 1) d)))"

definition doPivot :: "('a \<Rightarrow> 'a \<Rightarrow> bool) \<Rightarrow> 'a list \<Rightarrow> int \<Rightarrow> int \<Rightarrow> ('a list \<times> int \<times> int) go option" where
  "doPivot Less data lo hi =
    go_then (Some (choosePivot Less data lo hi)) (\<lambda>data.
    let pivot = lo in
    go_then (pivot_loop Less pivot data (wrap32 (lo + 1)) (wrap32 (lo + 1)) hi hi) (\<lambda>(data, a, b, c, d).
    let n = min (wrap32 (b - a)) (wrap32 (a - lo)) in
    go_then (Some (swapRange data lo (wrap32 (b - n)) n)) (\<lambda>data.
    let n = min (wrap32 (hi - d)) (wrap32 (d - c)) in
    go_then (Some (swapRange data c (wrap32 (hi - n)) n)) (\<lambda>data.
    Some (Inr (data, wrap32 (lo + b - a), wrap32 (hi - (d - c))))))))"

fun quickSort :: "('a \<Rightarrow> 'a \<Rightarrow> bool) \<Rightarrow> 'a list \<Rightarrow> int \<Rightarrow> int \<Rightarrow> nat \<Rightarrow> 'a list go option" where
  "quickSort Less data a b maxDepth =
    (if wrap32 (b - a) > 7 then
       case maxDepth of 0 \<Rightarrow> heapSort Less data a b
       | Suc maxDepth \<Rightarrow>
         go_then (doPivot Less data a b) (\<lambda>(data, mlo, mhi).
         if wrap32 (mlo - a) < wrap32 (b - mhi)
         then go_then (quickSort Less data a mlo maxDepth) (\<lambda>data. quickSort Less data mhi b maxDepth)
         else go_then (quickSort Less data mhi b maxDepth) (\<lambda>data. quickSort Less data a mlo maxDepth))
     else if wrap32 (b - a) > 1 then Some (insertionSort Less data a b) else Some (Inr data))"

declare insert_loop.simps [simp del] insertionSort_loop.simps [simp del] heap_build.simps [simp del] heap_pop.simps [simp del]
  swapRange_loop.simps [simp del] pivot_up.simps [simp del] pivot_down.simps [simp del] quickSort.simps [simp del]
declare siftDown.simps [code] pivot_loop.simps [code]

fun depth_loop :: "nat \<Rightarrow> nat" where
  "depth_loop i = (if i > 0 then 1 + depth_loop (i div 2) else 0)"

declare depth_loop.simps [simp del]

definition Sort :: "('a \<Rightarrow> 'a \<Rightarrow> bool) \<Rightarrow> 'a list \<Rightarrow> 'a list go option" where
  "Sort Less data = (let n = length data; maxDepth = depth_loop n * 2 in quickSort Less data 0 (int n) maxDepth)"

definition reverse_Less :: "('a \<Rightarrow> 'a \<Rightarrow> bool) \<Rightarrow> 'a \<Rightarrow> 'a \<Rightarrow> bool" where
  "reverse_Less Less x y = Less y x"

function IsSorted_loop :: "('a \<Rightarrow> 'a \<Rightarrow> bool) \<Rightarrow> 'a list \<Rightarrow> int \<Rightarrow> bool go" where
  "IsSorted_loop Less data i =
    (if i > 0 then go_bind (Less_at Less data i (i - 1)) (\<lambda>l. if l then Inr False else IsSorted_loop Less data (i - 1))
     else Inr True)"
  by pat_completeness auto
termination by (relation "measure (\<lambda>(Less, data, i). nat i)") auto

declare IsSorted_loop.simps [simp del]

definition IsSorted :: "('a \<Rightarrow> 'a \<Rightarrow> bool) \<Rightarrow> 'a list \<Rightarrow> bool go" where
  "IsSorted Less data = IsSorted_loop Less data (int (length data) - 1)"

section \<open>Agreement with the reference\<close>

text \<open>Within the collection, on indices that are natural numbers, the code does what its counterpart does.\<close>

lemma Less_at_nat: "i < length data \<Longrightarrow> j < length data \<Longrightarrow> Less_at Less data (int i) (int j) = Inr (Less (data ! i) (data ! j))"
  by (simp add: Less_at_def)

lemma Swap_at_nat: "i < length data \<Longrightarrow> j < length data \<Longrightarrow> Swap_at data (int i) (int j) = Inr (Swap data i j)"
  by (simp add: Swap_at_def)

lemma sdiv_nat: "int n sdiv numeral k = int (n div numeral k)"
  by (cases "n = 0") (simp_all add: signed_divide_int_def zdiv_int)

lemma insert_loop_eq:
  "a \<le> j \<Longrightarrow> j < length data \<Longrightarrow> insert_loop Less (int a) data (int j) = Inr (insert_loop_nat Less a data j)"
proof (induction Less a data j rule: insert_loop_nat.induct)
  case (1 Less a data j)
  show ?case
  proof (cases "a < j")
    case True
    then obtain k where j: "j = Suc k" using less_imp_Suc_add by blast
    have l: "Less_at Less data (int j) (int j - 1) = Inr (Less (data ! j) (data ! (j - 1)))"
      "Swap_at data (int j) (int j - 1) = Inr (Swap data j (j - 1))"
      using Less_at_nat [of j data k Less] Swap_at_nat [of j data k] 1(3) by (simp_all add: j)
    have e: "int (j - 1) = int j - 1" by (simp add: j)
    have "insert_loop Less (int a) data (int j) =
        (if Less (data ! j) (data ! (j - 1)) then insert_loop Less (int a) (Swap data j (j - 1)) (int (j - 1)) else Inr data)"
      unfolding e using True by (subst insert_loop.simps) (simp add: l)
    then show ?thesis using 1 True by (subst insert_loop_nat.simps) simp
  qed (simp add: insert_loop.simps insert_loop_nat.simps)
qed

lemma insertionSort_eq:
  assumes "b \<le> length data" "int a + 1 < 2 ^ 31"
  shows "insertionSort Less data (int a) (int b) = Inr (insertionSort_nat Less data a b)"
proof -
  have "a < i \<Longrightarrow> b \<le> length data \<Longrightarrow>
      insertionSort_loop Less (int a) (int b) data (int i) = Inr (insertionSort_loop_nat Less a b data i)" for i data
  proof (induction Less a b data i rule: insertionSort_loop_nat.induct)
    case (1 Less a b data i)
    show ?case
    proof (cases "i < b")
      case True
      have l: "length (insert_loop_nat Less a data i) = length data"
        using seg_perm_length [OF seg_perm_insert_loop [of a i b data Less]] 1(2,3) True by simp
      have "insertionSort_loop Less (int a) (int b) data (int i)
          = insertionSort_loop Less (int a) (int b) (insert_loop_nat Less a data i) (int (i + 1))"
        using True insert_loop_eq [of a i data Less] 1(2,3) by (subst insertionSort_loop.simps) (simp add: add.commute)
      then show ?thesis using 1 True l by (subst insertionSort_loop_nat.simps) simp
    qed (simp add: insertionSort_loop.simps insertionSort_loop_nat.simps)
  qed
  from this [of "a + 1" data] show ?thesis
    using assms wrap32_small [of "int a + 1"] by (simp add: insertionSort_def insertionSort_nat_def add.commute)
qed

text \<open>
  A routine that sifts returns the result of its counterpart, or panics in a collection of more than \<open>2^30\<close>
  elements.
\<close>

definition returns :: "nat \<Rightarrow> 'a go option \<Rightarrow> 'a \<Rightarrow> bool" where
  "returns n r v \<longleftrightarrow> r = Some (Inr v) \<or> r = Some (Inl PanicIndex) \<and> 2 ^ 30 < n"

lemma returns_Some: "returns n (Some (Inr v)) v"
  by (simp add: returns_def)

lemma returns_then: "returns n r v \<Longrightarrow> returns n (f v) w \<Longrightarrow> returns n (go_then r f) w"
  by (auto simp: returns_def)

lemma siftDown_wraps:
  assumes "root < hi" "first + hi < 2 ^ 31" "2 ^ 31 \<le> 2 * int root + 1"
  shows "siftDown Less data (int root) (int hi) (int first) = Some (Inl PanicIndex)"
proof -
  define child where "child = 2 * int root + 1 - 2 ^ 32"
  have c: "wrap32 (2 * int root + 1) = child" using assms unfolding child_def by (intro wrap32_above) simp_all
  have "child + 1 < 0" "int first + child < 0" "- (2 ^ 31) \<le> int first + child" using assms by (simp_all add: child_def)
  moreover from this have "wrap32 (int first + child) = int first + child" by (intro wrap32_id) simp_all
  ultimately show ?thesis by (subst siftDown.simps) (simp add: c Less_at_def)
qed

lemma siftDown_returns:
  "first + hi \<le> length data \<Longrightarrow> length data < 2 ^ 31 \<Longrightarrow> root < hi \<or> root = 0 \<Longrightarrow>
    returns (length data) (siftDown Less data (int root) (int hi) (int first)) (siftDown_nat Less data root hi first)"
proof (induction data root rule: siftDown_induct [where hi = hi and first = first and Less = Less])
  case (step data root)
  show ?case
  proof (cases "2 ^ 31 \<le> 2 * int root + 1")
    case True
    then have "root < hi" "2 ^ 30 < length data" using step.prems by auto
    then show ?thesis using siftDown_wraps [of root hi first Less data] True step.prems by (simp add: returns_def)
  next
    case False
    have c: "wrap32 (2 * int root + 1) = int (2 * root + 1)" using False wrap32_small [of "2 * int root + 1"] by simp
    show ?thesis
    proof (cases "hi \<le> 2 * root + 1")
      case True
      then have "siftDown Less data (int root) (int hi) (int first) = Some (Inr data)"
        by (subst siftDown.simps) (simp only: c Let_def of_nat_le_iff if_True)
      then show ?thesis using True siftDown_step [of Less data root hi first] by (simp add: returns_def)
    next
      case in_range: False
      let ?c = "max_child Less data root hi first"
      note mc = max_child_bounds [OF in_range, of Less data first]
      have w: "wrap32 (int first + int k) = int (first + k)" if "k < hi" for k
        using that step.prems wrap32_small [of "int (first + k)"] by simp
      have l: "(if int (2 * root + 1) + 1 < int hi
          then Less_at Less data (wrap32 (int first + int (2 * root + 1))) (wrap32 (int first + int (2 * root + 1) + 1)) else Inr False)
        = Inr (?c = 2 * root + 2)" (is "(if ?P then ?l else _) = _")
      proof (cases ?P)
        case True
        then have h: "2 * root + 2 < hi" by simp
        have "int first + int (2 * root + 1) + 1 = int first + int (2 * root + 2)" by simp
        then have "?l = Inr (Less (data ! (first + (2 * root + 1))) (data ! (first + (2 * root + 2))))"
          using h step.prems w [of "2 * root + 1"] w [of "2 * root + 2"] by (simp only: Less_at_nat)
        then show ?thesis using True h by (simp add: max_child_def)
      qed (simp add: max_child_def)
      have ch: "(if ?c = 2 * root + 2 then int (2 * root + 1) + 1 else int (2 * root + 1)) = int ?c"
        by (simp add: max_child_def)
      have s: "siftDown Less data (int root) (int hi) (int first) =
          (if \<not> Less (data ! (first + root)) (data ! (first + ?c)) then Some (Inr data)
           else siftDown Less (Swap data (first + root) (first + ?c)) (int ?c) (int hi) (int first))"
      proof -
        have b: "first + root < length data" "first + ?c < length data" using mc step.prems by auto
        have "root < hi" using mc by simp
        then show ?thesis
          using w [of root] w [of ?c] mc in_range Less_at_nat [OF b, of Less] Swap_at_nat [OF b]
          by (subst siftDown.simps) (simp only: c Let_def of_nat_le_iff if_False l go_then.simps ch simp_thms split: if_split)
      qed
      show ?thesis
        using step.IH [OF in_range] step.prems mc in_range unfolding s siftDown_step [of Less data root hi first]
        by (simp add: returns_Some)
    qed
  qed
qed

lemma heap_build_returns:
  "first + hi \<le> length data \<Longrightarrow> length data < 2 ^ 31 \<Longrightarrow> k < hi \<or> k = 0 \<Longrightarrow>
    returns (length data) (heap_build Less data (int hi) (int first) (int k)) (heap_build_nat Less data hi first k)"
proof (induction k arbitrary: data)
  case 0
  then have "returns (length data) (siftDown Less data 0 (int hi) (int first)) (siftDown_nat Less data 0 hi first)"
    using siftDown_returns [of first hi data 0 Less] by simp
  then show ?case by (subst heap_build.simps) (auto intro!: returns_then simp: heap_build.simps [of _ _ _ _ "-1"] returns_Some)
next
  case (Suc k)
  let ?d = "siftDown_nat Less data (Suc k) hi first"
  have l: "length ?d = length data" using seg_perm_length [OF seg_perm_siftDown [OF Suc.prems(1), of Less "Suc k"]] .
  have "returns (length data) (siftDown Less data (int (Suc k)) (int hi) (int first)) ?d"
    using Suc.prems by (intro siftDown_returns) auto
  moreover have "returns (length data) (heap_build Less ?d (int hi) (int first) (int k)) (heap_build_nat Less ?d hi first k)"
    using Suc.IH [of ?d] Suc.prems by (simp add: l)
  ultimately show ?case by (subst heap_build.simps) (auto intro!: returns_then)
qed

lemma heap_pop_returns:
  "first + k \<le> length data \<Longrightarrow> length data < 2 ^ 31 \<Longrightarrow>
    returns (length data) (heap_pop Less data (int first) (int k - 1)) (heap_pop_nat Less data first k)"
proof (induction k arbitrary: data)
  case 0
  then show ?case by (simp add: heap_pop.simps returns_Some)
next
  case (Suc k)
  let ?s = "Swap data first (first + k)"
  let ?d = "siftDown_nat Less ?s 0 k first"
  have l: "length ?d = length data" using seg_perm_length [OF seg_perm_siftDown [of first k ?s Less 0]] Suc.prems by simp
  have w: "wrap32 (int first + int k) = int (first + k)" using Suc.prems wrap32_small [of "int (first + k)"] by simp
  have sw: "Swap_at data (int first) (int (first + k)) = Inr ?s" using Suc.prems by (intro Swap_at_nat) auto
  have "returns (length data) (siftDown Less ?s 0 (int k) (int first)) ?d"
    using siftDown_returns [of first k ?s 0 Less] Suc.prems by simp
  moreover have "returns (length data) (heap_pop Less ?d (int first) (int k - 1)) (heap_pop_nat Less ?d first k)"
    using Suc.IH [of ?d] Suc.prems by (simp add: l)
  ultimately have "returns (length data) (go_then (siftDown Less ?s 0 (int k) (int first)) (\<lambda>data. heap_pop Less data (int first) (int k - 1)))
      (heap_pop_nat Less ?d first k)" by (rule returns_then)
  then show ?case by (subst heap_pop.simps) (simp add: w sw del: of_nat_add)
qed

lemma heapSort_returns:
  assumes "a < b" "b \<le> length data" "length data < 2 ^ 31"
  shows "returns (length data) (heapSort Less data (int a) (int b)) (heapSort_nat Less data a b)"
proof -
  let ?n = "b - a"
  let ?h = "heap_build_nat Less data ?n a ((?n - 1) div 2)"
  have n: "wrap32 (int b - int a) = int ?n" "wrap32 (int ?n - 1) = int (?n - 1)" "int (?n - 1) = int ?n - 1"
    using assms wrap32_small [of "int b - int a"] wrap32_small [of "int ?n - 1"] by (simp_all add: of_nat_diff)
  have l: "length ?h = length data" using seg_perm_length [OF seg_perm_heap_build [of a ?n data Less]] assms by simp
  have "returns (length data) (heap_build Less data (int ?n) (int a) (int ((?n - 1) div 2))) ?h"
    using assms by (intro heap_build_returns) auto
  moreover have "returns (length data) (heap_pop Less ?h (int a) (int ?n - 1)) (heap_pop_nat Less ?h a ?n)"
    using heap_pop_returns [of a ?n ?h Less] assms l by simp
  ultimately have "returns (length data) (go_then (heap_build Less data (int ?n) (int a) (int ((?n - 1) div 2)))
      (\<lambda>data. heap_pop Less data (int a) (int ?n - 1))) (heap_pop_nat Less ?h a ?n)" by (rule returns_then)
  then show ?thesis by (simp only: heapSort_def heapSort_nat_def Let_def n(1,2) sdiv_nat) (simp only: n(3))
qed

lemma cond_swap_eq: "i < length data \<Longrightarrow> j < length data \<Longrightarrow>
    cond_swap Less data (int i) (int j) = Inr (if Less (data ! i) (data ! j) then Swap data i j else data)"
  by (simp add: cond_swap_def Less_at_nat Swap_at_nat)

lemma medianOfThree_eq:
  assumes "a < length data" "b < length data" "c < length data"
  shows "medianOfThree Less data (int a) (int b) (int c) = Inr (medianOfThree_nat Less data a b c)"
proof -
  have l: "length (if P then Swap xs i j else xs) = length xs" for P i j and xs :: "'a list" by simp
  show ?thesis using assms by (simp add: medianOfThree_def medianOfThree_nat_def Let_def cond_swap_eq l)
qed

lemma swapRange_eq:
  assumes "a + n \<le> length data" "b + n \<le> length data" "length data < 2 ^ 31"
  shows "swapRange data (int a) (int b) (int n) = Inr (swapRange_nat data a b n)"
proof -
  have "i \<le> n \<Longrightarrow> swapRange_loop (swapRange_nat data a b i) (int a) (int b) (int n) (int i) = Inr (swapRange_nat data a b n)" for i
  proof (induction "n - i" arbitrary: i)
    case 0
    then show ?case by (simp add: swapRange_loop.simps)
  next
    case (Suc m)
    then have i: "i < n" by simp
    let ?d = "swapRange_nat data a b i"
    have w: "wrap32 (int a + int i) = int (a + i)" "wrap32 (int b + int i) = int (b + i)"
      using i assms wrap32_small [of "int (a + i)"] wrap32_small [of "int (b + i)"] by simp_all
    have "Swap_at ?d (int (a + i)) (int (b + i)) = Inr (swapRange_nat data a b (Suc i))"
      using i assms Swap_at_nat [of "a + i" ?d "b + i"] by simp
    then have "swapRange_loop ?d (int a) (int b) (int n) (int i)
        = swapRange_loop (swapRange_nat data a b (Suc i)) (int a) (int b) (int n) (int (Suc i))"
      using i by (subst swapRange_loop.simps) (simp add: w add.commute del: of_nat_add swapRange_nat.simps)
    then show ?case using Suc.hyps(1) [of "Suc i"] Suc.hyps(2) i by simp
  qed
  from this [of 0] show ?thesis by (simp add: swapRange_def)
qed

lemma length_medianOfThree [simp]: "length (medianOfThree_nat Less data a b c) = length data"
  by (simp add: medianOfThree_nat_def Let_def)

lemma choosePivot_eq:
  assumes "lo + 7 < hi" "hi \<le> length data" "length data < 2 ^ 31"
  shows "choosePivot Less data (int lo) (int hi) = Inr (choosePivot_nat Less data lo hi)"
proof -
  define h where "h = (hi - lo) div 2"
  define s where "s = (hi - lo) div 8"
  have n: "8 * s \<le> hi - lo" "hi - lo \<le> 2 * h + 1" "2 * h \<le> hi - lo" by (simp_all add: h_def s_def)
  have w: "wrap32 (int hi - int lo) = int (hi - lo)" "wrap32 (int hi - 1) = int (hi - 1)"
    "wrap32 (int lo + int h) = int (lo + h)" "wrap32 (int lo + int s) = int (lo + s)" "wrap32 (int lo + 2 * int s) = int (lo + 2 * s)"
    "wrap32 (int (lo + h) - int s) = int (lo + h - s)" "wrap32 (int (lo + h) + int s) = int (lo + h + s)"
    "wrap32 (int hi - 1 - int s) = int (hi - 1 - s)" "wrap32 (int hi - 1 - 2 * int s) = int (hi - 1 - 2 * s)"
    using assms n by (subst wrap32_small; simp; linarith)+
  have d: "int (hi - lo) sdiv 2 = int h" "int (hi - lo) sdiv 8 = int s" by (simp_all only: sdiv_nat h_def s_def)
  have lt: "lo < length data" "lo + h < length data" "hi - 1 < length data" "lo + s < length data" "lo + 2 * s < length data"
    "lo + h - s < length data" "lo + h + s < length data" "hi - 1 - s < length data" "hi - 1 - 2 * s < length data"
    using assms n by linarith+
  have g: "(40 < int (hi - lo)) = (40 < hi - lo)" by linarith
  show ?thesis
    unfolding choosePivot_def choosePivot_nat_def Let_def w d g h_def [symmetric] s_def [symmetric]
    by (cases "40 < hi - lo") (simp_all only: medianOfThree_eq lt length_medianOfThree go_bind.simps if_True if_False)
qed

lemma pivot_up_eq:
  "pivot < length data \<Longrightarrow> a \<le> b \<Longrightarrow> c \<le> length data \<Longrightarrow> length data < 2 ^ 31 \<Longrightarrow>
    pivot_up Less (int pivot) data (int a) (int b) (int c)
    = Inr (case pivot_up_nat Less pivot data a b c of (data, a, b) \<Rightarrow> (data, int a, int b))"
proof (induction Less pivot data a b c rule: pivot_up_nat.induct)
  case (1 Less pivot data a b c)
  show ?case
  proof (cases "b < c")
    case True
    then have w: "wrap32 (int a + 1) = int (a + 1)" "int b + 1 = int (b + 1)" using 1(3-6) wrap32_small [of "int a + 1"] by simp_all
    have at: "Less_at Less data (int b) (int pivot) = Inr (Less (data ! b) (data ! pivot))"
      "Less_at Less data (int pivot) (int b) = Inr (Less (data ! pivot) (data ! b))"
      "Swap_at data (int a) (int b) = Inr (Swap data a b)"
      using True 1(3-6) by (simp_all add: Less_at_nat Swap_at_nat)
    have "pivot_up Less (int pivot) data (int a) (int b) (int c) =
        (if Less (data ! b) (data ! pivot) then pivot_up Less (int pivot) data (int a) (int (b + 1)) (int c)
         else if \<not> Less (data ! pivot) (data ! b) then pivot_up Less (int pivot) (Swap data a b) (int (a + 1)) (int (b + 1)) (int c)
         else Inr (data, int a, int b))"
      using True by (subst pivot_up.simps) (simp add: at w del: of_nat_add)
    then show ?thesis using 1 True by (subst pivot_up_nat.simps) (simp del: of_nat_add)
  qed (simp add: pivot_up.simps pivot_up_nat.simps)
qed

lemma pivot_down_eq:
  "pivot < length data \<Longrightarrow> c \<le> d \<Longrightarrow> d \<le> length data \<Longrightarrow> length data < 2 ^ 31 \<Longrightarrow>
    pivot_down Less (int pivot) data (int b) (int c) (int d)
    = Inr (case pivot_down_nat Less pivot data b c d of (data, c, d) \<Rightarrow> (data, int c, int d))"
proof (induction Less pivot data b c d rule: pivot_down_nat.induct)
  case (1 Less pivot data b c d)
  show ?case
  proof (cases "b < c")
    case True
    then have w: "wrap32 (int d - 1) = int (d - 1)" "int c - 1 = int (c - 1)" using 1(3-6) wrap32_small [of "int (d - 1)"] by (simp_all add: of_nat_diff)
    have at: "Less_at Less data (int (c - 1)) (int pivot) = Inr (Less (data ! (c - 1)) (data ! pivot))"
      "Less_at Less data (int pivot) (int (c - 1)) = Inr (Less (data ! pivot) (data ! (c - 1)))"
      "Swap_at data (int (c - 1)) (int (d - 1)) = Inr (Swap data (c - 1) (d - 1))"
    proof -
      have "c - 1 < length data" "d - 1 < length data" using True 1(3-6) by auto
      then show "Less_at Less data (int (c - 1)) (int pivot) = Inr (Less (data ! (c - 1)) (data ! pivot))"
        "Less_at Less data (int pivot) (int (c - 1)) = Inr (Less (data ! pivot) (data ! (c - 1)))"
        "Swap_at data (int (c - 1)) (int (d - 1)) = Inr (Swap data (c - 1) (d - 1))"
        using 1(3) by (simp_all only: Less_at_nat Swap_at_nat)
    qed
    have "pivot_down Less (int pivot) data (int b) (int c) (int d) =
        (if Less (data ! pivot) (data ! (c - 1)) then pivot_down Less (int pivot) data (int b) (int (c - 1)) (int d)
         else if \<not> Less (data ! (c - 1)) (data ! pivot)
           then pivot_down Less (int pivot) (Swap data (c - 1) (d - 1)) (int b) (int (c - 1)) (int (d - 1))
         else Inr (data, int c, int d))"
      using True by (subst pivot_down.simps) (simp only: w at go_bind.simps of_nat_less_iff True if_True simp_thms split: if_split)
    then show ?thesis using 1 True by (subst pivot_down_nat.simps) (simp del: of_nat_diff)
  qed (simp add: pivot_down.simps pivot_down_nat.simps)
qed

lemma pivot_loop_eq:
  "pivot < length data \<Longrightarrow> lo \<le> a \<Longrightarrow> a \<le> b \<Longrightarrow> b \<le> hi \<Longrightarrow> b \<le> c + 1 \<Longrightarrow> c \<le> d \<Longrightarrow> d \<le> hi \<Longrightarrow> hi \<le> length data \<Longrightarrow>
    length data < 2 ^ 31 \<Longrightarrow>
    pivot_loop Less (int pivot) data (int a) (int b) (int c) (int d)
    = Some (Inr (case pivot_loop_nat Less pivot data a b c d of (data, a, b, c, d) \<Rightarrow> (data, int a, int b, int c, int d)))"
proof (induction Less pivot data a b c d rule: pivot_loop_nat.induct)
  case (1 Less pivot data a b c d)
  note prems = 1(2-10)
  obtain data1 a1 b1 where u: "pivot_up_nat Less pivot data a b c = (data1, a1, b1)" by (metis prod_cases3)
  obtain data2 c1 d1 where w: "pivot_down_nat Less pivot data1 b1 c d = (data2, c1, d1)" by (metis prod_cases3)
  have pu: "seg_perm lo hi data data1 \<and> a \<le> a1 \<and> a1 \<le> b1 \<and> b \<le> b1 \<and> (b \<le> c \<longrightarrow> b1 \<le> c) \<and> (c \<le> b \<longrightarrow> b1 = b)"
    using prems by (intro pivot_up_perm [OF u]) auto
  have l1: "length data1 = length data" using pu seg_perm_length by blast
  have pd: "seg_perm lo hi data1 data2 \<and> c1 \<le> c \<and> c1 \<le> d1 \<and> d1 \<le> d \<and> (b1 \<le> c \<longrightarrow> b1 \<le> c1) \<and> (c \<le> b1 \<longrightarrow> c1 = c)"
    using prems pu l1 by (intro pivot_down_perm [OF w]) linarith+
  have l2: "length data2 = length data" using pd l1 seg_perm_length by metis
  have "pivot_up Less (int pivot) data (int a) (int b) (int c) = Inr (data1, int a1, int b1)"
    using prems u by (subst pivot_up_eq) auto
  moreover have "pivot_down Less (int pivot) data1 (int b1) (int c) (int d) = Inr (data2, int c1, int d1)"
    using prems w l1 by (subst pivot_down_eq) auto
  ultimately have e: "pivot_loop Less (int pivot) data (int a) (int b) (int c) (int d) =
      (if c1 \<le> b1 then Some (Inr (data2, int a1, int b1, int c1, int d1))
       else go_then (Some (Swap_at data2 (int b1) (int c1 - 1)))
         (\<lambda>data. pivot_loop Less (int pivot) data (int a1) (int b1 + 1) (int c1 - 1) (int d1)))"
    by (subst pivot_loop.simps) simp
  have n: "pivot_loop_nat Less pivot data a b c d = (if b1 \<ge> c1 then (data2, a1, b1, c1, d1)
      else pivot_loop_nat Less pivot (Swap data2 b1 (c1 - 1)) a1 (b1 + 1) (c1 - 1) d1)"
    by (subst pivot_loop_nat.simps) (simp add: u w)
  show ?case
  proof (cases "c1 \<le> b1")
    case True
    then show ?thesis by (simp add: e n)
  next
    case False
    then have i: "int c1 - 1 = int (c1 - 1)" "int b1 + 1 = int (b1 + 1)" by (simp_all add: of_nat_diff)
    have "Swap_at data2 (int b1) (int (c1 - 1)) = Inr (Swap data2 b1 (c1 - 1))"
      using False prems pu pd l2 by (intro Swap_at_nat) linarith+
    then have "pivot_loop Less (int pivot) data (int a) (int b) (int c) (int d)
        = pivot_loop Less (int pivot) (Swap data2 b1 (c1 - 1)) (int a1) (int (b1 + 1)) (int (c1 - 1)) (int d1)"
      unfolding e i by (simp only: False if_False go_then.simps)
    also have "\<dots> = Some (Inr (case pivot_loop_nat Less pivot (Swap data2 b1 (c1 - 1)) a1 (b1 + 1) (c1 - 1) d1 of
        (data, a, b, c, d) \<Rightarrow> (data, int a, int b, int c, int d)))"
      using prems pu pd l2 False by (intro 1(1) [OF u [symmetric] refl w [symmetric] refl False]) auto
    finally show ?thesis by (simp only: n False if_False)
  qed
qed

lemma doPivot_eq:
  assumes "lo + 7 < hi" "hi \<le> length data" "length data < 2 ^ 31"
  shows "doPivot Less data (int lo) (int hi)
    = Some (Inr (case doPivot_nat Less data lo hi of (data, mlo, mhi) \<Rightarrow> (data, int mlo, int mhi)))"
proof -
  let ?d0 = "choosePivot_nat Less data lo hi"
  have l0: "length ?d0 = length data" using seg_perm_length [OF seg_perm_choosePivot [OF assms(1,2), of Less]] .
  obtain d1 a b c d where l: "pivot_loop_nat Less lo ?d0 (lo + 1) (lo + 1) hi hi = (d1, a, b, c, d)"
    by (metis prod_cases5)
  have pl: "seg_perm (lo + 1) hi ?d0 d1 \<and> lo + 1 \<le> a \<and> a \<le> b \<and> b \<le> hi \<and> b \<le> c + 1 \<and> c \<le> d \<and> d \<le> hi"
    using assms l0 by (intro pivot_loop_perm [OF l]) auto
  have l1: "length d1 = length data" using pl l0 seg_perm_length by metis
  have w1: "wrap32 (int lo + 1) = int (lo + 1)" using assms wrap32_small [of "int lo + 1"] by simp
  have loop: "pivot_loop Less (int lo) ?d0 (int (lo + 1)) (int (lo + 1)) (int hi) (int hi)
      = Some (Inr (d1, int a, int b, int c, int d))"
    using assms l0 l by (subst pivot_loop_eq [where lo = "lo + 1" and hi = hi]) auto
  define n1 where "n1 = min (b - a) (a - lo)"
  define n2 where "n2 = min (hi - d) (d - c)"
  have n: "n1 + a \<le> b" "n1 + lo \<le> a" "n2 + d \<le> hi" "n2 + c \<le> d" using pl by (auto simp: n1_def n2_def)
  have "wrap32 (int b - int a) = int (b - a)" "wrap32 (int a - int lo) = int (a - lo)"
    "wrap32 (int hi - int d) = int (hi - d)" "wrap32 (int d - int c) = int (d - c)"
    using assms pl by (subst wrap32_small; simp; linarith)+
  then have m: "min (wrap32 (int b - int a)) (wrap32 (int a - int lo)) = int n1"
    "min (wrap32 (int hi - int d)) (wrap32 (int d - int c)) = int n2"
    by (simp_all only: n1_def n2_def of_nat_min)
  have w: "wrap32 (int b - int n1) = int (b - n1)" "wrap32 (int hi - int n2) = int (hi - n2)"
    "wrap32 (int lo + int b - int a) = int (lo + b - a)" "wrap32 (int hi - (int d - int c)) = int (hi - (d - c))"
    using assms pl n by (subst wrap32_small; simp; linarith)+
  let ?d2 = "swapRange_nat d1 lo (b - n1) n1"
  have s: "swapRange d1 (int lo) (int (b - n1)) (int n1) = Inr ?d2"
    "swapRange ?d2 (int c) (int (hi - n2)) (int n2) = Inr (swapRange_nat ?d2 c (hi - n2) n2)"
    using assms pl n l1 by (intro swapRange_eq; simp)+
  show ?thesis
    unfolding doPivot_def doPivot_nat_def Let_def w1 l prod.case choosePivot_eq [OF assms] go_then.simps loop m w s
      n1_def [symmetric] n2_def [symmetric] by (rule refl)
qed

lemma wrap32_diff: "a \<le> b \<Longrightarrow> b < 2 ^ 31 \<Longrightarrow> wrap32 (int b - int a) = int (b - a)"
  using wrap32_small [of "int (b - a)"] by (simp add: of_nat_diff)

lemma quickSort_short:
  assumes "a \<le> b" "b \<le> length data" "length data < 2 ^ 31" "\<not> 7 < b - a"
  shows "returns (length data) (quickSort Less data (int a) (int b) k) (quickSort_nat Less data a b k)"
proof -
  have w: "wrap32 (int b - int a) = int (b - a)" using assms by (intro wrap32_diff) simp_all
  have g: "(7 < int (b - a)) = False" "(1 < int (b - a)) = (1 < b - a)" "(7 < b - a) = False" using assms(4) by arith+
  have "insertionSort Less data (int a) (int b) = Inr (insertionSort_nat Less data a b)" if "1 < b - a"
    using assms that by (intro insertionSort_eq) auto
  then show ?thesis
    by (subst quickSort.simps, subst quickSort_nat.simps) (simp only: w g if_False returns_Some split: if_split, simp add: returns_Some)
qed

lemma quickSort_returns:
  "a \<le> b \<Longrightarrow> b \<le> length data \<Longrightarrow> length data < 2 ^ 31 \<Longrightarrow>
    returns (length data) (quickSort Less data (int a) (int b) k) (quickSort_nat Less data a b k)"
proof (induction k arbitrary: data a b)
  case 0
  show ?case
  proof (cases "7 < b - a")
    case True
    then have g: "7 < int (b - a)" and "a < b" by linarith+
    then show ?thesis using heapSort_returns [of a b data Less] 0 True
      by (subst quickSort.simps, subst quickSort_nat.simps) (simp only: wrap32_diff if_True nat.case simp_thms)
  qed (rule quickSort_short [OF 0])
next
  case (Suc k)
  show ?case
  proof (cases "7 < b - a")
    case True
    have w: "wrap32 (int b - int a) = int (b - a)" using Suc.prems by (intro wrap32_diff) simp_all
    obtain d mlo mhi where dp: "doPivot_nat Less data a b = (d, mlo, mhi)" by (metis prod_cases3)
    have p: "seg_perm a b data d" "a \<le> mlo" "mlo \<le> b" "a \<le> mhi" "mhi \<le> b"
      using doPivot_perm [OF dp] True Suc.prems by auto
    have l: "length d = length data" using seg_perm_length [OF p(1)] .
    have w': "wrap32 (int mlo - int a) = int (mlo - a)" "wrap32 (int b - int mhi) = int (b - mhi)"
      using Suc.prems p by (auto intro!: wrap32_diff simp del: of_nat_diff)
    have dpe: "doPivot Less data (int a) (int b) = Some (Inr (d, int mlo, int mhi))"
      using True Suc.prems dp by (subst doPivot_eq) auto
    have q: "length (quickSort_nat Less xs u v k) = length data"
        "returns (length data) (quickSort Less xs (int u) (int v) k) (quickSort_nat Less xs u v k)"
      if "length xs = length data" "u \<le> v" "v \<le> length data" for xs u v
      using that Suc.IH [of u v xs] Suc.prems seg_perm_length [OF seg_perm_quickSort [of u v xs Less k]] by auto
    have left: "returns (length data) (go_then (quickSort Less d (int a) (int mlo) k) (\<lambda>data. quickSort Less data (int mhi) (int b) k))
        (quickSort_nat Less (quickSort_nat Less d a mlo k) mhi b k)"
      using p l Suc.prems by (intro returns_then [OF q(2)] q) auto
    have right: "returns (length data) (go_then (quickSort Less d (int mhi) (int b) k) (\<lambda>data. quickSort Less data (int a) (int mlo) k))
        (quickSort_nat Less (quickSort_nat Less d mhi b k) a mlo k)"
      using p l Suc.prems by (intro returns_then [OF q(2)] q) auto
    have g: "(7 < int (b - a)) = True" "(int (mlo - a) < int (b - mhi)) = (mlo - a < b - mhi)" using True by arith+
    show ?thesis
      using left right True
      by (subst quickSort.simps, subst quickSort_nat.simps)
        (simp only: w g nat.case dpe dp go_then.simps prod.case w' if_True split: if_split, simp)
  qed (rule quickSort_short [OF Suc.prems])
qed

lemma seg_perm_Sort: "seg_perm 0 (length data) data (quickSort_nat Less data 0 (length data) k)"
  by (rule seg_perm_quickSort) simp_all

lemma Sort_returns:
  "length data < 2 ^ 31 \<Longrightarrow> \<exists>k. returns (length data) (Sort Less data) (quickSort_nat Less data 0 (length data) k)"
  using quickSort_returns [of 0 "length data" data Less] by (auto simp: Sort_def Let_def)

section \<open>The slice types and binary search\<close>

text \<open>
  The three slice types differ in \<open>Less\<close>: \<open><\<close> on integers, the bytewise order on strings, and on
  floats \<open><\<close> with every NaN before every number. A float is its 64-bit representation, ordered by the
  number it denotes.
\<close>

definition IntSlice_Less :: "int \<Rightarrow> int \<Rightarrow> bool" where
  "IntSlice_Less x y \<longleftrightarrow> x < y"

definition float_less :: "u64 \<Rightarrow> u64 \<Rightarrow> bool" where
  "float_less x y \<longleftrightarrow> \<not> f64_is_nan x \<and> \<not> f64_is_nan y \<and> f64_key x < f64_key y"

definition isNaN :: "u64 \<Rightarrow> bool" where
  "isNaN f = f64_is_nan f"

definition Float64Slice_Less :: "u64 \<Rightarrow> u64 \<Rightarrow> bool" where
  "Float64Slice_Less x y \<longleftrightarrow> float_less x y \<or> isNaN x \<and> \<not> isNaN y"

fun StringSlice_Less :: "u8 list \<Rightarrow> u8 list \<Rightarrow> bool" where
  "StringSlice_Less s [] = False"
| "StringSlice_Less [] (y # t) = True"
| "StringSlice_Less (x # s) (y # t) = (x < y \<or> x = y \<and> StringSlice_Less s t)"

definition Ints :: "int list \<Rightarrow> int list go option" where "Ints a = Sort IntSlice_Less a"
definition Float64s :: "u64 list \<Rightarrow> u64 list go option" where "Float64s a = Sort Float64Slice_Less a"
definition Strings :: "u8 list list \<Rightarrow> u8 list list go option" where "Strings a = Sort StringSlice_Less a"
definition IntsAreSorted :: "int list \<Rightarrow> bool go" where "IntsAreSorted a = IsSorted IntSlice_Less a"
definition Float64sAreSorted :: "u64 list \<Rightarrow> bool go" where "Float64sAreSorted a = IsSorted Float64Slice_Less a"
definition StringsAreSorted :: "u8 list list \<Rightarrow> bool go" where "StringsAreSorted a = IsSorted StringSlice_Less a"

function search_loop :: "(nat \<Rightarrow> bool) \<Rightarrow> nat \<Rightarrow> nat \<Rightarrow> nat" where
  "search_loop f i j =
    (if i < j then
       let h = i + (j - i) div 2 in
       if \<not> f h then search_loop f (h + 1) j else search_loop f i h
     else i)"
  by pat_completeness auto
termination by (relation "measure (\<lambda>(f, i, j). j - i)") (auto simp: Let_def)

declare search_loop.simps [simp del]

definition Search :: "nat \<Rightarrow> (nat \<Rightarrow> bool) \<Rightarrow> nat" where
  "Search n f = search_loop f 0 n"

definition SearchInts :: "int list \<Rightarrow> int \<Rightarrow> nat" where
  "SearchInts a x = Search (length a) (\<lambda>i. a ! i \<ge> x)"

definition SearchFloat64s :: "u64 list \<Rightarrow> u64 \<Rightarrow> nat" where
  "SearchFloat64s a x = Search (length a) (\<lambda>i. \<not> f64_is_nan (a ! i) \<and> \<not> f64_is_nan x \<and> f64_key (a ! i) \<ge> f64_key x)"

definition SearchStrings :: "u8 list list \<Rightarrow> u8 list \<Rightarrow> nat" where
  "SearchStrings a x = Search (length a) (\<lambda>i. \<not> StringSlice_Less (a ! i) x)"

text \<open>Each \<open>Less\<close> meets the contract, and so does the reverse of one that does.\<close>

interpretation ints: strict_weak IntSlice_Less
  by unfold_locales (auto simp: IntSlice_Less_def)

interpretation floats: strict_weak Float64Slice_Less
  by unfold_locales (auto simp: Float64Slice_Less_def float_less_def isNaN_def)

lemma StringSlice_Less_irrefl: "\<not> StringSlice_Less x x"
  by (induction x) auto

lemma StringSlice_Less_trans: "StringSlice_Less x y \<Longrightarrow> StringSlice_Less y z \<Longrightarrow> StringSlice_Less x z"
  by (induction x y arbitrary: z rule: StringSlice_Less.induct) (case_tac z; auto)+

lemma StringSlice_Less_total: "x \<noteq> y \<Longrightarrow> StringSlice_Less x y \<or> StringSlice_Less y x"
  by (induction x y rule: StringSlice_Less.induct) (auto simp: neq_Nil_conv)

interpretation strings: strict_weak StringSlice_Less
proof unfold_locales
  show "\<not> StringSlice_Less x x" for x by (rule StringSlice_Less_irrefl)
  show "StringSlice_Less x y \<Longrightarrow> StringSlice_Less y z \<Longrightarrow> StringSlice_Less x z" for x y z
    by (rule StringSlice_Less_trans)
  show "StringSlice_Less x z \<Longrightarrow> StringSlice_Less x y \<or> StringSlice_Less y z" for x y z
    using StringSlice_Less_total [of x y] StringSlice_Less_trans [of y x z] by blast
qed

context strict_weak
begin

lemma reverse_strict_weak: "strict_weak (reverse_Less Less)"
proof unfold_locales
  show "\<not> reverse_Less Less x x" for x by (simp add: reverse_Less_def irrefl)
  show "reverse_Less Less x y \<Longrightarrow> reverse_Less Less y z \<Longrightarrow> reverse_Less Less x z" for x y z
    unfolding reverse_Less_def by (rule trans)
  show "reverse_Less Less x z \<Longrightarrow> reverse_Less Less x y \<or> reverse_Less Less y z" for x y z
    unfolding reverse_Less_def using negtrans [of z x y] by blast
qed

lemma IsSorted_iff: "IsSorted Less data = Inr (sorted_seg Less 0 (length data) data)"
proof -
  have "k < length data \<Longrightarrow> IsSorted_loop Less data (int k) = Inr (sorted_seg Less 0 (Suc k) data)" for k
  proof (induction k)
    case 0 then show ?case by (simp add: sorted_seg_def IsSorted_loop.simps)
  next
    case (Suc k)
    have "sorted_seg Less 0 (Suc (Suc k)) data \<longleftrightarrow> \<not> Less (data ! Suc k) (data ! k) \<and> sorted_seg Less 0 (Suc k) data"
    proof
      assume r: "\<not> Less (data ! Suc k) (data ! k) \<and> sorted_seg Less 0 (Suc k) data"
      have "\<not> Less (data ! Suc k) (data ! p)" if "p < Suc k" for p
        using r that sorted_segD [of Less 0 "Suc k" data p k] le_trans by (cases "p = k") auto
      then show "sorted_seg Less 0 (Suc (Suc k)) data"
        using r by (auto simp: sorted_seg_def less_Suc_eq)
    qed (auto simp: sorted_seg_def)
    moreover have "Less_at Less data (1 + int k) (int k) = Inr (Less (data ! Suc k) (data ! k))"
      using Suc.prems Less_at_nat [of "Suc k" data k Less] by simp
    ultimately show ?case using Suc by (subst IsSorted_loop.simps) simp
  qed
  from this [of "length data - 1"] show ?thesis
    by (cases data) (simp_all add: IsSorted_def IsSorted_loop.simps [of _ _ "-1"] sorted_seg_def)
qed

end

lemma sorted_seg_wrt: "sorted_seg Less 0 (length xs) xs \<longleftrightarrow> sorted_wrt (\<lambda>x y. \<not> Less y x) xs"
  by (auto simp: sorted_seg_def sorted_wrt_iff_nth_less)

lemma search_loop_bounds: "i \<le> j \<Longrightarrow> i \<le> search_loop f i j \<and> search_loop f i j \<le> j"
proof (induction f i j rule: search_loop.induct)
  case (1 f i j)
  show ?case
  proof (cases "i < j")
    case True
    let ?h = "i + (j - i) div 2"
    have "?h < j" using True by auto
    moreover have "search_loop f i j = (if \<not> f ?h then search_loop f (?h + 1) j else search_loop f i ?h)"
      using True by (subst search_loop.simps) (simp add: Let_def)
    ultimately show ?thesis using 1(1) [OF True refl] 1(2) [OF True refl] by auto
  next
    case False
    then have "search_loop f i j = i" by (subst search_loop.simps) simp
    then show ?thesis using False "1.prems" by simp
  qed
qed

lemma search_loop_edges:
  "i \<le> j \<Longrightarrow> (search_loop f i j = i \<or> \<not> f (search_loop f i j - 1)) \<and> (search_loop f i j = j \<or> f (search_loop f i j))"
proof (induction f i j rule: search_loop.induct)
  case (1 f i j)
  show ?case
  proof (cases "i < j")
    case True
    let ?h = "i + (j - i) div 2"
    have h: "i \<le> ?h" "?h < j" using True by auto
    show ?thesis
    proof (cases "f ?h")
      case fh: True
      have "search_loop f i j = search_loop f i ?h" using True fh by (subst search_loop.simps) (simp add: Let_def)
      then show ?thesis using 1(2) [OF True refl] fh h by auto
    next
      case False
      have "search_loop f i j = search_loop f (?h + 1) j" using True False by (subst search_loop.simps) (simp add: Let_def)
      then show ?thesis using 1(1) [OF True refl] False h by auto
    qed
  next
    case False
    then have "search_loop f i j = i" by (subst search_loop.simps) simp
    then show ?thesis using False "1.prems" by simp
  qed
qed

lemma Search_least:
  assumes "\<And>i j. i \<le> j \<Longrightarrow> j < n \<Longrightarrow> f i \<Longrightarrow> f j"
  shows "Search n f \<le> n \<and> (\<forall>i < n. f i \<longleftrightarrow> Search n f \<le> i)"
proof -
  let ?r = "search_loop f 0 n"
  have r: "?r \<le> n" "?r = 0 \<or> \<not> f (?r - 1)" "?r = n \<or> f ?r"
    using search_loop_bounds [of 0 n f] search_loop_edges [of 0 n f] by auto
  have "f i \<longleftrightarrow> ?r \<le> i" if "i < n" for i
  proof
    assume "f i"
    show "?r \<le> i"
    proof (rule ccontr)
      assume "\<not> ?r \<le> i"
      then have "f (?r - 1)" using assms [of i "?r - 1"] \<open>f i\<close> r(1) by auto
      then show False using r(2) \<open>\<not> ?r \<le> i\<close> by auto
    qed
  next
    assume "?r \<le> i"
    then show "f i" using assms [of ?r i] r(3) that by auto
  qed
  then show ?thesis using r(1) by (simp add: Search_def)
qed

section \<open>Properties\<close>

text \<open>What \<open>Sort\<close> promises: the result of a run that returned.\<close>

definition sorted_perm :: "('a \<Rightarrow> 'a \<Rightarrow> bool) \<Rightarrow> 'a list \<Rightarrow> 'a list \<Rightarrow> bool" where
  "sorted_perm Less data ys \<longleftrightarrow> mset ys = mset data \<and>
    (strict_weak Less \<longrightarrow> sorted_wrt (\<lambda>x y. \<not> Less y x) ys \<and> IsSorted Less ys = Inr True)"

lemma Sort_sorted_perm:
  assumes "length data < 2 ^ 31"
  shows "\<exists>ys. returns (length data) (Sort Less data) ys \<and> sorted_perm Less data ys"
proof -
  obtain k where r: "returns (length data) (Sort Less data) (quickSort_nat Less data 0 (length data) k)"
    using Sort_returns [OF assms] by blast
  let ?ys = "quickSort_nat Less data 0 (length data) k"
  have p: "seg_perm 0 (length data) data ?ys" by (rule seg_perm_Sort)
  then have len: "length ?ys = length data" by (rule seg_perm_length)
  have "sorted_seg Less 0 (length ?ys) ?ys" if "strict_weak Less"
    unfolding len by (rule strict_weak.quickSort_sorted [OF that]) simp_all
  then have "sorted_perm Less data ?ys"
    using p sorted_seg_wrt [of Less ?ys] strict_weak.IsSorted_iff [of Less ?ys]
    by (simp add: sorted_perm_def seg_perm_def)
  then show ?thesis using r by blast
qed

lemma Sort_returned: "length data \<le> 2 ^ 30 \<Longrightarrow> \<exists>ys. Sort Less data = Some (Inr ys) \<and> sorted_perm Less data ys"
  using Sort_sorted_perm [of data Less] by (auto simp: returns_def)

text \<open>C3: On a collection whose length is an \<open>int\<close>, and whatever \<open>Less\<close> answers, \<open>Sort\<close> ends; up to \<open>2^30\<close> elements it
  calls \<open>Less\<close> and \<open>Swap\<close> with indices of the collection only and permutes it, and when \<open>Less\<close> is a strict weak
  order the result is sorted, and \<open>IsSorted\<close> says so (with \<open>Reverse\<close> as well). In a larger collection the heap sort
  may overflow an index; then \<open>Less\<close> panics, and if it does not happen the result is the same.\<close>
theorem Sort_sorts:
  assumes "length data < 2 ^ 31"
  shows "(case Sort Less data of
      None \<Rightarrow> False
    | Some (Inl p) \<Rightarrow> p = PanicIndex \<and> 2 ^ 30 < length data
    | Some (Inr ys) \<Rightarrow> mset ys = mset data \<and>
       (strict_weak Less \<longrightarrow> sorted_wrt (\<lambda>x y. \<not> Less y x) ys \<and> IsSorted Less ys = Inr True))
   \<and> (case Sort (reverse_Less Less) data of
      None \<Rightarrow> False
    | Some (Inl p) \<Rightarrow> p = PanicIndex \<and> 2 ^ 30 < length data
    | Some (Inr ys) \<Rightarrow> mset ys = mset data \<and> (strict_weak Less \<longrightarrow> sorted_wrt (\<lambda>x y. \<not> Less x y) ys))"
proof -
  obtain ys zs where "returns (length data) (Sort Less data) ys" "sorted_perm Less data ys"
    "returns (length data) (Sort (reverse_Less Less) data) zs" "sorted_perm (reverse_Less Less) data zs"
    using Sort_sorted_perm [OF assms] by metis
  then show ?thesis using strict_weak.reverse_strict_weak [of Less]
    by (auto simp: returns_def sorted_perm_def reverse_Less_def)
qed

theorem Sort_sorts_witness:
  "strict_weak IntSlice_Less \<and> (\<exists>ys. Sort IntSlice_Less [3, 1, 2] = Some (Inr ys) \<and> mset ys = {#1, 2, 3#} \<and>
     sorted_wrt (\<lambda>x y. \<not> IntSlice_Less y x) ys)"
proof -
  have "length [3, 1, 2 :: int] < 2 ^ 31" by simp
  from Sort_sorts [OF this, of IntSlice_Less] show ?thesis
    using ints.strict_weak_axioms by (simp add: add_mset_commute split: option.splits sum.splits)
qed

text \<open>\<open>Ints\<close>, \<open>Strings\<close> and \<open>Float64s\<close> sort: a permutation in increasing order, for floats with the
  NaNs first and the numbers after them in increasing order; the \<open>AreSorted\<close> tests accept the results. A slice
  of more than \<open>2^30\<close> integers, strings or floats does not fit in the address space.\<close>
theorem slices_sorted:
  assumes "length a \<le> 2 ^ 30" "length s \<le> 2 ^ 30" "length f \<le> 2 ^ 30"
  shows "\<exists>a' s' f'. Ints a = Some (Inr a') \<and> Strings s = Some (Inr s') \<and> Float64s f = Some (Inr f')
   \<and> mset a' = mset a \<and> sorted a' \<and> IntsAreSorted a' = Inr True
   \<and> mset s' = mset s \<and> sorted_wrt (\<lambda>x y. x = y \<or> StringSlice_Less x y) s' \<and> StringsAreSorted s' = Inr True
   \<and> mset f' = mset f \<and> Float64sAreSorted f' = Inr True
   \<and> sorted_wrt (\<lambda>x y. isNaN x \<or> \<not> isNaN y \<and> f64_key x \<le> f64_key y) f'"
proof -
  obtain a' where a: "Ints a = Some (Inr a')" "sorted_perm IntSlice_Less a a'"
    using Sort_returned [OF assms(1)] by (auto simp: Ints_def)
  obtain s' where s: "Strings s = Some (Inr s')" "sorted_perm StringSlice_Less s s'"
    using Sort_returned [OF assms(2)] by (auto simp: Strings_def)
  obtain f' where f: "Float64s f = Some (Inr f')" "sorted_perm Float64Slice_Less f f'"
    using Sort_returned [OF assms(3)] by (auto simp: Float64s_def)
  have i: "sorted_wrt (\<lambda>x y. \<not> IntSlice_Less y x) a'" and t: "sorted_wrt (\<lambda>x y. \<not> StringSlice_Less y x) s'"
    and g: "sorted_wrt (\<lambda>x y. \<not> Float64Slice_Less y x) f'"
    using a s f ints.strict_weak_axioms strings.strict_weak_axioms floats.strict_weak_axioms by (simp_all add: sorted_perm_def)
  have "sorted a'"
    using i by (rule sorted_wrt_mono_rel [rotated]) (simp add: IntSlice_Less_def)
  moreover have "sorted_wrt (\<lambda>x y. x = y \<or> StringSlice_Less x y) s'"
    using t by (rule sorted_wrt_mono_rel [rotated]) (use StringSlice_Less_total in blast)
  moreover have "sorted_wrt (\<lambda>x y. isNaN x \<or> \<not> isNaN y \<and> f64_key x \<le> f64_key y) f'"
    using g by (rule sorted_wrt_mono_rel [rotated]) (auto simp: Float64Slice_Less_def float_less_def isNaN_def)
  ultimately show ?thesis
    using a s f ints.strict_weak_axioms strings.strict_weak_axioms floats.strict_weak_axioms
    by (intro exI [of _ a'] exI [of _ s'] exI [of _ f'])
      (simp add: sorted_perm_def IntsAreSorted_def StringsAreSorted_def Float64sAreSorted_def)
qed

theorem slices_sorted_witness:
  "\<exists>a'. Ints [2, 1] = Some (Inr a') \<and> mset a' = {#1, 2#} \<and> sorted a'"
  using slices_sorted [of "[2, 1]" "[]" "[]"] by (auto simp: add_mset_commute)

text \<open>For a predicate that never returns to false, \<open>Search\<close> returns the least index at which it
  holds, or \<open>n\<close>; on a sorted slice \<open>SearchInts\<close> returns where \<open>x\<close> is or has to be inserted.\<close>
theorem Search_finds_least:
  assumes "\<forall>i j. i \<le> j \<and> j < n \<and> f i \<longrightarrow> f j"
  shows "Search n f \<le> n \<and> (\<forall>i < n. f i \<longleftrightarrow> Search n f \<le> i)
    \<and> (sorted a \<longrightarrow> SearchInts a x \<le> length a \<and> (\<forall>i < length a. x \<le> a ! i \<longleftrightarrow> SearchInts a x \<le> i))"
proof -
  have "SearchInts a x \<le> length a \<and> (\<forall>i < length a. x \<le> a ! i \<longleftrightarrow> SearchInts a x \<le> i)" if "sorted a"
    unfolding SearchInts_def
    using that by (intro Search_least) (auto dest: sorted_nth_mono intro: order_trans)
  moreover have "Search n f \<le> n \<and> (\<forall>i < n. f i \<longleftrightarrow> Search n f \<le> i)"
    using assms by (intro Search_least) blast
  ultimately show ?thesis by blast
qed

theorem Search_finds_least_witness:
  "Search 5 (\<lambda>i. 3 \<le> i) = 3"
proof -
  have m: "\<forall>i j. i \<le> j \<and> j < 5 \<and> 3 \<le> i \<longrightarrow> 3 \<le> (j :: nat)" by auto
  have s: "\<forall>i<5. 3 \<le> i \<longleftrightarrow> Search 5 (\<lambda>i. 3 \<le> i) \<le> i" using Search_finds_least [OF m] by blast
  have "Search 5 (\<lambda>i. 3 \<le> i) \<le> 3" using s [rule_format, of 3] by simp
  moreover have "\<not> Search 5 (\<lambda>i. 3 \<le> i) \<le> 2" using s [rule_format, of 2] by simp
  ultimately show ?thesis by simp
qed

end
