(* ===== verification/StableNat.thy ===== *)
theory StableNat
  imports Sort "HOL-Library.Monad_Syntax"
begin

text \<open>
  The stable sort of package \<open>sort\<close> on natural-number indices that do not overflow: the reference for the model of
  the code in theory \<open>StableSort\<close>. The loops whose end depends on their arguments (\<open>rotate\<close> on two non-empty
  blocks, \<open>Stable\<close> on a positive block size) are option-valued, and \<open>Stable_correct\<close> shows that they end.
\<close>

section \<open>Definitions\<close>

partial_function (option) rotate_loop_nat :: "'a list \<Rightarrow> nat \<Rightarrow> nat \<Rightarrow> nat \<Rightarrow> ('a list \<times> nat) option" where
  "rotate_loop_nat data p i j =
    (if i \<noteq> j then
       if i > j then rotate_loop_nat (swapRange_nat data (p - i) p j) p (i - j) j
       else rotate_loop_nat (swapRange_nat data (p - i) (p + j - i) i) p i (j - i)
     else Some (data, i))"

declare rotate_loop_nat.simps [code]

definition rotate_nat :: "'a list \<Rightarrow> nat \<Rightarrow> nat \<Rightarrow> nat \<Rightarrow> 'a list option" where
  "rotate_nat data a m b =
    (let i = m - a in
     if i = 0 then Some data else
     let j = b - m in
     if j = 0 then Some data
     else if i = j then Some (swapRange_nat data a m i)
     else let p = a + i in
       Option.bind (rotate_loop_nat data p i j) (\<lambda>(data, i). Some (swapRange_nat data (p - i) p i)))"

lemma search_loop_lower: "i \<le> j \<Longrightarrow> search_loop f i j \<le> j"
  using search_loop_bounds by blast

text \<open>The two inlined binary searches of \<open>symMerge\<close> are the loop of \<open>Search\<close>.\<close>

function symMerge_nat :: "('a \<Rightarrow> 'a \<Rightarrow> bool) \<Rightarrow> 'a list \<Rightarrow> nat \<Rightarrow> nat \<Rightarrow> nat \<Rightarrow> 'a list option" where
  "symMerge_nat Less data a m b =
    (if a \<ge> m \<or> m \<ge> b then Some data else
     let mid = a + (b - a) div 2;
         n = mid + m;
         start = (if m > mid
                  then let p = n - 1 in search_loop (\<lambda>c. Less (data ! (p - c)) (data ! c)) (n - b) mid
                  else let p = n - 1 in search_loop (\<lambda>c. Less (data ! (p - c)) (data ! c)) a m);
         end = n - start in
     case rotate_nat data start m end of None \<Rightarrow> None
     | Some data \<Rightarrow>
       (case symMerge_nat Less data a start mid of None \<Rightarrow> None
        | Some data \<Rightarrow> symMerge_nat Less data mid end b))"
  by pat_completeness auto
termination
  by (relation "measure (\<lambda>(Less, data, a, m, b). b - a)") (auto simp: Let_def)

declare symMerge_nat.simps [simp del]

partial_function (option) block_sort_nat :: "('a \<Rightarrow> 'a \<Rightarrow> bool) \<Rightarrow> nat \<Rightarrow> nat \<Rightarrow> 'a list \<Rightarrow> nat \<Rightarrow> nat \<Rightarrow> ('a list \<times> nat) option" where
  "block_sort_nat Less n blockSize data a b =
    (if b \<le> n then block_sort_nat Less n blockSize (insertionSort_nat Less data a b) b (b + blockSize)
     else Some (data, a))"

partial_function (option) block_merge_nat :: "('a \<Rightarrow> 'a \<Rightarrow> bool) \<Rightarrow> nat \<Rightarrow> nat \<Rightarrow> 'a list \<Rightarrow> nat \<Rightarrow> nat \<Rightarrow> ('a list \<times> nat) option" where
  "block_merge_nat Less n blockSize data a b =
    (if b \<le> n then
       Option.bind (symMerge_nat Less data a (a + blockSize) b) (\<lambda>data.
         block_merge_nat Less n blockSize data b (b + 2 * blockSize))
     else Some (data, a))"

partial_function (option) merge_passes_nat :: "('a \<Rightarrow> 'a \<Rightarrow> bool) \<Rightarrow> nat \<Rightarrow> 'a list \<Rightarrow> nat \<Rightarrow> 'a list option" where
  "merge_passes_nat Less n data blockSize =
    (if blockSize < n then
       Option.bind (block_merge_nat Less n blockSize data 0 (2 * blockSize)) (\<lambda>(data, a).
       Option.bind (symMerge_nat Less data a (a + blockSize) n) (\<lambda>data.
         merge_passes_nat Less n data (blockSize * 2)))
     else Some data)"

declare block_sort_nat.simps [code] block_merge_nat.simps [code] merge_passes_nat.simps [code]

definition Stable_nat :: "('a \<Rightarrow> 'a \<Rightarrow> bool) \<Rightarrow> 'a list \<Rightarrow> 'a list option" where
  "Stable_nat Less data =
    (let n = length data; blockSize = 20 in
     Option.bind (block_sort_nat Less n blockSize data 0 blockSize) (\<lambda>(data, a).
       merge_passes_nat Less n (insertionSort_nat Less data a n) blockSize))"

section \<open>Rotation\<close>

lemma Swap_split:
  "length xs = i \<Longrightarrow> j = i + 1 + length ys \<Longrightarrow> Swap (xs @ p # ys @ q # zs) i j = xs @ q # ys @ p # zs"
  by (simp add: Swap_def nth_append list_update_append)

lemma swapRange_blocks:
  "length u = n \<Longrightarrow> length v = n \<Longrightarrow> length x = a \<Longrightarrow>
    swapRange_nat (x @ u @ w @ v @ y) a (a + n + length w) n = x @ v @ w @ u @ y"
proof (induction n arbitrary: u v w y)
  case (Suc n)
  obtain u' p where u: "u = u' @ [p]" "length u' = n" using Suc.prems(1) by (cases u rule: rev_cases) auto
  obtain v' q where v: "v = v' @ [q]" "length v' = n" using Suc.prems(2) by (cases v rule: rev_cases) auto
  have "swapRange_nat (x @ u' @ (p # w) @ v' @ (q # y)) a (a + n + length (p # w)) n
      = x @ v' @ (p # w) @ u' @ (q # y)"
    using u v Suc.prems by (intro Suc.IH) auto
  moreover have "Swap ((x @ v') @ p # (w @ u') @ q # y) (a + n) (a + Suc n + length w + n)
      = (x @ v') @ q # (w @ u') @ p # y"
    using u v Suc.prems by (intro Swap_split) auto
  ultimately show ?case by (simp add: u v)
qed simp

lemma rotate_loop_spec:
  assumes "data = x @ u @ v @ y" "length x + length u = p" "length u = i" "length v = j" "0 < i" "0 < j"
  shows "\<exists>z k. rotate_loop_nat data p i j = Some (z, k) \<and> swapRange_nat z (p - k) p k = x @ v @ u @ y"
  using assms
proof (induction "i + j" arbitrary: data x u v y i j rule: less_induct)
  case less
  consider "i = j" | "j < i" | "i < j" by linarith
  then show ?case
  proof cases
    case 1
    have "swapRange_nat data (p - i) p i = x @ v @ u @ y"
      using swapRange_blocks [of u i v x "p - i" "[]" y] less.prems 1 by auto
    then show ?thesis using 1 rotate_loop_nat.simps [of data p i j] by auto
  next
    case 2
    define u1 where "u1 = take j u"
    define w where "w = drop j u"
    have u: "u = u1 @ w" "length u1 = j" "length w = i - j" using less.prems 2 by (auto simp: u1_def w_def)
    have s: "swapRange_nat data (p - i) p j = (x @ v) @ w @ u1 @ y"
      using swapRange_blocks [of u1 j v x "p - i" w y] less.prems 2 u by auto
    have "\<exists>z k. rotate_loop_nat (swapRange_nat data (p - i) p j) p (i - j) j = Some (z, k)
        \<and> swapRange_nat z (p - k) p k = (x @ v) @ u1 @ w @ y"
      using less.prems 2 u by (intro less.hyps [OF _ s]) auto
    then show ?thesis using 2 u rotate_loop_nat.simps [of data p i j] by simp
  next
    case 3
    define v1 where "v1 = take (j - i) v"
    define v2 where "v2 = drop (j - i) v"
    have v: "v = v1 @ v2" "length v1 = j - i" "length v2 = i" using less.prems 3 by (auto simp: v1_def v2_def)
    have pj: "p + j - i = p - i + i + length v1" "p - i = length x" using less.prems 3 v by auto
    have s: "swapRange_nat data (p - i) (p + j - i) i = x @ v2 @ v1 @ (u @ y)"
      unfolding pj(1) using swapRange_blocks [of u i v2 x "p - i" v1 y] less.prems 3 v by auto
    have "\<exists>z k. rotate_loop_nat (swapRange_nat data (p - i) (p + j - i) i) p i (j - i) = Some (z, k)
        \<and> swapRange_nat z (p - k) p k = x @ v1 @ v2 @ (u @ y)"
      using less.prems 3 v by (intro less.hyps [OF _ s]) auto
    then show ?thesis using 3 v rotate_loop_nat.simps [of data p i j] by simp
  qed
qed

lemma rotate_blocks:
  assumes "length x = a" "length u = m - a" "length v = b - m" "a \<le> m" "m \<le> b"
  shows "rotate_nat (x @ u @ v @ y) a m b = Some (x @ v @ u @ y)"
proof -
  consider "u = []" | "u \<noteq> []" "v = []" | "u \<noteq> []" "v \<noteq> []" "m - a = b - m" | "u \<noteq> []" "v \<noteq> []" "m - a \<noteq> b - m"
    by blast
  then show ?thesis
  proof cases
    case 3
    have m: "a + (m - a) = m" using assms by simp
    have "length v = m - a" using assms(3) 3(3) by simp
    from swapRange_blocks [OF assms(2) this assms(1), of "[]" y]
    have "swapRange_nat (x @ u @ v @ y) a m (m - a) = x @ v @ u @ y"
      by (simp only: append_Nil list.size(3) add_0_right m)
    moreover have "m - a \<noteq> 0" "b - m \<noteq> 0" using 3 assms(2,3) by (metis length_0_conv)+
    ultimately show ?thesis
      unfolding rotate_nat_def Let_def using 3(3) by (metis (mono_tags))
  next
    case 4
    have ne: "0 < m - a" "0 < b - m" using 4 assms(2,3) by (metis length_greater_0_conv)+
    obtain z k where "rotate_loop_nat (x @ u @ v @ y) (a + (m - a)) (m - a) (b - m) = Some (z, k)"
      "swapRange_nat z (a + (m - a) - k) (a + (m - a)) k = x @ v @ u @ y"
      using rotate_loop_spec [OF refl, of x u "a + (m - a)" "m - a" v "b - m" y] assms(1-3) ne by auto
    then show ?thesis using 4(3) ne by (simp add: rotate_nat_def Let_def)
  qed (use assms in \<open>auto simp: rotate_nat_def Let_def\<close>)
qed

section \<open>Stability\<close>

text \<open>Two elements are equivalent when neither is less; a rearrangement is stable when it keeps the
  sequence of the elements equivalent to any given one.\<close>

definition eqv :: "('a \<Rightarrow> 'a \<Rightarrow> bool) \<Rightarrow> 'a \<Rightarrow> 'a \<Rightarrow> bool" where
  "eqv Less x y \<longleftrightarrow> \<not> Less x y \<and> \<not> Less y x"

definition keeps_order :: "('a \<Rightarrow> 'a \<Rightarrow> bool) \<Rightarrow> 'a list \<Rightarrow> 'a list \<Rightarrow> bool" where
  "keeps_order Less xs ys \<longleftrightarrow> (\<forall>x. filter (eqv Less x) ys = filter (eqv Less x) xs)"

lemma keeps_order_refl [simp]: "keeps_order Less xs xs"
  by (simp add: keeps_order_def)

lemma keeps_order_trans: "keeps_order Less xs ys \<Longrightarrow> keeps_order Less ys zs \<Longrightarrow> keeps_order Less xs zs"
  by (simp add: keeps_order_def)

lemma split3: "a \<le> m \<Longrightarrow> m \<le> b \<Longrightarrow> b \<le> length xs \<Longrightarrow> xs = take a xs @ seg a m xs @ seg m b xs @ drop b xs"
proof -
  assume *: "a \<le> m" "m \<le> b" "b \<le> length xs"
  have "drop a xs = seg a m xs @ drop m xs" using * by (metis append_take_drop_id drop_drop le_add_diff_inverse2 seg_def)
  moreover have "drop m xs = seg m b xs @ drop b xs" using * by (metis append_take_drop_id drop_drop le_add_diff_inverse2 seg_def)
  ultimately show ?thesis by (metis append_take_drop_id)
qed

lemma length_seg [simp]: "b \<le> length xs \<Longrightarrow> length (seg a b xs) = b - a"
  by (simp add: seg_def)

lemma nth_seg: "i < b - a \<Longrightarrow> b \<le> length xs \<Longrightarrow> seg a b xs ! i = xs ! (a + i)"
  by (simp add: seg_def)

lemma rotate_seg:
  assumes "a \<le> m" "m \<le> b" "b \<le> length xs"
  shows "rotate_nat xs a m b = Some (take a xs @ seg m b xs @ seg a m xs @ drop b xs)"
proof -
  have "rotate_nat (take a xs @ seg a m xs @ seg m b xs @ drop b xs) a m b
      = Some (take a xs @ seg m b xs @ seg a m xs @ drop b xs)"
    using assms by (intro rotate_blocks) auto
  then show ?thesis using split3 [OF assms] by simp
qed

lemma rotated_nth:
  assumes "a \<le> m" "m \<le> b" "b \<le> length xs"
  defines "ys \<equiv> take a xs @ seg m b xs @ seg a m xs @ drop b xs"
  shows "i < a \<or> b \<le> i \<Longrightarrow> ys ! i = xs ! i"
    and "a \<le> i \<Longrightarrow> i < a + (b - m) \<Longrightarrow> ys ! i = xs ! (m + (i - a))"
    and "a + (b - m) \<le> i \<Longrightarrow> i < b \<Longrightarrow> ys ! i = xs ! (i - (b - m))"
    and "seg_perm a b xs ys"
proof -
  show o: "ys ! i = xs ! i" if "i < a \<or> b \<le> i" for i
    using that assms by (auto simp: nth_append)
  show "ys ! i = xs ! (m + (i - a))" if "a \<le> i" "i < a + (b - m)"
  proof -
    have "i - a < b - m" using that by simp
    then show ?thesis using that assms(1-3) by (simp add: ys_def nth_append nth_seg)
  qed
  show "ys ! i = xs ! (i - (b - m))" if "a + (b - m) \<le> i" "i < b"
  proof -
    have e: "a + (i - (a + (b - m))) = i - (b - m)" using that by simp
    have "ys ! i = seg a m xs ! (i - (a + (b - m)))"
      using that assms(1-3) by (auto simp: ys_def nth_append)
    also have "\<dots> = xs ! (a + (i - (a + (b - m))))" using that assms(1-3) by (intro nth_seg) auto
    finally show ?thesis by (simp only: e)
  qed
  have "mset ys = mset (take a xs @ seg a m xs @ seg m b xs @ drop b xs)" by (simp add: ys_def)
  then have "mset ys = mset xs" using split3 [OF assms(1-3)] by simp
  moreover have "length ys = length xs" using assms by simp
  ultimately show "seg_perm a b xs ys" using o by (auto simp: seg_perm_def)
qed

context strict_weak
begin

lemma filter_eqv_swap:
  assumes "\<And>p q. p \<in> set u \<Longrightarrow> q \<in> set v \<Longrightarrow> Less q p"
  shows "filter (eqv Less x) (v @ u) = filter (eqv Less x) (u @ v)"
proof -
  have "filter (eqv Less x) u = [] \<or> filter (eqv Less x) v = []"
  proof (rule ccontr)
    assume "\<not> ?thesis"
    then obtain p q where "p \<in> set u" "eqv Less x p" "q \<in> set v" "eqv Less x q"
      by (auto simp: filter_empty_conv)
    then show False using assms [of p q] negtrans [of q p x] by (auto simp: eqv_def)
  qed
  then show ?thesis by auto
qed

lemma stable_Swap:
  assumes "Suc j < length data" "Less (data ! Suc j) (data ! j)"
  shows "keeps_order Less data (Swap data (Suc j) j)"
proof -
  define x y where "x = take j data" and "y = drop (Suc (Suc j)) data"
  have d: "data = x @ data ! j # data ! Suc j # y"
    using assms(1) by (simp add: x_def y_def Cons_nth_drop_Suc)
  have lx: "length x = j" using assms(1) by (simp add: x_def)
  have "Swap data j (Suc j) = x @ data ! Suc j # [] @ data ! j # y"
    by (subst (1) d) (use Swap_split [of x j "Suc j" "[]" "data ! j" "data ! Suc j" y] lx in simp)
  moreover have "Swap data (Suc j) j = Swap data j (Suc j)"
    by (simp add: Swap_def list_update_swap)
  ultimately have s: "Swap data (Suc j) j = x @ [data ! Suc j] @ [data ! j] @ y" by simp
  have f: "filter (eqv Less z) ([data ! Suc j] @ [data ! j]) = filter (eqv Less z) ([data ! j] @ [data ! Suc j])" for z
    by (rule filter_eqv_swap) (use assms(2) in auto)
  have "filter (eqv Less z) (Swap data (Suc j) j) = filter (eqv Less z) (x @ ([data ! j] @ [data ! Suc j]) @ y)" for z
    unfolding s using f [of z] by (metis append_assoc filter_append)
  moreover have "x @ ([data ! j] @ [data ! Suc j]) @ y = data" using d by simp
  ultimately show ?thesis unfolding keeps_order_def by metis
qed

lemma insert_loop_stable: "j < length data \<Longrightarrow> keeps_order Less data (insert_loop_nat Less a data j)"
proof (induction j arbitrary: data)
  case 0 then show ?case by (simp add: insert_loop_nat.simps)
next
  case (Suc j)
  then show ?case
    using stable_Swap [of j data] keeps_order_trans [of Less data "Swap data (Suc j) j"]
    by (subst insert_loop_nat.simps) auto
qed

lemma insertionSort_stable:
  assumes "b \<le> length data" shows "keeps_order Less data (insertionSort_nat Less data a b)"
proof -
  have "a < i \<Longrightarrow> b \<le> length data \<Longrightarrow> keeps_order Less data (insertionSort_loop_nat Less a b data i)" for i data
  proof (induction "b - i" arbitrary: data i)
    case 0 then show ?case by (subst insertionSort_loop_nat.simps) simp
  next
    case (Suc m)
    let ?d = "insert_loop_nat Less a data i"
    have i: "i < b" using Suc.hyps(2) by simp
    have "length ?d = length data"
      using seg_perm_length [OF seg_perm_insert_loop [of a i b data]] Suc.prems i by simp
    then have "keeps_order Less ?d (insertionSort_loop_nat Less a b ?d (i + 1))"
      using Suc.hyps(2) Suc.prems i by (intro Suc.hyps(1)) auto
    moreover have "keeps_order Less data ?d" using Suc.prems i by (intro insert_loop_stable) simp
    ultimately show ?case using i keeps_order_trans by (subst insertionSort_loop_nat.simps) auto
  qed
  then show ?thesis using assms by (simp add: insertionSort_nat_def)
qed

text \<open>What the binary search of \<open>symMerge_nat\<close> establishes.\<close>

lemma symMerge_split:
  assumes "a < m" "m < b" "b \<le> length data" "sorted_seg Less a m data" "sorted_seg Less m b data"
  defines "mid \<equiv> a + (b - a) div 2"
  defines "f \<equiv> \<lambda>c. Less (data ! (mid + m - 1 - c)) (data ! c)"
  defines "s \<equiv> if m > mid then search_loop f (mid + m - b) mid else search_loop f a m"
  defines "e \<equiv> mid + m - s"
  shows "a \<le> s" "s \<le> m" "m \<le> e" "e \<le> b" "s \<le> mid" "mid \<le> e" "s + (e - m) = mid" "a < mid" "mid < b"
    and "\<And>p q. s \<le> p \<Longrightarrow> p < m \<Longrightarrow> m \<le> q \<Longrightarrow> q < e \<Longrightarrow> Less (data ! q) (data ! p)"
    and "\<And>p q. a \<le> p \<Longrightarrow> p < s \<Longrightarrow> e \<le> q \<Longrightarrow> q < b \<Longrightarrow> \<not> Less (data ! q) (data ! p)"
proof -
  have mid: "2 * mid \<le> a + b" "a + b \<le> 2 * mid + 1" "a < mid" "mid < b" using assms(1,2) by (auto simp: mid_def)
  define lo hi where "lo = (if m > mid then mid + m - b else a)" and "hi = (if m > mid then mid else m)"
  have lh: "lo \<le> hi" "a \<le> lo" "hi \<le> m" "hi \<le> mid" "mid + m \<le> lo + b" "mid \<le> mid + m - hi" "m \<le> mid + m - hi"
    using mid assms(1,2) by (auto simp: lo_def hi_def)
  have sl: "s = search_loop f lo hi" by (simp add: s_def lo_def hi_def)
  have b: "lo \<le> s" "s \<le> hi" unfolding sl using search_loop_bounds [OF lh(1), of f] by auto
  have ed: "s = lo \<or> \<not> f (s - 1)" "s = hi \<or> f s"
    unfolding sl using search_loop_edges [OF lh(1), of f] by auto
  show "a \<le> s" "s \<le> m" "m \<le> e" "e \<le> b" "s \<le> mid" "mid \<le> e" "s + (e - m) = mid" "a < mid" "mid < b"
    using b lh mid by (auto simp: e_def)
  show "Less (data ! q) (data ! p)" if pq: "s \<le> p" "p < m" "m \<le> q" "q < e" for p q
  proof -
    have "s \<noteq> hi" using pq lh by (auto simp: e_def hi_def split: if_splits)
    then have "f s" using ed by simp
    then have fs: "Less (data ! (e - 1)) (data ! s)"
      using pq by (simp add: f_def e_def add.commute)
    have "q = e - 1 \<or> \<not> Less (data ! (e - 1)) (data ! q)"
      using sorted_segD [OF assms(5), of q "e - 1"] pq \<open>e \<le> b\<close> by (cases "q = e - 1") auto
    moreover have "p = s \<or> \<not> Less (data ! p) (data ! s)"
      using sorted_segD [OF assms(4), of s p] pq \<open>a \<le> s\<close> by (cases "p = s") auto
    ultimately show ?thesis using fs le_less_trans less_le_trans by metis
  qed
  show "\<not> Less (data ! q) (data ! p)" if pq: "a \<le> p" "p < s" "e \<le> q" "q < b" for p q
  proof -
    have "s \<noteq> lo" using pq lh mid by (auto simp: e_def lo_def split: if_splits)
    then have "\<not> f (s - 1)" using ed by simp
    moreover have "mid + m - 1 - (s - 1) = e" using pq by (simp add: e_def)
    ultimately have fs: "\<not> Less (data ! e) (data ! (s - 1))" by (simp add: f_def)
    have "q = e \<or> \<not> Less (data ! q) (data ! e)"
      using sorted_segD [OF assms(5), of e q] pq \<open>m \<le> e\<close> by (cases "q = e") auto
    moreover have "p = s - 1 \<or> \<not> Less (data ! (s - 1)) (data ! p)"
      using sorted_segD [OF assms(4), of p "s - 1"] pq \<open>s \<le> m\<close> by (cases "p = s - 1") auto
    ultimately show ?thesis using fs le_trans by metis
  qed
qed

lemma sorted_seg_join:
  assumes "sorted_seg Less a m xs" "sorted_seg Less m b xs"
    and "\<And>p q. a \<le> p \<Longrightarrow> p < m \<Longrightarrow> m \<le> q \<Longrightarrow> q < b \<Longrightarrow> \<not> Less (xs ! q) (xs ! p)"
  shows "sorted_seg Less a b xs"
  unfolding sorted_seg_def
proof (intro allI impI)
  fix p q assume "a \<le> p" "p < q" "q < b"
  then show "\<not> Less (xs ! q) (xs ! p)"
    using sorted_segD [OF assms(1), of p q] sorted_segD [OF assms(2), of p q] assms(3) [of p q]
    by (cases "q < m"; cases "m \<le> p") auto
qed

lemma symMerge_correct:
  assumes "a \<le> m" "m \<le> b" "b \<le> length data" "sorted_seg Less a m data" "sorted_seg Less m b data"
  shows "\<exists>ys. symMerge_nat Less data a m b = Some ys \<and> seg_perm a b data ys \<and> sorted_seg Less a b ys \<and> keeps_order Less data ys"
  using assms
proof (induction "b - a" arbitrary: data a m b rule: less_induct)
  case less
  show ?case
  proof (cases "a \<ge> m \<or> m \<ge> b")
    case True
    then have "m = a \<or> m = b" using less.prems by auto
    then show ?thesis using less.prems True by (subst symMerge_nat.simps) auto
  next
    case False
    then have am: "a < m" "m < b" by auto
    define mid where "mid = a + (b - a) div 2"
    define f where "f = (\<lambda>c. Less (data ! (mid + m - 1 - c)) (data ! c))"
    define s where "s = (if m > mid then search_loop f (mid + m - b) mid else search_loop f a m)"
    define e where "e = mid + m - s"
    note sp = symMerge_split [OF am less.prems(3-5), folded mid_def, folded f_def, folded s_def, folded e_def]
    define r where "r = take s data @ seg m e data @ seg s m data @ drop e data"
    have eb: "e \<le> length data" using sp(4) less.prems(3) by simp
    have rot: "rotate_nat data s m e = Some r" unfolding r_def by (rule rotate_seg [OF sp(2,3) eb])
    note rn = rotated_nth [OF sp(2,3) eb, folded r_def]
    have rlen: "length r = length data" using seg_perm_length [OF rn(4)] .
    have st: "keeps_order Less data r"
    proof -
      have "filter (eqv Less x) (seg m e data @ seg s m data) = filter (eqv Less x) (seg s m data @ seg m e data)" for x
        by (rule filter_eqv_swap) (use sp(10) in \<open>auto dest!: seg_mem_nth\<close>)
      then have "filter (eqv Less x) r = filter (eqv Less x) (take s data @ seg s m data @ seg m e data @ drop e data)" for x
        unfolding r_def by (metis append_assoc filter_append)
      then show ?thesis using split3 [OF sp(2,3) eb] unfolding keeps_order_def by metis
    qed
    have left: "r ! i = (if i < s then data ! i else data ! (m + (i - s)))" if "i < mid" for i
      using that rn(1,2) [of i] sp(7) by auto
    have right: "r ! i = (if i < e then data ! (i - (e - m)) else data ! i)" if "mid \<le> i" for i
      using that rn(1,3) [of i] sp(7) by auto
    have em: "e - m = mid - s" using sp by linarith
    have u_le: "\<not> Less (data ! q) (data ! p)" if "a \<le> p" "p < s" "s \<le> q" "q < m" for p q
      using sorted_segD [OF less.prems(4), of p q] that by auto
    have v_le: "\<not> Less (data ! q) (data ! p)" if "m \<le> p" "p < e" "e \<le> q" "q < b" for p q
      using sorted_segD [OF less.prems(5), of p q] that by auto
    have cross: "\<not> Less (r ! q) (r ! p)" if pq: "a \<le> p" "p < mid" "mid \<le> q" "q < b" for p q
    proof -
      have pm: "m + (p - s) < e" if "s \<le> p" using that pq em sp by linarith
      have qm: "s \<le> q - (e - m)" "q - (e - m) < m" if "q < e" using that pq em sp by linarith+
      consider "p < s" "q < e" | "p < s" "e \<le> q" | "s \<le> p" "q < e" | "s \<le> p" "e \<le> q" by linarith
      then show ?thesis
      proof cases
        case 1 then show ?thesis using u_le [of p "q - (e - m)"] qm pq by (simp add: left right)
      next
        case 2 then show ?thesis using sp(11) [of p q] pq by (simp add: left right)
      next
        case 3 then show ?thesis using sp(10) [of "q - (e - m)" "m + (p - s)"] pm qm pq asym by (simp add: left right)
      next
        case 4 then show ?thesis using v_le [of "m + (p - s)" q] pm pq by (simp add: left right)
      qed
    qed
    have s1: "sorted_seg Less a s r" "sorted_seg Less s mid r" "sorted_seg Less mid e r" "sorted_seg Less e b r"
      unfolding sorted_seg_def using left right em sp
        sorted_segD [OF less.prems(4)] sorted_segD [OF less.prems(5)] by auto
    have lt: "mid - a < b - a" "b - mid < b - a" "mid \<le> length r" using sp(8,9) less.prems(3) rlen by auto
    obtain r1 where r1: "symMerge_nat Less r a s mid = Some r1" "seg_perm a mid r r1" "sorted_seg Less a mid r1" "keeps_order Less r r1"
      using less.hyps [OF lt(1) sp(1) sp(5) lt(3) s1(1,2)] by blast
    have r1len: "length r1 = length data" using seg_perm_length [OF r1(2)] rlen by simp
    have r1_out: "r1 ! i = r ! i" if "mid \<le> i" for i using seg_perm_outside [OF r1(2)] that by simp
    have s2: "sorted_seg Less mid e r1" "sorted_seg Less e b r1"
      using s1(3,4) r1_out sp(6) by (auto intro: sorted_seg_cong)
    obtain r2 where r2: "symMerge_nat Less r1 mid e b = Some r2" "seg_perm mid b r1 r2" "sorted_seg Less mid b r2" "keeps_order Less r1 r2"
      using less.hyps [OF lt(2) sp(6) sp(4) _ s2] less.prems(3) r1len by auto
    have "symMerge_nat Less data a m b = Some r2"
      unfolding symMerge_nat.simps [of Less data a m b] Let_def mid_def [symmetric] f_def [symmetric]
        s_def [symmetric] e_def [symmetric]
      using False rot r1(1) r2(1) by simp
    moreover have "seg_perm a b data r2"
      using seg_perm_mono [OF rn(4), of a b] seg_perm_mono [OF r1(2), of a b] seg_perm_mono [OF r2(2), of a b] sp
      by (meson less_imp_le order_refl seg_perm_trans)
    moreover have "keeps_order Less data r2" using st r1(4) r2(4) keeps_order_trans by blast
    moreover have "sorted_seg Less a b r2"
    proof (rule sorted_seg_join [of a mid r2 b])
      show "sorted_seg Less a mid r2" using r1(3) seg_perm_outside [OF r2(2)] by (auto intro: sorted_seg_cong)
      fix p q assume pq: "a \<le> p" "p < mid" "mid \<le> q" "q < b"
      have 1: "\<not> Less (r1 ! q') (r1 ! p)" if "mid \<le> q'" "q' < b" for q'
        using seg_perm_all [OF r1(2), of "\<lambda>x. \<not> Less (r ! q') x" p] cross that pq sp less.prems(3) rlen r1_out by auto
      have "\<not> Less (r2 ! q) (r1 ! p)"
        using seg_perm_all [OF r2(2), of "\<lambda>x. \<not> Less x (r1 ! p)" q] 1 pq less.prems(3) r1len by auto
      then show "\<not> Less (r2 ! q) (r2 ! p)" using seg_perm_outside [OF r2(2), of p] pq by simp
    qed (rule r2(3))
    ultimately show ?thesis by blast
  qed
qed

text \<open>The passes over the blocks. After a pass with block size \<open>w\<close> every block of \<open>w\<close> elements, the
  last one possibly shorter, is sorted.\<close>

lemma block_sort_correct:
  assumes "0 < w" "n = length data" "a = k * w" "b = a + w" "a \<le> n"
    and "\<And>j. j < k \<Longrightarrow> sorted_seg Less (j * w) (j * w + w) data"
  shows "\<exists>ys a'. block_sort_nat Less n w data a b = Some (ys, a') \<and> mset ys = mset data \<and> keeps_order Less data ys
    \<and> (\<exists>k'. a' = k' * w \<and> a' \<le> n \<and> n < a' + w \<and> (\<forall>j<k'. sorted_seg Less (j * w) (j * w + w) ys))"
  using assms
proof (induction "n - a" arbitrary: data a b k rule: less_induct)
  case less
  show ?case
  proof (cases "b \<le> n")
    case False
    then show ?thesis using less.prems block_sort_nat.simps [of Less n w data a b] by auto
  next
    case True
    let ?d = "insertionSort_nat Less data a b"
    have p: "seg_perm a b data ?d" using True less.prems by (intro seg_perm_insertionSort) simp
    have "sorted_seg Less (j * w) (j * w + w) ?d" if "j < Suc k" for j
    proof (cases "j = k")
      case True
      then show ?thesis using insertionSort_sorted [of a b data] less.prems \<open>b \<le> n\<close> by simp
    next
      case False
      then have "j + 1 \<le> k" using that by simp
      then have "(j + 1) * w \<le> k * w" by (rule mult_le_mono1)
      then have "j * w + w \<le> a" using less.prems(3) by simp
      then show ?thesis
        using sorted_seg_cong [OF less.prems(6) [of j]] seg_perm_outside [OF p] False that by auto
    qed
    then have "\<exists>ys a'. block_sort_nat Less n w ?d b (b + w) = Some (ys, a') \<and> mset ys = mset ?d \<and> keeps_order Less ?d ys
      \<and> (\<exists>k'. a' = k' * w \<and> a' \<le> n \<and> n < a' + w \<and> (\<forall>j<k'. sorted_seg Less (j * w) (j * w + w) ys))"
      using less.prems True seg_perm_length [OF p] by (intro less.hyps [of b ?d "Suc k" "b + w"]) auto
    moreover have "block_sort_nat Less n w data a b = block_sort_nat Less n w ?d b (b + w)"
      using True block_sort_nat.simps [of Less n w data a b] by simp
    moreover have "keeps_order Less data ?d" using True less.prems by (intro insertionSort_stable) simp
    moreover have "mset ?d = mset data" using p by (simp add: seg_perm_def)
    ultimately show ?thesis using keeps_order_trans by metis
  qed
qed

definition blocks_sorted :: "nat \<Rightarrow> nat \<Rightarrow> 'a list \<Rightarrow> bool" where
  "blocks_sorted w n xs \<longleftrightarrow> (\<forall>j. sorted_seg Less (j * w) (min (j * w + w) n) xs)"

lemma block_merge_correct:
  assumes "0 < w" "n = length data" "a = k * (2 * w)" "b = a + 2 * w" "a \<le> n"
    and "\<And>j. j < k \<Longrightarrow> sorted_seg Less (j * (2 * w)) (j * (2 * w) + 2 * w) data"
    and "\<And>j. 2 * k \<le> j \<Longrightarrow> sorted_seg Less (j * w) (min (j * w + w) n) data"
  shows "\<exists>ys a' k'. block_merge_nat Less n w data a b = Some (ys, a') \<and> mset ys = mset data \<and> keeps_order Less data ys
    \<and> a' = k' * (2 * w) \<and> a' \<le> n \<and> n < a' + 2 * w \<and> (\<forall>j<k'. sorted_seg Less (j * (2 * w)) (j * (2 * w) + 2 * w) ys)
    \<and> (\<forall>j\<ge>2 * k'. sorted_seg Less (j * w) (min (j * w + w) n) ys)"
  using assms
proof (induction "n - a" arbitrary: data a b k rule: less_induct)
  case less
  show ?case
  proof (cases "b \<le> n")
    case False
    then show ?thesis using less.prems block_merge_nat.simps [of Less n w data a b] by auto
  next
    case True
    have "sorted_seg Less a (a + w) data" "sorted_seg Less (a + w) b data"
      using less.prems(7) [of "2 * k"] less.prems(7) [of "2 * k + 1"] less.prems(3,4) True
      by (auto simp: algebra_simps min_def split: if_splits)
    then obtain r where r: "symMerge_nat Less data a (a + w) b = Some r" "seg_perm a b data r" "sorted_seg Less a b r"
        "keeps_order Less data r"
      using symMerge_correct [of a "a + w" b data] less.prems True by auto
    have "sorted_seg Less (j * (2 * w)) (j * (2 * w) + 2 * w) r" if "j < Suc k" for j
    proof (cases "j = k")
      case True then show ?thesis using r(3) less.prems by simp
    next
      case False
      then have "j + 1 \<le> k" using that by simp
      then have "(j + 1) * (2 * w) \<le> k * (2 * w)" by (rule mult_le_mono1)
      then have "j * (2 * w) + 2 * w \<le> a" using less.prems(3) by simp
      then show ?thesis
        using sorted_seg_cong [OF less.prems(6) [of j]] seg_perm_outside [OF r(2)] False that by auto
    qed
    moreover have "sorted_seg Less (j * w) (min (j * w + w) n) r" if "2 * Suc k \<le> j" for j
    proof -
      have "2 * Suc k * w \<le> j * w" using that by (rule mult_le_mono1)
      then have "b \<le> j * w" using less.prems(3,4) by (simp add: algebra_simps)
      then show ?thesis
        using sorted_seg_cong [OF less.prems(7) [of j]] seg_perm_outside [OF r(2)] that by auto
    qed
    ultimately have "\<exists>ys a' k'. block_merge_nat Less n w r b (b + 2 * w) = Some (ys, a') \<and> mset ys = mset r \<and> keeps_order Less r ys
      \<and> a' = k' * (2 * w) \<and> a' \<le> n \<and> n < a' + 2 * w \<and> (\<forall>j<k'. sorted_seg Less (j * (2 * w)) (j * (2 * w) + 2 * w) ys)
      \<and> (\<forall>j\<ge>2 * k'. sorted_seg Less (j * w) (min (j * w + w) n) ys)"
      using less.prems True seg_perm_length [OF r(2)] by (intro less.hyps [of b r "Suc k" "b + 2 * w"]) auto
    moreover have "block_merge_nat Less n w data a b = block_merge_nat Less n w r b (b + 2 * w)"
      using True r(1) block_merge_nat.simps [of Less n w data a b] by simp
    moreover have "mset r = mset data" using r(2) by (simp add: seg_perm_def)
    ultimately show ?thesis using keeps_order_trans [OF r(4)] by metis
  qed
qed

lemma merge_passes_correct:
  assumes "0 < w" "n = length data" "blocks_sorted w n data"
  shows "\<exists>ys. merge_passes_nat Less n data w = Some ys \<and> mset ys = mset data \<and> keeps_order Less data ys
    \<and> sorted_seg Less 0 n ys"
  using assms
proof (induction "n - w" arbitrary: data w rule: less_induct)
  case less
  show ?case
  proof (cases "w < n")
    case False
    then show ?thesis
      using less.prems(3) [unfolded blocks_sorted_def, rule_format, of 0] merge_passes_nat.simps [of Less n data w] by simp
  next
    case True
    obtain d a k where d: "block_merge_nat Less n w data 0 (2 * w) = Some (d, a)" "mset d = mset data" "keeps_order Less data d"
      "a = k * (2 * w)" "a \<le> n" "n < a + 2 * w"
      "\<forall>j<k. sorted_seg Less (j * (2 * w)) (j * (2 * w) + 2 * w) d"
      "\<forall>j\<ge>2 * k. sorted_seg Less (j * w) (min (j * w + w) n) d"
      using block_merge_correct [of w n data 0 0 "2 * w"] less.prems by (auto simp: blocks_sorted_def)
    have dl: "length d = n" using d(2) less.prems(2) by (metis size_mset)
    have s1: "sorted_seg Less a (min (a + w) n) d" "sorted_seg Less (a + w) (min (a + 2 * w) n) d"
      using d(8) [rule_format, of "2 * k"] d(8) [rule_format, of "2 * k + 1"] d(4) by (auto simp: algebra_simps)
    have "\<exists>r. symMerge_nat Less d a (a + w) n = Some r \<and> seg_perm a n d r \<and> sorted_seg Less a n r \<and> keeps_order Less d r"
    proof (cases "a + w \<le> n")
      case True
      then show ?thesis using symMerge_correct [of a "a + w" n d] s1 d(5,6) dl by auto
    next
      case False
      then have "symMerge_nat Less d a (a + w) n = Some d" by (subst symMerge_nat.simps) simp
      then show ?thesis using False s1 by simp
    qed
    then obtain r where r: "symMerge_nat Less d a (a + w) n = Some r" "seg_perm a n d r" "sorted_seg Less a n r" "keeps_order Less d r"
      by blast
    have "blocks_sorted (w * 2) n r"
      unfolding blocks_sorted_def
    proof
      fix j
      consider "j < k" | "j = k" | "k < j" by linarith
      then show "sorted_seg Less (j * (w * 2)) (min (j * (w * 2) + w * 2) n) r"
      proof cases
        case 1
        then have "(j + 1) * (2 * w) \<le> k * (2 * w)" by (intro mult_le_mono1) simp
        then have le: "j * (2 * w) + 2 * w \<le> a" using d(4) by simp
        then have "sorted_seg Less (j * (2 * w)) (j * (2 * w) + 2 * w) r"
          using sorted_seg_cong [OF d(7) [rule_format, OF 1]] seg_perm_outside [OF r(2)] by auto
        then show ?thesis using le d(5) by (simp add: mult.commute min_def)
      next
        case 2
        then show ?thesis using r(3) d(4,6) by (simp add: mult.commute min_def)
      next
        case 3
        then have "(k + 1) * (2 * w) \<le> j * (2 * w)" by (intro mult_le_mono1) simp
        then have "n \<le> j * (w * 2)" using d(4,6) by (simp add: mult.commute)
        then show ?thesis by (auto simp: sorted_seg_def)
      qed
    qed
    then have "\<exists>ys. merge_passes_nat Less n r (w * 2) = Some ys \<and> mset ys = mset r \<and> keeps_order Less r ys \<and> sorted_seg Less 0 n ys"
      using less.prems True dl seg_perm_length [OF r(2)] by (intro less.hyps) auto
    moreover have "merge_passes_nat Less n data w = merge_passes_nat Less n r (w * 2)"
      using True d(1) r(1) merge_passes_nat.simps [of Less n data w] by simp
    moreover have "mset r = mset data" using r(2) d(2) by (simp add: seg_perm_def)
    ultimately show ?thesis using keeps_order_trans [OF keeps_order_trans [OF d(3) r(4)]] by metis
  qed
qed

lemma Stable_correct:
  "\<exists>ys. Stable_nat Less data = Some ys \<and> mset ys = mset data \<and> keeps_order Less data ys \<and> sorted_seg Less 0 (length data) ys"
proof -
  let ?n = "length data"
  obtain d a k where d: "block_sort_nat Less ?n 20 data 0 20 = Some (d, a)" "mset d = mset data" "keeps_order Less data d"
    "a = k * 20" "a \<le> ?n" "?n < a + 20" "\<forall>j<k. sorted_seg Less (j * 20) (j * 20 + 20) d"
    using block_sort_correct [of 20 ?n data 0 0 20] by auto
  have dl: "length d = ?n" using d(2) by (metis size_mset)
  let ?e = "insertionSort_nat Less d a ?n"
  have p: "seg_perm a ?n d ?e" using dl by (intro seg_perm_insertionSort) simp
  have "blocks_sorted 20 ?n ?e"
    unfolding blocks_sorted_def
  proof
    fix j
    consider "j < k" | "j = k" | "k < j" by linarith
    then show "sorted_seg Less (j * 20) (min (j * 20 + 20) ?n) ?e"
    proof cases
      case 1
      then have le: "j * 20 + 20 \<le> a" using d(4) by simp
      then have "sorted_seg Less (j * 20) (j * 20 + 20) ?e"
        using sorted_seg_cong [OF d(7) [rule_format, OF 1]] seg_perm_outside [OF p] by auto
      then show ?thesis using le d(5) by (simp add: min_def)
    next
      case 2
      then show ?thesis using insertionSort_sorted [of a ?n d] d(4-6) dl by (simp add: min_def)
    next
      case 3
      then show ?thesis using d(4,6) by (auto simp: sorted_seg_def)
    qed
  qed
  then obtain ys where ys: "merge_passes_nat Less ?n ?e 20 = Some ys" "mset ys = mset ?e" "keeps_order Less ?e ys"
      "sorted_seg Less 0 ?n ys"
    using merge_passes_correct [of 20 ?n ?e] seg_perm_length [OF p] dl by auto
  moreover have "mset ?e = mset data" using p d(2) by (simp add: seg_perm_def)
  moreover have "keeps_order Less data ys"
    by (rule keeps_order_trans [OF d(3) keeps_order_trans [OF insertionSort_stable ys(3)]]) (simp add: dl)
  ultimately show ?thesis using d(1) by (simp add: Stable_nat_def Let_def)
qed
end

end
