(* ===== verification/StableSort.thy ===== *)
theory StableSort
  imports StableNat
begin

text \<open>
  Package \<open>sort\<close>, the stable sort (\<open>sort/sort.go\<close>: \<open>Stable\<close>, \<open>symMerge\<close>, \<open>rotate\<close>), with the 32-bit indices and block
  sizes of the code, which wrap around, and the bounds checks of \<open>Less\<close> and \<open>Swap\<close>. The loops whose end depends on
  their arguments (\<open>rotate\<close> on two non-empty blocks, the passes over blocks of a positive size) are
  \<open>partial_function (option)\<close>: \<open>None\<close> is "does not return". In a collection of less than \<open>2^30\<close> elements neither
  \<open>b += 2 * blockSize\<close> nor \<open>mid + m\<close> overflows, every routine does what its counterpart in \<open>StableNat\<close> does, and
  the theorem shows that \<open>Stable\<close> returns.
\<close>

section \<open>Definitions\<close>

partial_function (option) rotate_loop :: "'a list \<Rightarrow> int \<Rightarrow> int \<Rightarrow> int \<Rightarrow> ('a list \<times> int) go option" where
  "rotate_loop data p i j =
    (if i \<noteq> j then
       if i > j then
         go_then (Some (swapRange data (wrap32 (p - i)) p j)) (\<lambda>data. rotate_loop data p (wrap32 (i - j)) j)
       else
         go_then (Some (swapRange data (wrap32 (p - i)) (wrap32 (p + j - i)) i)) (\<lambda>data. rotate_loop data p i (wrap32 (j - i)))
     else Some (Inr (data, i)))"

definition rotate :: "'a list \<Rightarrow> int \<Rightarrow> int \<Rightarrow> int \<Rightarrow> 'a list go option" where
  "rotate data a m b =
    (let i = wrap32 (m - a) in
     if i = 0 then Some (Inr data) else
     let j = wrap32 (b - m) in
     if j = 0 then Some (Inr data)
     else if i = j then Some (swapRange data a m i)
     else let p = wrap32 (a + i) in
       go_then (rotate_loop data p i j) (\<lambda>(data, i). Some (swapRange data (wrap32 (p - i)) p i)))"

text \<open>The binary search that \<open>symMerge\<close> has twice.\<close>

partial_function (option) merge_search :: "('a \<Rightarrow> 'a \<Rightarrow> bool) \<Rightarrow> 'a list \<Rightarrow> int \<Rightarrow> int \<Rightarrow> int \<Rightarrow> int go option" where
  "merge_search Less data p start r =
    (if start < r then
       let c = wrap32 (start + wrap32 (r - start) sdiv 2) in
       go_then (Some (Less_at Less data (wrap32 (p - c)) c)) (\<lambda>l.
       if \<not> l then merge_search Less data p (wrap32 (c + 1)) r else merge_search Less data p start c)
     else Some (Inr start))"

partial_function (option) symMerge :: "('a \<Rightarrow> 'a \<Rightarrow> bool) \<Rightarrow> 'a list \<Rightarrow> int \<Rightarrow> int \<Rightarrow> int \<Rightarrow> 'a list go option" where
  "symMerge Less data a m b =
    (if a \<ge> m \<or> m \<ge> b then Some (Inr data) else
     let mid = wrap32 (a + wrap32 (b - a) sdiv 2);
         n = wrap32 (mid + m) in
     go_then
      (if m > mid then merge_search Less data (wrap32 (n - 1)) (wrap32 (n - b)) mid
       else merge_search Less data (wrap32 (n - 1)) a m) (\<lambda>start.
     let end = wrap32 (n - start) in
     go_then (rotate data start m end) (\<lambda>data.
     go_then (symMerge Less data a start mid) (\<lambda>data.
     symMerge Less data mid end b))))"

text \<open>The loops of \<open>Stable\<close>.\<close>

partial_function (option) block_sort :: "('a \<Rightarrow> 'a \<Rightarrow> bool) \<Rightarrow> int \<Rightarrow> int \<Rightarrow> 'a list \<Rightarrow> int \<Rightarrow> int \<Rightarrow> ('a list \<times> int) go option" where
  "block_sort Less n blockSize data a b =
    (if b \<le> n then
       go_then (Some (insertionSort Less data a b)) (\<lambda>data. block_sort Less n blockSize data b (wrap32 (b + blockSize)))
     else Some (Inr (data, a)))"

partial_function (option) block_merge :: "('a \<Rightarrow> 'a \<Rightarrow> bool) \<Rightarrow> int \<Rightarrow> int \<Rightarrow> 'a list \<Rightarrow> int \<Rightarrow> int \<Rightarrow> ('a list \<times> int) go option" where
  "block_merge Less n blockSize data a b =
    (if b \<le> n then
       go_then (symMerge Less data a (wrap32 (a + blockSize)) b) (\<lambda>data.
       block_merge Less n blockSize data b (wrap32 (b + 2 * blockSize)))
     else Some (Inr (data, a)))"

partial_function (option) merge_passes :: "('a \<Rightarrow> 'a \<Rightarrow> bool) \<Rightarrow> int \<Rightarrow> 'a list \<Rightarrow> int \<Rightarrow> 'a list go option" where
  "merge_passes Less n data blockSize =
    (if blockSize < n then
       go_then (block_merge Less n blockSize data 0 (wrap32 (2 * blockSize))) (\<lambda>(data, a).
       go_then (symMerge Less data a (wrap32 (a + blockSize)) n) (\<lambda>data.
       merge_passes Less n data (wrap32 (blockSize * 2))))
     else Some (Inr data))"

declare rotate_loop.simps [code] merge_search.simps [code] symMerge.simps [code]
  block_sort.simps [code] block_merge.simps [code] merge_passes.simps [code]

definition Stable :: "('a \<Rightarrow> 'a \<Rightarrow> bool) \<Rightarrow> 'a list \<Rightarrow> 'a list go option" where
  "Stable Less data =
    (let n = int (length data); blockSize = 20 in
     go_then (block_sort Less n blockSize data 0 blockSize) (\<lambda>(data, a).
     go_then (Some (insertionSort Less data a n)) (\<lambda>data.
     merge_passes Less n data blockSize)))"

section \<open>Agreement with the reference\<close>

lemma rotate_loop_eq:
  "0 < i \<Longrightarrow> 0 < j \<Longrightarrow> i \<le> p \<Longrightarrow> p + j \<le> length data \<Longrightarrow> length data < 2 ^ 31 \<Longrightarrow>
    \<exists>z k. rotate_loop_nat data p i j = Some (z, k) \<and> rotate_loop data (int p) (int i) (int j) = Some (Inr (z, int k)) \<and>
      length z = length data \<and> k \<le> i \<and> k \<le> j"
proof (induction "i + j" arbitrary: data i j rule: less_induct)
  case less
  consider "i = j" | "j < i" | "i < j" by linarith
  then show ?case
  proof cases
    case 1
    then show ?thesis using rotate_loop.simps [of data "int p" "int i" "int j"] rotate_loop_nat.simps [of data p i j] by simp
  next
    case 2
    let ?d = "swapRange_nat data (p - i) p j"
    have w: "wrap32 (int p - int i) = int (p - i)" "wrap32 (int i - int j) = int (i - j)"
      using less.prems 2 by (auto intro!: wrap32_diff simp del: of_nat_diff)
    have s: "swapRange data (int (p - i)) (int p) (int j) = Inr ?d" using less.prems 2 by (intro swapRange_eq) auto
    have "\<exists>z k. rotate_loop_nat ?d p (i - j) j = Some (z, k) \<and> rotate_loop ?d (int p) (int (i - j)) (int j) = Some (Inr (z, int k)) \<and>
        length z = length ?d \<and> k \<le> i - j \<and> k \<le> j"
      using less.prems 2 by (intro less.hyps) auto
    then show ?thesis
      using 2 rotate_loop_nat.simps [of data p i j] rotate_loop.simps [of data "int p" "int i" "int j", unfolded w s]
      by (auto simp del: of_nat_diff)
  next
    case 3
    let ?d = "swapRange_nat data (p - i) (p + j - i) i"
    have w: "wrap32 (int p - int i) = int (p - i)" "wrap32 (int j - int i) = int (j - i)"
      "wrap32 (int p + int j - int i) = int (p + j - i)"
      using less.prems 3 wrap32_diff [of i "p + j"] by (auto intro!: wrap32_diff simp del: of_nat_diff)
    have s: "swapRange data (int (p - i)) (int (p + j - i)) (int i) = Inr ?d" using less.prems 3 by (intro swapRange_eq) auto
    have "\<exists>z k. rotate_loop_nat ?d p i (j - i) = Some (z, k) \<and> rotate_loop ?d (int p) (int i) (int (j - i)) = Some (Inr (z, int k)) \<and>
        length z = length ?d \<and> k \<le> i \<and> k \<le> j - i"
      using less.prems 3 by (intro less.hyps) auto
    then show ?thesis
      using 3 rotate_loop_nat.simps [of data p i j] rotate_loop.simps [of data "int p" "int i" "int j", unfolded w s]
      by (auto simp del: of_nat_diff)
  qed
qed

lemma rotate_eq:
  assumes "a \<le> m" "m \<le> b" "b \<le> length data" "length data < 2 ^ 31"
  shows "rotate data (int a) (int m) (int b) = map_option Inr (rotate_nat data a m b)"
proof -
  define i j where "i = m - a" and "j = b - m"
  have w: "wrap32 (int m - int a) = int i" "wrap32 (int b - int m) = int j" "wrap32 (int a + int i) = int (a + i)"
    using assms wrap32_diff [of a m] wrap32_diff [of m b] wrap32_small [of "int (a + i)"] by (simp_all add: i_def j_def)
  have z: "(int i = 0) = (i = 0)" "(int j = 0) = (j = 0)" "(int i = int j) = (i = j)" by simp_all
  consider "i = 0 \<or> j = 0" | "i \<noteq> 0" "j \<noteq> 0" "i = j" | "i \<noteq> 0" "j \<noteq> 0" "i \<noteq> j" by blast
  then show ?thesis
  proof cases
    case 1
    then show ?thesis unfolding rotate_def rotate_nat_def Let_def w z i_def [symmetric] j_def [symmetric] by auto
  next
    case 2
    then have "swapRange data (int a) (int m) (int i) = Inr (swapRange_nat data a m i)"
      using assms by (intro swapRange_eq) (auto simp: i_def j_def)
    then show ?thesis unfolding rotate_def rotate_nat_def Let_def w z i_def [symmetric] j_def [symmetric] using 2 by simp
  next
    case 3
    obtain y k where l: "rotate_loop_nat data (a + i) i j = Some (y, k)"
      "rotate_loop data (int (a + i)) (int i) (int j) = Some (Inr (y, int k))" "length y = length data" "k \<le> i" "k \<le> j"
      using rotate_loop_eq [of i j "a + i" data] 3 assms by (auto simp: i_def j_def)
    have "wrap32 (int (a + i) - int k) = int (a + i - k)" using assms l(4) by (intro wrap32_diff) (auto simp: i_def)
    moreover have "swapRange y (int (a + i - k)) (int (a + i)) (int k) = Inr (swapRange_nat y (a + i - k) (a + i) k)"
      using assms l(3-5) by (intro swapRange_eq) (auto simp: i_def j_def)
    ultimately show ?thesis
      unfolding rotate_def rotate_nat_def Let_def w z i_def [symmetric] j_def [symmetric] l go_then.simps prod.case
      using 3 by simp
  qed
qed

lemma merge_search_eq:
  assumes "\<And>c. lo \<le> c \<Longrightarrow> c < hi \<Longrightarrow> c \<le> p \<and> p - c < length data" "hi \<le> length data" "length data < 2 ^ 31" "p < 2 ^ 31"
  shows "merge_search Less data (int p) (int lo) (int hi)
    = Some (Inr (int (search_loop (\<lambda>c. Less (data ! (p - c)) (data ! c)) lo hi)))"
  using assms(1,2)
proof (induction "\<lambda>c. Less (data ! (p - c)) (data ! c)" lo hi rule: search_loop.induct)
  case (1 i j)
  show ?case
  proof (cases "i < j")
    case True
    define h where "h = i + (j - i) div 2"
    have h: "i \<le> h" "h < j" using True by (auto simp: h_def)
    then have b: "h \<le> p" "p - h < length data" "h < length data" using 1(3) [of h] 1(4) by auto
    have hs: "int i + int ((j - i) div 2) = int h" by (simp add: h_def)
    have "wrap32 (int j - int i) = int (j - i)" "wrap32 (int p - int h) = int (p - h)"
      using True b 1(4) assms(3,4) by (intro wrap32_diff; simp)+
    moreover have "wrap32 (int h) = int h" "wrap32 (int h + 1) = int (h + 1)"
      using h b 1(4) assms(3) wrap32_small [of "int h"] wrap32_small [of "int h + 1"] by simp_all
    ultimately have w: "wrap32 (int j - int i) = int (j - i)" "wrap32 (int i + int ((j - i) div 2)) = int h"
      "wrap32 (int p - int h) = int (p - h)" "wrap32 (int h + 1) = int (h + 1)"
      unfolding hs by blast+
    have e: "merge_search Less data (int p) (int i) (int j) =
        (if \<not> Less (data ! (p - h)) (data ! h) then merge_search Less data (int p) (int (h + 1)) (int j)
         else merge_search Less data (int p) (int i) (int h))"
      using True by (subst merge_search.simps) (simp only: Let_def w sdiv_nat Less_at_nat [OF b(2,3)] go_then.simps
        of_nat_less_iff if_True split: if_split)
    show ?thesis
    proof (cases "Less (data ! (p - h)) (data ! h)")
      case l: True
      have "merge_search Less data (int p) (int i) (int h) = Some (Inr (int (search_loop (\<lambda>c. Less (data ! (p - c)) (data ! c)) i h)))"
        using 1(2) [OF True refl, folded h_def] l 1(3,4) h by auto
      then show ?thesis using True l by (subst search_loop.simps) (simp add: e h_def [symmetric] Let_def)
    next
      case l: False
      have "merge_search Less data (int p) (int (h + 1)) (int j)
          = Some (Inr (int (search_loop (\<lambda>c. Less (data ! (p - c)) (data ! c)) (h + 1) j)))"
        using 1(1) [OF True refl, folded h_def] l 1(3,4) h by auto
      then show ?thesis using True l by (subst search_loop.simps) (simp add: e h_def [symmetric] Let_def)
    qed
  qed (simp add: merge_search.simps search_loop.simps)
qed

lemma symMerge_eq:
  "b \<le> length data \<Longrightarrow> length data \<le> 2 ^ 30 \<Longrightarrow> \<exists>r. symMerge_nat Less data a m b = Some r \<and>
    symMerge Less data (int a) (int m) (int b) = Some (Inr r) \<and> length r = length data"
proof (induction "b - a" arbitrary: data a m b rule: less_induct)
  case less
  show ?case
  proof (cases "a \<ge> m \<or> m \<ge> b")
    case True
    then show ?thesis by (simp add: symMerge_nat.simps [of Less data a m b] symMerge.simps [of Less data "int a"])
  next
    case False
    define mid where "mid = a + (b - a) div 2"
    define n where "n = mid + m"
    have mid: "2 * mid \<le> a + b" "a + b \<le> 2 * mid + 1" "a < mid" "mid < b" using False by (auto simp: mid_def)
    define lo hi where "lo = (if m > mid then n - b else a)" and "hi = (if m > mid then mid else m)"
    have lh: "lo \<le> hi" "a \<le> lo" "hi \<le> m" "hi \<le> mid" "n \<le> lo + b" "mid \<le> n - hi" "m \<le> n - hi" "hi \<le> n"
      using mid False by (auto simp: lo_def hi_def n_def)
    have n31: "n < 2 ^ 31" "0 < n" "b < 2 ^ 31" using mid False less.prems by (auto simp: n_def)
    define s where "s = search_loop (\<lambda>c. Less (data ! (n - 1 - c)) (data ! c)) lo hi"
    define e where "e = n - s"
    have sb: "lo \<le> s" "s \<le> hi" unfolding s_def using search_loop_bounds [OF lh(1)] by auto
    have se: "s \<le> m" "m \<le> e" "e \<le> b" "s \<le> mid" "mid \<le> e" "s \<le> n" using sb lh by (auto simp: e_def)
    have hs: "int a + int ((b - a) div 2) = int mid" "int mid + int m = int n" by (simp_all add: mid_def n_def)
    have w: "wrap32 (int b - int a) = int (b - a)" "wrap32 (int a + int ((b - a) div 2)) = int mid" "wrap32 (int mid + int m) = int n"
      unfolding hs using n31 mid False by (auto intro!: wrap32_diff wrap32_small simp del: of_nat_diff)
    have w1: "wrap32 (int n - 1) = int (n - 1)" "wrap32 (int n - int s) = int e"
      using n31 se wrap32_diff [of 1 n] by (simp_all add: e_def wrap32_diff)
    have "wrap32 (int n - int b) = int (n - b)" if "m > mid" using that n31 mid by (intro wrap32_diff) (auto simp: n_def)
    then have "(if int m > int mid then merge_search Less data (int (n - 1)) (wrap32 (int n - int b)) (int mid)
        else merge_search Less data (int (n - 1)) (int a) (int m)) = merge_search Less data (int (n - 1)) (int lo) (int hi)"
      by (simp add: lo_def hi_def del: of_nat_diff)
    also have "\<dots> = Some (Inr (int s))"
      unfolding s_def using lh sb mid False less.prems n31 by (intro merge_search_eq) auto
    finally have search: "(if int m > int mid then merge_search Less data (int (n - 1)) (wrap32 (int n - int b)) (int mid)
        else merge_search Less data (int (n - 1)) (int a) (int m)) = Some (Inr (int s))" .
    define r where "r = take s data @ seg m e data @ seg s m data @ drop e data"
    have eb: "e \<le> length data" using se less.prems by simp
    have rot_nat: "rotate_nat data s m e = Some r" unfolding r_def by (rule rotate_seg [OF se(1,2) eb])
    have rot: "rotate data (int s) (int m) (int e) = Some (Inr r)"
      using rotate_eq [OF se(1,2) eb] less.prems(2) by (simp add: rot_nat)
    have rl: "length r = length data" using rotated_nth(4) [OF se(1,2) eb] seg_perm_length unfolding r_def by blast
    have lt: "mid - a < b - a" "b - mid < b - a" "mid \<le> length r" using mid less.prems(1) rl by auto
    obtain r1 where r1: "symMerge_nat Less r a s mid = Some r1" "symMerge Less r (int a) (int s) (int mid) = Some (Inr r1)" "length r1 = length data"
      using less.hyps [OF lt(1,3), of s] rl less.prems(2) by auto
    obtain r2 where r2: "symMerge_nat Less r1 mid e b = Some r2" "symMerge Less r1 (int mid) (int e) (int b) = Some (Inr r2)" "length r2 = length data"
      using less.hyps [OF lt(2), of r1 e] r1(3) less.prems by auto
    have sd: "(if m > mid then search_loop (\<lambda>c. Less (data ! (n - 1 - c)) (data ! c)) (n - b) mid
        else search_loop (\<lambda>c. Less (data ! (n - 1 - c)) (data ! c)) a m) = s"
      by (simp add: s_def lo_def hi_def)
    have "symMerge_nat Less data a m b = Some r2"
      unfolding symMerge_nat.simps [of Less data a m b] Let_def mid_def [symmetric] n_def [symmetric] sd e_def [symmetric]
      using False rot_nat r1(1) r2(1) by simp
    moreover have "symMerge Less data (int a) (int m) (int b) = Some (Inr r2)"
      using False by (subst symMerge.simps)
        (simp only: Let_def w w1 sdiv_nat search rot r1(2) r2(2) go_then.simps of_nat_le_iff if_False)
    ultimately show ?thesis using r2(3) by blast
  qed
qed

lemma block_sort_eq:
  "0 < w \<Longrightarrow> n = length data \<Longrightarrow> n + w < 2 ^ 31 \<Longrightarrow> a \<le> n \<Longrightarrow> block_sort_nat Less n w data a b = Some (ys, a') \<Longrightarrow>
    block_sort Less (int n) (int w) data (int a) (int b) = Some (Inr (ys, int a')) \<and> length ys = n \<and> a' \<le> n"
proof (induction "n + 1 - b" arbitrary: data a b rule: less_induct)
  case less
  show ?case
  proof (cases "b \<le> n")
    case False
    then show ?thesis
      using less.prems block_sort_nat.simps [of Less n w data a b] by (subst block_sort.simps) simp
  next
    case True
    let ?d = "insertionSort_nat Less data a b"
    have i: "insertionSort Less data (int a) (int b) = Inr ?d" using True less.prems by (intro insertionSort_eq) auto
    have l: "length ?d = length data"
      using seg_perm_length [OF seg_perm_insertionSort [of b data a Less]] True less.prems by simp
    have w: "wrap32 (int b + int w) = int (b + w)" using True less.prems wrap32_small [of "int b + int w"] by simp
    have "block_sort Less (int n) (int w) ?d (int b) (int (b + w)) = Some (Inr (ys, int a')) \<and> length ys = n \<and> a' \<le> n"
      using less.prems True l block_sort_nat.simps [of Less n w data a b] by (intro less.hyps) auto
    then show ?thesis using True i w by (subst block_sort.simps) (simp del: of_nat_add)
  qed
qed

lemma block_merge_eq:
  "0 < w \<Longrightarrow> w < n \<Longrightarrow> n = length data \<Longrightarrow> n < 2 ^ 30 \<Longrightarrow> a \<le> n \<Longrightarrow> b \<le> a + 2 * w \<Longrightarrow> 2 * w \<le> b \<Longrightarrow>
    block_merge_nat Less n w data a b = Some (ys, a') \<Longrightarrow>
    block_merge Less (int n) (int w) data (int a) (int b) = Some (Inr (ys, int a')) \<and> length ys = n \<and> a' \<le> n"
proof (induction "n + 1 - b" arbitrary: data a b rule: less_induct)
  case less
  show ?case
  proof (cases "b \<le> n")
    case False
    then show ?thesis
      using less.prems block_merge_nat.simps [of Less n w data a b] by (subst block_merge.simps) simp
  next
    case True
    obtain r where r: "symMerge_nat Less data a (a + w) b = Some r"
      "symMerge Less data (int a) (int (a + w)) (int b) = Some (Inr r)" "length r = length data"
      using symMerge_eq [of b data Less a "a + w"] True less.prems by auto
    have w: "wrap32 (int a + int w) = int (a + w)" "wrap32 (int b + 2 * int w) = int (b + 2 * w)"
      using True less.prems wrap32_small [of "int a + int w"] wrap32_small [of "int b + 2 * int w"] by simp_all
    have "block_merge Less (int n) (int w) r (int b) (int (b + 2 * w)) = Some (Inr (ys, int a')) \<and> length ys = n \<and> a' \<le> n"
      using less.prems True r block_merge_nat.simps [of Less n w data a b] by (intro less.hyps) auto
    then show ?thesis using True r w by (subst block_merge.simps) (simp del: of_nat_add)
  qed
qed

lemma merge_passes_eq:
  "0 < w \<Longrightarrow> n = length data \<Longrightarrow> n < 2 ^ 30 \<Longrightarrow> merge_passes_nat Less n data w = Some ys \<Longrightarrow>
    merge_passes Less (int n) data (int w) = Some (Inr ys)"
proof (induction "n - w" arbitrary: data w rule: less_induct)
  case less
  show ?case
  proof (cases "w < n")
    case False
    then show ?thesis
      using less.prems merge_passes_nat.simps [of Less n data w] by (subst merge_passes.simps) simp
  next
    case True
    obtain d a where d: "block_merge_nat Less n w data 0 (2 * w) = Some (d, a)"
      using less.prems(4) True merge_passes_nat.simps [of Less n data w] by (auto split: Option.bind_splits)
    have dl: "block_merge Less (int n) (int w) data 0 (int (2 * w)) = Some (Inr (d, int a))" "length d = n" "a \<le> n"
      using block_merge_eq [of w n data 0 "2 * w" Less d a] less.prems True d by auto
    obtain r where r: "symMerge_nat Less d a (a + w) n = Some r"
      "symMerge Less d (int a) (int (a + w)) (int n) = Some (Inr r)" "length r = length d"
      using symMerge_eq [of n d Less a "a + w"] dl less.prems by auto
    have w: "wrap32 (int a + int w) = int (a + w)" "wrap32 (2 * int w) = int (2 * w)" "wrap32 (int w * 2) = int (w * 2)"
      using True less.prems dl(3) wrap32_small [of "int a + int w"] wrap32_small [of "2 * int w"] wrap32_small [of "int w * 2"] by simp_all
    have "merge_passes Less (int n) r (int (w * 2)) = Some (Inr ys)"
      using less.prems True d r dl(2) merge_passes_nat.simps [of Less n data w] by (intro less.hyps) auto
    then show ?thesis
      using True dl(1) r(2) by (subst merge_passes.simps) (simp only: w of_nat_less_iff if_True go_then.simps prod.case)
  qed
qed

lemma Stable_eq:
  assumes "Stable_nat Less data = Some ys" "length data < 2 ^ 30"
  shows "Stable Less data = Some (Inr ys)"
proof -
  let ?n = "length data"
  obtain d a where d: "block_sort_nat Less ?n 20 data 0 20 = Some (d, a)"
    and m: "merge_passes_nat Less ?n (insertionSort_nat Less d a ?n) 20 = Some ys"
    using assms(1) by (auto simp: Stable_nat_def Let_def split: Option.bind_splits)
  have s: "block_sort Less (int ?n) 20 data 0 20 = Some (Inr (d, int a))" "length d = ?n" "a \<le> ?n"
    using block_sort_eq [of 20 ?n data 0 Less 20 d a] d assms(2) by auto
  have i: "insertionSort Less d (int a) (int ?n) = Inr (insertionSort_nat Less d a ?n)"
    using s assms(2) by (intro insertionSort_eq) auto
  have "length (insertionSort_nat Less d a ?n) = ?n"
    using seg_perm_length [OF seg_perm_insertionSort [of ?n d a Less]] s(2) by simp
  then have "merge_passes Less (int ?n) (insertionSort_nat Less d a ?n) 20 = Some (Inr ys)"
    using merge_passes_eq [of 20 ?n "insertionSort_nat Less d a ?n" Less ys] m assms(2) by simp
  then show ?thesis by (simp add: Stable_def s(1) i)
qed

section \<open>Properties\<close>

text \<open>C15: For every strict weak order and every collection of less than \<open>2^30\<close> elements \<open>Stable\<close> returns, without an index
  out of range, a sorted permutation in which equivalent elements keep their order. (In larger collections the
  32-bit block sizes and indices can overflow.)\<close>
theorem Stable_sorts:
  assumes "strict_weak Less" "length data < 2 ^ 30"
  shows "\<exists>ys. Stable Less data = Some (Inr ys) \<and> mset ys = mset data \<and> sorted_wrt (\<lambda>x y. \<not> Less y x) ys
    \<and> (\<forall>x. filter (\<lambda>y. \<not> Less x y \<and> \<not> Less y x) ys = filter (\<lambda>y. \<not> Less x y \<and> \<not> Less y x) data)"
proof -
  obtain ys where ys: "Stable_nat Less data = Some ys" "mset ys = mset data" "keeps_order Less data ys"
      "sorted_seg Less 0 (length data) ys"
    using strict_weak.Stable_correct [OF assms(1), of data] by blast
  have "length ys = length data" using ys(2) by (metis size_mset)
  then have "sorted_wrt (\<lambda>x y. \<not> Less y x) ys" using ys(4) sorted_seg_wrt [of Less ys] by simp
  moreover have "filter (\<lambda>y. \<not> Less x y \<and> \<not> Less y x) ys = filter (\<lambda>y. \<not> Less x y \<and> \<not> Less y x) data" for x
    using ys(3) by (simp add: keeps_order_def eqv_def [abs_def])
  ultimately show ?thesis using Stable_eq [OF ys(1) assms(2)] ys(2) by blast
qed

theorem Stable_sorts_witness:
  "strict_weak IntSlice_Less \<and> (\<exists>ys. Stable IntSlice_Less [2, 1] = Some (Inr ys) \<and> mset ys = mset [2, 1])"
proof -
  have "length [2, 1 :: int] < 2 ^ 30" by simp
  from Stable_sorts [OF ints.strict_weak_axioms this] show ?thesis using ints.strict_weak_axioms by blast
qed

text \<open>\<open>rotate\<close> terminates for every pair of adjacent blocks and exchanges them in place.\<close>
theorem rotate_exchanges_blocks:
  assumes "length x = a" "length u = m - a" "length v = b - m" "a \<le> m" "m \<le> b" "length (x @ u @ v @ y) < 2 ^ 31"
  shows "rotate (x @ u @ v @ y) (int a) (int m) (int b) = Some (Inr (x @ v @ u @ y))"
  using rotate_blocks [OF assms(1-5), of y] rotate_eq [OF assms(4,5) _ assms(6)] assms(1-5) by simp

theorem rotate_exchanges_blocks_witness:
  "rotate ([7] @ [1, 2, 3] @ [4, 5] @ [9 :: nat]) 1 4 6 = Some (Inr ([7] @ [4, 5] @ [1, 2, 3] @ [9]))"
  using rotate_exchanges_blocks [of "[7 :: nat]" 1 "[1, 2, 3]" 4 "[4, 5]" 6 "[9]"] by simp

end
