(* ===== verification/GoHeap.thy ===== *)
theory GoHeap
  imports Sort
begin

text \<open>
  Package \<open>container/heap\<close> (\<open>heap.go\<close>): a binary min-heap over a collection with \<open>Less\<close> and \<open>Swap\<close>,
  as in package \<open>sort\<close>. The collection is the list of its elements; its own \<open>Push\<close> appends and its
  own \<open>Pop\<close> removes the last element. An index outside the collection makes \<open>Swap\<close> panic.
  The heap order is the property the package documents; the abstract state is the multiset of the
  elements, and \<open>Pop\<close> returns a minimum of it.
\<close>

section \<open>Definitions\<close>

function down :: "('a \<Rightarrow> 'a \<Rightarrow> bool) \<Rightarrow> 'a list \<Rightarrow> nat \<Rightarrow> nat \<Rightarrow> 'a list" where
  "down Less h i n =
    (let j1 = 2 * i + 1 in
     if j1 \<ge> n then h else
     let j2 = j1 + 1; j = (if j2 < n \<and> \<not> Less (h ! j1) (h ! j2) then j2 else j1) in
     if \<not> Less (h ! j) (h ! i) then h else down Less (Swap h i j) j n)"
  by pat_completeness auto
termination by (relation "measure (\<lambda>(Less, h, i, n). n - i)") (auto simp: Let_def)

function up :: "('a \<Rightarrow> 'a \<Rightarrow> bool) \<Rightarrow> 'a list \<Rightarrow> nat \<Rightarrow> 'a list" where
  "up Less h j =
    (let i = (j - 1) div 2 in
     if i = j \<or> \<not> Less (h ! j) (h ! i) then h else up Less (Swap h i j) i)"
  by pat_completeness auto
termination by (relation "measure (\<lambda>(Less, h, j). j)") (auto simp: Let_def)

declare down.simps [simp del] up.simps [simp del]

text \<open>\<open>Init_loop Less h n k\<close> runs the loop for \<open>i\<close> from \<open>k - 1\<close> down to 0.\<close>

fun Init_loop :: "('a \<Rightarrow> 'a \<Rightarrow> bool) \<Rightarrow> 'a list \<Rightarrow> nat \<Rightarrow> nat \<Rightarrow> 'a list" where
  "Init_loop Less h n 0 = h"
| "Init_loop Less h n (Suc i) = Init_loop Less (down Less h i n) n i"

definition Init :: "('a \<Rightarrow> 'a \<Rightarrow> bool) \<Rightarrow> 'a list \<Rightarrow> 'a list" where
  "Init Less h = (let n = length h in Init_loop Less h n (n div 2))"

definition Push :: "('a \<Rightarrow> 'a \<Rightarrow> bool) \<Rightarrow> 'a list \<Rightarrow> 'a \<Rightarrow> 'a list" where
  "Push Less h x = (let h = h @ [x] in up Less h (length h - 1))"

definition Pop :: "('a \<Rightarrow> 'a \<Rightarrow> bool) \<Rightarrow> 'a list \<Rightarrow> ('a \<times> 'a list) go" where
  "Pop Less h =
    (if h = [] then Inl PanicIndex else
     let n = length h - 1; h = down Less (Swap h 0 n) 0 n in Inr (last h, butlast h))"

definition Remove :: "('a \<Rightarrow> 'a \<Rightarrow> bool) \<Rightarrow> 'a list \<Rightarrow> nat \<Rightarrow> ('a \<times> 'a list) go" where
  "Remove Less h i =
    (if h = [] \<or> i \<ge> length h then Inl PanicIndex else
     let n = length h - 1;
         h = (if n \<noteq> i then up Less (down Less (Swap h i n) i n) i else h) in
     Inr (last h, butlast h))"

text \<open>
  With an index past the end \<open>down\<close> stops at once and \<open>up\<close> compares the missing element, except at
  index 0, which has no parent to be compared with.
\<close>

definition Fix :: "('a \<Rightarrow> 'a \<Rightarrow> bool) \<Rightarrow> 'a list \<Rightarrow> nat \<Rightarrow> 'a list go" where
  "Fix Less h i =
    (if i \<noteq> 0 \<and> i \<ge> length h then Inl PanicIndex else Inr (up Less (down Less h i (length h)) i))"

text \<open>The documented invariant, on the first \<open>n\<close> elements.\<close>

definition heap_order :: "('a \<Rightarrow> 'a \<Rightarrow> bool) \<Rightarrow> nat \<Rightarrow> 'a list \<Rightarrow> bool" where
  "heap_order Less n h \<longleftrightarrow> (\<forall>i j. i < n \<and> 2 * i + 1 \<le> j \<and> j \<le> 2 * i + 2 \<and> j < n \<longrightarrow> \<not> Less (h ! j) (h ! i))"

definition is_heap :: "('a \<Rightarrow> 'a \<Rightarrow> bool) \<Rightarrow> 'a list \<Rightarrow> bool" where
  "is_heap Less h \<longleftrightarrow> heap_order Less (length h) h"

section \<open>The heap order\<close>

text \<open>The invariant is the heap property of package \<open>sort\<close> for the reverse order.\<close>

lemma heap_order_from: "heap_order Less n h \<longleftrightarrow> heap_from (reverse_Less Less) 0 0 n h"
proof -
  have "(i < n \<and> 2 * i + 1 \<le> j \<and> j \<le> 2 * i + 2 \<and> j < n) \<longleftrightarrow> (0 < j \<and> j < n \<and> i = (j - 1) div 2)" for i j
    by auto
  then show ?thesis by (auto simp: heap_order_def heap_from_def reverse_Less_def)
qed

definition min_child :: "('a \<Rightarrow> 'a \<Rightarrow> bool) \<Rightarrow> 'a list \<Rightarrow> nat \<Rightarrow> nat \<Rightarrow> nat" where
  "min_child Less h i n =
    (if 2 * i + 2 < n \<and> \<not> Less (h ! (2 * i + 1)) (h ! (2 * i + 2)) then 2 * i + 2 else 2 * i + 1)"

lemma down_step:
  "down Less h i n =
    (if n \<le> 2 * i + 1 \<or> \<not> Less (h ! min_child Less h i n) (h ! i) then h
     else down Less (Swap h i (min_child Less h i n)) (min_child Less h i n) n)"
  by (subst down.simps) (simp add: Let_def min_child_def)

lemma min_child_bounds:
  "\<not> n \<le> 2 * i + 1 \<Longrightarrow> i < min_child Less h i n \<and> min_child Less h i n < n
     \<and> (min_child Less h i n = 2 * i + 1 \<or> min_child Less h i n = 2 * i + 2)"
  by (auto simp: min_child_def)

lemma down_induct [case_names step]:
  assumes "\<And>h i. (\<not> n \<le> 2 * i + 1 \<Longrightarrow> Less (h ! min_child Less h i n) (h ! i) \<Longrightarrow>
      P (Swap h i (min_child Less h i n)) (min_child Less h i n)) \<Longrightarrow> P h i"
  shows "P h i"
proof (induction "n - i" arbitrary: h i rule: less_induct)
  case less
  show ?case
  proof (rule assms)
    assume n: "\<not> n \<le> 2 * i + 1"
    show "P (Swap h i (min_child Less h i n)) (min_child Less h i n)"
      using min_child_bounds [OF n, of Less h] by (intro less) auto
  qed
qed

lemma down_perm: "n \<le> length h \<Longrightarrow> seg_perm 0 n h (down Less h i n)"
proof (induction h i rule: down_induct [where n = n and Less = Less])
  case (step h i)
  let ?c = "min_child Less h i n"
  show ?case
  proof (cases "n \<le> 2 * i + 1 \<or> \<not> Less (h ! ?c) (h ! i)")
    case False
    then have "seg_perm 0 n h (Swap h i ?c)"
      using step.prems min_child_bounds [of n i Less h] by (intro seg_perm_Swap) auto
    moreover have "seg_perm 0 n (Swap h i ?c) (down Less (Swap h i ?c) ?c n)" using False step by simp
    ultimately show ?thesis using False down_step [of Less h i n] by (metis seg_perm_trans)
  qed (use down_step [of Less h i n] in simp)
qed

lemma up_perm: "j < n \<Longrightarrow> n \<le> length h \<Longrightarrow> seg_perm 0 n h (up Less h j)"
proof (induction Less h j rule: up.induct)
  case (1 Less h j)
  show ?case
  proof (cases "(j - 1) div 2 = j \<or> \<not> Less (h ! j) (h ! ((j - 1) div 2))")
    case False
    have p: "(j - 1) div 2 < n" using "1.prems" by linarith
    have s: "seg_perm 0 n h (Swap h ((j - 1) div 2) j)" using "1.prems" p by (intro seg_perm_Swap) auto
    have "seg_perm 0 n (Swap h ((j - 1) div 2) j) (up Less (Swap h ((j - 1) div 2) j) ((j - 1) div 2))"
      using False "1.prems" p by (intro "1.IH" [OF refl]) auto
    then have "seg_perm 0 n h (up Less (Swap h ((j - 1) div 2) j) ((j - 1) div 2))"
      using s by (rule seg_perm_trans [rotated])
    then show ?thesis using False by (subst up.simps) (simp add: Let_def)
  qed (subst up.simps, simp add: Let_def)
qed

lemma mset_butlast: "xs \<noteq> [] \<Longrightarrow> mset xs = add_mset (last xs) (mset (butlast xs))"
  by (induction xs rule: rev_induct) auto

lemma heap_order_mono: "heap_order Less n h \<Longrightarrow> m \<le> n \<Longrightarrow> heap_order Less m h"
  unfolding heap_order_def by (meson order.strict_trans2)

lemma is_heap_butlast: "heap_order Less (length h - 1) h \<Longrightarrow> is_heap Less (butlast h)"
  by (auto simp: is_heap_def heap_order_def nth_butlast)

lemma Init_perm: "seg_perm 0 (length h) h (Init Less h)"
proof -
  have "n \<le> length h \<Longrightarrow> seg_perm 0 n h (Init_loop Less h n k)" for n k
  proof (induction k arbitrary: h)
    case (Suc k)
    have p: "seg_perm 0 n h (down Less h k n)" using Suc.prems by (rule down_perm)
    show ?case using seg_perm_trans [OF p Suc.IH] Suc.prems seg_perm_length [OF p] by simp
  qed simp
  then show ?thesis by (simp add: Init_def Let_def)
qed

text \<open>All edges hold except the one above \<open>j\<close>, and \<open>j\<close>'s children do not undercut its parent.\<close>

definition heap_above :: "('a \<Rightarrow> 'a \<Rightarrow> bool) \<Rightarrow> nat \<Rightarrow> nat \<Rightarrow> 'a list \<Rightarrow> bool" where
  "heap_above Less n j h \<longleftrightarrow>
    (\<forall>i. 0 < i \<longrightarrow> i < n \<longrightarrow> i \<noteq> j \<longrightarrow> \<not> Less (h ! i) (h ! ((i - 1) div 2)))
    \<and> (\<forall>i. 0 < i \<longrightarrow> i < n \<longrightarrow> (i - 1) div 2 = j \<longrightarrow> 0 < j \<longrightarrow> \<not> Less (h ! i) (h ! ((j - 1) div 2)))"

context strict_weak
begin

lemma heap_above_Swap:
  assumes ha: "heap_above Less n j h" and j: "j < n" "n \<le> length h"
    and p: "p = (j - 1) div 2" "p < j" and lt: "Less (h ! j) (h ! p)"
  shows "heap_above Less n p (Swap h p j)"
  unfolding heap_above_def
proof (intro conjI allI impI)
  have n: "Swap h p j ! k = (if k = p then h ! j else if k = j then h ! p else h ! k)" for k
    using j p(2) by (intro nth_Swap) auto
  have e: "\<not> Less (h ! k) (h ! ((k - 1) div 2))" if "0 < k" "k < n" "k \<noteq> j" for k
    using ha that by (auto simp: heap_above_def)
  fix k assume k: "0 < k" "k < n"
  define q where "q = (k - 1) div 2"
  have qk: "q < k" using k(1) unfolding q_def by linarith
  show "\<not> Less (Swap h p j ! k) (Swap h p j ! ((k - 1) div 2))" if kp: "k \<noteq> p"
  proof (cases "k = j")
    case True
    then have "(k - 1) div 2 = p" using p(1) by simp
    moreover have "\<not> Less (h ! p) (h ! j)" using lt asym by blast
    ultimately show ?thesis using True kp n by simp
  next
    case kj: False
    consider "q = j" | "q = p" | "q \<noteq> j" "q \<noteq> p" by blast
    then show ?thesis
    proof cases
      case 1
      then have "\<not> Less (h ! k) (h ! p)" using ha k p by (auto simp: heap_above_def q_def)
      then show ?thesis unfolding q_def [symmetric] n using 1 kj kp p(2) by simp
    next
      case 2
      then have "\<not> Less (h ! k) (h ! j)" using e [OF k kj] lt le_trans asym unfolding q_def by metis
      then show ?thesis unfolding q_def [symmetric] n using 2 kj kp by simp
    next
      case 3
      then show ?thesis using e [OF k kj] unfolding q_def [symmetric] n using kj kp by simp
    qed
  qed
  show "\<not> Less (Swap h p j ! k) (Swap h p j ! ((p - 1) div 2))" if kq: "(k - 1) div 2 = p" "0 < p"
  proof -
    have pi: "\<not> Less (h ! p) (h ! ((p - 1) div 2))" using e [of p] kq p(2) j by simp
    define r where "r = (p - 1) div 2"
    have ne: "r \<noteq> p" "r \<noteq> j" using kq(2) p(2) unfolding r_def by linarith+
    have kp: "k \<noteq> p" using qk kq(1) unfolding q_def by simp
    show ?thesis
    proof (cases "k = j")
      case True
      then show ?thesis unfolding r_def [symmetric] n using pi [folded r_def] ne p(2) by simp
    next
      case False
      have "\<not> Less (h ! k) (h ! p)" using e [OF k False] kq(1) by simp
      then have "\<not> Less (h ! k) (h ! r)" using pi le_trans unfolding r_def by blast
      then show ?thesis unfolding r_def [symmetric] n using False kp ne by simp
    qed
  qed
qed

lemma up_heap:
  assumes "heap_above Less n j h" "j < n" "n \<le> length h"
  shows "heap_order Less n (up Less h j)"
  using assms
proof (induction j arbitrary: h rule: less_induct)
  case (less j)
  let ?i = "(j - 1) div 2"
  show ?case
  proof (cases "?i = j \<or> \<not> Less (h ! j) (h ! ?i)")
    case True
    have "\<not> Less (h ! k) (h ! ((k - 1) div 2))" if "0 < k" "k < n" for k
      using True less.prems(1) that by (cases "k = j") (auto simp: heap_above_def)
    then have "heap_order Less n h" by (simp add: heap_order_from heap_from_def reverse_Less_def)
    then show ?thesis using True by (subst up.simps) (simp add: Let_def)
  next
    case False
    then have lt: "?i < j" by auto
    have "heap_above Less n ?i (Swap h ?i j)" using less.prems lt False by (intro heap_above_Swap) auto
    then have "heap_order Less n (up Less (Swap h ?i j) ?i)" using less.prems lt by (intro less.IH) auto
    then show ?thesis using False by (subst up.simps) (simp add: Let_def)
  qed
qed

text \<open>The child \<open>down\<close> takes is a least one.\<close>

lemma min_child_least:
  assumes "j = 2 * i + 1 \<or> j = 2 * i + 2" "j < n"
  shows "\<not> Less (h ! j) (h ! min_child Less h i n)"
  using assms asym irrefl by (auto simp: min_child_def)

lemma min_child_bound:
  assumes "n \<le> 2 * i + 1 \<or> \<not> Less (h ! min_child Less h i n) (h ! i)" "j = 2 * i + 1 \<or> j = 2 * i + 2" "j < n"
  shows "\<not> Less (h ! j) (h ! i)"
proof -
  have "\<not> n \<le> 2 * i + 1" using assms(2,3) by auto
  then show ?thesis using assms(1) min_child_least [OF assms(2,3), of h] le_trans by blast
qed

lemmas rev_except_done = strict_weak.heap_except_done [OF reverse_strict_weak, where first = 0, simplified]
lemmas rev_hole_swap = strict_weak.heap_hole_swap [OF reverse_strict_weak, where first = 0, simplified]

lemma down_heap:
  assumes "heap_except (reverse_Less Less) 0 k i n h" "k \<le> i" "n \<le> length h"
  shows "heap_from (reverse_Less Less) 0 k n (down Less h i n)"
  using assms
proof (induction h i rule: down_induct [where n = n and Less = Less])
  case (step h i)
  let ?c = "min_child Less h i n"
  show ?case
  proof (cases "n \<le> 2 * i + 1 \<or> \<not> Less (h ! ?c) (h ! i)")
    case True
    then have "heap_from (reverse_Less Less) 0 k n h"
      unfolding reverse_Less_def
      by (intro rev_except_done [OF step.prems(1), unfolded reverse_Less_def] min_child_bound) auto
    then show ?thesis using True down_step [of Less h i n] by simp
  next
    case False
    then have c: "?c = 2 * i + 1 \<or> ?c = 2 * i + 2" "?c < n" "i < ?c" using min_child_bounds [of n i Less h] by auto
    have "heap_except (reverse_Less Less) 0 k ?c n (Swap h i ?c)"
      using False min_child_least [of _ i n h] step.prems(2,3) c
      by (intro rev_hole_swap [OF heap_except_hole [OF step.prems(1)]]) (auto simp: reverse_Less_def)
    then have "heap_from (reverse_Less Less) 0 k n (down Less (Swap h i ?c) ?c n)"
      using False step.prems c by (intro step.IH) auto
    then show ?thesis using False down_step [of Less h i n] by simp
  qed
qed

lemma heap_order_above:
  assumes "heap_order Less n h"
  shows "heap_above Less n j h"
proof -
  have e: "\<not> Less (h ! k) (h ! ((k - 1) div 2))" if "0 < k" "k < n" for k
    using assms that by (simp add: heap_order_from heap_from_def reverse_Less_def)
  have "\<not> Less (h ! i) (h ! ((j - 1) div 2))" if "0 < i" "i < n" "(i - 1) div 2 = j" "0 < j" for i
  proof -
    have "j < n" using that by linarith
    then show ?thesis using e [OF that(1,2)] e [of j] that(3,4) le_trans by metis
  qed
  then show ?thesis using e by (auto simp: heap_above_def)
qed

lemma down_hole:
  assumes "heap_hole (reverse_Less Less) 0 0 i n h" "n \<le> length h"
  shows "heap_above Less n i (down Less h i n)"
proof (cases "n \<le> 2 * i + 1 \<or> \<not> Less (h ! min_child Less h i n) (h ! i)")
  case True
  have ge: "\<not> Less (h ! j) (h ! i)" if "0 < j" "j < n" "(j - 1) div 2 = i" for j
  proof -
    have "j = 2 * i + 1 \<or> j = 2 * i + 2" using that by auto
    then show ?thesis using True that(2) by (intro min_child_bound)
  qed
  have "\<not> Less (h ! j) (h ! ((j - 1) div 2))" if "0 < j" "j < n" "j \<noteq> i" for j
    using assms(1) that ge [OF that(1,2)] by (cases "(j - 1) div 2 = i") (auto simp: heap_hole_def reverse_Less_def)
  then have "heap_above Less n i h" using assms(1) by (auto simp: heap_above_def heap_hole_def reverse_Less_def)
  then show ?thesis using True down_step [of Less h i n] by simp
next
  case False
  let ?c = "min_child Less h i n"
  have c: "?c = 2 * i + 1 \<or> ?c = 2 * i + 2" "?c < n" "i < ?c" using False min_child_bounds [of n i Less h] by auto
  have "heap_except (reverse_Less Less) 0 0 ?c n (Swap h i ?c)"
    using False min_child_least [of _ i n h] assms c
    by (intro rev_hole_swap [OF assms(1)]) (auto simp: reverse_Less_def)
  then have "heap_order Less n (down Less (Swap h i ?c) ?c n)"
    unfolding heap_order_from using assms(2) by (intro down_heap) auto
  then show ?thesis using False down_step [of Less h i n] heap_order_above by simp
qed

lemma Init_loop_heap:
  assumes "heap_from (reverse_Less Less) 0 k n h" "n \<le> length h"
  shows "heap_order Less n (Init_loop Less h n k)"
  using assms
proof (induction k arbitrary: h)
  case 0
  then show ?case by (simp add: heap_order_from)
next
  case (Suc k)
  have "heap_from (reverse_Less Less) 0 k n (down Less h k n)"
    using Suc.prems heap_except_of_from [of "reverse_Less Less" 0 k n h] by (intro down_heap) auto
  then show ?case using Suc.IH seg_perm_length [OF down_perm [OF Suc.prems(2)]] Suc.prems(2) by simp
qed

lemma Init_heap: "is_heap Less (Init Less h)"
proof -
  have "heap_from (reverse_Less Less) 0 (length h div 2) (length h) h" by (auto simp: heap_from_def)
  then have "heap_order Less (length h) (Init_loop Less h (length h) (length h div 2))"
    by (intro Init_loop_heap) auto
  then show ?thesis using seg_perm_length [OF Init_perm [of h Less]] by (simp add: is_heap_def Init_def Let_def)
qed

lemma Push_heap:
  assumes "is_heap Less h"
  shows "is_heap Less (Push Less h x)"
proof -
  have "heap_above Less (Suc (length h)) (length h) (h @ [x])"
    using assms by (auto simp: heap_above_def is_heap_def heap_order_from heap_from_def reverse_Less_def nth_append)
  then have "heap_order Less (Suc (length h)) (up Less (h @ [x]) (length h))" by (intro up_heap) auto
  then show ?thesis using seg_perm_length [OF up_perm, of "length h" "Suc (length h)" "h @ [x]"]
    by (simp add: Push_def is_heap_def)
qed

text \<open>Removing the last element after the element at \<open>i\<close> was exchanged with it.\<close>

lemma hole_Swap_last:
  assumes "is_heap Less h" "i < length h"
  shows "heap_hole (reverse_Less Less) 0 0 i (length h - 1) (Swap h i (length h - 1))"
proof -
  have e: "\<not> Less (h ! k) (h ! ((k - 1) div 2))" if "0 < k" "k < length h" for k
    using assms that by (simp add: is_heap_def heap_order_from heap_from_def reverse_Less_def)
  have above: "heap_above Less (length h) i h" using assms(1) unfolding is_heap_def by (rule heap_order_above)
  have n: "Swap h i (length h - 1) ! k = h ! k" if "k \<noteq> i" "k < length h - 1" for k
    using that by (intro nth_Swap_other) auto
  show ?thesis
    unfolding heap_hole_def reverse_Less_def add_0
  proof (intro conjI allI impI)
    fix k assume k: "0 < k" "k < length h - 1"
    show "\<not> Less (Swap h i (length h - 1) ! k) (Swap h i (length h - 1) ! ((k - 1) div 2))"
      if "(k - 1) div 2 \<noteq> i" "k \<noteq> i"
      using e [of k] k that n [of k] n [of "(k - 1) div 2"] by auto
    show "\<not> Less (Swap h i (length h - 1) ! k) (Swap h i (length h - 1) ! ((i - 1) div 2))"
      if "(k - 1) div 2 = i" "0 < i"
    proof -
      have "(i - 1) div 2 \<noteq> i" "(i - 1) div 2 < length h - 1" "k \<noteq> i" using that k by linarith+
      then show ?thesis using above k that n [of k] n [of "(i - 1) div 2"] by (auto simp: heap_above_def)
    qed
  qed
qed

lemma Fix_heap:
  assumes "is_heap Less h" "i < length h"
  shows "\<exists>h'. Fix Less (h[i := x]) i = Inr h' \<and> is_heap Less h' \<and> mset h' = mset (h[i := x])"
proof -
  let ?n = "length h" and ?h = "h[i := x]"
  have e: "\<not> Less (h ! k) (h ! ((k - 1) div 2))" if "0 < k" "k < ?n" for k
    using assms that by (simp add: is_heap_def heap_order_from heap_from_def reverse_Less_def)
  have above: "heap_above Less ?n i h" using assms(1) unfolding is_heap_def by (rule heap_order_above)
  have "heap_hole (reverse_Less Less) 0 0 i ?n ?h"
    unfolding heap_hole_def reverse_Less_def add_0
  proof (intro conjI allI impI)
    fix k assume k: "0 < k" "k < ?n"
    show "\<not> Less (?h ! k) (?h ! ((k - 1) div 2))" if "(k - 1) div 2 \<noteq> i" "k \<noteq> i"
      using e [OF k] that by simp
    show "\<not> Less (?h ! k) (?h ! ((i - 1) div 2))" if "(k - 1) div 2 = i" "0 < i"
    proof -
      have "(i - 1) div 2 \<noteq> i" "k \<noteq> i" using that k by linarith+
      then show ?thesis using above k that by (auto simp: heap_above_def)
    qed
  qed
  then have "heap_above Less ?n i (down Less ?h i ?n)" by (intro down_hole) auto
  moreover have p: "seg_perm 0 ?n ?h (down Less ?h i ?n)" by (intro down_perm) auto
  ultimately have "heap_order Less ?n (up Less (down Less ?h i ?n) i)"
    using assms(2) seg_perm_length [OF p] by (intro up_heap) auto
  moreover have u: "seg_perm 0 ?n (down Less ?h i ?n) (up Less (down Less ?h i ?n) i)"
    using assms(2) seg_perm_length [OF p] by (intro up_perm) auto
  have "seg_perm 0 ?n ?h (up Less (down Less ?h i ?n) i)" using p u by (rule seg_perm_trans)
  ultimately show ?thesis using assms(2) seg_perm_length [OF u] seg_perm_length [OF p]
    by (auto simp: Fix_def is_heap_def seg_perm_def)
qed

lemma Remove_heap:
  assumes "is_heap Less h" "i < length h"
  shows "\<exists>h'. Remove Less h i = Inr (h ! i, h') \<and> is_heap Less h' \<and> mset h = add_mset (h ! i) (mset h')"
proof (cases "i = length h - 1")
  case True
  have "h \<noteq> []" using assms(2) by auto
  then have "last h = h ! i" "mset h = add_mset (last h) (mset (butlast h))"
    using True mset_butlast [of h] by (simp_all add: last_conv_nth)
  moreover have "is_heap Less (butlast h)"
    using heap_order_mono [OF assms(1) [unfolded is_heap_def]] by (intro is_heap_butlast) simp
  ultimately show ?thesis using True assms(2) by (auto simp: Remove_def Let_def)
next
  case False
  let ?n = "length h - 1"
  let ?s = "Swap h i ?n"
  let ?d = "down Less ?s i ?n"
  let ?u = "up Less ?d i"
  have i: "i < ?n" using False assms(2) by auto
  have p: "seg_perm 0 ?n ?s ?d" by (intro down_perm) auto
  have u: "seg_perm 0 ?n ?d ?u" using i seg_perm_length [OF p] by (intro up_perm) auto
  have "heap_above Less ?n i ?d" using hole_Swap_last [OF assms] by (intro down_hole) auto
  then have o: "heap_order Less ?n ?u" using i seg_perm_length [OF p] by (intro up_heap) auto
  have su: "seg_perm 0 ?n ?s ?u" using p u by (rule seg_perm_trans)
  have len: "length ?u = length h" using seg_perm_length [OF su] by simp
  then have ne: "?u \<noteq> []" using assms(2) by auto
  have l: "last ?u = h ! i"
    using seg_perm_outside [OF su, of ?n] ne len i nth_Swap [of i h ?n ?n] by (simp add: last_conv_nth)
  have "mset ?u = mset h" using su mset_Swap [of i h ?n] i assms(2) by (auto simp: seg_perm_def)
  moreover have "mset ?u = add_mset (last ?u) (mset (butlast ?u))"
    using ne by (rule mset_butlast)
  moreover have "is_heap Less (butlast ?u)" using o len by (intro is_heap_butlast) simp
  ultimately show ?thesis using l False assms(2) by (auto simp: Remove_def Let_def)
qed

text \<open>\<open>Pop\<close> is \<open>Remove\<close> at index 0, and that element is a minimum.\<close>

lemma Pop_eq_Remove: "Pop Less h = Remove Less h 0"
proof (cases "length h \<le> 1")
  case True
  then show ?thesis
    by (cases h) (auto simp: Pop_def Remove_def Let_def down_step [of Less _ 0 0] Swap_def)
next
  case False
  have "up Less (down Less (Swap h 0 (length h - 1)) 0 (length h - 1)) 0
    = down Less (Swap h 0 (length h - 1)) 0 (length h - 1)" by (subst up.simps) simp
  then show ?thesis using False by (auto simp: Pop_def Remove_def Let_def)
qed

lemma heap_root_min:
  assumes "is_heap Less h" "y \<in> set h"
  shows "\<not> Less y (h ! 0)"
proof -
  obtain i where i: "i < length h" "y = h ! i" using assms(2) by (auto simp: in_set_conv_nth)
  have "\<not> reverse_Less Less (h ! 0) (h ! (0 + i))"
    using assms(1) i(1) by (intro strict_weak.heap_max [OF reverse_strict_weak]) (auto simp: is_heap_def heap_order_from)
  then show ?thesis using i by (simp add: reverse_Less_def)
qed

lemma Pop_heap:
  assumes "is_heap Less h" "h \<noteq> []"
  shows "\<exists>h'. Pop Less h = Inr (h ! 0, h') \<and> is_heap Less h' \<and> mset h = add_mset (h ! 0) (mset h')"
  using Remove_heap [OF assms(1), of 0] assms(2) by (simp add: Pop_eq_Remove)

end

section \<open>The priority queue a client sees\<close>

text \<open>
  The contract of the package: an abstract multiset of elements with insertion and removal of a
  least element. \<open>pop_all\<close> is a client: it empties the queue.
\<close>

fun pop_all :: "('h \<Rightarrow> ('a \<times> 'h) go) \<Rightarrow> nat \<Rightarrow> 'h \<Rightarrow> 'a list go" where
  "pop_all pop 0 h = Inr []"
| "pop_all pop (Suc n) h = go_bind (pop h) (\<lambda>(x, h). go_bind (pop_all pop n h) (\<lambda>xs. Inr (x # xs)))"

locale priority_queue = strict_weak Less for Less :: "'a \<Rightarrow> 'a \<Rightarrow> bool" +
  fixes inv :: "'h \<Rightarrow> bool" and elems :: "'h \<Rightarrow> 'a multiset"
    and init :: "'a list \<Rightarrow> 'h" and push :: "'h \<Rightarrow> 'a \<Rightarrow> 'h" and pop :: "'h \<Rightarrow> ('a \<times> 'h) go"
  assumes init: "inv (init xs) \<and> elems (init xs) = mset xs"
    and push: "inv h \<Longrightarrow> inv (push h x) \<and> elems (push h x) = add_mset x (elems h)"
    and pop_empty: "inv h \<Longrightarrow> elems h = {#} \<Longrightarrow> pop h = Inl PanicIndex"
    and pop: "inv h \<Longrightarrow> elems h \<noteq> {#} \<Longrightarrow> \<exists>x h'. pop h = Inr (x, h') \<and> inv h'
      \<and> elems h = add_mset x (elems h') \<and> (\<forall>y. y \<in># elems h' \<longrightarrow> \<not> Less y x)"
begin

lemma push_all: "inv h \<Longrightarrow> inv (foldl push h xs) \<and> elems (foldl push h xs) = elems h + mset xs"
proof (induction xs arbitrary: h)
  case (Cons x xs)
  then show ?case using push [OF Cons.prems, of x] Cons.IH [of "push h x"] by simp
qed simp

lemma pop_all_sorted:
  "inv h \<Longrightarrow> size (elems h) = n \<Longrightarrow>
    \<exists>ys. pop_all pop n h = Inr ys \<and> mset ys = elems h \<and> sorted_wrt (\<lambda>x y. \<not> Less y x) ys"
proof (induction n arbitrary: h)
  case (Suc n)
  then have "elems h \<noteq> {#}" by auto
  from pop [OF Suc.prems(1) this] obtain x h' where
    p: "pop h = Inr (x, h')" "inv h'" "elems h = add_mset x (elems h')" "\<forall>y. y \<in># elems h' \<longrightarrow> \<not> Less y x"
    by blast
  then obtain ys where ys: "pop_all pop n h' = Inr ys" "mset ys = elems h'" "sorted_wrt (\<lambda>x y. \<not> Less y x) ys"
    using Suc by force
  then have "\<forall>y\<in>set ys. \<not> Less y x" using p(4) by (metis set_mset_mset)
  then show ?case using p ys by auto
qed simp

lemma queue_sorts:
  "\<exists>ys. pop_all pop (length xs + length zs) (foldl push (init xs) zs) = Inr ys
     \<and> mset ys = mset xs + mset zs \<and> sorted_wrt (\<lambda>x y. \<not> Less y x) ys"
  using pop_all_sorted [of "foldl push (init xs) zs" "length xs + length zs"] push_all [of "init xs" zs] init [of xs]
  by simp

end

lemma Push_mset: "mset (Push Less h x) = add_mset x (mset h)"
  using up_perm [of "length h" "Suc (length h)" "h @ [x]" Less] by (simp add: Push_def seg_perm_def)

lemma heap_priority_queue:
  assumes "strict_weak Less"
  shows "priority_queue Less (is_heap Less) mset (Init Less) (Push Less) (Pop Less)"
proof -
  note sw = assms
  show ?thesis
  proof (intro priority_queue.intro priority_queue_axioms.intro conjI sw)
    fix h :: "'a list" assume h: "is_heap Less h"
    show "is_heap Less (Push Less h x)" for x using sw h by (rule strict_weak.Push_heap)
    show "Pop Less h = Inl PanicIndex" if "mset h = {#}" using that by (simp add: Pop_def)
    show "\<exists>x h'. Pop Less h = Inr (x, h') \<and> is_heap Less h' \<and> mset h = add_mset x (mset h')
        \<and> (\<forall>y. y \<in># mset h' \<longrightarrow> \<not> Less y x)" if "mset h \<noteq> {#}"
    proof -
      have "h \<noteq> []" using that by auto
      from strict_weak.Pop_heap [OF sw h this] obtain h' where
        p: "Pop Less h = Inr (h ! 0, h')" "is_heap Less h'" "mset h = add_mset (h ! 0) (mset h')" by blast
      have "y \<in> set h" if "y \<in># mset h'" for y using that arg_cong [OF p(3), of set_mset] by auto
      then show ?thesis using p strict_weak.heap_root_min [OF sw h] by blast
    qed
  qed (use sw strict_weak.Init_heap Init_perm Push_mset in \<open>auto simp: seg_perm_def\<close>)
qed

interpretation int_heap: priority_queue IntSlice_Less "is_heap IntSlice_Less" mset "Init IntSlice_Less"
  "Push IntSlice_Less" "Pop IntSlice_Less"
  by (rule heap_priority_queue) (rule ints.strict_weak_axioms)

interpretation string_heap: priority_queue StringSlice_Less "is_heap StringSlice_Less" mset "Init StringSlice_Less"
  "Push StringSlice_Less" "Pop StringSlice_Less"
  by (rule heap_priority_queue) (rule strings.strict_weak_axioms)

section \<open>Properties\<close>

text \<open>C17: the documented heap invariant holds after \<open>Init\<close>, and \<open>Push\<close>, \<open>Pop\<close>, \<open>Remove\<close> at any index and
  \<open>Fix\<close> after any one element was overwritten keep it, with the elements changed exactly as
  documented; \<open>Pop\<close> and \<open>Remove\<close> at 0 agree, and a \<open>Pop\<close> of an empty heap panics.\<close>

theorem heap_invariant:
  assumes "strict_weak Less" "is_heap Less h" "i < length h"
  shows "is_heap Less (Init Less xs) \<and> mset (Init Less xs) = mset xs
    \<and> is_heap Less (Push Less h x) \<and> mset (Push Less h x) = add_mset x (mset h)
    \<and> Pop Less h = Remove Less h 0
    \<and> (\<exists>h'. Remove Less h i = Inr (h ! i, h') \<and> is_heap Less h' \<and> mset h = add_mset (h ! i) (mset h'))
    \<and> (\<exists>h'. Fix Less (h[i := x]) i = Inr h' \<and> is_heap Less h' \<and> mset h' = mset (h[i := x]))
    \<and> \<not> Less (h ! i) (h ! 0)"
  using assms strict_weak.Init_heap [OF assms(1)] strict_weak.Push_heap [OF assms(1,2)]
    strict_weak.Pop_eq_Remove [OF assms(1)] strict_weak.Remove_heap [OF assms]
    strict_weak.Fix_heap [OF assms] strict_weak.heap_root_min [OF assms(1,2), of "h ! i"] Init_perm [of xs Less] Push_mset [of Less h x]
  by (simp add: seg_perm_def)

theorem heap_invariant_witness:
  "is_heap IntSlice_Less (Init IntSlice_Less [5, 2, 8])
     \<and> (\<exists>h'. Remove IntSlice_Less [1, 4, 2, 7] 1 = Inr (4, h') \<and> is_heap IntSlice_Less h')"
proof -
  have "is_heap IntSlice_Less [1, 4, 2, 7]"
    by (auto simp: is_heap_def heap_order_def IntSlice_Less_def less_Suc_eq numeral_nat nth_Cons')
  from heap_invariant [OF ints.strict_weak_axioms this, of 1 "[5, 2, 8]"] show ?thesis by auto
qed

text \<open>C18: the package implements a priority queue: after \<open>Init\<close> on a slice and any number of \<open>Push\<close>es,
  popping as many times as there are elements never panics and returns all of them, those of the
  slice and those pushed, in ascending order.\<close>

theorem heap_refines_priority_queue:
  assumes "strict_weak Less"
  shows "\<exists>ys. pop_all (Pop Less) (length xs + length zs) (foldl (Push Less) (Init Less xs) zs) = Inr ys
     \<and> mset ys = mset xs + mset zs \<and> sorted_wrt (\<lambda>x y. \<not> Less y x) ys"
  by (rule priority_queue.queue_sorts [OF heap_priority_queue [OF assms]])

theorem heap_refines_priority_queue_witness:
  "\<exists>ys. pop_all (Pop StringSlice_Less) 3 (foldl (Push StringSlice_Less) (Init StringSlice_Less [[98], [97]]) [[97, 98]]) = Inr ys
     \<and> mset ys = mset [[98], [97], [97, 98]] \<and> sorted_wrt (\<lambda>x y. \<not> StringSlice_Less y x) ys"
  using heap_refines_priority_queue [OF strings.strict_weak_axioms, of "[[98], [97]]" "[[97, 98]]"]
  by (simp add: numeral_3_eq_3 add_mset_commute)

end
