(* ===== verification/Varint.thy ===== *)
theory Varint
  imports Prelude
begin

text \<open>
  Package \<open>encoding/binary\<close>, the variable-length integers of \<open>varint.go\<close>. An \<open>int64\<close> is a 64-bit
  word. The buffer operations are total; \<open>ReadUvarint\<close> and \<open>ReadVarint\<close> read from a parameter
  \<open>readByte\<close>, the \<open>io.ByteReader\<close> of the caller, in a loop without a bound, so they are
  option-valued and \<open>None\<close> is "does not return".
\<close>

section \<open>Definitions\<close>

definition MaxVarintLen16 :: nat where "MaxVarintLen16 = 3"
definition MaxVarintLen32 :: nat where "MaxVarintLen32 = 5"
definition MaxVarintLen64 :: nat where "MaxVarintLen64 = 10"

lemma shift_7_less: "0x80 \<le> x \<Longrightarrow> unat (drop_bit 7 x) < unat x" for x :: u64
  by (auto simp: unat_shr word_le_nat_alt intro: div_less_dividend)

function PutUvarint_loop :: "u8 list \<Rightarrow> nat \<Rightarrow> u64 \<Rightarrow> (u8 list \<times> nat) go" where
  "PutUvarint_loop buf i x =
    (if x \<ge> 0x80
     then go_bind (go_set buf i (ucast x OR 0x80)) (\<lambda>buf. PutUvarint_loop buf (i + 1) (drop_bit 7 x))
     else go_bind (go_set buf i (ucast x)) (\<lambda>buf. Inr (buf, i + 1)))"
  by pat_completeness auto
termination by (relation "measure (\<lambda>(buf, i, x). unat x)") (simp_all add: shift_7_less)

declare PutUvarint_loop.simps [simp del]

definition PutUvarint :: "u8 list \<Rightarrow> u64 \<Rightarrow> (u8 list \<times> nat) go" where
  "PutUvarint buf x = PutUvarint_loop buf 0 x"

fun Uvarint_loop :: "u64 \<Rightarrow> u32 \<Rightarrow> nat \<Rightarrow> u8 list \<Rightarrow> u64 \<times> int" where
  "Uvarint_loop x s i [] = (0, 0)"
| "Uvarint_loop x s i (b # buf) =
    (if b < 0x80 then
       if i > 9 \<or> i = 9 \<and> b > 1 then (0, - int (i + 1))
       else (x OR push_bit (unat s) (ucast b), int (i + 1))
     else Uvarint_loop (x OR push_bit (unat s) (ucast (b AND 0x7f))) (s + 7) (i + 1) buf)"

definition Uvarint :: "u8 list \<Rightarrow> u64 \<times> int" where
  "Uvarint buf = Uvarint_loop 0 0 0 buf"

definition PutVarint :: "u8 list \<Rightarrow> u64 \<Rightarrow> (u8 list \<times> nat) go" where
  "PutVarint buf x =
    (let ux = push_bit 1 x; ux = (if x <s 0 then NOT ux else ux) in PutUvarint buf ux)"

definition Varint :: "u8 list \<Rightarrow> u64 \<times> int" where
  "Varint buf =
    (case Uvarint buf of (ux, n) \<Rightarrow>
     let x = drop_bit 1 ux; x = (if ux AND 1 \<noteq> 0 then NOT x else x) in (x, n))"

text \<open>The error of \<open>ReadUvarint\<close>: the package's \<open>overflow\<close> or the reader's own error.\<close>

datatype 'e varint_error = overflow | ReadError 'e

text \<open>The counter \<open>i\<close> is a 32-bit \<open>int\<close> here: nothing bounds the number of bytes read.\<close>

partial_function (option) ReadUvarint_loop :: "('r \<Rightarrow> ('e + u8) \<times> 'r) \<Rightarrow> 'r \<Rightarrow> u64 \<Rightarrow> u32 \<Rightarrow> u32
    \<Rightarrow> (u64 \<times> 'e varint_error option \<times> 'r) option" where
  "ReadUvarint_loop readByte r x s i =
    (case readByte r of
       (Inl err, r) \<Rightarrow> Some (x, Some (ReadError err), r)
     | (Inr b, r) \<Rightarrow>
       if b < 0x80 then
         if 9 <s i \<or> i = 9 \<and> b > 1 then Some (x, Some overflow, r)
         else Some (x OR push_bit (unat s) (ucast b), None, r)
       else ReadUvarint_loop readByte r (x OR push_bit (unat s) (ucast (b AND 0x7f))) (s + 7) (i + 1))"

declare ReadUvarint_loop.simps [code]

definition ReadUvarint :: "('r \<Rightarrow> ('e + u8) \<times> 'r) \<Rightarrow> 'r \<Rightarrow> (u64 \<times> 'e varint_error option \<times> 'r) option" where
  "ReadUvarint readByte r = ReadUvarint_loop readByte r 0 0 0"

definition ReadVarint :: "('r \<Rightarrow> ('e + u8) \<times> 'r) \<Rightarrow> 'r \<Rightarrow> (u64 \<times> 'e varint_error option \<times> 'r) option" where
  "ReadVarint readByte r =
    map_option (\<lambda>(ux, err, r).
      let x = drop_bit 1 ux; x = (if ux AND 1 \<noteq> 0 then NOT x else x) in (x, err, r)) (ReadUvarint readByte r)"

section \<open>The encoding\<close>

text \<open>
  The reference: seven bits per byte, the least significant first, the top bit set on all but the
  last byte. \<open>uvalue\<close> is the number a byte sequence stands for.
\<close>

fun uv :: "nat \<Rightarrow> u8 list" where
  "uv n = (if n < 128 then [of_nat n] else of_nat (n mod 128 + 128) # uv (n div 128))"

declare uv.simps [simp del]

fun uvalue :: "u8 list \<Rightarrow> nat" where
  "uvalue [] = 0"
| "uvalue (b # bs) = unat b mod 128 + 128 * uvalue bs"

lemma uv_not_Nil [simp]: "uv n \<noteq> []"
  by (subst uv.simps) simp

lemma unat_byte_of_nat: "n < 256 \<Longrightarrow> unat (of_nat n :: u8) = n"
  by (simp add: unat_of_nat)

lemma uvalue_uv: "uvalue (uv n) = n"
proof (induction n rule: uv.induct)
  case (1 n)
  show ?case
  proof (cases "n < 128")
    case True
    then show ?thesis by (subst uv.simps) (simp add: unat_byte_of_nat)
  next
    case False
    then have "uvalue (uv n) = (n mod 128 + 128) mod 128 + 128 * (n div 128)"
      using 1 by (subst uv.simps) (simp add: unat_byte_of_nat del: of_nat_add)
    then show ?thesis by simp
  qed
qed

lemma uv_shape:
  obtains cs b where "uv n = cs @ [b]" "list_all (\<lambda>b. 0x80 \<le> b) cs" "b < 0x80"
proof -
  have "\<exists>cs b. uv n = cs @ [b] \<and> list_all (\<lambda>b. 0x80 \<le> b) cs \<and> b < 0x80"
  proof (induction n rule: uv.induct)
    case (1 n)
    show ?case
    proof (cases "n < 128")
      case True
      then have "uv n = [] @ [of_nat n]" by (subst uv.simps) simp
      moreover have "(of_nat n :: u8) < 0x80" using True unat_byte_of_nat [of n] by (simp add: word_less_nat_alt)
      ultimately show ?thesis by (intro exI [of _ "[]"] exI [of _ "of_nat n"]) simp
    next
      case False
      then obtain cs b where cb: "uv (n div 128) = cs @ [b]" "list_all (\<lambda>b. 0x80 \<le> b) cs" "b < 0x80"
        using 1 by blast
      have "(0x80 :: u8) \<le> of_nat (n mod 128 + 128)" by (simp add: word_le_nat_alt unat_byte_of_nat del: of_nat_add)
      then show ?thesis using False cb uv.simps [of n]
        by (intro exI [of _ "of_nat (n mod 128 + 128) # cs"] exI [of _ b]) simp
    qed
  qed
  then show thesis using that by blast
qed

lemma length_uv: "n < 128 ^ Suc k \<Longrightarrow> length (uv n) \<le> Suc k"
proof (induction k arbitrary: n)
  case 0
  then show ?case by (subst uv.simps) simp
next
  case (Suc k)
  then have "n div 128 < 128 ^ Suc k" by (auto simp: div_less_iff_less_mult mult.commute)
  then show ?case using Suc.IH [of "n div 128"] by (subst uv.simps) auto
qed

lemma length_uv_64: "length (uv (unat x)) \<le> 10" for x :: u64
proof -
  have "unat x < 128 ^ Suc 9" using unat_lt2p [of x] by simp
  then show ?thesis using length_uv [of "unat x" 9] by simp
qed

section \<open>Writing\<close>

lemma low_byte: "unat (ucast (x :: u64) OR 0x80 :: u8) = unat x mod 128 + 128"
proof -
  have "(0x80 :: u8) = push_bit 7 1" by simp
  then have "(ucast x OR 0x80 :: u8) = push_bit 7 1 OR take_bit 7 (ucast x)"
    by (intro bit_word_eqI) (auto simp only: bit_or_iff bit_push_bit_iff bit_take_bit_iff bit_1_iff, simp_all)
  moreover have "unat (take_bit 7 (ucast x) :: u8) = take_bit 7 (unat x)"
    unfolding unsigned_take_bit_eq unsigned_ucast_eq by simp
  then have "unat (take_bit 7 (ucast x) :: u8) = unat x mod 128" by (simp add: take_bit_eq_mod)
  ultimately show ?thesis using unat_or_shift [of "take_bit 7 (ucast x) :: u8" 7 1] by simp
qed

lemma PutUvarint_loop_writes:
  "i \<le> length buf \<Longrightarrow> PutUvarint_loop buf i x =
    (if i + length (uv (unat x)) \<le> length buf
     then Inr (fill buf i (uv (unat x)), i + length (uv (unat x))) else Inl PanicIndex)"
proof (induction buf i x rule: PutUvarint_loop.induct)
  case (1 buf i x)
  show ?case
  proof (cases "x \<ge> 0x80")
    case True
    then have ge: "\<not> unat x < 128" by (simp add: word_le_nat_alt)
    define b where "b = (ucast x OR 0x80 :: u8)"
    have b: "b = of_nat (unat x mod 128 + 128)"
      by (rule word_unat_eq_iff [THEN iffD2]) (simp add: b_def low_byte unat_byte_of_nat del: of_nat_add)
    have uv: "uv (unat x) = b # uv (unat (drop_bit 7 x))"
      using ge by (subst uv.simps) (simp add: b unat_shr)
    show ?thesis
    proof (cases "i < length buf")
      case i: True
      have "PutUvarint_loop buf i x = PutUvarint_loop (fill buf i [b]) (i + 1) (drop_bit 7 x)"
        using True i by (subst PutUvarint_loop.simps) (simp add: go_set_fill b_def)
      also have "\<dots> = (if i + 1 + length (uv (unat (drop_bit 7 x))) \<le> length buf
          then Inr (fill (fill buf i [b]) (i + 1) (uv (unat (drop_bit 7 x))), i + 1 + length (uv (unat (drop_bit 7 x))))
          else Inl PanicIndex)"
        using 1(1) [OF True, of "fill buf i [b]"] i by simp
      finally show ?thesis using fill_fill [of i "[b]" "uv (unat (drop_bit 7 x))" buf] by (simp add: uv)
    next
      case False
      then show ?thesis using True "1.prems" by (subst PutUvarint_loop.simps) (simp add: go_set_def uv)
    qed
  next
    case False
    then have "unat x < 128" by (simp add: word_le_nat_alt)
    moreover from this have "(ucast x :: u8) = of_nat (unat x)" by (intro word_unat_eq_iff [THEN iffD2]) (simp add: unat_byte_of_nat unsigned_ucast_eq take_bit_eq_mod)
    ultimately have "uv (unat x) = [ucast x]" by (subst uv.simps) simp
    then show ?thesis using False "1.prems" 
      by (subst PutUvarint_loop.simps) (cases "i < length buf", simp_all add: go_set_fill, simp add: go_set_def)
  qed
qed

section \<open>Reading\<close>

lemma uvalue_bound: "uvalue cs < 128 ^ length cs"
proof (induction cs)
  case (Cons b cs)
  have "unat b mod 128 < 128" by simp
  then show ?case using Cons by simp
qed simp

lemma unat_ucast_8_64: "unat (ucast (w :: u8) :: u64) = unat w"
  using unat_lt2p [of w] by (simp add: unsigned_ucast_eq take_bit_eq_mod)

lemma add_digit:
  fixes x d :: u64 and s :: u32
  assumes "unat x < 128 ^ i" "unat s = 7 * i" "unat d * 128 ^ i < 2 ^ 64" "i \<le> 9"
  shows "unat (x OR push_bit (unat s) d) = unat x + unat d * 128 ^ i"
proof -
  have p: "(128 :: nat) ^ i = 2 ^ (7 * i)" by (simp add: power_mult)
  have "unat (push_bit (7 * i) d OR x) = unat d * 2 ^ (7 * i) + unat x"
    using assms by (intro unat_or_shift) (auto simp: p)
  then show ?thesis by (simp add: assms(2) p or.commute add.commute)
qed

lemma Uvarint_loop_reads:
  assumes "list_all (\<lambda>b. 0x80 \<le> b) cs" "b < 0x80" "unat x < 128 ^ i" "unat s = 7 * i"
    "i + length cs \<le> 9" "i + length cs = 9 \<Longrightarrow> b \<le> 1"
  shows "\<exists>v. Uvarint_loop x s i (cs @ b # rest) = (v, int (i + length cs + 1))
    \<and> unat v = unat x + 128 ^ i * uvalue (cs @ [b])"
  using assms
proof (induction cs arbitrary: x s i)
  case Nil
  have "unat b < 128" using Nil(2) by (simp add: word_less_nat_alt)
  then have "unat b * 128 ^ i < 2 ^ 64"
  proof (cases "i = 9")
    case True
    then have "unat b \<le> 1" using Nil(6) by (simp add: word_le_nat_alt)
    then have "unat b * 128 ^ i \<le> 1 * 128 ^ 9" using True by (intro mult_mono) auto
    then show ?thesis by simp
  next
    case False
    then have "(128 :: nat) ^ i \<le> 128 ^ 8" using Nil(5) by (intro power_increasing) auto
    then have "unat b * 128 ^ i \<le> 127 * 128 ^ 8" using \<open>unat b < 128\<close> by (intro mult_mono) auto
    then show ?thesis by simp
  qed
  moreover have u: "unat (ucast b :: u64) = unat b" by (rule unat_ucast_8_64)
  ultimately have "unat (x OR push_bit (unat s) (ucast b)) = unat x + 128 ^ i * unat b"
    using add_digit [of x i s "ucast b"] Nil u by (simp add: mult.commute)
  moreover have "\<not> (i > 9 \<or> i = 9 \<and> b > 1)" using Nil by auto
  ultimately show ?case using Nil(2) \<open>unat b < 128\<close> by simp
next
  case (Cons c cs)
  have i: "i \<le> 8" using Cons.prems(5) by simp
  let ?d = "ucast (c AND 0x7f) :: u64"
  let ?x = "x OR push_bit (unat s) ?d"
  have "c AND 0x7f = c AND mask 7" by (simp add: mask_eq_exp_minus_1)
  then have "unat (c AND 0x7f) = unat c mod 128" using unat_and_mask [of c 7] by simp
  then have d: "unat ?d = unat c mod 128" by (simp add: unat_ucast_8_64)
  have "(128 :: nat) ^ i \<le> 128 ^ 8" using i by (intro power_increasing) auto
  then have "unat ?d * 128 ^ i \<le> 127 * 128 ^ 8" unfolding d by (intro mult_mono) auto
  then have x: "unat ?x = unat x + (unat c mod 128) * 128 ^ i"
    using add_digit [of x i s ?d] Cons.prems i d by simp
  have "(unat c mod 128) * 128 ^ i \<le> 127 * 128 ^ i" by (rule mult_le_mono1) simp
  then have "unat ?x < 128 ^ Suc i" using x Cons.prems(3) unfolding power_Suc by linarith
  moreover have s7: "unat (s + 7) = 7 * Suc i" using Cons.prems(4) i by (simp add: unat_word_ariths)
  ultimately obtain v where v: "Uvarint_loop ?x (s + 7) (Suc i) (cs @ b # rest) = (v, int (Suc i + length cs + 1))"
      "unat v = unat ?x + 128 ^ Suc i * uvalue (cs @ [b])"
    using Cons.IH [of ?x "Suc i" "s + 7"] Cons.prems s7 by auto
  moreover have "\<not> c < 0x80" using Cons.prems(1) by auto
  ultimately show ?case using x by (simp add: algebra_simps)
qed

lemma Uvarint_loop_overflow:
  assumes "list_all (\<lambda>b. 0x80 \<le> b) cs" "b < 0x80" "9 < i + length cs \<or> i + length cs = 9 \<and> 1 < b"
  shows "Uvarint_loop x s i (cs @ b # rest) = (0, - int (i + length cs + 1))"
  using assms by (induction cs arbitrary: x s i) (auto simp: not_le [symmetric])

lemma Uvarint_loop_short: "list_all (\<lambda>b. 0x80 \<le> b) cs \<Longrightarrow> Uvarint_loop x s i cs = (0, 0)"
  by (induction cs arbitrary: x s i) auto

lemma Uvarint_loop_count: "Uvarint_loop x s i buf = (v, n) \<Longrightarrow> n = 0 \<or> i < nat \<bar>n\<bar>"
  by (induction buf arbitrary: x s i) (fastforce split: if_splits)+

text \<open>
  What \<open>Uvarint\<close> returns: the number when a terminated sequence starts the buffer and its value fits
  64 bits, minus the number of bytes read when it does not fit, (0, 0) when it is not terminated.
\<close>

definition uvarint_spec :: "u8 list \<Rightarrow> u64 \<times> int" where
  "uvarint_spec buf =
    (let cs = takeWhile (\<lambda>b. 0x80 \<le> b) buf; n = length cs + 1; v = uvalue (take n buf) in
     if length buf < n then (0, 0)
     else if n \<le> 10 \<and> v < 2 ^ 64 then (of_nat v, int n) else (0, - int n))"

lemma takeWhile_terminated:
  "list_all P cs \<Longrightarrow> \<not> P b \<Longrightarrow> takeWhile P (cs @ b # rest) = cs"
  by (induction cs) auto

lemma buffer_cases:
  obtains "list_all P buf" | cs b rest where "buf = cs @ b # rest" "list_all P cs" "\<not> P b"
proof (cases "list_all P buf")
  case False
  then obtain b rest where "dropWhile P buf = b # rest"
    by (cases "dropWhile P buf") (auto simp: list_all_iff dropWhile_eq_Nil_conv)
  then have "buf = takeWhile P buf @ b # rest" "\<not> P b"
    using takeWhile_dropWhile_id [of P buf] hd_dropWhile [of P buf] by force+
  then show thesis using that(2) [of "takeWhile P buf" b rest] set_takeWhileD [of _ P buf] by (simp add: list_all_iff)
qed (rule that(1))

lemma uvalue_append: "uvalue (cs @ ds) = uvalue cs + 128 ^ length cs * uvalue ds"
  by (induction cs) (simp_all add: algebra_simps)

lemma uvalue_fits:
  assumes "b < 0x80" "length cs \<le> 9"
  shows "uvalue (cs @ [b]) < 2 ^ 64 \<longleftrightarrow> \<not> (length cs = 9 \<and> 1 < b)"
proof -
  have b: "unat b < 128" using assms(1) by (simp add: word_less_nat_alt)
  then have v: "uvalue (cs @ [b]) = uvalue cs + 128 ^ length cs * unat b" by (simp add: uvalue_append)
  have c: "uvalue cs < 128 ^ length cs" by (rule uvalue_bound)
  show ?thesis
  proof (cases "length cs = 9")
    case True
    then show ?thesis using v c by (simp add: word_less_nat_alt) linarith
  next
    case False
    then have "(128 :: nat) ^ length cs \<le> 128 ^ 8" using assms(2) by (intro power_increasing) auto
    moreover from this have "128 ^ length cs * unat b \<le> 128 ^ 8 * 127" using b by (intro mult_le_mono) auto
    ultimately have "uvalue (cs @ [b]) < 128 ^ 8 + 128 ^ 8 * 127" using v c by linarith
    then have "uvalue (cs @ [b]) < 2 ^ 64" by simp
    then show ?thesis using False by blast
  qed
qed

lemma Uvarint_spec: "Uvarint buf = uvarint_spec buf"
proof (cases rule: buffer_cases [of "\<lambda>b. 0x80 \<le> b" buf])
  case 1
  then have tw: "takeWhile (\<lambda>b. 0x80 \<le> b) buf = buf" by (simp add: list_all_iff takeWhile_eq_all_conv)
  show ?thesis using Uvarint_loop_short [OF 1, of 0 0 0] unfolding Uvarint_def uvarint_spec_def Let_def tw by simp
next
  case (2 cs b rest)
  then have b: "b < 0x80" by simp
  have tw: "takeWhile (\<lambda>b. 0x80 \<le> b) buf = cs" using 2 by (simp add: takeWhile_terminated)
  show ?thesis
  proof (cases "9 < length cs \<or> length cs = 9 \<and> 1 < b")
    case True
    then have "\<not> (length cs + 1 \<le> 10 \<and> uvalue (cs @ [b]) < 2 ^ 64)" using uvalue_fits [OF b, of cs] by auto
    then show ?thesis using True Uvarint_loop_overflow [OF 2(2) b, of 0] 2(1) tw
      by (auto simp: Uvarint_def uvarint_spec_def)
  next
    case False
    then have fits: "uvalue (cs @ [b]) < 2 ^ 64" using uvalue_fits [OF b, of cs] by auto
    obtain v where v: "Uvarint_loop 0 0 0 (cs @ b # rest) = (v, int (length cs + 1))" "unat v = uvalue (cs @ [b])"
      using Uvarint_loop_reads [OF 2(2) b, of 0 0 0 rest] False by force
    then have "v = of_nat (uvalue (cs @ [b]))" using v(2) [symmetric] by simp
    then show ?thesis using v(1) fits False 2(1) tw by (auto simp: Uvarint_def uvarint_spec_def)
  qed
qed

lemma Uvarint_uv: "Uvarint (uv (unat x) @ rest) = (x, int (length (uv (unat x))))" for x :: u64
proof -
  obtain cs b where cb: "uv (unat x) = cs @ [b]" "list_all (\<lambda>b. 0x80 \<le> b) cs" "b < 0x80" by (rule uv_shape)
  have v: "uvalue (cs @ [b]) = unat x" using uvalue_uv [of "unat x"] cb(1) by simp
  have "length cs + 1 \<le> 10" using length_uv_64 [of x] cb(1) by simp
  moreover have "takeWhile (\<lambda>b. 0x80 \<le> b) (cs @ b # rest) = cs" using cb by (intro takeWhile_terminated) auto
  ultimately show ?thesis using v unat_lt2p [of x] cb(1)
    by (simp add: Uvarint_spec uvarint_spec_def)
qed

section \<open>Zig-zag\<close>

lemma zigzag:
  fixes x :: u64
  defines "ux \<equiv> (if x <s 0 then NOT (push_bit 1 x) else push_bit 1 x)"
  shows "(if ux AND 1 \<noteq> 0 then NOT (drop_bit 1 ux) else drop_bit 1 ux) = x"
proof -
  have neg: "x <s 0 \<longleftrightarrow> bit x 63" using bit_last_iff [of x] by (simp add: word_sless_alt)
  have odd: "ux AND 1 \<noteq> 0 \<longleftrightarrow> bit x 63"
    unfolding ux_def neg and_one_eq by (simp add: mod_2_eq_odd)
  define px where "px = push_bit 1 x"
  have px: "bit px (Suc n) \<longleftrightarrow> n < 63 \<and> bit x n" for n
    unfolding px_def bit_push_bit_iff by auto
  have "bit (if bit x 63 then NOT (drop_bit 1 ux) else drop_bit 1 ux) n \<longleftrightarrow> bit x n" if "n < 64" for n
  proof -
    have "n < 63 \<or> n = 63" using that by auto
    then show ?thesis
      unfolding ux_def neg px_def [symmetric] by (auto simp: bit_not_iff bit_drop_bit_eq px)
  qed
  then show ?thesis unfolding odd by (intro bit_word_eqI) simp
qed

section \<open>Reading from a stream\<close>

text \<open>A reader of the bytes of a list, with the error \<open>eof\<close> at its end, and one that never ends.\<close>

fun list_reader :: "'e \<Rightarrow> u8 list \<Rightarrow> ('e + u8) \<times> u8 list" where
  "list_reader eof [] = (Inl eof, [])"
| "list_reader eof (b # bs) = (Inr b, bs)"

definition endless_reader :: "unit \<Rightarrow> ('e + u8) \<times> unit" where
  "endless_reader r = (Inr 0x80, ())"

lemma ReadUvarint_loop_list:
  assumes "Uvarint_loop x s i buf = (v, n)" "unat j = i" "i + length buf < 2 ^ 31"
  shows "\<exists>y. ReadUvarint_loop (list_reader eof) buf x s j =
    Some (if n > 0 then (v, None, drop (nat n - i) buf)
          else if n < 0 then (y, Some overflow, drop (nat (- n) - i) buf) else (y, Some (ReadError eof), []))"
  using assms
proof (induction buf arbitrary: x s i j)
  case Nil
  then show ?case by (subst ReadUvarint_loop.simps) auto
next
  case (Cons b buf)
  have j: "9 <s j \<longleftrightarrow> 9 < i" "j = 9 \<longleftrightarrow> i = 9"
    using Cons.prems(2,3) sless_small [of 9 j] by (auto simp: word_unat_eq_iff)
  show ?case
  proof (cases "b < 0x80")
    case True
    have "nat (1 + int i) - i = 1" "nat (int i + 1) - i = 1" by auto
    then show ?thesis using True Cons.prems(1) j by (subst ReadUvarint_loop.simps) (auto split: if_splits)
  next
    case False
    let ?x = "x OR push_bit (unat s) (ucast (b AND 0x7f))"
    have "unat (j + 1) = Suc i" using Cons.prems(2,3) by (simp add: unat_word_ariths)
    moreover have r: "Uvarint_loop ?x (s + 7) (Suc i) buf = (v, n)" using Cons.prems(1) False by simp
    ultimately obtain y where "ReadUvarint_loop (list_reader eof) buf ?x (s + 7) (j + 1) =
        Some (if n > 0 then (v, None, drop (nat n - Suc i) buf)
          else if n < 0 then (y, Some overflow, drop (nat (- n) - Suc i) buf) else (y, Some (ReadError eof), []))"
      using Cons.IH [OF r, of "j + 1"] Cons.prems(3) by auto
    moreover have "n = 0 \<or> nat \<bar>n\<bar> > Suc i" using r Uvarint_loop_count by blast
    then have "n > 0 \<Longrightarrow> drop (nat n - i) (b # buf) = drop (nat n - Suc i) buf"
      "n < 0 \<Longrightarrow> drop (nat (- n) - i) (b # buf) = drop (nat (- n) - Suc i) buf"
      by (auto simp: drop_Cons' intro!: arg_cong [of _ _ "\<lambda>k. drop k buf"])
    ultimately show ?thesis using False by (subst ReadUvarint_loop.simps) (auto intro!: exI [of _ y])
  qed
qed

lemma ReadUvarint_endless:
  "ReadUvarint_loop (endless_reader :: unit \<Rightarrow> ('e + u8) \<times> unit) r x s i = None"
proof -
  have "readByte \<noteq> endless_reader" if "ReadUvarint_loop readByte r x s i = Some y"
    for readByte :: "unit \<Rightarrow> ('e + u8) \<times> unit" and r x s i y
  proof (rule ReadUvarint_loop.raw_induct [where P = "\<lambda>readByte r x s i y. readByte \<noteq> endless_reader"
        and xa = "((((readByte, r), x), s), i)", unfolded prod.case, OF _ that])
    fix loop :: "(unit \<Rightarrow> ('e + u8) \<times> unit) \<Rightarrow> unit \<Rightarrow> u64 \<Rightarrow> u32 \<Rightarrow> u32 \<Rightarrow> (u64 \<times> 'e varint_error option \<times> unit) option"
      and readByte :: "unit \<Rightarrow> ('e + u8) \<times> unit" and r x s i y
    assume IH: "\<And>readByte r x s i y. loop readByte r x s i = Some y \<Longrightarrow> readByte \<noteq> endless_reader"
      and step: "(case readByte r of (Inl err, r) \<Rightarrow> Some (x, Some (ReadError err), r)
        | (Inr b, r) \<Rightarrow> if b < 128 then if 9 <s i \<or> i = 9 \<and> 1 < b then Some (x, Some overflow, r)
            else Some (x OR push_bit (unat s) (ucast b), None, r)
          else loop readByte r (x OR push_bit (unat s) (ucast (b AND 127))) (s + 7) (i + 1)) = Some y"
    show "readByte \<noteq> endless_reader"
    proof
      assume r: "readByte = endless_reader"
      then have "loop readByte () (x OR push_bit (unat s) (ucast (0x80 AND 127 :: u8))) (s + 7) (i + 1) = Some y"
        using step by (simp add: endless_reader_def)
      then show False using IH r by blast
    qed
  qed
  then show ?thesis by (metis option.exhaust)
qed

section \<open>Properties\<close>

text \<open>C28: The varint encodings round-trip. \<open>PutUvarint\<close> and \<open>PutVarint\<close> write at most
  \<open>MaxVarintLen64\<close> bytes (and at most \<open>MaxVarintLen32\<close> and \<open>MaxVarintLen16\<close> for values of 32 and 16 bits)
  to the front of the buffer and leave the rest, or panic when the buffer is too short; reading the
  buffer gives back the value and the number of bytes.\<close>

theorem varint_roundtrip:
  "(\<exists>bs. length bs \<le> MaxVarintLen64
      \<and> (unat x < 2 ^ 32 \<longrightarrow> length bs \<le> MaxVarintLen32) \<and> (unat x < 2 ^ 16 \<longrightarrow> length bs \<le> MaxVarintLen16)
      \<and> PutUvarint buf x = (if length bs \<le> length buf then Inr (fill buf 0 bs, length bs) else Inl PanicIndex)
      \<and> Uvarint (bs @ rest) = (x, int (length bs)))
   \<and> (\<exists>bs. length bs \<le> MaxVarintLen64
      \<and> PutVarint buf y = (if length bs \<le> length buf then Inr (fill buf 0 bs, length bs) else Inl PanicIndex)
      \<and> Varint (bs @ rest) = (y, int (length bs)))"
proof (rule conjI)
  have put: "PutUvarint buf z = (if length (uv (unat z)) \<le> length buf
      then Inr (fill buf 0 (uv (unat z)), length (uv (unat z))) else Inl PanicIndex)" for z
    using PutUvarint_loop_writes [of 0 buf z] by (simp add: PutUvarint_def)
  show "\<exists>bs. length bs \<le> MaxVarintLen64
      \<and> (unat x < 2 ^ 32 \<longrightarrow> length bs \<le> MaxVarintLen32) \<and> (unat x < 2 ^ 16 \<longrightarrow> length bs \<le> MaxVarintLen16)
      \<and> PutUvarint buf x = (if length bs \<le> length buf then Inr (fill buf 0 bs, length bs) else Inl PanicIndex)
      \<and> Uvarint (bs @ rest) = (x, int (length bs))"
    using length_uv_64 [of x] put [of x] Uvarint_uv [of x rest]
      length_uv [of "unat x" 4] length_uv [of "unat x" 2]
    by (intro exI [of _ "uv (unat x)"]) (simp add: MaxVarintLen64_def MaxVarintLen32_def MaxVarintLen16_def)
  define ux where "ux = (if y <s 0 then NOT (push_bit 1 y) else push_bit 1 y)"
  have "(if ux AND 1 \<noteq> 0 then NOT (drop_bit 1 ux) else drop_bit 1 ux) = y" unfolding ux_def by (rule zigzag)
  then have "Varint (uv (unat ux) @ rest) = (y, int (length (uv (unat ux))))"
    unfolding Varint_def Uvarint_uv Let_def by simp
  moreover have "PutVarint buf y = PutUvarint buf ux" by (simp add: PutVarint_def ux_def Let_def)
  ultimately show "\<exists>bs. length bs \<le> MaxVarintLen64
      \<and> PutVarint buf y = (if length bs \<le> length buf then Inr (fill buf 0 bs, length bs) else Inl PanicIndex)
      \<and> Varint (bs @ rest) = (y, int (length bs))"
    using length_uv_64 [of ux] put [of ux]
    by (intro exI [of _ "uv (unat ux)"]) (simp add: MaxVarintLen64_def)
qed

theorem varint_roundtrip_witness:
  "\<exists>bs. length bs \<le> MaxVarintLen16 \<and> Uvarint (bs @ [7]) = (300, int (length bs))"
proof -
  from varint_roundtrip [of 300 "[]" "[7]" 0] obtain bs where
    "unat (300 :: u64) < 2 ^ 16 \<longrightarrow> length bs \<le> MaxVarintLen16" "Uvarint (bs @ [7]) = (300, int (length bs))"
    by blast
  then show ?thesis by (intro exI [of _ bs]) simp
qed

text \<open>C29: \<open>ReadUvarint\<close> returns on every reader with less than \<open>2^31\<close> bytes left, and then agrees with
  \<open>Uvarint\<close> on those bytes: the same value and the same number of bytes consumed, the overflow error
  where \<open>Uvarint\<close> reports overflow, the reader's error where the bytes run out. But it has no bound on
  the number of bytes it reads: on a reader that supplies continuation bytes for ever it never
  returns, although no value of more than ten bytes is valid.\<close>

theorem ReadUvarint_returns:
  fixes eof :: 'e
  assumes "length buf < 2 ^ 31" "Uvarint buf = (v, n)"
  shows "(\<exists>y. ReadUvarint (list_reader eof) buf =
      Some (if n > 0 then (v, None, drop (nat n) buf)
            else if n < 0 then (y, Some overflow, drop (nat (- n)) buf) else (y, Some (ReadError eof), [])))
    \<and> ReadUvarint (endless_reader :: unit \<Rightarrow> ('e + u8) \<times> unit) () = None"
  using ReadUvarint_loop_list [of 0 0 0 buf v n 0 eof, unfolded diff_zero] assms
  by (simp only: ReadUvarint_def Uvarint_def ReadUvarint_endless unsigned_0 add_0 simp_thms)

theorem ReadUvarint_returns_witness:
  "ReadUvarint (list_reader ''EOF'') [0xAC, 0x02, 9] = Some (300, None, [9])
    \<and> (\<exists>y. ReadUvarint (list_reader ''EOF'') [0x80] = Some (y, Some (ReadError ''EOF''), []))"
proof -
  have "Uvarint [0xAC, 0x02, 9] = (300, 2)" "Uvarint [0x80] = (0, 0)" by (simp_all add: Uvarint_def)
  then show ?thesis
    using ReadUvarint_returns [of "[0xAC, 0x02, 9]" 300 2 "''EOF''"] ReadUvarint_returns [of "[0x80]" 0 0 "''EOF''"]
    by auto
qed

end
