(* ===== verification/StringSearch.thy ===== *)
theory StringSearch
  imports GoString Sort
begin

text \<open>
  Searching in strings and byte slices: packages \<open>strings\<close> and \<open>bytes\<close> (\<open>strings.go\<close>, \<open>bytes.go\<close>),
  the byte search and the comparison of the mips32 ports (\<open>asm_mips32x.s\<close>, \<open>noasm_mips32x.go\<close>).
  Both a \<open>string\<close> and a \<open>[]byte\<close> are lists of bytes; positions are natural numbers, results integers
  with \<open>-1\<close> for "not found". Package \<open>strings\<close> searches with a Rabin-Karp rolling hash in 32-bit
  arithmetic, package \<open>bytes\<close> by scanning for the first byte; the lemmas show that both find the
  same occurrences.
\<close>

section \<open>Bytes and comparison on mips32\<close>

fun indexbyte :: "u8 list \<Rightarrow> u8 \<Rightarrow> nat \<Rightarrow> int" where
  "indexbyte [] c k = -1"
| "indexbyte (b # s) c k = (if b \<noteq> c then indexbyte s c (k + 1) else int k)"

definition IndexByte :: "u8 list \<Rightarrow> u8 \<Rightarrow> int" where
  "IndexByte s c = indexbyte s c 0"

fun cmp_loop :: "u8 list \<Rightarrow> u8 list \<Rightarrow> nat \<Rightarrow> nat \<Rightarrow> int option" where
  "cmp_loop s1 s2 i 0 = None"
| "cmp_loop s1 s2 i (Suc k) =
    (let c1 = s1 ! i; c2 = s2 ! i in
     if c1 < c2 then Some (-1) else if c1 > c2 then Some 1 else cmp_loop s1 s2 (i + 1) k)"

definition cmpstring :: "u8 list \<Rightarrow> u8 list \<Rightarrow> int" where
  "cmpstring s1 s2 =
    (let l = length s1; l = (if length s2 < l then length s2 else l) in
     case cmp_loop s1 s2 0 l of Some r \<Rightarrow> r
     | None \<Rightarrow> if length s1 < length s2 then -1 else if length s1 > length s2 then 1 else 0)"

definition cmpbytes :: "u8 list \<Rightarrow> u8 list \<Rightarrow> int" where
  "cmpbytes s1 s2 =
    (let l = length s1; l = (if length s2 < l then length s2 else l) in
     case cmp_loop s1 s2 0 l of Some r \<Rightarrow> r
     | None \<Rightarrow> if length s1 < length s2 then -1 else if length s1 > length s2 then 1 else 0)"

section \<open>Package strings\<close>

definition primeRK :: u32 where "primeRK = 16777619"

fun hash_loop :: "u32 \<Rightarrow> u8 list \<Rightarrow> u32" where
  "hash_loop hash [] = hash"
| "hash_loop hash (c # s) = hash_loop (hash * primeRK + ucast c) s"

function pow_loop :: "nat \<Rightarrow> u32 \<Rightarrow> u32 \<Rightarrow> u32" where
  "pow_loop i pow sq =
    (if i > 0 then pow_loop (i div 2) (if i mod 2 \<noteq> 0 then pow * sq else pow) (sq * sq) else pow)"
  by pat_completeness auto
termination by (relation "measure (\<lambda>(i, pow, sq). i)") auto

declare pow_loop.simps [simp del]

definition hashStr :: "u8 list \<Rightarrow> u32 \<times> u32" where
  "hashStr sep = (hash_loop 0 sep, pow_loop (length sep) 1 primeRK)"

definition hashStrRev :: "u8 list \<Rightarrow> u32 \<times> u32" where
  "hashStrRev sep = (hash_loop 0 (rev sep), pow_loop (length sep) 1 primeRK)"

text \<open>The slice expression \<open>s[i:j]\<close>.\<close>

abbreviation slice :: "'a list \<Rightarrow> nat \<Rightarrow> nat \<Rightarrow> 'a list" where
  "slice s i j \<equiv> take (j - i) (drop i s)"

function Count_loop :: "u8 list \<Rightarrow> u8 list \<Rightarrow> u32 \<Rightarrow> u32 \<Rightarrow> u32 \<Rightarrow> nat \<Rightarrow> nat \<Rightarrow> nat \<Rightarrow> nat" where
  "Count_loop s sep hashsep pow h lastmatch n i =
    (if i < length s then
       let h = h * primeRK; h = h + ucast (s ! i); h = h - pow * ucast (s ! (i - length sep)); i = i + 1 in
       if h = hashsep \<and> lastmatch \<le> i - length sep \<and> slice s (i - length sep) i = sep
       then Count_loop s sep hashsep pow h i (n + 1) i
       else Count_loop s sep hashsep pow h lastmatch n i
     else n)"
  by pat_completeness auto
termination
  by (relation "measure (\<lambda>(s, sep, hashsep, pow, h, lastmatch, n, i). length s - i)") auto

declare Count_loop.simps [simp del]

definition Count :: "u8 list \<Rightarrow> u8 list \<Rightarrow> nat" where
  "Count s sep =
    (if length sep = 0 then RuneCountInString s + 1
     else if length sep = 1 then length (filter (\<lambda>b. b = sep ! 0) s)
     else if length sep > length s then 0
     else if length sep = length s then (if sep = s then 1 else 0)
     else case hashStr sep of (hashsep, pow) \<Rightarrow>
       let h = hash_loop 0 (take (length sep) s) in
       if h = hashsep \<and> slice s 0 (length sep) = sep
       then Count_loop s sep hashsep pow h (length sep) 1 (length sep)
       else Count_loop s sep hashsep pow h 0 0 (length sep))"

function Index_loop :: "u8 list \<Rightarrow> u8 list \<Rightarrow> u32 \<Rightarrow> u32 \<Rightarrow> u32 \<Rightarrow> nat \<Rightarrow> int" where
  "Index_loop s sep hashsep pow h i =
    (if i < length s then
       let n = length sep;
           h = h * primeRK; h = h + ucast (s ! i); h = h - pow * ucast (s ! (i - n)); i = i + 1 in
       if h = hashsep \<and> slice s (i - n) i = sep then int (i - n)
       else Index_loop s sep hashsep pow h i
     else -1)"
  by pat_completeness auto
termination by (relation "measure (\<lambda>(s, sep, hashsep, pow, h, i). length s - i)") (auto simp: Let_def)

declare Index_loop.simps [simp del]

definition Index :: "u8 list \<Rightarrow> u8 list \<Rightarrow> int" where
  "Index s sep =
    (let n = length sep in
     if n = 0 then 0
     else if n = 1 then IndexByte s (sep ! 0)
     else if n = length s then (if sep = s then 0 else -1)
     else if n > length s then -1
     else case hashStr sep of (hashsep, pow) \<Rightarrow>
       let h = hash_loop 0 (take n s) in
       if h = hashsep \<and> slice s 0 n = sep then 0 else Index_loop s sep hashsep pow h n)"

text \<open>The loops of \<open>LastIndex\<close> run downwards; the last argument is \<open>i + 1\<close>.\<close>

fun LastIndexByte_loop :: "u8 list \<Rightarrow> u8 \<Rightarrow> nat \<Rightarrow> int" where
  "LastIndexByte_loop s c 0 = -1"
| "LastIndexByte_loop s c (Suc i) = (if s ! i = c then int i else LastIndexByte_loop s c i)"

fun LastIndex_loop :: "u8 list \<Rightarrow> u8 list \<Rightarrow> u32 \<Rightarrow> u32 \<Rightarrow> u32 \<Rightarrow> nat \<Rightarrow> int" where
  "LastIndex_loop s sep hashsep pow h 0 = -1"
| "LastIndex_loop s sep hashsep pow h (Suc i) =
    (let n = length sep;
         h = h * primeRK; h = h + ucast (s ! i); h = h - pow * ucast (s ! (i + n)) in
     if h = hashsep \<and> slice s i (i + n) = sep then int i
     else LastIndex_loop s sep hashsep pow h i)"

definition LastIndex :: "u8 list \<Rightarrow> u8 list \<Rightarrow> int" where
  "LastIndex s sep =
    (let n = length sep in
     if n = 0 then int (length s)
     else if n = 1 then LastIndexByte_loop s (sep ! 0) (length s)
     else if n = length s then (if sep = s then 0 else -1)
     else if n > length s then -1
     else case hashStrRev sep of (hashsep, pow) \<Rightarrow>
       let last = length s - n; h = hash_loop 0 (rev (drop last s)) in
       if h = hashsep \<and> drop last s = sep then int last
       else LastIndex_loop s sep hashsep pow h last)"

definition Contains :: "u8 list \<Rightarrow> u8 list \<Rightarrow> bool" where
  "Contains s substr \<longleftrightarrow> Index s substr \<ge> 0"

text \<open>The first position that a range loop yields with a rune that satisfies a test.\<close>

fun range_index :: "(rune \<Rightarrow> bool) \<Rightarrow> (nat \<times> rune) list \<Rightarrow> int" where
  "range_index f [] = -1"
| "range_index f ((i, c) # rs) = (if f c then int i else range_index f rs)"

definition IndexRune :: "u8 list \<Rightarrow> rune \<Rightarrow> int" where
  "IndexRune s r =
    (if r <s of_nat RuneSelf then IndexByte s (ucast r) else range_index (\<lambda>c. c = r) (range_string s 0))"

definition IndexAny :: "u8 list \<Rightarrow> u8 list \<Rightarrow> int" where
  "IndexAny s chars =
    (if length chars > 0
     then range_index (\<lambda>c. list_ex (\<lambda>(_, m). c = m) (range_string chars 0)) (range_string s 0) else -1)"

lemma DecodeLastRune_size: "p \<noteq> [] \<Longrightarrow> 1 \<le> snd (DecodeLastRune p) \<and> snd (DecodeLastRune p) \<le> length p"
proof -
  assume p: "p \<noteq> []"
  define lim where "lim = (if int (length p) - int UTFMax < 0 then 0 else int (length p) - int UTFMax)"
  define st where "st = scan_start p lim (int (length p - 1) - 1)"
  have "st \<le> int (length p - 1) - 1" unfolding st_def using p by (intro scan_start_bound [THEN conjunct2]) auto
  then have "nat (if st < 0 then 0 else st) < length p" using p by (cases p) auto
  then show ?thesis
    using p DecodeRune_size [of "drop (nat (if st < 0 then 0 else st)) p"]
    unfolding DecodeLastRune_def Let_def lim_def [symmetric] st_def [symmetric]
    by (auto split: prod.splits)
qed

lemma DecodeLastRune_bounds: "(r, n) = DecodeLastRune p \<Longrightarrow> p \<noteq> [] \<Longrightarrow> 0 < n \<and> n \<le> length p"
  using DecodeLastRune_size [of p] by (metis One_nat_def Suc_le_lessD snd_conv)

lemma DecodeRune_bounds: "(r, n) = DecodeRune p \<Longrightarrow> p \<noteq> [] \<Longrightarrow> 0 < n \<and> n \<le> length p"
  using DecodeRune_size [of p] by (metis One_nat_def Suc_le_lessD snd_conv)

lemma DecodeLastRuneInString_eq: "DecodeLastRuneInString = DecodeLastRune"
  by (rule ext) (simp only: DecodeLastRuneInString_def DecodeLastRune_def DecodeRuneInString_eq)

text \<open>The loop from the end over \<open>DecodeLastRuneInString\<close>, shared by \<open>LastIndexAny\<close> and \<open>lastIndexFunc\<close>.\<close>

function last_rune_index :: "(rune \<Rightarrow> bool) \<Rightarrow> u8 list \<Rightarrow> nat \<Rightarrow> int" where
  "last_rune_index f s i =
    (if i > 0 \<and> i \<le> length s then
       case DecodeLastRuneInString (take i s) of (r, sz) \<Rightarrow>
       let i = i - sz in if f r then int i else last_rune_index f s i
     else -1)"
  by pat_completeness auto
termination
proof (relation "measure (\<lambda>(f, s, i). i)", goal_cases)
  case (2 f s i x r sz)
  then show ?case using DecodeLastRune_bounds [of x r "take i s"] by (cases s) (auto simp: DecodeLastRuneInString_eq)
qed simp

declare last_rune_index.simps [simp del]

definition LastIndexAny :: "u8 list \<Rightarrow> u8 list \<Rightarrow> int" where
  "LastIndexAny s chars =
    (if length chars > 0
     then last_rune_index (\<lambda>r. list_ex (\<lambda>(_, m). r = m) (range_string chars 0)) s (length s) else -1)"

definition ContainsAny :: "u8 list \<Rightarrow> u8 list \<Rightarrow> bool" where
  "ContainsAny s chars \<longleftrightarrow> IndexAny s chars \<ge> 0"

definition ContainsRune :: "u8 list \<Rightarrow> rune \<Rightarrow> bool" where
  "ContainsRune s r \<longleftrightarrow> IndexRune s r \<ge> 0"

section \<open>Package bytes\<close>

fun equal_loop :: "u8 list \<Rightarrow> u8 list \<Rightarrow> nat \<Rightarrow> bool" where
  "equal_loop [] b i = True"
| "equal_loop (c # a) b i = (if c \<noteq> b ! i then False else equal_loop a b (i + 1))"

definition equalPortable :: "u8 list \<Rightarrow> u8 list \<Rightarrow> bool" where
  "equalPortable a b = (if length a \<noteq> length b then False else equal_loop a b 0)"

fun indexBytePortable_loop :: "u8 list \<Rightarrow> u8 \<Rightarrow> nat \<Rightarrow> int" where
  "indexBytePortable_loop [] c i = -1"
| "indexBytePortable_loop (b # s) c i = (if b = c then int i else indexBytePortable_loop s c (i + 1))"

definition indexBytePortable :: "u8 list \<Rightarrow> u8 \<Rightarrow> int" where
  "indexBytePortable s c = indexBytePortable_loop s c 0"

text \<open>
  \<open>Equal\<close> on slices is list equality; \<open>equalPortable\<close> above is the Go version of it. A separator is
  not empty where the loops run, which the loop of \<open>Count\<close> tests so that it always ends.
  The scan of \<open>Index\<close> and \<open>Count\<close>: \<open>t\<close> is the part of \<open>s\<close> where an occurrence can start, and
  \<open>skip_to\<close> is the step to the next \<open>c\<close> in it, with \<open>None\<close> for \<open>break\<close>.
\<close>

definition skip_to :: "u8 list \<Rightarrow> u8 \<Rightarrow> nat \<Rightarrow> nat option" where
  "skip_to t c i =
    (if t ! i \<noteq> c then let off = IndexByte (drop i t) c in if off < 0 then None else Some (i + nat off) else Some i)"

lemma less_add_pos: "i \<le> j \<Longrightarrow> xs \<noteq> [] \<Longrightarrow> i < j + length xs"
  by (cases xs) auto

lemma skip_to_le: "skip_to t c i = Some j \<Longrightarrow> i \<le> j"
  by (auto simp: skip_to_def Let_def split: if_splits)

function bytes_Count_loop :: "u8 list \<Rightarrow> u8 list \<Rightarrow> u8 list \<Rightarrow> nat \<Rightarrow> nat \<Rightarrow> nat" where
  "bytes_Count_loop s sep t cnt i =
    (if i < length t \<and> sep \<noteq> [] then
       case skip_to t (sep ! 0) i of None \<Rightarrow> cnt
       | Some i \<Rightarrow>
         if length sep = 1 \<or> slice s i (i + length sep) = sep
         then bytes_Count_loop s sep t (cnt + 1) (i + length sep)
         else bytes_Count_loop s sep t cnt (i + 1)
     else cnt)"
  by pat_completeness auto
termination
  by (relation "measure (\<lambda>(s, sep, t, cnt, i). length t - i)") (auto dest!: skip_to_le intro!: diff_less_mono2 simp: less_add_pos)

declare bytes_Count_loop.simps [simp del]

definition bytes_Count :: "u8 list \<Rightarrow> u8 list \<Rightarrow> nat" where
  "bytes_Count s sep =
    (let n = length sep in
     if n = 0 then RuneCount s + 1
     else if n > length s then 0
     else bytes_Count_loop s sep (take (length s - n + 1) s) 0 0)"

function bytes_Index_loop :: "u8 list \<Rightarrow> u8 list \<Rightarrow> u8 list \<Rightarrow> nat \<Rightarrow> int" where
  "bytes_Index_loop s sep t i =
    (if i < length t then
       case skip_to t (sep ! 0) i of None \<Rightarrow> -1
       | Some i \<Rightarrow>
         if slice s i (i + length sep) = sep then int i else bytes_Index_loop s sep t (i + 1)
     else -1)"
  by pat_completeness auto
termination by (relation "measure (\<lambda>(s, sep, t, i). length t - i)") (auto dest: skip_to_le)

declare bytes_Index_loop.simps [simp del]

definition bytes_Index :: "u8 list \<Rightarrow> u8 list \<Rightarrow> int" where
  "bytes_Index s sep =
    (let n = length sep in
     if n = 0 then 0
     else if n > length s then -1
     else if n = 1 then IndexByte s (sep ! 0)
     else bytes_Index_loop s sep (take (length s - n + 1) s) 0)"

definition bytes_Contains :: "u8 list \<Rightarrow> u8 list \<Rightarrow> bool" where
  "bytes_Contains b subslice \<longleftrightarrow> bytes_Index b subslice \<noteq> -1"

text \<open>The loop of \<open>LastIndex\<close>, with \<open>i + 1\<close> as its last argument.\<close>

fun bytes_LastIndex_loop :: "u8 list \<Rightarrow> u8 list \<Rightarrow> nat \<Rightarrow> int" where
  "bytes_LastIndex_loop s sep 0 = -1"
| "bytes_LastIndex_loop s sep (Suc i) =
    (if s ! i = sep ! 0 \<and> (length sep = 1 \<or> slice s i (i + length sep) = sep) then int i
     else bytes_LastIndex_loop s sep i)"

definition bytes_LastIndex :: "u8 list \<Rightarrow> u8 list \<Rightarrow> int" where
  "bytes_LastIndex s sep =
    (let n = length sep in
     if n = 0 then int (length s) else bytes_LastIndex_loop s sep (length s + 1 - n))"

function bytes_IndexRune_loop :: "u8 list \<Rightarrow> rune \<Rightarrow> nat \<Rightarrow> int" where
  "bytes_IndexRune_loop s r i =
    (if i < length s then
       case DecodeRune (drop i s) of (r1, sz) \<Rightarrow>
       if r = r1 then int i else bytes_IndexRune_loop s r (i + sz)
     else -1)"
  by pat_completeness auto
termination
proof (relation "measure (\<lambda>(s, r, i). length s - i)", goal_cases)
  case (2 s r i r1 sz)
  then show ?case using DecodeRune_bounds [of r1 sz "drop i s"] by auto
qed simp

declare bytes_IndexRune_loop.simps [simp del]

definition bytes_IndexRune :: "u8 list \<Rightarrow> rune \<Rightarrow> int" where
  "bytes_IndexRune s r = bytes_IndexRune_loop s r 0"

text \<open>The rune at the front of a slice, with the shortcut for ASCII.\<close>

definition next_rune :: "u8 list \<Rightarrow> rune \<times> nat" where
  "next_rune s = (let r = ucast (s ! 0) :: rune in if unat r < RuneSelf then (r, 1) else DecodeRune s)"

lemma next_rune_eq: "s \<noteq> [] \<Longrightarrow> next_rune s = DecodeRune s"
  using DecodeRune_ascii [of s] by (simp add: next_rune_def Let_def RuneSelf_def unat_ucast_32)

function indexFunc_loop :: "(rune \<Rightarrow> bool) \<Rightarrow> u8 list \<Rightarrow> nat \<Rightarrow> int" where
  "indexFunc_loop f s i =
    (if i < length s then
       case next_rune (drop i s) of (r, wid) \<Rightarrow>
       if f r then int i else indexFunc_loop f s (i + wid)
     else -1)"
  by pat_completeness auto
termination
proof (relation "measure (\<lambda>(f, s, i). length s - i)", goal_cases)
  case (2 f s i r wid)
  then show ?case using DecodeRune_bounds [of r wid "drop i s"] by (auto simp: next_rune_eq)
qed simp

declare indexFunc_loop.simps [simp del]

definition bytes_IndexAny :: "u8 list \<Rightarrow> u8 list \<Rightarrow> int" where
  "bytes_IndexAny s chars =
    (if length chars > 0
     then indexFunc_loop (\<lambda>r. list_ex (\<lambda>(_, ch). r = ch) (range_string chars 0)) s 0 else -1)"

function bytes_last_rune_index :: "(rune \<Rightarrow> bool) \<Rightarrow> u8 list \<Rightarrow> nat \<Rightarrow> int" where
  "bytes_last_rune_index f s i =
    (if i > 0 \<and> i \<le> length s then
       case DecodeLastRune (take i s) of (r, sz) \<Rightarrow>
       let i = i - sz in if f r then int i else bytes_last_rune_index f s i
     else -1)"
  by pat_completeness auto
termination
proof (relation "measure (\<lambda>(f, s, i). i)", goal_cases)
  case (2 f s i x r sz)
  then show ?case using DecodeLastRune_bounds [of x r "take i s"] by (cases s) auto
qed simp

declare bytes_last_rune_index.simps [simp del]

definition bytes_LastIndexAny :: "u8 list \<Rightarrow> u8 list \<Rightarrow> int" where
  "bytes_LastIndexAny s chars =
    (if length chars > 0
     then bytes_last_rune_index (\<lambda>r. list_ex (\<lambda>(_, ch). r = ch) (range_string chars 0)) s (length s) else -1)"

section \<open>Occurrences\<close>

text \<open>\<open>sep\<close> occurs in \<open>s\<close> at \<open>i\<close>.\<close>

definition occurs_at :: "'a list \<Rightarrow> 'a list \<Rightarrow> nat \<Rightarrow> bool" where
  "occurs_at s sep i \<longleftrightarrow> i + length sep \<le> length s \<and> slice s i (i + length sep) = sep"

text \<open>The first and the last occurrence, as the packages document them.\<close>

definition first_occurrence :: "'a list \<Rightarrow> 'a list \<Rightarrow> int \<Rightarrow> bool" where
  "first_occurrence s sep r \<longleftrightarrow>
    (if \<exists>i. occurs_at s sep i then r \<ge> 0 \<and> occurs_at s sep (nat r) \<and> (\<forall>j. j < nat r \<longrightarrow> \<not> occurs_at s sep j) else r = -1)"

definition last_occurrence :: "'a list \<Rightarrow> 'a list \<Rightarrow> int \<Rightarrow> bool" where
  "last_occurrence s sep r \<longleftrightarrow>
    (if \<exists>i. occurs_at s sep i then r \<ge> 0 \<and> occurs_at s sep (nat r) \<and> (\<forall>j. nat r < j \<longrightarrow> \<not> occurs_at s sep j) else r = -1)"

lemma first_occurrence_unique:
  assumes "first_occurrence s sep r" "first_occurrence s sep r'"
  shows "r = r'"
proof (cases "\<exists>i. occurs_at s sep i")
  case True
  then have "\<not> nat r < nat r'" "\<not> nat r' < nat r" "r \<ge> 0" "r' \<ge> 0"
    using assms unfolding first_occurrence_def if_P [OF True] by blast+
  then show ?thesis by linarith
qed (use assms in \<open>simp add: first_occurrence_def\<close>)

lemma last_occurrence_unique:
  assumes "last_occurrence s sep r" "last_occurrence s sep r'"
  shows "r = r'"
proof (cases "\<exists>i. occurs_at s sep i")
  case True
  then have "\<not> nat r < nat r'" "\<not> nat r' < nat r" "r \<ge> 0" "r' \<ge> 0"
    using assms unfolding last_occurrence_def if_P [OF True] by blast+
  then show ?thesis by linarith
qed (use assms in \<open>simp add: last_occurrence_def\<close>)

lemma occurs_at_Nil [simp]: "occurs_at s [] i \<longleftrightarrow> i \<le> length s"
  by (simp add: occurs_at_def)

lemma occurs_at_length: "occurs_at s sep i \<Longrightarrow> i + length sep \<le> length s"
  by (simp add: occurs_at_def)

lemma occurs_at_single: "occurs_at s [c] i \<longleftrightarrow> i < length s \<and> s ! i = c"
  by (auto simp: occurs_at_def take_Suc hd_drop_conv_nth)

lemma occurs_at_full: "length sep = length s \<Longrightarrow> occurs_at s sep i \<longleftrightarrow> i = 0 \<and> sep = s"
  by (auto simp: occurs_at_def)

lemma occurs_at_append: "occurs_at s sep i \<longleftrightarrow> (\<exists>u v. s = u @ sep @ v \<and> length u = i)"
proof
  assume o: "occurs_at s sep i"
  have "sep @ drop (length sep) (drop i s) = drop i s"
    using o append_take_drop_id [of "length sep" "drop i s"] by (simp add: occurs_at_def)
  then have "s = take i s @ sep @ drop (length sep) (drop i s)" by simp
  moreover have "length (take i s) = i" using o by (simp add: occurs_at_def)
  ultimately show "\<exists>u v. s = u @ sep @ v \<and> length u = i" by blast
qed (auto simp: occurs_at_def)

lemma occurs_at_hd: "occurs_at s sep i \<Longrightarrow> sep \<noteq> [] \<Longrightarrow> s ! i = sep ! 0"
  unfolding occurs_at_def by (metis add_diff_cancel_left' add_leD1 length_greater_0_conv nth_drop nth_take add.right_neutral)

lemma indexbyte_first:
  "indexbyte s c k = (if c \<in> set s then int (k + length (takeWhile (\<lambda>b. b \<noteq> c) s)) else -1)"
  by (induction s arbitrary: k) auto

lemma IndexByte_first: "first_occurrence s [c] (IndexByte s c)"
proof (cases "c \<in> set s")
  case True
  let ?k = "length (takeWhile (\<lambda>b. b \<noteq> c) s)"
  have k: "?k < length s" using True by (metis (mono_tags, lifting) takeWhile_eq_all_conv length_takeWhile_le le_neq_implies_less takeWhile_eq_take take_all order_refl)
  then have "s ! ?k = c" using nth_length_takeWhile by fastforce
  moreover have "s ! j \<noteq> c" if "j < ?k" for j using that by (metis (mono_tags) nth_mem set_takeWhileD takeWhile_nth)
  ultimately show ?thesis using True k
    by (auto simp: first_occurrence_def occurs_at_single IndexByte_def indexbyte_first)
next
  case False
  then show ?thesis by (auto simp: first_occurrence_def occurs_at_single IndexByte_def indexbyte_first)
qed

lemma indexBytePortable_eq: "indexBytePortable = IndexByte"
proof (intro ext)
  fix s c
  have "indexBytePortable_loop s c k = indexbyte s c k" for k by (induction s arbitrary: k) auto
  then show "indexBytePortable s c = IndexByte s c" by (simp add: indexBytePortable_def IndexByte_def)
qed

lemma equalPortable_iff: "equalPortable a b \<longleftrightarrow> a = b"
proof -
  have "length a + i = length b \<Longrightarrow> equal_loop a b i \<longleftrightarrow> a = drop i b" for i
  proof (induction a arbitrary: i)
    case (Cons c a)
    then have "i < length b" by simp
    then have "drop i b = b ! i # drop (Suc i) b" by (simp add: Cons_nth_drop_Suc)
    then show ?case using Cons by simp
  qed simp
  from this [of 0] show ?thesis by (auto simp: equalPortable_def)
qed

section \<open>The rolling hash\<close>

lemma hash_loop_append: "hash_loop h (xs @ ys) = hash_loop (hash_loop h xs) ys"
  by (induction xs arbitrary: h) auto

lemma hash_loop_shift: "hash_loop h xs = h * primeRK ^ length xs + hash_loop 0 xs"
proof (induction xs rule: rev_induct)
  case (snoc x xs)
  then show ?case by (simp add: hash_loop_append algebra_simps)
qed simp

text \<open>Moving the window one byte to the right.\<close>

lemma hash_roll:
  "hash_loop 0 (xs @ [c]) = hash_loop 0 (b # xs) * primeRK + ucast c - primeRK ^ length (b # xs) * ucast b"
  using hash_loop_shift [of "ucast b" xs] by (simp add: hash_loop_append algebra_simps)

lemma pow_loop_power: "pow_loop i pow sq = pow * sq ^ i"
proof (induction i pow sq rule: pow_loop.induct)
  case (1 i pow sq)
  show ?case
  proof (cases "i > 0")
    case True
    have "sq ^ i = sq ^ (2 * (i div 2) + i mod 2)" by simp
    also have "\<dots> = (sq * sq) ^ (i div 2) * sq ^ (i mod 2)"
      unfolding power_add power_mult power2_eq_square ..
    finally have "(if i mod 2 \<noteq> 0 then pow * sq else pow) * (sq * sq) ^ (i div 2) = pow * sq ^ i"
      by (cases "i mod 2 = 0") (simp_all add: mult_ac odd_iff_mod_2_eq_one)
    then show ?thesis using 1 [OF True] True by (subst pow_loop.simps) simp
  qed (subst pow_loop.simps, simp)
qed

lemma slice_roll:
  assumes "0 < n" "n \<le> i" "i < length s"
  obtains xs where "slice s (i - n) i = s ! (i - n) # xs" "slice s (i + 1 - n) (i + 1) = xs @ [s ! i]" "length xs = n - 1"
proof
  let ?xs = "slice s (i + 1 - n) i"
  have d: "drop (i - n) s = s ! (i - n) # drop (i + 1 - n) s"
    using assms Cons_nth_drop_Suc [of "i - n" s] by (simp add: Suc_diff_le)
  have k: "i - (i - n) = Suc (i - (i + 1 - n))" using assms by simp
  show "slice s (i - n) i = s ! (i - n) # ?xs" unfolding d k by simp
  have k': "i + 1 - (i + 1 - n) = Suc (i - (i + 1 - n))" using assms by simp
  have "i - (i + 1 - n) < length (drop (i + 1 - n) s)" "drop (i + 1 - n) s ! (i - (i + 1 - n)) = s ! i"
    using assms by auto
  then show "slice s (i + 1 - n) (i + 1) = ?xs @ [s ! i]" unfolding k' by (simp add: take_Suc_conv_app_nth)
  show "length ?xs = n - 1" using assms by auto
qed

lemma roll_step:
  assumes "0 < length sep" "length sep \<le> i" "i < length s"
    "h = hash_loop 0 (slice s (i - length sep) i)" "pow = primeRK ^ length sep"
  shows "h * primeRK + ucast (s ! i) - pow * ucast (s ! (i - length sep))
    = hash_loop 0 (slice s (i + 1 - length sep) (i + 1))"
proof -
  obtain xs where xs: "slice s (i - length sep) i = s ! (i - length sep) # xs"
      "slice s (i + 1 - length sep) (i + 1) = xs @ [s ! i]" "length xs = length sep - 1"
    using slice_roll [OF assms(1-3)] .
  then have "length (s ! (i - length sep) # xs) = length sep" using assms(1) by simp
  then show ?thesis unfolding xs(2) hash_roll [of xs "s ! i" "s ! (i - length sep)"] assms(4,5) xs(1) by simp
qed

lemma first_occurrenceI:
  "occurs_at s sep i \<Longrightarrow> (\<And>j. j < i \<Longrightarrow> \<not> occurs_at s sep j) \<Longrightarrow> first_occurrence s sep (int i)"
  by (auto simp: first_occurrence_def)

lemma first_occurrence_none: "(\<And>j. \<not> occurs_at s sep j) \<Longrightarrow> first_occurrence s sep (-1)"
  by (simp add: first_occurrence_def)

lemma Index_loop_first:
  assumes "sep \<noteq> []" "length sep \<le> i" "i \<le> length s"
    "h = hash_loop 0 (slice s (i - length sep) i)" "\<And>j. j \<le> i - length sep \<Longrightarrow> \<not> occurs_at s sep j"
  shows "first_occurrence s sep (Index_loop s sep (hash_loop 0 sep) (primeRK ^ length sep) h i)"
  using assms
proof (induction "length s - i" arbitrary: h i rule: less_induct)
  case less
  let ?n = "length sep"
  show ?case
  proof (cases "i < length s")
    case True
    let ?h = "h * primeRK + ucast (s ! i) - primeRK ^ ?n * ucast (s ! (i - ?n))"
    have h: "?h = hash_loop 0 (slice s (i + 1 - ?n) (i + 1))"
      using less.prems True by (intro roll_step) auto
    have pos: "i + 1 - ?n + ?n = i + 1" "i + 1 - ?n = Suc (i - ?n)" using less.prems(2) by auto
    have step: "Index_loop s sep (hash_loop 0 sep) (primeRK ^ ?n) h i =
        (if ?h = hash_loop 0 sep \<and> slice s (i + 1 - ?n) (i + 1) = sep then int (i + 1 - ?n)
         else Index_loop s sep (hash_loop 0 sep) (primeRK ^ ?n) ?h (i + 1))"
      using True by (subst Index_loop.simps) (simp only: Let_def if_True)
    show ?thesis
    proof (cases "slice s (i + 1 - ?n) (i + 1) = sep")
      case sep: True
      have "occurs_at s sep (i + 1 - ?n)" using sep True pos by (simp add: occurs_at_def)
      moreover have "?h = hash_loop 0 sep" using h sep by simp
      moreover have "\<not> occurs_at s sep j" if "j < i + 1 - ?n" for j
        using that less.prems(5) [of j] pos(2) by simp
      ultimately show ?thesis unfolding step using sep by (simp only: simp_thms if_True) (rule first_occurrenceI)
    next
      case False
      have "\<not> occurs_at s sep j" if "j \<le> i + 1 - ?n" for j
        using that False less.prems(5) [of j] pos by (cases "j = i + 1 - ?n") (auto simp: occurs_at_def)
      then have "first_occurrence s sep (Index_loop s sep (hash_loop 0 sep) (primeRK ^ ?n) ?h (i + 1))"
        using True less.prems(1,2) h by (intro less.hyps) auto
      then show ?thesis unfolding step using False by simp
    qed
  next
    case False
    have "\<not> occurs_at s sep j" for j
    proof
      assume o: "occurs_at s sep j"
      then have "j \<le> i - length sep" using occurs_at_length [OF o] False by linarith
      then show False using less.prems(5) o by blast
    qed
    then show ?thesis using False by (subst Index_loop.simps) (simp add: first_occurrence_none)
  qed
qed

lemma occurs_at_0: "occurs_at s sep 0 \<longleftrightarrow> length sep \<le> length s \<and> take (length sep) s = sep"
  by (simp add: occurs_at_def)

lemma Index_first: "first_occurrence s sep (Index s sep)"
proof -
  consider "length sep = 0" | "length sep = 1" | "length sep > 1" "length sep = length s"
    | "length sep > 1" "length sep > length s" | "length sep > 1" "length sep < length s" by linarith
  then show ?thesis
  proof cases
    case 1
    then show ?thesis by (auto simp: Index_def first_occurrence_def)
  next
    case 2
    then obtain c where "sep = [c]" by (cases sep) auto
    then show ?thesis using IndexByte_first [of s c] by (simp add: Index_def)
  next
    case 3
    then have "Index s sep = (if sep = s then 0 else -1)" by (auto simp: Index_def Let_def)
    then show ?thesis using occurs_at_full [OF 3(2)] by (auto simp: first_occurrence_def)
  next
    case 4
    then have "Index s sep = -1" by (auto simp: Index_def Let_def)
    moreover have "\<not> occurs_at s sep j" for j using 4 occurs_at_length [of s sep j] by auto
    ultimately show ?thesis by (simp add: first_occurrence_none)
  next
    case 5
    have i: "Index s sep = (if hash_loop 0 (take (length sep) s) = hash_loop 0 sep \<and> take (length sep) s = sep then 0
        else Index_loop s sep (hash_loop 0 sep) (primeRK ^ length sep) (hash_loop 0 (take (length sep) s)) (length sep))"
      using 5 by (auto simp: Index_def hashStr_def pow_loop_power Let_def)
    show ?thesis
    proof (cases "take (length sep) s = sep")
      case True
      then show ?thesis unfolding i using 5 first_occurrenceI [of s sep 0] by (simp add: occurs_at_0)
    next
      case False
      have "first_occurrence s sep
        (Index_loop s sep (hash_loop 0 sep) (primeRK ^ length sep) (hash_loop 0 (take (length sep) s)) (length sep))"
        using 5 False by (intro Index_loop_first) (auto simp: occurs_at_0)
      then show ?thesis unfolding i using False by simp
    qed
  qed
qed

section \<open>The scan for the first byte\<close>

lemma skip_to_Some:
  assumes "skip_to t c i = Some j" "i < length t"
  shows "j < length t \<and> t ! j = c \<and> (\<forall>k. i \<le> k \<longrightarrow> k < j \<longrightarrow> t ! k \<noteq> c)"
proof (cases "t ! i = c")
  case True
  then show ?thesis using assms by (auto simp: skip_to_def)
next
  case False
  let ?o = "IndexByte (drop i t) c"
  have o: "?o \<ge> 0" "j = i + nat ?o" using False assms(1) by (auto simp: skip_to_def Let_def split: if_splits)
  have f: "occurs_at (drop i t) [c] (nat ?o)" "\<forall>k. k < nat ?o \<longrightarrow> \<not> occurs_at (drop i t) [c] k"
    using IndexByte_first [of "drop i t" c] o(1) by (auto simp: first_occurrence_def split: if_splits)
  have "t ! k \<noteq> c" if "i \<le> k" "k < j" for k
    using f(2) [rule_format, of "k - i"] that o assms(2) f(1) by (auto simp: occurs_at_single)
  then show ?thesis using f(1) o(2) by (auto simp: occurs_at_single)
qed

lemma skip_to_None:
  assumes "skip_to t c i = None" "i \<le> k" "k < length t"
  shows "t ! k \<noteq> c"
proof -
  have "IndexByte (drop i t) c < 0" using assms(1) by (auto simp: skip_to_def Let_def split: if_splits)
  then have "\<not> occurs_at (drop i t) [c] (k - i)"
    using IndexByte_first [of "drop i t" c] by (auto simp: first_occurrence_def split: if_splits)
  then show ?thesis using assms(2,3) by (auto simp: occurs_at_single)
qed

lemma occurs_at_start:
  assumes "occurs_at s sep j" "sep \<noteq> []" "t = take (length s - length sep + 1) s"
  shows "j < length t \<and> t ! j = sep ! 0"
proof -
  have "j + length sep \<le> length s" using assms(1) by (rule occurs_at_length)
  then show ?thesis using occurs_at_hd [OF assms(1,2)] assms(2,3) by (cases sep) auto
qed

lemma bytes_Index_loop_first:
  assumes "sep \<noteq> []" "t = take (length s - length sep + 1) s" "length sep \<le> length s"
    "\<And>j. j < i \<Longrightarrow> \<not> occurs_at s sep j"
  shows "first_occurrence s sep (bytes_Index_loop s sep t i)"
  using assms
proof (induction s sep t i rule: bytes_Index_loop.induct)
  case (1 s sep t i)
  note start = occurs_at_start [OF _ "1.prems"(1,2)]
  show ?case
  proof (cases "i < length t")
    case i: True
    show ?thesis
    proof (cases "skip_to t (sep ! 0) i")
      case None
      then have "\<not> occurs_at s sep j" for j
        using skip_to_None [OF None, of j] start [of j] "1.prems"(4) [of j] by (cases "j < i") auto
      then show ?thesis using i None by (subst bytes_Index_loop.simps) (simp add: first_occurrence_none)
    next
      case (Some k)
      have k: "k < length t" "\<And>j. i \<le> j \<Longrightarrow> j < k \<Longrightarrow> t ! j \<noteq> sep ! 0"
        using skip_to_Some [OF Some i] by blast+
      have before: "\<not> occurs_at s sep j" if "j < k" for j
        using that "1.prems"(4) [of j] k(2) [of j] start [of j] by (cases "j < i") auto
      have "k < length s - length sep + 1" using k(1) "1.prems"(2) by simp
      then have len: "k + length sep \<le> length s" using "1.prems"(3) by linarith
      show ?thesis
      proof (cases "slice s k (k + length sep) = sep")
        case True
        then have "occurs_at s sep k" using len by (simp add: occurs_at_def)
        then show ?thesis using i Some True before
          by (subst bytes_Index_loop.simps) (simp add: first_occurrenceI)
      next
        case False
        then have "\<not> occurs_at s sep j" if "j < k + 1" for j
          using that before [of j] by (cases "j = k") (auto simp: occurs_at_def)
        then have "first_occurrence s sep (bytes_Index_loop s sep t (k + 1))"
          using "1.IH" [OF i Some False] "1.prems" by blast
        then show ?thesis using i Some False by (subst bytes_Index_loop.simps) simp
      qed
    qed
  next
    case False
    then have "\<not> occurs_at s sep j" for j using start [of j] "1.prems"(4) [of j] by (cases "j < i") auto
    then show ?thesis using False by (subst bytes_Index_loop.simps) (simp add: first_occurrence_none)
  qed
qed

lemma bytes_Index_first: "first_occurrence s sep (bytes_Index s sep)"
proof -
  consider "length sep = 0" | "length sep > length s" "length sep > 0" | "length sep = 1" "length sep \<le> length s"
    | "length sep > 1" "length sep \<le> length s" by linarith
  then show ?thesis
  proof cases
    case 1
    then show ?thesis by (auto simp: bytes_Index_def first_occurrence_def)
  next
    case 2
    then have "bytes_Index s sep = -1" by (auto simp: bytes_Index_def Let_def)
    moreover have "\<not> occurs_at s sep j" for j using 2 occurs_at_length [of s sep j] by auto
    ultimately show ?thesis by (simp add: first_occurrence_none)
  next
    case 3
    then obtain c where "sep = [c]" by (cases sep) auto
    then show ?thesis using 3 IndexByte_first [of s c] by (auto simp: bytes_Index_def)
  next
    case 4
    then have "first_occurrence s sep (bytes_Index_loop s sep (take (length s - length sep + 1) s) 0)"
      by (intro bytes_Index_loop_first) auto
    then show ?thesis using 4 by (auto simp: bytes_Index_def Let_def)
  qed
qed

section \<open>Last occurrences\<close>

lemma last_occurrenceI:
  "occurs_at s sep i \<Longrightarrow> (\<And>j. i < j \<Longrightarrow> \<not> occurs_at s sep j) \<Longrightarrow> last_occurrence s sep (int i)"
  by (auto simp: last_occurrence_def)

lemma last_occurrence_none: "(\<And>j. \<not> occurs_at s sep j) \<Longrightarrow> last_occurrence s sep (-1)"
  by (simp add: last_occurrence_def)

lemma LastIndexByte_last:
  "k \<le> length s \<Longrightarrow> (\<And>j. k \<le> j \<Longrightarrow> \<not> occurs_at s [c] j) \<Longrightarrow> last_occurrence s [c] (LastIndexByte_loop s c k)"
proof (induction k)
  case 0
  then show ?case by (simp add: last_occurrence_none)
next
  case (Suc k)
  show ?case
  proof (cases "s ! k = c")
    case True
    then have "last_occurrence s [c] (int k)" using Suc.prems by (intro last_occurrenceI) (auto simp: occurs_at_single)
    then show ?thesis using True by simp
  next
    case False
    then have "\<not> occurs_at s [c] j" if "k \<le> j" for j
      using that Suc.prems(2) [of j] by (cases "j = k") (auto simp: occurs_at_single)
    then show ?thesis using False Suc by simp
  qed
qed

text \<open>The test of the scanning loops: the first byte, then the rest unless the separator is one byte.\<close>

lemma occurs_at_first_byte:
  assumes "sep \<noteq> []" "k + length sep \<le> length s"
  shows "s ! k = sep ! 0 \<and> (length sep = 1 \<or> slice s k (k + length sep) = sep) \<longleftrightarrow> occurs_at s sep k"
proof (cases "length sep = 1")
  case True
  then obtain c where "sep = [c]" by (cases sep) auto
  then show ?thesis using assms(2) by (auto simp: occurs_at_single)
next
  case False
  then show ?thesis using assms occurs_at_hd [of s sep k] by (auto simp: occurs_at_def)
qed

lemma bytes_LastIndex_loop_last:
  "sep \<noteq> [] \<Longrightarrow> k + length sep \<le> length s + 1 \<Longrightarrow> (\<And>j. k \<le> j \<Longrightarrow> \<not> occurs_at s sep j)
    \<Longrightarrow> last_occurrence s sep (bytes_LastIndex_loop s sep k)"
proof (induction k)
  case 0
  then show ?case by (simp add: last_occurrence_none)
next
  case (Suc k)
  have occ: "s ! k = sep ! 0 \<and> (length sep = 1 \<or> slice s k (k + length sep) = sep) \<longleftrightarrow> occurs_at s sep k"
    using Suc.prems by (intro occurs_at_first_byte) auto
  show ?case
  proof (cases "occurs_at s sep k")
    case True
    then have "last_occurrence s sep (int k)" using Suc.prems(3) by (intro last_occurrenceI) auto
    then show ?thesis using True occ by (simp only: bytes_LastIndex_loop.simps if_True)
  next
    case False
    then have "\<not> occurs_at s sep j" if "k \<le> j" for j using that Suc.prems(3) [of j] by (cases "j = k") auto
    then have "last_occurrence s sep (bytes_LastIndex_loop s sep k)" using Suc.prems by (intro Suc.IH) auto
    then show ?thesis using False occ by (simp only: bytes_LastIndex_loop.simps if_False)
  qed
qed

lemma bytes_LastIndex_last: "last_occurrence s sep (bytes_LastIndex s sep)"
proof (cases "sep = []")
  case True
  then show ?thesis by (auto simp: bytes_LastIndex_def last_occurrence_def)
next
  case False
  have "\<not> occurs_at s sep j" if "length s + 1 - length sep \<le> j" for j
    using that occurs_at_length [of s sep j] False by (cases sep) auto
  then have "last_occurrence s sep (bytes_LastIndex_loop s sep (length s + 1 - length sep))"
    if "length sep \<le> length s + 1" using that False by (intro bytes_LastIndex_loop_last) auto
  moreover have "last_occurrence s sep (-1)" if "\<not> length sep \<le> length s + 1"
    using that occurs_at_length [of s sep] by (intro last_occurrence_none) force
  ultimately show ?thesis using False by (cases "length sep \<le> length s + 1") (auto simp: bytes_LastIndex_def Let_def)
qed

text \<open>Moving the window one byte to the left.\<close>

lemma roll_left:
  assumes "0 < length sep" "i + length sep < length s" "h = hash_loop 0 (rev (slice s (i + 1) (i + 1 + length sep)))"
  shows "h * primeRK + ucast (s ! i) - primeRK ^ length sep * ucast (s ! (i + length sep))
    = hash_loop 0 (rev (slice s i (i + length sep)))"
proof -
  obtain xs where xs: "slice s i (i + length sep) = s ! i # xs"
      "slice s (i + 1) (i + length sep + 1) = xs @ [s ! (i + length sep)]" "length xs = length sep - 1"
    using slice_roll [of "length sep" "i + length sep" s] assms(1,2) by auto
  then have "length (s ! (i + length sep) # rev xs) = length sep" using assms(1) by simp
  moreover have "h = hash_loop 0 (s ! (i + length sep) # rev xs)" using assms(3) xs(2) by (simp add: add.commute)
  ultimately show ?thesis unfolding xs(1) using hash_roll [of "rev xs" "s ! i" "s ! (i + length sep)"] by simp
qed

lemma LastIndex_loop_last:
  "sep \<noteq> [] \<Longrightarrow> k + length sep \<le> length s \<Longrightarrow> h = hash_loop 0 (rev (slice s k (k + length sep)))
    \<Longrightarrow> (\<And>j. k \<le> j \<Longrightarrow> \<not> occurs_at s sep j)
    \<Longrightarrow> last_occurrence s sep (LastIndex_loop s sep (hash_loop 0 (rev sep)) (primeRK ^ length sep) h k)"
proof (induction k arbitrary: h)
  case 0
  then show ?case by (simp add: last_occurrence_none)
next
  case (Suc k)
  let ?h = "h * primeRK + ucast (s ! k) - primeRK ^ length sep * ucast (s ! (k + length sep))"
  have h: "?h = hash_loop 0 (rev (slice s k (k + length sep)))" using Suc.prems by (intro roll_left) auto
  have step: "LastIndex_loop s sep (hash_loop 0 (rev sep)) (primeRK ^ length sep) h (Suc k) =
      (if ?h = hash_loop 0 (rev sep) \<and> slice s k (k + length sep) = sep then int k
       else LastIndex_loop s sep (hash_loop 0 (rev sep)) (primeRK ^ length sep) ?h k)"
    by (simp only: LastIndex_loop.simps Let_def)
  have occ: "slice s k (k + length sep) = sep \<longleftrightarrow> occurs_at s sep k" using Suc.prems(2) by (simp add: occurs_at_def)
  show ?case
  proof (cases "occurs_at s sep k")
    case True
    then have "last_occurrence s sep (int k)" using Suc.prems(4) by (intro last_occurrenceI) auto
    moreover have "slice s k (k + length sep) = sep" using True occ by blast
    ultimately show ?thesis unfolding step h by (simp only: simp_thms if_True)
  next
    case False
    then have "\<not> occurs_at s sep j" if "k \<le> j" for j using that Suc.prems(4) [of j] by (cases "j = k") auto
    then have "last_occurrence s sep (LastIndex_loop s sep (hash_loop 0 (rev sep)) (primeRK ^ length sep) ?h k)"
      using Suc.prems h by (intro Suc.IH) auto
    then show ?thesis unfolding step using False occ by (simp only: simp_thms if_False)
  qed
qed

lemma LastIndex_last: "last_occurrence s sep (LastIndex s sep)"
proof -
  consider "length sep = 0" | "length sep = 1" | "length sep > 1" "length sep = length s"
    | "length sep > 1" "length sep > length s" | "length sep > 1" "length sep < length s" by linarith
  then show ?thesis
  proof cases
    case 1
    then show ?thesis by (auto simp: LastIndex_def last_occurrence_def)
  next
    case 2
    then obtain c where c: "sep = [c]" by (cases sep) auto
    have "last_occurrence s [c] (LastIndexByte_loop s c (length s))"
      by (intro LastIndexByte_last) (auto simp: occurs_at_single)
    then show ?thesis using c by (simp add: LastIndex_def)
  next
    case 3
    then have "LastIndex s sep = (if sep = s then 0 else -1)" by (auto simp: LastIndex_def Let_def)
    then show ?thesis
      using occurs_at_full [OF 3(2)] last_occurrenceI [of s sep 0] last_occurrence_none [of s sep]
      by (cases "sep = s") simp_all
  next
    case 4
    then have "LastIndex s sep = -1" by (auto simp: LastIndex_def Let_def)
    moreover have "\<not> occurs_at s sep j" for j using 4 occurs_at_length [of s sep j] by auto
    ultimately show ?thesis by (simp add: last_occurrence_none)
  next
    case 5
    let ?last = "length s - length sep"
    let ?h = "hash_loop 0 (rev (drop ?last s))"
    have i: "LastIndex s sep = (if ?h = hash_loop 0 (rev sep) \<and> drop ?last s = sep then int ?last
        else LastIndex_loop s sep (hash_loop 0 (rev sep)) (primeRK ^ length sep) ?h ?last)"
      unfolding LastIndex_def hashStrRev_def pow_loop_power Let_def prod.case
      using 5 by (simp del: hash_loop.simps)
    have beyond: "\<not> occurs_at s sep j" if "?last < j" for j using that occurs_at_length [of s sep j] by auto
    show ?thesis
    proof (cases "drop ?last s = sep")
      case True
      have "last_occurrence s sep (int ?last)"
        using 5 True beyond by (intro last_occurrenceI) (auto simp: occurs_at_def)
      then show ?thesis unfolding i using True by simp
    next
      case False
      have "\<not> occurs_at s sep ?last" using False 5 by (auto simp: occurs_at_def)
      then have "\<not> occurs_at s sep j" if "?last \<le> j" for j using that beyond [of j] by (cases "j = ?last") auto
      then have "last_occurrence s sep (LastIndex_loop s sep (hash_loop 0 (rev sep)) (primeRK ^ length sep) ?h ?last)"
        using 5 by (intro LastIndex_loop_last) auto
      then show ?thesis unfolding i using False by simp
    qed
  qed
qed

section \<open>Counting\<close>

text \<open>The reference: the number of non-overlapping occurrences, found greedily from the left.\<close>

function occ_count :: "'a list \<Rightarrow> 'a list \<Rightarrow> nat" where
  "occ_count sep s =
    (if sep = [] \<or> length s < length sep then 0
     else if take (length sep) s = sep then 1 + occ_count sep (drop (length sep) s)
     else occ_count sep (tl s))"
  by pat_completeness auto
termination by (relation "measure (\<lambda>(sep, s). length s)") (auto simp: length_greater_0_conv [symmetric] simp del: length_greater_0_conv)

declare occ_count.simps [simp del]

lemma occ_count_short: "length s < length sep \<Longrightarrow> occ_count sep s = 0"
  by (subst occ_count.simps) simp

lemma occ_count_match: "sep \<noteq> [] \<Longrightarrow> occurs_at s sep i \<Longrightarrow>
    occ_count sep (drop i s) = Suc (occ_count sep (drop (i + length sep) s))"
  by (subst occ_count.simps) (auto simp: occurs_at_def add.commute)

lemma occ_count_step: "sep \<noteq> [] \<Longrightarrow> \<not> occurs_at s sep i \<Longrightarrow>
    occ_count sep (drop i s) = occ_count sep (drop (Suc i) s)"
proof -
  assume a: "sep \<noteq> []" "\<not> occurs_at s sep i"
  show ?thesis
  proof (cases "i + length sep \<le> length s")
    case True
    then show ?thesis using a by (subst occ_count.simps) (auto simp: occurs_at_def tl_drop drop_Suc)
  next
    case False
    then have "length (drop i s) < length sep" "length (drop (Suc i) s) < length sep" using a(1) by (cases sep; auto)+
    then show ?thesis by (simp only: occ_count_short)
  qed
qed

lemma occ_count_skip:
  assumes "sep \<noteq> []" "i \<le> j" "\<And>k. i \<le> k \<Longrightarrow> k < j \<Longrightarrow> \<not> occurs_at s sep k"
  shows "occ_count sep (drop i s) = occ_count sep (drop j s)"
  using assms(2,3)
proof (induction "j - i" arbitrary: i)
  case (Suc d)
  then have "i < j" by simp
  then show ?case using occ_count_step [OF assms(1), of s i] Suc.hyps(1) [of "Suc i"] Suc.hyps(2) Suc.prems by auto
qed simp

lemma bytes_Count_loop_counts:
  assumes "sep \<noteq> []" "t = take (length s - length sep + 1) s" "length sep \<le> length s"
  shows "bytes_Count_loop s sep t cnt i = cnt + occ_count sep (drop i s)"
  using assms
proof (induction s sep t cnt i rule: bytes_Count_loop.induct)
  case (1 s sep t cnt i)
  note start = occurs_at_start [OF _ "1.prems"(1,2)]
  show ?case
  proof (cases "i < length t")
    case i: True
    then have g: "i < length t \<and> sep \<noteq> []" using "1.prems"(1) by simp
    show ?thesis
    proof (cases "skip_to t (sep ! 0) i")
      case None
      have "\<not> occurs_at s sep k" if "i \<le> k" for k using that skip_to_None [OF None, of k] start [of k] by blast
      then have "occ_count sep (drop i s) = occ_count sep (drop (length s) s)"
        using i "1.prems" by (intro occ_count_skip) auto
      then show ?thesis using g None "1.prems"(1)
        by (subst bytes_Count_loop.simps) (simp add: occ_count_short)
    next
      case (Some k)
      have k: "k < length t" "\<And>j. i \<le> j \<Longrightarrow> j < k \<Longrightarrow> t ! j \<noteq> sep ! 0" "t ! k = sep ! 0"
        using skip_to_Some [OF Some i] by blast+
      have skip: "occ_count sep (drop i s) = occ_count sep (drop k s)"
        using "1.prems"(1) skip_to_le [OF Some] k(2) start by (intro occ_count_skip) auto
      have "k < length s - length sep + 1" using k(1) "1.prems"(2) by simp
      then have len: "k + length sep \<le> length s" using "1.prems"(3) by linarith
      have occ: "length sep = 1 \<or> slice s k (k + length sep) = sep \<longleftrightarrow> occurs_at s sep k"
      proof (cases "length sep = 1")
        case True
        then obtain c where "sep = [c]" by (cases sep) auto
        then show ?thesis using k(1,3) "1.prems"(2) by (simp add: occurs_at_single)
      next
        case False
        then show ?thesis using len by (simp add: occurs_at_def)
      qed
      have step: "bytes_Count_loop s sep t cnt i = (if occurs_at s sep k
          then bytes_Count_loop s sep t (cnt + 1) (k + length sep) else bytes_Count_loop s sep t cnt (k + 1))"
        by (subst bytes_Count_loop.simps) (simp only: if_P [OF g] Some option.case occ)
      show ?thesis
      proof (cases "occurs_at s sep k")
        case True
        then show ?thesis using "1.IH"(1) [OF g Some, unfolded occ, OF True "1.prems"] "1.prems"(1)
          by (simp add: step skip occ_count_match)
      next
        case False
        then show ?thesis using "1.IH"(2) [OF g Some, unfolded occ, OF False "1.prems"] "1.prems"(1)
          by (simp add: step skip occ_count_step)
      qed
    qed
  next
    case False
    then have "length (drop i s) < length sep" using "1.prems" by (cases sep) auto
    then show ?thesis using False by (subst bytes_Count_loop.simps) (simp add: occ_count_short)
  qed
qed

lemma Count_loop_counts:
  assumes "sep \<noteq> []" "length sep \<le> i" "i \<le> length s" "lastmatch \<le> i"
    "h = hash_loop 0 (slice s (i - length sep) i)"
  shows "Count_loop s sep (hash_loop 0 sep) (primeRK ^ length sep) h lastmatch n i
    = n + occ_count sep (drop (max lastmatch (i - length sep + 1)) s)"
  using assms
proof (induction "length s - i" arbitrary: h i lastmatch n rule: less_induct)
  case less
  let ?l = "length sep"
  show ?case
  proof (cases "i < length s")
    case True
    let ?h = "h * primeRK + ucast (s ! i) - primeRK ^ ?l * ucast (s ! (i - ?l))"
    have h: "?h = hash_loop 0 (slice s (i + 1 - ?l) (i + 1))" using less.prems True by (intro roll_step) auto
    define p where "p = i + 1 - ?l"
    have p: "p + ?l = i + 1" "i - ?l + 1 = p" "i + 1 - ?l + 1 = p + 1" using less.prems(2) by (auto simp: p_def)
    have occ: "slice s p (i + 1) = sep \<longleftrightarrow> occurs_at s sep p"
      unfolding occurs_at_def p(1) using True by simp
    have step: "Count_loop s sep (hash_loop 0 sep) (primeRK ^ ?l) h lastmatch n i =
        (if ?h = hash_loop 0 sep \<and> lastmatch \<le> p \<and> occurs_at s sep p
         then Count_loop s sep (hash_loop 0 sep) (primeRK ^ ?l) ?h (i + 1) (n + 1) (i + 1)
         else Count_loop s sep (hash_loop 0 sep) (primeRK ^ ?l) ?h lastmatch n (i + 1))"
      using True by (subst Count_loop.simps) (simp only: Let_def if_True p_def [symmetric] occ)
    show ?thesis
    proof (cases "lastmatch \<le> p \<and> occurs_at s sep p")
      case m: True
      then have "?h = hash_loop 0 sep" using h [folded p_def] occ by simp
      then have "Count_loop s sep (hash_loop 0 sep) (primeRK ^ ?l) h lastmatch n i =
          Count_loop s sep (hash_loop 0 sep) (primeRK ^ ?l) ?h (i + 1) (n + 1) (i + 1)" using step m by simp
      also have "\<dots> = n + 1 + occ_count sep (drop (max (i + 1) (i + 1 - ?l + 1)) s)"
        using True less.prems h by (intro less.hyps) auto
      also have "max (i + 1) (i + 1 - ?l + 1) = p + ?l" using p less.prems(1) by (cases sep) auto
      finally show ?thesis using m occ_count_match [OF less.prems(1), of s p] p(2) by (simp add: max_def)
    next
      case False
      then have "Count_loop s sep (hash_loop 0 sep) (primeRK ^ ?l) h lastmatch n i =
          Count_loop s sep (hash_loop 0 sep) (primeRK ^ ?l) ?h lastmatch n (i + 1)" using step by auto
      also have "\<dots> = n + occ_count sep (drop (max lastmatch (i + 1 - ?l + 1)) s)"
        using True less.prems h by (intro less.hyps) auto
      also have "occ_count sep (drop (max lastmatch (i + 1 - ?l + 1)) s) = occ_count sep (drop (max lastmatch p) s)"
        unfolding p(3) using False occ_count_step [OF less.prems(1), of s p] by (auto simp: max_def not_less_eq_eq)
      finally show ?thesis unfolding p(2) .
    qed
  next
    case False
    then have "length (drop (max lastmatch (i - ?l + 1)) s) < ?l" using less.prems(1-3) by (cases sep) auto
    then show ?thesis using False by (subst Count_loop.simps) (simp add: occ_count_short)
  qed
qed

lemma occ_count_single: "occ_count [c] s = length (filter (\<lambda>b. b = c) s)"
  by (induction s) (subst occ_count.simps, simp)+

lemma Count_counts: "sep \<noteq> [] \<Longrightarrow> Count s sep = occ_count sep s"
proof -
  assume ne: "sep \<noteq> []"
  consider "length sep = 1" | "length sep > 1" "length sep > length s" | "length sep > 1" "length sep = length s"
    | "length sep > 1" "length sep < length s" using ne by (cases sep) (auto, linarith)
  then show ?thesis
  proof cases
    case 1
    then obtain c where "sep = [c]" by (cases sep) auto
    then show ?thesis by (simp add: Count_def occ_count_single)
  next
    case 2
    then show ?thesis by (auto simp: Count_def occ_count_short)
  next
    case 3
    then have "Count s sep = (if sep = s then 1 else 0)" by (auto simp: Count_def)
    moreover have "occ_count sep s = (if sep = s then 1 else 0)"
    proof -
      have "length (tl s) < length sep" using ne 3(2) by (cases s) auto
      then have "occ_count sep (tl s) = 0" "occ_count sep (drop (length sep) s) = 0"
        using ne 3(2) by (auto intro!: occ_count_short)
      then show ?thesis using ne 3(2) by (subst occ_count.simps) auto
    qed
    ultimately show ?thesis by simp
  next
    case 4
    let ?h = "hash_loop 0 (take (length sep) s)"
    have c: "Count s sep = (if ?h = hash_loop 0 sep \<and> take (length sep) s = sep
        then Count_loop s sep (hash_loop 0 sep) (primeRK ^ length sep) ?h (length sep) 1 (length sep)
        else Count_loop s sep (hash_loop 0 sep) (primeRK ^ length sep) ?h 0 0 (length sep))"
      unfolding Count_def hashStr_def pow_loop_power Let_def prod.case using 4 ne by (simp del: hash_loop.simps)
    have l: "Count_loop s sep (hash_loop 0 sep) (primeRK ^ length sep) ?h m n (length sep)
        = n + occ_count sep (drop (max m 1) s)" if "m \<le> length sep" for m n
      using Count_loop_counts [OF ne, of "length sep" s m ?h n] 4 that by simp
    show ?thesis
    proof (cases "take (length sep) s = sep")
      case True
      then show ?thesis using c l [of "length sep" 1] occ_count_match [OF ne, of s 0] 4
        by (simp add: occurs_at_0 max_def)
    next
      case False
      then show ?thesis using c l [of 0 0] occ_count_step [OF ne, of s 0] by (simp add: occurs_at_0)
    qed
  qed
qed

lemma bytes_Count_counts: "sep \<noteq> [] \<Longrightarrow> bytes_Count s sep = occ_count sep s"
  using bytes_Count_loop_counts [of sep "take (length s - length sep + 1) s" s 0 0]
  by (auto simp: bytes_Count_def Let_def occ_count_short)

section \<open>Searching for runes, and comparison\<close>

lemma indexFunc_loop_range: "indexFunc_loop f s i = range_index f (range_string s i)"
proof (induction f s i rule: indexFunc_loop.induct)
  case (1 f s i)
  show ?case
  proof (cases "i < length s")
    case True
    then have n: "next_rune (drop i s) = DecodeRune (drop i s)" by (simp add: next_rune_eq)
    show ?thesis using 1 True n
      by (subst indexFunc_loop.simps) (auto simp: range_string_step split: prod.splits)
  qed (subst indexFunc_loop.simps, simp add: range_string_end)
qed

lemma bytes_IndexRune_loop_range: "bytes_IndexRune_loop s r i = range_index (\<lambda>c. c = r) (range_string s i)"
proof (induction s r i rule: bytes_IndexRune_loop.induct)
  case (1 s r i)
  show ?case
  proof (cases "i < length s")
    case True
    then show ?thesis using 1
      by (subst bytes_IndexRune_loop.simps) (auto simp: range_string_step split: prod.splits)
  qed (subst bytes_IndexRune_loop.simps, simp add: range_string_end)
qed

lemma bytes_last_rune_index_eq: "bytes_last_rune_index f s i = last_rune_index f s i"
proof (induction f s i rule: bytes_last_rune_index.induct)
  case (1 f s i)
  then show ?case
    by (subst bytes_last_rune_index.simps, subst last_rune_index.simps)
      (auto simp: DecodeLastRuneInString_eq Let_def split: prod.splits)
qed

lemma cmp_loop_drop: "k \<le> length s \<Longrightarrow> cmp_loop (a # s) (b # t) (Suc i) k = cmp_loop s t i k"
  by (induction k arbitrary: i) (auto simp: Let_def)

lemma cmpstring_Cons:
  "cmpstring (a # s) (b # t) = (if a < b then -1 else if b < a then 1 else cmpstring s t)"
  unfolding cmpstring_def Let_def
  using cmp_loop_drop [of "length t" s a b t 0] cmp_loop_drop [of "length s" s a b t 0]
  by (auto simp: Let_def)

lemma cmpstring_order:
  "cmpstring s t = (if StringSlice_Less s t then -1 else if s = t then 0 else 1)"
proof (induction s t rule: StringSlice_Less.induct)
  case (3 x s y t)
  then show ?case by (auto simp: cmpstring_Cons)
qed (auto simp: cmpstring_def)

lemma cmpbytes_eq: "cmpbytes = cmpstring"
  by (intro ext) (simp only: cmpbytes_def cmpstring_def)

lemma index_first: "first_occurrence s t (index s t)"
proof -
  have occ: "prefix t (drop j s) \<longleftrightarrow> occurs_at s t j" if "t \<noteq> []" for j
    unfolding hasprefix_iff [symmetric] hasprefix_def occurs_at_def using that by (cases t) auto
  show ?thesis
  proof (cases "t = []")
    case False
    then show ?thesis using index_loop_spec [OF False, of s 0] occ [OF False]
      by (auto simp: index_def first_occurrence_def)
  qed (auto simp: index_def first_occurrence_def)
qed

section \<open>Properties\<close>

text \<open>C14: The three substring searches of the tree, the Rabin-Karp search of \<open>strings.Index\<close>, the
  first-byte scan of \<open>bytes.Index\<close> and the run-time's \<open>index\<close>, all return the first occurrence of the
  pattern or -1, and both \<open>LastIndex\<close> functions the last one: the rolling hash never loses an
  occurrence and the comparison after a hash hit removes every false one. \<open>Count\<close> of both packages is
  the number of non-overlapping occurrences, found from the left, and one more than the number of
  runes for an empty pattern.\<close>

theorem searches_agree:
  "first_occurrence s sep (Index s sep) \<and> bytes_Index s sep = Index s sep \<and> index s sep = Index s sep
   \<and> last_occurrence s sep (LastIndex s sep) \<and> bytes_LastIndex s sep = LastIndex s sep
   \<and> Count s sep = (if sep = [] then RuneCount s + 1 else occ_count sep s) \<and> bytes_Count s sep = Count s sep
   \<and> Contains s sep = (\<exists>u v. s = u @ sep @ v) \<and> bytes_Contains s sep = Contains s sep"
proof (intro conjI)
  show f: "first_occurrence s sep (Index s sep)" by (rule Index_first)
  show b: "bytes_Index s sep = Index s sep" using bytes_Index_first f by (rule first_occurrence_unique)
  show "index s sep = Index s sep" using index_first f by (rule first_occurrence_unique)
  show l: "last_occurrence s sep (LastIndex s sep)" by (rule LastIndex_last)
  show "bytes_LastIndex s sep = LastIndex s sep" using bytes_LastIndex_last l by (rule last_occurrence_unique)
  show c: "Count s sep = (if sep = [] then RuneCount s + 1 else occ_count sep s)"
    using range_string_count [of s 0] Count_counts [of sep s]
    by (cases "sep = []") (simp_all add: Count_def [of s "[]"] RuneCountInString_def)
  show "bytes_Count s sep = Count s sep"
    unfolding c using bytes_Count_counts [of sep s] by (cases "sep = []") (simp_all add: bytes_Count_def [of s "[]"])
  have "(\<exists>i. occurs_at s sep i) \<longleftrightarrow> (\<exists>u v. s = u @ sep @ v)" unfolding occurs_at_append by blast
  then show "Contains s sep = (\<exists>u v. s = u @ sep @ v)" "bytes_Contains s sep = Contains s sep"
    using f b by (auto simp: Contains_def bytes_Contains_def first_occurrence_def split: if_splits)
qed

text \<open>The comparisons of the mips32 ports order strings bytewise, as the slices of package \<open>sort\<close> do:
  -1, 0 and 1 for less, equal and greater.\<close>

theorem cmpstring_compares:
  "cmpstring s t = (if StringSlice_Less s t then -1 else if s = t then 0 else 1)
   \<and> cmpbytes s t = cmpstring s t \<and> cmpstring t s = - cmpstring s t"
  using cmpstring_order [of s t] cmpstring_order [of t s] StringSlice_Less_total [of s t]
    strings.asym [of s t] strings.irrefl by (auto simp: cmpbytes_eq)

text \<open>\<open>strings.IndexRune\<close> with a negative rune, which no string contains, searches for the byte made
  of its low eight bits, while \<open>bytes.IndexRune\<close> finds nothing.\<close>

theorem IndexRune_negative:
  "IndexRune [0x61, 0xFF] (-1) = 1 \<and> bytes_IndexRune [0x61, 0xFF] (-1) = -1"
  by code_simp

end
