(* ===== verification/StringOps.thy ===== *)
theory StringOps
  imports StringSearch
begin

text \<open>
  Building and taking apart strings: \<open>Split\<close>, \<open>Join\<close>, \<open>Replace\<close>, \<open>Repeat\<close> and the prefix functions of
  packages \<open>strings\<close> and \<open>bytes\<close> (\<open>strings.go\<close>, \<open>bytes.go\<close>). Results are built as in the code, in a
  buffer or a slice of a size computed first, so the model has the code's index and slice panics; the
  theorems show that they do not occur. Sizes are 32-bit \<open>int\<close> values and wrap around as on the mips32
  ports; \<open>make\<close> panics on a negative size and on one that does not fit in the address space.
\<close>

section \<open>Definitions\<close>

definition make_bytes :: "int \<Rightarrow> u8 list go" where
  "make_bytes n = (if n < 0 then Inl (PanicMsg ''makeslice: len out of range'') else Inr (replicate (nat n) 0))"

text \<open>\<open>bp += copy(b[bp:], x)\<close>\<close>

definition copy_next :: "u8 list \<times> nat \<Rightarrow> u8 list \<Rightarrow> (u8 list \<times> nat) go" where
  "copy_next bbp x = (case bbp of (b, bp) \<Rightarrow>
     go_bind (copy_at b bp x) (\<lambda>b. Inr (b, bp + min (length x) (length b - bp))))"

fun join_loop :: "u8 list list \<Rightarrow> u8 list \<Rightarrow> u8 list \<times> nat \<Rightarrow> (u8 list \<times> nat) go" where
  "join_loop [] sep bbp = Inr bbp"
| "join_loop (s # a) sep bbp = go_bind (copy_next bbp sep) (\<lambda>bbp. go_bind (copy_next bbp s) (join_loop a sep))"

definition Join :: "u8 list list \<Rightarrow> u8 list \<Rightarrow> u8 list go" where
  "Join a sep =
    (if length a = 0 then Inr []
     else if length a = 1 then Inr (a ! 0)
     else let n = wrap32 (int (length sep) * (int (length a) - 1) + sum_list (map (\<lambda>x. int (length x)) a)) in
       go_bind (make_bytes n) (\<lambda>b.
       go_bind (copy_next (b, 0) (a ! 0)) (\<lambda>bbp.
       go_bind (join_loop (tl a) sep bbp) (\<lambda>(b, bp). Inr b))))"

text \<open>The loop of \<open>Repeat\<close>; \<open>bp\<close> is a 32-bit \<open>int\<close>, and a negative slice index panics.\<close>

partial_function (option) Repeat_loop :: "u8 list \<Rightarrow> u32 \<Rightarrow> u8 list go option" where
  "Repeat_loop b bp =
    (if sint bp < int (length b) then
       if bp <s 0 then Some (Inl PanicSlice)
       else (case copy_at b (unat bp) (take (unat bp) b) of Inl p \<Rightarrow> Some (Inl p) | Inr b \<Rightarrow> Repeat_loop b (bp * 2))
     else Some (Inr b))"

declare Repeat_loop.simps [code]

definition Repeat :: "u8 list \<Rightarrow> int \<Rightarrow> u8 list go option" where
  "Repeat s cnt =
    go_then (Some (make_bytes (wrap32 (int (length s) * cnt)))) (\<lambda>b.
    go_then (Some (copy_next (b, 0) s)) (\<lambda>(b, bp). Repeat_loop b (of_nat bp)))"

definition HasPrefix :: "u8 list \<Rightarrow> u8 list \<Rightarrow> bool" where
  "HasPrefix s pre \<longleftrightarrow> length s \<ge> length pre \<and> slice s 0 (length pre) = pre"

definition HasSuffix :: "u8 list \<Rightarrow> u8 list \<Rightarrow> bool" where
  "HasSuffix s suf \<longleftrightarrow> length s \<ge> length suf \<and> drop (length s - length suf) s = suf"

definition TrimPrefix :: "u8 list \<Rightarrow> u8 list \<Rightarrow> u8 list" where
  "TrimPrefix s pre = (if HasPrefix s pre then drop (length pre) s else s)"

definition TrimSuffix :: "u8 list \<Rightarrow> u8 list \<Rightarrow> u8 list" where
  "TrimSuffix s suf = (if HasSuffix s suf then take (length s - length suf) s else s)"

text \<open>\<open>explode\<close>: one string per rune; \<open>string(utf8.RuneError)\<close> is the encoding of U+FFFD.\<close>

function explode_loop :: "u8 list \<Rightarrow> nat \<Rightarrow> u8 list list \<Rightarrow> nat \<Rightarrow> nat \<Rightarrow> (u8 list list \<times> nat \<times> nat) go" where
  "explode_loop s n a i cur =
    (if i + 1 < n then
       case DecodeRuneInString (drop cur s) of (ch, sz) \<Rightarrow>
       go_bind (go_set a i (if ch = RuneError then [0xEF, 0xBF, 0xBD] else slice s cur (cur + sz))) (\<lambda>a.
       explode_loop s n a (i + 1) (cur + sz))
     else Inr (a, i, cur))"
  by pat_completeness auto
termination by (relation "measure (\<lambda>(s, n, a, i, cur). n - i)") auto

declare explode_loop.simps [simp del]

definition explode :: "u8 list \<Rightarrow> int \<Rightarrow> u8 list list go" where
  "explode s n =
    (if n = 0 then Inr []
     else let l = RuneCountInString s; n = (if n \<le> 0 \<or> n > int l then l else nat n) in
       go_bind (makeslice 8 (int n) []) (\<lambda>a.
       go_bind (explode_loop s n a 0 0) (\<lambda>(a, i, cur).
         if cur < length s then go_set a i (drop cur s) else Inr a)))"

function genSplit_loop :: "u8 list \<Rightarrow> u8 list \<Rightarrow> nat \<Rightarrow> nat \<Rightarrow> u8 list list \<Rightarrow> nat \<Rightarrow> nat \<Rightarrow> nat
    \<Rightarrow> (u8 list list \<times> nat \<times> nat) go" where
  "genSplit_loop s sep sepSave n a na start i =
    (if i + length sep \<le> length s \<and> na + 1 < n then
       if s ! i = sep ! 0 \<and> (length sep = 1 \<or> slice s i (i + length sep) = sep)
       then go_bind (go_set a na (slice s start (i + sepSave))) (\<lambda>a.
            genSplit_loop s sep sepSave n a (na + 1) (i + length sep) (i + (length sep - 1) + 1))
       else genSplit_loop s sep sepSave n a na start (i + 1)
     else Inr (a, na, start))"
  by pat_completeness auto
termination
  by (relation "measure (\<lambda>(s, sep, sepSave, n, a, na, start, i). length s + 1 - i)") auto

declare genSplit_loop.simps [simp del]

definition genSplit :: "u8 list \<Rightarrow> u8 list \<Rightarrow> nat \<Rightarrow> int \<Rightarrow> u8 list list go" where
  "genSplit s sep sepSave n =
    (if n = 0 then Inr []
     else if sep = [] then explode s n
     else let n = (if n < 0 then Count s sep + 1 else nat n) in
       go_bind (makeslice 8 (int n) []) (\<lambda>a.
       go_bind (genSplit_loop s sep sepSave n a 0 0 0) (\<lambda>(a, na, start).
       go_bind (go_set a na (drop start s)) (\<lambda>a. Inr (take (na + 1) a)))))"

definition SplitN :: "u8 list \<Rightarrow> u8 list \<Rightarrow> int \<Rightarrow> u8 list list go" where
  "SplitN s sep n = genSplit s sep 0 n"


definition Split :: "u8 list \<Rightarrow> u8 list \<Rightarrow> u8 list list go" where
  "Split s sep = genSplit s sep 0 (-1)"

definition SplitAfter :: "u8 list \<Rightarrow> u8 list \<Rightarrow> u8 list list go" where
  "SplitAfter s sep = genSplit s sep (length sep) (-1)"

text \<open>
  The loop of \<open>Replace\<close>: \<open>k\<close> iterations are left and \<open>i\<close> are done. \<open>Index\<close> finds an occurrence in
  every iteration; a slice bound out of range would panic.
\<close>

fun Replace_loop :: "u8 list \<Rightarrow> u8 list \<Rightarrow> u8 list \<Rightarrow> nat \<Rightarrow> nat \<Rightarrow> u8 list \<times> nat \<Rightarrow> nat
    \<Rightarrow> ((u8 list \<times> nat) \<times> nat) go" where
  "Replace_loop s old new i 0 tw start = Inr (tw, start)"
| "Replace_loop s old new i (Suc k) tw start =
    (let j = (if length old = 0 then (if i > 0 then int start + int (snd (DecodeRuneInString (drop start s))) else int start)
              else int start + Index (drop start s) old) in
     if j < int start \<or> j > int (length s) then Inl PanicSlice
     else go_bind (copy_next tw (slice s start (nat j))) (\<lambda>tw.
          go_bind (copy_next tw new) (\<lambda>tw. Replace_loop s old new (i + 1) k tw (nat j + length old))))"

definition Replace :: "u8 list \<Rightarrow> u8 list \<Rightarrow> u8 list \<Rightarrow> int \<Rightarrow> u8 list go" where
  "Replace s old new n =
    (if old = new \<or> n = 0 then Inr s
     else let m = Count s old in
     if m = 0 then Inr s
     else let n = (if n < 0 \<or> int m < n then m else nat n) in
       go_bind (make_bytes (wrap32 (int (length s) + int n * (int (length new) - int (length old))))) (\<lambda>t.
       go_bind (Replace_loop s old new 0 n (t, 0) 0) (\<lambda>(tw, start).
       if start > length s then Inl PanicSlice
       else go_bind (copy_next tw (drop start s)) (\<lambda>(t, w). Inr (take w t)))))"

text \<open>Package \<open>bytes\<close>: the same operations on byte slices, with \<open>bytes.Count\<close> and \<open>bytes.Index\<close>.\<close>

function bytes_explode_loop :: "nat \<Rightarrow> u8 list \<Rightarrow> u8 list list \<Rightarrow> nat \<Rightarrow> (u8 list list \<times> nat) go" where
  "bytes_explode_loop n s a na =
    (if length s > 0 then
       if na + 1 \<ge> n then go_bind (go_set a na s) (\<lambda>a. Inr (a, na + 1))
       else let sz = snd (DecodeRune s) in
         go_bind (go_set a na (take sz s)) (\<lambda>a. bytes_explode_loop n (drop sz s) a (na + 1))
     else Inr (a, na))"
  by pat_completeness auto
termination by (relation "measure (\<lambda>(n, s, a, na). n - na)") auto

declare bytes_explode_loop.simps [simp del]

definition bytes_explode :: "u8 list \<Rightarrow> int \<Rightarrow> u8 list list go" where
  "bytes_explode s n =
    (let n = (if n \<le> 0 then length s else nat n) in
     go_bind (makeslice 12 (int n) []) (\<lambda>a.
     go_bind (bytes_explode_loop n s a 0) (\<lambda>(a, na). Inr (take na a))))"

definition bytes_genSplit :: "u8 list \<Rightarrow> u8 list \<Rightarrow> nat \<Rightarrow> int \<Rightarrow> u8 list list go" where
  "bytes_genSplit s sep sepSave n =
    (if n = 0 then Inr []
     else if length sep = 0 then bytes_explode s n
     else let n = (if n < 0 then bytes_Count s sep + 1 else nat n) in
       go_bind (makeslice 12 (int n) []) (\<lambda>a.
       go_bind (genSplit_loop s sep sepSave n a 0 0 0) (\<lambda>(a, na, start).
       go_bind (go_set a na (drop start s)) (\<lambda>a. Inr (take (na + 1) a)))))"



definition bytes_Split :: "u8 list \<Rightarrow> u8 list \<Rightarrow> u8 list list go" where
  "bytes_Split s sep = bytes_genSplit s sep 0 (-1)"

definition bytes_SplitAfter :: "u8 list \<Rightarrow> u8 list \<Rightarrow> u8 list list go" where
  "bytes_SplitAfter s sep = bytes_genSplit s sep (length sep) (-1)"


definition bytes_HasPrefix :: "u8 list \<Rightarrow> u8 list \<Rightarrow> bool" where
  "bytes_HasPrefix s pre \<longleftrightarrow> length s \<ge> length pre \<and> equalPortable (slice s 0 (length pre)) pre"

definition bytes_HasSuffix :: "u8 list \<Rightarrow> u8 list \<Rightarrow> bool" where
  "bytes_HasSuffix s suf \<longleftrightarrow> length s \<ge> length suf \<and> equalPortable (drop (length s - length suf) s) suf"

definition bytes_TrimPrefix :: "u8 list \<Rightarrow> u8 list \<Rightarrow> u8 list" where
  "bytes_TrimPrefix s pre = (if bytes_HasPrefix s pre then drop (length pre) s else s)"

definition bytes_TrimSuffix :: "u8 list \<Rightarrow> u8 list \<Rightarrow> u8 list" where
  "bytes_TrimSuffix s suf = (if bytes_HasSuffix s suf then take (length s - length suf) s else s)"

definition bytes_Repeat :: "u8 list \<Rightarrow> int \<Rightarrow> u8 list go option" where
  "bytes_Repeat b cnt =
    go_then (Some (make_bytes (wrap32 (int (length b) * cnt)))) (\<lambda>nb.
    go_then (Some (copy_next (nb, 0) b)) (\<lambda>(nb, bp). Repeat_loop nb (of_nat bp)))"

fun bytes_Replace_loop :: "u8 list \<Rightarrow> u8 list \<Rightarrow> u8 list \<Rightarrow> nat \<Rightarrow> nat \<Rightarrow> u8 list \<times> nat \<Rightarrow> nat
    \<Rightarrow> ((u8 list \<times> nat) \<times> nat) go" where
  "bytes_Replace_loop s old new i 0 tw start = Inr (tw, start)"
| "bytes_Replace_loop s old new i (Suc k) tw start =
    (let j = (if length old = 0 then (if i > 0 then int start + int (snd (DecodeRune (drop start s))) else int start)
              else int start + bytes_Index (drop start s) old) in
     if j < int start \<or> j > int (length s) then Inl PanicSlice
     else go_bind (copy_next tw (slice s start (nat j))) (\<lambda>tw.
          go_bind (copy_next tw new) (\<lambda>tw. bytes_Replace_loop s old new (i + 1) k tw (nat j + length old))))"

definition bytes_Replace :: "u8 list \<Rightarrow> u8 list \<Rightarrow> u8 list \<Rightarrow> int \<Rightarrow> u8 list go" where
  "bytes_Replace s old new n =
    (let m = (if n \<noteq> 0 then bytes_Count s old else 0) in
     if m = 0 then Inr ([] @ s)
     else let n = (if n < 0 \<or> int m < n then m else nat n) in
       go_bind (make_bytes (wrap32 (int (length s) + int n * (int (length new) - int (length old))))) (\<lambda>t.
       go_bind (bytes_Replace_loop s old new 0 n (t, 0) 0) (\<lambda>(tw, start).
       if start > length s then Inl PanicSlice
       else go_bind (copy_next tw (drop start s)) (\<lambda>(t, w). Inr (take w t)))))"

section \<open>Splitting\<close>

text \<open>The reference: at most \<open>k\<close> splits at the first occurrences, with \<open>save\<close> bytes of the separator kept.\<close>

fun split_ref :: "nat \<Rightarrow> u8 list \<Rightarrow> nat \<Rightarrow> u8 list \<Rightarrow> u8 list list" where
  "split_ref 0 sep save s = [s]"
| "split_ref (Suc k) sep save s =
    (if Index s sep < 0 then [s]
     else let i = nat (Index s sep) in take (i + save) s # split_ref k sep save (drop (i + length sep) s))"

fun join_ref :: "u8 list \<Rightarrow> u8 list list \<Rightarrow> u8 list" where
  "join_ref sep [] = []"
| "join_ref sep [x] = x"
| "join_ref sep (x # y # a) = x @ sep @ join_ref sep (y # a)"

lemma occurs_at_drop: "k \<le> length s \<Longrightarrow> occurs_at (drop k s) sep j \<longleftrightarrow> occurs_at s sep (k + j)"
  by (auto simp: occurs_at_def add_ac)

lemma Index_drop:
  assumes "start \<le> i" "occurs_at s sep i" "\<And>j. start \<le> j \<Longrightarrow> j < i \<Longrightarrow> \<not> occurs_at s sep j"
  shows "Index (drop start s) sep = int (i - start)"
proof (rule first_occurrence_unique)
  have l: "start \<le> length s" using assms(1) occurs_at_length [OF assms(2)] by simp
  show "first_occurrence (drop start s) sep (int (i - start))"
    using assms l by (intro first_occurrenceI) (auto simp: occurs_at_drop)
qed (rule Index_first)

lemma Index_drop_none:
  assumes "start \<le> length s" "\<And>j. start \<le> j \<Longrightarrow> \<not> occurs_at s sep j"
  shows "Index (drop start s) sep = -1"
proof (rule first_occurrence_unique)
  show "first_occurrence (drop start s) sep (-1)"
    using assms by (intro first_occurrence_none) (simp add: occurs_at_drop)
qed (rule Index_first)

lemma Index_occurs: "\<not> Index s sep < 0 \<Longrightarrow> occurs_at s sep (nat (Index s sep))"
  using Index_first [of s sep] by (auto simp: first_occurrence_def split: if_splits)

lemma Index_not_occurs: "Index s sep < 0 \<Longrightarrow> \<not> occurs_at s sep j"
  using Index_first [of s sep] by (auto simp: first_occurrence_def split: if_splits)

lemma Index_before: "j < nat (Index s sep) \<Longrightarrow> \<not> occurs_at s sep j"
  using Index_first [of s sep] by (auto simp: first_occurrence_def split: if_splits)

lemma split_ref_not_Nil [simp]: "split_ref k sep save s \<noteq> []"
  by (cases k) (auto simp: Let_def)

lemma join_ref_Cons: "a \<noteq> [] \<Longrightarrow> join_ref sep (x # a) = x @ sep @ join_ref sep a"
  by (cases a) auto

lemma occurs_at_decomp: "occurs_at s sep i \<Longrightarrow> s = take i s @ sep @ drop (i + length sep) s"
  unfolding occurs_at_append by auto


lemma join_split_ref: "join_ref sep (split_ref k sep 0 s) = s"
proof (induction k sep "0::nat" s rule: split_ref.induct)
  case (2 k sep s)
  show ?case
  proof (cases "Index s sep < 0")
    case False
    then show ?thesis using 2 [OF False refl] occurs_at_decomp [OF Index_occurs [OF False]]
      by (simp add: join_ref_Cons Let_def)
  qed simp
qed simp


lemma length_split_ref: "sep \<noteq> [] \<Longrightarrow> length (split_ref k sep save s) = min k (occ_count sep s) + 1"
proof (induction k sep save s rule: split_ref.induct)
  case (2 k sep save s)
  show ?case
  proof (cases "Index s sep < 0")
    case True
    then have "occ_count sep s = occ_count sep (drop (length s) s)"
      using occ_count_skip [OF "2.prems", of 0 "length s" s] Index_not_occurs [OF True] by simp
    then show ?thesis using True "2.prems" by (simp add: occ_count_short)
  next
    case False
    let ?i = "nat (Index s sep)"
    have "occ_count sep s = occ_count sep (drop ?i s)"
      using occ_count_skip [OF "2.prems", of 0 ?i s] Index_before by simp
    also have "\<dots> = Suc (occ_count sep (drop (?i + length sep) s))"
      using "2.prems" Index_occurs [OF False] by (rule occ_count_match)
    finally show ?thesis using 2 False by (simp add: Let_def)
  qed
qed simp

lemma split_ref_min: "sep \<noteq> [] \<Longrightarrow> split_ref (min k (occ_count sep s)) sep save s = split_ref k sep save s"
proof (induction k sep save s rule: split_ref.induct)
  case (2 k sep save s)
  show ?case
  proof (cases "Index s sep < 0")
    case True
    then show ?thesis by (cases "min (Suc k) (occ_count sep s)") auto
  next
    case False
    let ?i = "nat (Index s sep)"
    have "occ_count sep s = Suc (occ_count sep (drop (?i + length sep) s))"
      using occ_count_skip [OF "2.prems", of 0 ?i s] Index_before occ_count_match [OF "2.prems" Index_occurs [OF False]]
      by simp
    then show ?thesis using 2 False by (simp add: Let_def)
  qed
qed simp


lemma genSplit_loop_splits:
  assumes "sep \<noteq> []" "start \<le> i" "start \<le> length s" "na < n" "length a = n"
    "\<And>j. start \<le> j \<Longrightarrow> j < i \<Longrightarrow> \<not> occurs_at s sep j"
  shows "\<exists>a' na' start'. genSplit_loop s sep save n a na start i = Inr (a', na', start')
    \<and> length a' = n \<and> na' < n \<and> start' \<le> length s
    \<and> take na' a' @ [drop start' s] = take na a @ split_ref (n - 1 - na) sep save (drop start s)"
  using assms
proof (induction s sep save n a na start i rule: genSplit_loop.induct)
  case (1 s sep save n a na start i)
  show ?case
  proof (cases "i + length sep \<le> length s \<and> na + 1 < n")
    case True
    have occ: "s ! i = sep ! 0 \<and> (length sep = 1 \<or> slice s i (i + length sep) = sep) \<longleftrightarrow> occurs_at s sep i"
      using True "1.prems"(1) occurs_at_first_byte by blast
    show ?thesis
    proof (cases "occurs_at s sep i")
      case o: True
      let ?p = "slice s start (i + save)"
      let ?a = "a[na := ?p]"
      have "Index (drop start s) sep = int (i - start)" using "1.prems"(2,6) o by (intro Index_drop)
      then have idx: "\<not> Index (drop start s) sep < 0" "nat (Index (drop start s) sep) = i - start"
        by (simp_all only: nat_int of_nat_less_0_iff simp_thms)
      have n: "n - 1 - na = Suc (n - 1 - (na + 1))" using True by linarith
      have "i - start + save = i + save - start" "i - start + length sep + start = i + length sep"
        using "1.prems"(2) by auto
      then have ref: "split_ref (n - 1 - na) sep save (drop start s)
          = ?p # split_ref (n - 1 - (na + 1)) sep save (drop (i + length sep) s)"
        unfolding n by (simp add: idx Let_def)
      have g: "go_set a na ?p = Inr ?a" using "1.prems"(4,5) by (simp add: go_set_def)
      have l: "i + (length sep - 1) + 1 = i + length sep" using "1.prems"(1) by (cases sep) auto
      obtain a' na' start' where r: "genSplit_loop s sep save n ?a (na + 1) (i + length sep) (i + (length sep - 1) + 1)
            = Inr (a', na', start')" "length a' = n" "na' < n" "start' \<le> length s"
          "take na' a' @ [drop start' s] = take (na + 1) ?a @ split_ref (n - 1 - (na + 1)) sep save (drop (i + length sep) s)"
        using "1.IH"(1) [OF True, unfolded occ, OF o "1.prems"(1), of ?a] True "1.prems"(5) unfolding l by auto
      have "take (na + 1) ?a = take na a @ [?p]" using "1.prems"(4,5) by (simp add: take_Suc_conv_app_nth)
      moreover have "genSplit_loop s sep save n a na start i
          = genSplit_loop s sep save n ?a (na + 1) (i + length sep) (i + (length sep - 1) + 1)"
        by (subst genSplit_loop.simps) (simp only: if_P [OF True] occ o if_True g go_bind.simps)
      ultimately show ?thesis using r ref by simp
    next
      case no: False
      have "\<not> occurs_at s sep j" if "start \<le> j" "j < i + 1" for j
        using that no "1.prems"(6) [of j] by (cases "j = i") auto
      moreover have "genSplit_loop s sep save n a na start i = genSplit_loop s sep save n a na start (i + 1)"
        by (subst genSplit_loop.simps) (simp only: if_P [OF True] occ no if_False)
      ultimately show ?thesis using "1.IH"(2) [OF True, unfolded occ, OF no] "1.prems" by auto
    qed
  next
    case False
    have "split_ref (n - 1 - na) sep save (drop start s) = [drop start s]"
    proof (cases "na + 1 < n")
      case True
      have "\<not> occurs_at s sep j" if "start \<le> j" for j
        using that "1.prems"(6) [of j] occurs_at_length [of s sep j] False True by (cases "j < i") auto
      then have "Index (drop start s) sep = -1" using "1.prems"(3) by (intro Index_drop_none)
      then show ?thesis by (cases "n - 1 - na") simp_all
    next
      case full: False
      then have "n - 1 - na = 0" by simp
      then show ?thesis by simp
    qed
    then show ?thesis using False "1.prems" by (subst genSplit_loop.simps) (simp only: if_False, auto)
  qed
qed

text \<open>The number of pieces that is allocated.\<close>

definition pieces :: "u8 list \<Rightarrow> u8 list \<Rightarrow> int \<Rightarrow> nat" where
  "pieces s sep n = (if n < 0 then Count s sep + 1 else nat n)"

lemma genSplit_filled:
  assumes "sep \<noteq> []" "n \<noteq> 0"
  shows "go_bind (genSplit_loop s sep save (pieces s sep n) (replicate (pieces s sep n) []) 0 0 0)
      (\<lambda>(a, na, start). go_bind (go_set a na (drop start s)) (\<lambda>a. Inr (take (na + 1) a)))
    = Inr (split_ref (pieces s sep n - 1) sep save s)"
proof -
  define k where "k = pieces s sep n"
  have k: "0 < k" using assms(2) by (auto simp: k_def pieces_def)
  obtain a na start where r: "genSplit_loop s sep save k (replicate k []) 0 0 0 = Inr (a, na, start)"
      "length a = k" "na < k" "take na a @ [drop start s] = split_ref (k - 1) sep save s"
    using genSplit_loop_splits [of sep 0 0 s 0 k "replicate k []" save] assms(1) k by auto
  have "take (na + 1) (a[na := drop start s]) = take na a @ [drop start s]"
    using r(2,3) by (simp add: take_Suc_conv_app_nth)
  then show ?thesis using r by (simp add: k_def [symmetric] go_set_def)
qed

lemma genSplit_splits:
  assumes "sep \<noteq> []" "n \<noteq> 0"
  shows "genSplit s sep save n = (if pieces s sep n \<le> 536870911 then Inr (split_ref (pieces s sep n - 1) sep save s)
      else Inl (PanicMsg ''makeslice: len out of range''))"
    and "bytes_genSplit s sep save n = (if pieces s sep n \<le> 357913941 then Inr (split_ref (pieces s sep n - 1) sep save s)
      else Inl (PanicMsg ''makeslice: len out of range''))"
proof -
  let ?store = "\<lambda>a. go_bind (genSplit_loop s sep save (pieces s sep n) a 0 0 0)
      (\<lambda>(a, na, start). go_bind (go_set a na (drop start s)) (\<lambda>a. Inr (take (na + 1) a)))"
  have "genSplit s sep save n = go_bind (makeslice 8 (int (pieces s sep n)) []) ?store"
    "bytes_genSplit s sep save n = go_bind (makeslice 12 (int (pieces s sep n)) []) ?store"
    using assms by (simp_all add: genSplit_def bytes_genSplit_def pieces_def Let_def Count_counts bytes_Count_counts)
  then show "genSplit s sep save n = (if pieces s sep n \<le> 536870911 then Inr (split_ref (pieces s sep n - 1) sep save s)
      else Inl (PanicMsg ''makeslice: len out of range''))"
    "bytes_genSplit s sep save n = (if pieces s sep n \<le> 357913941 then Inr (split_ref (pieces s sep n - 1) sep save s)
      else Inl (PanicMsg ''makeslice: len out of range''))"
    by (simp_all only: makeslice_strings makeslice_slices go_bind_if genSplit_filled [OF assms])
qed

section \<open>Joining\<close>

lemma copy_next_fill:
  "bp + length x \<le> length b \<Longrightarrow> copy_next (b, bp) x = Inr (fill b bp x, bp + length x)"
  by (simp add: copy_next_def copy_at_fill)

lemma join_loop_fills:
  "bp + length (concat (map ((@) sep) a)) \<le> length b \<Longrightarrow>
    join_loop a sep (b, bp) = Inr (fill b bp (concat (map ((@) sep) a)), bp + length (concat (map ((@) sep) a)))"
proof (induction a arbitrary: b bp)
  case Nil
  then show ?case by (simp add: fill_def)
next
  case (Cons x a)
  let ?r = "concat (map ((@) sep) a)"
  have "join_loop a sep (fill b bp (sep @ x), bp + length (sep @ x))
      = Inr (fill (fill b bp (sep @ x)) (bp + length (sep @ x)) ?r, bp + length (sep @ x) + length ?r)"
    using Cons.prems by (intro Cons.IH) simp
  then show ?case
    using Cons.prems fill_fill [of bp sep x b] fill_fill [of bp "sep @ x" ?r b]
    by (simp add: copy_next_fill add.assoc)
qed

lemma join_ref_concat: "join_ref sep (x # a) = x @ concat (map ((@) sep) a)"
  by (induction a arbitrary: x) auto

lemma length_join_ref:
  "length (join_ref sep (x # a)) = length sep * length a + sum_list (map length (x # a))"
  by (induction a arbitrary: x) auto

lemma int_lengths: "sum_list (map (\<lambda>x. int (length x)) a) = int (sum_list (map length a))"
  by (induction a) auto

lemma Join_joins:
  assumes "length (join_ref sep a) < 2 ^ 31"
  shows "Join a sep = Inr (join_ref sep a)"
proof (cases "length a \<le> 1")
  case True
  then consider "a = []" | x where "a = [x]" by (cases a) (auto simp: Suc_le_eq)
  then show ?thesis by cases (auto simp: Join_def)
next
  case False
  then obtain x y r where a: "a = x # y # r" by (cases a; cases "tl a") auto
  let ?c = "concat (map ((@) sep) (y # r))"
  define n where "n = length (join_ref sep a)"
  have n: "n = length x + length ?c" by (simp add: n_def a join_ref_concat)
  have "int (length sep) * (int (length a) - 1) + sum_list (map (\<lambda>x. int (length x)) a) = int n"
    unfolding n_def a length_join_ref by (simp add: int_lengths algebra_simps)
  moreover have "wrap32 (int n) = int n" using assms by (intro wrap32_small) (auto simp: n_def)
  ultimately have m: "make_bytes (wrap32 (int (length sep) * (int (length a) - 1) + sum_list (map (\<lambda>x. int (length x)) a)))
      = Inr (replicate n 0)" by (simp add: make_bytes_def)
  have "copy_next (replicate n 0, 0) x = Inr (fill (replicate n 0) 0 x, length x)"
    using n copy_next_fill [of 0 x "replicate n 0"] by simp
  moreover have "join_loop (y # r) sep (fill (replicate n 0) 0 x, length x)
      = Inr (fill (fill (replicate n 0) 0 x) (length x) ?c, length x + length ?c)"
    using n by (intro join_loop_fills) simp
  moreover have "fill (fill (replicate n 0) 0 x) (length x) ?c = x @ ?c"
    using n fill_fill [of 0 x ?c "replicate n 0"] by (simp add: fill_def)
  ultimately show ?thesis using False m unfolding Join_def Let_def by (simp add: a join_ref_concat)
qed

section \<open>Replacing\<close>

lemma Replace_loop_replaces:
  assumes "old \<noteq> []" "k \<le> occ_count old (drop start s)" "start \<le> length s"
  shows "\<exists>X start'. start' \<le> length s \<and> join_ref new (split_ref k old 0 (drop start s)) = X @ drop start' s
    \<and> (\<forall>t w i. w + length X \<le> length t \<longrightarrow>
         Replace_loop s old new i k (t, w) start = Inr ((fill t w X, w + length X), start'))"
  using assms(2,3)
proof (induction k arbitrary: start)
  case 0
  then show ?case by (intro exI [of _ "[]"] exI [of _ start]) (simp add: fill_def)
next
  case (Suc k)
  let ?d = "drop start s"
  have ix: "\<not> Index ?d old < 0"
  proof
    assume neg: "Index ?d old < 0"
    then have "occ_count old ?d = occ_count old (drop (length ?d) ?d)"
      using occ_count_skip [OF assms(1), of 0 "length ?d" ?d] Index_not_occurs [OF neg] by simp
    then show False using Suc.prems(1) assms(1) by (simp add: occ_count_short)
  qed
  define p where "p = nat (Index ?d old)"
  have occ: "occurs_at ?d old p" unfolding p_def by (rule Index_occurs [OF ix])
  have pl: "start + p + length old \<le> length s" using occurs_at_length [OF occ] Suc.prems(2) by simp
  let ?st = "start + p + length old"
  let ?h = "take p ?d"
  have ip: "Index ?d old = int p" using ix by (simp add: p_def)
  have "occ_count old ?d = Suc (occ_count old (drop ?st s))"
    using occ_count_skip [OF assms(1), of 0 p ?d] Index_before [of _ ?d old] occ_count_match [OF assms(1) occ]
    by (simp add: p_def add_ac)
  then obtain X start' where X: "start' \<le> length s" "join_ref new (split_ref k old 0 (drop ?st s)) = X @ drop start' s"
      "\<forall>t w i. w + length X \<le> length t \<longrightarrow>
         Replace_loop s old new i k (t, w) ?st = Inr ((fill t w X, w + length X), start')"
    using Suc.IH [of ?st] Suc.prems(1) pl by auto
  have "split_ref (Suc k) old 0 ?d = ?h # split_ref k old 0 (drop ?st s)"
    using ix by (simp add: Let_def p_def [symmetric] add_ac)
  then have j: "join_ref new (split_ref (Suc k) old 0 ?d) = (?h @ new @ X) @ drop start' s"
    using X(2) by (simp add: join_ref_Cons)
  have "Replace_loop s old new i (Suc k) (t, w) start
      = Inr ((fill t w (?h @ new @ X), w + length (?h @ new @ X)), start')"
    if fits: "w + length (?h @ new @ X) \<le> length t" for t w i
  proof -
    have sl: "slice s start (nat (int start + int p)) = ?h" by (simp add: nat_int_add)
    have f: "fill (fill t w ?h) (w + length ?h) new = fill t w (?h @ new)"
      "fill (fill t w (?h @ new)) (w + length (?h @ new)) X = fill t w (?h @ new @ X)"
      using fits fill_fill [of w ?h new t] fill_fill [of w "?h @ new" X t] by simp_all
    have c1: "copy_next (t, w) ?h = Inr (fill t w ?h, w + length ?h)"
      using fits by (intro copy_next_fill) simp
    have c2: "copy_next (fill t w ?h, w + length ?h) new = Inr (fill t w (?h @ new), w + length (?h @ new))"
      using fits copy_next_fill [of "w + length ?h" new "fill t w ?h"] f(1) by simp
    have "Replace_loop s old new (i + 1) k (fill t w (?h @ new), w + length (?h @ new)) ?st
        = Inr ((fill t w (?h @ new @ X), w + length (?h @ new @ X)), start')"
      using X(3) [rule_format, of "w + length (?h @ new)" "fill t w (?h @ new)"] fits f(2) by (simp add: add_ac)
    then show ?thesis using assms(1) ix pl c1 c2
      by (simp add: ip sl Let_def nat_int_add del: length_append)
  qed
  then show ?case using j X(1) by blast
qed

text \<open>The size of the result, which \<open>Replace\<close> computes before it starts.\<close>

lemma length_replaced:
  assumes "old \<noteq> []" "k \<le> occ_count old s"
  shows "int (length (join_ref new (split_ref k old 0 s))) = int (length s) + int k * (int (length new) - int (length old))"
  using assms(2)
proof (induction k arbitrary: s)
  case (Suc k)
  have ne: "length (split_ref (Suc k) old 0 s) \<noteq> 1" using length_split_ref [OF assms(1), of "Suc k" 0 s] Suc.prems by simp
  then have ix: "\<not> Index s old < 0" by auto
  let ?p = "nat (Index s old)"
  have occ: "occurs_at s old ?p" using ix by (rule Index_occurs)
  have "occ_count old s = Suc (occ_count old (drop (?p + length old) s))"
    using occ_count_skip [OF assms(1), of 0 ?p s] Index_before [of _ s old] occ_count_match [OF assms(1) occ] by simp
  then show ?case using Suc.IH [of "drop (?p + length old) s"] Suc.prems ix occurs_at_length [OF occ]
    by (simp add: Let_def join_ref_Cons algebra_simps)
qed simp

text \<open>Both \<open>Replace\<close> functions after their shortcuts.\<close>

definition replace_run :: "u8 list \<Rightarrow> u8 list \<Rightarrow> u8 list \<Rightarrow> nat \<Rightarrow> u8 list go" where
  "replace_run s old new n =
    go_bind (make_bytes (wrap32 (int (length s) + int n * (int (length new) - int (length old))))) (\<lambda>t.
    go_bind (Replace_loop s old new 0 n (t, 0) 0) (\<lambda>(tw, start).
    if start > length s then Inl PanicSlice
    else go_bind (copy_next tw (drop start s)) (\<lambda>(t, w). Inr (take w t))))"

lemma replace_run_replaces:
  assumes "old \<noteq> []" "m \<le> occ_count old s" and fits: "length (join_ref new (split_ref m old 0 s)) < 2 ^ 31"
  shows "replace_run s old new m = Inr (join_ref new (split_ref m old 0 s))"
proof -
  obtain X start where X: "start \<le> length s" "join_ref new (split_ref m old 0 s) = X @ drop start s"
      "\<forall>t w i. w + length X \<le> length t \<longrightarrow> Replace_loop s old new i m (t, w) 0 = Inr ((fill t w X, w + length X), start)"
    using Replace_loop_replaces [OF assms(1), of m 0 s new] assms(2) by auto
  define L where "L = length (join_ref new (split_ref m old 0 s))"
  have "int L = int (length s) + int m * (int (length new) - int (length old))"
    unfolding L_def using length_replaced [OF assms(1,2)] .
  then have mk: "make_bytes (wrap32 (int (length s) + int m * (int (length new) - int (length old)))) = Inr (replicate L 0)"
    using fits wrap32_small [of "int L"] by (simp add: make_bytes_def L_def)
  have L: "L = length X + length (drop start s)" using X(2) by (simp add: L_def)
  have r: "Replace_loop s old new 0 m (replicate L 0, 0) 0 = Inr ((fill (replicate L 0) 0 X, length X), start)"
    using X(3) [rule_format, of 0 "replicate L 0" 0] L by simp
  have "copy_next (fill (replicate L 0) 0 X, length X) (drop start s)
      = Inr (fill (fill (replicate L 0) 0 X) (length X) (drop start s), length X + length (drop start s))"
    using L by (intro copy_next_fill) simp
  moreover have "fill (fill (replicate L 0) 0 X) (length X) (drop start s) = X @ drop start s"
    using L fill_fill [of 0 X "drop start s" "replicate L 0"] by (simp add: fill_def)
  ultimately show ?thesis unfolding replace_run_def using X(1,2) r mk by simp
qed

lemma bytes_Replace_loop_eq: "bytes_Replace_loop s old new i k tw start = Replace_loop s old new i k tw start"
proof -
  have "bytes_Index = Index" by (intro ext) (rule first_occurrence_unique [OF bytes_Index_first Index_first])
  then show ?thesis
    by (induction k arbitrary: i tw start)
      (simp_all only: bytes_Replace_loop.simps Replace_loop.simps DecodeRuneInString_eq)
qed

text \<open>The number of replacements: all, or at most \<open>n\<close>.\<close>

lemma replaced_trivially:
  assumes "old \<noteq> []" "old = new \<or> k = 0 \<or> occ_count old s = 0"
  shows "join_ref new (split_ref k old 0 s) = s"
proof -
  consider "old = new" | "k = 0" | "occ_count old s = 0" using assms(2) by (elim disjE)
  then show ?thesis
  proof cases
    case 1 then show ?thesis by (simp add: join_split_ref)
  next
    case 2 then show ?thesis by simp
  next
    case 3
    then have "length (split_ref k old 0 s) = 1" using length_split_ref [OF assms(1), of k 0 s] by simp
    then show ?thesis by (cases k) (auto simp: Let_def split: if_splits)
  qed
qed

lemma Replace_replaces:
  assumes "old \<noteq> []" and k: "k = (if n < 0 then occ_count old s else nat n)"
    and fits: "length (join_ref new (split_ref k old 0 s)) < 2 ^ 31"
  shows "Replace s old new n = Inr (join_ref new (split_ref k old 0 s))"
    and "bytes_Replace s old new n = Inr (join_ref new (split_ref k old 0 s))"
proof -
  define m where "m = (if n < 0 \<or> int (occ_count old s) < n then occ_count old s else nat n)"
  have m: "m = min k (occ_count old s)" by (auto simp: m_def k)
  have sp: "split_ref m old 0 s = split_ref k old 0 s" unfolding m by (rule split_ref_min [OF assms(1)])
  have run: "replace_run s old new m = Inr (join_ref new (split_ref k old 0 s))"
    using replace_run_replaces [OF assms(1), of m s new] fits m sp by simp
  have R: "Replace s old new n = (if old = new \<or> n = 0 \<or> occ_count old s = 0 then Inr s else replace_run s old new m)"
    unfolding Replace_def Let_def Count_counts [OF assms(1)] m_def [symmetric] replace_run_def by simp
  have B: "bytes_Replace s old new n = (if n = 0 \<or> occ_count old s = 0 then Inr s else replace_run s old new m)"
    unfolding bytes_Replace_def Let_def bytes_Count_counts [OF assms(1)] bytes_Replace_loop_eq replace_run_def m_def by simp
  have t: "join_ref new (split_ref k old 0 s) = s" if "old = new \<or> n = 0 \<or> occ_count old s = 0"
    using that k by (intro replaced_trivially [OF assms(1)]) auto
  show "Replace s old new n = Inr (join_ref new (split_ref k old 0 s))" using R run t by (auto split: if_splits)
  show "bytes_Replace s old new n = Inr (join_ref new (split_ref k old 0 s))" using B run t by (auto split: if_splits)
qed

section \<open>Repeating\<close>

lemma concat_replicate_split:
  "q \<le> c \<Longrightarrow> concat (replicate c s) = concat (replicate q s) @ concat (replicate (c - q) s)"
  by (metis concat_append le_add_diff_inverse replicate_add)

lemma length_concat_replicate: "length (concat (replicate q s)) = q * length s"
  by (induction q) auto

lemma take_repeated:
  assumes "q \<le> c"
  shows "take (length s * q) (concat (replicate c s)) = concat (replicate q s)"
  using concat_replicate_split [OF assms, of s] length_concat_replicate [of q s] by (simp add: mult.commute)

lemma copy_double:
  "m < length b \<Longrightarrow> take (m + m) (take m b @ take (length b - m) (take m b) @ drop (m + length (take m b)) b)
    = take m b @ take (length b - m) (take m b)"
  by (cases "m + m \<le> length b") (auto simp: min_def)

lemma length_copy_double:
  "m < length b \<Longrightarrow> length (take m b @ take (length b - m) (take m b) @ drop (m + length (take m b)) b) = length b"
  by auto

lemma Repeat_loop_doubles:
  assumes "take (length s * q) b = take (length s * q) (concat (replicate c s))" "length b = length s * c"
    "0 < length s" "0 < q" "unat bp = length s * q" "length s * c < 2 ^ 30" "length s * q < 2 ^ 31"
  shows "Repeat_loop b bp = Some (Inr (concat (replicate c s)))"
  using assms(1,2,4,5,7)
proof (induction "length s * c - length s * q" arbitrary: b q bp rule: less_induct)
  case less
  let ?R = "concat (replicate c s)"
  let ?m = "length s * q"
  have R: "length ?R = length s * c" by (simp add: length_concat_replicate mult.commute)
  have si: "sint bp = int ?m" using less.prems(4,5) sint_small [of bp] by simp
  then have nn: "\<not> bp <s 0" by (simp only: word_sless_alt si signed_0 of_nat_less_0_iff simp_thms)
  show ?case
  proof (cases "q < c")
    case True
    then have m: "?m < length b" using less.prems(2) assms(3) by simp
    define b' where "b' = take ?m b @ take (length b - ?m) (take ?m b) @ drop (?m + length (take ?m b)) b"
    have copy: "copy_at b ?m (take ?m b) = Inr b'" using m by (simp add: copy_at_def b'_def)
    have "take (length s * (q * 2)) b' = take ?m b @ take (length b - ?m) (take ?m b)"
      using copy_double [OF m] by (simp add: b'_def distrib_left mult_2_right)
    also have "\<dots> = concat (replicate q s) @ take (length s * (c - q)) (concat (replicate q s))"
      using less.prems(1,2) True take_repeated [of q c s] by (simp add: diff_mult_distrib2)
    also have "\<dots> = take (length s * (q * 2)) ?R"
    proof -
      have "take ?m (concat (replicate (c - q) s)) = take (length s * (c - q)) (concat (replicate q s))"
      proof (cases "q \<le> c - q")
        case True
        have "length s * q \<le> length s * (c - q)" using True by simp
        then show ?thesis using take_repeated [OF True, of s] length_concat_replicate [of q s]
          by (simp add: mult.commute)
      next
        case False
        then have "length s * (c - q) \<le> length s * q" by simp
        then show ?thesis using False take_repeated [of "c - q" q s] length_concat_replicate [of "c - q" s]
          by (simp add: mult.commute)
      qed
      moreover have "take (length s * (q * 2)) ?R
          = concat (replicate q s) @ take ?m (concat (replicate (c - q) s))"
        using concat_replicate_split [of q c s] True length_concat_replicate [of q s] by (simp add: algebra_simps)
      ultimately show ?thesis by simp
    qed
    finally have t: "take (length s * (q * 2)) b' = take (length s * (q * 2)) ?R" .
    have lb: "length b' = length s * c" unfolding b'_def using length_copy_double [OF m] less.prems(2) by simp
    have m30: "?m < 2 ^ 30" using m less.prems(2) assms(6) by linarith
    then have "unat bp < 2 ^ 30" by (simp only: less.prems(4))
    then have "unat bp * 2 < 2 ^ LENGTH(32)" by simp
    then have "unat (bp * 2) = length s * (q * 2)"
      unfolding mult.assoc [symmetric] using less.prems(4) unat_double [of bp] by simp
    moreover have m31: "length s * (q * 2) < 2 ^ 31" using m30 by (simp add: mult.commute mult.left_commute)
    moreover have "length s * c - length s * (q * 2) < length s * c - ?m"
      using m less.prems(2,3) assms(3) by (simp add: diff_less_mono2)
    ultimately have "Repeat_loop b' (bp * 2) = Some (Inr ?R)"
      using t lb less.prems(3) m31 by (intro less.hyps [of "q * 2"]) auto
    moreover have "sint bp < int (length b)" unfolding si using m by (simp only: of_nat_less_iff)
    ultimately show ?thesis using nn copy less.prems(4) by (subst Repeat_loop.simps) simp
  next
    case False
    then have "length s * c \<le> ?m" by simp
    then have "b = ?R" using less.prems(1,2) R by simp
    moreover have "\<not> sint bp < int (length b)"
      unfolding si less.prems(2) using \<open>length s * c \<le> ?m\<close> by (simp only: of_nat_less_iff not_less)
    ultimately show ?thesis by (subst Repeat_loop.simps) simp
  qed
qed

lemma Repeat_repeats:
  assumes "length s * c < 2 ^ 30"
  shows "Repeat s (int c) = Some (Inr (concat (replicate c s)))"
proof -
  let ?N = "length s * c"
  have "?N < 2 ^ 31" using assms by simp
  then have "int ?N < int (2 ^ 31)" by (simp only: of_nat_less_iff)
  then have "wrap32 (int (length s) * int c) = int ?N"
    using wrap32_small [of "int ?N"] by simp
  then have mk: "make_bytes (wrap32 (int (length s) * int c)) = Inr (replicate ?N 0)"
    by (simp only: make_bytes_def of_nat_less_0_iff if_False nat_int)
  show ?thesis
  proof (cases "?N = 0")
    case True
    then have "concat (replicate c s) = []" by auto
    then show ?thesis using mk True
      by (simp add: Repeat_def copy_next_def copy_at_def Repeat_loop.simps [of "[]"])
  next
    case False
    then have c: "0 < c" "0 < length s" "length s \<le> ?N" by auto
    have s30: "length s < 2 ^ 30" using c(3) assms by (rule le_less_trans)
    let ?b = "fill (replicate ?N 0) 0 s"
    have "copy_next (replicate ?N 0, 0) s = Inr (?b, length s)" using c copy_next_fill [of 0 s "replicate ?N 0"] by simp
    moreover have "Repeat_loop ?b (of_nat (length s)) = Some (Inr (concat (replicate c s)))"
    proof (rule Repeat_loop_doubles [where q = 1])
      show "take (length s * 1) ?b = take (length s * 1) (concat (replicate c s))"
        using take_repeated [of 1 c s] c by (simp add: fill_def)
      have "length s < 2 ^ 30" by (rule s30)
      then have "length s < 2 ^ 32" by simp
      then show "unat (of_nat (length s) :: u32) = length s * 1" by (simp add: unat_of_nat)
    qed (use c assms s30 in auto)
    ultimately show ?thesis using mk by (simp add: Repeat_def)
  qed
qed

section \<open>The functions of both packages\<close>


lemma bytes_Repeat_eq: "bytes_Repeat = Repeat"
  by (intro ext) (simp only: bytes_Repeat_def Repeat_def)

lemma HasPrefix_iff: "HasPrefix s pre \<longleftrightarrow> (\<exists>t. s = pre @ t)"
proof
  assume "HasPrefix s pre"
  then have "s = pre @ drop (length pre) s"
    using append_take_drop_id [of "length pre" s] by (simp add: HasPrefix_def)
  then show "\<exists>t. s = pre @ t" by blast
qed (auto simp: HasPrefix_def)

lemma HasSuffix_iff: "HasSuffix s suf \<longleftrightarrow> (\<exists>t. s = t @ suf)"
proof
  assume "HasSuffix s suf"
  then have "s = take (length s - length suf) s @ suf"
    using append_take_drop_id [of "length s - length suf" s] by (simp add: HasSuffix_def)
  then show "\<exists>t. s = t @ suf" by blast
qed (auto simp: HasSuffix_def)

lemma TrimPrefix_cases: "TrimPrefix (pre @ t) pre = t" "\<not> HasPrefix s pre \<Longrightarrow> TrimPrefix s pre = s"
  by (auto simp: TrimPrefix_def HasPrefix_iff)

lemma TrimSuffix_cases: "TrimSuffix (t @ suf) suf = t" "\<not> HasSuffix s suf \<Longrightarrow> TrimSuffix s suf = s"
  by (auto simp: TrimSuffix_def HasSuffix_iff)

lemma bytes_prefix_eq:
  "bytes_HasPrefix = HasPrefix" "bytes_HasSuffix = HasSuffix"
  "bytes_TrimPrefix = TrimPrefix" "bytes_TrimSuffix = TrimSuffix"
  by (auto intro!: ext simp: bytes_HasPrefix_def HasPrefix_def bytes_HasSuffix_def HasSuffix_def equalPortable_iff
      bytes_TrimPrefix_def TrimPrefix_def bytes_TrimSuffix_def TrimSuffix_def)

section \<open>Properties\<close>



text \<open>\<open>Replace\<close> is a composition: replacing the first \<open>n\<close> occurrences (all when \<open>n\<close> is negative) of a
  non-empty string gives what splitting at them and joining with the new string gives, in both
  packages; the buffer allocated before the loop has exactly the right size whenever the result is
  shorter than \<open>2^31\<close> bytes.\<close>

theorem replace_is_split_join:
  assumes "old \<noteq> []" "SplitN s old (if n < 0 then -1 else n + 1) = Inr ps" "length (join_ref new ps) < 2 ^ 31"
  shows "Replace s old new n = Join ps new \<and> bytes_Replace s old new n = Join ps new \<and> Join ps new = Inr (join_ref new ps)"
proof -
  let ?k = "if n < 0 then occ_count old s else nat n"
  have "ps = split_ref ?k old 0 s"
    using assms(2) genSplit_splits [OF assms(1), of "if n < 0 then -1 else n + 1" s 0]
    by (auto simp: SplitN_def nat_add_distrib pieces_def Count_counts [OF assms(1)] split: if_splits)
  then show ?thesis
    using Replace_replaces [OF assms(1) refl, where n = n and s = s and new = new] Join_joins [OF assms(3)] assms(3) by simp
qed

theorem replace_is_split_join_witness:
  "SplitN [1, 9, 2, 9, 3] [9] (1 + 1) = Inr [[1], [2, 9, 3]] \<and> Replace [1, 9, 2, 9, 3] [9] [7, 7] 1 = Inr [1, 7, 7, 2, 9, 3]"
proof -
  have s: "SplitN [1, 9, 2, 9, 3] [9] (1 + 1) = Inr [[1], [2, 9, 3]]" by code_simp
  then show ?thesis using replace_is_split_join [of "[9]" "[1, 9, 2, 9, 3]" 1 "[[1], [2, 9, 3]]" "[7, 7]"] by simp
qed

text \<open>\<open>Repeat\<close> returns \<open>count\<close> copies of the string whenever the result has less than \<open>2^30\<close> bytes:
  the doubling loop ends and never leaves the buffer.\<close>

theorem Repeat_copies:
  assumes "length s * c < 2 ^ 30"
  shows "Repeat s (int c) = Some (Inr (concat (replicate c s))) \<and> bytes_Repeat s (int c) = Repeat s (int c)"
  using Repeat_repeats [OF assms] by (simp add: bytes_Repeat_eq)

theorem Repeat_copies_witness: "Repeat [1, 2] (int 3) = Some (Inr [1, 2, 1, 2, 1, 2])"
  using Repeat_copies [of "[1, 2]" 3] by (simp add: numeral_3_eq_3)

text \<open>On the 32-bit ports the size computed by \<open>Repeat\<close> wraps around: \<open>2^30\<close> copies of a string of four
  bytes are the empty string, without a panic.\<close>

theorem Repeat_wraps: "Repeat [0x61, 0x62, 0x63, 0x64] (2 ^ 30) = Some (Inr [])"
proof -
  have "wrap32 (int (length [0x61, 0x62, 0x63, 0x64 :: u8]) * 2 ^ 30) = 0" by (simp add: wrap32_def)
  then show ?thesis
    by (simp add: Repeat_def make_bytes_def copy_next_def copy_at_def Repeat_loop.simps [of "[]"])
qed

text \<open>\<open>explode\<close> turns an invalid byte into U+FFFD except in the last piece, which is kept as it is.\<close>

theorem explode_last_piece:
  "explode [0xFF] (-1) = Inr [[0xFF]] \<and> explode [0xFF, 0xFF] (-1) = Inr [[0xEF, 0xBF, 0xBD], [0xFF]]"
  by code_simp

end
