(* ===== verification/StringMap.thy ===== *)
theory StringMap
  imports StringOps Unicode
begin

text \<open>
  \<open>Map\<close> of packages \<open>strings\<close> and \<open>bytes\<close> and the conversions to upper, lower and title case that are built on it
  (\<open>strings.go\<close>, \<open>bytes.go\<close>). The function given to \<open>Map\<close> may keep variables of its own, as the closure of
  \<open>Title\<close> does, and may panic, so it takes a state and a rune to a result with a new state.

  \<open>Map\<close> is shown to encode the mapped runes within the buffer it grows, and to panic where the mapping
  returns a code point that has no encoding.
\<close>

section \<open>\<open>strings.Map\<close>\<close>

text \<open>
  The part of the loop after the buffer exists: \<open>maxbytes\<close> is the length of the buffer as a 32-bit \<open>int\<close>, \<open>nbytes\<close>
  the number of bytes written. \<open>b[nbytes:maxbytes]\<close> is a slice of the buffer, so what \<open>EncodeRune\<close> writes into it
  is written into the buffer.
\<close>

definition grow :: "u8 list \<Rightarrow> int \<Rightarrow> nat \<Rightarrow> (u8 list \<times> int) go" where
  "grow b maxbytes nbytes = (let maxbytes = wrap32 (maxbytes * 2 + int UTFMax) in
     go_bind (make_bytes maxbytes) (\<lambda>nb.
     go_bind (copy_at nb 0 (take nbytes b)) (\<lambda>nb. Inr (nb, maxbytes))))"

definition encode_at :: "u8 list \<Rightarrow> int \<Rightarrow> nat \<Rightarrow> rune \<Rightarrow> (u8 list \<times> int \<times> nat) go" where
  "encode_at b maxbytes nbytes r =
    (if int nbytes > maxbytes then Inl PanicSlice
     else go_bind (EncodeRune (slice b nbytes (nat maxbytes)) r) (\<lambda>(p, n).
       Inr (take nbytes b @ p @ drop (nat maxbytes) b, maxbytes, nbytes + n)))"

definition Map_put :: "rune \<Rightarrow> u8 list \<times> int \<times> nat \<Rightarrow> (u8 list \<times> int \<times> nat) go" where
  "Map_put r buf = (case buf of (b, maxbytes, nbytes) \<Rightarrow>
     if 0 \<le>s r then
       let wid = (if of_nat RuneSelf \<le>s r then RuneLen r else 1) in
       go_bind (if wrap32 (int nbytes + wid) > maxbytes then grow b maxbytes nbytes else Inr (b, maxbytes))
         (\<lambda>(b, maxbytes). encode_at b maxbytes nbytes r)
     else Inr (b, maxbytes, nbytes))"

fun Map_loop :: "('c \<Rightarrow> rune \<Rightarrow> (rune \<times> 'c) go) \<Rightarrow> u8 list \<Rightarrow> (nat \<times> rune) list \<Rightarrow> 'c
    \<Rightarrow> (u8 list \<times> int \<times> nat) option \<Rightarrow> (u8 list \<times> int \<times> nat) option go" where
  "Map_loop mapping s [] st buf = Inr buf"
| "Map_loop mapping s ((i, c) # rs) st buf =
    go_bind (mapping st c) (\<lambda>(r, st).
      case buf of
        None \<Rightarrow>
          if r = c then Map_loop mapping s rs st None
          else go_bind (make_bytes (int (length s))) (\<lambda>b.
            go_bind (copy_next (b, 0) (take i s)) (\<lambda>(b, nbytes).
            go_bind (Map_put r (b, int (length s), nbytes)) (\<lambda>buf. Map_loop mapping s rs st (Some buf))))
      | Some buf \<Rightarrow> go_bind (Map_put r buf) (\<lambda>buf. Map_loop mapping s rs st (Some buf)))"

definition Map :: "('c \<Rightarrow> rune \<Rightarrow> (rune \<times> 'c) go) \<Rightarrow> 'c \<Rightarrow> u8 list \<Rightarrow> u8 list go" where
  "Map mapping st s = go_bind (Map_loop mapping s (range_string s 0) st None) (\<lambda>buf.
     case buf of None \<Rightarrow> Inr s | Some (b, maxbytes, nbytes) \<Rightarrow> Inr (take nbytes b))"

text \<open>A function that keeps no variables.\<close>

definition pure_fn :: "(rune \<Rightarrow> rune) \<Rightarrow> unit \<Rightarrow> rune \<Rightarrow> (rune \<times> unit) go" where
  "pure_fn f st r = Inr (f r, st)"

definition strings_ToUpper :: "unicode_tables \<Rightarrow> u8 list \<Rightarrow> u8 list go" where
  "strings_ToUpper tb s = Map (pure_fn (ToUpper tb)) () s"

definition strings_ToLower :: "unicode_tables \<Rightarrow> u8 list \<Rightarrow> u8 list go" where
  "strings_ToLower tb s = Map (pure_fn (ToLower tb)) () s"

definition strings_ToTitle :: "unicode_tables \<Rightarrow> u8 list \<Rightarrow> u8 list go" where
  "strings_ToTitle tb s = Map (pure_fn (ToTitle tb)) () s"

definition ToUpperSpecial :: "unicode_tables \<Rightarrow> CaseRange list \<Rightarrow> u8 list \<Rightarrow> u8 list go" where
  "ToUpperSpecial tb special s = Map (pure_fn (special_ToUpper tb special)) () s"

definition ToLowerSpecial :: "unicode_tables \<Rightarrow> CaseRange list \<Rightarrow> u8 list \<Rightarrow> u8 list go" where
  "ToLowerSpecial tb special s = Map (pure_fn (special_ToLower tb special)) () s"

definition ToTitleSpecial :: "unicode_tables \<Rightarrow> CaseRange list \<Rightarrow> u8 list \<Rightarrow> u8 list go" where
  "ToTitleSpecial tb special s = Map (pure_fn (special_ToTitle tb special)) () s"

definition isSeparator :: "unicode_tables \<Rightarrow> rune \<Rightarrow> bool go" where
  "isSeparator tb r =
    (if r \<le>s 0x7F then
       if 0x30 \<le>s r \<and> r \<le>s 0x39 then Inr False
       else if 0x61 \<le>s r \<and> r \<le>s 0x7A then Inr False
       else if 0x41 \<le>s r \<and> r \<le>s 0x5A then Inr False
       else if r = 0x5F then Inr False
       else Inr True
     else go_bind (IsLetter tb r) (\<lambda>letter.
       if letter then Inr False
       else go_bind (IsDigit tb r) (\<lambda>digit. if digit then Inr False else IsSpace r)))"

text \<open>The closure of \<open>Title\<close>; its variable is \<open>prev\<close>.\<close>

definition title_fn :: "unicode_tables \<Rightarrow> rune \<Rightarrow> rune \<Rightarrow> (rune \<times> rune) go" where
  "title_fn tb prev r = go_bind (isSeparator tb prev) (\<lambda>sep. Inr (if sep then ToTitle tb r else r, r))"

definition Title :: "unicode_tables \<Rightarrow> u8 list \<Rightarrow> u8 list go" where
  "Title tb s = Map (title_fn tb) 0x20 s"

section \<open>\<open>bytes.Map\<close>\<close>

definition bytes_Map_put :: "rune \<Rightarrow> u8 list \<times> int \<times> nat \<Rightarrow> (u8 list \<times> int \<times> nat) go" where
  "bytes_Map_put r buf = (case buf of (b, maxbytes, nbytes) \<Rightarrow>
     if 0 \<le>s r then
       let rl = RuneLen r; rl = (if rl < 0 then int (length (utf8 RuneError)) else rl) in
       go_bind (if wrap32 (int nbytes + rl) > maxbytes then grow b maxbytes nbytes else Inr (b, maxbytes))
         (\<lambda>(b, maxbytes). encode_at b maxbytes nbytes r)
     else Inr (b, maxbytes, nbytes))"

function bytes_Map_loop :: "('c \<Rightarrow> rune \<Rightarrow> (rune \<times> 'c) go) \<Rightarrow> u8 list \<Rightarrow> nat \<Rightarrow> 'c
    \<Rightarrow> u8 list \<times> int \<times> nat \<Rightarrow> (u8 list \<times> int \<times> nat) go" where
  "bytes_Map_loop mapping s i st buf =
    (if i < length s then
       case next_rune (drop i s) of (r, wid) \<Rightarrow>
       (case mapping st r of
          Inl p \<Rightarrow> Inl p
        | Inr (r, st) \<Rightarrow>
           (case bytes_Map_put r buf of
              Inl p \<Rightarrow> Inl p
            | Inr buf \<Rightarrow> bytes_Map_loop mapping s (i + wid) st buf))
     else Inr buf)"
  by pat_completeness auto
termination
proof (relation "measure (\<lambda>(_, s, i, _). length s - i)", goal_cases)
  case (2 mapping s i st buf r wid)
  then show ?case using DecodeRune_bounds [of r wid "drop i s"] by (auto simp: next_rune_eq)
qed simp

declare bytes_Map_loop.simps [simp del]

definition bytes_Map :: "('c \<Rightarrow> rune \<Rightarrow> (rune \<times> 'c) go) \<Rightarrow> 'c \<Rightarrow> u8 list \<Rightarrow> u8 list go" where
  "bytes_Map mapping st s = (let maxbytes = int (length s) in
     go_bind (make_bytes maxbytes) (\<lambda>b.
     go_bind (bytes_Map_loop mapping s 0 st (b, maxbytes, 0)) (\<lambda>(b, maxbytes, nbytes). Inr (take nbytes b))))"

definition bytes_ToUpper :: "unicode_tables \<Rightarrow> u8 list \<Rightarrow> u8 list go" where
  "bytes_ToUpper tb s = bytes_Map (pure_fn (ToUpper tb)) () s"

definition bytes_ToLower :: "unicode_tables \<Rightarrow> u8 list \<Rightarrow> u8 list go" where
  "bytes_ToLower tb s = bytes_Map (pure_fn (ToLower tb)) () s"

definition bytes_ToTitle :: "unicode_tables \<Rightarrow> u8 list \<Rightarrow> u8 list go" where
  "bytes_ToTitle tb s = bytes_Map (pure_fn (ToTitle tb)) () s"

definition bytes_ToUpperSpecial :: "unicode_tables \<Rightarrow> CaseRange list \<Rightarrow> u8 list \<Rightarrow> u8 list go" where
  "bytes_ToUpperSpecial tb special s = bytes_Map (pure_fn (special_ToUpper tb special)) () s"

definition bytes_ToLowerSpecial :: "unicode_tables \<Rightarrow> CaseRange list \<Rightarrow> u8 list \<Rightarrow> u8 list go" where
  "bytes_ToLowerSpecial tb special s = bytes_Map (pure_fn (special_ToLower tb special)) () s"

definition bytes_ToTitleSpecial :: "unicode_tables \<Rightarrow> CaseRange list \<Rightarrow> u8 list \<Rightarrow> u8 list go" where
  "bytes_ToTitleSpecial tb special s = bytes_Map (pure_fn (special_ToTitle tb special)) () s"

definition bytes_Title :: "unicode_tables \<Rightarrow> u8 list \<Rightarrow> u8 list go" where
  "bytes_Title tb s = bytes_Map (title_fn tb) 0x20 s"

section \<open>What \<open>Map\<close> returns\<close>

text \<open>
  The runes that the mapping returns, in order, and the bytes that stand for them: a negative rune is dropped.
  \<open>strings.Map\<close> keeps the bytes of the string up to the first rune that changes.
\<close>

fun map_runes :: "('c \<Rightarrow> rune \<Rightarrow> rune \<times> 'c) \<Rightarrow> 'c \<Rightarrow> rune list \<Rightarrow> rune list" where
  "map_runes m st [] = []"
| "map_runes m st (c # cs) = (case m st c of (r, st) \<Rightarrow> r # map_runes m st cs)"

definition emit :: "rune \<Rightarrow> u8 list" where
  "emit r = (if 0 \<le>s r then utf8 (sanitize r) else [])"

definition emit_all :: "rune list \<Rightarrow> u8 list" where
  "emit_all rs = concat (map emit rs)"

fun map_ref :: "('c \<Rightarrow> rune \<Rightarrow> rune \<times> 'c) \<Rightarrow> u8 list \<Rightarrow> 'c \<Rightarrow> (nat \<times> rune) list \<Rightarrow> u8 list" where
  "map_ref m s st [] = s"
| "map_ref m s st ((i, c) # rs) = (case m st c of (r, st) \<Rightarrow>
     if r = c then map_ref m s st rs else take i s @ emit r @ emit_all (map_runes m st (map snd rs)))"

text \<open>The buffer holds the bytes written so far.\<close>

definition holds :: "u8 list \<Rightarrow> u8 list \<times> int \<times> nat \<Rightarrow> bool" where
  "holds out buf \<longleftrightarrow> (case buf of (b, maxbytes, nbytes) \<Rightarrow>
     maxbytes = int (length b) \<and> nbytes = length out \<and> nbytes \<le> length b \<and> take nbytes b = out \<and> length b < 2 ^ 31)"

lemma emit_Nil [simp]: "emit_all [] = []" and emit_Cons [simp]: "emit_all (r # rs) = emit r @ emit_all rs"
  by (simp_all add: emit_all_def)

lemma length_emit: "length (emit r) \<le> 4"
  by (simp add: emit_def length_utf8)

lemma length_map_runes [simp]: "length (map_runes m st cs) = length cs"
  by (induction m st cs rule: map_runes.induct) (auto split: prod.splits)

lemma length_emit_all: "length (emit_all rs) \<le> 4 * length rs"
  using length_emit by (induction rs) (auto simp: le_Suc_eq add_le_mono)

lemma length_range_string: "length (range_string s k) \<le> length s - k"
proof (induction "length s - k" arbitrary: k rule: less_induct)
  case less
  show ?case
  proof (cases "k < length s")
    case True
    let ?n = "snd (DecodeRune (drop k s))"
    have n: "1 \<le> ?n" using DecodeRune_size [of "drop k s"] True by simp
    then have "length (range_string s (k + ?n)) \<le> length s - (k + ?n)" using True by (intro less) auto
    then show ?thesis using n True by (simp add: range_string_step)
  qed (simp add: range_string_end)
qed

lemma encode_at_holds:
  assumes "holds out (b, maxbytes, nbytes)" and "nbytes + length (utf8 (sanitize r)) \<le> length b"
  shows "\<exists>buf. encode_at b maxbytes nbytes r = Inr buf \<and> holds (out @ utf8 (sanitize r)) buf"
proof -
  have "slice b nbytes (length b) = drop nbytes b" by simp
  then show ?thesis using assms
    by (auto simp: encode_at_def holds_def EncodeRune_writes write_prefix_def min_absorb2)
qed

lemma grow_holds:
  assumes "holds out (b, maxbytes, nbytes)" and "length b \<le> 2 ^ 30 - 4"
  shows "\<exists>nb. grow b maxbytes nbytes = Inr (nb, int (length nb)) \<and> length nb = 2 * length b + 4
    \<and> holds out (nb, int (length nb), nbytes)"
  using assms
  by (auto simp: grow_def holds_def wrap32_small UTFMax_def make_bytes_def copy_at_def Let_def)

lemma put_holds:
  assumes "holds out (b, maxbytes, nbytes)" and "wid = int (length (utf8 (sanitize r)))"
    and "length out + length (utf8 (sanitize r)) \<le> 2 ^ 30 - 4"
  shows "\<exists>buf. go_bind (if wrap32 (int nbytes + wid) > maxbytes then grow b maxbytes nbytes else Inr (b, maxbytes))
      (\<lambda>(b, maxbytes). encode_at b maxbytes nbytes r) = Inr buf \<and> holds (out @ utf8 (sanitize r)) buf"
proof (cases "nbytes + length (utf8 (sanitize r)) \<le> length b")
  case True
  then show ?thesis using assms encode_at_holds [OF assms(1), of r]
    by (auto simp: holds_def wrap32_small)
next
  case False
  then have "length b \<le> 2 ^ 30 - 4" using assms by (auto simp: holds_def)
  from grow_holds [OF assms(1) this] obtain nb where nb: "grow b maxbytes nbytes = Inr (nb, int (length nb))"
    "length nb = 2 * length b + 4" "holds out (nb, int (length nb), nbytes)" by blast
  have "nbytes + length (utf8 (sanitize r)) \<le> length nb"
    using nb(2,3) assms(1) by (auto simp: holds_def length_utf8)
  from encode_at_holds [OF nb(3) this] show ?thesis
    using False nb(1) assms by (auto simp: holds_def wrap32_small)
qed

lemma sle_zero: "0 \<le>s r \<longleftrightarrow> unat r < 2 ^ 31" for r :: rune
  using sless_zero [of r] by (simp add: word_sle_eq word_sless_alt not_less [symmetric])

lemma Map_put_holds:
  assumes "holds out buf" and "0 \<le>s r \<Longrightarrow> ValidRune r" and "length out + length (emit r) \<le> 2 ^ 30 - 4"
  shows "\<exists>buf'. Map_put r buf = Inr buf' \<and> holds (out @ emit r) buf'"
proof -
  obtain b maxbytes nbytes where buf: "buf = (b, maxbytes, nbytes)" by (cases buf)
  show ?thesis
  proof (cases "0 \<le>s r")
    case True
    have "sanitize r = r" using assms(2) [OF True] by (simp add: sanitize_def ValidRune_iff_scalar)
    then have "(if of_nat RuneSelf \<le>s r then RuneLen r else 1) = int (length (utf8 (sanitize r)))"
      using assms(2) [OF True] True by (simp add: RuneLen_utf8 sle_small sle_zero RuneSelf_def length_utf8)
    from put_holds [OF assms(1)[unfolded buf] this] show ?thesis
      using assms(3) True by (simp add: Map_put_def buf emit_def Let_def)
  qed (use assms(1) in \<open>simp add: Map_put_def buf emit_def\<close>)
qed

lemma bytes_Map_put_holds:
  assumes "holds out buf" and "length out + length (emit r) \<le> 2 ^ 30 - 4"
  shows "\<exists>buf'. bytes_Map_put r buf = Inr buf' \<and> holds (out @ emit r) buf'"
proof -
  obtain b maxbytes nbytes where buf: "buf = (b, maxbytes, nbytes)" by (cases buf)
  show ?thesis
  proof (cases "0 \<le>s r")
    case True
    have "(if RuneLen r < 0 then int (length (utf8 RuneError)) else RuneLen r) = int (length (utf8 (sanitize r)))"
      by (simp add: RuneLen_utf8 sanitize_def ValidRune_iff_scalar)
    from put_holds [OF assms(1)[unfolded buf] this] show ?thesis
      using assms(2) True by (simp add: bytes_Map_put_def buf emit_def Let_def)
  qed (use assms(1) in \<open>simp add: bytes_Map_put_def buf emit_def\<close>)
qed

text \<open>What the mapping may return: negative runes, which are dropped, and valid runes.\<close>

definition mappable :: "rune list \<Rightarrow> bool" where
  "mappable rs \<longleftrightarrow> list_all (\<lambda>r. 0 \<le>s r \<longrightarrow> ValidRune r) rs"

lemma Map_loop_some:
  assumes "holds out buf" and "mappable (map_runes m st (map snd rs))" and "length out + 4 * length rs \<le> 2 ^ 30 - 4"
  shows "\<exists>buf'. Map_loop (\<lambda>st r. Inr (m st r)) s rs st (Some buf) = Inr (Some buf')
    \<and> holds (out @ emit_all (map_runes m st (map snd rs))) buf'"
  using assms
proof (induction rs arbitrary: out st buf)
  case (Cons x rs)
  obtain i c where x: "x = (i, c)" by (cases x)
  obtain r st' where m: "m st c = (r, st')" by (cases "m st c")
  have r: "0 \<le>s r \<Longrightarrow> ValidRune r" and rest: "mappable (map_runes m st' (map snd rs))"
    using Cons.prems(2) by (simp_all add: x m mappable_def)
  obtain buf' where put: "Map_put r buf = Inr buf'" "holds (out @ emit r) buf'"
    using Map_put_holds [OF Cons.prems(1) r] Cons.prems(3) length_emit [of r] by fastforce
  from Cons.IH [OF put(2) rest] obtain buf'' where
    "Map_loop (\<lambda>st r. Inr (m st r)) s rs st' (Some buf') = Inr (Some buf'')"
    "holds ((out @ emit r) @ emit_all (map_runes m st' (map snd rs))) buf''"
    using Cons.prems(3) length_emit [of r] by fastforce
  then show ?case using put by (simp add: x m)
qed simp

lemma fill_start: "length x \<le> n \<Longrightarrow> take (length x) (fill (replicate n a) 0 x) = x"
  by (simp add: fill_def)

lemma Map_loop_none:
  assumes "mappable (map_runes m st (map snd (range_string s k)))" and "length s < 2 ^ 28"
  shows "\<exists>buf. Map_loop (\<lambda>st r. Inr (m st r)) s (range_string s k) st None = Inr buf
    \<and> (case buf of None \<Rightarrow> map_ref m s st (range_string s k) = s | Some buf \<Rightarrow> holds (map_ref m s st (range_string s k)) buf)"
  using assms(1)
proof (induction "length s - k" arbitrary: k st rule: less_induct)
  case less
  show ?case
  proof (cases "k < length s")
    case True
    define c where "c = fst (DecodeRune (drop k s))"
    define k' where "k' = k + snd (DecodeRune (drop k s))"
    have rs: "range_string s k = (k, c) # range_string s k'" using True by (simp add: range_string_step c_def k'_def)
    have k': "k < k'" using DecodeRune_size [of "drop k s"] True by (simp add: k'_def)
    obtain r st' where m: "m st c = (r, st')" by (cases "m st c")
    have rest: "mappable (map_runes m st' (map snd (range_string s k')))" and r: "0 \<le>s r \<Longrightarrow> ValidRune r"
      using less.prems by (simp_all add: rs m mappable_def)
    show ?thesis
    proof (cases "r = c")
      case True
      then have "map_ref m s st (range_string s k) = map_ref m s st' (range_string s k')" by (simp add: rs m)
      then show ?thesis using less.hyps [OF _ rest] k' \<open>k < length s\<close> True by (simp add: rs m cong: option.case_cong)
    next
      case False
      let ?b = "fill (replicate (length s) 0) 0 (take k s)"
      have len: "k + 4 * length (range_string s k) \<le> 2 ^ 30 - 4"
        using length_range_string [of s k] True assms(2) by simp
      have b: "holds (take k s) (?b, int (length s), k)"
        using True assms(2) fill_start [of "take k s" "length s" 0] by (simp add: holds_def min_absorb2)
      obtain buf where put: "Map_put r (?b, int (length s), k) = Inr buf" "holds (take k s @ emit r) buf"
        using Map_put_holds [OF b r] len length_emit [of r] True by (fastforce simp: rs)
      from Map_loop_some [OF put(2) rest] obtain buf' where
        "Map_loop (\<lambda>st r. Inr (m st r)) s (range_string s k') st' (Some buf) = Inr (Some buf')"
        "holds ((take k s @ emit r) @ emit_all (map_runes m st' (map snd (range_string s k')))) buf'"
        using len length_emit [of r] True by (fastforce simp: rs)
      then show ?thesis using put True False
        by (simp add: rs m make_bytes_def copy_next_fill)
    qed
  qed (simp add: range_string_end)
qed

lemma Map_maps:
  assumes "mappable (map_runes m st (runes s))" and "length s < 2 ^ 28"
  shows "Map (\<lambda>st r. Inr (m st r)) st s = Inr (map_ref m s st (range_string s 0))"
  using Map_loop_none [of m st s 0] assms
  by (auto simp: Map_def runes_range_string holds_def split: option.splits)

lemma bytes_Map_loop_maps:
  assumes "holds out buf" and "length out + 4 * (length s - i) \<le> 2 ^ 30 - 4"
  shows "\<exists>buf'. bytes_Map_loop (\<lambda>st r. Inr (m st r)) s i st buf = Inr buf'
    \<and> holds (out @ emit_all (map_runes m st (runes (drop i s)))) buf'"
  using assms
proof (induction "length s - i" arbitrary: i st out buf rule: less_induct)
  case less
  show ?case
  proof (cases "i < length s")
    case True
    obtain c n where d: "DecodeRune (drop i s) = (c, n)" by fastforce
    have n: "1 \<le> n" using DecodeRune_size [of "drop i s"] True d by simp
    have rs: "runes (drop i s) = c # runes (drop (i + n) s)" using True d by (subst runes.simps) (simp add: add.commute)
    obtain r st' where m: "m st c = (r, st')" by (cases "m st c")
    have room: "length (out @ emit r) + 4 * (length s - (i + n)) \<le> 2 ^ 30 - 4"
      using less.prems(2) length_emit [of r] True n by simp
    obtain buf' where put: "bytes_Map_put r buf = Inr buf'" "holds (out @ emit r) buf'"
      using bytes_Map_put_holds [OF less.prems(1), of r] room by fastforce
    from less.hyps [OF _ put(2) room, of st'] obtain buf'' where
      "bytes_Map_loop (\<lambda>st r. Inr (m st r)) s (i + n) st' buf' = Inr buf''"
      "holds ((out @ emit r) @ emit_all (map_runes m st' (runes (drop (i + n) s)))) buf''"
      using True n by fastforce
    then show ?thesis using True put d by (subst bytes_Map_loop.simps) (simp add: next_rune_eq rs m)
  qed (use less.prems in \<open>subst bytes_Map_loop.simps, simp add: runes.simps\<close>)
qed

lemma bytes_Map_maps:
  assumes "length s < 2 ^ 28"
  shows "bytes_Map (\<lambda>st r. Inr (m st r)) st s = Inr (emit_all (map_runes m st (runes s)))"
proof -
  have "holds [] (replicate (length s) 0, int (length s), 0)" using assms by (simp add: holds_def)
  from bytes_Map_loop_maps [OF this, of s 0 m st] show ?thesis
    using assms by (auto simp: bytes_Map_def make_bytes_def holds_def)
qed

lemma emit_encodings: "list_all (\<lambda>r. scalar (unat r)) rs \<Longrightarrow> emit_all rs = concat (map utf8 rs)"
  by (induction rs) (auto simp: emit_def sanitize_def sle_zero scalar_def)

lemma map_ref_valid:
  assumes "Valid (drop k s)" and "k \<le> length s"
  shows "take k s @ emit_all (map_runes m st (map snd (range_string s k))) = map_ref m s st (range_string s k)"
  using assms
proof (induction "length s - k" arbitrary: k st rule: less_induct)
  case less
  show ?case
  proof (cases "k < length s")
    case True
    obtain c n where d: "DecodeRune (drop k s) = (c, n)" by fastforce
    have rs: "range_string s k = (k, c) # range_string s (k + n)" using True d by (simp add: range_string_step)
    have n: "1 \<le> n" "k + n \<le> length s" using DecodeRune_size [of "drop k s"] True d by auto
    have v: "Valid (drop (k + n) s)" "unat (drop k s ! 0) < 128 \<or> n \<noteq> 1"
      using Valid_step [of "drop k s"] less.prems True d by (auto simp: add.commute)
    then have c: "scalar (unat c)" "take n (drop k s) = utf8 c"
      using DecodeRune_ok [OF _ d] True by auto
    obtain r st' where m: "m st c = (r, st')" by (cases "m st c")
    have IH: "take (k + n) s @ emit_all (map_runes m st' (map snd (range_string s (k + n)))) =
        map_ref m s st' (range_string s (k + n))"
      using n v(1) True by (intro less.hyps) auto
    moreover have "take (k + n) s = take k s @ emit c" using c emit_encodings [of "[c]"] by (simp add: take_add)
    ultimately show ?thesis by (simp add: rs m)
  qed (use less.prems in \<open>simp add: range_string_end\<close>)
qed

lemmas emit_consts = emit_def sle_zero sanitize_def scalar_def utf8_def utf8_nats_def RuneError_def

section \<open>Theorems on mapping\<close>

text \<open>C36: For a string below 2^28 bytes and a mapping (with variables of its own) that returns negative or
  valid runes, \<open>strings.Map\<close> returns the string up to the first rune that changes and from there the encodings of
  the mapped runes without the negative ones; \<open>bytes.Map\<close> returns the encodings of all of them, replacing
  invalid bytes by U+FFFD; on valid UTF-8 the two agree. Neither writes outside its buffer nor overflows a size.\<close>
theorem Map_encodes_mapped_runes:
  assumes "mappable (map_runes m st (runes s))" and "length s < 2 ^ 28"
  shows "Map (\<lambda>st r. Inr (m st r)) st s = Inr (map_ref m s st (range_string s 0))
    \<and> bytes_Map (\<lambda>st r. Inr (m st r)) st s = Inr (emit_all (map_runes m st (runes s)))
    \<and> (Valid s \<longrightarrow> Map (\<lambda>st r. Inr (m st r)) st s = bytes_Map (\<lambda>st r. Inr (m st r)) st s)"
  using Map_maps [OF assms] bytes_Map_maps [OF assms(2), of m st] map_ref_valid [of 0 s m st]
  by (simp add: runes_range_string)

theorem Map_encodes_mapped_runes_witness:
  "Map (\<lambda>st r. Inr (r + st, st + 1)) 0 [0x61, 0xC3, 0xBF] = Inr [0x61, 0xC4, 0x80]
   \<and> bytes_Map (\<lambda>st r. Inr (r + st, st + 1)) 0 [0x61, 0xC3, 0xBF] = Inr [0x61, 0xC4, 0x80]"
proof -
  have rs: "range_string [0x61, 0xC3, 0xBF] 0 = [(0, 0x61), (1, 0xFF)]" by code_simp
  then have "runes [0x61, 0xC3, 0xBF] = [0x61, 0xFF]" using runes_range_string [of "[0x61, 0xC3, 0xBF]" 0] by simp
  moreover have "ValidRune 0x61" "ValidRune 0x100" by code_simp+
  moreover have "emit 0x100 = [0xC4, 0x80]" "emit 0x61 = [0x61]" by (simp_all add: emit_consts)
  ultimately show ?thesis
    using Map_encodes_mapped_runes [of "\<lambda>st r. (r + st, st + 1)" 0 "[0x61, 0xC3, 0xBF]"]
    by (simp add: rs mappable_def emit_all_def)
qed

text \<open>
  A rune that has no encoding: \<open>RuneLen\<close> is -1, so the buffer never grows for it, and \<open>EncodeRune\<close> needs three bytes.
\<close>

lemma DecodeRune_scalar:
  assumes "p \<noteq> []"
  shows "scalar (unat (fst (DecodeRune p)))"
proof (cases "snd (DecodeRune p) \<noteq> 1 \<or> unat (p ! 0) < 128")
  case True
  then show ?thesis using DecodeRune_ok [OF assms, of "fst (DecodeRune p)" "snd (DecodeRune p)"] by simp
next
  case False
  then have "fst (DecodeRune p) = RuneError" using DecodeRune_error [OF assms] by simp
  then show ?thesis by (simp add: scalar_def RuneError_def)
qed

lemma range_string_mem:
  "x \<in> set (range_string s k) \<Longrightarrow> ValidRune (snd x) \<and> fst x < length s"
proof (induction "length s - k" arbitrary: k rule: less_induct)
  case less
  have k: "k < length s" using less.prems by (cases "k < length s") (simp_all add: range_string_end)
  obtain c n where d: "DecodeRune (drop k s) = (c, n)" by fastforce
  have "1 \<le> n" "ValidRune c"
    using DecodeRune_size [of "drop k s"] DecodeRune_scalar [of "drop k s"] k d by (simp_all add: ValidRune_iff_scalar)
  then show ?case using less.hyps [of "k + n"] less.prems k d by (auto simp: range_string_step)
qed

lemma range_string_suffix:
  "range_string s k = pre @ (i, c) # post \<Longrightarrow> range_string s i = (i, c) # post"
proof (induction pre arbitrary: k)
  case Nil
  then have "k < length s" by (cases "k < length s") (simp_all add: range_string_end)
  then show ?case using Nil by (auto simp: range_string_step)
next
  case (Cons x pre)
  then have "k < length s" by (cases "k < length s") (simp_all add: range_string_end)
  then show ?case using Cons by (auto simp: range_string_step)
qed

lemma Map_put_unencodable:
  assumes "0 \<le>s r" and "\<not> ValidRune r" and "n \<le> length b" and "length b < 2 ^ 31"
  shows "Map_put r (b, int (length b), n) =
    (if length b < n + 3 then Inl PanicIndex
     else Inr (take n b @ [0xEF, 0xBF, 0xBD] @ drop (n + 3) b, int (length b), n + 3))"
proof -
  have "\<not> scalar (unat r)" using assms(2) by (simp add: ValidRune_iff_scalar)
  then have big: "of_nat RuneSelf \<le>s r" and san: "sanitize r = RuneError"
    using assms(1) by (auto simp: sle_small sle_zero RuneSelf_def scalar_def sanitize_def)
  have u: "utf8 RuneError = [0xEF, 0xBF, 0xBD]" by (simp add: utf8_def utf8_nats_def RuneError_def)
  have w: "wrap32 (int n + RuneLen r) = int n - 1"
    using assms by (simp add: RuneLen_utf8 wrap32_id)
  have sl: "slice b n (length b) = drop n b" by simp
  show ?thesis using assms(1,3) big
    by (auto simp: Map_put_def Let_def w encode_at_def sl EncodeRune_writes san u write_prefix_def numeral_3_eq_3)
qed

lemma Map_loop_skip:
  "map f (map snd pre) = map snd pre \<Longrightarrow>
    Map_loop (\<lambda>st r. Inr (f r, ())) s (pre @ rs) st None = Map_loop (\<lambda>st r. Inr (f r, ())) s rs st None"
  by (induction pre) auto

lemma map_runes_pure [simp]: "map_runes (\<lambda>st r. (f r, ())) st rs = map f rs"
  by (induction rs) simp_all

lemma Map_unencodable:
  assumes rs: "range_string s 0 = pre @ (i, c) # post" and pre: "map f (map snd pre) = map snd pre"
    and r: "0 \<le>s f c" "\<not> ValidRune (f c)"
    and post: "i + 3 \<le> length s \<Longrightarrow> mappable (map f (map snd post))" and len: "length s < 2 ^ 28"
  shows "Map (pure_fn f) () s =
    (if length s < i + 3 then Inl PanicIndex else Inr (take i s @ emit (f c) @ emit_all (map f (map snd post))))"
proof -
  let ?m = "\<lambda>st r. Inr (f r, ())" and ?b = "fill (replicate (length s) 0) 0 (take i s)"
  have mem: "(i, c) \<in> set (range_string s 0)" by (simp add: rs)
  have i: "i < length s" and ne: "f c \<noteq> c" using range_string_mem [OF mem] r(2) by auto
  have b: "length ?b = length s" "take i ?b = take i s"
    using i fill_start [of "take i s" "length s" 0] by (simp_all add: min_absorb2)
  have e: "emit (f c) = [0xEF, 0xBF, 0xBD]"
    using r by (simp add: emit_def sanitize_def ValidRune_iff_scalar utf8_def utf8_nats_def RuneError_def)
  have put: "Map_put (f c) (?b, int (length s), i) =
      (if length s < i + 3 then Inl PanicIndex
       else Inr (take i s @ [0xEF, 0xBF, 0xBD] @ drop (i + 3) ?b, int (length s), i + 3))"
    using Map_put_unencodable [OF r, of i ?b] i len b by simp
  have loop: "Map_loop ?m s (range_string s 0) () None =
      go_bind (Map_put (f c) (?b, int (length s), i)) (\<lambda>buf. Map_loop ?m s post () (Some buf))"
    using i len ne by (simp add: rs Map_loop_skip [OF pre] make_bytes_def copy_next_fill min_absorb2)
  show ?thesis
  proof (cases "length s < i + 3")
    case True
    then show ?thesis by (simp add: Map_def pure_fn_def [abs_def] loop put)
  next
    case False
    let ?buf = "(take i s @ [0xEF, 0xBF, 0xBD] @ drop (i + 3) ?b, int (length s), i + 3)"
    have h: "holds (take i s @ emit (f c)) ?buf" using False len b(1) by (simp add: holds_def e min_absorb2) arith
    have room: "length (take i s @ emit (f c)) + 4 * length post \<le> 2 ^ 30 - 4"
      using length_range_string [of s i] range_string_suffix [OF rs] len i by (simp add: e)
    have "mappable (map_runes (\<lambda>st r. (f r, ())) () (map snd post))" using post False by simp
    from Map_loop_some [OF h this room, of s] obtain buf where
      "Map_loop ?m s post () (Some ?buf) = Inr (Some buf)"
      "holds ((take i s @ emit (f c)) @ emit_all (map f (map snd post))) buf" by auto
    then show ?thesis using False
      by (cases buf) (simp add: Map_def pure_fn_def [abs_def] loop put holds_def)
  qed
qed

text \<open>C37: For a string below 2^28 bytes, let the rune at position \<open>i\<close> be the first one that a mapping changes,
  and let the mapping return a surrogate or a number above the largest code point for it. \<open>RuneLen\<close> is -1 for
  such a rune, so \<open>strings.Map\<close> does not grow the buffer, but \<open>EncodeRune\<close> writes the three bytes of U+FFFD: \<open>Map\<close>
  panics with an index out of range if the string ends before \<open>i + 3\<close>. If it does not, and the runes that follow
  are mapped to negative or valid ones, \<open>Map\<close> returns the encodings with U+FFFD in that place. \<open>bytes.Map\<close> returns
  the encodings with U+FFFD in either case.\<close>
theorem Map_unencodable_panics:
  assumes "range_string s 0 = pre @ (i, c) # post" and "map f (map snd pre) = map snd pre"
    and "0 \<le>s f c" and "\<not> ValidRune (f c)"
    and "i + 3 \<le> length s \<Longrightarrow> mappable (map f (map snd post))" and "length s < 2 ^ 28"
  shows "Map (pure_fn f) () s =
      (if length s < i + 3 then Inl PanicIndex else Inr (take i s @ emit (f c) @ emit_all (map f (map snd post))))
    \<and> bytes_Map (pure_fn f) () s = Inr (emit_all (map f (runes s)))
    \<and> emit (f c) = [0xEF, 0xBF, 0xBD]"
  using Map_unencodable [OF assms] bytes_Map_maps [OF assms(6), of "\<lambda>st r. (f r, ())" "()"] assms(3,4)
  by (simp add: pure_fn_def [abs_def] emit_def sanitize_def ValidRune_iff_scalar utf8_def utf8_nats_def RuneError_def)

theorem Map_unencodable_panics_witness:
  "Map (pure_fn (\<lambda>_. 0xD800)) () [0x61] = Inl PanicIndex
   \<and> bytes_Map (pure_fn (\<lambda>_. 0xD800)) () [0x61] = Inr [0xEF, 0xBF, 0xBD]
   \<and> Map (pure_fn (\<lambda>r. if r = 0x62 then 0xD800 else r)) () [0x61, 0x62, 0xC3, 0xBF] = Inr [0x61, 0xEF, 0xBF, 0xBD, 0xC3, 0xBF]"
proof -
  have rs: "range_string [0x61] 0 = [] @ [(0, 0x61)]" by code_simp
  then have ru: "runes [0x61] = [0x61]" using runes_range_string [of "[0x61]" 0] by simp
  have r: "0 \<le>s (0xD800 :: rune)" "\<not> ValidRune 0xD800" by code_simp+
  have short: "Map (pure_fn (\<lambda>_. 0xD800)) () [0x61] = Inl PanicIndex
      \<and> bytes_Map (pure_fn (\<lambda>_. 0xD800)) () [0x61] = Inr [0xEF, 0xBF, 0xBD]"
    using Map_unencodable_panics [OF rs, of "\<lambda>_. 0xD800"] r by (simp add: ru)
  let ?f = "\<lambda>r. if r = 0x62 then 0xD800 else r :: rune"
  have rs': "range_string [0x61, 0x62, 0xC3, 0xBF] 0 = [(0, 0x61)] @ (1, 0x62) # [(2, 0xFF)]" by code_simp
  have "ValidRune 0xFF" by code_simp
  then have "mappable (map ?f (map snd [(2 :: nat, 0xFF)]))" by (simp add: mappable_def)
  moreover have "emit 0xFF = [0xC3, 0xBF]" by (simp add: emit_consts)
  ultimately show ?thesis
    using Map_unencodable_panics [OF rs', of ?f] r short by simp
qed

end
