(* ===== verification/StringFields.thy ===== *)
theory StringFields
  imports StringOps Unicode
begin

text \<open>
  The functions of packages \<open>strings\<close> and \<open>bytes\<close> that take a string apart by a predicate on its runes: searching,
  trimming and fields (\<open>strings.go\<close>, \<open>bytes.go\<close>). A string falls into chunks, the encodings of its runes and single
  invalid bytes; reading from the end gives the same chunks as reading from the start. Trimming removes exactly the
  chunks at the ends that satisfy the predicate, and the fields are the maximal sequences of chunks that do not.
\<close>

section \<open>Definitions of package \<open>strings\<close>\<close>

definition indexFunc :: "u8 list \<Rightarrow> (rune \<Rightarrow> bool) \<Rightarrow> bool \<Rightarrow> int" where
  "indexFunc s f truth = indexFunc_loop (\<lambda>r. f r = truth) s 0"

definition lastIndexFunc :: "u8 list \<Rightarrow> (rune \<Rightarrow> bool) \<Rightarrow> bool \<Rightarrow> int" where
  "lastIndexFunc s f truth = last_rune_index (\<lambda>r. f r = truth) s (length s)"

definition IndexFunc :: "u8 list \<Rightarrow> (rune \<Rightarrow> bool) \<Rightarrow> int" where
  "IndexFunc s f = indexFunc s f True"

definition LastIndexFunc :: "u8 list \<Rightarrow> (rune \<Rightarrow> bool) \<Rightarrow> int" where
  "LastIndexFunc s f = lastIndexFunc s f True"

definition TrimLeftFunc :: "u8 list \<Rightarrow> (rune \<Rightarrow> bool) \<Rightarrow> u8 list" where
  "TrimLeftFunc s f = (let i = indexFunc s f False in if i = -1 then [] else drop (nat i) s)"

definition TrimRightFunc :: "u8 list \<Rightarrow> (rune \<Rightarrow> bool) \<Rightarrow> u8 list" where
  "TrimRightFunc s f = (let i = lastIndexFunc s f False;
     i = (if i \<ge> 0 \<and> unat (s ! nat i) \<ge> RuneSelf
          then (case DecodeRuneInString (drop (nat i) s) of (_, wid) \<Rightarrow> i + int wid)
          else i + 1)
     in take (nat i) s)"

definition TrimFunc :: "u8 list \<Rightarrow> (rune \<Rightarrow> bool) \<Rightarrow> u8 list" where
  "TrimFunc s f = TrimRightFunc (TrimLeftFunc s f) f"

definition makeCutsetFunc :: "u8 list \<Rightarrow> rune \<Rightarrow> bool" where
  "makeCutsetFunc cutset r \<longleftrightarrow> IndexRune cutset r \<ge> 0"

definition Trim :: "u8 list \<Rightarrow> u8 list \<Rightarrow> u8 list" where
  "Trim s cutset = (if s = [] \<or> cutset = [] then s else TrimFunc s (makeCutsetFunc cutset))"

definition TrimLeft :: "u8 list \<Rightarrow> u8 list \<Rightarrow> u8 list" where
  "TrimLeft s cutset = (if s = [] \<or> cutset = [] then s else TrimLeftFunc s (makeCutsetFunc cutset))"

definition TrimRight :: "u8 list \<Rightarrow> u8 list \<Rightarrow> u8 list" where
  "TrimRight s cutset = (if s = [] \<or> cutset = [] then s else TrimRightFunc s (makeCutsetFunc cutset))"

text \<open>\<open>unicode.IsSpace\<close> as a predicate; it does not panic on any rune (\<open>IsSpace_returns\<close> below).\<close>

definition space :: "rune \<Rightarrow> bool" where
  "space r \<longleftrightarrow> IsSpace r = Inr True"

definition TrimSpace :: "u8 list \<Rightarrow> u8 list" where
  "TrimSpace s = TrimFunc s space"

fun count_fields :: "(rune \<Rightarrow> bool) \<Rightarrow> (nat \<times> rune) list \<Rightarrow> bool \<Rightarrow> nat \<Rightarrow> nat" where
  "count_fields f [] inField n = n"
| "count_fields f ((i, r) # rs) wasInField n =
    (let inField = (\<not> f r) in count_fields f rs inField (if inField \<and> \<not> wasInField then n + 1 else n))"

text \<open>\<open>fieldStart\<close> is -1 outside of a field.\<close>

fun fields_loop :: "(rune \<Rightarrow> bool) \<Rightarrow> u8 list \<Rightarrow> (nat \<times> rune) list \<Rightarrow> u8 list list \<Rightarrow> nat \<Rightarrow> int
    \<Rightarrow> (u8 list list \<times> nat \<times> int) go" where
  "fields_loop f s [] a na fieldStart = Inr (a, na, fieldStart)"
| "fields_loop f s ((i, r) # rs) a na fieldStart =
    (if f r then
       if fieldStart \<ge> 0
       then go_bind (go_set a na (slice s (nat fieldStart) i)) (\<lambda>a. fields_loop f s rs a (na + 1) (-1))
       else fields_loop f s rs a na fieldStart
     else fields_loop f s rs a na (if fieldStart = -1 then int i else fieldStart))"

definition FieldsFunc :: "u8 list \<Rightarrow> (rune \<Rightarrow> bool) \<Rightarrow> u8 list list go" where
  "FieldsFunc s f = (let n = count_fields f (range_string s 0) False 0 in
     go_bind (makeslice 8 (int n) []) (\<lambda>a.
     go_bind (fields_loop f s (range_string s 0) a 0 (-1)) (\<lambda>(a, na, fieldStart).
       if fieldStart \<ge> 0 then go_set a na (drop (nat fieldStart) s) else Inr a)))"

definition Fields :: "u8 list \<Rightarrow> u8 list list go" where
  "Fields s = FieldsFunc s space"

section \<open>Definitions of package \<open>bytes\<close>\<close>

definition bytes_indexFunc :: "u8 list \<Rightarrow> (rune \<Rightarrow> bool) \<Rightarrow> bool \<Rightarrow> int" where
  "bytes_indexFunc s f truth = indexFunc_loop (\<lambda>r. f r = truth) s 0"

text \<open>The rune at the end of a slice, with the shortcut for ASCII.\<close>

definition last_rune :: "u8 list \<Rightarrow> rune \<times> nat" where
  "last_rune p = (let r = ucast (p ! (length p - 1)) :: rune in if unat r < RuneSelf then (r, 1) else DecodeLastRune p)"

lemma last_rune_eq: "p \<noteq> [] \<Longrightarrow> last_rune p = DecodeLastRune p"
  by (simp add: last_rune_def DecodeLastRune_def Let_def)

function bytes_lastIndexFunc_loop :: "(rune \<Rightarrow> bool) \<Rightarrow> u8 list \<Rightarrow> nat \<Rightarrow> int" where
  "bytes_lastIndexFunc_loop f s i =
    (if i > 0 \<and> i \<le> length s then
       case last_rune (take i s) of (r, sz) \<Rightarrow>
       let i = i - sz in if f r then int i else bytes_lastIndexFunc_loop f s i
     else -1)"
  by pat_completeness auto
termination
proof (relation "measure (\<lambda>(f, s, i). i)", goal_cases)
  case (2 f s i x r sz)
  then show ?case using DecodeLastRune_bounds [of x r "take i s"] by (cases s) (auto simp: last_rune_eq)
qed simp

declare bytes_lastIndexFunc_loop.simps [simp del]

definition bytes_lastIndexFunc :: "u8 list \<Rightarrow> (rune \<Rightarrow> bool) \<Rightarrow> bool \<Rightarrow> int" where
  "bytes_lastIndexFunc s f truth = bytes_lastIndexFunc_loop (\<lambda>r. f r = truth) s (length s)"

definition bytes_IndexFunc :: "u8 list \<Rightarrow> (rune \<Rightarrow> bool) \<Rightarrow> int" where
  "bytes_IndexFunc s f = bytes_indexFunc s f True"

definition bytes_LastIndexFunc :: "u8 list \<Rightarrow> (rune \<Rightarrow> bool) \<Rightarrow> int" where
  "bytes_LastIndexFunc s f = bytes_lastIndexFunc s f True"

definition bytes_TrimLeftFunc :: "u8 list \<Rightarrow> (rune \<Rightarrow> bool) \<Rightarrow> u8 list" where
  "bytes_TrimLeftFunc s f = (let i = bytes_indexFunc s f False in if i = -1 then [] else drop (nat i) s)"

definition bytes_TrimRightFunc :: "u8 list \<Rightarrow> (rune \<Rightarrow> bool) \<Rightarrow> u8 list" where
  "bytes_TrimRightFunc s f = (let i = bytes_lastIndexFunc s f False;
     i = (if i \<ge> 0 \<and> unat (s ! nat i) \<ge> RuneSelf
          then (case DecodeRune (drop (nat i) s) of (_, wid) \<Rightarrow> i + int wid)
          else i + 1)
     in take (nat i) s)"

definition bytes_TrimFunc :: "u8 list \<Rightarrow> (rune \<Rightarrow> bool) \<Rightarrow> u8 list" where
  "bytes_TrimFunc s f = bytes_TrimRightFunc (bytes_TrimLeftFunc s f) f"

definition bytes_makeCutsetFunc :: "u8 list \<Rightarrow> rune \<Rightarrow> bool" where
  "bytes_makeCutsetFunc cutset r \<longleftrightarrow> list_ex (\<lambda>(_, c). c = r) (range_string cutset 0)"

definition bytes_Trim :: "u8 list \<Rightarrow> u8 list \<Rightarrow> u8 list" where
  "bytes_Trim s cutset = bytes_TrimFunc s (bytes_makeCutsetFunc cutset)"

definition bytes_TrimLeft :: "u8 list \<Rightarrow> u8 list \<Rightarrow> u8 list" where
  "bytes_TrimLeft s cutset = bytes_TrimLeftFunc s (bytes_makeCutsetFunc cutset)"

definition bytes_TrimRight :: "u8 list \<Rightarrow> u8 list \<Rightarrow> u8 list" where
  "bytes_TrimRight s cutset = bytes_TrimRightFunc s (bytes_makeCutsetFunc cutset)"

definition bytes_TrimSpace :: "u8 list \<Rightarrow> u8 list" where
  "bytes_TrimSpace s = bytes_TrimFunc s space"

function bytes_Runes_loop :: "u8 list \<Rightarrow> rune list \<Rightarrow> nat \<Rightarrow> rune list go" where
  "bytes_Runes_loop s t i =
    (if length s > 0 then
       case DecodeRune s of (r, l) \<Rightarrow>
       (case go_set t i r of Inl p \<Rightarrow> Inl p | Inr t \<Rightarrow> bytes_Runes_loop (drop l s) t (i + 1))
     else Inr t)"
  by pat_completeness auto
termination
proof (relation "measure (\<lambda>(s, t, i). length s)", goal_cases)
  case (2 s t i r l)
  then show ?case using DecodeRune_bounds [of r l s] by auto
qed simp

declare bytes_Runes_loop.simps [simp del]

definition bytes_Runes :: "u8 list \<Rightarrow> rune list go" where
  "bytes_Runes s = go_bind (makeslice 4 (int (RuneCount s)) 0) (\<lambda>t. bytes_Runes_loop s t 0)"

function bytes_count_fields :: "(rune \<Rightarrow> bool) \<Rightarrow> u8 list \<Rightarrow> nat \<Rightarrow> bool \<Rightarrow> nat \<Rightarrow> nat" where
  "bytes_count_fields f s i wasInField n =
    (if i < length s then
       case DecodeRune (drop i s) of (r, sz) \<Rightarrow>
       let inField = (\<not> f r) in
       bytes_count_fields f s (i + sz) inField (if inField \<and> \<not> wasInField then n + 1 else n)
     else n)"
  by pat_completeness auto
termination
proof (relation "measure (\<lambda>(f, s, i, _). length s - i)", goal_cases)
  case (2 f s i wasInField n r sz)
  then show ?case using DecodeRune_bounds [of r sz "drop i s"] by auto
qed simp

declare bytes_count_fields.simps [simp del]

text \<open>At the end of the slice \<open>DecodeRune\<close> returns the size 0.\<close>

function bytes_fields_loop :: "(rune \<Rightarrow> bool) \<Rightarrow> u8 list \<Rightarrow> nat \<Rightarrow> nat \<Rightarrow> u8 list list \<Rightarrow> nat \<Rightarrow> int
    \<Rightarrow> (u8 list list \<times> nat) go" where
  "bytes_fields_loop f s n i a na fieldStart =
    (if i \<le> length s \<and> na < n then
       case DecodeRune (drop i s) of (r, sz) \<Rightarrow>
       if fieldStart < 0 \<and> sz > 0 \<and> \<not> f r then bytes_fields_loop f s n (i + sz) a na (int i)
       else if fieldStart \<ge> 0 \<and> (sz = 0 \<or> f r) then
         (case go_set a na (slice s (nat fieldStart) i) of
            Inl p \<Rightarrow> Inl p
          | Inr a \<Rightarrow> if sz = 0 then Inr (a, na + 1) else bytes_fields_loop f s n (i + sz) a (na + 1) (-1))
       else if sz = 0 then Inr (a, na)
       else bytes_fields_loop f s n (i + sz) a na fieldStart
     else Inr (a, na))"
  by pat_completeness auto
termination
proof (relation "measure (\<lambda>(f, s, n, i, _). length s + 1 - i)", goal_cases)
  case (2 f s n i a na fieldStart r sz)
  then show ?case by auto
next
  case (3 f s n i a na fieldStart r sz)
  then show ?case by auto
next
  case (4 f s n i a na fieldStart r sz)
  then show ?case by auto
qed simp

declare bytes_fields_loop.simps [simp del]

definition bytes_FieldsFunc :: "u8 list \<Rightarrow> (rune \<Rightarrow> bool) \<Rightarrow> u8 list list go" where
  "bytes_FieldsFunc s f = (let n = bytes_count_fields f s 0 False 0 in
     go_bind (makeslice 12 (int n) []) (\<lambda>a.
     go_bind (bytes_fields_loop f s n 0 a 0 (-1)) (\<lambda>(a, na). Inr (take na a))))"

definition bytes_Fields :: "u8 list \<Rightarrow> u8 list list go" where
  "bytes_Fields s = bytes_FieldsFunc s space"

section \<open>Chunks\<close>

text \<open>The runes of a string with the bytes each was decoded from.\<close>

function chunks :: "u8 list \<Rightarrow> (rune \<times> u8 list) list" where
  "chunks s =
    (if s = [] then []
     else (fst (DecodeRune s), take (snd (DecodeRune s)) s) # chunks (drop (snd (DecodeRune s)) s))"
  by pat_completeness auto
termination
proof (relation "measure length", goal_cases)
  case (2 s)
  then show ?case using DecodeRune_size [of s] by simp
qed simp

declare chunks.simps [simp del]

definition text_of :: "(rune \<times> u8 list) list \<Rightarrow> u8 list" where
  "text_of cs = concat (map snd cs)"

lemma text_of_simps [simp]:
  "text_of [] = []" "text_of (x # cs) = snd x @ text_of cs" "text_of (cs @ ds) = text_of cs @ text_of ds"
  by (simp_all add: text_of_def)

lemma chunks_Nil [simp]: "chunks [] = []"
  by (simp add: chunks.simps)

lemma chunks_Cons: "s \<noteq> [] \<Longrightarrow> DecodeRune s = (r, n) \<Longrightarrow> chunks s = (r, take n s) # chunks (drop n s)"
  by (subst chunks.simps) simp

lemma text_of_chunks [simp]: "text_of (chunks s) = s"
proof (induction "length s" arbitrary: s rule: less_induct)
  case less
  show ?case
  proof (cases "s = []")
    case False
    obtain r n where "DecodeRune s = (r, n)" by fastforce
    then show ?thesis using less [of "drop n s"] False DecodeRune_size [OF False] by (simp add: chunks_Cons)
  qed simp
qed

lemma chunks_Cons_D:
  assumes "chunks s = x # cs"
  shows "s \<noteq> []" "DecodeRune s = (fst x, length (snd x))" "s = snd x @ text_of cs" "chunks (text_of cs) = cs"
proof -
  show s: "s \<noteq> []" using assms by auto
  obtain r n where d: "DecodeRune s = (r, n)" by fastforce
  then have x: "x = (r, take n s)" "cs = chunks (drop n s)" using assms chunks_Cons [OF s d] by auto
  have n: "n \<le> length s" using DecodeRune_size [OF s] d by simp
  show "DecodeRune s = (fst x, length (snd x))" using d x n by simp
  show "s = snd x @ text_of cs" "chunks (text_of cs) = cs" using x by simp_all
qed

lemma chunks_after: "chunks s = us @ vs \<Longrightarrow> chunks (text_of vs) = vs"
proof (induction us arbitrary: s)
  case Nil
  then show ?case by (metis append_Nil text_of_chunks)
next
  case (Cons u us)
  then have "chunks (text_of (us @ vs)) = us @ vs" using chunks_Cons_D(4) [of s u "us @ vs"] by simp
  then show ?case by (rule Cons.IH)
qed

text \<open>A chunk is the encoding of its rune or a single invalid byte.\<close>

definition chunk_ok :: "rune \<times> u8 list \<Rightarrow> bool" where
  "chunk_ok x \<longleftrightarrow> scalar (unat (fst x)) \<and> snd x = utf8 (fst x)
     \<or> fst x = RuneError \<and> (\<exists>b. snd x = [b] \<and> \<not> unat b < 128)"

lemma chunk_ok_head:
  assumes "chunks s = x # cs"
  shows "chunk_ok x"
proof -
  note D = chunks_Cons_D [OF assms]
  show ?thesis
  proof (cases "length (snd x) \<noteq> 1 \<or> unat (s ! 0) < 128")
    case True
    then show ?thesis using DecodeRune_ok [OF D(1,2)] D(3) by (metis append_eq_conv_conj chunk_ok_def)
  next
    case False
    then obtain b where b: "snd x = [b]" by (auto simp: length_Suc_conv)
    then have "s ! 0 = b" using D(3) by simp
    then show ?thesis using False b DecodeRune_error [OF D(1)] D(2) by (simp add: chunk_ok_def)
  qed
qed

lemma chunks_ok: "x \<in> set (chunks s) \<Longrightarrow> chunk_ok x"
  by (metis chunk_ok_head chunks_after split_list)

lemma chunk_not_Nil: "x \<in> set (chunks s) \<Longrightarrow> snd x \<noteq> []"
  using chunks_ok [of x s] by (auto simp: chunk_ok_def)

lemma chunk_head_eq:
  assumes "s \<noteq> []" and "scalar (unat r)" and "prefix (utf8 r) s"
  shows "DecodeRune s = (r, length (utf8 r))"
  using assms DecodeRune_utf8 by (auto simp: prefix_def)

lemma DecodeRune_take:
  assumes "s \<noteq> []" and "DecodeRune s = (r, n)" and "n \<le> k"
  shows "DecodeRune (take k s) = (r, n)"
proof -
  have n: "1 \<le> n" "n \<le> length s" using DecodeRune_size [OF assms(1)] assms(2) by auto
  have "take k s \<noteq> []" using n assms(3) by auto
  show ?thesis
  proof (cases "n \<noteq> 1 \<or> unat (s ! 0) < 128")
    case True
    then have "scalar (unat r)" "take n s = utf8 r" using DecodeRune_ok [OF assms(1,2)] by auto
    moreover have "prefix (utf8 r) (take k s)"
      using assms(3) calculation(2) by (metis min.absorb1 take_is_prefix take_take)
    ultimately show ?thesis using chunk_head_eq [OF \<open>take k s \<noteq> []\<close>] n(2) by (metis length_take min_absorb2)
  next
    case False
    have "\<not> prefix (utf8 c) (take k s)" if "scalar (unat c)" for c
    proof
      assume "prefix (utf8 c) (take k s)"
      then have p: "prefix (utf8 c) s" using take_is_prefix prefix_order.trans by blast
      then have "DecodeRune s = (c, length (utf8 c))" by (rule chunk_head_eq [OF assms(1) that])
      then have "length (utf8 c) = 1" using False assms(2) by simp
      then show False using False utf8_ascii_iff [OF that] p by (auto simp: prefix_def nth_append)
    qed
    then show ?thesis
      using DecodeRune_no_prefix [OF \<open>take k s \<noteq> []\<close>] DecodeRune_error [OF assms(1)] False assms(2) by auto
  qed
qed

text \<open>Reading a string from the end meets the same chunks: an encoding cannot begin inside another one.\<close>

lemma DecodeLastRune_single:
  assumes "chunks s = [x]"
  shows "DecodeLastRune s = (fst x, length s)"
proof -
  note D = chunks_Cons_D [OF assms]
  consider "scalar (unat (fst x))" "snd x = utf8 (fst x)" | b where "fst x = RuneError" "snd x = [b]" "\<not> unat b < 128"
    using chunk_ok_head [OF assms] by (auto simp: chunk_ok_def)
  then show ?thesis
  proof cases
    case 1
    then show ?thesis using D(3) DecodeLastRune_suffix [of "fst x" "[]"] by simp
  next
    case 2
    have "\<not> suffix (utf8 r) s" if "scalar (unat r)" for r
    proof
      assume "suffix (utf8 r) s"
      then have "utf8 r = [b]" using D(3) 2(2) by (cases "utf8 r") (auto simp: suffix_def Cons_eq_append_conv append_eq_Cons_conv)
      then show False using utf8_ascii_iff [OF that] 2(3) by simp
    qed
    then show ?thesis using DecodeLastRune_no_suffix [OF D(1)] 2 D(3) by simp
  qed
qed

lemma suffix_in_rest:
  assumes "chunks s = x # cs" and "cs \<noteq> []" and "scalar (unat r)" and "suffix (utf8 r) s"
  shows "suffix (utf8 r) (text_of cs)"
proof (rule ccontr)
  assume no: "\<not> suffix (utf8 r) (text_of cs)"
  note D = chunks_Cons_D [OF assms(1)]
  obtain q where q: "s = q @ utf8 r" using assms(4) by (auto simp: suffix_def)
  have less: "length q < length (snd x)"
  proof (rule ccontr)
    assume "\<not> length q < length (snd x)"
    then have "text_of cs = drop (length (snd x)) q @ utf8 r" using q D(3) by (metis append_eq_append_conv_if append_eq_conv_conj drop_append not_less)
    then show False using no by (simp add: suffix_def)
  qed
  show False
  proof (cases "q = []")
    case True
    then have "DecodeRune s = (r, length s)" using chunk_head_eq [OF D(1) assms(3)] q by simp
    then have "text_of cs = []" using D(2,3) by simp
    then show False using assms(2) D(4) by simp
  next
    case False
    then have x: "scalar (unat (fst x))" "snd x = utf8 (fst x)"
      using chunk_ok_head [OF assms(1)] less by (auto simp: chunk_ok_def)
    have "s ! length q = utf8 (fst x) ! length q" using D(3) less x(2) by (metis nth_append)
    moreover have "s ! length q = utf8 r ! 0" using q by (simp add: nth_append)
    ultimately show False
      using utf8_cont [OF x(1), of "length q"] utf8_cont [OF assms(3), of 0] less x(2) False by simp
  qed
qed

lemma chunks_snoc:
  assumes "s \<noteq> []" and "DecodeLastRune s = (r, n)"
  shows "chunks s = chunks (take (length s - n) s) @ [(r, drop (length s - n) s)]"
  using assms
proof (induction "length s" arbitrary: s rule: less_induct)
  case less
  obtain x cs where c: "chunks s = x # cs" using less.prems(1) by (cases "chunks s") (metis text_of_chunks text_of_simps(1), blast)
  note D = chunks_Cons_D [OF c]
  have x: "snd x \<noteq> []" using chunk_not_Nil [of x s] c by simp
  show ?case
  proof (cases "cs = []")
    case True
    then show ?thesis using DecodeLastRune_single [of s x] c less.prems(2) D(3) by (cases x) simp
  next
    case False
    let ?t = "text_of cs"
    have t: "?t \<noteq> []" using False D(4) by auto
    have last: "DecodeLastRune ?t = (r, n)"
    proof (cases "\<exists>c. scalar (unat c) \<and> suffix (utf8 c) s")
      case True
      then obtain c where sc: "scalar (unat c)" "suffix (utf8 c) s" by blast
      then show ?thesis using suffix_in_rest [OF c False sc] DecodeLastRune_suffix [OF sc(1)] less.prems(2)
        by (auto simp: suffix_def)
    next
      case no: False
      then have "\<not> suffix (utf8 d) ?t" if "scalar (unat d)" for d
        using that D(3) by (metis suffix_appendI)
      then show ?thesis
        using DecodeLastRune_no_suffix [OF t] DecodeLastRune_no_suffix [OF less.prems(1)] no less.prems(2) by auto
    qed
    have n: "n \<le> length ?t" using DecodeLastRune_size [OF t] last by simp
    have lens: "length s = length (snd x) + length ?t" using D(3) by (metis length_append)
    have "chunks ?t = chunks (take (length ?t - n) ?t) @ [(r, drop (length ?t - n) ?t)]"
      using less.hyps [OF _ t last] x lens by simp
    moreover have "take (length s - n) s = snd x @ take (length ?t - n) ?t"
      "drop (length s - n) s = drop (length ?t - n) ?t"
      using n lens by (subst D(3), simp)+
    moreover have "chunks (take (length s - n) s) = x # chunks (take (length ?t - n) ?t)"
    proof -
      have "DecodeRune (take (length s - n) s) = (fst x, length (snd x))"
        using DecodeRune_take [OF D(1,2)] n lens by simp
      then show ?thesis using calculation(2) x by (subst chunks_Cons) auto
    qed
    ultimately show ?thesis using c D(4) by simp
  qed
qed

section \<open>Searching and trimming\<close>

lemma last_rune_index_chunks:
  "i \<le> length s \<Longrightarrow> last_rune_index g s i =
    (case dropWhile (\<lambda>x. \<not> g (fst x)) (rev (chunks (take i s))) of
       [] \<Rightarrow> -1 | x # xs \<Rightarrow> int (length (text_of (rev xs))))"
proof (induction i rule: less_induct)
  case (less i)
  show ?case
  proof (cases "i = 0")
    case False
    obtain r n where d: "DecodeLastRune (take i s) = (r, n)" by fastforce
    have ne: "take i s \<noteq> []" using False less.prems by auto
    have n: "0 < n" "n \<le> i" using DecodeLastRune_size [OF ne] d less.prems by auto
    have c: "chunks (take i s) = chunks (take (i - n) s) @ [(r, drop (i - n) (take i s))]"
      using chunks_snoc [OF ne d] less.prems n by (simp add: min_absorb2)
    show ?thesis using less.IH [of "i - n"] less.prems n False d
      by (subst last_rune_index.simps) (simp add: DecodeLastRuneInString_eq c Let_def min_absorb2)
  qed (subst last_rune_index.simps, simp)
qed

lemma range_index_chunks:
  "k \<le> length s \<Longrightarrow> range_index g (range_string s k) =
    (case dropWhile (\<lambda>x. \<not> g (fst x)) (chunks (drop k s)) of
       [] \<Rightarrow> -1 | x # xs \<Rightarrow> int (length s - length (text_of (x # xs))))"
proof (induction "length s - k" arbitrary: k rule: less_induct)
  case less
  show ?case
  proof (cases "k < length s")
    case True
    obtain r n where d: "DecodeRune (drop k s) = (r, n)" by fastforce
    have n: "0 < n" "k + n \<le> length s" using DecodeRune_size [of "drop k s"] True d by auto
    have c: "chunks (drop k s) = (r, take n (drop k s)) # chunks (drop (k + n) s)"
      using chunks_Cons [OF _ d] True by (simp add: add.commute)
    have "length (text_of (chunks (drop k s))) = length s - k" by simp
    then show ?thesis using less.hyps [of "k + n"] True n d
      by (simp add: range_string_step c)
  qed (simp add: range_string_end)
qed

lemma text_of_suffix: "chunks s = us @ vs \<Longrightarrow> drop (length s - length (text_of vs)) s = text_of vs"
  using text_of_chunks [of s] by (metis append_eq_conv_conj diff_add_inverse2 length_append text_of_simps(3))

lemma TrimLeftFunc_chunks: "TrimLeftFunc s f = text_of (dropWhile (\<lambda>x. f (fst x)) (chunks s))"
proof -
  have split: "chunks s = takeWhile (\<lambda>x. f (fst x)) (chunks s) @ dropWhile (\<lambda>x. f (fst x)) (chunks s)" by simp
  have "indexFunc s f False = (case dropWhile (\<lambda>x. f (fst x)) (chunks s) of
      [] \<Rightarrow> -1 | x # xs \<Rightarrow> int (length s - length (text_of (x # xs))))"
    using range_index_chunks [of 0 s "\<lambda>r. f r = False"] by (simp add: indexFunc_def indexFunc_loop_range)
  note i = this
  show ?thesis
  proof (cases "dropWhile (\<lambda>x. f (fst x)) (chunks s)")
    case Nil
    show ?thesis using i unfolding Nil by (simp add: TrimLeftFunc_def)
  next
    case (Cons x xs)
    show ?thesis using i text_of_suffix [OF split] unfolding Cons by (simp add: TrimLeftFunc_def)
  qed
qed

lemma TrimRightFunc_chunks: "TrimRightFunc s f = text_of (rev (dropWhile (\<lambda>x. f (fst x)) (rev (chunks s))))"
proof -
  have i: "lastIndexFunc s f False = (case dropWhile (\<lambda>x. f (fst x)) (rev (chunks s)) of
      [] \<Rightarrow> -1 | x # xs \<Rightarrow> int (length (text_of (rev xs))))"
    using last_rune_index_chunks [of "length s" s "\<lambda>r. f r = False"] by (simp add: lastIndexFunc_def)
  show ?thesis
  proof (cases "dropWhile (\<lambda>x. f (fst x)) (rev (chunks s))")
    case Nil
    show ?thesis using i unfolding Nil by (simp add: TrimRightFunc_def)
  next
    case (Cons x xs)
    obtain us where "rev (chunks s) = us @ x # xs"
      using takeWhile_dropWhile_id [of "\<lambda>x. f (fst x)" "rev (chunks s)"] Cons by metis
    then have c: "chunks s = rev xs @ x # rev us" by (metis append.assoc append_Cons append_Nil rev.simps(2) rev_append rev_rev_ident)
    let ?i = "length (text_of (rev xs))" and ?t = "text_of (x # rev us)"
    have s: "s = text_of (rev xs) @ ?t" using c text_of_chunks [of s] by (metis text_of_simps(3))
    then have t: "drop ?i s = ?t" by (metis append_eq_conv_conj)
    have D: "chunks ?t = x # rev us" using chunks_after [OF c] .
    note D = chunks_Cons_D [OF D]
    have "s ! ?i = ?t ! 0" using s by (metis add.right_neutral nth_append_length_plus)
    then have one: "unat (s ! ?i) < RuneSelf \<Longrightarrow> length (snd x) = 1"
      using DecodeRune_ascii [OF D(1)] D(2) by (simp add: RuneSelf_def)
    have "take (?i + length (snd x)) s = text_of (rev xs) @ snd x" by (subst s) simp
    then show ?thesis using one D(2) t i Cons
      by (auto simp: TrimRightFunc_def DecodeRuneInString_eq Let_def nat_add_distrib nat_int_add)
  qed
qed

lemma chunks_dropWhile: "chunks (text_of (dropWhile P (chunks s))) = dropWhile P (chunks s)"
  by (rule chunks_after [of s "takeWhile P (chunks s)"]) simp

lemma TrimFunc_chunks:
  "TrimFunc s f = text_of (rev (dropWhile (\<lambda>x. f (fst x)) (rev (dropWhile (\<lambda>x. f (fst x)) (chunks s)))))"
  by (simp add: TrimFunc_def TrimLeftFunc_chunks TrimRightFunc_chunks chunks_dropWhile)

lemma bytes_lastIndexFunc_loop_eq: "bytes_lastIndexFunc_loop f s i = last_rune_index f s i"
proof (induction f s i rule: bytes_lastIndexFunc_loop.induct)
  case (1 f s i)
  have "last_rune (take i s) = DecodeLastRuneInString (take i s)" if "0 < i" "i \<le> length s"
    using that last_rune_eq [of "take i s"] by (cases s) (auto simp: DecodeLastRuneInString_eq)
  then show ?case using 1
    by (subst bytes_lastIndexFunc_loop.simps, subst last_rune_index.simps) (auto simp: Let_def split: prod.splits)
qed

lemma bytes_trim_eq:
  "bytes_indexFunc = indexFunc" "bytes_lastIndexFunc = lastIndexFunc"
  "bytes_TrimLeftFunc = TrimLeftFunc" "bytes_TrimRightFunc = TrimRightFunc" "bytes_TrimFunc = TrimFunc"
proof -
  show i: "bytes_indexFunc = indexFunc" "bytes_lastIndexFunc = lastIndexFunc"
    by (simp_all add: fun_eq_iff bytes_indexFunc_def indexFunc_def bytes_lastIndexFunc_def lastIndexFunc_def
        bytes_lastIndexFunc_loop_eq)
  show t: "bytes_TrimLeftFunc = TrimLeftFunc" "bytes_TrimRightFunc = TrimRightFunc"
    by (simp_all add: fun_eq_iff bytes_TrimLeftFunc_def TrimLeftFunc_def bytes_TrimRightFunc_def TrimRightFunc_def i
        DecodeRuneInString_eq Let_def)
  show "bytes_TrimFunc = TrimFunc" by (simp add: fun_eq_iff bytes_TrimFunc_def TrimFunc_def t)
qed

text \<open>The two functions that test for membership in a cutset agree on every rune that a string contains.\<close>

lemma chunk_rune_small: "chunk_ok x \<Longrightarrow> unat (fst x) < 2 ^ 31"
  by (auto simp: chunk_ok_def scalar_def RuneError_def)

lemma range_string_chunks: "map snd (range_string s 0) = map fst (chunks s)"
proof -
  have "runes s = map fst (chunks s)"
  proof (induction "length s" arbitrary: s rule: less_induct)
    case less
    show ?case
    proof (cases "s = []")
      case False
      obtain r n where "DecodeRune s = (r, n)" by fastforce
      then show ?thesis using less [of "drop n s"] False DecodeRune_size [OF False]
        by (subst runes.simps) (simp add: chunks_Cons)
    qed (simp add: runes.simps)
  qed
  then show ?thesis by (simp add: runes_range_string)
qed

lemma range_string_has: "(\<exists>i. (i, r) \<in> set (range_string s 0)) \<longleftrightarrow> r \<in> fst ` set (chunks s)"
proof -
  have "r \<in> set (map snd (range_string s 0)) \<longleftrightarrow> r \<in> set (map fst (chunks s))" by (simp only: range_string_chunks)
  then show ?thesis by force
qed

lemma range_index_found: "range_index g rs \<ge> 0 \<longleftrightarrow> (\<exists>(i, r) \<in> set rs. g r)"
  by (induction g rs rule: range_index.induct) auto

lemma ascii_chunk:
  assumes "unat r < 128"
  shows "ucast r \<in> set s \<longleftrightarrow> r \<in> fst ` set (chunks s)"
proof
  assume "ucast r \<in> set s"
  then have "ucast r \<in> set (text_of (chunks s))" by simp
  then obtain x where x: "x \<in> set (chunks s)" "ucast r \<in> set (snd x)" by (auto simp: text_of_def)
  have u: "unat (ucast r :: u8) = unat r" using assms by (simp add: unsigned_ucast_eq take_bit_nat_eq_self)
  have sc: "scalar (unat (fst x))" "snd x = utf8 (fst x)" using chunks_ok [OF x(1)] x(2) u assms by (auto simp: chunk_ok_def)
  then obtain i where i: "i < length (utf8 (fst x))" "utf8 (fst x) ! i = ucast r" using x(2) by (auto simp: in_set_conv_nth)
  have "\<not> cont (ucast r)" using u assms by (simp add: cont_def)
  then have "i = 0" using utf8_cont [OF sc(1) i(1)] i(2) by simp
  then have one: "length (utf8 (fst x)) = 1" using utf8_ascii_iff [OF sc(1)] i(2) u assms by simp
  have "length (utf8 (fst x)) \<noteq> 1" if "\<not> unat (fst x) < 128" using that by (simp add: length_utf8)
  then have "unat (fst x) < 128" using one by blast
  then have "utf8 (fst x) = [ucast (fst x)]" using EncodeRune_bytes1 by simp
  then have "(ucast (fst x) :: u8) = ucast r" using i \<open>i = 0\<close> by simp
  moreover have "unat (ucast (fst x) :: u8) = unat (fst x)"
    using \<open>unat (fst x) < 128\<close> by (simp add: unsigned_ucast_eq take_bit_nat_eq_self)
  ultimately have "fst x = r" using u by (metis word_unat_eq_iff)
  then show "r \<in> fst ` set (chunks s)" using x(1) by blast
next
  assume "r \<in> fst ` set (chunks s)"
  then obtain x where x: "x \<in> set (chunks s)" "fst x = r" by blast
  then have "snd x = [ucast r]" using chunks_ok [OF x(1)] assms EncodeRune_bytes1 [of r]
    by (auto simp: chunk_ok_def RuneError_def)
  then have "ucast r \<in> set (text_of (chunks s))" using x(1) by (force simp: text_of_def)
  then show "ucast r \<in> set s" by simp
qed

lemma makeCutsetFunc_eq:
  assumes "unat r < 2 ^ 31"
  shows "makeCutsetFunc cutset r = bytes_makeCutsetFunc cutset r"
proof -
  have b: "bytes_makeCutsetFunc cutset r \<longleftrightarrow> r \<in> fst ` set (chunks cutset)"
    using range_string_has [of r cutset] by (force simp: bytes_makeCutsetFunc_def list_ex_iff)
  show ?thesis
  proof (cases "unat r < 128")
    case True
    then have "IndexRune cutset r = IndexByte cutset (ucast r)"
      using assms by (simp add: IndexRune_def sless_small RuneSelf_def)
    moreover have "IndexByte cutset (ucast r) \<ge> 0 \<longleftrightarrow> ucast r \<in> set cutset"
      using IndexByte_first [of cutset "ucast r"]
      by (auto simp: first_occurrence_def occurs_at_single in_set_conv_nth split: if_splits)
    ultimately show ?thesis using ascii_chunk [OF True, of cutset] b by (simp add: makeCutsetFunc_def)
  next
    case False
    then have "IndexRune cutset r = range_index (\<lambda>c. c = r) (range_string cutset 0)"
      using assms by (simp add: IndexRune_def sless_small RuneSelf_def)
    then show ?thesis using b range_string_has [of r cutset] by (auto simp: makeCutsetFunc_def range_index_found)
  qed
qed

lemma TrimFunc_cong:
  assumes "\<And>x. x \<in> set (chunks s) \<Longrightarrow> f (fst x) = g (fst x)"
  shows "TrimLeftFunc s f = TrimLeftFunc s g" "TrimRightFunc s f = TrimRightFunc s g" "TrimFunc s f = TrimFunc s g"
proof -
  have d: "dropWhile (\<lambda>x. f (fst x)) xs = dropWhile (\<lambda>x. g (fst x)) xs" if "set xs \<subseteq> set (chunks s)" for xs
    using assms that by (intro dropWhile_cong) auto
  show "TrimLeftFunc s f = TrimLeftFunc s g" "TrimRightFunc s f = TrimRightFunc s g"
    by (simp_all add: TrimLeftFunc_chunks TrimRightFunc_chunks d)
  show "TrimFunc s f = TrimFunc s g"
    using set_dropWhileD [of _ "\<lambda>x. g (fst x)" "chunks s"] by (simp add: TrimFunc_chunks d subset_iff)
qed

lemma bytes_Trim_eq: "bytes_Trim s cutset = Trim s cutset"
  "bytes_TrimLeft s cutset = TrimLeft s cutset" "bytes_TrimRight s cutset = TrimRight s cutset"
proof -
  have "x \<in> set (chunks s) \<Longrightarrow> makeCutsetFunc cutset (fst x) = bytes_makeCutsetFunc cutset (fst x)" for x
    using makeCutsetFunc_eq chunk_rune_small chunks_ok by blast
  then have cong: "TrimLeftFunc s (makeCutsetFunc cutset) = TrimLeftFunc s (bytes_makeCutsetFunc cutset)"
    "TrimRightFunc s (makeCutsetFunc cutset) = TrimRightFunc s (bytes_makeCutsetFunc cutset)"
    "TrimFunc s (makeCutsetFunc cutset) = TrimFunc s (bytes_makeCutsetFunc cutset)"
    using TrimFunc_cong [of s "makeCutsetFunc cutset" "bytes_makeCutsetFunc cutset"] by blast+
  have "bytes_makeCutsetFunc [] r = False" for r by (simp add: bytes_makeCutsetFunc_def range_string_end)
  then have "TrimFunc s (bytes_makeCutsetFunc []) = s" "TrimLeftFunc s (bytes_makeCutsetFunc []) = s"
    "TrimRightFunc s (bytes_makeCutsetFunc []) = s"
    by (simp_all add: TrimFunc_chunks TrimLeftFunc_chunks TrimRightFunc_chunks)
  moreover have "TrimFunc [] f = []" "TrimLeftFunc [] f = []" "TrimRightFunc [] f = []" for f
    by (simp_all add: TrimFunc_chunks TrimLeftFunc_chunks TrimRightFunc_chunks)
  ultimately have empty: "s = [] \<or> cutset = [] \<Longrightarrow> TrimFunc s (bytes_makeCutsetFunc cutset) = s"
    "s = [] \<or> cutset = [] \<Longrightarrow> TrimLeftFunc s (bytes_makeCutsetFunc cutset) = s"
    "s = [] \<or> cutset = [] \<Longrightarrow> TrimRightFunc s (bytes_makeCutsetFunc cutset) = s"
    by metis+
  show "bytes_Trim s cutset = Trim s cutset"
    "bytes_TrimLeft s cutset = TrimLeft s cutset" "bytes_TrimRight s cutset = TrimRight s cutset"
    unfolding bytes_Trim_def Trim_def bytes_TrimLeft_def TrimLeft_def bytes_TrimRight_def TrimRight_def bytes_trim_eq cong
    using empty by simp_all
qed

section \<open>Fields\<close>

text \<open>The maximal sequences of elements that do not satisfy a predicate.\<close>

function groups :: "('a \<Rightarrow> bool) \<Rightarrow> 'a list \<Rightarrow> 'a list list" where
  "groups P [] = []"
| "groups P (x # xs) =
    (if P x then groups P xs
     else (x # takeWhile (\<lambda>y. \<not> P y) xs) # groups P (dropWhile (\<lambda>y. \<not> P y) xs))"
  by pat_completeness auto
termination by (relation "measure (\<lambda>(P, xs). length xs)") (auto simp: le_imp_less_Suc length_dropWhile_le)

text \<open>
  What a loop that is at the chunks \<open>cs\<close> still has to store: in a field (\<open>w\<close> holds its bytes so far) the rest of
  the field comes first.
\<close>

definition to_store :: "(rune \<Rightarrow> bool) \<Rightarrow> u8 list option \<Rightarrow> (rune \<times> u8 list) list \<Rightarrow> u8 list list" where
  "to_store f w cs = (case w of
     None \<Rightarrow> map text_of (groups (\<lambda>x. f (fst x)) cs)
   | Some w \<Rightarrow> (w @ text_of (takeWhile (\<lambda>x. \<not> f (fst x)) cs))
       # map text_of (groups (\<lambda>x. f (fst x)) (dropWhile (\<lambda>x. \<not> f (fst x)) cs)))"

lemma to_store_simps:
  "to_store f None [] = []" "to_store f (Some w) [] = [w]"
  "to_store f None (x # cs) = (if f (fst x) then to_store f None cs else to_store f (Some (snd x)) cs)"
  "to_store f (Some w) (x # cs) = (if f (fst x) then w # to_store f None cs else to_store f (Some (w @ snd x)) cs)"
  by (simp_all add: to_store_def)

definition in_field :: "u8 list \<Rightarrow> int \<Rightarrow> nat \<Rightarrow> u8 list option" where
  "in_field s fieldStart k = (if fieldStart < 0 then None else Some (slice s (nat fieldStart) k))"

lemma chunk_at:
  assumes "k < length s"
  obtains r n where "DecodeRune (drop k s) = (r, n)" "0 < n" "k + n \<le> length s"
    "chunks (drop k s) = (r, take n (drop k s)) # chunks (drop (k + n) s)"
proof -
  obtain r n where d: "DecodeRune (drop k s) = (r, n)" by fastforce
  then have "1 \<le> n" "n \<le> length s - k" using DecodeRune_size [of "drop k s"] assms by auto
  then show ?thesis using that [OF d] chunks_Cons [OF _ d] assms by (simp add: add.commute)
qed

lemma slice_more: "i \<le> k \<Longrightarrow> k + n \<le> length s \<Longrightarrow> slice s i (k + n) = slice s i k @ take n (drop k s)"
  using take_add [of "k - i" n "drop i s"] by simp

lemma count_fields_counts:
  "k \<le> length s \<Longrightarrow> count_fields f (range_string s k) w n + (if w then 1 else 0) =
    n + length (to_store f (if w then Some [] else None) (chunks (drop k s)))"
proof (induction "length s - k" arbitrary: k w n rule: less_induct)
  case less
  have len: "length (to_store f (Some u) cs) = length (to_store f (Some []) cs)" for u cs by (simp add: to_store_def)
  show ?case
  proof (cases "k < length s")
    case True
    then obtain r m where d: "DecodeRune (drop k s) = (r, m)" "0 < m" "k + m \<le> length s"
      "chunks (drop k s) = (r, take m (drop k s)) # chunks (drop (k + m) s)" by (rule chunk_at)
    show ?thesis
      using less.hyps [of "k + m" "\<not> f r" "if \<not> f r \<and> \<not> w then n + 1 else n"] True d
        len [of "take m (drop k s)"] len [of "[] @ take m (drop k s)"]
      by (auto simp: range_string_step to_store_simps Let_def split: if_splits)
  qed (use less.prems in \<open>simp add: range_string_end to_store_simps\<close>)
qed

lemma fields_loop_stores:
  assumes "k \<le> length s" and "-1 \<le> fieldStart" and "fieldStart \<le> int k"
    and "na + length (to_store f (in_field s fieldStart k) (chunks (drop k s))) \<le> length a"
  shows "go_bind (fields_loop f s (range_string s k) a na fieldStart) (\<lambda>(a, na, fieldStart).
      if fieldStart \<ge> 0 then go_set a na (drop (nat fieldStart) s) else Inr a) =
    Inr (fill a na (to_store f (in_field s fieldStart k) (chunks (drop k s))))"
  using assms
proof (induction "length s - k" arbitrary: k a na fieldStart rule: less_induct)
  case less
  show ?case
  proof (cases "k < length s")
    case True
    then obtain r m where d: "DecodeRune (drop k s) = (r, m)" "0 < m" "k + m \<le> length s"
      "chunks (drop k s) = (r, take m (drop k s)) # chunks (drop (k + m) s)" by (rule chunk_at)
    note IH = less.hyps [of "k + m", OF _ d(3)]
    consider "f r" "fieldStart = -1" | "f r" "0 \<le> fieldStart" | "\<not> f r" "fieldStart = -1" | "\<not> f r" "0 \<le> fieldStart"
      using less.prems(2) by fastforce
    then show ?thesis
    proof cases
      case 1
      then show ?thesis using IH [of "-1" na a] less.prems True d
        by (simp add: range_string_step to_store_simps in_field_def)
    next
      case 2
      let ?v = "slice s (nat fieldStart) k" and ?rest = "to_store f None (chunks (drop (k + m) s))"
      have "na + 1 + length ?rest \<le> length a" using less.prems(4) 2 d by (simp add: to_store_simps in_field_def)
      then show ?thesis
        using IH [of "-1" "na + 1" "fill a na [?v]"] 2 True d fill_fill [of na "[?v]" ?rest a]
        by (simp add: range_string_step to_store_simps in_field_def go_set_fill)
    next
      case 3
      then show ?thesis using IH [of "int k" na a] less.prems True d
        by (simp add: range_string_step to_store_simps in_field_def slice_more)
    next
      case 4
      then show ?thesis using IH [of fieldStart na a] less.prems True d
        by (simp add: range_string_step to_store_simps in_field_def slice_more nat_le_iff)
    qed
  next
    case False
    then show ?thesis using less.prems
      by (auto simp: range_string_end to_store_simps in_field_def go_set_fill fill_def)
  qed
qed

lemma fill_replicate: "fill (replicate (length xs) x) 0 xs = xs"
  by (simp add: fill_def)

text \<open>The fields of a string, which both packages count and then store in a slice.\<close>

definition fields_of :: "(rune \<Rightarrow> bool) \<Rightarrow> u8 list \<Rightarrow> u8 list list" where
  "fields_of f s = map text_of (groups (\<lambda>x. f (fst x)) (chunks s))"

lemma FieldsFunc_groups:
  "FieldsFunc s f = (if length (fields_of f s) \<le> 536870911 then Inr (fields_of f s)
     else Inl (PanicMsg ''makeslice: len out of range''))"
proof -
  let ?n = "count_fields f (range_string s 0) False 0"
  have n: "?n = length (fields_of f s)"
    using count_fields_counts [of 0 s f False 0] by (simp add: to_store_def fields_of_def)
  have "go_bind (fields_loop f s (range_string s 0) (replicate ?n []) 0 (-1)) (\<lambda>(a, na, fieldStart).
      if fieldStart \<ge> 0 then go_set a na (drop (nat fieldStart) s) else Inr a) = Inr (fields_of f s)"
    using count_fields_counts [of 0 s f False 0] fields_loop_stores [of 0 s "-1" 0 f "replicate ?n []"]
    by (simp add: in_field_def fill_replicate) (simp add: to_store_def fields_of_def)
  then show ?thesis unfolding FieldsFunc_def Let_def makeslice_strings go_bind_if by (simp only: n)
qed

lemma bytes_count_fields_eq: "bytes_count_fields f s k w n = count_fields f (range_string s k) w n"
proof (induction "length s - k" arbitrary: k w n rule: less_induct)
  case less
  show ?case
  proof (cases "k < length s")
    case True
    obtain r m where d: "DecodeRune (drop k s) = (r, m)" "0 < m" by (rule chunk_at [OF True])
    then show ?thesis using less [of "k + m"] True
      by (subst bytes_count_fields.simps) (simp add: range_string_step Let_def)
  qed (subst bytes_count_fields.simps, simp add: range_string_end)
qed

lemma DecodeRune_Nil: "DecodeRune [] = (RuneError, 0)"
  by (simp add: DecodeRune_def decodeRuneInternal_def)

lemma bytes_fields_loop_stores:
  assumes "k \<le> length s" and "-1 \<le> fieldStart" and "fieldStart \<le> int k"
    and "n = na + length (to_store f (in_field s fieldStart k) (chunks (drop k s)))" and "n \<le> length a"
  shows "bytes_fields_loop f s n k a na fieldStart =
    Inr (fill a na (to_store f (in_field s fieldStart k) (chunks (drop k s))), n)"
  using assms
proof (induction "length s - k" arbitrary: k a na fieldStart rule: less_induct)
  case less
  consider "n = na" | "na < n" "k < length s" | "na < n" "k = length s" using less.prems(1,4) by linarith
  then show ?case
  proof cases
    case 1
    then have "to_store f (in_field s fieldStart k) (chunks (drop k s)) = []" using less.prems(4) by simp
    then show ?thesis using 1 by (subst bytes_fields_loop.simps) (simp add: fill_def)
  next
    case 3
    then show ?thesis using less.prems
      by (subst bytes_fields_loop.simps)
        (auto simp: DecodeRune_Nil to_store_simps in_field_def go_set_fill split: if_splits)
  next
    case 2
    then obtain r m where d: "DecodeRune (drop k s) = (r, m)" "0 < m" "k + m \<le> length s"
      "chunks (drop k s) = (r, take m (drop k s)) # chunks (drop (k + m) s)" by (metis chunk_at)
    note IH = less.hyps [of "k + m", OF _ d(3)]
    consider "f r" "fieldStart = -1" | "f r" "0 \<le> fieldStart" | "\<not> f r" "fieldStart = -1" | "\<not> f r" "0 \<le> fieldStart"
      using less.prems(2) by fastforce
    then show ?thesis
    proof cases
      case a: 1
      then show ?thesis using IH [of "-1" na a] less.prems 2 d
        by (subst bytes_fields_loop.simps) (simp add: to_store_simps in_field_def)
    next
      case a: 2
      let ?v = "slice s (nat fieldStart) k" and ?rest = "to_store f None (chunks (drop (k + m) s))"
      have "n = na + 1 + length ?rest" using less.prems(4) a d by (simp add: to_store_simps in_field_def)
      then show ?thesis
        using IH [of "-1" "na + 1" "fill a na [?v]"] less.prems(5) a 2 d fill_fill [of na "[?v]" ?rest a]
        by (subst bytes_fields_loop.simps) (simp add: to_store_simps in_field_def go_set_fill)
    next
      case a: 3
      then show ?thesis using IH [of "int k" na a] less.prems 2 d
        by (subst bytes_fields_loop.simps) (simp add: to_store_simps in_field_def slice_more)
    next
      case a: 4
      then show ?thesis using IH [of fieldStart na a] less.prems 2 d
        by (subst bytes_fields_loop.simps) (simp add: to_store_simps in_field_def slice_more nat_le_iff)
    qed
  qed
qed

lemma bytes_FieldsFunc_groups:
  "bytes_FieldsFunc s f = (if length (fields_of f s) \<le> 357913941 then Inr (fields_of f s)
     else Inl (PanicMsg ''makeslice: len out of range''))"
proof -
  let ?fs = "fields_of f s"
  have n: "bytes_count_fields f s 0 False 0 = length ?fs"
    using count_fields_counts [of 0 s f False 0] by (simp add: bytes_count_fields_eq to_store_def fields_of_def)
  have "bytes_fields_loop f s (length ?fs) 0 (replicate (length ?fs) []) 0 (-1) = Inr (?fs, length ?fs)"
    using bytes_fields_loop_stores [of 0 s "-1" "length ?fs" 0 f "replicate (length ?fs) []"] fill_replicate [of ?fs "[]"]
    by (simp add: in_field_def to_store_def fields_of_def)
  then show ?thesis by (simp add: bytes_FieldsFunc_def n makeslice_slices go_bind_if)
qed

lemma bytes_Runes_loop_fills:
  "i + length (chunks s) \<le> length t \<Longrightarrow> bytes_Runes_loop s t i = Inr (fill t i (map fst (chunks s)))"
proof (induction s t i rule: bytes_Runes_loop.induct)
  case (1 s t i)
  show ?case
  proof (cases "s = []")
    case False
    obtain r l where d: "DecodeRune s = (r, l)" by fastforce
    note c = chunks_Cons [OF False d]
    have "bytes_Runes_loop (drop l s) (fill t i [r]) (i + 1) = Inr (fill (fill t i [r]) (i + 1) (map fst (chunks (drop l s))))"
      using False d 1(2) c by (intro 1(1)) (auto simp: go_set_fill)
    then show ?thesis using False d 1(2) c fill_fill [of i "[r]" "map fst (chunks (drop l s))" t]
      by (subst bytes_Runes_loop.simps) (simp add: go_set_fill)
  qed (subst bytes_Runes_loop.simps, simp add: fill_def)
qed

lemma bytes_Runes_runes:
  "bytes_Runes s = (if length (runes s) \<le> 1073741823 then Inr (runes s) else Inl (PanicMsg ''makeslice: len out of range''))"
proof -
  have r: "runes s = map fst (chunks s)" using range_string_chunks [of s] by (simp add: runes_range_string)
  have n: "RuneCount s = length (runes s)"
    unfolding r using range_string_count [of s 0] range_string_chunks [of s] by (metis drop_0 length_map)
  have "bytes_Runes_loop s (replicate (length (runes s)) 0) 0 = Inr (runes s)"
    using bytes_Runes_loop_fills [of 0 s "replicate (length (runes s)) 0"] fill_replicate [of "runes s" 0] by (simp add: r)
  then show ?thesis by (simp add: bytes_Runes_def n makeslice_runes go_bind_if)
qed

lemma IsSpace_returns: "\<exists>b. IsSpace r = Inr b"
proof -
  have ok: "ranges_ok (R16 White_Space)" using White_Space_ok by (simp add: table_ok_def)
  have "R32 White_Space = []" by (simp add: White_Space_def)
  then show ?thesis
    by (auto simp: IsSpace_def isExcludingLatin_def Let_def is16_covers [OF ranges_ok_drop [OF ok]] ex_bool_eq)
qed

section \<open>Theorems\<close>

text \<open>C38: On every string of bytes, valid UTF-8 or not, and for every predicate, \<open>TrimLeftFunc\<close> and \<open>TrimRightFunc\<close> drop
  exactly the chunks (encoded runes or single invalid bytes) at their end of the string that satisfy the
  predicate, though one reads forwards and the other backwards, \<open>TrimFunc\<close> drops both, and the functions of
  package \<open>bytes\<close> and the two implementations of a cutset give the same results.\<close>
theorem trimming_drops_chunks:
  "TrimLeftFunc s f = text_of (dropWhile (\<lambda>x. f (fst x)) (chunks s))
   \<and> TrimRightFunc s f = text_of (rev (dropWhile (\<lambda>x. f (fst x)) (rev (chunks s))))
   \<and> TrimFunc s f = text_of (rev (dropWhile (\<lambda>x. f (fst x)) (rev (dropWhile (\<lambda>x. f (fst x)) (chunks s)))))
   \<and> bytes_TrimLeftFunc s f = TrimLeftFunc s f \<and> bytes_TrimRightFunc s f = TrimRightFunc s f
   \<and> bytes_TrimFunc s f = TrimFunc s f \<and> bytes_Trim s cutset = Trim s cutset
   \<and> bytes_TrimLeft s cutset = TrimLeft s cutset \<and> bytes_TrimRight s cutset = TrimRight s cutset
   \<and> bytes_TrimSpace s = TrimSpace s \<and> text_of (chunks s) = s"
  by (simp add: TrimLeftFunc_chunks TrimRightFunc_chunks TrimFunc_chunks bytes_trim_eq bytes_Trim_eq
      bytes_TrimSpace_def TrimSpace_def)

text \<open>C39: \<open>FieldsFunc\<close> of both packages, which count the fields in a first pass and store them in a second one, return
  the maximal sequences of chunks whose runes do not satisfy the predicate, in order, without an index out of
  range; so do \<open>Fields\<close> for white space. They panic exactly when a slice of so many strings (byte slices) does
  not fit in the address space.\<close>
theorem fields_are_groups:
  "(let fs = map text_of (groups (\<lambda>x. f (fst x)) (chunks s)); big = Inl (PanicMsg ''makeslice: len out of range'') in
     FieldsFunc s f = (if length fs \<le> 536870911 then Inr fs else big)
     \<and> bytes_FieldsFunc s f = (if length fs \<le> 357913941 then Inr fs else big))
   \<and> Fields s = FieldsFunc s space \<and> bytes_Fields s = bytes_FieldsFunc s space"
  by (simp add: FieldsFunc_groups bytes_FieldsFunc_groups bytes_Fields_def Fields_def fields_of_def Let_def)

end
