(* ===== verification/StringFold.thy ===== *)
theory StringFold
  imports StringFields
begin

text \<open>
  \<open>EqualFold\<close> of packages \<open>strings\<close> and \<open>bytes\<close>: equality of two strings up to Unicode case folding. The functions
  walk through the runes that \<open>unicode.SimpleFold\<close> chains together; what its documentation promises of the chains is
  a condition on the tables (\<open>fold_classes\<close>), under which the walk ends and the result is equality of the runes up
  to equivalence.
\<close>

section \<open>Definitions\<close>

text \<open>The loop over the runes equivalent to \<open>sr\<close>; whether it ends depends on the tables.\<close>

partial_function (option) fold_chain :: "unicode_tables \<Rightarrow> rune \<Rightarrow> rune \<Rightarrow> rune \<Rightarrow> rune option" where
  "fold_chain tb sr tr r = (if r \<noteq> sr \<and> r <s tr then fold_chain tb sr tr (SimpleFold tb r) else Some r)"

declare fold_chain.simps [code]

text \<open>The comparison of two different runes, after the swap that makes \<open>sr\<close> the smaller one.\<close>

definition fold_ordered :: "unicode_tables \<Rightarrow> rune \<Rightarrow> rune \<Rightarrow> bool option" where
  "fold_ordered tb sr tr =
    (if tr <s of_nat RuneSelf \<and> 0x41 \<le>s sr \<and> sr \<le>s 0x5A then Some (tr = sr + 0x61 - 0x41)
     else case fold_chain tb sr tr (SimpleFold tb sr) of None \<Rightarrow> None | Some r \<Rightarrow> Some (r = tr))"

definition fold_match :: "unicode_tables \<Rightarrow> rune \<Rightarrow> rune \<Rightarrow> bool option" where
  "fold_match tb sr tr =
    (if tr = sr then Some True else if tr <s sr then fold_ordered tb tr sr else fold_ordered tb sr tr)"

function EqualFold :: "unicode_tables \<Rightarrow> u8 list \<Rightarrow> u8 list \<Rightarrow> bool option" where
  "EqualFold tb s t =
    (if s \<noteq> [] \<and> t \<noteq> [] then
       case next_rune s of (sr, m) \<Rightarrow>
       case next_rune t of (tr, n) \<Rightarrow>
       (case fold_match tb sr tr of
          None \<Rightarrow> None
        | Some b \<Rightarrow> if b then EqualFold tb (drop m s) (drop n t) else Some False)
     else Some (s = t))"
  by pat_completeness auto
termination
proof (relation "measure (\<lambda>(tb, s, t). length s)", goal_cases)
  case (2 tb s t sr m tr n b)
  then show ?case using DecodeRune_bounds [of sr m s] by (auto simp: next_rune_eq)
qed simp

declare EqualFold.simps [simp del]

function bytes_EqualFold :: "unicode_tables \<Rightarrow> u8 list \<Rightarrow> u8 list \<Rightarrow> bool option" where
  "bytes_EqualFold tb s t =
    (if length s \<noteq> 0 \<and> length t \<noteq> 0 then
       case next_rune s of (sr, m) \<Rightarrow>
       case next_rune t of (tr, n) \<Rightarrow>
       (case fold_match tb sr tr of
          None \<Rightarrow> None
        | Some b \<Rightarrow> if b then bytes_EqualFold tb (drop m s) (drop n t) else Some False)
     else Some (length s = length t))"
  by pat_completeness auto
termination
proof (relation "measure (\<lambda>(tb, s, t). length s)", goal_cases)
  case (2 tb s t sr m tr n b)
  then show ?case using DecodeRune_bounds [of sr m s] by (auto simp: next_rune_eq)
qed simp

declare bytes_EqualFold.simps [simp del]

section \<open>Chains of equivalent runes\<close>

text \<open>
  The promise of \<open>SimpleFold\<close>: the runes fall into classes of equivalent ones, and the function returns the smallest
  rune of the class that is greater, if there is one, or else the smallest of the class.
\<close>

definition fold_classes :: "unicode_tables \<Rightarrow> (rune \<Rightarrow> rune set) \<Rightarrow> bool" where
  "fold_classes tb cls \<longleftrightarrow> (\<forall>r. unat r < 2 ^ 31 \<longrightarrow>
     r \<in> cls r \<and> (\<forall>q \<in> cls r. unat q < 2 ^ 31 \<and> cls q = cls r) \<and> SimpleFold tb r \<in> cls r
     \<and> (if \<exists>q \<in> cls r. r < q then r < SimpleFold tb r \<and> (\<forall>q \<in> cls r. r < q \<longrightarrow> SimpleFold tb r \<le> q)
        else \<forall>q \<in> cls r. SimpleFold tb r \<le> q))"

text \<open>Among the ASCII characters, a letter is equivalent only to its other case.\<close>

definition ascii_classes :: "(rune \<Rightarrow> rune set) \<Rightarrow> bool" where
  "ascii_classes cls \<longleftrightarrow>
     (\<forall>sr tr. 0x41 \<le> sr \<and> sr \<le> 0x5A \<and> tr < 0x80 \<longrightarrow> (tr \<in> cls sr \<longleftrightarrow> tr = sr \<or> tr = sr + 0x20))"

lemma fold_classesD:
  assumes "fold_classes tb cls" and "unat r < 2 ^ 31" and "q \<in> cls r"
  shows "unat q < 2 ^ 31" "cls q = cls r" "SimpleFold tb q \<in> cls r"
    "\<And>p. p \<in> cls r \<Longrightarrow> q < p \<Longrightarrow> q < SimpleFold tb q \<and> SimpleFold tb q \<le> p"
    "\<And>p. p \<in> cls r \<Longrightarrow> \<not> q < SimpleFold tb q \<Longrightarrow> SimpleFold tb q \<le> p \<and> p \<le> q"
proof -
  show q: "unat q < 2 ^ 31" "cls q = cls r" using assms unfolding fold_classes_def by blast+
  have c: "SimpleFold tb q \<in> cls q"
    "\<exists>p \<in> cls q. q < p \<Longrightarrow> q < SimpleFold tb q \<and> (\<forall>p \<in> cls q. q < p \<longrightarrow> SimpleFold tb q \<le> p)"
    "\<not> (\<exists>p \<in> cls q. q < p) \<Longrightarrow> \<forall>p \<in> cls q. SimpleFold tb q \<le> p"
    using assms(1) q(1) unfolding fold_classes_def by presburger+
  show "SimpleFold tb q \<in> cls r" using c(1) unfolding q(2) .
  show "p \<in> cls r \<Longrightarrow> q < p \<Longrightarrow> q < SimpleFold tb q \<and> SimpleFold tb q \<le> p" for p
    using c(2) unfolding q(2) by blast
  show "p \<in> cls r \<Longrightarrow> \<not> q < SimpleFold tb q \<Longrightarrow> SimpleFold tb q \<le> p \<and> p \<le> q" for p
    using c(2,3) unfolding q(2) by (meson not_less)
qed

lemma fold_class_self: "fold_classes tb cls \<Longrightarrow> unat r < 2 ^ 31 \<Longrightarrow> r \<in> cls r"
  unfolding fold_classes_def by blast

lemma rune_less: "unat a < 2 ^ 31 \<Longrightarrow> unat b < 2 ^ 31 \<Longrightarrow> a <s b \<longleftrightarrow> a < b" for a b :: rune
  by (simp add: sless_small word_less_nat_alt)

text \<open>The chain ends: it climbs to the largest rune of the class, goes on from the smallest and meets \<open>sr\<close>.\<close>

definition to_go :: "rune set \<Rightarrow> rune \<Rightarrow> rune \<Rightarrow> nat" where
  "to_go C sr r = card {q \<in> C. r < q} + (if sr < r then card C else 0)"

lemma fold_chain_returns:
  assumes "fold_classes tb cls" and "unat sr < 2 ^ 31" and "unat tr < 2 ^ 31" and "r \<in> cls sr"
  shows "\<exists>q \<in> cls sr. fold_chain tb sr tr r = Some q"
  using assms(4)
proof (induction "to_go (cls sr) sr r" arbitrary: r rule: less_induct)
  case less
  note D = fold_classesD [OF assms(1,2) less.prems]
  have sr: "sr \<in> cls sr" using assms(1,2) by (rule fold_class_self)
  show ?case
  proof (cases "r \<noteq> sr \<and> r <s tr")
    case True
    let ?r = "SimpleFold tb r"
    have card: "card {q \<in> cls sr. a < q} < card {q \<in> cls sr. b < q}" if "b < a" "a \<in> cls sr" for a b
      using that by (intro psubset_card_mono) auto
    have "to_go (cls sr) sr ?r < to_go (cls sr) sr r"
    proof (cases "r < ?r")
      case up: True
      then have "sr < ?r \<longrightarrow> sr < r" using D(4) [OF sr] True by (cases "r < sr") auto
      then show ?thesis using card [OF up D(3)] by (auto simp: to_go_def)
    next
      case False
      have "sr < r" using D(5) [OF sr False] True by auto
      moreover have "?r \<le> sr" using D(5) [OF sr False] by blast
      moreover have "card {q \<in> cls sr. ?r < q} < card (cls sr)" using D(3) by (intro psubset_card_mono) auto
      ultimately show ?thesis by (auto simp: to_go_def)
    qed
    then show ?thesis using less.hyps [OF _ D(3)] True by (subst fold_chain.simps) simp
  next
    case False
    then show ?thesis using less.prems by (subst fold_chain.simps) auto
  qed
qed

lemma fold_chain_reaches:
  assumes "fold_classes tb cls" and "unat sr < 2 ^ 31" and "tr \<in> cls sr" and "r \<in> cls sr" and "sr < r" and "r \<le> tr"
  shows "fold_chain tb sr tr r = Some tr"
  using assms(4-6)
proof (induction "card {q \<in> cls sr. r < q}" arbitrary: r rule: less_induct)
  case less
  note D = fold_classesD [OF assms(1,2) less.prems(1)]
  have tr: "unat tr < 2 ^ 31" using fold_classesD(1) [OF assms(1,2,3)] .
  show ?case
  proof (cases "r = tr")
    case True
    then show ?thesis by (subst fold_chain.simps) simp
  next
    case False
    then have "r < tr" using less.prems(3) by simp
    then have up: "r < SimpleFold tb r" "SimpleFold tb r \<le> tr" using D(4) [OF assms(3)] by auto
    have "card {q \<in> cls sr. SimpleFold tb r < q} < card {q \<in> cls sr. r < q}"
      using up(1) D(3) by (intro psubset_card_mono) auto
    then have "fold_chain tb sr tr (SimpleFold tb r) = Some tr"
      using D(3) up less.prems(2) by (intro less.hyps) auto
    then show ?thesis using \<open>r < tr\<close> less.prems(2) rune_less [OF D(1) tr] by (subst fold_chain.simps) auto
  qed
qed

lemma fold_ordered_class:
  assumes "fold_classes tb cls" and "ascii_classes cls" and "unat sr < 2 ^ 31" and "unat tr < 2 ^ 31" and "sr < tr"
  shows "fold_ordered tb sr tr = Some (tr \<in> cls sr)"
proof (cases "tr <s of_nat RuneSelf \<and> 0x41 \<le>s sr \<and> sr \<le>s 0x5A")
  case True
  then have "0x41 \<le> sr" "sr \<le> 0x5A" "tr < 0x80"
    using assms(3,4) by (auto simp: sle_small sless_small RuneSelf_def word_le_nat_alt word_less_nat_alt)
  then have "tr \<in> cls sr \<longleftrightarrow> tr = sr + 0x20" using assms(2,5) unfolding ascii_classes_def by blast
  then show ?thesis using True by (simp add: fold_ordered_def add.commute)
next
  case False
  have sr: "sr \<in> cls sr" using assms(1,3) by (rule fold_class_self)
  note D = fold_classesD [OF assms(1,3) sr]
  obtain q where q: "q \<in> cls sr" "fold_chain tb sr tr (SimpleFold tb sr) = Some q"
    using fold_chain_returns [OF assms(1,3,4) D(3)] by blast
  have "q = tr" if "tr \<in> cls sr"
    using fold_chain_reaches [OF assms(1,3) that D(3)] D(4) [OF that assms(5)] q(2) by simp
  then show ?thesis using False q by (auto simp: fold_ordered_def)
qed

lemma fold_match_class:
  assumes "fold_classes tb cls" and "ascii_classes cls" and "unat sr < 2 ^ 31" and "unat tr < 2 ^ 31"
  shows "fold_match tb sr tr = Some (tr \<in> cls sr)"
proof -
  have self: "sr \<in> cls sr" "tr \<in> cls tr" using assms(1,3,4) by (blast intro: fold_class_self)+
  have sym: "sr \<in> cls tr \<longleftrightarrow> tr \<in> cls sr"
    using fold_classesD(2) [OF assms(1,3), of tr] fold_classesD(2) [OF assms(1,4), of sr] self by auto
  show ?thesis
    using fold_ordered_class [OF assms(1,2,3,4)] fold_ordered_class [OF assms(1,2,4,3)] self sym
      rune_less [OF assms(4,3)]
    by (auto simp: fold_match_def)
qed

lemma runes_Cons: "s \<noteq> [] \<Longrightarrow> DecodeRune s = (r, n) \<Longrightarrow> runes s = r # runes (drop n s)"
  by (subst runes.simps) simp

lemma rune_small: "s \<noteq> [] \<Longrightarrow> DecodeRune s = (r, n) \<Longrightarrow> unat r < 2 ^ 31"
  using chunk_rune_small [OF chunk_ok_head [OF chunks_Cons]] by fastforce

lemma runes_Nil_iff: "runes s = [] \<longleftrightarrow> s = []"
  by (subst runes.simps) simp

lemma EqualFold_classes:
  assumes "fold_classes tb cls" and "ascii_classes cls"
  shows "EqualFold tb s t = Some (list_all2 (\<lambda>a b. b \<in> cls a) (runes s) (runes t))"
proof (induction "length s" arbitrary: s t rule: less_induct)
  case less
  show ?case
  proof (cases "s \<noteq> [] \<and> t \<noteq> []")
    case True
    obtain a m where a: "DecodeRune s = (a, m)" by fastforce
    obtain b n where b: "DecodeRune t = (b, n)" by fastforce
    have "1 \<le> m" using DecodeRune_size [of s] True a by simp
    then have IH: "EqualFold tb (drop m s) (drop n t) = Some (list_all2 (\<lambda>a b. b \<in> cls a) (runes (drop m s)) (runes (drop n t)))"
      using True by (intro less.hyps) simp
    have "fold_match tb a b = Some (b \<in> cls a)"
      using fold_match_class [OF assms] rune_small [of s a m] rune_small [of t b n] True a b by blast
    then show ?thesis using True a b IH
      by (subst EqualFold.simps) (simp add: next_rune_eq runes_Cons)
  next
    case False
    then show ?thesis
      by (subst EqualFold.simps) (auto simp: runes.simps [of "[]"] runes_Nil_iff)
  qed
qed

lemma bytes_EqualFold_eq: "bytes_EqualFold tb s t = EqualFold tb s t"
proof (induction tb s t rule: bytes_EqualFold.induct)
  case (1 tb s t)
  then show ?case
    by (subst bytes_EqualFold.simps, subst EqualFold.simps) (auto split: prod.splits option.splits)
qed

section \<open>Tables for an example\<close>

text \<open>The orbit of \<open>K\<close>, \<open>k\<close> and the Kelvin sign from \<open>caseOrbit\<close>; the other letters of ASCII need no table.\<close>

definition empty_table :: RangeTable where
  "empty_table = \<lparr>R16 = [], R32 = [], LatinOffset = 0\<rparr>"

definition kelvin_tables :: unicode_tables where
  "kelvin_tables =
    \<lparr>Upper = empty_table, Lower = empty_table, Title_table = empty_table, Letter = empty_table, Digit = empty_table,
     Mark = empty_table, Number = empty_table, Punct = empty_table, Symbol = empty_table, Zs = empty_table,
     CaseRanges = [], properties = (\<lambda>_. 0),
     caseOrbit =
       [\<lparr>fold_from = 0x004B, fold_to = 0x006B\<rparr>,
        \<lparr>fold_from = 0x006B, fold_to = 0x212A\<rparr>,
        \<lparr>fold_from = 0x212A, fold_to = 0x004B\<rparr>]\<rparr>"

definition kelvin_class :: "rune \<Rightarrow> rune set" where
  "kelvin_class r =
    (if r \<in> {0x4B, 0x6B, 0x212A} then {0x4B, 0x6B, 0x212A}
     else if 0x41 \<le> r \<and> r \<le> 0x5A then {r, r + 0x20}
     else if 0x61 \<le> r \<and> r \<le> 0x7A then {r - 0x20, r}
     else {r})"

lemma kelvin_orbit:
  assumes "unat r < 2 ^ 31"
  shows "orbit_search (caseOrbit kelvin_tables) r 0 3 =
    (if 0x212A < r then 3 else if 0x6B < r then 2 else if 0x4B < r then 1 else 0)"
  using assms
  by (auto simp: orbit_search.simps kelvin_tables_def rune_less word_less_nat_alt)

lemma kelvin_case:
  assumes "unat r < 2 ^ 31"
  shows "ToLower kelvin_tables r = (if 0x41 \<le> r \<and> r \<le> 0x5A then r + 0x20 else r)"
    "ToUpper kelvin_tables r = (if 0x61 \<le> r \<and> r \<le> 0x7A then r - 0x20 else r)"
proof -
  have "To kelvin_tables c r = r" if "0 \<le> c" "c < MaxCase" for c
    using that by (simp add: To_def to_def kelvin_tables_def binary_search.simps)
  then have "To kelvin_tables LowerCase r = r" "To kelvin_tables UpperCase r = r" by (simp_all add: unicode_consts)
  then show "ToLower kelvin_tables r = (if 0x41 \<le> r \<and> r \<le> 0x5A then r + 0x20 else r)"
    "ToUpper kelvin_tables r = (if 0x61 \<le> r \<and> r \<le> 0x7A then r - 0x20 else r)"
    using assms by (auto simp: ToLower_def ToUpper_def MaxASCII_def sle_small word_le_nat_alt)
qed

lemma kelvin_SimpleFold:
  assumes "unat r < 2 ^ 31"
  shows "SimpleFold kelvin_tables r =
    (if r = 0x4B then 0x6B else if r = 0x6B then 0x212A else if r = 0x212A then 0x4B
     else if 0x41 \<le> r \<and> r \<le> 0x5A then r + 0x20
     else if 0x61 \<le> r \<and> r \<le> 0x7A then r - 0x20
     else r)"
proof -
  have len: "length (caseOrbit kelvin_tables) = 3" by (simp add: kelvin_tables_def)
  show ?thesis
  proof (cases "r \<in> {0x4B, 0x6B, 0x212A}")
    case True
    have "SimpleFold kelvin_tables 0x4B = 0x6B" "SimpleFold kelvin_tables 0x6B = 0x212A"
      "SimpleFold kelvin_tables 0x212A = 0x4B"
      by code_simp+
    then show ?thesis using True by auto
  next
    case False
    have "ucast (fold_from (caseOrbit kelvin_tables ! i)) \<noteq> r" if "i < 3" for i
      using False that by (auto simp: kelvin_tables_def less_Suc_eq numeral_3_eq_3)
    then have "SimpleFold kelvin_tables r =
        (if ToLower kelvin_tables r \<noteq> r then ToLower kelvin_tables r else ToUpper kelvin_tables r)"
      using kelvin_orbit [OF assms] by (simp add: SimpleFold_def len Let_def)
    moreover have "r + 0x20 \<noteq> r" by simp
    ultimately show ?thesis using False unfolding kelvin_case [OF assms] by auto
  qed
qed

lemma kelvin_classes: "fold_classes kelvin_tables kelvin_class"
  unfolding fold_classes_def
proof (intro allI impI)
  fix r :: rune
  assume r: "unat r < 2 ^ 31"
  consider "r \<in> {0x4B, 0x6B, 0x212A}" | "r \<notin> {0x4B, 0x6B, 0x212A}" "0x41 \<le> r" "r \<le> 0x5A"
    | "r \<notin> {0x4B, 0x6B, 0x212A}" "0x61 \<le> r" "r \<le> 0x7A"
    | "r \<notin> {0x4B, 0x6B, 0x212A}" "\<not> (0x41 \<le> r \<and> r \<le> 0x5A)" "\<not> (0x61 \<le> r \<and> r \<le> 0x7A)" by blast
  then show "r \<in> kelvin_class r \<and> (\<forall>q \<in> kelvin_class r. unat q < 2 ^ 31 \<and> kelvin_class q = kelvin_class r)
     \<and> SimpleFold kelvin_tables r \<in> kelvin_class r
     \<and> (if \<exists>q \<in> kelvin_class r. r < q
        then r < SimpleFold kelvin_tables r \<and> (\<forall>q \<in> kelvin_class r. r < q \<longrightarrow> SimpleFold kelvin_tables r \<le> q)
        else \<forall>q \<in> kelvin_class r. SimpleFold kelvin_tables r \<le> q)"
  proof cases
    case 1
    then show ?thesis unfolding kelvin_SimpleFold [OF r] by (elim insertE emptyE) (simp_all add: kelvin_class_def)
  next
    case 2
    then have u: "unat (r + 0x20) = unat r + 0x20" "unat r \<ge> 0x41" "unat r \<le> 0x5A"
      by (auto simp: word_le_nat_alt unat_word_ariths)
    then have q: "r + 0x20 \<notin> {0x4B, 0x6B, 0x212A}" "0x61 \<le> r + 0x20" "r + 0x20 \<le> 0x7A" "\<not> r + 0x20 \<le> 0x5A" "r < r + 0x20"
      using 2(1) by (auto simp: word_le_nat_alt word_less_nat_alt word_unat_eq_iff)
    have "kelvin_class r = {r, r + 0x20}" "kelvin_class (r + 0x20) = {r, r + 0x20}"
      using 2 q by (simp_all add: kelvin_class_def)
    moreover have "SimpleFold kelvin_tables r = r + 0x20" using 2 by (simp add: kelvin_SimpleFold [OF r])
    ultimately show ?thesis using u q(5) r by simp
  next
    case 3
    then have u: "unat (r - 0x20) = unat r - 0x20" "unat r \<ge> 0x61" "unat r \<le> 0x7A"
      by (auto simp: word_le_nat_alt unat_sub)
    then have q: "r - 0x20 \<notin> {0x4B, 0x6B, 0x212A}" "0x41 \<le> r - 0x20" "r - 0x20 \<le> 0x5A" "\<not> r \<le> 0x5A" "r - 0x20 < r"
      using 3(1) by (auto simp: word_le_nat_alt word_less_nat_alt word_unat_eq_iff)
    have "kelvin_class r = {r - 0x20, r}" "kelvin_class (r - 0x20) = {r - 0x20, r}"
      using 3 q by (simp_all add: kelvin_class_def)
    moreover have "SimpleFold kelvin_tables r = r - 0x20" using 3 q(4) by (simp add: kelvin_SimpleFold [OF r])
    ultimately show ?thesis using u q(5) r by (simp add: not_less less_imp_le)
  next
    case 4
    then have "kelvin_class r = {r}" unfolding kelvin_class_def by auto
    moreover have "SimpleFold kelvin_tables r = r" unfolding kelvin_SimpleFold [OF r] using 4 by auto
    ultimately show ?thesis using r by simp
  qed
qed

lemma kelvin_ascii: "ascii_classes kelvin_class"
  unfolding ascii_classes_def
proof (intro allI impI)
  fix sr tr :: rune
  assume a: "0x41 \<le> sr \<and> sr \<le> 0x5A \<and> tr < 0x80"
  have "sr \<noteq> 0x6B" "sr \<noteq> 0x212A" "tr \<noteq> 0x212A" using a by (auto simp: word_le_nat_alt word_less_nat_alt)
  then show "tr \<in> kelvin_class sr \<longleftrightarrow> tr = sr \<or> tr = sr + 0x20"
    using a by (cases "sr = 0x4B") (simp_all add: kelvin_class_def)
qed

section \<open>Theorem\<close>

text \<open>C40: With tables for which \<open>SimpleFold\<close> keeps its documented promise, \<open>EqualFold\<close> of both packages returns for all
  strings, and reports whether the strings have as many runes and each rune of one is equivalent to its counterpart
  in the other: the walk through the chain of equivalent runes ends and finds every equivalent rune, from
  whichever string it starts.\<close>
theorem EqualFold_equivalence:
  assumes "fold_classes tb cls" and "ascii_classes cls"
  shows "EqualFold tb s t = Some (list_all2 (\<lambda>a b. b \<in> cls a) (runes s) (runes t))
    \<and> bytes_EqualFold tb s t = EqualFold tb s t"
  using EqualFold_classes [OF assms] bytes_EqualFold_eq by blast

theorem EqualFold_equivalence_witness:
  "EqualFold kelvin_tables [0x6B, 0x61] [0xE2, 0x84, 0xAA, 0x41] = Some True
   \<and> bytes_EqualFold kelvin_tables [0x6B, 0x61] [0xE2, 0x84, 0xAA, 0x42] = Some False"
proof -
  have "range_string [0x6B, 0x61] 0 = [(0, 0x6B), (1, 0x61)]"
    "range_string [0xE2, 0x84, 0xAA, 0x41] 0 = [(0, 0x212A), (3, 0x41)]"
    "range_string [0xE2, 0x84, 0xAA, 0x42] 0 = [(0, 0x212A), (3, 0x42)]"
    by code_simp+
  then have "runes [0x6B, 0x61] = [0x6B, 0x61]" "runes [0xE2, 0x84, 0xAA, 0x41] = [0x212A, 0x41]"
    "runes [0xE2, 0x84, 0xAA, 0x42] = [0x212A, 0x42]"
    using runes_range_string [of "[0x6B, 0x61]" 0] runes_range_string [of "[0xE2, 0x84, 0xAA, 0x41]" 0]
      runes_range_string [of "[0xE2, 0x84, 0xAA, 0x42]" 0] by simp_all
  then show ?thesis
    using EqualFold_equivalence [OF kelvin_classes kelvin_ascii, of "[0x6B, 0x61]" "[0xE2, 0x84, 0xAA, 0x41]"]
      EqualFold_equivalence [OF kelvin_classes kelvin_ascii, of "[0x6B, 0x61]" "[0xE2, 0x84, 0xAA, 0x42]"]
    by (simp add: kelvin_class_def)
qed

end
