(* ===== verification/Strconv.thy ===== *)
theory Strconv
  imports Prelude
begin

text \<open>
  Package \<open>strconv\<close>: integers and booleans to strings and back (\<open>itoa.go\<close>, \<open>atoi.go\<close>, \<open>atob.go\<close>).
  A \<open>uint64\<close> or \<open>int64\<close> is a 64-bit word, a string a list of bytes. \<open>formatBits\<close> writes the digits from
  the end of an array of 65 bytes; its index is an integer and an index outside the array panics, so
  that the array is large enough is a theorem.
\<close>

section \<open>Definitions: formatting\<close>

definition digits :: "u8 list" where
  "digits = [0x30, 0x31, 0x32, 0x33, 0x34, 0x35, 0x36, 0x37, 0x38, 0x39,
    0x61, 0x62, 0x63, 0x64, 0x65, 0x66, 0x67, 0x68, 0x69, 0x6A, 0x6B, 0x6C, 0x6D, 0x6E, 0x6F, 0x70,
    0x71, 0x72, 0x73, 0x74, 0x75, 0x76, 0x77, 0x78, 0x79, 0x7A]"

text \<open>The last and the first digit of the numbers from 0 to 99, as two strings of 100 bytes.\<close>

definition digits01 :: "u8 list" where
  "digits01 = concat (replicate 10 (take 10 digits))"

definition digits10 :: "u8 list" where
  "digits10 = concat (map (replicate 10) (take 10 digits))"

definition shifts :: "int \<Rightarrow> nat" where
  "shifts base = (if base = 2 then 1 else if base = 4 then 2 else if base = 8 then 3
    else if base = 16 then 4 else if base = 32 then 5 else 0)"

text \<open>\<open>a[i] = v\<close> for an \<open>int\<close> index, and \<open>t[j]\<close> for a table.\<close>

definition store :: "u8 list \<Rightarrow> int \<Rightarrow> u8 \<Rightarrow> u8 list go" where
  "store a i v = (if i < 0 then Inl PanicIndex else go_set a (nat i) v)"

function format10_loop :: "u8 list \<Rightarrow> int \<Rightarrow> u64 \<Rightarrow> (u8 list \<times> int \<times> u64) go" where
  "format10_loop a i u =
    (if u \<ge> 100 then
       let i = i - 2; q = u div 100; j = unat (u - q * 100) in
       go_bind (go_get digits01 j) (\<lambda>d1. go_bind (store a (i + 1) d1) (\<lambda>a.
       go_bind (go_get digits10 j) (\<lambda>d0. go_bind (store a (i + 0) d0) (\<lambda>a. format10_loop a i q))))
     else Inr (a, i, u))"
  by pat_completeness auto
termination
  by (relation "measure (\<lambda>(a, i, u). unat u)")
    (auto simp: word_le_nat_alt unat_div intro!: div_less_dividend)

text \<open>
  The source's loop condition is \<open>u >= b\<close>. Its callers pass a base \<open>b\<close> of at least 2 and, in the shift
  loop, its positive logarithm \<open>s\<close>; the further conditions below then always hold and only make the
  loops total for other arguments.
\<close>

function formatShift_loop :: "u64 \<Rightarrow> nat \<Rightarrow> u8 list \<Rightarrow> int \<Rightarrow> u64 \<Rightarrow> (u8 list \<times> int \<times> u64) go" where
  "formatShift_loop b s a i u =
    (if u \<ge> b \<and> s > 0 \<and> u \<noteq> 0 then
       let m = (ucast b :: u32) - 1; i = i - 1 in
       go_bind (go_get digits (unat (ucast u AND m))) (\<lambda>d. go_bind (store a i d) (\<lambda>a.
       formatShift_loop b s a i (drop_bit s u)))
     else Inr (a, i, u))"
  by pat_completeness auto
termination
proof (relation "measure (\<lambda>(b, s, a, i, u). unat u)", goal_cases)
  case (2 b s a i u x xa xb xc)
  then have "u \<noteq> 0" "1 < (2 :: nat) ^ s" using one_less_power [of "2 :: nat" s] by auto
  then show ?case by (simp add: unat_shr unat_gt_0)
qed simp

function formatDiv_loop :: "u64 \<Rightarrow> u8 list \<Rightarrow> int \<Rightarrow> u64 \<Rightarrow> (u8 list \<times> int \<times> u64) go" where
  "formatDiv_loop b a i u =
    (if u \<ge> b \<and> b > 1 then
       let i = i - 1 in
       go_bind (go_get digits (unat (u mod b))) (\<lambda>d. go_bind (store a i d) (\<lambda>a. formatDiv_loop b a i (u div b)))
     else Inr (a, i, u))"
  by pat_completeness auto
termination
  by (relation "measure (\<lambda>(b, a, i, u). unat u)")
    (auto simp: word_le_nat_alt word_less_nat_alt unat_div intro!: div_less_dividend)

declare format10_loop.simps [simp del] formatShift_loop.simps [simp del] formatDiv_loop.simps [simp del]

definition convert_bits :: "int \<Rightarrow> u8 list \<Rightarrow> int \<Rightarrow> u64 \<Rightarrow> (u8 list \<times> int \<times> u64) go" where
  "convert_bits base a i u =
    (if base = 10 then
       go_bind (format10_loop a i u) (\<lambda>(a, i, u).
         if u \<ge> 10 then
           let i = i - 1; q = u div 10 in
           go_bind (go_get digits (unat (u - q * 10))) (\<lambda>d. go_bind (store a i d) (\<lambda>a. Inr (a, i, q)))
         else Inr (a, i, u))
     else if shifts base > 0 then formatShift_loop (word_of_int base) (shifts base) a i u
     else formatDiv_loop (word_of_int base) a i u)"

definition formatBits :: "u8 list \<Rightarrow> u64 \<Rightarrow> int \<Rightarrow> bool \<Rightarrow> bool \<Rightarrow> (u8 list \<times> u8 list) go" where
  "formatBits dst u base neg app =
    (if base < 2 \<or> base > int (length digits) then Inl (PanicMsg ''strconv: illegal AppendInt/FormatInt base'') else
     let a = replicate 65 0; i = 65; u = (if neg then - u else u) in
     go_bind (convert_bits base a i u) (\<lambda>(a, i, u).
     let i = i - 1 in
     go_bind (go_get digits (unat u)) (\<lambda>d. go_bind (store a i d) (\<lambda>a.
     go_bind (if neg then let i = i - 1 in go_bind (store a i 0x2D) (\<lambda>a. Inr (a, i)) else Inr (a, i)) (\<lambda>(a, i).
     if app then Inr (dst @ drop (nat i) a, []) else Inr ([], drop (nat i) a))))))"

definition FormatUint :: "u64 \<Rightarrow> int \<Rightarrow> u8 list go" where
  "FormatUint i base = go_bind (formatBits [] i base False False) (\<lambda>(_, s). Inr s)"

definition FormatInt :: "u64 \<Rightarrow> int \<Rightarrow> u8 list go" where
  "FormatInt i base = go_bind (formatBits [] i base (i <s 0) False) (\<lambda>(_, s). Inr s)"

definition Itoa :: "u32 \<Rightarrow> u8 list go" where
  "Itoa i = FormatInt (scast i) 10"

definition AppendInt :: "u8 list \<Rightarrow> u64 \<Rightarrow> int \<Rightarrow> u8 list go" where
  "AppendInt dst i base = go_bind (formatBits dst i base (i <s 0) True) (\<lambda>(dst, _). Inr dst)"

definition AppendUint :: "u8 list \<Rightarrow> u64 \<Rightarrow> int \<Rightarrow> u8 list go" where
  "AppendUint dst i base = go_bind (formatBits dst i base False True) (\<lambda>(dst, _). Inr dst)"

section \<open>Definitions: parsing\<close>

datatype num_err = ErrRange | ErrSyntax | ErrBase int

record num_error =
  Func :: string
  Num :: "u8 list"
  Err :: num_err

definition syntaxError :: "string \<Rightarrow> u8 list \<Rightarrow> num_error" where
  "syntaxError fn str = \<lparr>Func = fn, Num = str, Err = ErrSyntax\<rparr>"

definition rangeError :: "string \<Rightarrow> u8 list \<Rightarrow> num_error" where
  "rangeError fn str = \<lparr>Func = fn, Num = str, Err = ErrRange\<rparr>"

text \<open>\<open>int\<close> has 32 bits on the mips32 ports.\<close>

definition IntSize :: int where "IntSize = 32"

definition cutoff64 :: "int \<Rightarrow> u64" where
  "cutoff64 base = (if base < 2 then 0 else (- 1) div word_of_int base + 1)"

text \<open>\<open>1 << uint(k)\<close> for an \<open>int\<close> \<open>k\<close>: the shift count is read as a 32-bit unsigned number.\<close>

definition shl1 :: "int \<Rightarrow> u64" where
  "shl1 k = push_bit (unat (word_of_int k :: u32)) 1"

definition digit_val :: "u8 \<Rightarrow> u8 option" where
  "digit_val d =
    (if 0x30 \<le> d \<and> d \<le> 0x39 then Some (d - 0x30)
     else if 0x61 \<le> d \<and> d \<le> 0x7A then Some (d - 0x61 + 10)
     else if 0x41 \<le> d \<and> d \<le> 0x5A then Some (d - 0x41 + 10)
     else None)"

fun ParseUint_loop :: "int \<Rightarrow> u64 \<Rightarrow> u64 \<Rightarrow> u64 \<Rightarrow> u8 list \<Rightarrow> u64 \<times> num_err option" where
  "ParseUint_loop base cutoff maxVal n [] = (n, None)"
| "ParseUint_loop base cutoff maxVal n (d # s) =
    (case digit_val d of None \<Rightarrow> (0, Some ErrSyntax)
     | Some v \<Rightarrow>
       if int (unat v) \<ge> base then (0, Some ErrSyntax)
       else if n \<ge> cutoff then (- 1, Some ErrRange)
       else let n = n * word_of_int base; n1 = n + ucast v in
         if n1 < n \<or> n1 > maxVal then (- 1, Some ErrRange)
         else ParseUint_loop base cutoff maxVal n1 s)"

text \<open>The choice of the base and the prefix: the base, the rest of the string, or the error.\<close>

definition parse_base :: "u8 list \<Rightarrow> int \<Rightarrow> num_err + (int \<times> u8 list)" where
  "parse_base s base =
    (if length s < 1 then Inl ErrSyntax
     else if 2 \<le> base \<and> base \<le> 36 then Inr (base, s)
     else if base = 0 then
       if s ! 0 = 0x30 \<and> length s > 1 \<and> (s ! 1 = 0x78 \<or> s ! 1 = 0x58) then
         let s = drop 2 s in if length s < 1 then Inl ErrSyntax else Inr (16, s)
       else if s ! 0 = 0x30 then Inr (8, s)
       else Inr (10, s)
     else Inl (ErrBase base))"

definition ParseUint :: "u8 list \<Rightarrow> int \<Rightarrow> int \<Rightarrow> u64 \<times> num_error option" where
  "ParseUint s base bitSize =
    (let bitSize = (if bitSize = 0 then IntSize else bitSize); s0 = s in
     case parse_base s base of
       Inl err \<Rightarrow> (0, Some \<lparr>Func = ''ParseUint'', Num = s0, Err = err\<rparr>)
     | Inr (base, s) \<Rightarrow>
       (case ParseUint_loop base (cutoff64 base) (shl1 bitSize - 1) 0 s of
          (n, None) \<Rightarrow> (n, None)
        | (n, Some err) \<Rightarrow> (n, Some \<lparr>Func = ''ParseUint'', Num = s0, Err = err\<rparr>)))"

definition ParseInt :: "u8 list \<Rightarrow> int \<Rightarrow> int \<Rightarrow> u64 \<times> num_error option" where
  "ParseInt s base bitSize =
    (let bitSize = (if bitSize = 0 then IntSize else bitSize) in
     if length s = 0 then (0, Some (syntaxError ''ParseInt'' s)) else
     let s0 = s;
         (neg, s) = (if s ! 0 = 0x2B then (False, drop 1 s) else if s ! 0 = 0x2D then (True, drop 1 s) else (False, s));
         (un, err) = ParseUint s base bitSize in
     if err \<noteq> None \<and> Err (the err) \<noteq> ErrRange
     then (0, Some ((the err)\<lparr>Func := ''ParseInt'', Num := s0\<rparr>))
     else
       let cutoff = shl1 (bitSize - 1) in
       if \<not> neg \<and> un \<ge> cutoff then (cutoff - 1, Some (rangeError ''ParseInt'' s0))
       else if neg \<and> un > cutoff then (- cutoff, Some (rangeError ''ParseInt'' s0))
       else (if neg then - un else un, None))"

definition Atoi :: "u8 list \<Rightarrow> u32 \<times> num_error option" where
  "Atoi s = (case ParseInt s 10 0 of (i64, err) \<Rightarrow> (ucast i64, err))"

section \<open>Definitions: booleans\<close>

text \<open>The accepted spellings: 1 t T true TRUE True and 0 f F false FALSE False.\<close>

definition ascii :: "string \<Rightarrow> u8 list" where
  "ascii s = map (\<lambda>c. of_nat (of_char c)) s"

definition ParseBool :: "u8 list \<Rightarrow> bool \<times> num_error option" where
  "ParseBool str =
    (if str \<in> ascii ` {''1'', ''t'', ''T'', ''true'', ''TRUE'', ''True''} then (True, None)
     else if str \<in> ascii ` {''0'', ''f'', ''F'', ''false'', ''FALSE'', ''False''} then (False, None)
     else (False, Some (syntaxError ''ParseBool'' str)))"

definition FormatBool :: "bool \<Rightarrow> u8 list" where
  "FormatBool b = (if b then ascii ''true'' else ascii ''false'')"

definition AppendBool :: "u8 list \<Rightarrow> bool \<Rightarrow> u8 list" where
  "AppendBool dst b = (if b then dst @ ascii ''true'' else dst @ ascii ''false'')"

section \<open>The digits of a number\<close>

text \<open>The reference: the digits of a number, the most significant one first.\<close>

fun digs :: "nat \<Rightarrow> nat \<Rightarrow> u8 list" where
  "digs b n = (if n < b \<or> b < 2 then [digits ! n] else digs b (n div b) @ [digits ! (n mod b)])"

declare digs.simps [simp del]

lemma digs_small: "n < b \<Longrightarrow> digs b n = [digits ! n]"
  by (simp add: digs.simps)

lemma digs_step: "b \<le> n \<Longrightarrow> 2 \<le> b \<Longrightarrow> digs b n = digs b (n div b) @ [digits ! (n mod b)]"
  by (subst digs.simps) simp

lemma digs_not_Nil [simp]: "digs b n \<noteq> []"
  by (subst digs.simps) simp

lemma length_digs: "n < 2 ^ k \<Longrightarrow> 0 < k \<Longrightarrow> 2 \<le> b \<Longrightarrow> length (digs b n) \<le> k"
proof (induction k arbitrary: n)
  case (Suc k)
  show ?case
  proof (cases "n < b")
    case False
    then have k: "0 < k" using Suc.prems by (cases k) auto
    have "n div b \<le> n div 2" using Suc.prems(3) by (simp add: div_le_mono2)
    also have "\<dots> < 2 ^ k" using Suc.prems(1) by simp
    finally show ?thesis using Suc.IH [of "n div b"] k Suc.prems(3) False by (simp add: digs_step)
  qed (simp add: digs_small)
qed simp

lemma length_digits [simp]: "length digits = 36"
  by (simp add: digits_def)

lemma digits_pairs:
  assumes "j < 100"
  shows "go_get digits01 j = Inr (digits ! (j mod 10))" "go_get digits10 j = Inr (digits ! (j div 10))"
proof -
  have "\<forall>j\<in>set [0..<100]. go_get digits01 j = Inr (digits ! (j mod 10)) \<and> go_get digits10 j = Inr (digits ! (j div 10))"
    by code_simp
  then show "go_get digits01 j = Inr (digits ! (j mod 10))" "go_get digits10 j = Inr (digits ! (j div 10))"
    using assms by simp_all
qed

section \<open>Formatting\<close>

text \<open>
  What every loop of \<open>formatBits\<close> keeps: the digits of the rest \<open>u\<close> followed by the bytes already written
  are the text to print, and there is room for the digits and a sign.
\<close>

fun printing :: "nat \<Rightarrow> u8 list \<Rightarrow> u8 list \<times> int \<times> u64 \<Rightarrow> bool" where
  "printing b tx (a, i, u) \<longleftrightarrow> length a = 65 \<and> int (length (digs b (unat u))) < i \<and> i \<le> 65 \<and>
     digs b (unat u) @ drop (nat i) a = tx"

lemma store_in_range:
  assumes "0 < i" "i \<le> int (length a)"
  obtains a' where "store a (i - 1) d = Inr a'" "length a' = length a" "drop (nat (i - 1)) a' = d # drop (nat i) a"
proof -
  have n: "nat (i - 1) < length a" "nat i = Suc (nat (i - 1))" using assms by simp_all
  show ?thesis
  proof (rule that)
    show "store a (i - 1) d = Inr (a[nat (i - 1) := d])" using assms n by (simp add: store_def go_set_def)
    show "drop (nat (i - 1)) (a[nat (i - 1) := d]) = d # drop (nat i) a"
      using n by (simp add: Cons_nth_drop_Suc [symmetric])
  qed simp
qed

lemma printing_step:
  assumes "printing b tx (a, i, u)" "b \<le> unat u" "2 \<le> b"
    and "d = digits ! (unat u mod b)" "unat u' = unat u div b"
  obtains a' where "store a (i - 1) d = Inr a'" "printing b tx (a', i - 1, u')"
proof -
  have i: "0 < i" "i \<le> int (length a)" using assms(1) by simp_all
  obtain a' where "store a (i - 1) d = Inr a'" "length a' = length a" "drop (nat (i - 1)) a' = d # drop (nat i) a"
    by (rule store_in_range [OF i])
  then show ?thesis using assms by (intro that [of a']) (simp_all add: digs_step)
qed

definition printed :: "nat \<Rightarrow> u8 list \<Rightarrow> (u8 list \<times> int \<times> u64) go \<Rightarrow> bool" where
  "printed b tx r \<longleftrightarrow> (\<exists>a i u. r = Inr (a, i, u) \<and> printing b tx (a, i, u) \<and> unat u < b)"

lemma formatDiv_loop_prints:
  "printing (unat b) tx (a, i, u) \<Longrightarrow> 2 \<le> unat b \<Longrightarrow> unat b \<le> 36 \<Longrightarrow> printed (unat b) tx (formatDiv_loop b a i u)"
proof (induction b a i u rule: formatDiv_loop.induct)
  case (1 b a i u)
  show ?case
  proof (cases "unat b \<le> unat u")
    case True
    then have g: "b \<le> u \<and> 1 < b" using "1.prems" by (simp add: word_le_nat_alt word_less_nat_alt)
    have d: "go_get digits (unat (u mod b)) = Inr (digits ! (unat u mod unat b))"
      using "1.prems"(2,3) less_le_trans [OF mod_less_divisor, of "unat b" "36" "unat u"]
      by (simp add: go_get_def unat_mod)
    obtain a' where a': "store a (i - 1) (digits ! (unat u mod unat b)) = Inr a'"
        "printing (unat b) tx (a', i - 1, u div b)"
      using printing_step [OF "1.prems"(1) True "1.prems"(2) refl, of "u div b"] by (auto simp: unat_div)
    then have "printed (unat b) tx (formatDiv_loop b a' (i - 1) (u div b))"
      using "1.IH" [OF g refl] "1.prems" by blast
    then show ?thesis using g d a' by (subst formatDiv_loop.simps) simp
  next
    case False
    then show ?thesis using "1.prems"
      by (subst formatDiv_loop.simps) (simp add: printed_def word_le_nat_alt del: printing.simps)
  qed
qed

lemma formatShift_loop_prints:
  "printing (2 ^ s) tx (a, i, u) \<Longrightarrow> unat b = 2 ^ s \<Longrightarrow> 0 < s \<Longrightarrow> s \<le> 5 \<Longrightarrow> printed (2 ^ s) tx (formatShift_loop b s a i u)"
proof (induction b s a i u rule: formatShift_loop.induct)
  case (1 b s a i u)
  have "b = of_nat (unat b)" by simp
  then have b: "b = 2 ^ s" by (simp only: "1.prems"(2) of_nat_power of_nat_numeral)
  have s2: "2 \<le> (2 :: nat) ^ s" "(2 :: nat) ^ s \<le> 2 ^ 5"
    using "1.prems" power_increasing [of 1 s "2 :: nat"] power_increasing [of s 5 "2 :: nat"] by simp_all
  show ?case
  proof (cases "2 ^ s \<le> unat u")
    case True
    then have g: "b \<le> u \<and> 0 < s \<and> u \<noteq> 0" using "1.prems" s2 by (auto simp: word_le_nat_alt)
    have "(ucast b :: u32) - 1 = mask s"
      unfolding b mask_eq_decr_exp
      by (rule arg_cong [of _ _ "\<lambda>x. x - 1"], rule bit_word_eqI) (use "1.prems"(4) in \<open>auto simp: bit_simps\<close>)
    then have "unat (ucast u AND (ucast b - 1 :: u32)) = unat (ucast u :: u32) mod 2 ^ s"
      by (simp only: unat_and_mask)
    also have "\<dots> = unat u mod 2 ^ s"
      using "1.prems"(4) by (simp add: unsigned_ucast_eq take_bit_eq_mod mod_mod_cancel le_imp_power_dvd flip: power_numeral)
    finally have j: "unat (ucast u AND (ucast b - 1 :: u32)) = unat u mod 2 ^ s" .
    have d: "go_get digits (unat (ucast u AND (ucast b - 1 :: u32))) = Inr (digits ! (unat u mod 2 ^ s))"
      unfolding j using s2 less_le_trans [OF mod_less_divisor, of "2 ^ s" 36 "unat u"] by (simp add: go_get_def)
    obtain a' where a': "store a (i - 1) (digits ! (unat u mod 2 ^ s)) = Inr a'"
        "printing (2 ^ s) tx (a', i - 1, drop_bit s u)"
      using printing_step [OF "1.prems"(1) True s2(1) refl, of "drop_bit s u"] by (auto simp: unat_shr)
    then have "printed (2 ^ s) tx (formatShift_loop b s a' (i - 1) (drop_bit s u))"
      using "1.IH" [OF g refl refl] "1.prems" by blast
    then show ?thesis using g d a' by (subst formatShift_loop.simps) simp
  next
    case False
    then show ?thesis using "1.prems"
      by (subst formatShift_loop.simps) (simp add: printed_def word_le_nat_alt del: printing.simps)
  qed
qed

lemma format10_step:
  assumes "printing 10 tx (a, i, u)" "100 \<le> unat u" "j = unat (u - u div 100 * 100)"
  obtains a1 a2 where "go_get digits01 j = Inr (digits ! (unat u mod 10))"
    "go_get digits10 j = Inr (digits ! (unat u div 10 mod 10))"
    "store a (i - 2 + 1) (digits ! (unat u mod 10)) = Inr a1"
    "store a1 (i - 2 + 0) (digits ! (unat u div 10 mod 10)) = Inr a2"
    "printing 10 tx (a2, i - 2, u div 100)"
proof -
  have "u - u div 100 * 100 = u mod 100" by (simp add: minus_div_mult_eq_mod)
  then have j: "j = unat u mod 100" using assms(3) by (simp add: unat_mod)
  have "unat u mod (10 * 10) = 10 * (unat u div 10 mod 10) + unat u mod 10" by (rule mod_mult2_eq)
  then have d: "j mod 10 = unat u mod 10" "j div 10 = unat u div 10 mod 10" "j < 100" by (simp_all add: j)
  have q: "unat (u div 10) = unat u div 10" "unat (u div 100) = unat (u div 10) div 10"
    by (simp_all add: unat_div div_mult2_eq [symmetric])
  obtain a1 where a1: "store a (i - 1) (digits ! (unat u mod 10)) = Inr a1" "printing 10 tx (a1, i - 1, u div 10)"
    using printing_step [OF assms(1) _ _ refl q(1)] assms(2) by auto
  obtain a2 where "store a1 (i - 1 - 1) (digits ! (unat u div 10 mod 10)) = Inr a2"
      "printing 10 tx (a2, i - 1 - 1, u div 100)"
    by (rule printing_step [OF a1(2) _ _ _ q(2), of "digits ! (unat u div 10 mod 10)"]) (use assms(2) q(1) in auto)
  with a1 show ?thesis using digits_pairs [OF d(3)] d by (intro that [of a1 a2]) (simp_all add: algebra_simps)
qed

lemma format10_loop_prints:
  "printing 10 tx (a, i, u) \<Longrightarrow>
    \<exists>a' i' u'. format10_loop a i u = Inr (a', i', u') \<and> printing 10 tx (a', i', u') \<and> unat u' < 100"
proof (induction a i u rule: format10_loop.induct)
  case (1 a i u)
  show ?case
  proof (cases "100 \<le> u")
    case True
    then have "100 \<le> unat u" by (simp add: word_le_nat_alt)
    from format10_step [OF "1.prems" this refl] obtain a1 a2 where
      w: "go_get digits01 (unat (u - u div 100 * 100)) = Inr (digits ! (unat u mod 10))"
        "go_get digits10 (unat (u - u div 100 * 100)) = Inr (digits ! (unat u div 10 mod 10))"
        "store a (i - 2 + 1) (digits ! (unat u mod 10)) = Inr a1"
        "store a1 (i - 2 + 0) (digits ! (unat u div 10 mod 10)) = Inr a2"
        "printing 10 tx (a2, i - 2, u div 100)" by metis
    from "1.IH" [OF True refl refl refl w(5)] show ?thesis
      by (subst format10_loop.simps) (simp only: True if_True Let_def w go_bind.simps)
  next
    case False
    then show ?thesis using "1.prems"
      by (subst format10_loop.simps) (simp add: word_le_nat_alt del: printing.simps)
  qed
qed

lemma format10_prints:
  assumes "printing 10 tx (a, i, u)"
  shows "printed 10 tx (convert_bits 10 a i u)"
proof -
  obtain a1 i1 u1 where l: "format10_loop a i u = Inr (a1, i1, u1)" "printing 10 tx (a1, i1, u1)" "unat u1 < 100"
    using format10_loop_prints [OF assms] by blast
  show ?thesis
  proof (cases "10 \<le> unat u1")
    case True
    have "u1 - u1 div 10 * 10 = u1 mod 10" by (simp add: minus_div_mult_eq_mod)
    then have d: "go_get digits (unat (u1 - u1 div 10 * 10)) = Inr (digits ! (unat u1 mod 10))"
      by (simp add: unat_mod go_get_def)
    have q: "unat (u1 div 10) = unat u1 div 10" by (simp add: unat_div)
    obtain a2 where "store a1 (i1 - 1) (digits ! (unat u1 mod 10)) = Inr a2" "printing 10 tx (a2, i1 - 1, u1 div 10)"
      using printing_step [OF l(2) True _ refl q] by auto
    then show ?thesis using True l(3) d
      by (simp add: convert_bits_def l(1) printed_def word_le_nat_alt unat_div Let_def del: printing.simps)
  next
    case False
    then show ?thesis using l by (simp add: convert_bits_def printed_def word_le_nat_alt del: printing.simps)
  qed
qed

lemma unat_base: "0 \<le> base \<Longrightarrow> base \<le> 36 \<Longrightarrow> unat (word_of_int base :: u64) = nat base"
  by (simp add: unsigned_of_int take_bit_int_eq_self nat_take_bit_eq)

lemma convert_bits_prints:
  assumes "2 \<le> base" "base \<le> 36" "printing (nat base) tx (a, i, u)"
  shows "printed (nat base) tx (convert_bits base a i u)"
proof -
  consider "base = 10" | "base \<noteq> 10" "shifts base > 0" | "base \<noteq> 10" "shifts base = 0" by blast
  then show ?thesis
  proof cases
    case 1
    then show ?thesis using assms format10_prints by (simp del: printing.simps)
  next
    case 2
    then have s: "nat base = 2 ^ shifts base" "shifts base \<le> 5" by (auto simp: shifts_def split: if_splits)
    have "printed (nat base) tx (formatShift_loop (word_of_int base) (shifts base) a i u)"
      using 2 s(2) assms formatShift_loop_prints [of "shifts base" tx a i u "word_of_int base"] unat_base [of base]
      unfolding s(1) [symmetric] by (simp del: printing.simps)
    then show ?thesis using 2 by (simp add: convert_bits_def)
  next
    case 3
    then show ?thesis using assms unat_base [of base] formatDiv_loop_prints [of "word_of_int base" tx a i u]
      by (simp add: convert_bits_def del: printing.simps)
  qed
qed

lemma formatBits_digits:
  assumes "2 \<le> base" "base \<le> 36" and "v = (if neg then - u else u)"
  shows "formatBits dst u base neg app =
    (let s = (if neg then [0x2D] else []) @ digs (nat base) (unat v) in
     Inr (if app then (dst @ s, []) else ([], s)))"
proof -
  have "length (digs (nat base) (unat v)) \<le> 64"
    using assms unat_lt2p [of v] by (intro length_digs) simp_all
  then have "printed (nat base) (digs (nat base) (unat v)) (convert_bits base (replicate 65 0) 65 v)"
    using assms by (intro convert_bits_prints) simp_all
  then obtain a i w where w: "convert_bits base (replicate 65 0) 65 v = Inr (a, i, w)"
      "printing (nat base) (digs (nat base) (unat v)) (a, i, w)" "unat w < nat base"
    by (auto simp: printed_def)
  then have i: "1 < i" "i \<le> int (length a)" and d: "digits ! unat w # drop (nat i) a = digs (nat base) (unat v)"
    by (simp_all add: digs_small)
  obtain a1 where a1: "store a (i - 1) (digits ! unat w) = Inr a1" "length a1 = length a"
      "drop (nat (i - 1)) a1 = digits ! unat w # drop (nat i) a"
    by (rule store_in_range [of i a]) (use i in auto)
  obtain a2 where a2: "store a1 (i - 1 - 1) 0x2D = Inr a2" "drop (nat (i - 1 - 1)) a2 = 0x2D # drop (nat (i - 1)) a1"
    by (rule store_in_range [of "i - 1" a1]) (use i a1 in auto)
  have g: "go_get digits (unat w) = Inr (digits ! unat w)" using w(3) assms by (simp add: go_get_def)
  show ?thesis
    unfolding formatBits_def Let_def assms(3) [symmetric] w(1) using a1 a2 g d assms(1,2) by simp
qed

lemma formatBits_int:
  assumes "2 \<le> base" "base \<le> 36"
  shows "formatBits dst i base (i <s 0) app =
    (let s = (if sint i < 0 then [0x2D] else []) @ digs (nat base) (nat \<bar>sint i\<bar>) in
     Inr (if app then (dst @ s, []) else ([], s)))"
  unfolding formatBits_digits [OF assms refl] unat_abs_sint by (simp add: word_sless_alt)

text \<open>C31: Formatting never writes outside its array of 65 bytes, for every value and every base from 2 to 36:
  the text is a minus sign for a negative number and the digits of its magnitude, and it has at most
  65 bytes. Every other base panics.
\<close>

theorem format_in_bounds:
  "FormatInt i base =
     (if 2 \<le> base \<and> base \<le> 36
      then Inr ((if sint i < 0 then [0x2D] else []) @ digs (nat base) (nat \<bar>sint i\<bar>))
      else Inl (PanicMsg ''strconv: illegal AppendInt/FormatInt base'')) \<and>
   (\<forall>s. FormatInt i base = Inr s \<longrightarrow> length s \<le> 65 \<and> AppendInt dst i base = Inr (dst @ s))"
proof (cases "2 \<le> base \<and> base \<le> 36")
  case True
  have "unat (if i <s 0 then - i else i) < 2 ^ 64" using unat_lt2p [of "if i <s 0 then - i else i"] by simp
  then have "length (digs (nat base) (nat \<bar>sint i\<bar>)) \<le> 64"
    unfolding unat_abs_sint using True by (intro length_digs) (auto simp: nat_le_iff)
  then show ?thesis using True by (auto simp: FormatInt_def AppendInt_def formatBits_int Let_def)
next
  case False
  then show ?thesis by (auto simp: FormatInt_def formatBits_def)
qed

theorem format_in_bounds_witness:
  "FormatInt (- 0x8000000000000000) 36 =
    Inr [0x2D, 0x31, 0x79, 0x32, 0x70, 0x30, 0x69, 0x6A, 0x33, 0x32, 0x65, 0x38, 0x65, 0x38]"
  using format_in_bounds [of "- 0x8000000000000000" 36 "[]"] by (simp add: digs.simps digits_def)

section \<open>Parsing\<close>

text \<open>
  The reference: the valid digits a text begins with, and the number they denote, without any bound.
\<close>

definition is_digit :: "nat \<Rightarrow> u8 \<Rightarrow> bool" where
  "is_digit b d = (case digit_val d of None \<Rightarrow> False | Some v \<Rightarrow> unat v < b)"

definition dval :: "u8 \<Rightarrow> nat" where
  "dval d = (case digit_val d of None \<Rightarrow> 0 | Some v \<Rightarrow> unat v)"

fun horner :: "nat \<Rightarrow> nat \<Rightarrow> u8 list \<Rightarrow> nat" where
  "horner b n [] = n"
| "horner b n (d # s) = horner b (n * b + dval d) s"

definition number_of :: "nat \<Rightarrow> u8 list \<Rightarrow> nat" where
  "number_of b s = horner b 0 s"

lemma horner_ge: "1 \<le> b \<Longrightarrow> n \<le> horner b n s"
proof (induction s arbitrary: n)
  case (Cons d s)
  have "n \<le> n * b + dval d" using Cons.prems by (simp add: trans_le_add1)
  also have "\<dots> \<le> horner b n (d # s)" using Cons by simp
  finally show ?case .
qed simp

lemma horner_append: "horner b n (s @ t) = horner b (horner b n s) t"
  by (induction s arbitrary: n) simp_all

lemma digits_values: "d < 36 \<Longrightarrow> digit_val (digits ! d) = Some (of_nat d)"
proof -
  have "\<forall>d\<in>set [0..<36]. digit_val (digits ! d) = Some (of_nat d)" by code_simp
  then show "d < 36 \<Longrightarrow> digit_val (digits ! d) = Some (of_nat d)" by simp
qed

lemma dval_digits: "d < 36 \<Longrightarrow> dval (digits ! d) = d"
  by (simp add: dval_def digits_values unsigned_of_nat take_bit_nat_eq_self)

lemma is_digit_digits: "d < b \<Longrightarrow> b \<le> 36 \<Longrightarrow> is_digit b (digits ! d)"
  by (simp add: is_digit_def digits_values unsigned_of_nat take_bit_nat_eq_self)

lemma digs_are_digits: "2 \<le> b \<Longrightarrow> b \<le> 36 \<Longrightarrow> list_all (is_digit b) (digs b n)"
  by (induction b n rule: digs.induct) (subst digs.simps, auto simp: is_digit_digits)

lemma number_of_digs: "2 \<le> b \<Longrightarrow> b \<le> 36 \<Longrightarrow> number_of b (digs b n) = n"
proof (induction b n rule: digs.induct)
  case (1 b n)
  have "n mod b < 36" if "b \<le> n" using 1(2,3) less_le_trans [OF mod_less_divisor, of b 36 n] by simp
  then show ?case using 1 by (subst digs.simps) (auto simp: number_of_def horner_append dval_digits)
qed

text \<open>The loop of \<open>ParseUint\<close> on words computes the reference, and stops at the first overflow.\<close>

lemma cutoff64_overflows:
  assumes "2 \<le> base" "base \<le> 36"
  shows "cutoff64 base \<le> n \<longleftrightarrow> 2 ^ 64 \<le> unat n * nat base"
proof -
  define b where "b = nat base"
  have b: "2 \<le> b" "b \<le> 36" using assms by (simp_all add: b_def nat_le_iff)
  have m: "unat (- 1 :: u64) = 2 ^ 64 - 1" by (simp add: unat_uminus)
  have "(2 ^ 64 - 1) div b < (2 ^ 64 - 1 :: nat)" using b by (intro div_less_dividend) simp_all
  then have "((2 ^ 64 - 1) div b + 1) mod 2 ^ 64 = (2 ^ 64 - 1) div b + 1" by (intro mod_less) linarith
  then have "unat (cutoff64 base) = (2 ^ 64 - 1) div b + 1"
    using assms unat_base [of base] m by (simp add: cutoff64_def unat_word_ariths unat_div b_def mod_Suc_eq)
  then have "cutoff64 base \<le> n \<longleftrightarrow> (2 ^ 64 - 1) div b < unat n" by (simp add: word_le_nat_alt Suc_le_eq)
  also have "\<dots> \<longleftrightarrow> 2 ^ 64 - 1 < unat n * b" using b by (subst div_less_iff_less_mult) simp_all
  also have "\<dots> \<longleftrightarrow> 2 ^ 64 \<le> unat n * b" by auto
  finally show ?thesis by (simp only: b_def)
qed

lemma ParseUint_step:
  fixes n maxVal :: u64 and v :: u8
  assumes "2 \<le> base" "base \<le> 36" "b = nat base" "\<not> cutoff64 base \<le> n"
    and "n' = n * word_of_int base" "n1 = n' + ucast v"
  shows "n1 < n' \<or> n1 > maxVal \<longleftrightarrow> unat maxVal < unat n * b + unat v"
    and "unat n * b + unat v \<le> unat maxVal \<Longrightarrow> unat n1 = unat n * b + unat v"
proof -
  have "unat n * b < 2 ^ 64" using cutoff64_overflows [of base n] assms by simp
  then have n': "unat n' = unat n * b" using assms unat_base [of base] by (simp add: unat_word_ariths)
  have v: "unat (ucast v :: u64) = unat v" "unat v < 256"
    using unat_lt2p [of v] by (simp_all add: unsigned_ucast_eq take_bit_eq_mod)
  have n1: "unat n1 = (unat n' + unat v) mod 2 ^ 64" using assms(6) v by (simp add: unat_word_ariths)
  have m: "unat maxVal < 2 ^ 64" "unat n' < 2 ^ 64" using unat_lt2p [of maxVal] unat_lt2p [of n'] by simp_all
  show "n1 < n' \<or> n1 > maxVal \<longleftrightarrow> unat maxVal < unat n * b + unat v"
  proof (cases "unat n' + unat v < 2 ^ 64")
    case True
    then show ?thesis using n1 n' by (auto simp: word_less_nat_alt)
  next
    case False
    then have "unat n1 = unat n' + unat v - 2 ^ 64" using n1 m v by (simp add: mod_if)
    then show ?thesis using False n' m v by (auto simp: word_less_nat_alt)
  qed
  show "unat n1 = unat n * b + unat v" if "unat n * b + unat v \<le> unat maxVal"
    using that n1 n' m by simp
qed

lemma ParseUint_loop_number:
  assumes "2 \<le> base" "base \<le> 36" "b = nat base" "unat n \<le> unat maxVal"
  shows "ParseUint_loop base (cutoff64 base) maxVal n s =
    (let p = takeWhile (is_digit b) s; v = horner b (unat n) p in
     if v > unat maxVal then (- 1, Some ErrRange)
     else if p \<noteq> s then (0, Some ErrSyntax) else (of_nat v, None))"
  using assms(4)
proof (induction s arbitrary: n)
  case Nil
  then show ?case by simp
next
  case (Cons d s)
  show ?case
  proof (cases "is_digit b d")
    case False
    then have "digit_val d = None \<or> (\<exists>v. digit_val d = Some v \<and> base \<le> int (unat v))"
      using assms(1-3) by (auto simp: is_digit_def not_less nat_le_iff split: option.splits)
    then show ?thesis using False Cons.prems by auto
  next
    case True
    then obtain v where v: "digit_val d = Some v" "unat v < b" by (auto simp: is_digit_def split: option.splits)
    define N where "N = unat n * b + unat v"
    have h: "N \<le> horner b (unat n) (d # p)" for p
      using horner_ge [of b N p] assms by (simp add: N_def dval_def v)
    have b: "\<not> base \<le> int (unat v)" using v(2) assms by linarith
    have over: ?thesis if "unat maxVal < N" "ParseUint_loop base (cutoff64 base) maxVal n (d # s) = (- 1, Some ErrRange)"
      using that True less_le_trans [OF that(1) h] by simp
    show ?thesis
    proof (cases "cutoff64 base \<le> n")
      case cut: True
      then have "2 ^ 64 \<le> unat n * b" using cutoff64_overflows assms by simp
      then have "unat maxVal < N" using unat_lt2p [of maxVal] by (simp add: N_def)
      then show ?thesis using cut b v by (intro over) simp_all
    next
      case cut: False
      note st = ParseUint_step [OF assms(1-3) cut refl refl, where maxVal = maxVal and v = v, folded N_def]
      show ?thesis
      proof (cases "unat maxVal < N")
        case True
        then show ?thesis using cut b v st(1) by (intro over) (simp_all add: Let_def)
      next
        case False
        then have n1: "unat (n * word_of_int base + ucast v) = N" using st(2) by simp
        have "ParseUint_loop base (cutoff64 base) maxVal n (d # s) =
            ParseUint_loop base (cutoff64 base) maxVal (n * word_of_int base + ucast v) s"
          using False cut b v st(1) by (simp add: Let_def)
        then show ?thesis
          using Cons.IH [of "n * word_of_int base + ucast v"] n1 False True v by (simp add: N_def dval_def Let_def)
      qed
    qed
  qed
qed

definition bits_of :: "int \<Rightarrow> nat" where
  "bits_of bitSize = (if bitSize = 0 then 32 else nat bitSize)"

lemma unat_shl1:
  assumes "0 \<le> k" "k < 64"
  shows "unat (shl1 k) = 2 ^ nat k"
proof -
  have "unat (word_of_int k :: u32) = nat k"
    using assms by (simp add: unsigned_of_int take_bit_int_eq_self nat_take_bit_eq)
  moreover have "(2 :: nat) ^ nat k < 2 ^ 64" using assms by (intro power_strict_increasing) simp_all
  ultimately show ?thesis using unat_push_bit [of "nat k" "1 :: u64"] by (simp add: shl1_def)
qed

lemma unat_maxVal:
  assumes "0 \<le> k" "k \<le> 64"
  shows "unat (shl1 k - 1) = 2 ^ nat k - 1"
proof (cases "k = 64")
  case True
  then show ?thesis by (simp add: shl1_def unat_uminus)
next
  case False
  then have k: "unat (shl1 k) = 2 ^ nat k" using assms by (simp add: unat_shl1)
  then have "1 \<le> shl1 k" by (simp add: word_le_nat_alt)
  then show ?thesis by (simp add: unat_sub k)
qed

lemma ParseUint_value:
  assumes "2 \<le> base" "base \<le> 36" "0 \<le> bitSize" "bitSize \<le> 64" "s \<noteq> []"
  shows "ParseUint s base bitSize =
    (let p = takeWhile (is_digit (nat base)) s; v = number_of (nat base) p in
     if v \<ge> 2 ^ bits_of bitSize then (- 1, Some (rangeError ''ParseUint'' s))
     else if p \<noteq> s then (0, Some (syntaxError ''ParseUint'' s))
     else (of_nat v, None))"
proof -
  define bs where "bs = (if bitSize = 0 then IntSize else bitSize)"
  have bs: "0 < bs" "bs \<le> 64" "nat bs = bits_of bitSize"
    using assms by (auto simp: bs_def bits_of_def IntSize_def)
  have "parse_base s base = Inr (base, s)" using assms by (cases s) (auto simp: parse_base_def)
  moreover have "unat maxVal = 2 ^ bits_of bitSize - 1 \<Longrightarrow> unat maxVal < v \<longleftrightarrow> 2 ^ bits_of bitSize \<le> v" for maxVal :: u64 and v
    using zero_less_power [of "2 :: nat" "bits_of bitSize"] by linarith
  moreover have "unat (shl1 bs - 1) = 2 ^ bits_of bitSize - 1" using bs unat_maxVal [of bs] by simp
  ultimately show ?thesis
    using assms ParseUint_loop_number [OF assms(1,2) refl, of 0 "shl1 bs - 1" s]
    by (simp add: ParseUint_def bs_def [symmetric] Let_def number_of_def rangeError_def syntaxError_def)
qed

text \<open>C16: For a base from 2 to 36 and a bit size up to 64, \<open>ParseUint\<close> of a non-empty text reads the longest
  prefix of valid digits as a number without any bound: a number that needs more bits than the bit size
  gives \<open>ErrRange\<close> and the largest 64-bit value; otherwise a text with a further byte gives \<open>ErrSyntax\<close>
  and 0; otherwise the number is returned without an error. The 64-bit arithmetic of the loop never
  wraps unnoticed.
\<close>

theorem ParseUint_number:
  assumes "2 \<le> base" "base \<le> 36" "0 \<le> bitSize" "bitSize \<le> 64" "s \<noteq> []"
  shows "ParseUint s base bitSize =
    (let p = takeWhile (is_digit (nat base)) s; v = number_of (nat base) p in
     if v \<ge> 2 ^ bits_of bitSize then (- 1, Some (rangeError ''ParseUint'' s))
     else if p \<noteq> s then (0, Some (syntaxError ''ParseUint'' s))
     else (of_nat v, None))"
  using assms by (rule ParseUint_value)

theorem ParseUint_number_witness:
  "ParseUint [0x33, 0x30, 0x30] 10 8 = (- 1, Some (rangeError ''ParseUint'' [0x33, 0x30, 0x30]))"
  using ParseUint_number [of 10 8 "[0x33, 0x30, 0x30]"]
  by (simp add: is_digit_def digit_val_def number_of_def dval_def bits_of_def)

lemma signed_clamp:
  fixes un c :: u64
  assumes c: "unat c = 2 ^ (k - 1)" and k: "0 < k" "k \<le> 64"
    and un: "if 2 ^ k \<le> v then un = - 1 else unat un = v"
    and x: "x = (if neg then - int v else int v)"
  shows "(if \<not> neg \<and> un \<ge> c then (c - 1, Some e) else if neg \<and> un > c then (- c, Some e)
      else (if neg then - un else un, None)) =
    (if x \<ge> 2 ^ (k - 1) then (word_of_int (2 ^ (k - 1) - 1), Some e)
     else if x < - (2 ^ (k - 1)) then (word_of_int (- (2 ^ (k - 1))), Some e)
     else (word_of_int x, None))"
proof -
  define h :: nat where "h = 2 ^ (k - 1)"
  have h: "2 ^ k = 2 * h" "0 < h" "h \<le> 2 ^ 63"
    using k power_increasing [of "k - 1" 63 "2 :: nat"] by (simp_all add: h_def power_eq_if)
  have m: "unat (- 1 :: u64) = 2 ^ 64 - 1" by (simp add: unat_uminus)
  have cmp: "c \<le> un \<longleftrightarrow> h \<le> v" "c < un \<longleftrightarrow> h < v"
    using c [folded h_def] un h m by (auto simp: word_le_nat_alt word_less_nat_alt split: if_splits)
  have "c = of_nat (unat c)" by simp
  then have cw: "c = word_of_int (int h)" by (simp add: c h_def)
  have unw: "un = word_of_int (int v)" if "v < 2 * h"
  proof -
    have "un = of_nat (unat un)" by simp
    then show ?thesis using that un h by (simp split: if_splits)
  qed
  have hi: "(2 :: int) ^ (k - 1) = int h" by (simp add: h_def)
  show ?thesis
    unfolding cmp hi x using unw h(2) by (cases neg) (auto simp: cw)
qed

lemma ParseInt_unsigned:
  assumes "s \<noteq> []" "bs = (if bitSize = 0 then IntSize else bitSize)"
    and "t = (if s ! 0 = 0x2B \<or> s ! 0 = 0x2D then drop 1 s else s)" and "ParseUint t base bs = (un, err)"
  shows "ParseInt s base bitSize =
    (if err \<noteq> None \<and> Err (the err) \<noteq> ErrRange then (0, Some ((the err)\<lparr>Func := ''ParseInt'', Num := s\<rparr>))
     else if s ! 0 \<noteq> 0x2D \<and> un \<ge> shl1 (bs - 1) then (shl1 (bs - 1) - 1, Some (rangeError ''ParseInt'' s))
     else if s ! 0 = 0x2D \<and> un > shl1 (bs - 1) then (- shl1 (bs - 1), Some (rangeError ''ParseInt'' s))
     else (if s ! 0 = 0x2D then - un else un, None))"
  using assms by (auto simp: ParseInt_def Let_def)

lemma ParseInt_value:
  assumes "2 \<le> base" "base \<le> 36" "0 \<le> bitSize" "bitSize \<le> 64" "s \<noteq> []"
  shows "ParseInt s base bitSize =
    (let neg = (s ! 0 = 0x2D); t = (if s ! 0 = 0x2B \<or> s ! 0 = 0x2D then drop 1 s else s);
         p = takeWhile (is_digit (nat base)) t; v = int (number_of (nat base) p);
         k = bits_of bitSize; x = (if neg then - v else v) in
     if t = [] \<or> (p \<noteq> t \<and> v < 2 ^ k) then (0, Some (syntaxError ''ParseInt'' s))
     else if x \<ge> 2 ^ (k - 1) then (word_of_int (2 ^ (k - 1) - 1), Some (rangeError ''ParseInt'' s))
     else if x < - (2 ^ (k - 1)) then (word_of_int (- (2 ^ (k - 1))), Some (rangeError ''ParseInt'' s))
     else (word_of_int x, None))"
proof -
  define t where "t = (if s ! 0 = 0x2B \<or> s ! 0 = 0x2D then drop 1 s else s)"
  define v where "v = number_of (nat base) (takeWhile (is_digit (nat base)) t)"
  define bs where "bs = (if bitSize = 0 then IntSize else bitSize)"
  define k where "k = bits_of bitSize"
  have bs: "0 < bs" "bs \<le> 64" "bits_of bs = k" "nat (bs - 1) = k - 1" "0 < k" "k \<le> 64"
    using assms by (auto simp: bs_def bits_of_def IntSize_def k_def)
  have cut: "unat (shl1 (bs - 1)) = 2 ^ (k - 1)" using bs unat_shl1 [of "bs - 1"] by simp
  obtain un err where pu: "ParseUint t base bs = (un, err)" by force
  note pi = ParseInt_unsigned [OF assms(5) bs_def t_def pu]
  have goal: "ParseInt s base bitSize =
    (if t = [] \<or> (takeWhile (is_digit (nat base)) t \<noteq> t \<and> int v < 2 ^ k) then (0, Some (syntaxError ''ParseInt'' s))
     else let x = (if s ! 0 = 0x2D then - int v else int v) in
     if x \<ge> 2 ^ (k - 1) then (word_of_int (2 ^ (k - 1) - 1), Some (rangeError ''ParseInt'' s))
     else if x < - (2 ^ (k - 1)) then (word_of_int (- (2 ^ (k - 1))), Some (rangeError ''ParseInt'' s))
     else (word_of_int x, None))"
  proof (cases "t = []")
    case True
    then show ?thesis using pi pu by (auto simp: ParseUint_def parse_base_def syntaxError_def)
  next
    case False
    then have pt: "ParseUint t base bs =
       (if 2 ^ k \<le> v then (- 1, Some (rangeError ''ParseUint'' t))
        else if takeWhile (is_digit (nat base)) t \<noteq> t then (0, Some (syntaxError ''ParseUint'' t)) else (of_nat v, None))"
      using ParseUint_value [of base bs t] assms bs by (simp add: Let_def v_def)
    show ?thesis
    proof (cases "takeWhile (is_digit (nat base)) t \<noteq> t \<and> v < 2 ^ k")
      case True
      then show ?thesis using pi pt pu by (auto simp: syntaxError_def)
    next
      case valid: False
      have "v < 2 ^ k \<Longrightarrow> v < 2 ^ 64" using power_increasing [OF bs(6), of "2 :: nat"] by (simp add: less_le_trans)
      then have un: "if 2 ^ k \<le> v then un = - 1 else unat un = v"
        and ok: "\<not> (err \<noteq> None \<and> Err (the err) \<noteq> ErrRange)"
        using pu pt valid by (auto simp: rangeError_def unsigned_of_nat take_bit_nat_eq_self split: if_splits)
      have ok': "\<not> (t = [] \<or> (takeWhile (is_digit (nat base)) t \<noteq> t \<and> int v < 2 ^ k))"
        using valid False by simp
      show ?thesis
        unfolding pi if_not_P [OF ok] if_not_P [OF ok'] Let_def by (rule signed_clamp [OF cut bs(5,6) un refl])
    qed
  qed
  then show ?thesis by (simp only: Let_def t_def [symmetric] v_def [symmetric] k_def [symmetric])
qed

text \<open>\<open>ParseInt\<close> for a base from 2 to 36 and a bit size up to 64: after an optional sign it reads the
  digits as \<open>ParseUint\<close> does. A value outside the signed range of the bit size is clamped to the end of
  the range with \<open>ErrRange\<close>; a text without digits or with an invalid byte gives \<open>ErrSyntax\<close> and 0,
  unless the digits before the invalid byte already exceed the unsigned range.
\<close>

theorem ParseInt_number:
  assumes "2 \<le> base" "base \<le> 36" "0 \<le> bitSize" "bitSize \<le> 64" "s \<noteq> []"
  shows "ParseInt s base bitSize =
    (let neg = (s ! 0 = 0x2D); t = (if s ! 0 = 0x2B \<or> s ! 0 = 0x2D then drop 1 s else s);
         p = takeWhile (is_digit (nat base)) t; v = int (number_of (nat base) p);
         k = bits_of bitSize; x = (if neg then - v else v) in
     if t = [] \<or> (p \<noteq> t \<and> v < 2 ^ k) then (0, Some (syntaxError ''ParseInt'' s))
     else if x \<ge> 2 ^ (k - 1) then (word_of_int (2 ^ (k - 1) - 1), Some (rangeError ''ParseInt'' s))
     else if x < - (2 ^ (k - 1)) then (word_of_int (- (2 ^ (k - 1))), Some (rangeError ''ParseInt'' s))
     else (word_of_int x, None))"
  using assms by (rule ParseInt_value)

theorem ParseInt_number_witness:
  "ParseInt [0x2D, 0x33, 0x30, 0x30] 10 8 = (- 128, Some (rangeError ''ParseInt'' [0x2D, 0x33, 0x30, 0x30]))"
  using ParseInt_number [of 10 8 "[0x2D, 0x33, 0x30, 0x30]"]
  by (simp add: is_digit_def digit_val_def number_of_def dval_def bits_of_def)

section \<open>Round trips\<close>

lemma takeWhile_digs: "2 \<le> b \<Longrightarrow> b \<le> 36 \<Longrightarrow> takeWhile (is_digit b) (digs b n) = digs b n"
  using digs_are_digits [of b n] by (simp add: takeWhile_eq_all_conv list_all_iff)

lemma digs_first: "2 \<le> b \<Longrightarrow> b \<le> 36 \<Longrightarrow> digs b n ! 0 \<noteq> 0x2B \<and> digs b n ! 0 \<noteq> 0x2D"
proof -
  assume "2 \<le> b" "b \<le> 36"
  then have "is_digit b (digs b n ! 0)" using digs_are_digits [of b n] by (simp add: list_all_length)
  then show ?thesis by (auto simp: is_digit_def digit_val_def)
qed

lemma ParseInt_digs:
  assumes b: "2 \<le> base" "base \<le> 36" "0 \<le> bitSize" "bitSize \<le> 64" and k: "k = bits_of bitSize"
    and r: "- (2 ^ (k - 1)) \<le> x" "x < 2 ^ (k - 1)"
  shows "ParseInt ((if x < 0 then [0x2D] else []) @ digs (nat base) (nat \<bar>x\<bar>)) base bitSize = (word_of_int x, None)"
proof -
  have nb: "2 \<le> nat base" "nat base \<le> 36" using b by (simp_all add: nat_le_iff)
  note d = takeWhile_digs [OF nb] digs_first [OF nb] number_of_digs [OF nb]
  define s where "s = (if x < 0 then [0x2D] else []) @ digs (nat base) (nat \<bar>x\<bar>)"
  have s: "s \<noteq> []" "s ! 0 = 0x2D \<longleftrightarrow> x < 0" "(if s ! 0 = 0x2B \<or> s ! 0 = 0x2D then drop 1 s else s) = digs (nat base) (nat \<bar>x\<bar>)"
    using d(2) by (simp_all add: s_def)
  have x: "(if x < 0 then - int (nat \<bar>x\<bar>) else int (nat \<bar>x\<bar>)) = x" by simp
  show ?thesis
    unfolding s_def [symmetric] ParseInt_value [OF b s(1)] Let_def s(3)
    unfolding s(2) d k [symmetric] x using r by simp
qed

text \<open>C32: Text written by the formatting functions parses back to the same number: \<open>FormatInt\<close> with \<open>ParseInt\<close>
  and \<open>FormatUint\<close> with \<open>ParseUint\<close> for all 64-bit values and all bases from 2 to 36, and \<open>Itoa\<close> with
  \<open>Atoi\<close> for all 32-bit integers.
\<close>

theorem format_parse_roundtrip:
  assumes "2 \<le> base" "base \<le> 36"
  shows "go_bind (FormatInt i base) (\<lambda>s. Inr (ParseInt s base 64)) = Inr (i, None) \<and>
    go_bind (FormatUint u base) (\<lambda>s. Inr (ParseUint s base 64)) = Inr (u, None) \<and>
    go_bind (Itoa n) (\<lambda>s. Inr (Atoi s)) = Inr (n, None)"
proof (intro conjI)
  show "go_bind (FormatInt i base) (\<lambda>s. Inr (ParseInt s base 64)) = Inr (i, None)"
    using ParseInt_digs [OF assms, of 64 64 "sint i"] sint_bounds [of i]
    by (simp add: FormatInt_def formatBits_int assms Let_def bits_of_def)
  have nb: "2 \<le> nat base" "nat base \<le> 36" using assms by (simp_all add: nat_le_iff)
  show "go_bind (FormatUint u base) (\<lambda>s. Inr (ParseUint s base 64)) = Inr (u, None)"
    using unat_lt2p [of u] ParseUint_value [OF assms, of 64 "digs (nat base) (unat u)"]
    by (simp add: FormatUint_def formatBits_digits [OF assms refl] Let_def takeWhile_digs [OF nb]
        number_of_digs [OF nb] bits_of_def)
  have "ParseInt ((if sint n < 0 then [0x2D] else []) @ digs 10 (nat \<bar>sint n\<bar>)) 10 0 = (word_of_int (sint n), None)"
    using ParseInt_digs [of 10 0 32 "sint n"] sint_bounds [of n] by (simp add: bits_of_def)
  moreover have "(ucast (word_of_int (sint n) :: u64) :: u32) = n"
    by (rule bit_word_eqI) (auto simp: bit_simps)
  ultimately show "go_bind (Itoa n) (\<lambda>s. Inr (Atoi s)) = Inr (n, None)"
    by (simp add: Itoa_def FormatInt_def formatBits_int Let_def Atoi_def sint_scast_32_64)
qed

theorem format_parse_roundtrip_witness:
  "go_bind (FormatInt (- 255) 16) (\<lambda>s. Inr (ParseInt s 16 64)) = Inr (- 255, None)"
  by (rule format_parse_roundtrip [THEN conjunct1]) simp_all

section \<open>Booleans\<close>

lemma FormatBool_roundtrip: "ParseBool (FormatBool b) = (b, None)" "AppendBool dst b = dst @ FormatBool b"
  by (cases b) (simp_all add: ParseBool_def FormatBool_def AppendBool_def ascii_def)

end
