(* ===== verification/Refinement.thy ===== *)
theory Refinement
  imports Prelude
begin

text \<open>
  Sequences of operations and forward simulation. A component gives one step of its concrete state, which
  may panic, one step of the abstract state, the condition under which a caller may make the step, and a
  relation between the two states that a step keeps; what follows for every sequence of steps is proved once.
\<close>

fun run_ops :: "('s \<Rightarrow> 'o \<Rightarrow> 's go) \<Rightarrow> 's \<Rightarrow> 'o list \<Rightarrow> 's go" where
  "run_ops step s [] = Inr s"
| "run_ops step s (p # ps) = go_bind (step s p) (\<lambda>s. run_ops step s ps)"

fun ops_allowed :: "('a \<Rightarrow> 'o \<Rightarrow> bool) \<Rightarrow> ('a \<Rightarrow> 'o \<Rightarrow> 'a) \<Rightarrow> 'a \<Rightarrow> 'o list \<Rightarrow> bool" where
  "ops_allowed allowed astep a [] \<longleftrightarrow> True"
| "ops_allowed allowed astep a (p # ps) \<longleftrightarrow> allowed a p \<and> ops_allowed allowed astep (astep a p) ps"

locale simulation =
  fixes R :: "'s \<Rightarrow> 'a \<Rightarrow> bool" and step :: "'s \<Rightarrow> 'o \<Rightarrow> 's go" and astep :: "'a \<Rightarrow> 'o \<Rightarrow> 'a"
    and allowed :: "'a \<Rightarrow> 'o \<Rightarrow> bool"
  assumes step_sim: "R s a \<Longrightarrow> allowed a p \<Longrightarrow> \<exists>s'. step s p = Inr s' \<and> R s' (astep a p)"
begin

lemma run_sim:
  "R s a \<Longrightarrow> ops_allowed allowed astep a ps \<Longrightarrow> \<exists>s'. run_ops step s ps = Inr s' \<and> R s' (foldl astep a ps)"
proof (induction ps arbitrary: s a)
  case (Cons p ps)
  then obtain s1 where "step s p = Inr s1" "R s1 (astep a p)" using step_sim by fastforce
  then show ?case using Cons by simp
qed simp

lemma run_append:
  assumes "R s a" "ops_allowed allowed astep a (ps @ qs)"
  shows "\<exists>s1 s2. run_ops step s ps = Inr s1 \<and> R s1 (foldl astep a ps) \<and>
    run_ops step s1 qs = Inr s2 \<and> R s2 (foldl astep a (ps @ qs))"
proof -
  have "ops_allowed allowed astep a ps \<and> ops_allowed allowed astep (foldl astep a ps) qs"
    using assms(2) by (induction ps arbitrary: a) auto
  then obtain s1 s2 where "run_ops step s ps = Inr s1" "R s1 (foldl astep a ps)"
      "run_ops step s1 qs = Inr s2" "R s2 (foldl astep (foldl astep a ps) qs)"
    using run_sim [OF assms(1)] run_sim by blast
  then show ?thesis by auto
qed

end

end
