(* ===== verification/Links.thy ===== *)
theory Links
  imports Prelude
begin

text \<open>
  Doubly linked rings of nodes, the representation \<open>container/list\<close> and \<open>container/ring\<close> share: the two
  pointer fields of the nodes as maps from addresses, \<open>None\<close> for nil. \<open>cyc nx pv xs\<close> says that the
  nodes \<open>xs\<close>, in this order, form a ring. The lemmas give the effect on rings of the assignments the
  two packages make: insertion of a node, removal of a node, and the exchange of two successors.
\<close>

text \<open>Dereferencing nil panics.\<close>

definition nil_deref :: "'a go" where
  "nil_deref = Inl (PanicMsg ''invalid memory address or nil pointer dereference'')"

section \<open>Runs of linked nodes\<close>

fun linked :: "('p \<Rightarrow> 'p option) \<Rightarrow> ('p \<Rightarrow> 'p option) \<Rightarrow> 'p list \<Rightarrow> bool" where
  "linked nx pv (x # y # zs) \<longleftrightarrow> nx x = Some y \<and> pv y = Some x \<and> linked nx pv (y # zs)"
| "linked nx pv _ \<longleftrightarrow> True"

lemma linked_append:
  "linked nx pv (xs @ ys) \<longleftrightarrow> linked nx pv xs \<and> linked nx pv ys \<and>
    (xs \<noteq> [] \<and> ys \<noteq> [] \<longrightarrow> nx (last xs) = Some (hd ys) \<and> pv (hd ys) = Some (last xs))"
proof (induction xs)
  case (Cons x xs)
  then show ?case by (cases xs; cases ys) auto
qed simp

lemma linked_frame_next: "p \<notin> set (butlast xs) \<Longrightarrow> linked (nx(p := q)) pv xs \<longleftrightarrow> linked nx pv xs"
  by (induction nx pv xs rule: linked.induct) auto

lemma linked_frame_prev: "p \<notin> set (tl xs) \<Longrightarrow> linked nx (pv(p := q)) xs \<longleftrightarrow> linked nx pv xs"
  by (induction nx pv xs rule: linked.induct) auto

section \<open>Rings\<close>

definition cyc :: "('p \<Rightarrow> 'p option) \<Rightarrow> ('p \<Rightarrow> 'p option) \<Rightarrow> 'p list \<Rightarrow> bool" where
  "cyc nx pv xs \<longleftrightarrow> xs \<noteq> [] \<and> distinct xs \<and> linked nx pv xs \<and>
     nx (last xs) = Some (hd xs) \<and> pv (hd xs) = Some (last xs)"

lemma cyc_distinct: "cyc nx pv xs \<Longrightarrow> distinct xs"
  by (simp add: cyc_def)

lemma cyc_rotate: "cyc nx pv (us @ vs) \<Longrightarrow> cyc nx pv (vs @ us)"
  by (cases "us = []"; cases "vs = []") (auto simp: cyc_def linked_append)

lemma cyc_frame_next: "p \<notin> set xs \<Longrightarrow> cyc (nx(p := q)) pv xs \<longleftrightarrow> cyc nx pv xs"
  using linked_frame_next [of p xs nx q pv] in_set_butlastD [of p xs] by (cases "xs = []") (auto simp: cyc_def)

lemma cyc_frame_prev: "p \<notin> set xs \<Longrightarrow> cyc nx (pv(p := q)) xs \<longleftrightarrow> cyc nx pv xs"
  using linked_frame_prev [of p xs nx pv q] list.set_sel(2) [of xs p] by (cases "xs = []") (auto simp: cyc_def)

lemma linked_cong:
  "(\<And>x. x \<in> set xs \<Longrightarrow> nx' x = nx x \<and> pv' x = pv x) \<Longrightarrow> linked nx' pv' xs \<longleftrightarrow> linked nx pv xs"
  by (induction nx pv xs rule: linked.induct) auto

lemma cyc_cong:
  "(\<And>x. x \<in> set xs \<Longrightarrow> nx' x = nx x \<and> pv' x = pv x) \<Longrightarrow> cyc nx' pv' xs \<longleftrightarrow> cyc nx pv xs"
  using linked_cong [of xs nx' nx pv' pv] by (cases "xs = []") (auto simp: cyc_def)

lemmas cyc_frame = cyc_frame_next cyc_frame_prev

lemma cyc_next: "cyc nx pv (a # zs) \<Longrightarrow> nx a = Some (hd (zs @ [a]))"
  by (cases zs) (auto simp: cyc_def)

lemma cyc_prev: "cyc nx pv (a # zs) \<Longrightarrow> pv a = Some (last (a # zs))"
  by (auto simp: cyc_def)

lemma cyc_prev_mid: "cyc nx pv (A @ m # B) \<Longrightarrow> A \<noteq> [] \<Longrightarrow> pv m = Some (last A)"
  by (auto simp: cyc_def linked_append)

lemma cyc_next_mid: "cyc nx pv (A @ m # B) \<Longrightarrow> B \<noteq> [] \<Longrightarrow> nx m = Some (hd B)"
  by (cases B) (auto simp: cyc_def linked_append)

lemma cyc_self: "nx a = Some a \<Longrightarrow> pv a = Some a \<Longrightarrow> cyc nx pv [a]"
  by (simp add: cyc_def)

lemma last_fresh: "distinct xs \<Longrightarrow> last xs \<notin> set (butlast xs)"
  by (cases xs rule: rev_cases) auto

lemma hd_fresh: "distinct xs \<Longrightarrow> hd xs \<notin> set (tl xs)"
  by (cases xs) auto

lemma set_butlast_tl: "set (butlast xs) \<subseteq> set xs" "set (tl xs) \<subseteq> set xs"
  by (induction xs) auto

lemma ends_apart:
  assumes "set L \<inter> set M = {}" "L \<noteq> []" "M \<noteq> []"
  shows "last M \<notin> set (butlast L)" and "last L \<notin> set (butlast M)" and "hd M \<notin> set (tl L)"
    and "hd L \<notin> set (tl M)" and "last L \<noteq> last M" and "hd L \<noteq> hd M"
proof -
  note e = last_in_set [OF assms(2)] last_in_set [OF assms(3)] hd_in_set [OF assms(2)] hd_in_set [OF assms(3)]
  show "last M \<notin> set (butlast L)" using e assms(1) set_butlast_tl(1) [of L] by blast
  show "last L \<notin> set (butlast M)" using e assms(1) set_butlast_tl(1) [of M] by blast
  show "hd M \<notin> set (tl L)" using e assms(1) set_butlast_tl(2) [of L] by blast
  show "hd L \<notin> set (tl M)" using e assms(1) set_butlast_tl(2) [of M] by blast
  show "last L \<noteq> last M" "hd L \<noteq> hd M" using e assms(1) by (metis disjoint_iff)+
qed

text \<open>
  Two disjoint rings become one, and one ring becomes two, by exchanging the successors of two nodes.
\<close>

lemma cyc_join:
  assumes "cyc nx pv L" "cyc nx pv M" "set L \<inter> set M = {}"
  shows "cyc (nx(last L := Some (hd M), last M := Some (hd L))) (pv(hd M := Some (last L), hd L := Some (last M))) (L @ M)"
proof -
  have d: "distinct L" "distinct M" "L \<noteq> []" "M \<noteq> []" using assms(1,2) by (auto simp: cyc_def)
  show ?thesis using assms d ends_apart [of L M] last_fresh [OF d(1)] last_fresh [OF d(2)] hd_fresh [OF d(1)] hd_fresh [OF d(2)]
    by (simp add: cyc_def linked_append linked_frame_next linked_frame_prev)
qed

lemma cyc_split:
  assumes "cyc nx pv (L @ M)" "L \<noteq> []" "M \<noteq> []"
    and "nx' = nx(last L := Some (hd L), last M := Some (hd M))" "pv' = pv(hd L := Some (last L), hd M := Some (last M))"
  shows "cyc nx' pv' L \<and> cyc nx' pv' M"
proof -
  have d: "distinct L" "distinct M" "set L \<inter> set M = {}" using assms(1) by (auto simp: cyc_def)
  show ?thesis using assms d ends_apart [of L M] last_fresh [OF d(1)] last_fresh [OF d(2)] hd_fresh [OF d(1)] hd_fresh [OF d(2)]
    by (simp add: cyc_def linked_append linked_frame_next linked_frame_prev)
qed

text \<open>A node enters a ring after another one, or leaves it.\<close>

lemma cyc_insert:
  assumes "cyc nx pv (us @ a # vs)" "e \<notin> set (us @ a # vs)" "nx a = Some n"
  shows "cyc (nx(a := Some e, e := Some n)) (pv(e := Some a, n := Some e)) (us @ a # e # vs)"
proof -
  have c: "cyc nx pv (vs @ us @ [a])" using cyc_rotate [of nx pv "us @ [a]" vs] assms(1) by simp
  then have n: "n = hd (vs @ us @ [a])" using assms(3) by (simp add: cyc_def)
  have e: "e \<notin> set (vs @ us @ [a])" using assms(2) by auto
  have "cyc (nx(e := Some e)) (pv(e := Some e)) (vs @ us @ [a])" using c e by (simp add: cyc_frame)
  moreover have "cyc (nx(e := Some e)) (pv(e := Some e)) [e]" by (simp add: cyc_self)
  ultimately have "cyc (nx(e := Some e, a := Some e, e := Some n)) (pv(e := Some e, e := Some a, n := Some e)) ((vs @ us @ [a]) @ [e])"
    using cyc_join [of "nx(e := Some e)" "pv(e := Some e)" "vs @ us @ [a]" "[e]"] e n by simp
  then have "cyc (nx(a := Some e, e := Some n)) (pv(e := Some a, n := Some e)) (vs @ (us @ [a, e]))"
    by (simp add: fun_upd_twist)
  from cyc_rotate [OF this] show ?thesis by simp
qed

lemma cyc_remove:
  assumes "cyc nx pv (us @ e # vs)" "us @ vs \<noteq> []"
  obtains p n where "nx e = Some n" "pv e = Some p" "n \<in> set (us @ vs)" "p \<in> set (us @ vs)"
    "cyc (nx(p := Some n)) (pv(n := Some p)) (us @ vs)"
proof -
  define L where "L = vs @ us"
  have L: "L \<noteq> []" "e \<notin> set L" using assms by (auto simp: L_def cyc_def)
  have c: "cyc nx pv (L @ [e])" using cyc_rotate [of nx pv us "e # vs"] cyc_rotate [of nx pv "[e]" L] assms(1) by (simp add: L_def)
  have "cyc (nx(last L := Some (hd L), e := Some e)) (pv(hd L := Some (last L), e := Some e)) L"
    using cyc_split [OF c L(1) _ refl refl] by simp
  then have "cyc (nx(last L := Some (hd L))) (pv(hd L := Some (last L))) L" using L by (simp add: cyc_frame)
  then have "cyc (nx(last L := Some (hd L))) (pv(hd L := Some (last L))) (us @ vs)"
    unfolding L_def by (rule cyc_rotate)
  moreover have "nx e = Some (hd L)" "pv e = Some (last L)"
    using c L(1) by (auto simp: cyc_def linked_append)
  moreover have "set L = set (us @ vs)" by (auto simp: L_def)
  ultimately show ?thesis using that [of "hd L" "last L"] L(1) by (metis hd_in_set last_in_set)
qed

end
