(* ===== verification/GoList.thy ===== *)
theory GoList
  imports Links Refinement
begin

text \<open>
  Package \<open>container/list\<close>: doubly linked lists. The heap is explicit: an \<open>Element\<close> is a node or the
  \<open>root\<close> field of a list, and the fields of all elements are maps from these addresses; \<open>None\<close> is nil
  and dereferencing it panics. List and mark arguments are non-nil pointers. The theorems relate the
  heap to the sequences of elements the lists stand for, for all lists of the heap at once.
\<close>

section \<open>Definitions\<close>

datatype eptr = Root nat | Node nat

record 'v lheap =
  nxt :: "eptr \<Rightarrow> eptr option"
  prv :: "eptr \<Rightarrow> eptr option"
  owner :: "eptr \<Rightarrow> nat option"
  val :: "eptr \<Rightarrow> 'v option"
  llen :: "nat \<Rightarrow> int"
  next_node :: nat
  next_list :: nat

abbreviation set_nxt :: "eptr \<Rightarrow> eptr option \<Rightarrow> 'v lheap \<Rightarrow> 'v lheap" where
  "set_nxt p q h \<equiv> h\<lparr>nxt := (nxt h)(p := q)\<rparr>"

abbreviation set_prv :: "eptr \<Rightarrow> eptr option \<Rightarrow> 'v lheap \<Rightarrow> 'v lheap" where
  "set_prv p q h \<equiv> h\<lparr>prv := (prv h)(p := q)\<rparr>"

abbreviation set_owner :: "eptr \<Rightarrow> nat option \<Rightarrow> 'v lheap \<Rightarrow> 'v lheap" where
  "set_owner p q h \<equiv> h\<lparr>owner := (owner h)(p := q)\<rparr>"

abbreviation set_llen :: "nat \<Rightarrow> int \<Rightarrow> 'v lheap \<Rightarrow> 'v lheap" where
  "set_llen l n h \<equiv> h\<lparr>llen := (llen h)(l := n)\<rparr>"

definition Element_Next :: "'v lheap \<Rightarrow> eptr \<Rightarrow> eptr option" where
  "Element_Next h e =
    (let p = nxt h e in case owner h e of Some l \<Rightarrow> if p \<noteq> Some (Root l) then p else None | None \<Rightarrow> None)"

definition Element_Prev :: "'v lheap \<Rightarrow> eptr \<Rightarrow> eptr option" where
  "Element_Prev h e =
    (let p = prv h e in case owner h e of Some l \<Rightarrow> if p \<noteq> Some (Root l) then p else None | None \<Rightarrow> None)"

definition List_Init :: "'v lheap \<Rightarrow> nat \<Rightarrow> 'v lheap" where
  "List_Init h l = set_llen l 0 (set_prv (Root l) (Some (Root l)) (set_nxt (Root l) (Some (Root l)) h))"

text \<open>\<open>new(List)\<close> takes the next unused list address, with zero fields.\<close>

definition List_New :: "'v lheap \<Rightarrow> 'v lheap \<times> nat" where
  "List_New h = (let l = next_list h in
    (List_Init (set_llen l 0 (set_prv (Root l) None (set_nxt (Root l) None h))\<lparr>next_list := l + 1\<rparr>) l, l))"

definition List_Len :: "'v lheap \<Rightarrow> nat \<Rightarrow> int" where
  "List_Len h l = llen h l"

definition List_Front :: "'v lheap \<Rightarrow> nat \<Rightarrow> eptr option" where
  "List_Front h l = (if llen h l = 0 then None else nxt h (Root l))"

definition List_Back :: "'v lheap \<Rightarrow> nat \<Rightarrow> eptr option" where
  "List_Back h l = (if llen h l = 0 then None else prv h (Root l))"

definition lazyInit :: "'v lheap \<Rightarrow> nat \<Rightarrow> 'v lheap" where
  "lazyInit h l = (if nxt h (Root l) = None then List_Init h l else h)"

definition list_insert :: "'v lheap \<Rightarrow> nat \<Rightarrow> eptr \<Rightarrow> eptr option \<Rightarrow> ('v lheap \<times> eptr) go" where
  "list_insert h l e at_ptr =
    (case at_ptr of None \<Rightarrow> nil_deref
     | Some at \<Rightarrow>
       let n = nxt h at;
           h = set_nxt at (Some e) h;
           h = set_prv e (Some at) h;
           h = set_nxt e n h in
       case n of None \<Rightarrow> nil_deref
       | Some n \<Rightarrow>
         let h = set_prv n (Some e) h;
             h = set_owner e (Some l) h;
             h = set_llen l (llen h l + 1) h in
         Inr (h, e))"

text \<open>\<open>&Element{Value: v}\<close> takes the next unused address and clears the other fields.\<close>

definition new_element :: "'v lheap \<Rightarrow> 'v option \<Rightarrow> 'v lheap \<times> eptr" where
  "new_element h v = (let e = Node (next_node h) in
    (set_owner e None (set_prv e None (set_nxt e None h))\<lparr>val := (val h)(e := v), next_node := next_node h + 1\<rparr>, e))"

definition insertValue :: "'v lheap \<Rightarrow> nat \<Rightarrow> 'v option \<Rightarrow> eptr option \<Rightarrow> ('v lheap \<times> eptr) go" where
  "insertValue h l v at_ptr = (case new_element h v of (h, e) \<Rightarrow> list_insert h l e at_ptr)"

definition list_remove :: "'v lheap \<Rightarrow> nat \<Rightarrow> eptr \<Rightarrow> ('v lheap \<times> eptr) go" where
  "list_remove h l e =
    (case prv h e of None \<Rightarrow> nil_deref
     | Some p \<Rightarrow>
       let h = set_nxt p (nxt h e) h in
       case nxt h e of None \<Rightarrow> nil_deref
       | Some n \<Rightarrow>
         let h = set_prv n (prv h e) h;
             h = set_nxt e None h;
             h = set_prv e None h;
             h = set_owner e None h;
             h = set_llen l (llen h l - 1) h in
         Inr (h, e))"

definition List_Remove :: "'v lheap \<Rightarrow> nat \<Rightarrow> eptr \<Rightarrow> ('v lheap \<times> 'v option) go" where
  "List_Remove h l e =
    (if owner h e = Some l then go_bind (list_remove h l e) (\<lambda>(h, _). Inr (h, val h e)) else Inr (h, val h e))"

definition PushFront :: "'v lheap \<Rightarrow> nat \<Rightarrow> 'v option \<Rightarrow> ('v lheap \<times> eptr) go" where
  "PushFront h l v = (let h = lazyInit h l in insertValue h l v (Some (Root l)))"

definition PushBack :: "'v lheap \<Rightarrow> nat \<Rightarrow> 'v option \<Rightarrow> ('v lheap \<times> eptr) go" where
  "PushBack h l v = (let h = lazyInit h l in insertValue h l v (prv h (Root l)))"

definition InsertBefore :: "'v lheap \<Rightarrow> nat \<Rightarrow> 'v option \<Rightarrow> eptr \<Rightarrow> ('v lheap \<times> eptr option) go" where
  "InsertBefore h l v mark =
    (if owner h mark \<noteq> Some l then Inr (h, None)
     else go_bind (insertValue h l v (prv h mark)) (\<lambda>(h, e). Inr (h, Some e)))"

definition InsertAfter :: "'v lheap \<Rightarrow> nat \<Rightarrow> 'v option \<Rightarrow> eptr \<Rightarrow> ('v lheap \<times> eptr option) go" where
  "InsertAfter h l v mark =
    (if owner h mark \<noteq> Some l then Inr (h, None)
     else go_bind (insertValue h l v (Some mark)) (\<lambda>(h, e). Inr (h, Some e)))"

definition MoveToFront :: "'v lheap \<Rightarrow> nat \<Rightarrow> eptr \<Rightarrow> 'v lheap go" where
  "MoveToFront h l e =
    (if owner h e \<noteq> Some l \<or> nxt h (Root l) = Some e then Inr h
     else go_bind (list_remove h l e) (\<lambda>(h, e). go_bind (list_insert h l e (Some (Root l))) (\<lambda>(h, _). Inr h)))"

definition MoveToBack :: "'v lheap \<Rightarrow> nat \<Rightarrow> eptr \<Rightarrow> 'v lheap go" where
  "MoveToBack h l e =
    (if owner h e \<noteq> Some l \<or> prv h (Root l) = Some e then Inr h
     else go_bind (list_remove h l e) (\<lambda>(h, e). go_bind (list_insert h l e (prv h (Root l))) (\<lambda>(h, _). Inr h)))"

definition MoveBefore :: "'v lheap \<Rightarrow> nat \<Rightarrow> eptr \<Rightarrow> eptr \<Rightarrow> 'v lheap go" where
  "MoveBefore h l e mark =
    (if owner h e \<noteq> Some l \<or> e = mark \<or> owner h mark \<noteq> Some l then Inr h
     else go_bind (list_remove h l e) (\<lambda>(h, e). go_bind (list_insert h l e (prv h mark)) (\<lambda>(h, _). Inr h)))"

definition MoveAfter :: "'v lheap \<Rightarrow> nat \<Rightarrow> eptr \<Rightarrow> eptr \<Rightarrow> 'v lheap go" where
  "MoveAfter h l e mark =
    (if owner h e \<noteq> Some l \<or> e = mark \<or> owner h mark \<noteq> Some l then Inr h
     else go_bind (list_remove h l e) (\<lambda>(h, e). go_bind (list_insert h l e (Some mark)) (\<lambda>(h, _). Inr h)))"

function PushBackList_loop :: "'v lheap \<Rightarrow> nat \<Rightarrow> int \<Rightarrow> eptr option \<Rightarrow> 'v lheap go" where
  "PushBackList_loop h l i e =
    (if i > 0 then
       case e of None \<Rightarrow> nil_deref
       | Some e \<Rightarrow> go_bind (insertValue h l (val h e) (prv h (Root l))) (\<lambda>(h, _).
           PushBackList_loop h l (i - 1) (Element_Next h e))
     else Inr h)"
  by pat_completeness auto
termination by (relation "measure (\<lambda>(h, l, i, e). nat i)") auto

function PushFrontList_loop :: "'v lheap \<Rightarrow> nat \<Rightarrow> int \<Rightarrow> eptr option \<Rightarrow> 'v lheap go" where
  "PushFrontList_loop h l i e =
    (if i > 0 then
       case e of None \<Rightarrow> nil_deref
       | Some e \<Rightarrow> go_bind (insertValue h l (val h e) (Some (Root l))) (\<lambda>(h, _).
           PushFrontList_loop h l (i - 1) (Element_Prev h e))
     else Inr h)"
  by pat_completeness auto
termination by (relation "measure (\<lambda>(h, l, i, e). nat i)") auto

declare PushBackList_loop.simps [simp del] PushFrontList_loop.simps [simp del]

definition PushBackList :: "'v lheap \<Rightarrow> nat \<Rightarrow> nat \<Rightarrow> 'v lheap go" where
  "PushBackList h l other = (let h = lazyInit h l in PushBackList_loop h l (List_Len h other) (List_Front h other))"

definition PushFrontList :: "'v lheap \<Rightarrow> nat \<Rightarrow> nat \<Rightarrow> 'v lheap go" where
  "PushFrontList h l other = (let h = lazyInit h l in PushFrontList_loop h l (List_Len h other) (List_Back h other))"

section \<open>The sequences the lists stand for\<close>

text \<open>
  \<open>lists_ok S h X\<close>: list \<open>l\<close> holds the elements \<open>X l\<close>. A list that was never initialised is empty; every
  other is a ring through its root. An element belongs to the list its \<open>list\<close> field names, unless it is one of
  the elements \<open>S\<close> that were in a list when \<open>Init\<close> cleared it: their \<open>list\<close> field still names that list.
\<close>

definition list_ok :: "'v lheap \<Rightarrow> nat \<Rightarrow> nat list \<Rightarrow> bool" where
  "list_ok h l xs \<longleftrightarrow> llen h l = int (length xs) \<and>
    (if nxt h (Root l) = None then xs = [] else cyc (nxt h) (prv h) (Root l # map Node xs))"

definition lists_ok :: "nat set \<Rightarrow> 'v lheap \<Rightarrow> (nat \<Rightarrow> nat list) \<Rightarrow> bool" where
  "lists_ok S h X \<longleftrightarrow> (\<forall>l. list_ok h l (X l)) \<and> (\<forall>x l. x \<notin> S \<longrightarrow> owner h (Node x) = Some l \<longleftrightarrow> x \<in> set (X l)) \<and>
    (\<forall>x l. x \<in> set (X l) \<longrightarrow> x \<notin> S \<and> x < next_node h \<and> l < next_list h) \<and> (\<forall>x \<in> S. x < next_node h)"

lemma list_ok_frame:
  assumes "list_ok h l xs" "llen h' l = llen h l"
    and "\<And>p. p = Root l \<or> p \<in> Node ` set xs \<Longrightarrow> nxt h' p = nxt h p \<and> prv h' p = prv h p"
  shows "list_ok h' l xs"
  using assms cyc_cong [of "Root l # map Node xs" "nxt h'" "nxt h" "prv h'" "prv h"] by (auto simp: list_ok_def)

lemma lists_ok_owner: "lists_ok S h X \<Longrightarrow> x \<notin> S \<Longrightarrow> owner h (Node x) = Some l \<longleftrightarrow> x \<in> set (X l)"
  by (simp add: lists_ok_def)

lemma lists_ok_member: "lists_ok S h X \<Longrightarrow> x \<in> set (X l) \<Longrightarrow> x \<notin> S \<and> owner h (Node x) = Some l"
  by (auto simp: lists_ok_def)

lemma lists_ok_list: "lists_ok S h X \<Longrightarrow> list_ok h l (X l)"
  by (simp add: lists_ok_def)

lemma lists_ok_unique: "lists_ok S h X \<Longrightarrow> x \<in> set (X k) \<Longrightarrow> x \<in> set (X l) \<Longrightarrow> k = l"
  by (metis lists_ok_member option.inject)

lemma lists_ok_cyc: "lists_ok S h X \<Longrightarrow> nxt h (Root l) \<noteq> None \<Longrightarrow> cyc (nxt h) (prv h) (Root l # map Node (X l))"
  by (auto simp: lists_ok_def list_ok_def)

lemma lists_ok_init: "lists_ok S h X \<Longrightarrow> x \<in> set (X l) \<Longrightarrow> nxt h (Root l) \<noteq> None"
  using lists_ok_list [of S h X l] by (auto simp: list_ok_def split: if_splits)

lemma lists_ok_distinct: "lists_ok S h X \<Longrightarrow> distinct (X l)"
  by (cases "nxt h (Root l) = None")
    (auto simp: lists_ok_def list_ok_def distinct_map dest!: spec [of _ l] cyc_distinct)

lemma lists_ok_llen: "lists_ok S h X \<Longrightarrow> llen h l = int (length (X l))"
  by (simp add: lists_ok_def list_ok_def)

text \<open>What the two internal operations do to all the lists.\<close>

lemma other_list:
  assumes "lists_ok S h X" "k \<noteq> l" "q = Root k \<or> q \<in> Node ` set (X k)"
  shows "q \<noteq> Root l \<and> q \<notin> Node ` set (X l)"
  using assms(2,3) lists_ok_unique [OF assms(1), of _ k l] by auto

lemma lists_ok_update:
  assumes ok: "lists_ok S h X" and new: "cyc (nxt h') (prv h') (Root l # map Node xs)"
    and len: "llen h' = (llen h)(l := int (length xs))"
    and x: "\<And>k. k \<noteq> l \<Longrightarrow> x \<notin> set (X k)" "x \<notin> S" and xs: "set xs \<subseteq> insert x (set (X l))"
    and frame: "\<And>q. q \<noteq> Root l \<Longrightarrow> q \<noteq> Node x \<Longrightarrow> q \<notin> Node ` set (X l) \<Longrightarrow>
      nxt h' q = nxt h q \<and> prv h' q = prv h q \<and> owner h' q = owner h q"
    and own: "\<And>y. y = x \<or> y \<in> set (X l) \<Longrightarrow> owner h' (Node y) = (if y \<in> set xs then Some l else None)"
    and bounds: "x < next_node h'" "l < next_list h'" "next_node h' = next_node h" "next_list h' = next_list h"
  shows "lists_ok S h' (X(l := xs))"
  unfolding lists_ok_def
proof (intro conjI allI impI)
  fix k show "list_ok h' k ((X(l := xs)) k)"
  proof (cases "k = l")
    case True
    then show ?thesis using new cyc_next [OF new] len by (simp add: list_ok_def)
  next
    case False
    have "list_ok h' k (X k)"
    proof (rule list_ok_frame)
      show "list_ok h k (X k)" using ok by (simp add: lists_ok_def)
      show "llen h' k = llen h k" using False len by simp
      fix q assume q: "q = Root k \<or> q \<in> Node ` set (X k)"
      then have "q \<noteq> Node x" using x(1) [OF False] by auto
      with other_list [OF ok False q] show "nxt h' q = nxt h q \<and> prv h' q = prv h q" using frame by blast
    qed
    then show ?thesis using False by simp
  qed
next
  fix y k assume y: "y \<notin> S"
  show "owner h' (Node y) = Some k \<longleftrightarrow> y \<in> set ((X(l := xs)) k)"
  proof (cases "y = x \<or> y \<in> set (X l)")
    case True
    then have "y \<in> set (X k) \<Longrightarrow> k = l" using x(1) lists_ok_unique [OF ok, of y] by auto
    then show ?thesis using own [OF True] by auto
  next
    case False
    then have "owner h' (Node y) = owner h (Node y)" using frame [of "Node y"] by auto
    then show ?thesis using False xs lists_ok_owner [OF ok y] by auto
  qed
next
  fix y k assume "y \<in> set ((X(l := xs)) k)"
  then show "y \<notin> S" "y < next_node h'" "k < next_list h'"
    using ok xs x(2) bounds by (auto simp: lists_ok_def split: if_splits)
next
  show "\<forall>y \<in> S. y < next_node h'" using ok bounds by (simp add: lists_ok_def)
qed

lemma list_insert_ok:
  assumes ok: "lists_ok S h X" and i: "nxt h (Root l) \<noteq> None" "l < next_list h"
    and x: "owner h (Node x) = None" "x < next_node h" "x \<notin> S"
    and at: "Root l # map Node (X l) = us @ at # vs" and xs: "Root l # map Node xs = us @ at # Node x # vs"
  obtains h' where "list_insert h l (Node x) (Some at) = Inr (h', Node x)" "lists_ok S h' (X(l := xs))"
    "val h' = val h" "next_node h' = next_node h" "next_list h' = next_list h" "nxt h' (Root l) \<noteq> None"
proof -
  note c = lists_ok_cyc [OF ok i(1), unfolded at]
  have fresh: "x \<notin> set (X k)" for k using x(1) lists_ok_member [OF ok, of x k] by auto
  have nodes: "q \<in> set (us @ at # vs) \<Longrightarrow> q = Root l \<or> q \<in> Node ` set (X l)" for q unfolding at [symmetric] by auto
  have e: "Node x \<notin> set (us @ at # vs)" using fresh [of l] by (auto simp: at [symmetric])
  have "nxt h at = Some (hd (vs @ us @ [at]))"
    using cyc_rotate [of _ _ us "at # vs"] c cyc_next [of "nxt h" "prv h" at "vs @ us"] by simp
  then obtain n where n: "nxt h at = Some n" "n \<in> set (us @ at # vs)" using hd_in_set [of "vs @ us @ [at]"] by auto
  define h' where "h' = set_llen l (llen h l + 1) (set_owner (Node x) (Some l)
    (h\<lparr>nxt := (nxt h)(at := Some (Node x), Node x := Some n), prv := (prv h)(Node x := Some at, n := Some (Node x))\<rparr>))"
  have "set (Root l # map Node xs) = insert (Node x) (set (Root l # map Node (X l)))" unfolding at xs by auto
  then have "Node ` set xs = Node ` insert x (set (X l))" by auto
  then have xs_set: "set xs = insert x (set (X l))" by (metis eptr.inject(2) inj_image_eq_iff injI)
  have "length (Root l # map Node xs) = Suc (length (Root l # map Node (X l)))" unfolding at xs by simp
  then have len: "length xs = Suc (length (X l))" by simp
  have new: "cyc (nxt h') (prv h') (Root l # map Node xs)"
    unfolding xs using cyc_insert [OF c e n(1)] by (simp add: h'_def)
  have "lists_ok S h' (X(l := xs))"
  proof (rule lists_ok_update [OF ok new])
    show "llen h' = (llen h)(l := int (length xs))" using lists_ok_llen [OF ok, of l] len by (simp add: h'_def add.commute)
    show "owner h' (Node y) = (if y \<in> set xs then Some l else None)" if "y = x \<or> y \<in> set (X l)" for y
      using that xs_set lists_ok_member [OF ok, of y l] by (auto simp: h'_def)
    show "nxt h' q = nxt h q \<and> prv h' q = prv h q \<and> owner h' q = owner h q"
      if "q \<noteq> Root l" "q \<noteq> Node x" "q \<notin> Node ` set (X l)" for q
      using that nodes [of at] nodes [OF n(2)] by (auto simp: h'_def)
  qed (use fresh xs_set x i in \<open>auto simp: h'_def\<close>)
  moreover have "nxt h' (Root l) \<noteq> None" using cyc_next [OF new] by simp
  ultimately show ?thesis by (intro that [of h']) (simp_all add: h'_def list_insert_def n(1))
qed

lemma list_remove_ok:
  assumes ok: "lists_ok S h X" and x: "x \<in> set (X l)"
  obtains h' where "list_remove h l (Node x) = Inr (h', Node x)" "lists_ok S h' (X(l := remove1 x (X l)))"
    "val h' = val h" "next_node h' = next_node h" "next_list h' = next_list h" "nxt h' (Root l) \<noteq> None"
    "owner h' (Node x) = None"
proof -
  obtain us vs where sp: "X l = us @ x # vs" "x \<notin> set us" using split_list_first [OF x] by blast
  have d: "distinct (X l)" using lists_ok_distinct [OF ok] .
  then have rem: "remove1 x (X l) = us @ vs" using sp by (simp add: remove1_append)
  have c: "cyc (nxt h) (prv h) ((Root l # map Node us) @ Node x # map Node vs)"
    using lists_ok_cyc [OF ok lists_ok_init [OF ok x]] by (simp add: sp(1))
  obtain p n where pn: "nxt h (Node x) = Some n" "prv h (Node x) = Some p"
      "n \<in> set ((Root l # map Node us) @ map Node vs)" "p \<in> set ((Root l # map Node us) @ map Node vs)"
      "cyc ((nxt h)(p := Some n)) ((prv h)(n := Some p)) ((Root l # map Node us) @ map Node vs)"
    by (rule cyc_remove [OF c]) auto
  have nx: "Node x \<notin> set ((Root l # map Node us) @ map Node vs)" using d sp by auto
  then have ne: "p \<noteq> Node x" "n \<noteq> Node x" using pn(3,4) by blast+
  define h' where "h' = set_llen l (llen h l - 1) (set_owner (Node x) None
    (h\<lparr>nxt := (nxt h)(p := Some n, Node x := None), prv := (prv h)(n := Some p, Node x := None)\<rparr>))"
  have new: "cyc (nxt h') (prv h') (Root l # map Node (us @ vs))"
    using pn(5) nx by (simp add: h'_def cyc_frame)
  have "lists_ok S h' (X(l := us @ vs))"
  proof (rule lists_ok_update [OF ok new])
    show "llen h' = (llen h)(l := int (length (us @ vs)))" using lists_ok_llen [OF ok, of l] by (simp add: h'_def sp(1))
    show "x \<notin> set (X k)" if "k \<noteq> l" for k using that x lists_ok_unique [OF ok, of x] by auto
    show "owner h' (Node y) = (if y \<in> set (us @ vs) then Some l else None)" if "y = x \<or> y \<in> set (X l)" for y
      using that d sp lists_ok_member [OF ok, of y l] by (auto simp: h'_def)
    show "nxt h' q = nxt h q \<and> prv h' q = prv h q \<and> owner h' q = owner h q"
      if "q \<noteq> Root l" "q \<noteq> Node x" "q \<notin> Node ` set (X l)" for q
      using that pn(3,4) by (auto simp: h'_def sp(1))
    show "x \<notin> S" "x < next_node h'" "l < next_list h'" using ok x by (auto simp: h'_def lists_ok_def)
  qed (auto simp: h'_def sp(1))
  moreover have "nxt h' (Root l) \<noteq> None" using cyc_next [OF new] by simp
  ultimately show ?thesis unfolding rem [symmetric] using ne
    by (intro that [of h']) (simp_all add: h'_def list_remove_def pn(1,2) fun_upd_twist)
qed

lemma new_element_ok:
  assumes "lists_ok S h X" "new_element h v = (h', e)"
  shows "lists_ok S h' X" "next_node h \<notin> S" "e = Node (next_node h)" "next_node h' = next_node h + 1" "next_list h' = next_list h"
    "owner h' e = None" "val h' = (val h)(e := v)" "nxt h' (Root l) = nxt h (Root l)" "prv h' (Root l) = prv h (Root l)"
proof -
  have fresh: "next_node h \<notin> set (X k)" for k using assms(1) by (auto simp: lists_ok_def)
  show "next_node h \<notin> S" using assms(1) by (auto simp: lists_ok_def)
  show "e = Node (next_node h)" "next_node h' = next_node h + 1" "next_list h' = next_list h"
    "owner h' e = None" "val h' = (val h)(e := v)" "nxt h' (Root l) = nxt h (Root l)" "prv h' (Root l) = prv h (Root l)"
    using assms(2) by (auto simp: new_element_def Let_def)
  show "lists_ok S h' X"
    unfolding lists_ok_def
  proof (intro conjI allI impI)
    fix k show "list_ok h' k (X k)"
      by (rule list_ok_frame [OF lists_ok_list [OF assms(1)]]) (use assms(2) fresh in \<open>auto simp: new_element_def Let_def\<close>)
  next
    fix x k assume "x \<notin> S"
    then show "owner h' (Node x) = Some k \<longleftrightarrow> x \<in> set (X k)"
      using assms fresh [of k] by (cases "x = next_node h") (auto simp: lists_ok_def new_element_def Let_def)
  next
    fix x k assume "x \<in> set (X k)"
    then show "x \<notin> S" "x < next_node h'" "k < next_list h'"
      using assms by (auto simp: lists_ok_def new_element_def Let_def less_Suc_eq)
  next
    show "\<forall>x \<in> S. x < next_node h'" using assms by (auto simp: lists_ok_def new_element_def Let_def less_Suc_eq)
  qed
qed

lemma insertValue_ok:
  assumes "lists_ok S h X" and "nxt h (Root l) \<noteq> None" "l < next_list h"
    and "Root l # map Node (X l) = us @ at # vs" and "Root l # map Node xs = us @ at # Node (next_node h) # vs"
  obtains h' where "insertValue h l v (Some at) = Inr (h', Node (next_node h))" "lists_ok S h' (X(l := xs))"
    "val h' = (val h)(Node (next_node h) := v)" "next_node h' = next_node h + 1" "next_list h' = next_list h"
    "nxt h' (Root l) \<noteq> None"
proof -
  obtain h1 e where n: "new_element h v = (h1, e)" by force
  note ne = new_element_ok [OF assms(1) n]
  obtain h' where "list_insert h1 l (Node (next_node h)) (Some at) = Inr (h', Node (next_node h))" "lists_ok S h' (X(l := xs))"
    "val h' = val h1" "next_node h' = next_node h1" "next_list h' = next_list h1" "nxt h' (Root l) \<noteq> None"
    by (rule list_insert_ok [OF ne(1), of l "next_node h" us at vs xs]) (use ne assms in auto)
  then show ?thesis using ne n by (intro that [of h']) (simp_all add: insertValue_def)
qed

lemma list_ok_prev_root: "lists_ok S h X \<Longrightarrow> nxt h (Root l) \<noteq> None \<Longrightarrow>
    prv h (Root l) = Some (last (Root l # map Node (X l)))"
  using cyc_prev [OF lists_ok_cyc] by blast

lemma lazyInit_ok:
  assumes "lists_ok S h X"
  shows "lists_ok S (lazyInit h l) X" "nxt (lazyInit h l) (Root l) \<noteq> None" "val (lazyInit h l) = val h"
    "next_node (lazyInit h l) = next_node h" "next_list (lazyInit h l) = next_list h"
proof -
  show "nxt (lazyInit h l) (Root l) \<noteq> None" "val (lazyInit h l) = val h" "next_node (lazyInit h l) = next_node h"
    "next_list (lazyInit h l) = next_list h"
    by (auto simp: lazyInit_def List_Init_def)
  show "lists_ok S (lazyInit h l) X"
  proof (cases "nxt h (Root l) = None")
    case True
    have "list_ok (List_Init h l) k (X k)" for k
    proof (cases "k = l")
      case True
      then have "X l = []" "llen h l = 0" using assms \<open>nxt h (Root l) = None\<close> by (auto simp: lists_ok_def list_ok_def dest: spec [of _ l])
      then show ?thesis using True by (simp add: list_ok_def List_Init_def cyc_self)
    next
      case False
      then show ?thesis
        by (intro list_ok_frame [OF lists_ok_list [OF assms]]) (auto simp: List_Init_def)
    qed
    then show ?thesis using assms True by (simp add: lists_ok_def lazyInit_def List_Init_def)
  qed (use assms in \<open>auto simp: lazyInit_def\<close>)
qed

section \<open>The operations on sequences\<close>

text \<open>The reference: a new element before or after a given one.\<close>

fun ins_before :: "'a \<Rightarrow> 'a \<Rightarrow> 'a list \<Rightarrow> 'a list" where
  "ins_before m x [] = []"
| "ins_before m x (y # ys) = (if y = m then x # y # ys else y # ins_before m x ys)"

fun ins_after :: "'a \<Rightarrow> 'a \<Rightarrow> 'a list \<Rightarrow> 'a list" where
  "ins_after m x [] = []"
| "ins_after m x (y # ys) = (if y = m then y # x # ys else y # ins_after m x ys)"

lemma ins_before_split: "m \<notin> set us \<Longrightarrow> ins_before m x (us @ m # vs) = us @ x # m # vs"
  by (induction us) auto

lemma ins_after_split: "m \<notin> set us \<Longrightarrow> ins_after m x (us @ m # vs) = us @ m # x # vs"
  by (induction us) auto

text \<open>The four places an element is inserted at.\<close>

lemma at_front: "Root l # map Node xs = [] @ Root l # map Node xs" "Root l # map Node (x # xs) = [] @ Root l # Node x # map Node xs"
  by simp_all

lemma at_back:
  "Root l # map Node xs = butlast (Root l # map Node xs) @ last (Root l # map Node xs) # []"
  "Root l # map Node (xs @ [x]) = butlast (Root l # map Node xs) @ last (Root l # map Node xs) # Node x # []"
  using append_butlast_last_id [of "Root l # map Node xs"] by (simp_all del: last.simps butlast.simps)

lemma at_after:
  assumes "m \<in> set xs"
  obtains us vs where "Root l # map Node xs = us @ Node m # vs" "Root l # map Node (ins_after m x xs) = us @ Node m # Node x # vs"
proof -
  obtain ys zs where "xs = ys @ m # zs" "m \<notin> set ys" using split_list_first [OF assms] by blast
  then show ?thesis using that [of "Root l # map Node ys" "map Node zs"] by (simp add: ins_after_split)
qed

lemma at_before:
  assumes "lists_ok S h X" "m \<in> set (X l)"
  obtains us at vs where "prv h (Node m) = Some at" "Root l # map Node (X l) = us @ at # vs"
    "Root l # map Node (ins_before m x (X l)) = us @ at # Node x # vs"
proof -
  obtain ys zs where y: "X l = ys @ m # zs" "m \<notin> set ys" using split_list_first [OF assms(2)] by blast
  define A where "A = Root l # map Node ys"
  have A: "A = butlast A @ [last A]" by (simp add: A_def)
  have "cyc (nxt h) (prv h) (A @ Node m # map Node zs)"
    using lists_ok_cyc [OF assms(1) lists_ok_init [OF assms]] by (simp add: A_def y(1))
  then have "prv h (Node m) = Some (last A)" by (rule cyc_prev_mid) (simp add: A_def)
  moreover have "Root l # map Node (X l) = butlast A @ last A # Node m # map Node zs"
    using A by (simp add: y(1) A_def)
  moreover have "Root l # map Node (ins_before m x (X l)) = butlast A @ last A # Node x # Node m # map Node zs"
    using A by (simp add: y ins_before_split A_def)
  ultimately show ?thesis by (rule that)
qed

text \<open>
  The abstract machine: the sequence of every list, the value of every element, the numbers of elements and
  lists made so far, and the elements that were in a list when \<open>Init\<close> cleared it.
\<close>

record 'v alists =
  contents :: "nat \<Rightarrow> nat list"
  vals :: "nat \<Rightarrow> 'v option"
  nodes :: nat
  nlists :: nat
  gone :: "nat set"

datatype 'v list_op =
    OpNew
  | OpInit nat
  | OpPushFront nat "'v option" | OpPushBack nat "'v option"
  | OpInsertBefore nat "'v option" nat | OpInsertAfter nat "'v option" nat
  | OpRemove nat nat
  | OpMoveToFront nat nat | OpMoveToBack nat nat
  | OpMoveBefore nat nat nat | OpMoveAfter nat nat nat
  | OpPushBackList nat nat | OpPushFrontList nat nat

definition put :: "nat \<Rightarrow> nat list \<Rightarrow> 'v alists \<Rightarrow> 'v alists" where
  "put l xs A = A\<lparr>contents := (contents A)(l := xs)\<rparr>"

definition alloc :: "'v option \<Rightarrow> 'v alists \<Rightarrow> 'v alists" where
  "alloc v A = A\<lparr>vals := (vals A)(nodes A := v), nodes := nodes A + 1\<rparr>"

definition alloc_list :: "'v option list \<Rightarrow> 'v alists \<Rightarrow> 'v alists" where
  "alloc_list vs A = fold alloc vs A"

fun aexec :: "'v alists \<Rightarrow> 'v list_op \<Rightarrow> 'v alists" where
  "aexec A OpNew = A\<lparr>nlists := nlists A + 1\<rparr>"
| "aexec A (OpInit l) = (put l [] A)\<lparr>gone := gone A \<union> set (contents A l)\<rparr>"
| "aexec A (OpPushFront l v) = alloc v (put l (nodes A # contents A l) A)"
| "aexec A (OpPushBack l v) = alloc v (put l (contents A l @ [nodes A]) A)"
| "aexec A (OpInsertBefore l v m) =
    (if m \<in> set (contents A l) then alloc v (put l (ins_before m (nodes A) (contents A l)) A) else A)"
| "aexec A (OpInsertAfter l v m) =
    (if m \<in> set (contents A l) then alloc v (put l (ins_after m (nodes A) (contents A l)) A) else A)"
| "aexec A (OpRemove l x) = put l (remove1 x (contents A l)) A"
| "aexec A (OpMoveToFront l x) =
    (if x \<in> set (contents A l) then put l (x # remove1 x (contents A l)) A else A)"
| "aexec A (OpMoveToBack l x) =
    (if x \<in> set (contents A l) then put l (remove1 x (contents A l) @ [x]) A else A)"
| "aexec A (OpMoveBefore l x m) =
    (if x \<in> set (contents A l) \<and> m \<in> set (contents A l) \<and> x \<noteq> m
     then put l (ins_before m x (remove1 x (contents A l))) A else A)"
| "aexec A (OpMoveAfter l x m) =
    (if x \<in> set (contents A l) \<and> m \<in> set (contents A l) \<and> x \<noteq> m
     then put l (ins_after m x (remove1 x (contents A l))) A else A)"
| "aexec A (OpPushBackList l k) =
    (let n = length (contents A k) in
     alloc_list (map (vals A) (contents A k)) (put l (contents A l @ [nodes A..<nodes A + n]) A))"
| "aexec A (OpPushFrontList l k) =
    (let n = length (contents A k) in
     alloc_list (map (vals A) (rev (contents A k))) (put l (rev [nodes A..<nodes A + n] @ contents A l) A))"

fun exec :: "'v lheap \<Rightarrow> 'v list_op \<Rightarrow> 'v lheap go" where
  "exec h OpNew = Inr (fst (List_New h))"
| "exec h (OpInit l) = Inr (List_Init h l)"
| "exec h (OpPushFront l v) = go_bind (PushFront h l v) (\<lambda>(h, _). Inr h)"
| "exec h (OpPushBack l v) = go_bind (PushBack h l v) (\<lambda>(h, _). Inr h)"
| "exec h (OpInsertBefore l v m) = go_bind (InsertBefore h l v (Node m)) (\<lambda>(h, _). Inr h)"
| "exec h (OpInsertAfter l v m) = go_bind (InsertAfter h l v (Node m)) (\<lambda>(h, _). Inr h)"
| "exec h (OpRemove l x) = go_bind (List_Remove h l (Node x)) (\<lambda>(h, _). Inr h)"
| "exec h (OpMoveToFront l x) = MoveToFront h l (Node x)"
| "exec h (OpMoveToBack l x) = MoveToBack h l (Node x)"
| "exec h (OpMoveBefore l x m) = MoveBefore h l (Node x) (Node m)"
| "exec h (OpMoveAfter l x m) = MoveAfter h l (Node x) (Node m)"
| "exec h (OpPushBackList l k) = PushBackList h l k"
| "exec h (OpPushFrontList l k) = PushFrontList h l k"

text \<open>
  The list an operation works on exists; the elements it names may be of any list, or of none, but are not
  elements that a list lost when it was cleared.
\<close>

fun op_list :: "'v alists \<Rightarrow> 'v list_op \<Rightarrow> bool" where
  "op_list A OpNew = True"
| "op_list A (OpInit l) = (l < nlists A)"
| "op_list A (OpPushFront l v) = (l < nlists A)"
| "op_list A (OpPushBack l v) = (l < nlists A)"
| "op_list A (OpInsertBefore l v m) = (l < nlists A \<and> m \<notin> gone A)"
| "op_list A (OpInsertAfter l v m) = (l < nlists A \<and> m \<notin> gone A)"
| "op_list A (OpRemove l x) = (l < nlists A \<and> x \<notin> gone A)"
| "op_list A (OpMoveToFront l x) = (l < nlists A \<and> x \<notin> gone A)"
| "op_list A (OpMoveToBack l x) = (l < nlists A \<and> x \<notin> gone A)"
| "op_list A (OpMoveBefore l x m) = (l < nlists A \<and> x \<notin> gone A \<and> m \<notin> gone A)"
| "op_list A (OpMoveAfter l x m) = (l < nlists A \<and> x \<notin> gone A \<and> m \<notin> gone A)"
| "op_list A (OpPushBackList l k) = (l < nlists A)"
| "op_list A (OpPushFrontList l k) = (l < nlists A)"

definition sim :: "'v lheap \<Rightarrow> 'v alists \<Rightarrow> bool" where
  "sim h A \<longleftrightarrow> lists_ok (gone A) h (contents A) \<and> (\<forall>x. val h (Node x) = vals A x) \<and> next_node h = nodes A \<and> next_list h = nlists A"

lemma sim_ok: "sim h A \<Longrightarrow> lists_ok (gone A) h (contents A)"
  by (simp add: sim_def)

lemma sim_owner: "sim h A \<Longrightarrow> x \<notin> gone A \<Longrightarrow> owner h (Node x) = Some l \<longleftrightarrow> x \<in> set (contents A l)"
  using lists_ok_owner [OF sim_ok] by blast

lemma sim_member: "sim h A \<Longrightarrow> x \<in> set (contents A l) \<Longrightarrow> x \<notin> gone A \<and> owner h (Node x) = Some l"
  using lists_ok_member [OF sim_ok] by blast

lemma sim_lazyInit: "sim h A \<Longrightarrow> sim (lazyInit h l) A"
  using lazyInit_ok [of "gone A" h "contents A" l] by (simp add: sim_def)

lemma sim_insertValue:
  assumes "sim h A" "nxt h (Root l) \<noteq> None" "l < nlists A"
    and "Root l # map Node (contents A l) = us @ at # vs" "Root l # map Node xs = us @ at # Node (nodes A) # vs"
  obtains h' where "insertValue h l v (Some at) = Inr (h', Node (nodes A))" "sim h' (alloc v (put l xs A))"
    "nxt h' (Root l) \<noteq> None"
proof -
  obtain h' where "insertValue h l v (Some at) = Inr (h', Node (next_node h))" "lists_ok (gone A) h' ((contents A)(l := xs))"
    "val h' = (val h)(Node (next_node h) := v)" "next_node h' = next_node h + 1" "next_list h' = next_list h"
    "nxt h' (Root l) \<noteq> None"
    by (rule insertValue_ok [of "gone A" h "contents A" l us at vs xs v]) (use assms in \<open>auto simp: sim_def\<close>)
  then show ?thesis using assms(1) by (intro that [of h']) (simp_all add: sim_def put_def alloc_def)
qed

lemma sim_remove:
  assumes "sim h A" "x \<in> set (contents A l)"
  obtains h' where "list_remove h l (Node x) = Inr (h', Node x)" "sim h' (put l (remove1 x (contents A l)) A)"
    "nxt h' (Root l) \<noteq> None" "owner h' (Node x) = None" "val h' = val h"
proof -
  obtain h' where "list_remove h l (Node x) = Inr (h', Node x)" "lists_ok (gone A) h' ((contents A)(l := remove1 x (contents A l)))"
    "val h' = val h" "next_node h' = next_node h" "next_list h' = next_list h" "nxt h' (Root l) \<noteq> None"
    "owner h' (Node x) = None"
    by (rule list_remove_ok [OF sim_ok [OF assms(1)] assms(2)])
  then show ?thesis using assms(1) by (intro that [of h']) (simp_all add: sim_def put_def)
qed

lemma sim_insert:
  assumes "sim h A" "nxt h (Root l) \<noteq> None" "l < nlists A" "owner h (Node x) = None" "x < nodes A" "x \<notin> gone A"
    and "Root l # map Node (contents A l) = us @ at # vs" "Root l # map Node xs = us @ at # Node x # vs"
  obtains h' where "list_insert h l (Node x) (Some at) = Inr (h', Node x)" "sim h' (put l xs A)"
proof -
  obtain h' where "list_insert h l (Node x) (Some at) = Inr (h', Node x)" "lists_ok (gone A) h' ((contents A)(l := xs))"
    "val h' = val h" "next_node h' = next_node h" "next_list h' = next_list h"
    by (rule list_insert_ok [of "gone A" h "contents A" l x us at vs xs]) (use assms in \<open>auto simp: sim_def\<close>)
  then show ?thesis using assms(1) by (intro that [of h']) (simp_all add: sim_def put_def)
qed

lemma put_simps [simp]:
  "contents (put l xs A) k = (if k = l then xs else contents A k)" "nodes (put l xs A) = nodes A"
  "nlists (put l xs A) = nlists A" "vals (put l xs A) = vals A" "put l ys (put l xs A) = put l ys A"
  "put l (contents A l) A = A" "gone (put l xs A) = gone A"
  by (simp_all add: put_def)

text \<open>Every operation, on every heap.\<close>

lemma PushFront_sim:
  assumes "sim h A" "l < nlists A"
  obtains h' where "PushFront h l v = Inr (h', Node (nodes A))" "sim h' (alloc v (put l (nodes A # contents A l) A))"
proof -
  note i = sim_lazyInit [OF assms(1)] lazyInit_ok(2) [OF sim_ok [OF assms(1)]]
  show ?thesis
    by (rule sim_insertValue [OF i assms(2) at_front, of v]) (rule that, simp_all add: PushFront_def)
qed

lemma PushBack_sim:
  assumes "sim h A" "l < nlists A"
  obtains h' where "PushBack h l v = Inr (h', Node (nodes A))" "sim h' (alloc v (put l (contents A l @ [nodes A]) A))"
proof -
  note i = sim_lazyInit [OF assms(1)] lazyInit_ok(2) [OF sim_ok [OF assms(1)]]
  show ?thesis
    by (rule sim_insertValue [OF i assms(2) at_back, of v])
      (rule that, simp_all only: PushBack_def Let_def list_ok_prev_root [OF sim_ok [OF i(1)] i(2)])
qed

lemma InsertBefore_sim:
  assumes "sim h A" "l < nlists A" "m \<notin> gone A"
  obtains h' where "InsertBefore h l v (Node m) = Inr (h', if m \<in> set (contents A l) then Some (Node (nodes A)) else None)"
    "sim h' (aexec A (OpInsertBefore l v m))"
proof (cases "m \<in> set (contents A l)")
  case True
  note ok = sim_ok [OF assms(1)]
  obtain us at vs where w: "prv h (Node m) = Some at" "Root l # map Node (contents A l) = us @ at # vs"
      "Root l # map Node (ins_before m (nodes A) (contents A l)) = us @ at # Node (nodes A) # vs"
    by (rule at_before [OF ok True])
  show ?thesis
    by (rule sim_insertValue [OF assms(1) lists_ok_init [OF ok True] assms(2) w(2,3), of v])
      (rule that, simp_all add: InsertBefore_def sim_owner [OF assms(1,3)] True w(1))
next
  case False
  then show ?thesis using assms(1) by (intro that [of h]) (simp_all add: InsertBefore_def sim_owner [OF assms(1,3)])
qed

lemma InsertAfter_sim:
  assumes "sim h A" "l < nlists A" "m \<notin> gone A"
  obtains h' where "InsertAfter h l v (Node m) = Inr (h', if m \<in> set (contents A l) then Some (Node (nodes A)) else None)"
    "sim h' (aexec A (OpInsertAfter l v m))"
proof (cases "m \<in> set (contents A l)")
  case True
  note ok = sim_ok [OF assms(1)]
  obtain us vs where w: "Root l # map Node (contents A l) = us @ Node m # vs"
      "Root l # map Node (ins_after m (nodes A) (contents A l)) = us @ Node m # Node (nodes A) # vs"
    by (rule at_after [OF True])
  show ?thesis
    by (rule sim_insertValue [OF assms(1) lists_ok_init [OF ok True] assms(2) w, of v])
      (rule that, simp_all add: InsertAfter_def sim_owner [OF assms(1,3)] True)
next
  case False
  then show ?thesis using assms(1) by (intro that [of h]) (simp_all add: InsertAfter_def sim_owner [OF assms(1,3)])
qed

lemma Remove_sim:
  assumes "sim h A" "x \<notin> gone A"
  obtains h' where "List_Remove h l (Node x) = Inr (h', vals A x)" "sim h' (aexec A (OpRemove l x))"
proof (cases "x \<in> set (contents A l)")
  case True
  have v: "val h (Node x) = vals A x" using assms by (simp add: sim_def)
  show ?thesis
    by (rule sim_remove [OF assms(1) True]) (rule that, simp_all add: List_Remove_def sim_owner [OF assms] True v)
next
  case False
  then have "remove1 x (contents A l) = contents A l" by (rule remove1_idem)
  moreover have "val h (Node x) = vals A x" using assms by (simp add: sim_def)
  moreover have "owner h (Node x) \<noteq> Some l" using sim_owner [OF assms] False by blast
  ultimately show ?thesis using assms by (intro that [of h]) (simp_all add: List_Remove_def)
qed

text \<open>A move is a removal and an insertion of the same element.\<close>

lemma sim_move:
  assumes "sim h A" "l < nlists A" "x \<in> set (contents A l)"
    and place: "\<And>h'. sim h' (put l (remove1 x (contents A l)) A) \<Longrightarrow> nxt h' (Root l) \<noteq> None \<Longrightarrow>
      \<exists>us at vs. f h' = Some at \<and> Root l # map Node (remove1 x (contents A l)) = us @ at # vs \<and>
        Root l # map Node xs = us @ at # Node x # vs"
  shows "\<exists>h'. go_bind (list_remove h l (Node x)) (\<lambda>(h, e). go_bind (list_insert h l e (f h)) (\<lambda>(h, _). Inr h)) = Inr h' \<and>
    sim h' (put l xs A)"
proof -
  obtain h1 where r: "list_remove h l (Node x) = Inr (h1, Node x)" "sim h1 (put l (remove1 x (contents A l)) A)"
      "nxt h1 (Root l) \<noteq> None" "owner h1 (Node x) = None"
    by (rule sim_remove [OF assms(1,3)])
  obtain us at vs where w: "f h1 = Some at" "Root l # map Node (remove1 x (contents A l)) = us @ at # vs"
      "Root l # map Node xs = us @ at # Node x # vs"
    using place [OF r(2,3)] by blast
  have "x < nodes A" "x \<notin> gone A" using assms(1,3) by (auto simp: sim_def lists_ok_def)
  then obtain h2 where "list_insert h1 l (Node x) (Some at) = Inr (h2, Node x)" "sim h2 (put l xs (put l (remove1 x (contents A l)) A))"
    by (rule_tac sim_insert [OF r(2,3) _ r(4), of us at vs xs]) (use assms(2) w in auto)
  then show ?thesis using r(1) w(1) by auto
qed

lemma root_next: "sim h A \<Longrightarrow> nxt h (Root l) \<noteq> None \<Longrightarrow> nxt h (Root l) = Some (hd (map Node (contents A l) @ [Root l]))"
  using cyc_next [OF lists_ok_cyc [OF sim_ok]] by blast

lemma root_prev: "sim h A \<Longrightarrow> nxt h (Root l) \<noteq> None \<Longrightarrow> prv h (Root l) = Some (last (Root l # map Node (contents A l)))"
  using list_ok_prev_root [OF sim_ok] by blast

lemma MoveToFront_sim:
  assumes "sim h A" "l < nlists A" "x \<notin> gone A"
  shows "\<exists>h'. MoveToFront h l (Node x) = Inr h' \<and> sim h' (aexec A (OpMoveToFront l x))"
proof (cases "x \<in> set (contents A l)")
  case True
  note ow = sim_owner [OF assms(1,3), of l] and n = lists_ok_init [OF sim_ok [OF assms(1)] True]
  show ?thesis
  proof (cases "nxt h (Root l) = Some (Node x)")
    case first: True
    then obtain xs where "contents A l = x # xs" using root_next [OF assms(1) n] by (cases "contents A l") auto
    then have "x # remove1 x (contents A l) = contents A l" by simp
    then show ?thesis using assms(1) first True by (simp add: MoveToFront_def)
  next
    case False
    have "\<exists>h'. go_bind (list_remove h l (Node x)) (\<lambda>(h, e). go_bind (list_insert h l e (Some (Root l))) (\<lambda>(h, _). Inr h)) = Inr h' \<and>
        sim h' (put l (x # remove1 x (contents A l)) A)"
      by (rule sim_move [OF assms(1,2) True]) (use at_front in blast)
    then show ?thesis using ow True False by (simp add: MoveToFront_def)
  qed
next
  case False
  then show ?thesis using assms(1) sim_owner [OF assms(1,3), of l] by (simp add: MoveToFront_def)
qed

lemma MoveToBack_sim:
  assumes "sim h A" "l < nlists A" "x \<notin> gone A"
  shows "\<exists>h'. MoveToBack h l (Node x) = Inr h' \<and> sim h' (aexec A (OpMoveToBack l x))"
proof (cases "x \<in> set (contents A l)")
  case True
  note ow = sim_owner [OF assms(1,3), of l] and n = lists_ok_init [OF sim_ok [OF assms(1)] True]
  show ?thesis
  proof (cases "prv h (Root l) = Some (Node x)")
    case final: True
    then obtain xs where xs: "contents A l = xs @ [x]"
      using root_prev [OF assms(1) n] by (cases "contents A l" rule: rev_cases) auto
    then have "remove1 x (contents A l) @ [x] = contents A l"
      using lists_ok_distinct [OF sim_ok [OF assms(1)], of l] by (simp add: remove1_append)
    then show ?thesis using assms(1) final True by (simp add: MoveToBack_def)
  next
    case False
    have "\<exists>h'. go_bind (list_remove h l (Node x)) (\<lambda>(h, e). go_bind (list_insert h l e (prv h (Root l))) (\<lambda>(h, _). Inr h)) = Inr h' \<and>
        sim h' (put l (remove1 x (contents A l) @ [x]) A)"
      by (rule sim_move [OF assms(1,2) True]) (use root_prev at_back in \<open>metis put_simps(1)\<close>)
    then show ?thesis using ow True False by (simp add: MoveToBack_def)
  qed
next
  case False
  then show ?thesis using assms(1) sim_owner [OF assms(1,3), of l] by (simp add: MoveToBack_def)
qed

lemma MoveBefore_sim:
  assumes "sim h A" "l < nlists A" "x \<notin> gone A" "m \<notin> gone A"
  shows "\<exists>h'. MoveBefore h l (Node x) (Node m) = Inr h' \<and> sim h' (aexec A (OpMoveBefore l x m))"
proof (cases "x \<in> set (contents A l) \<and> m \<in> set (contents A l) \<and> x \<noteq> m")
  case True
  then have x: "x \<in> set (contents A l)" and m: "m \<in> set (remove1 x (contents A l))" by auto
  have "\<exists>h'. go_bind (list_remove h l (Node x)) (\<lambda>(h, e). go_bind (list_insert h l e (prv h (Node m))) (\<lambda>(h, _). Inr h)) = Inr h' \<and>
      sim h' (put l (ins_before m x (remove1 x (contents A l))) A)"
  proof (rule sim_move [OF assms(1,2) x])
    fix h' assume "sim h' (put l (remove1 x (contents A l)) A)"
    from at_before [OF sim_ok [OF this], of m l x] m
    show "\<exists>us at vs. prv h' (Node m) = Some at \<and> Root l # map Node (remove1 x (contents A l)) = us @ at # vs \<and>
        Root l # map Node (ins_before m x (remove1 x (contents A l))) = us @ at # Node x # vs"
      by (metis put_simps(1))
  qed
  then show ?thesis using True sim_owner [OF assms(1,3), of l] sim_owner [OF assms(1,4), of l] by (simp add: MoveBefore_def)
next
  case False
  then show ?thesis using assms(1) sim_owner [OF assms(1,3), of l] sim_owner [OF assms(1,4), of l] by (auto simp: MoveBefore_def)
qed

lemma MoveAfter_sim:
  assumes "sim h A" "l < nlists A" "x \<notin> gone A" "m \<notin> gone A"
  shows "\<exists>h'. MoveAfter h l (Node x) (Node m) = Inr h' \<and> sim h' (aexec A (OpMoveAfter l x m))"
proof (cases "x \<in> set (contents A l) \<and> m \<in> set (contents A l) \<and> x \<noteq> m")
  case True
  then have x: "x \<in> set (contents A l)" and m: "m \<in> set (remove1 x (contents A l))" by auto
  have "\<exists>h'. go_bind (list_remove h l (Node x)) (\<lambda>(h, e). go_bind (list_insert h l e (Some (Node m))) (\<lambda>(h, _). Inr h)) = Inr h' \<and>
      sim h' (put l (ins_after m x (remove1 x (contents A l))) A)"
    by (rule sim_move [OF assms(1,2) x]) (use at_after [OF m, of l x] in blast)
  then show ?thesis using True sim_owner [OF assms(1,3), of l] sim_owner [OF assms(1,4), of l] by (simp add: MoveAfter_def)
next
  case False
  then show ?thesis using assms(1) sim_owner [OF assms(1,3), of l] sim_owner [OF assms(1,4), of l] by (auto simp: MoveAfter_def)
qed

section \<open>Walking through a list\<close>

lemma Element_Next_sim:
  assumes "sim h A" "contents A l = us @ x # vs"
  shows "Element_Next h (Node x) = (if vs = [] then None else Some (Node (hd vs)))"
proof -
  have x: "x \<in> set (contents A l)" using assms(2) by simp
  then have o: "owner h (Node x) = Some l" using sim_member [OF assms(1)] by simp
  have c: "cyc (nxt h) (prv h) ((Root l # map Node us) @ Node x # map Node vs)"
    using lists_ok_cyc [OF sim_ok [OF assms(1)] lists_ok_init [OF sim_ok [OF assms(1)] x]] by (simp add: assms(2))
  show ?thesis
  proof (cases vs)
    case Nil
    then have "nxt h (Node x) = Some (Root l)" using c by (simp add: cyc_def)
    then show ?thesis using o Nil by (simp add: Element_Next_def)
  next
    case (Cons v vs')
    then have "nxt h (Node x) = Some (Node v)" using cyc_next_mid [OF c] by simp
    then show ?thesis using o Cons by (simp add: Element_Next_def)
  qed
qed

lemma Element_Prev_sim:
  assumes "sim h A" "contents A l = us @ x # vs"
  shows "Element_Prev h (Node x) = (if us = [] then None else Some (Node (last us)))"
proof -
  have x: "x \<in> set (contents A l)" using assms(2) by simp
  then have o: "owner h (Node x) = Some l" using sim_member [OF assms(1)] by simp
  have "cyc (nxt h) (prv h) ((Root l # map Node us) @ Node x # map Node vs)"
    using lists_ok_cyc [OF sim_ok [OF assms(1)] lists_ok_init [OF sim_ok [OF assms(1)] x]] by (simp add: assms(2))
  then have "prv h (Node x) = Some (last (Root l # map Node us))" by (rule cyc_prev_mid) simp
  then show ?thesis using o by (simp add: Element_Prev_def last_map)
qed

lemma Front_sim: "sim h A \<Longrightarrow> List_Front h l = (if contents A l = [] then None else Some (Node (hd (contents A l))))"
  using root_next [of h A l] lists_ok_llen [OF sim_ok, of h A l] lists_ok_init [OF sim_ok, of h A "hd (contents A l)" l]
  by (cases "contents A l") (auto simp: List_Front_def)

lemma Back_sim: "sim h A \<Longrightarrow> List_Back h l = (if contents A l = [] then None else Some (Node (last (contents A l))))"
  using root_prev [of h A l] lists_ok_llen [OF sim_ok, of h A l] lists_ok_init [OF sim_ok, of h A "hd (contents A l)" l]
  by (cases "contents A l") (auto simp: List_Back_def last_map)

lemma Len_sim: "sim h A \<Longrightarrow> List_Len h l = int (length (contents A l))"
  using lists_ok_llen [OF sim_ok] by (simp add: List_Len_def)

lemma alloc_simps [simp]:
  "contents (alloc v A) = contents A" "nodes (alloc v A) = nodes A + 1" "nlists (alloc v A) = nlists A"
  "vals (alloc v A) = (vals A)(nodes A := v)" "put l xs (alloc v A) = alloc v (put l xs A)"
  by (simp_all add: alloc_def put_def)

lemma alloc_list_Cons [simp]: "alloc_list [] A = A" "alloc_list (v # vs) A = alloc_list vs (alloc v A)"
  by (simp_all add: alloc_list_def)

lemma sim_bound: "sim h A \<Longrightarrow> x \<in> set (contents A l) \<Longrightarrow> x < nodes A" "sim h A \<Longrightarrow> x \<in> set (contents A l) \<Longrightarrow> l < nlists A"
  by (auto simp: sim_def lists_ok_def)

lemma PushBackList_loop_sim:
  assumes "sim h A" "nxt h (Root l) \<noteq> None" "l < nlists A" "contents A k = us @ ys @ zs"
    and "ys \<noteq> [] \<Longrightarrow> e = Some (Node (hd ys))"
  shows "\<exists>h'. PushBackList_loop h l (int (length ys)) e = Inr h' \<and>
    sim h' (alloc_list (map (vals A) ys) (put l (contents A l @ [nodes A..<nodes A + length ys]) A))"
  using assms
proof (induction ys arbitrary: h A us zs e)
  case Nil
  then show ?case by (subst PushBackList_loop.simps) simp
next
  case (Cons y ys)
  let ?A = "alloc (vals A y) (put l (contents A l @ [nodes A]) A)"
  obtain h1 where h1: "insertValue h l (vals A y) (Some (last (Root l # map Node (contents A l)))) = Inr (h1, Node (nodes A))"
      "sim h1 ?A" "nxt h1 (Root l) \<noteq> None"
    by (rule sim_insertValue [OF Cons.prems(1-3) at_back])
  have v: "val h (Node y) = vals A y" using Cons.prems(1) by (simp add: sim_def)
  obtain zs' where k: "contents ?A k = (us @ [y]) @ ys @ zs'" using Cons.prems(4) by (cases "k = l") auto
  have "ys \<noteq> [] \<Longrightarrow> Element_Next h1 (Node y) = Some (Node (hd ys))"
    using Element_Next_sim [OF h1(2), of k us y "ys @ zs'"] k by simp
  moreover have "l < nlists ?A" using Cons.prems(3) by simp
  ultimately obtain h2 where h2: "PushBackList_loop h1 l (int (length ys)) (Element_Next h1 (Node y)) = Inr h2"
      "sim h2 (alloc_list (map (vals ?A) ys) (put l (contents ?A l @ [nodes ?A..<nodes ?A + length ys]) ?A))"
    using Cons.IH [OF h1(2,3) _ k] by blast
  have mv: "map (vals ?A) ys = map (vals A) ys"
    using sim_bound(1) [OF Cons.prems(1), of _ k] Cons.prems(4) by auto
  have u: "[nodes A..<nodes A + length (y # ys)] = nodes A # [nodes ?A..<nodes ?A + length ys]"
    by (simp add: upt_conv_Cons del: upt_Suc)
  have "alloc_list (map (vals ?A) ys) (put l (contents ?A l @ [nodes ?A..<nodes ?A + length ys]) ?A) =
      alloc_list (map (vals A) (y # ys)) (put l (contents A l @ [nodes A..<nodes A + length (y # ys)]) A)"
    unfolding mv u by (simp del: upt_Suc)
  moreover have "PushBackList_loop h l (int (length (y # ys))) e = Inr h2"
    using Cons.prems(5) v h1(1) root_prev [OF Cons.prems(1,2)] h2(1) by (subst PushBackList_loop.simps) simp
  ultimately show ?case using h2(2) by auto
qed

lemma PushFrontList_loop_sim:
  assumes "sim h A" "nxt h (Root l) \<noteq> None" "l < nlists A" "contents A k = zs @ rev ys @ us"
    and "ys \<noteq> [] \<Longrightarrow> e = Some (Node (hd ys))"
  shows "\<exists>h'. PushFrontList_loop h l (int (length ys)) e = Inr h' \<and>
    sim h' (alloc_list (map (vals A) ys) (put l (rev [nodes A..<nodes A + length ys] @ contents A l) A))"
  using assms
proof (induction ys arbitrary: h A us zs e)
  case Nil
  then show ?case by (subst PushFrontList_loop.simps) simp
next
  case (Cons y ys)
  let ?A = "alloc (vals A y) (put l (nodes A # contents A l) A)"
  obtain h1 where h1: "insertValue h l (vals A y) (Some (Root l)) = Inr (h1, Node (nodes A))"
      "sim h1 ?A" "nxt h1 (Root l) \<noteq> None"
    by (rule sim_insertValue [OF Cons.prems(1-3) at_front])
  have v: "val h (Node y) = vals A y" using Cons.prems(1) by (simp add: sim_def)
  obtain zs' where k: "contents ?A k = zs' @ rev ys @ y # us" using Cons.prems(4) by (cases "k = l") auto
  have "ys \<noteq> [] \<Longrightarrow> Element_Prev h1 (Node y) = Some (Node (hd ys))"
    using Element_Prev_sim [OF h1(2), of k "zs' @ rev ys" y us] k by (simp add: last_rev)
  moreover have "l < nlists ?A" using Cons.prems(3) by simp
  ultimately obtain h2 where h2: "PushFrontList_loop h1 l (int (length ys)) (Element_Prev h1 (Node y)) = Inr h2"
      "sim h2 (alloc_list (map (vals ?A) ys) (put l (rev [nodes ?A..<nodes ?A + length ys] @ contents ?A l) ?A))"
    using Cons.IH [OF h1(2,3) _ k] by blast
  have mv: "map (vals ?A) ys = map (vals A) ys"
    using sim_bound(1) [OF Cons.prems(1), of _ k] Cons.prems(4) by auto
  have u: "[nodes A..<nodes A + length (y # ys)] = nodes A # [nodes ?A..<nodes ?A + length ys]"
    by (simp add: upt_conv_Cons del: upt_Suc)
  have "alloc_list (map (vals ?A) ys) (put l (rev [nodes ?A..<nodes ?A + length ys] @ contents ?A l) ?A) =
      alloc_list (map (vals A) (y # ys)) (put l (rev [nodes A..<nodes A + length (y # ys)] @ contents A l) A)"
    unfolding mv u by (simp del: upt_Suc)
  moreover have "PushFrontList_loop h l (int (length (y # ys))) e = Inr h2"
    using Cons.prems(5) v h1(1) h2(1) by (subst PushFrontList_loop.simps) simp
  ultimately show ?case using h2(2) by auto
qed

lemma PushBackList_sim:
  assumes "sim h A" "l < nlists A"
  shows "\<exists>h'. PushBackList h l k = Inr h' \<and> sim h' (aexec A (OpPushBackList l k))"
proof -
  note i = sim_lazyInit [OF assms(1), of l] lazyInit_ok(2) [OF sim_ok [OF assms(1)], of l]
  show ?thesis
    using PushBackList_loop_sim [OF i assms(2), of k "[]" "contents A k" "[]" "List_Front (lazyInit h l) k"]
    by (simp add: PushBackList_def Len_sim [OF i(1)] Front_sim [OF i(1)] Let_def)
qed

lemma PushFrontList_sim:
  assumes "sim h A" "l < nlists A"
  shows "\<exists>h'. PushFrontList h l k = Inr h' \<and> sim h' (aexec A (OpPushFrontList l k))"
proof -
  note i = sim_lazyInit [OF assms(1), of l] lazyInit_ok(2) [OF sim_ok [OF assms(1)], of l]
  show ?thesis
    using PushFrontList_loop_sim [OF i assms(2), of k "[]" "rev (contents A k)" "[]" "List_Back (lazyInit h l) k"]
    by (simp add: PushFrontList_def Len_sim [OF i(1)] Back_sim [OF i(1)] Let_def hd_rev)
qed

lemma New_sim:
  assumes "sim h A"
  shows "sim (fst (List_New h)) (aexec A OpNew)" and "snd (List_New h) = nlists A"
proof -
  have new: "contents A (nlists A) = []"
    using sim_bound(2) [OF assms, of _ "nlists A"] by (cases "contents A (nlists A)") auto
  have "list_ok (fst (List_New h)) k (contents A k)" for k
  proof (cases "k = nlists A")
    case True
    then show ?thesis using new assms by (simp add: List_New_def List_Init_def list_ok_def sim_def Let_def cyc_self)
  next
    case False
    then show ?thesis using assms
      by (intro list_ok_frame [OF lists_ok_list [OF sim_ok [OF assms]]]) (auto simp: List_New_def List_Init_def sim_def Let_def)
  qed
  then show "sim (fst (List_New h)) (aexec A OpNew)" "snd (List_New h) = nlists A"
    using assms by (auto simp: sim_def lists_ok_def List_New_def List_Init_def Let_def less_Suc_eq)
qed

lemma Init_sim:
  assumes "sim h A" "l < nlists A"
  shows "sim (List_Init h l) (aexec A (OpInit l))"
proof -
  note ok = sim_ok [OF assms(1)]
  have "list_ok (List_Init h l) k (((contents A)(l := [])) k)" for k
  proof (cases "k = l")
    case True
    then show ?thesis by (simp add: List_Init_def list_ok_def cyc_self)
  next
    case False
    then have "list_ok (List_Init h l) k (contents A k)"
      by (intro list_ok_frame [OF lists_ok_list [OF ok]]) (auto simp: List_Init_def)
    then show ?thesis using False by simp
  qed
  moreover have "x \<in> set (contents A k) \<Longrightarrow> k \<noteq> l \<Longrightarrow> x \<notin> set (contents A l)" for x k using lists_ok_unique [OF ok] by blast
  ultimately show ?thesis
    using assms(1) by (auto simp: sim_def lists_ok_def List_Init_def put_def)
qed

lemma exec_sim:
  assumes "sim h A" "op_list A ops"
  shows "\<exists>h'. exec h ops = Inr h' \<and> sim h' (aexec A ops)"
proof (cases ops)
  case (OpPushFront l v)
  then show ?thesis using assms by simp (metis PushFront_sim go_bind.simps(2) case_prod_conv)
next
  case (OpPushBack l v)
  then show ?thesis using assms by simp (metis PushBack_sim go_bind.simps(2) case_prod_conv)
next
  case (OpInsertBefore l v m)
  then show ?thesis using assms InsertBefore_sim [of h A l m v] by (simp del: aexec.simps) (metis go_bind.simps(2) case_prod_conv)
next
  case (OpInsertAfter l v m)
  then show ?thesis using assms InsertAfter_sim [of h A l m v] by (simp del: aexec.simps) (metis go_bind.simps(2) case_prod_conv)
next
  case (OpRemove l x)
  then show ?thesis using assms Remove_sim [of h A x l] by (simp del: aexec.simps) (metis go_bind.simps(2) case_prod_conv)
next
  case (OpMoveToFront l x)
  then show ?thesis using assms MoveToFront_sim [of h A l x] by (simp del: aexec.simps)
next
  case (OpMoveToBack l x)
  then show ?thesis using assms MoveToBack_sim [of h A l x] by (simp del: aexec.simps)
next
  case (OpMoveBefore l x m)
  then show ?thesis using assms MoveBefore_sim [of h A l x m] by (simp del: aexec.simps)
next
  case (OpMoveAfter l x m)
  then show ?thesis using assms MoveAfter_sim [of h A l x m] by (simp del: aexec.simps)
qed (use assms New_sim(1) Init_sim PushBackList_sim PushFrontList_sim
  in \<open>simp_all del: aexec.simps\<close>)

interpretation list_sim: simulation sim exec aexec op_list
  by unfold_locales (rule exec_sim)

text \<open>The elements a client sees from the front with \<open>Next\<close> and from the back with \<open>Prev\<close>.\<close>

fun walk :: "(eptr \<Rightarrow> eptr option) \<Rightarrow> nat \<Rightarrow> eptr option \<Rightarrow> eptr list" where
  "walk f (Suc n) (Some e) = e # walk f n (f e)"
| "walk f _ _ = []"

lemma walk_Next:
  assumes "sim h A" "contents A l = us @ vs"
  shows "walk (Element_Next h) (length vs + k) (if vs = [] then None else Some (Node (hd vs))) = map Node vs"
  using assms(2)
proof (induction vs arbitrary: us)
  case Nil
  then show ?case by (cases k) auto
next
  case (Cons v vs)
  then show ?case using Cons.IH [of "us @ [v]"] Element_Next_sim [OF assms(1), of l us v vs] by simp
qed

lemma walk_Prev:
  assumes "sim h A" "contents A l = rev us @ vs"
  shows "walk (Element_Prev h) (length us + k) (if us = [] then None else Some (Node (hd us))) = map Node us"
  using assms(2)
proof (induction us arbitrary: vs)
  case Nil
  then show ?case by (cases k) auto
next
  case (Cons u us)
  then show ?case using Cons.IH [of "u # vs"] Element_Prev_sim [OF assms(1), of l "rev us" u vs] by (cases us) simp_all
qed

text \<open>The heap a program starts with: \<open>n\<close> lists with zero fields.\<close>

definition zero_heap :: "nat \<Rightarrow> 'v lheap" where
  "zero_heap n = \<lparr>nxt = (\<lambda>_. None), prv = (\<lambda>_. None), owner = (\<lambda>_. None), val = (\<lambda>_. None), llen = (\<lambda>_. 0),
    next_node = 0, next_list = n\<rparr>"

definition zero_lists :: "nat \<Rightarrow> 'v alists" where
  "zero_lists n = \<lparr>contents = (\<lambda>_. []), vals = (\<lambda>_. None), nodes = 0, nlists = n, gone = {}\<rparr>"

lemma sim_zero: "sim (zero_heap n) (zero_lists n)"
  by (simp add: sim_def zero_heap_def zero_lists_def lists_ok_def list_ok_def)

text \<open>C5: Any program of list operations, \<open>Init\<close> included, on any number of lists, with elements of any of them or of
  none as arguments, runs without a panic, as long as it does not name an element again that was in a list when
  \<open>Init\<close> cleared it. Every list then is the sequence the operations denote: its length, the elements met from
  the front with \<open>Next\<close> and from the back with \<open>Prev\<close>, in both directions ending with nil, and their values. But for
  the elements lost by \<open>Init\<close>, an element belongs to the list it is in. No element is in two lists or twice in
  one. A list may be copied into itself.
\<close>

theorem list_operations_refine:
  assumes "ops_allowed op_list aexec (zero_lists n) ps"
  shows "\<exists>h. run_ops exec (zero_heap n) ps = Inr h \<and>
    (let A = foldl aexec (zero_lists n) ps in
     (\<forall>l. let xs = contents A l in
       distinct xs \<and> (\<forall>k. k \<noteq> l \<longrightarrow> set (contents A k) \<inter> set xs = {}) \<and> List_Len h l = int (length xs) \<and>
       (\<forall>k. walk (Element_Next h) (length xs + k) (List_Front h l) = map Node xs) \<and>
       (\<forall>k. walk (Element_Prev h) (length xs + k) (List_Back h l) = rev (map Node xs)) \<and>
       (\<forall>x. x \<in> gone A \<or> (owner h (Node x) = Some l \<longleftrightarrow> x \<in> set xs)) \<and> gone A \<inter> set xs = {}) \<and>
     (\<forall>x. val h (Node x) = vals A x))"
proof -
  let ?A = "foldl aexec (zero_lists n) ps"
  obtain h where h: "run_ops exec (zero_heap n) ps = Inr h" "sim h ?A"
    using list_sim.run_sim [OF sim_zero assms] by blast
  note s = h(2)
  have w: "walk (Element_Prev h) (length xs + k) (List_Back h l) = rev (map Node xs)"
    if "contents ?A l = xs" for xs k l
    using walk_Prev [OF s, of l "rev xs" "[]" k] Back_sim [OF s, of l] that
    by (cases xs rule: rev_cases) (simp_all add: rev_map)
  have w': "walk (Element_Next h) (length xs + k) (List_Front h l) = map Node xs" if "contents ?A l = xs" for xs k l
    using walk_Next [OF s, of l "[]" xs k] Front_sim [OF s, of l] that by (cases "xs = []") simp_all
  have d: "set (contents ?A k) \<inter> set (contents ?A l) = {}" if "k \<noteq> l" for k l
    using lists_ok_unique [OF sim_ok [OF s]] that by blast
  have g: "gone ?A \<inter> set (contents ?A l) = {}" for l using sim_member [OF s] by blast
  have v: "val h (Node x) = vals ?A x" for x using s by (simp add: sim_def)
  show ?thesis
    unfolding Let_def
    by (rule exI [of _ h]) (use h(1) v w [OF refl] w' [OF refl] d g Len_sim [OF s] lists_ok_distinct [OF sim_ok [OF s]] sim_owner [OF s] in blast)
qed

theorem list_operations_refine_witness:
  "\<exists>h. run_ops exec (zero_heap 1) [OpPushBack 0 (Some True), OpInit 0, OpPushBack 0 (Some True), OpPushFront 0 None,
      OpPushBackList 0 0, OpMoveToBack 0 1] = Inr h \<and> walk (Element_Next h) 4 (List_Front h 0) = map Node [2, 3, 4, 1]"
proof -
  let ?ps = "[OpPushBack 0 (Some True), OpInit 0, OpPushBack 0 (Some True), OpPushFront 0 None, OpPushBackList 0 0, OpMoveToBack 0 1]"
  have c: "contents (foldl aexec (zero_lists 1) ?ps) 0 = [2, 3, 4, 1]" by code_simp
  have "ops_allowed op_list aexec (zero_lists 1) ?ps" by code_simp
  then obtain h where "run_ops exec (zero_heap 1) ?ps = Inr h"
      "walk (Element_Next h) (length [2 :: nat, 3, 4, 1] + 0) (List_Front h 0) = map Node [2, 3, 4, 1]"
    using list_operations_refine [of 1 ?ps] unfolding Let_def by (metis c)
  then show ?thesis by (auto simp: eval_nat_numeral)
qed

text \<open>\<open>Init\<close> of a list with elements does not take them out: an element of the list before \<open>Init\<close> still
  names the list as its own, so \<open>Remove\<close> accepts it afterwards. The length becomes negative and \<open>Front\<close>
  returns the sentinel as if it were an element.
\<close>

theorem Init_leaves_elements:
  "go_bind (PushBack (zero_heap 1) 0 (Some True)) (\<lambda>(h, e).
     go_bind (List_Remove (List_Init h 0) 0 e) (\<lambda>(h, v). Inr (List_Len h 0, List_Front h 0, v))) =
   Inr (- 1, Some (Root 0), Some True)"
  by code_simp

end
