(* ===== verification/GoRing.thy ===== *)
theory GoRing
  imports Links
begin

text \<open>
  Package \<open>container/ring\<close>: circular lists. A ring is any of its elements, given by an address; the fields
  of the elements are maps from addresses, with \<open>None\<close> for nil. The receiver of \<open>Next\<close>, \<open>Prev\<close>, \<open>Move\<close>,
  \<open>Link\<close> and \<open>Unlink\<close> is not nil, as their comments require.
\<close>

section \<open>Definitions\<close>

record 'v rheap =
  rnext :: "nat \<Rightarrow> nat option"
  rprev :: "nat \<Rightarrow> nat option"
  rvalue :: "nat \<Rightarrow> 'v option"
  rfree :: nat

abbreviation set_rnext :: "nat \<Rightarrow> nat option \<Rightarrow> 'v rheap \<Rightarrow> 'v rheap" where
  "set_rnext p q h \<equiv> h\<lparr>rnext := (rnext h)(p := q)\<rparr>"

abbreviation set_rprev :: "nat \<Rightarrow> nat option \<Rightarrow> 'v rheap \<Rightarrow> 'v rheap" where
  "set_rprev p q h \<equiv> h\<lparr>rprev := (rprev h)(p := q)\<rparr>"

definition ring_init :: "'v rheap \<Rightarrow> nat \<Rightarrow> 'v rheap" where
  "ring_init h r = set_rprev r (Some r) (set_rnext r (Some r) h)"

definition Ring_Next :: "'v rheap \<Rightarrow> nat \<Rightarrow> 'v rheap \<times> nat" where
  "Ring_Next h r = (case rnext h r of None \<Rightarrow> (ring_init h r, r) | Some n \<Rightarrow> (h, n))"

definition Ring_Prev :: "'v rheap \<Rightarrow> nat \<Rightarrow> 'v rheap \<times> nat option" where
  "Ring_Prev h r = (case rnext h r of None \<Rightarrow> (ring_init h r, Some r) | Some n \<Rightarrow> (h, rprev h r))"

function move_back :: "'v rheap \<Rightarrow> nat option \<Rightarrow> int \<Rightarrow> nat option go" where
  "move_back h r n =
    (if n < 0 then case r of None \<Rightarrow> nil_deref | Some r \<Rightarrow> move_back h (rprev h r) (n + 1) else Inr r)"
  by pat_completeness auto
termination by (relation "measure (\<lambda>(h, r, n). nat (- n))") auto

function move_forward :: "'v rheap \<Rightarrow> nat option \<Rightarrow> int \<Rightarrow> nat option go" where
  "move_forward h r n =
    (if n > 0 then case r of None \<Rightarrow> nil_deref | Some r \<Rightarrow> move_forward h (rnext h r) (n - 1) else Inr r)"
  by pat_completeness auto
termination by (relation "measure (\<lambda>(h, r, n). nat n)") auto

declare move_back.simps [simp del] move_forward.simps [simp del]

definition Move :: "'v rheap \<Rightarrow> nat \<Rightarrow> u32 \<Rightarrow> ('v rheap \<times> nat option) go" where
  "Move h r n =
    (if rnext h r = None then Inr (ring_init h r, Some r)
     else if n <s 0 then go_bind (move_back h (Some r) (sint n)) (\<lambda>r. Inr (h, r))
     else if 0 <s n then go_bind (move_forward h (Some r) (sint n)) (\<lambda>r. Inr (h, r))
     else Inr (h, Some r))"

text \<open>\<open>new(Ring)\<close> and \<open>&Ring{prev: p}\<close> take the next unused address.\<close>

definition new_ring :: "'v rheap \<Rightarrow> nat option \<Rightarrow> 'v rheap \<times> nat" where
  "new_ring h p = (let r = rfree h in
    (set_rprev r p (set_rnext r None h)\<lparr>rvalue := (rvalue h)(r := None), rfree := r + 1\<rparr>, r))"

function New_loop :: "'v rheap \<Rightarrow> nat \<Rightarrow> int \<Rightarrow> int \<Rightarrow> 'v rheap \<times> nat" where
  "New_loop h p i n =
    (if i < n then case new_ring h (Some p) of (h, q) \<Rightarrow> New_loop (set_rnext p (Some q) h) q (i + 1) n else (h, p))"
  by pat_completeness auto
termination by (relation "measure (\<lambda>(h, p, i, n). nat (n - i))") auto

declare New_loop.simps [simp del]

definition Ring_New :: "'v rheap \<Rightarrow> int \<Rightarrow> 'v rheap \<times> nat option" where
  "Ring_New h n =
    (if n \<le> 0 then (h, None)
     else case new_ring h None of (h, r) \<Rightarrow>
       case New_loop h r 1 n of (h, p) \<Rightarrow> (set_rprev r (Some p) (set_rnext p (Some r) h), Some r))"

definition Link :: "'v rheap \<Rightarrow> nat \<Rightarrow> nat option \<Rightarrow> ('v rheap \<times> nat) go" where
  "Link h r s_ptr =
    (case Ring_Next h r of (h, n) \<Rightarrow>
      case s_ptr of None \<Rightarrow> Inr (h, n)
      | Some s \<Rightarrow>
        (case Ring_Prev h s of (h, p) \<Rightarrow>
          let h = set_rnext r (Some s) h;
              h = set_rprev s (Some r) h;
              h = set_rprev n p h in
          case p of None \<Rightarrow> nil_deref | Some p \<Rightarrow> Inr (set_rnext p (Some n) h, n)))"

definition Unlink :: "'v rheap \<Rightarrow> nat \<Rightarrow> u32 \<Rightarrow> ('v rheap \<times> nat option) go" where
  "Unlink h r n =
    (if n \<le>s 0 then Inr (h, None)
     else go_bind (Move h r (n + 1)) (\<lambda>(h, s). go_bind (Link h r s) (\<lambda>(h, n). Inr (h, Some n))))"

text \<open>The loop of \<open>Len\<close>; \<open>None\<close> when it does not end.\<close>

partial_function (option) Len_loop :: "'v rheap \<Rightarrow> nat \<Rightarrow> nat option \<Rightarrow> int \<Rightarrow> int go option" where
  "Len_loop h r p n =
    (if p \<noteq> Some r then case p of None \<Rightarrow> Some nil_deref | Some q \<Rightarrow> Len_loop h r (rnext h q) (n + 1)
     else Some (Inr n))"

definition Ring_Len :: "'v rheap \<Rightarrow> nat option \<Rightarrow> ('v rheap \<times> int go) option" where
  "Ring_Len h r_ptr =
    (case r_ptr of None \<Rightarrow> Some (h, Inr 0)
     | Some r \<Rightarrow> (case Ring_Next h r of (h, p) \<Rightarrow> (case Len_loop h r (Some p) 1 of None \<Rightarrow> None | Some n \<Rightarrow> Some (h, n))))"

text \<open>\<open>Do\<close> with a function \<open>f\<close> that changes a state of its own, and not the ring.\<close>

partial_function (option) Do_loop :: "('v option \<Rightarrow> 's \<Rightarrow> 's) \<Rightarrow> 'v rheap \<Rightarrow> nat \<Rightarrow> nat option \<Rightarrow> 's \<Rightarrow> 's go option" where
  "Do_loop f h r p st =
    (if p \<noteq> Some r then case p of None \<Rightarrow> Some nil_deref | Some q \<Rightarrow> Do_loop f h r (rnext h q) (f (rvalue h q) st)
     else Some (Inr st))"

definition Ring_Do :: "('v option \<Rightarrow> 's \<Rightarrow> 's) \<Rightarrow> 'v rheap \<Rightarrow> nat option \<Rightarrow> 's \<Rightarrow> 's go option" where
  "Ring_Do f h r_ptr st =
    (case r_ptr of None \<Rightarrow> Some (Inr st)
     | Some r \<Rightarrow> let st = f (rvalue h r) st in case Ring_Next h r of (h, p) \<Rightarrow> Do_loop f h r (Some p) st)"

section \<open>Rings\<close>

text \<open>The elements of a ring in forward order. An element that was never used is a ring of its own.\<close>

definition is_ring :: "'v rheap \<Rightarrow> nat list \<Rightarrow> bool" where
  "is_ring h xs \<longleftrightarrow> (\<exists>r. xs = [r] \<and> rnext h r = None) \<or> cyc (rnext h) (rprev h) xs"

lemma is_ring_not_Nil: "is_ring h xs \<Longrightarrow> xs \<noteq> []"
  by (auto simp: is_ring_def cyc_def)

lemma Ring_Next_ring:
  assumes "is_ring h (r # xs)"
  obtains h' where "Ring_Next h r = (h', hd (xs @ [r]))" "cyc (rnext h') (rprev h') (r # xs)"
    "rvalue h' = rvalue h" "\<And>ys. is_ring h ys \<Longrightarrow> is_ring h' ys" "\<And>ys. cyc (rnext h) (rprev h) ys \<Longrightarrow> cyc (rnext h') (rprev h') ys"
proof (cases "rnext h r")
  case None
  then have xs: "xs = []" using assms cyc_next [of "rnext h" "rprev h" r xs] by (auto simp: is_ring_def)
  have keep: "cyc (rnext (ring_init h r)) (rprev (ring_init h r)) ys" if c: "cyc (rnext h) (rprev h) ys" for ys
  proof -
    have "r \<notin> set ys"
    proof
      assume "r \<in> set ys"
      then obtain us vs where "ys = us @ r # vs" by (auto dest: split_list)
      then have "cyc (rnext h) (rprev h) (r # vs @ us)" using cyc_rotate [of _ _ us "r # vs"] c by simp
      then show False using None cyc_next by fastforce
    qed
    then show ?thesis using c by (simp add: ring_init_def cyc_frame)
  qed
  have one: "cyc (rnext (ring_init h r)) (rprev (ring_init h r)) [r]" by (simp add: ring_init_def cyc_self)
  show ?thesis
  proof (rule that [of "ring_init h r"])
    show "is_ring (ring_init h r) ys" if "is_ring h ys" for ys
      using that keep one by (cases "ys = [r]") (auto simp: is_ring_def ring_init_def)
  qed (use None xs one keep in \<open>auto simp: Ring_Next_def ring_init_def\<close>)
next
  case (Some n)
  then have c: "cyc (rnext h) (rprev h) (r # xs)" using assms by (auto simp: is_ring_def)
  then show ?thesis using Some cyc_next [OF c] by (intro that [of h]) (auto simp: Ring_Next_def)
qed

lemma Ring_Prev_ring:
  assumes "is_ring h (r # xs)"
  obtains h' where "Ring_Prev h r = (h', Some (last (r # xs)))" "cyc (rnext h') (rprev h') (r # xs)"
    "rvalue h' = rvalue h" "\<And>ys. cyc (rnext h) (rprev h) ys \<Longrightarrow> cyc (rnext h') (rprev h') ys"
proof -
  obtain h' where h': "Ring_Next h r = (h', hd (xs @ [r]))" "cyc (rnext h') (rprev h') (r # xs)"
      "rvalue h' = rvalue h" "\<And>ys. cyc (rnext h) (rprev h) ys \<Longrightarrow> cyc (rnext h') (rprev h') ys"
    by (rule Ring_Next_ring [OF assms]) blast
  have "Ring_Prev h r = (h', Some (last (r # xs)))"
  proof (cases "rnext h r")
    case None
    then have "xs = []" using assms cyc_next [of "rnext h" "rprev h" r xs] by (auto simp: is_ring_def)
    then show ?thesis using None h'(1) by (simp add: Ring_Prev_def Ring_Next_def)
  next
    case (Some n)
    then have "h' = h" using h'(1) by (simp add: Ring_Next_def)
    then show ?thesis using Some cyc_prev [OF h'(2)] by (simp add: Ring_Prev_def)
  qed
  then show ?thesis using h' by (intro that [of h']) auto
qed

text \<open>\<open>Link\<close> of two rings, of two elements of one ring, and of an element with itself.\<close>

lemma Link_join:
  assumes "is_ring h (r # xs)" "is_ring h (s # ys)" "set (r # xs) \<inter> set (s # ys) = {}"
  shows "\<exists>h'. Link h r (Some s) = Inr (h', hd (xs @ [r])) \<and> is_ring h' (r # s # ys @ xs) \<and> rvalue h' = rvalue h"
proof -
  obtain h1 where h1: "Ring_Next h r = (h1, hd (xs @ [r]))" "cyc (rnext h1) (rprev h1) (r # xs)"
      "rvalue h1 = rvalue h" "is_ring h1 (s # ys)"
    by (rule Ring_Next_ring [OF assms(1)]) (use assms(2) in blast)
  obtain h2 where h2: "Ring_Prev h1 s = (h2, Some (last (s # ys)))" "cyc (rnext h2) (rprev h2) (s # ys)"
      "rvalue h2 = rvalue h1" "cyc (rnext h2) (rprev h2) (r # xs)"
    by (rule Ring_Prev_ring [OF h1(4)]) (use h1(2) in blast)
  have "cyc (rnext h2) (rprev h2) (xs @ [r])" using cyc_rotate [of _ _ "[r]" xs] h2(4) by simp
  from cyc_join [OF this h2(2)] assms(3)
  have "cyc ((rnext h2)(r := Some s, last (s # ys) := Some (hd (xs @ [r]))))
      ((rprev h2)(s := Some r, hd (xs @ [r]) := Some (last (s # ys)))) (xs @ r # s # ys)"
    by (simp add: insert_commute)
  then have "cyc ((rnext h2)(r := Some s, last (s # ys) := Some (hd (xs @ [r]))))
      ((rprev h2)(s := Some r, hd (xs @ [r]) := Some (last (s # ys)))) (r # s # ys @ xs)"
    using cyc_rotate [of _ _ xs "r # s # ys"] by simp
  then show ?thesis using h1 h2 by (auto simp: Link_def Let_def is_ring_def)
qed

lemma Link_cut:
  assumes "is_ring h (r # xs @ s # ys)"
  shows "\<exists>h'. Link h r (Some s) = Inr (h', hd (xs @ [s])) \<and> is_ring h' (r # s # ys) \<and> (xs \<noteq> [] \<longrightarrow> is_ring h' xs) \<and>
    rvalue h' = rvalue h"
proof -
  obtain h1 where h1: "Ring_Next h r = (h1, hd ((xs @ s # ys) @ [r]))" "cyc (rnext h1) (rprev h1) (r # xs @ s # ys)"
      "rvalue h1 = rvalue h"
    by (rule Ring_Next_ring [OF assms])
  have c: "cyc (rnext h1) (rprev h1) (s # ys @ r # xs)" using cyc_rotate [of _ _ "r # xs" "s # ys"] h1(2) by simp
  then have p: "rprev h1 s = Some (last (r # xs))" "rnext h1 s \<noteq> None" using cyc_prev [OF c] cyc_next [OF c] by auto
  show ?thesis
  proof (cases "xs = []")
    case True
    have "rnext h1 r = Some s" using cyc_next [OF h1(2)] True by simp
    then have "(rnext h1)(r := Some s) = rnext h1" "(rprev h1)(s := Some r) = rprev h1" using p True by auto
    then show ?thesis using h1 p True by (auto simp: Link_def Ring_Prev_def Let_def is_ring_def split: option.splits)
  next
    case False
    have d: "distinct (r # xs @ s # ys)" using cyc_distinct [OF h1(2)] .
    then have ne: "last xs \<noteq> r" "hd xs \<noteq> s" using False last_in_set [OF False] hd_in_set [OF False] by auto
    have "cyc (rnext h1) (rprev h1) (xs @ (s # ys @ [r]))" using cyc_rotate [of _ _ "[r]" "xs @ s # ys"] h1(2) by simp
    from cyc_split [OF this False _ refl refl]
    have "cyc ((rnext h1)(r := Some s, last xs := Some (hd xs))) ((rprev h1)(s := Some r, hd xs := Some (last xs))) xs \<and>
        cyc ((rnext h1)(r := Some s, last xs := Some (hd xs))) ((rprev h1)(s := Some r, hd xs := Some (last xs))) (s # ys @ [r])"
      using ne by (simp add: fun_upd_twist)
    then show ?thesis using h1 p False cyc_rotate [of _ _ "s # ys" "[r]"]
      by (auto simp: Link_def Ring_Prev_def Let_def is_ring_def split: option.splits)
  qed
qed

lemma Link_self:
  assumes "is_ring h (r # xs)"
  shows "\<exists>h'. Link h r (Some r) = Inr (h', hd (xs @ [r])) \<and> is_ring h' [r] \<and> (xs \<noteq> [] \<longrightarrow> is_ring h' xs) \<and>
    rvalue h' = rvalue h"
proof -
  obtain h1 where h1: "Ring_Next h r = (h1, hd (xs @ [r]))" "cyc (rnext h1) (rprev h1) (r # xs)" "rvalue h1 = rvalue h"
    by (rule Ring_Next_ring [OF assms])
  have p: "rprev h1 r = Some (last (r # xs))" "rnext h1 r \<noteq> None" using cyc_prev [OF h1(2)] cyc_next [OF h1(2)] by auto
  show ?thesis
  proof (cases "xs = []")
    case True
    then show ?thesis using h1 p
      by (auto simp: Link_def Ring_Prev_def Let_def is_ring_def cyc_self split: option.splits)
  next
    case False
    have d: "distinct (r # xs)" using cyc_distinct [OF h1(2)] .
    then have ne: "last xs \<noteq> r" "hd xs \<noteq> r" using False last_in_set [OF False] hd_in_set [OF False] by auto
    have "cyc (rnext h1) (rprev h1) (xs @ [r])" using cyc_rotate [of _ _ "[r]" xs] h1(2) by simp
    from cyc_split [OF this False _ refl refl]
    have "cyc ((rnext h1)(r := Some r, last xs := Some (hd xs))) ((rprev h1)(r := Some r, hd xs := Some (last xs))) xs \<and>
        cyc ((rnext h1)(r := Some r, last xs := Some (hd xs))) ((rprev h1)(r := Some r, hd xs := Some (last xs))) [r]"
      using ne by (simp add: fun_upd_twist)
    then show ?thesis using h1 p False
      by (auto simp: Link_def Ring_Prev_def Let_def is_ring_def split: option.splits)
  qed
qed

section \<open>Moving around a ring\<close>

text \<open>The element of a ring at any distance, forward or backward.\<close>

definition at_dist :: "'a list \<Rightarrow> int \<Rightarrow> 'a" where
  "at_dist xs j = xs ! nat (j mod int (length xs))"

lemma cyc_nth:
  assumes "cyc nx pv xs" "i < length xs"
  shows "nx (xs ! i) = Some (xs ! (Suc i mod length xs))" and "pv (xs ! (Suc i mod length xs)) = Some (xs ! i)"
proof -
  have e: "xs \<noteq> []" "nx (last xs) = Some (hd xs)" "pv (hd xs) = Some (last xs)" using assms(1) by (auto simp: cyc_def)
  show "nx (xs ! i) = Some (xs ! (Suc i mod length xs))"
  proof (cases "Suc i < length xs")
    case True
    have "xs = take i xs @ xs ! i # drop (Suc i) xs" using assms(2) by (rule id_take_nth_drop)
    then show ?thesis using cyc_next_mid [of nx pv "take i xs" "xs ! i" "drop (Suc i) xs"] assms(1) True
      by (simp add: hd_drop_conv_nth)
  next
    case False
    then have "xs ! i = last xs" "Suc i = length xs" using assms(2) e(1) by (auto simp: last_conv_nth intro: arg_cong)
    then show ?thesis using e by (simp add: hd_conv_nth)
  qed
  show "pv (xs ! (Suc i mod length xs)) = Some (xs ! i)"
  proof (cases "Suc i < length xs")
    case True
    have "xs = take (Suc i) xs @ xs ! Suc i # drop (Suc (Suc i)) xs" using True by (rule id_take_nth_drop)
    then show ?thesis using cyc_prev_mid [of nx pv "take (Suc i) xs" "xs ! Suc i" "drop (Suc (Suc i)) xs"] assms True
      by (simp add: take_Suc_conv_app_nth)
  next
    case False
    then have "xs ! i = last xs" "Suc i = length xs" using assms(2) e(1) by (auto simp: last_conv_nth intro: arg_cong)
    then show ?thesis using e by (simp add: hd_conv_nth)
  qed
qed

lemma cyc_at_dist:
  assumes "cyc nx pv xs"
  shows "nx (at_dist xs j) = Some (at_dist xs (j + 1))" and "pv (at_dist xs (j + 1)) = Some (at_dist xs j)"
proof -
  define L where "L = int (length xs)"
  have L: "0 < L" using assms by (simp add: L_def cyc_def)
  have i: "nat (j mod L) < length xs" using L pos_mod_bound [of L j] pos_mod_sign [of L j] by (simp add: L_def nat_less_iff)
  have "nat ((j + 1) mod L) = nat ((j mod L + 1) mod L)" by (simp add: mod_add_left_eq)
  also have "\<dots> = Suc (nat (j mod L)) mod length xs"
    using L pos_mod_sign [of L j] by (simp add: L_def nat_mod_distrib nat_add_distrib)
  finally have "at_dist xs (j + 1) = xs ! (Suc (nat (j mod L)) mod length xs)" "at_dist xs j = xs ! nat (j mod L)"
    by (simp_all add: at_dist_def L_def)
  then show "nx (at_dist xs j) = Some (at_dist xs (j + 1))" "pv (at_dist xs (j + 1)) = Some (at_dist xs j)"
    using cyc_nth [OF assms i] by simp_all
qed

lemma move_forward_ring:
  "cyc (rnext h) (rprev h) xs \<Longrightarrow> move_forward h (Some (at_dist xs j)) (int n) = Inr (Some (at_dist xs (j + int n)))"
proof (induction n arbitrary: j)
  case 0
  then show ?case by (subst move_forward.simps) simp
next
  case (Suc n)
  then show ?case using Suc.IH [of "j + 1"] cyc_at_dist(1) [OF Suc.prems, of j]
    by (subst move_forward.simps) (simp add: algebra_simps)
qed

lemma move_back_ring:
  "cyc (rnext h) (rprev h) xs \<Longrightarrow> move_back h (Some (at_dist xs j)) (- int n) = Inr (Some (at_dist xs (j - int n)))"
proof (induction n arbitrary: j)
  case 0
  then show ?case by (subst move_back.simps) simp
next
  case (Suc n)
  then show ?case using Suc.IH [of "j - 1"] cyc_at_dist(2) [OF Suc.prems, of "j - 1"]
    by (subst move_back.simps) (simp add: algebra_simps)
qed

lemma is_ring_initialised: "is_ring h (r # xs) \<Longrightarrow> rnext h r \<noteq> None \<Longrightarrow> cyc (rnext h) (rprev h) (r # xs)"
  by (auto simp: is_ring_def)

lemma Move_ring:
  assumes "is_ring h (r # xs)"
  shows "\<exists>h'. Move h r n = Inr (h', Some (at_dist (r # xs) (sint n))) \<and> is_ring h' (r # xs) \<and> rvalue h' = rvalue h"
proof (cases "rnext h r = None")
  case True
  then have "xs = []" using assms cyc_next [of "rnext h" "rprev h" r xs] by (auto simp: is_ring_def)
  then show ?thesis using True by (auto simp: Move_def is_ring_def ring_init_def cyc_self at_dist_def)
next
  case False
  note c = is_ring_initialised [OF assms False]
  have r: "at_dist (r # xs) 0 = r" by (simp add: at_dist_def)
  have "Move h r n = Inr (h, Some (at_dist (r # xs) (sint n)))"
    using False move_forward_ring [OF c, of 0 "nat (sint n)"] move_back_ring [OF c, of 0 "nat (- sint n)"] r
    by (auto simp: Move_def word_sless_alt)
  then show ?thesis using assms by auto
qed

lemma Len_loop_ring:
  assumes "cyc (rnext h) (rprev h) (r # us @ vs)"
  shows "Len_loop h r (Some (hd (vs @ [r]))) n = Some (Inr (n + int (length vs)))"
  using assms
proof (induction vs arbitrary: us n)
  case Nil
  then show ?case by (subst Len_loop.simps) simp
next
  case (Cons v vs)
  have c: "cyc (rnext h) (rprev h) ((r # us) @ v # vs)" using Cons.prems by simp
  then have "cyc (rnext h) (rprev h) (v # vs @ r # us)" using cyc_rotate [of _ _ "r # us" "v # vs"] by simp
  from cyc_next [OF this] have nx: "rnext h v = Some (hd (vs @ [r]))" by (cases vs) simp_all
  have "v \<noteq> r" using cyc_distinct [OF c] by auto
  then show ?case using Cons.IH [of "us @ [v]" "n + 1"] Cons.prems nx by (subst Len_loop.simps) simp
qed

lemma Do_loop_ring:
  assumes "cyc (rnext h) (rprev h) (r # us @ vs)"
  shows "Do_loop f h r (Some (hd (vs @ [r]))) st = Some (Inr (fold (\<lambda>x. f (rvalue h x)) vs st))"
  using assms
proof (induction vs arbitrary: us st)
  case Nil
  then show ?case by (subst Do_loop.simps) simp
next
  case (Cons v vs)
  have c: "cyc (rnext h) (rprev h) ((r # us) @ v # vs)" using Cons.prems by simp
  then have "cyc (rnext h) (rprev h) (v # vs @ r # us)" using cyc_rotate [of _ _ "r # us" "v # vs"] by simp
  from cyc_next [OF this] have nx: "rnext h v = Some (hd (vs @ [r]))" by (cases vs) simp_all
  have "v \<noteq> r" using cyc_distinct [OF c] by auto
  then show ?case using Cons.IH [of "us @ [v]"] Cons.prems nx by (subst Do_loop.simps) simp
qed

text \<open>\<open>Len\<close> and \<open>Do\<close> end on every ring: \<open>Len\<close> returns the number of elements, \<open>Do\<close> calls the function on
  the values of all of them once, in forward order from the receiver. Both return at once for nil.
\<close>

theorem ring_loops_terminate:
  assumes "is_ring h (r # xs)"
  shows "(\<exists>h'. Ring_Len h (Some r) = Some (h', Inr (int (length (r # xs)))) \<and> is_ring h' (r # xs)) \<and>
    Ring_Do f h (Some r) st = Some (Inr (fold (\<lambda>x. f (rvalue h x)) (r # xs) st)) \<and>
    Ring_Len h None = Some (h, Inr 0) \<and> Ring_Do f h None st = Some (Inr st)"
proof -
  obtain h' where h': "Ring_Next h r = (h', hd (xs @ [r]))" "cyc (rnext h') (rprev h') (r # xs)" "rvalue h' = rvalue h"
    by (rule Ring_Next_ring [OF assms])
  then show ?thesis
    using Len_loop_ring [of h' r "[]" xs 1] Do_loop_ring [of h' r "[]" xs f "f (rvalue h r) st"]
    by (auto simp: Ring_Len_def Ring_Do_def is_ring_def)
qed

section \<open>New, Link and Unlink\<close>

lemma New_loop_links:
  assumes "linked (rnext h) (rprev h) zs" "zs \<noteq> []" "distinct zs" "\<And>z. z \<in> set zs \<Longrightarrow> z < rfree h" "i \<le> n"
  shows "\<exists>h'. New_loop h (last zs) i n = (h', last (zs @ [rfree h..<rfree h + nat (n - i)])) \<and>
    linked (rnext h') (rprev h') (zs @ [rfree h..<rfree h + nat (n - i)]) \<and>
    (\<forall>x < rfree h. rprev h' x = rprev h x \<and> rvalue h' x = rvalue h x \<and> (x \<noteq> last zs \<longrightarrow> rnext h' x = rnext h x)) \<and>
    (\<forall>x \<in> set [rfree h..<rfree h + nat (n - i)]. rvalue h' x = None)"
  using assms
proof (induction "nat (n - i)" arbitrary: h zs i)
  case 0
  then show ?case by (subst New_loop.simps) auto
next
  case (Suc m)
  let ?q = "rfree h"
  define h1 where "h1 = set_rnext (last zs) (Some ?q) (fst (new_ring h (Some (last zs))))"
  have i: "i < n" "m = nat (n - (i + 1))" "nat (n - i) = Suc m" using Suc.hyps(2) by auto
  have lz: "last zs \<noteq> ?q" using Suc.prems(2,4) last_in_set by fastforce
  have fr: "rfree h1 = Suc ?q" by (simp add: h1_def new_ring_def Let_def)
  have "linked (rnext h1) (rprev h1) zs \<longleftrightarrow> linked (rnext h) (rprev h) zs"
  proof -
    have "last zs \<notin> set (butlast zs)" "?q \<notin> set (butlast zs)" "?q \<notin> set (tl zs)"
      using last_fresh [OF Suc.prems(3)] set_butlast_tl [of zs] Suc.prems(4) by fastforce+
    then show ?thesis by (simp add: h1_def new_ring_def Let_def linked_frame_next linked_frame_prev)
  qed
  then have l1: "linked (rnext h1) (rprev h1) (zs @ [?q])"
    using Suc.prems(1,2) lz by (simp add: linked_append h1_def new_ring_def Let_def)
  have "z < rfree h1" if "z \<in> set (zs @ [?q])" for z using that Suc.prems(4) fr by fastforce
  then obtain h' where h': "New_loop h1 ?q (i + 1) n = (h', last ((zs @ [?q]) @ [rfree h1..<rfree h1 + m]))"
      "linked (rnext h') (rprev h') ((zs @ [?q]) @ [rfree h1..<rfree h1 + m])"
      "\<forall>x < rfree h1. rprev h' x = rprev h1 x \<and> rvalue h' x = rvalue h1 x \<and> (x \<noteq> ?q \<longrightarrow> rnext h' x = rnext h1 x)"
      "\<forall>x \<in> set [rfree h1..<rfree h1 + m]. rvalue h' x = None"
    using Suc.hyps(1) [OF i(2) l1] Suc.prems(2-4) i by fastforce
  have u: "[?q..<?q + nat (n - i)] = ?q # [rfree h1..<rfree h1 + m]" unfolding i(3) fr by (simp add: upt_conv_Cons del: upt_Suc)
  have "New_loop h (last zs) i n = New_loop h1 ?q (i + 1) n"
    using i(1) by (subst New_loop.simps) (simp add: h1_def new_ring_def Let_def)
  moreover have "rprev h1 x = rprev h x \<and> rvalue h1 x = rvalue h x \<and> (x \<noteq> last zs \<longrightarrow> rnext h1 x = rnext h x)" if "x < ?q" for x
    using that by (simp add: h1_def new_ring_def Let_def)
  moreover have "rvalue h1 ?q = None" by (simp add: h1_def new_ring_def Let_def)
  ultimately show ?case unfolding u using h' fr by (auto simp: less_Suc_eq)
qed

text \<open>\<open>New(n)\<close> makes a ring of \<open>n\<close> unused elements with nil values, in the order of their addresses, and
  leaves every other ring as it is; for \<open>n \<le> 0\<close> it returns nil and changes nothing.
\<close>

lemma Ring_New_ring:
  shows "0 < n \<Longrightarrow> \<exists>h'. Ring_New h n = (h', Some (rfree h)) \<and> is_ring h' [rfree h..<rfree h + nat n] \<and>
      (\<forall>x \<in> set [rfree h..<rfree h + nat n]. rvalue h' x = None) \<and>
      (\<forall>xs. is_ring h xs \<and> (\<forall>x \<in> set xs. x < rfree h) \<longrightarrow> is_ring h' xs \<and> map (rvalue h') xs = map (rvalue h) xs)"
    and "n \<le> 0 \<Longrightarrow> Ring_New h n = (h, None)"
proof -
  show "n \<le> 0 \<Longrightarrow> Ring_New h n = (h, None)" by (simp add: Ring_New_def)
  assume n: "0 < n"
  define r where "r = rfree h"
  define h1 where "h1 = fst (new_ring h None)"
  define zs where "zs = [r..<r + nat n]"
  have fr: "rfree h1 = Suc r" by (simp add: h1_def new_ring_def Let_def r_def)
  have zs: "[r] @ [rfree h1..<rfree h1 + nat (n - 1)] = zs"
    using n by (simp add: zs_def fr upt_conv_Cons Suc_nat_eq_nat_zadd1 flip: add_Suc_right del: upt_Suc)
  obtain h2 where h2: "New_loop h1 r 1 n = (h2, last zs)" "linked (rnext h2) (rprev h2) zs"
      "\<forall>x < rfree h1. rprev h2 x = rprev h1 x \<and> rvalue h2 x = rvalue h1 x \<and> (x \<noteq> r \<longrightarrow> rnext h2 x = rnext h1 x)"
      "\<forall>x \<in> set [rfree h1..<rfree h1 + nat (n - 1)]. rvalue h2 x = None"
    using New_loop_links [of h1 "[r]" 1 n] n fr unfolding zs by auto
  define h' where "h' = set_rprev r (Some (last zs)) (set_rnext (last zs) (Some r) h2)"
  have z: "zs \<noteq> []" "hd zs = r" "distinct zs" using n by (auto simp: zs_def)
  have "cyc (rnext h') (rprev h') zs"
    using h2(2) z last_fresh [OF z(3)] hd_fresh [OF z(3)]
    by (simp add: cyc_def h'_def linked_frame_next linked_frame_prev)
  moreover have "Ring_New h n = (h', Some r)"
    using n h2(1) by (simp add: Ring_New_def h1_def r_def new_ring_def Let_def h'_def)
  moreover have "rvalue h' x = None" if "x \<in> set zs" for x
    using that h2(3,4) fr unfolding zs [symmetric] by (auto simp: h'_def h1_def new_ring_def Let_def r_def)
  moreover have "is_ring h' xs \<and> map (rvalue h') xs = map (rvalue h) xs" if "is_ring h xs" "\<forall>x \<in> set xs. x < r" for xs
  proof -
    have "r \<le> last zs" using n by (simp add: zs_def)
    then have "rnext h' x = rnext h x \<and> rprev h' x = rprev h x \<and> rvalue h' x = rvalue h x" if "x < r" for x
      using that h2(3) fr by (auto simp: h'_def h1_def new_ring_def Let_def r_def)
    then show ?thesis using that cyc_cong [of xs "rnext h'" "rnext h" "rprev h'" "rprev h"] by (auto simp: is_ring_def)
  qed
  ultimately show "\<exists>h'. Ring_New h n = (h', Some (rfree h)) \<and> is_ring h' [rfree h..<rfree h + nat n] \<and>
      (\<forall>x \<in> set [rfree h..<rfree h + nat n]. rvalue h' x = None) \<and>
      (\<forall>xs. is_ring h xs \<and> (\<forall>x \<in> set xs. x < rfree h) \<longrightarrow> is_ring h' xs \<and> map (rvalue h') xs = map (rvalue h) xs)"
    by (auto simp: is_ring_def zs_def r_def)
qed

lemma Unlink_at:
  assumes "is_ring h (r # xs)" "0 < sint n" "j = nat (sint (n + 1) mod int (length (r # xs)))"
  shows "\<exists>h'. Unlink h r n = Inr (h', Some (hd (xs @ [r]))) \<and> rvalue h' = rvalue h \<and>
    (if j = 0 then is_ring h' [r] \<and> (xs \<noteq> [] \<longrightarrow> is_ring h' xs)
     else is_ring h' (r # drop (j - 1) xs) \<and> (1 < j \<longrightarrow> is_ring h' (take (j - 1) xs)))"
proof -
  obtain h1 where h1: "Move h r (n + 1) = Inr (h1, Some (at_dist (r # xs) (sint (n + 1))))" "is_ring h1 (r # xs)"
      "rvalue h1 = rvalue h" using Move_ring [OF assms(1), of "n + 1"] by blast
  have s: "at_dist (r # xs) (sint (n + 1)) = (r # xs) ! j" by (simp only: at_dist_def assms(3))
  have g: "\<not> n \<le>s 0" using assms(2) by (simp add: word_sle_eq)
  show ?thesis
  proof (cases j)
    case 0
    then show ?thesis using Link_self [OF h1(2)] h1 g s by (auto simp: Unlink_def)
  next
    case (Suc i)
    have "j < length (r # xs)" unfolding assms(3) by (simp add: nat_less_iff)
    then have i: "i < length xs" using Suc by simp
    then have sp: "xs = take i xs @ xs ! i # drop (Suc i) xs" by (rule id_take_nth_drop)
    have "is_ring h1 (r # take i xs @ xs ! i # drop (Suc i) xs)" using h1(2) sp by simp
    from Link_cut [OF this] obtain h' where l: "Link h1 r (Some (xs ! i)) = Inr (h', hd (take i xs @ [xs ! i]))"
        "is_ring h' (r # xs ! i # drop (Suc i) xs)" "take i xs \<noteq> [] \<longrightarrow> is_ring h' (take i xs)" "rvalue h' = rvalue h1" by blast
    moreover have "xs ! i # drop (Suc i) xs = drop i xs" using i by (simp add: Cons_nth_drop_Suc)
    moreover have "hd (take i xs @ [xs ! i]) = hd (xs @ [r])" using i by (cases xs; cases i) auto
    ultimately show ?thesis using h1 g s Suc i by (auto simp: Unlink_def)
  qed
qed

text \<open>\<open>Unlink(n)\<close> takes \<open>n % Len()\<close> elements out of the ring, starting after the receiver, and the
  removed ones form a ring of their own; the result is the former successor of the receiver, also when
  nothing is removed. This holds for every positive \<open>n\<close> but the largest integer.
\<close>

theorem Unlink_removes:
  assumes "is_ring h (r # xs)" "0 < sint n" "sint n < 2 ^ 31 - 1"
  shows "\<exists>h'. Unlink h r n = Inr (h', Some (hd (xs @ [r]))) \<and> rvalue h' = rvalue h \<and>
    (let k = nat (sint n mod int (length (r # xs))) in
     is_ring h' (r # drop k xs) \<and> (0 < k \<longrightarrow> is_ring h' (take k xs)))"
proof -
  define k where "k = nat (sint n mod int (length (r # xs)))"
  have "sint n mod int (length (r # xs)) < int (length (r # xs))" "0 \<le> sint n mod int (length (r # xs))"
    by (intro pos_mod_bound pos_mod_sign; simp)+
  then have k: "sint n mod int (length (r # xs)) = int k" "k \<le> length xs"
    by (simp only: k_def nat_0_le, unfold k_def length_Cons, linarith)
  have "sint (n + 1) = sint n + 1"
    using assms(2,3) sint_word_of_int_32 [of "sint n + 1"] by simp
  then have "sint (n + 1) mod int (length (r # xs)) = (int k + 1) mod int (length (r # xs))"
    by (metis k(1) mod_add_left_eq)
  then have j: "nat (sint (n + 1) mod int (length (r # xs))) = (if k = length xs then 0 else Suc k)"
    using k(2) by (auto simp: nat_add_distrib add.commute [of _ 1])
  have "\<exists>h'. Unlink h r n = Inr (h', Some (hd (xs @ [r]))) \<and> rvalue h' = rvalue h \<and>
     is_ring h' (r # drop k xs) \<and> (0 < k \<longrightarrow> is_ring h' (take k xs))"
    using Unlink_at [OF assms(1,2) refl] unfolding j by (cases "k = length xs") auto
  then show ?thesis by (simp only: k_def Let_def)
qed

text \<open>A ring to apply the theorems to.\<close>

definition zero_rings :: "'v rheap" where
  "zero_rings = \<lparr>rnext = (\<lambda>_. None), rprev = (\<lambda>_. None), rvalue = (\<lambda>_. None), rfree = 0\<rparr>"

lemma ring3: "is_ring (fst (Ring_New (zero_rings :: 'v rheap) 3)) [0, 1, 2]"
  using Ring_New_ring(1) [of 3 "zero_rings :: 'v rheap"] by (auto simp: zero_rings_def upt_rec numeral_2_eq_2)

theorem ring_loops_terminate_witness:
  "Ring_Do (\<lambda>_. Suc) (fst (Ring_New (zero_rings :: bool rheap) 3)) (Some 0) 0 = Some (Inr 3)"
  using ring_loops_terminate [OF ring3 [where 'v = bool], of "\<lambda>_. Suc" "0 :: nat"] by (simp add: numeral_3_eq_3)

theorem Unlink_removes_witness:
  "\<exists>h'. Unlink (fst (Ring_New (zero_rings :: bool rheap) 3)) 0 4 = Inr (h', Some 1) \<and> is_ring h' [0, 2] \<and> is_ring h' [1]"
  using Unlink_removes [OF ring3, of 4] by (auto simp: Let_def)

text \<open>\<open>Unlink\<close> of the largest integer wraps \<open>n + 1\<close> to the smallest one, moves backwards and removes the
  wrong elements: from a ring of three it removes none, although \<open>n % 3\<close> is 1.
\<close>

theorem Unlink_wraps:
  assumes "is_ring h [a, b, c]"
  shows "(\<exists>h'. Unlink h a 0x7FFFFFFF = Inr (h', Some b) \<and> is_ring h' [a, b, c]) \<and> sint (0x7FFFFFFF :: u32) mod 3 = 1"
  using Unlink_at [OF assms, of "0x7FFFFFFF"] by auto

theorem Unlink_wraps_witness:
  "\<exists>h'. Unlink (fst (Ring_New (zero_rings :: bool rheap) 3)) 0 0x7FFFFFFF = Inr (h', Some 1) \<and> is_ring h' [0, 1, 2]"
  using Unlink_wraps [OF ring3] by auto

text \<open>C33: \<open>Link(s)\<close> makes \<open>s\<close> the successor of the receiver \<open>r\<close> and returns the former successor. Two rings
  become one, with the elements of \<open>s\<close>, from \<open>s\<close> on, inserted after \<open>r\<close>; inside one ring the elements
  between \<open>r\<close> and \<open>s\<close> are taken out and form a ring of their own, all but \<open>r\<close> when \<open>s\<close> is \<open>r\<close>; linking nil
  changes no ring.
\<close>

theorem Link_rings:
  "(is_ring h (r # xs) \<and> is_ring h (s # ys) \<and> set (r # xs) \<inter> set (s # ys) = {} \<longrightarrow>
     (\<exists>h'. Link h r (Some s) = Inr (h', hd (xs @ [r])) \<and> is_ring h' (r # s # ys @ xs) \<and> rvalue h' = rvalue h)) \<and>
   (is_ring h (r # xs @ s # ys) \<longrightarrow>
     (\<exists>h'. Link h r (Some s) = Inr (h', hd (xs @ [s])) \<and> is_ring h' (r # s # ys) \<and> (xs \<noteq> [] \<longrightarrow> is_ring h' xs) \<and>
       rvalue h' = rvalue h)) \<and>
   (is_ring h (r # xs) \<longrightarrow>
     (\<exists>h'. Link h r (Some r) = Inr (h', hd (xs @ [r])) \<and> is_ring h' [r] \<and> (xs \<noteq> [] \<longrightarrow> is_ring h' xs) \<and>
       rvalue h' = rvalue h)) \<and>
   (is_ring h (r # xs) \<longrightarrow> (\<exists>h'. Link h r None = Inr (h', hd (xs @ [r])) \<and> (is_ring h ys \<longrightarrow> is_ring h' ys)))"
proof -
  have "\<exists>h'. Link h r None = Inr (h', hd (xs @ [r])) \<and> (is_ring h ys \<longrightarrow> is_ring h' ys)" if "is_ring h (r # xs)"
    by (rule Ring_Next_ring [OF that]) (auto simp: Link_def)
  then show ?thesis using Link_join [of h r xs s ys] Link_cut [of h r xs s ys] Link_self [of h r xs] by auto
qed

theorem Link_rings_witness:
  "\<exists>h'. Link (fst (Ring_New (zero_rings :: bool rheap) 3)) 0 (Some 2) = Inr (h', 1) \<and> is_ring h' [0, 2] \<and> is_ring h' [1]"
  using Link_rings [of "fst (Ring_New (zero_rings :: bool rheap) 3)" 0 "[1]" 2 "[]"] ring3 by auto

end
