(* ===== verification/Timers.thy ===== *)
theory Timers
  imports Prelude
begin

text \<open>
  The run-time timers (\<open>runtime/time.go\<close>): a heap with four children per node of pointers to timers, each
  of which stores its own index, and the loop that fires them. A timer is an address; its fields are a map
  from addresses. \<open>when\<close> and \<open>period\<close> are 64-bit words read as signed numbers. Every definition is what
  the code does while it holds \<open>timers.lock\<close>; only the loop that fires timers frees the lock in between, and what
  happens to the timers meanwhile is a parameter. The fields \<open>f\<close>, \<open>arg\<close> and \<open>seq\<close> are only passed on when a
  timer fires and are left out.
\<close>

section \<open>Definitions\<close>

record timer =
  ti :: int
  twhen :: u64
  tperiod :: u64

record timers =
  created :: bool
  sleeping :: bool
  rescheduling :: bool
  theap :: "nat list"
  tmem :: "nat \<Rightarrow> timer"

definition set_ti :: "(nat \<Rightarrow> timer) \<Rightarrow> nat \<Rightarrow> nat \<Rightarrow> nat \<Rightarrow> timer" where
  "set_ti m a i = m(a := (m a)\<lparr>ti := int i\<rparr>)"

function siftup_loop :: "(nat \<Rightarrow> timer) \<Rightarrow> nat list \<Rightarrow> u64 \<Rightarrow> nat \<Rightarrow> nat \<Rightarrow> (nat \<Rightarrow> timer) \<times> nat list" where
  "siftup_loop m t w tmp i =
    (if i > 0 then
       let p = (i - 1) div 4 in
       if twhen (m (t ! p)) \<le>s w then (m, t)
       else
         let t = t[i := t ! p]; m = set_ti m (t ! i) i;
             t = t[p := tmp]; m = set_ti m (t ! p) p in
         siftup_loop m t w tmp p
     else (m, t))"
  by pat_completeness auto
termination by (relation "measure (\<lambda>(m, t, w, tmp, i). i)") auto

definition siftupTimer :: "(nat \<Rightarrow> timer) \<Rightarrow> nat list \<Rightarrow> nat \<Rightarrow> ((nat \<Rightarrow> timer) \<times> nat list) go" where
  "siftupTimer m t i = go_bind (go_get t i) (\<lambda>tmp. Inr (siftup_loop m t (twhen (m tmp)) tmp i))"

text \<open>The child with the least \<open>when\<close>, as the code finds it: the lesser of each pair, then of the two.\<close>

definition least_child :: "(nat \<Rightarrow> timer) \<Rightarrow> nat list \<Rightarrow> nat \<Rightarrow> nat" where
  "least_child m t i =
    (let n = length t; c = i * 4 + 1; c3 = c + 2;
         c = (if c + 1 < n \<and> twhen (m (t ! (c + 1))) <s twhen (m (t ! c)) then c + 1 else c) in
     if c3 < n then
       let c3 = (if c3 + 1 < n \<and> twhen (m (t ! (c3 + 1))) <s twhen (m (t ! c3)) then c3 + 1 else c3) in
       if twhen (m (t ! c3)) <s twhen (m (t ! c)) then c3 else c
     else c)"

lemma least_child_range: "i < least_child m t i" "i * 4 + 1 < length t \<Longrightarrow> least_child m t i < length t"
  "i * 4 + 1 \<le> least_child m t i" "least_child m t i \<le> i * 4 + 4"
  by (auto simp: least_child_def Let_def)

function siftdown_loop :: "(nat \<Rightarrow> timer) \<Rightarrow> nat list \<Rightarrow> u64 \<Rightarrow> nat \<Rightarrow> nat \<Rightarrow> (nat \<Rightarrow> timer) \<times> nat list" where
  "siftdown_loop m t w tmp i =
    (if i * 4 + 1 \<ge> length t then (m, t)
     else let c = least_child m t i in
       if w \<le>s twhen (m (t ! c)) then (m, t)
       else
         let t = t[i := t ! c]; m = set_ti m (t ! i) i;
             t = t[c := tmp]; m = set_ti m (t ! c) c in
         siftdown_loop m t w tmp c)"
  by pat_completeness auto
termination
proof (relation "measure (\<lambda>(m, t, w, tmp, i). length t - i)", goal_cases)
  case (2 m t w tmp i x xa xb xc xd)
  then show ?case using least_child_range(1) [of i m t] by auto
qed simp

declare siftup_loop.simps [simp del] siftdown_loop.simps [simp del]

definition siftdownTimer :: "(nat \<Rightarrow> timer) \<Rightarrow> nat list \<Rightarrow> nat \<Rightarrow> ((nat \<Rightarrow> timer) \<times> nat list) go" where
  "siftdownTimer m t i = go_bind (go_get t i) (\<lambda>tmp. Inr (siftdown_loop m t (twhen (m tmp)) tmp i))"

text \<open>What an operation asks of the scheduler.\<close>

datatype timer_effect = NoteWakeup | GoReady | StartProc

definition addtimerLocked :: "timers \<Rightarrow> nat \<Rightarrow> (timers \<times> timer_effect list) go" where
  "addtimerLocked s t =
    (let m = (if twhen (tmem s t) <s 0 then (tmem s)(t := (tmem s t)\<lparr>twhen := 0x7FFFFFFFFFFFFFFF\<rparr>) else tmem s);
         m = set_ti m t (length (theap s));
         h = theap s @ [t] in
     go_bind (siftupTimer m h (length (theap s))) (\<lambda>(m, h).
       let s = s\<lparr>tmem := m, theap := h\<rparr>;
           (s, es) = (if ti (m t) = 0 then
               let (s, e1) = (if sleeping s then (s\<lparr>sleeping := False\<rparr>, [NoteWakeup]) else (s, []));
                   (s, e2) = (if rescheduling s then (s\<lparr>rescheduling := False\<rparr>, [GoReady]) else (s, [])) in
               (s, e1 @ e2)
             else (s, [])) in
       if \<not> created s then Inr (s\<lparr>created := True\<rparr>, es @ [StartProc]) else Inr (s, es)))"

definition timeSleep :: "timers \<Rightarrow> u64 \<Rightarrow> u64 \<Rightarrow> nat \<Rightarrow> (timers \<times> timer_effect list) go" where
  "timeSleep s nanotime ns t =
    (if ns \<le>s 0 then Inr (s, [])
     else addtimerLocked (s\<lparr>tmem := (tmem s)(t := \<lparr>ti = 0, twhen = nanotime + ns, tperiod = 0\<rparr>)\<rparr>) t)"

definition deltimer :: "timers \<Rightarrow> nat \<Rightarrow> (timers \<times> bool) go" where
  "deltimer s t =
    (let i = ti (tmem s t); h = theap s; m = tmem s; last = int (length h) - 1 in
     if i < 0 \<or> i > last \<or> h ! nat i \<noteq> t then Inr (s, False)
     else
       let i = nat i; last = nat last;
           (m, h) = (if i \<noteq> last then let h = h[i := h ! last] in (set_ti m (h ! i) i, h) else (m, h));
           h = take last h in
       go_bind (if i \<noteq> last then go_bind (siftupTimer m h i) (\<lambda>(m, h). siftdownTimer m h i) else Inr (m, h)) (\<lambda>(m, h).
       Inr (s\<lparr>tmem := m, theap := h\<rparr>, True)))"

text \<open>
  One round of the inner loop of \<open>timerproc\<close>: no timer is left, the first one is due after a delay, or it
  is taken out or set to its next time and fires.
\<close>

datatype timer_event = NoTimers | Delay u64 | Fire nat

definition timerproc_round :: "timers \<Rightarrow> u64 \<Rightarrow> (timers \<times> timer_event) go" where
  "timerproc_round s now =
    (let h = theap s; m = tmem s in
     if length h = 0 then Inr (s, NoTimers)
     else
       let t = h ! 0; delta = twhen (m t) - now in
       if 0 <s delta then Inr (s, Delay delta)
       else if 0 <s tperiod (m t) then
         let m = m(t := (m t)\<lparr>twhen := twhen (m t) + tperiod (m t) * (1 + go_sdiv (- delta) (tperiod (m t)))\<rparr>) in
         go_bind (siftdownTimer m h 0) (\<lambda>(m, h). Inr (s\<lparr>tmem := m, theap := h\<rparr>, Fire t))
       else
         let last = length h - 1;
             (m, h) = (if last > 0 then let h = h[0 := h ! last] in (set_ti m (h ! 0) 0, h) else (m, h));
             h = take last h in
         go_bind (if last > 0 then siftdownTimer m h 0 else Inr (m, h)) (\<lambda>(m, h).
         let m = m(t := (m t)\<lparr>ti := -1\<rparr>) in
         Inr (s\<lparr>tmem := m, theap := h\<rparr>, Fire t)))"

text \<open>
  The inner loop: the timers that fire, in order, the state and the event that end it; \<open>None\<close> when it does not
  end. The lock is free while the function of a timer runs, so the function and other goroutines may work on the
  timers in that window: \<open>window k t\<close> is what happens to the state in it when the \<open>k\<close>-th timer to fire is \<open>t\<close>.
\<close>

partial_function (option) timerproc_inner :: "(nat \<Rightarrow> nat \<Rightarrow> timers \<Rightarrow> timers) \<Rightarrow> nat \<Rightarrow> timers \<Rightarrow> u64
    \<Rightarrow> (nat list \<times> timers \<times> timer_event) go option" where
  "timerproc_inner window k s now =
    (case timerproc_round s now of Inl p \<Rightarrow> Some (Inl p)
     | Inr (s, ev) \<Rightarrow>
       (case ev of Fire t \<Rightarrow>
          Option.bind (timerproc_inner window (k + 1) (window k t s) now)
            (\<lambda>r. Some (go_bind r (\<lambda>(ts, s, ev). Inr (t # ts, s, ev))))
        | NoTimers \<Rightarrow> Some (Inr ([], s, ev)) | Delay d \<Rightarrow> Some (Inr ([], s, ev))))"

text \<open>What \<open>timerproc\<close> does when it takes the lock, and after the inner loop.\<close>

definition timerproc_begin :: "timers \<Rightarrow> timers" where
  "timerproc_begin s = s\<lparr>sleeping := False\<rparr>"

definition timerproc_end :: "timers \<Rightarrow> u64 \<Rightarrow> timer_event \<Rightarrow> timers" where
  "timerproc_end s faketime ev =
    (case ev of NoTimers \<Rightarrow> s\<lparr>rescheduling := True\<rparr>
     | Delay delta \<Rightarrow> if delta <s 0 \<or> 0 <s faketime then s\<lparr>rescheduling := True\<rparr> else s\<lparr>sleeping := True\<rparr>
     | Fire t \<Rightarrow> s)"

text \<open>\<open>timejump\<close>: the new fake time and whether the timer goroutine is handed to the caller.\<close>

definition timejump :: "timers \<Rightarrow> u64 \<Rightarrow> timers \<times> u64 \<times> bool" where
  "timejump s faketime =
    (if faketime = 0 \<or> \<not> created s \<or> length (theap s) = 0 then (s, faketime, False)
     else if faketime <s twhen (tmem s (theap s ! 0)) then
       let faketime = twhen (tmem s (theap s ! 0)) in
       if rescheduling s then (s\<lparr>rescheduling := False\<rparr>, faketime, True) else (s, faketime, False)
     else (s, faketime, False))"

section \<open>Heaps with four children\<close>

definition par :: "nat \<Rightarrow> nat" where
  "par k = (k - 1) div 4"

lemma par_less: "0 < k \<Longrightarrow> par k < k"
  by (simp add: par_def)

lemma par_child: "i * 4 + 1 \<le> c \<Longrightarrow> c \<le> i * 4 + 4 \<Longrightarrow> par c = i"
  by (simp add: par_def)

lemma child_par: "0 < k \<Longrightarrow> par k = i \<Longrightarrow> i * 4 + 1 \<le> k \<and> k \<le> i * 4 + 4"
  by (auto simp: par_def)

definition heap4 :: "('a \<Rightarrow> int) \<Rightarrow> 'a list \<Rightarrow> bool" where
  "heap4 f xs \<longleftrightarrow> (\<forall>k < length xs. 0 < k \<longrightarrow> f (xs ! par k) \<le> f (xs ! k))"

text \<open>A heap but for the node at \<open>i\<close>, which may be smaller than its parent, or greater than a child, or both.\<close>

definition grand :: "('a \<Rightarrow> int) \<Rightarrow> 'a list \<Rightarrow> nat \<Rightarrow> bool" where
  "grand f xs i \<longleftrightarrow> (\<forall>k < length xs. 0 < k \<and> par k = i \<and> 0 < i \<longrightarrow> f (xs ! par i) \<le> f (xs ! k))"

definition heap_up :: "('a \<Rightarrow> int) \<Rightarrow> 'a list \<Rightarrow> nat \<Rightarrow> bool" where
  "heap_up f xs i \<longleftrightarrow> (\<forall>k < length xs. 0 < k \<and> k \<noteq> i \<longrightarrow> f (xs ! par k) \<le> f (xs ! k)) \<and> grand f xs i"

definition heap_down :: "('a \<Rightarrow> int) \<Rightarrow> 'a list \<Rightarrow> nat \<Rightarrow> bool" where
  "heap_down f xs i \<longleftrightarrow> (\<forall>k < length xs. 0 < k \<and> par k \<noteq> i \<longrightarrow> f (xs ! par k) \<le> f (xs ! k)) \<and> grand f xs i"

definition heap_gap :: "('a \<Rightarrow> int) \<Rightarrow> 'a list \<Rightarrow> nat \<Rightarrow> bool" where
  "heap_gap f xs i \<longleftrightarrow> (\<forall>k < length xs. 0 < k \<and> k \<noteq> i \<and> par k \<noteq> i \<longrightarrow> f (xs ! par k) \<le> f (xs ! k)) \<and> grand f xs i"

lemma heap4_grand: "heap4 f xs \<Longrightarrow> i < length xs \<Longrightarrow> grand f xs i"
  unfolding heap4_def grand_def by (meson order_trans)

lemma heap4_down: "heap4 f xs \<Longrightarrow> i < length xs \<Longrightarrow> heap_down f xs i"
  using heap4_grand [of f xs i] by (auto simp: heap4_def heap_down_def)

lemma heap_up_stop: "heap_up f xs i \<Longrightarrow> (i = 0 \<or> f (xs ! par i) \<le> f (xs ! i)) \<Longrightarrow> heap4 f xs"
  by (auto simp: heap_up_def heap4_def)

lemma heap_up_step:
  assumes h: "heap_up f xs i" and i: "0 < i" "i < length xs" and lt: "f (xs ! i) < f (xs ! par i)"
  shows "heap_up f (xs[i := xs ! par i, par i := xs ! i]) (par i)"
proof -
  define p where "p = par i"
  define ys where "ys = xs[i := xs ! p, p := xs ! i]"
  have p: "p < i" using par_less [OF i(1)] by (simp add: p_def)
  have ys: "length ys = length xs" "ys ! p = xs ! i" "ys ! i = xs ! p" "\<And>k. k \<noteq> i \<Longrightarrow> k \<noteq> p \<Longrightarrow> ys ! k = xs ! k"
    using p i by (auto simp: ys_def)
  have u: "k < length xs \<Longrightarrow> 0 < k \<Longrightarrow> k \<noteq> i \<Longrightarrow> f (xs ! par k) \<le> f (xs ! k)" for k using h by (simp add: heap_up_def)
  have g: "k < length xs \<Longrightarrow> 0 < k \<Longrightarrow> par k = i \<Longrightarrow> f (xs ! p) \<le> f (xs ! k)" for k
    using h i by (simp add: heap_up_def grand_def p_def)
  have "f (ys ! par k) \<le> f (ys ! k)" if k: "k < length xs" "0 < k" "k \<noteq> p" for k
  proof -
    consider "k = i" | "k \<noteq> i" "par k = i" | "k \<noteq> i" "par k = p" | "k \<noteq> i" "par k \<noteq> i" "par k \<noteq> p" by blast
    then show ?thesis
    proof cases
      case 1
      then show ?thesis using ys lt by (simp add: p_def [symmetric])
    next
      case 2
      then show ?thesis using ys k g by simp
    next
      case 3
      then show ?thesis using ys k u [of k] lt by (simp add: p_def [symmetric])
    next
      case 4
      then show ?thesis using ys k u [of k] by simp
    qed
  qed
  moreover have "grand f ys p"
    unfolding grand_def
  proof (intro allI impI)
    fix k assume k: "k < length ys" "0 < k \<and> par k = p \<and> 0 < p"
    have pp: "par p < p" using k par_less by blast
    then have "f (ys ! par p) \<le> f (xs ! p)" using u [of p] k p i ys by simp
    moreover have "f (xs ! p) \<le> f (ys ! k)"
      using k u [of k] ys par_less [of k] by (cases "k = i") auto
    ultimately show "f (ys ! par p) \<le> f (ys ! k)" by simp
  qed
  ultimately show ?thesis using ys(1) by (simp add: heap_up_def ys_def p_def)
qed

lemma heap_down_stop:
  "heap_down f xs i \<Longrightarrow> (\<And>k. k < length xs \<Longrightarrow> 0 < k \<Longrightarrow> par k = i \<Longrightarrow> f (xs ! i) \<le> f (xs ! k)) \<Longrightarrow> heap4 f xs"
  by (auto simp: heap_down_def heap4_def)

lemma heap_down_step:
  assumes h: "heap_down f xs i" and c: "0 < c" "c < length xs" "par c = i" and lt: "f (xs ! c) < f (xs ! i)"
    and least: "\<And>k. k < length xs \<Longrightarrow> 0 < k \<Longrightarrow> par k = i \<Longrightarrow> f (xs ! c) \<le> f (xs ! k)"
  shows "heap_down f (xs[i := xs ! c, c := xs ! i]) c"
proof -
  define ys where "ys = xs[i := xs ! c, c := xs ! i]"
  have ic: "i < c" using par_less [OF c(1)] c(3) by simp
  have ys: "length ys = length xs" "ys ! c = xs ! i" "ys ! i = xs ! c" "\<And>k. k \<noteq> i \<Longrightarrow> k \<noteq> c \<Longrightarrow> ys ! k = xs ! k"
    using ic c by (auto simp: ys_def)
  have d: "k < length xs \<Longrightarrow> 0 < k \<Longrightarrow> par k \<noteq> i \<Longrightarrow> f (xs ! par k) \<le> f (xs ! k)" for k using h by (simp add: heap_down_def)
  have g: "0 < i \<Longrightarrow> f (xs ! par i) \<le> f (xs ! c)" using h c by (simp add: heap_down_def grand_def)
  have "f (ys ! par k) \<le> f (ys ! k)" if k: "k < length xs" "0 < k" "par k \<noteq> c" for k
  proof -
    have pk: "par k < k" using par_less [OF k(2)] .
    consider "k = c" | "k \<noteq> c" "par k = i" | "k = i" | "k \<noteq> c" "par k \<noteq> i" "k \<noteq> i" by blast
    then show ?thesis
    proof cases
      case 1
      then show ?thesis using ys lt c(3) by simp
    next
      case 2
      then show ?thesis using ys k pk least [of k] by simp
    next
      case 3
      then show ?thesis using ys k pk g ic by simp
    next
      case 4
      then show ?thesis using ys k d [of k] by simp
    qed
  qed
  moreover have "grand f ys c"
    unfolding grand_def
  proof (intro allI impI)
    fix k assume k: "k < length ys" "0 < k \<and> par k = c \<and> 0 < c"
    have "c < k" using k par_less by blast
    then show "f (ys ! par c) \<le> f (ys ! k)" using k ys c(3) ic d [of k] by simp
  qed
  ultimately show ?thesis using ys(1) by (simp add: heap_down_def ys_def)
qed

text \<open>Filling a gap: either the new element goes up, or it goes down.\<close>

lemma heap_gap_up:
  assumes "heap_gap f xs i" "0 < i" "f (xs ! i) < f (xs ! par i)"
  shows "heap_up f xs i"
proof -
  have "f (xs ! i) \<le> f (xs ! k)" if "k < length xs" "0 < k" "par k = i" for k
    using assms that by (fastforce simp: heap_gap_def grand_def)
  then show ?thesis using assms(1) by (auto simp: heap_gap_def heap_up_def)
qed

lemma heap_gap_down:
  "heap_gap f xs i \<Longrightarrow> (i = 0 \<or> f (xs ! par i) \<le> f (xs ! i)) \<Longrightarrow> heap_down f xs i"
  using par_less by (fastforce simp: heap_gap_def heap_down_def)

lemma heap4_least: "heap4 f xs \<Longrightarrow> k < length xs \<Longrightarrow> f (xs ! 0) \<le> f (xs ! k)"
proof (induction k rule: less_induct)
  case (less k)
  show ?case
  proof (cases "k = 0")
    case False
    then have "par k < k" by (simp add: par_less)
    then show ?thesis using less False by (force simp: heap4_def)
  qed simp
qed

section \<open>The loops\<close>

definition key :: "(nat \<Rightarrow> timer) \<Rightarrow> nat \<Rightarrow> int" where
  "key m a = sint (twhen (m a))"

text \<open>Every timer in the heap stores its index.\<close>

definition backptr :: "(nat \<Rightarrow> timer) \<Rightarrow> nat list \<Rightarrow> bool" where
  "backptr m t \<longleftrightarrow> (\<forall>k < length t. ti (m (t ! k)) = int k)"

lemma backptr_distinct: "backptr m t \<Longrightarrow> distinct t"
  unfolding backptr_def distinct_conv_nth by (metis of_nat_eq_iff)

text \<open>Only indices change, and only those of timers in the heap.\<close>

definition reindexed :: "nat set \<Rightarrow> (nat \<Rightarrow> timer) \<Rightarrow> (nat \<Rightarrow> timer) \<Rightarrow> bool" where
  "reindexed A m m' \<longleftrightarrow> (\<forall>a. twhen (m' a) = twhen (m a) \<and> tperiod (m' a) = tperiod (m a) \<and> (a \<notin> A \<longrightarrow> m' a = m a))"

lemma reindexed_refl: "reindexed A m m"
  by (simp add: reindexed_def)

lemma reindexed_trans: "reindexed A m m' \<Longrightarrow> reindexed A m' m'' \<Longrightarrow> reindexed A m m''"
  by (simp add: reindexed_def)

lemma reindexed_key: "reindexed A m m' \<Longrightarrow> key m' = key m"
  by (rule ext) (simp add: reindexed_def key_def)

lemma reindexed_set_ti: "a \<in> A \<Longrightarrow> reindexed A m (set_ti m a i)"
  by (simp add: reindexed_def set_ti_def)

definition sifted :: "(nat \<Rightarrow> timer) \<Rightarrow> nat list \<Rightarrow> (nat \<Rightarrow> timer) \<times> nat list \<Rightarrow> bool" where
  "sifted m t r \<longleftrightarrow> (case r of (m', t') \<Rightarrow> mset t' = mset t \<and> backptr m' t' \<and> reindexed (set t) m m' \<and> heap4 (key m') t')"

lemma sifted_trans:
  assumes "mset t2 = mset t" "reindexed (set t) m m2" "sifted m2 t2 r"
  shows "sifted m t r"
proof -
  have "set t2 = set t" using assms(1) by (rule mset_eq_setD)
  then show ?thesis using assms reindexed_trans [OF assms(2)] by (cases r) (simp add: sifted_def)
qed

text \<open>The four assignments both loops make in a round exchange two elements and their indices.\<close>

lemma exchange:
  assumes b: "backptr m t" and i: "i < length t" "j < length t" "i \<noteq> j" and tmp: "tmp = t ! i"
    and t1: "t1 = t[i := t ! j]" and m1: "m1 = set_ti m (t1 ! i) i"
    and t2: "t2 = t1[j := tmp]" and m2: "m2 = set_ti m1 (t2 ! j) j"
  shows "t2 = t[i := t ! j, j := t ! i]" and "backptr m2 t2" and "mset t2 = mset t" and "reindexed (set t) m m2"
    and "length t2 = length t" and "t2 ! j = tmp"
proof -
  show 2: "t2 = t[i := t ! j, j := t ! i]" "length t2 = length t" "t2 ! j = tmp" using i by (simp_all add: t2 t1 tmp)
  have d: "distinct t" using backptr_distinct [OF b] .
  have m2': "m2 = set_ti (set_ti m (t ! j) i) (t ! i) j" using i by (simp add: m2 m1 2(3) tmp t1)
  show "mset t2 = mset t" using i mset_swap [of j t i] by (simp add: 2(1))
  show "reindexed (set t) m m2"
    unfolding m2' using i by (blast intro: reindexed_trans reindexed_set_ti nth_mem)
  show "backptr m2 t2"
    unfolding backptr_def
  proof (intro allI impI)
    fix k assume "k < length t2"
    then have k: "k < length t" by (simp add: 2(2))
    consider "k = i" | "k = j" | "k \<noteq> i" "k \<noteq> j" by blast
    then show "ti (m2 (t2 ! k)) = int k"
    proof cases
      case 1
      then show ?thesis using i d by (simp add: 2(1) m2' set_ti_def nth_eq_iff_index_eq)
    next
      case 2
      then show ?thesis using i d by (simp add: \<open>t2 = t[i := t ! j, j := t ! i]\<close> m2' set_ti_def)
    next
      case 3
      then show ?thesis using i k d b by (simp add: 2(1) m2' set_ti_def nth_eq_iff_index_eq backptr_def)
    qed
  qed
qed

lemma siftup_loop_sifts:
  "backptr m t \<Longrightarrow> i < length t \<Longrightarrow> w = twhen (m tmp) \<Longrightarrow> tmp = t ! i \<Longrightarrow> heap_up (key m) t i \<Longrightarrow>
    sifted m t (siftup_loop m t w tmp i)"
proof (induction m t w tmp i rule: siftup_loop.induct)
  case (1 m t w tmp i)
  note b = "1.prems"(1) and il = "1.prems"(2) and w = "1.prems"(3) and tmp = "1.prems"(4) and up = "1.prems"(5)
  show ?case
  proof (cases "i = 0 \<or> key m (t ! par i) \<le> key m (t ! i)")
    case True
    then have "siftup_loop m t w tmp i = (m, t)"
      using w tmp by (subst siftup_loop.simps) (auto simp: par_def key_def word_sle_eq)
    then show ?thesis using b heap_up_stop [OF up True] by (simp add: sifted_def reindexed_refl)
  next
    case False
    define p where "p = par i"
    define t1 m1 t2 m2 where "t1 = t[i := t ! p]" and "m1 = set_ti m (t1 ! i) i" and "t2 = t1[p := tmp]" and "m2 = set_ti m1 (t2 ! p) p"
    have i: "0 < i" and p: "p < i" "p < length t" using False il par_less [of i] by (auto simp: p_def)
    have le: "\<not> twhen (m (t ! p)) \<le>s w" using False w tmp by (simp add: key_def word_sle_eq p_def)
    have ne: "i \<noteq> p" using p by simp
    note ex = exchange [OF b il p(2) ne tmp t1_def m1_def t2_def m2_def]
    have km: "key m2 = key m" by (rule reindexed_key [OF ex(4)])
    have tm: "twhen (m2 tmp) = w" "t2 ! p = tmp" using ex(4,6) p w by (auto simp: reindexed_def)
    have hu: "heap_up (key m2) t2 p"
      using heap_up_step [OF up i il] False ex(1) p by (simp add: km p_def)
    have "sifted m2 t2 (siftup_loop m2 t2 w tmp p)"
      by (rule "1.IH" [OF i p_def [unfolded par_def] le t1_def m1_def t2_def m2_def ex(2)]) (use hu p(2) ex(5) tm in simp_all)
    moreover have "siftup_loop m t w tmp i = siftup_loop m2 t2 w tmp p"
      using i le by (subst siftup_loop.simps) (simp add: Let_def t1_def m1_def t2_def m2_def p_def par_def)
    ultimately show ?thesis using sifted_trans [OF ex(3,4)] by simp
  qed
qed

lemma least_child_least:
  assumes "i * 4 + 1 < length t" "k < length t" "0 < k" "par k = i"
  shows "key m (t ! least_child m t i) \<le> key m (t ! k)"
proof -
  have "k = i * 4 + 1 \<or> k = i * 4 + 2 \<or> k = i * 4 + 3 \<or> k = i * 4 + 4"
    using child_par [OF assms(3,4)] by auto
  then show ?thesis using assms(1,2)
    by (auto simp: least_child_def Let_def key_def word_sless_alt numeral_eq_Suc)
qed

lemma siftdown_loop_sifts:
  "backptr m t \<Longrightarrow> i < length t \<Longrightarrow> w = twhen (m tmp) \<Longrightarrow> tmp = t ! i \<Longrightarrow> heap_down (key m) t i \<Longrightarrow>
    sifted m t (siftdown_loop m t w tmp i)"
proof (induction m t w tmp i rule: siftdown_loop.induct)
  case (1 m t w tmp i)
  note b = "1.prems"(1) and il = "1.prems"(2) and w = "1.prems"(3) and tmp = "1.prems"(4) and dn = "1.prems"(5)
  define c where "c = least_child m t i"
  show ?case
  proof (cases "i * 4 + 1 < length t \<and> key m (t ! c) < key m (t ! i)")
    case False
    then have "siftdown_loop m t w tmp i = (m, t)"
      using w tmp by (subst siftdown_loop.simps) (auto simp: Let_def key_def word_sle_eq c_def)
    moreover have "heap4 (key m) t"
    proof (rule heap_down_stop [OF dn])
      fix k assume k: "k < length t" "0 < k" "par k = i"
      then have "i * 4 + 1 < length t" using child_par [OF k(2,3)] by simp
      then show "key m (t ! i) \<le> key m (t ! k)"
        using False least_child_least [OF _ k, where m = m] by (simp add: c_def)
    qed
    ultimately show ?thesis using b by (simp add: sifted_def reindexed_refl)
  next
    case True
    define t1 m1 t2 m2 where "t1 = t[i := t ! c]" and "m1 = set_ti m (t1 ! i) i" and "t2 = t1[c := tmp]" and "m2 = set_ti m1 (t2 ! c) c"
    have c: "i < c" "c < length t" "par c = i" "0 < c"
      using True least_child_range [where i = i and m = m and t = t] par_child [of i c] by (auto simp: c_def)
    have le: "\<not> w \<le>s twhen (m (t ! c))" using True w tmp by (simp add: key_def word_sle_eq)
    have ne: "i \<noteq> c" using c by simp
    note ex = exchange [OF b il c(2) ne tmp t1_def m1_def t2_def m2_def]
    have km: "key m2 = key m" by (rule reindexed_key [OF ex(4)])
    have tm: "twhen (m2 tmp) = w" "t2 ! c = tmp" using ex(4,6) c w by (auto simp: reindexed_def)
    have "heap_down (key m2) t2 c"
      using heap_down_step [OF dn c(4,2,3)] True least_child_least [where m = m] ex(1) c by (simp add: km c_def)
    moreover have "\<not> length t \<le> i * 4 + 1" using True by simp
    ultimately have "sifted m2 t2 (siftdown_loop m2 t2 w tmp c)"
      by (intro "1.IH" [OF _ c_def le t1_def m1_def t2_def m2_def ex(2)]) (use c(2) ex(5) tm in simp_all)
    moreover have "siftdown_loop m t w tmp i = siftdown_loop m2 t2 w tmp c"
      using True le by (subst siftdown_loop.simps) (simp add: Let_def t1_def m1_def t2_def m2_def c_def)
    ultimately show ?thesis using sifted_trans [OF ex(3,4)] by simp
  qed
qed

lemma siftupTimer_sifts:
  assumes "backptr m t" "i < length t" "heap_up (key m) t i"
  obtains r where "siftupTimer m t i = Inr r" "sifted m t r"
  using siftup_loop_sifts [OF assms(1,2) refl refl assms(3)] assms(2) by (simp add: siftupTimer_def go_get_def)

lemma siftdownTimer_sifts:
  assumes "backptr m t" "i < length t" "heap_down (key m) t i"
  obtains r where "siftdownTimer m t i = Inr r" "sifted m t r"
  using siftdown_loop_sifts [OF assms(1,2) refl refl assms(3)] assms(2) by (simp add: siftdownTimer_def go_get_def)

lemma siftupTimer_stays:
  "i < length t \<Longrightarrow> i = 0 \<or> key m (t ! par i) \<le> key m (t ! i) \<Longrightarrow> siftupTimer m t i = Inr (m, t)"
  by (subst siftupTimer_def, subst siftup_loop.simps) (auto simp: go_get_def par_def key_def word_sle_eq)

text \<open>Removal puts the last element in the gap, and sifts it up and down.\<close>

lemma sift_gap:
  assumes b: "backptr m t" and i: "i < length t" and gap: "heap_gap (key m) t i"
  obtains r where "go_bind (siftupTimer m t i) (\<lambda>(m, h). siftdownTimer m h i) = Inr r" "sifted m t r"
proof (cases "i = 0 \<or> key m (t ! par i) \<le> key m (t ! i)")
  case True
  show ?thesis
    by (rule siftdownTimer_sifts [OF b i heap_gap_down [OF gap True]])
      (rule that, simp_all add: siftupTimer_stays [OF i True])
next
  case False
  then have lt: "0 < i" "key m (t ! i) < key m (t ! par i)" by auto
  obtain r1 where r1: "siftupTimer m t i = Inr r1" "sifted m t r1"
    by (rule siftupTimer_sifts [OF b i heap_gap_up [OF gap lt]])
  obtain m1 t1 where "r1 = (m1, t1)" by force
  then have u: "siftupTimer m t i = Inr (m1, t1)" "sifted m t (m1, t1)" using r1 by simp_all
  then have 1: "mset t1 = mset t" "backptr m1 t1" "reindexed (set t) m m1" "heap4 (key m1) t1" by (auto simp: sifted_def)
  then have "i < length t1" using i by (metis size_mset)
  then show ?thesis
    by (rule_tac siftdownTimer_sifts [OF 1(2) _ heap4_down [OF 1(4)]])
      (assumption+, rule that, simp add: u(1), rule sifted_trans [OF 1(1,3)])
qed

section \<open>The invariant of the timers\<close>

definition timers_ok :: "timers \<Rightarrow> bool" where
  "timers_ok s \<longleftrightarrow> backptr (tmem s) (theap s) \<and> heap4 (key (tmem s)) (theap s)"

lemma heap4_butlast_gap:
  assumes "heap4 f xs" "i < length xs - 1"
  shows "heap_gap f ((butlast xs)[i := y]) i"
proof -
  define ys where "ys = (butlast xs)[i := y]"
  have ys: "length ys = length xs - 1" "\<And>k. k \<noteq> i \<Longrightarrow> k < length xs - 1 \<Longrightarrow> ys ! k = xs ! k"
    by (simp_all add: ys_def nth_butlast)
  have h: "k < length xs \<Longrightarrow> 0 < k \<Longrightarrow> f (xs ! par k) \<le> f (xs ! k)" for k using assms(1) by (simp add: heap4_def)
  have "f (ys ! par k) \<le> f (ys ! k)" if "k < length ys" "0 < k" "k \<noteq> i" "par k \<noteq> i" for k
    using that ys h [of k] par_less [of k] by simp
  moreover have "f (ys ! par i) \<le> f (ys ! k)" if k: "k < length ys" "0 < k" "par k = i" "0 < i" for k
  proof -
    have "par i < i" "i < k" using k par_less [of k] par_less [of i] by auto
    then have "f (xs ! par i) \<le> f (xs ! i)" "f (xs ! i) \<le> f (xs ! k)" using k ys(1) h [of k] h [of i] by auto
    then show ?thesis using k ys \<open>par i < i\<close> \<open>i < k\<close> by simp
  qed
  ultimately show ?thesis by (simp add: heap_gap_def grand_def ys_def)
qed

lemma backptr_butlast: "backptr m h \<Longrightarrow> backptr m (butlast h)"
  by (simp add: backptr_def nth_butlast)

lemma heap4_butlast:
  assumes "heap4 f h"
  shows "heap4 f (butlast h)"
  unfolding heap4_def
proof (intro allI impI)
  fix k assume k: "k < length (butlast h)" "0 < k"
  then have "par k < length (butlast h)" using par_less [of k] by simp
  then show "f (butlast h ! par k) \<le> f (butlast h ! k)" using assms k by (simp add: heap4_def nth_butlast)
qed

lemma take_update_last:
  assumes "i < length h - 1"
  shows "take (length h - 1) (h[i := h ! (length h - 1)]) = (butlast h)[i := last h]"
  using assms by (cases h rule: rev_cases) (auto simp: list_update_append nth_append)

lemma backptr_butlast_update:
  assumes "backptr m h" "i < length h - 1"
  shows "backptr (set_ti m (last h) i) ((butlast h)[i := last h])"
proof -
  have d: "distinct h" using backptr_distinct [OF assms(1)] .
  have "h \<noteq> []" using assms(2) by auto
  then have ne: "h \<noteq> []" "last h = h ! (length h - 1)" by (simp_all add: last_conv_nth)
  show ?thesis
    unfolding backptr_def
  proof (intro allI impI)
    fix k assume "k < length ((butlast h)[i := last h])"
    then have k: "k < length h - 1" by simp
    then have "h ! k \<noteq> last h" using d ne by (simp add: nth_eq_iff_index_eq)
    then show "ti (set_ti m (last h) i ((butlast h)[i := last h] ! k)) = int k"
      using assms k by (cases "k = i") (auto simp: set_ti_def backptr_def nth_butlast)
  qed
qed

lemma mset_butlast_update:
  assumes "i < length h - 1"
  shows "mset ((butlast h)[i := last h]) = mset h - {#h ! i#}"
proof -
  have "h = butlast h @ [last h]" using assms by (cases h rule: rev_cases) auto
  then have h: "mset h = add_mset (last h) (mset (butlast h))" by (metis mset_append mset.simps union_mset_add_mset_right add_0_right)
  have "h ! i \<in># mset (butlast h)" using assms nth_mem [of i "butlast h"] by (simp add: nth_butlast)
  then obtain N where "mset (butlast h) = add_mset (h ! i) N" by (blast dest: multi_member_split)
  then show ?thesis using assms by (simp add: h mset_update nth_butlast add_mset_commute [of "last h"])
qed

lemma addtimerLocked_adds:
  assumes ok: "timers_ok s" and t: "t \<notin> set (theap s)"
  shows "\<exists>s' es. addtimerLocked s t = Inr (s', es) \<and> timers_ok s' \<and> mset (theap s') = add_mset t (mset (theap s)) \<and>
    created s' \<and> (StartProc \<in> set es \<longleftrightarrow> \<not> created s) \<and>
    twhen (tmem s' t) = (if twhen (tmem s t) <s 0 then 0x7FFFFFFFFFFFFFFF else twhen (tmem s t)) \<and>
    tperiod (tmem s' t) = tperiod (tmem s t) \<and>
    (\<forall>a. a \<noteq> t \<longrightarrow> twhen (tmem s' a) = twhen (tmem s a) \<and> tperiod (tmem s' a) = tperiod (tmem s a)) \<and>
    (NoteWakeup \<in> set es \<longleftrightarrow> sleeping s \<and> theap s' ! 0 = t) \<and> (GoReady \<in> set es \<longleftrightarrow> rescheduling s \<and> theap s' ! 0 = t) \<and>
    sleeping s' = (sleeping s \<and> theap s' ! 0 \<noteq> t) \<and> rescheduling s' = (rescheduling s \<and> theap s' ! 0 \<noteq> t)"
proof -
  define m0 where "m0 = (if twhen (tmem s t) <s 0 then (tmem s)(t := (tmem s t)\<lparr>twhen := 0x7FFFFFFFFFFFFFFF\<rparr>) else tmem s)"
  define m where "m = set_ti m0 t (length (theap s))"
  define h where "h = theap s @ [t]"
  have old: "a \<noteq> t \<Longrightarrow> m a = tmem s a" for a by (simp add: m_def m0_def set_ti_def)
  have new: "twhen (m t) = (if twhen (tmem s t) <s 0 then 0x7FFFFFFFFFFFFFFF else twhen (tmem s t))"
      "tperiod (m t) = tperiod (tmem s t)" "ti (m t) = int (length (theap s))"
    by (simp_all add: m_def m0_def set_ti_def)
  have ht: "k < length (theap s) \<Longrightarrow> theap s ! k \<noteq> t" for k using t by auto
  have b: "backptr m h"
    using ok new ht by (auto simp: timers_ok_def backptr_def h_def nth_append old less_Suc_eq)
  have "key m (h ! par k) \<le> key m (h ! k)" if "k < length (theap s)" "0 < k" for k
    using that ok ht par_less [OF that(2)] by (auto simp: timers_ok_def heap4_def h_def nth_append key_def old)
  moreover have "par k \<noteq> length (theap s)" if "k < Suc (length (theap s))" "0 < k" for k
    using that par_less [OF that(2)] by simp
  ultimately have hu: "heap_up (key m) h (length (theap s))" by (auto simp: heap_up_def grand_def h_def less_Suc_eq)
  obtain r where r: "siftupTimer m h (length (theap s)) = Inr r" "sifted m h r"
    by (rule siftupTimer_sifts [OF b _ hu]) (simp_all add: h_def)
  obtain m' h' where "r = (m', h')" by force
  then have 1: "siftupTimer m h (length (theap s)) = Inr (m', h')" "mset h' = mset h" "backptr m' h'"
      "reindexed (set h) m m'" "heap4 (key m') h'" using r by (auto simp: sifted_def)
  have "set h' = set h" using 1(2) by (rule mset_eq_setD)
  then have "h' \<noteq> []" "t \<in> set h'" by (auto simp: h_def)
  then obtain k where k: "k < length h'" "h' ! k = t" by (auto simp: in_set_conv_nth)
  then have "ti (m' t) = int k" using 1(3) by (auto simp: backptr_def)
  moreover have "h' ! 0 = t \<longleftrightarrow> k = 0"
    using k backptr_distinct [OF 1(3)] \<open>h' \<noteq> []\<close> nth_eq_iff_index_eq [of h' 0 k] by auto
  ultimately have first: "ti (m' t) = 0 \<longleftrightarrow> h' ! 0 = t" by simp
  have "addtimerLocked s t = go_bind (Inr (m', h')) (\<lambda>(m, h).
       let s = s\<lparr>tmem := m, theap := h\<rparr>;
           (s, es) = (if ti (m t) = 0 then
               let (s, e1) = (if sleeping s then (s\<lparr>sleeping := False\<rparr>, [NoteWakeup]) else (s, []));
                   (s, e2) = (if rescheduling s then (s\<lparr>rescheduling := False\<rparr>, [GoReady]) else (s, [])) in
               (s, e1 @ e2)
             else (s, [])) in
       if \<not> created s then Inr (s\<lparr>created := True\<rparr>, es @ [StartProc]) else Inr (s, es))"
    unfolding addtimerLocked_def Let_def 1(1) [unfolded m_def m0_def h_def] ..
  then show ?thesis
    using 1(2-5) new old first by (auto simp: Let_def timers_ok_def h_def reindexed_def)
qed

text \<open>The heap without its element at \<open>i\<close>, as both \<open>deltimer\<close> and \<open>timerproc\<close> make it.\<close>

lemma remove_at:
  assumes ok: "timers_ok s" and i: "i < length (theap s) - 1"
    and h: "h = take (length (theap s) - 1) ((theap s)[i := theap s ! (length (theap s) - 1)])"
    and m: "m = set_ti (tmem s) (((theap s)[i := theap s ! (length (theap s) - 1)]) ! i) i"
  shows "backptr m h" "heap_gap (key m) h i" "mset h = mset (theap s) - {#theap s ! i#}" "i < length h"
    "reindexed (set (theap s)) (tmem s) m" "set h = set (theap s) - {theap s ! i}"
proof -
  have ne: "theap s \<noteq> []" using i by auto
  have h': "h = (butlast (theap s))[i := last (theap s)]" unfolding h by (rule take_update_last [OF i])
  have m': "m = set_ti (tmem s) (last (theap s)) i" using i ne by (simp add: m last_conv_nth)
  show "backptr m h" unfolding h' m' using ok i by (intro backptr_butlast_update) (auto simp: timers_ok_def)
  show re: "reindexed (set (theap s)) (tmem s) m" unfolding m' using ne by (intro reindexed_set_ti last_in_set)
  show "heap_gap (key m) h i"
    unfolding h' reindexed_key [OF re] using ok i by (intro heap4_butlast_gap) (auto simp: timers_ok_def)
  show ms: "mset h = mset (theap s) - {#theap s ! i#}" unfolding h' by (rule mset_butlast_update [OF i])
  show "i < length h" using i by (simp add: h)
  have "distinct (theap s)" using ok backptr_distinct by (auto simp: timers_ok_def)
  then show "set h = set (theap s) - {theap s ! i}"
    using ms by (metis mset_remove1 mset_eq_setD set_remove1_eq)
qed

lemma deltimer_removes:
  assumes ok: "timers_ok s"
  shows "\<exists>s'. deltimer s t = Inr (s', t \<in> set (theap s)) \<and> timers_ok s' \<and>
    mset (theap s') = mset (theap s) - {#t#} \<and> reindexed (set (theap s)) (tmem s) (tmem s') \<and>
    created s' = created s \<and> sleeping s' = sleeping s \<and> rescheduling s' = rescheduling s"
proof (cases "t \<in> set (theap s)")
  case False
  have "theap s ! nat x \<noteq> t" if "0 \<le> x" "x \<le> int (length (theap s)) - 1" for x
  proof -
    have "nat x < length (theap s)" using that by linarith
    then show ?thesis using False nth_mem by metis
  qed
  then have c: "ti (tmem s t) < 0 \<or> ti (tmem s t) > int (length (theap s)) - 1 \<or> theap s ! nat (ti (tmem s t)) \<noteq> t"
    by (meson not_less)
  have "deltimer s t = Inr (s, False)" unfolding deltimer_def Let_def if_P [OF c] ..
  then show ?thesis using ok False by (simp add: reindexed_refl)
next
  case True
  then obtain i where i: "i < length (theap s)" "theap s ! i = t" by (auto simp: in_set_conv_nth)
  have ti: "ti (tmem s t) = int i" using ok i by (auto simp: timers_ok_def backptr_def)
  show ?thesis
  proof (cases "i = length (theap s) - 1")
    case last: True
    have ne: "theap s \<noteq> []" using True by auto
    have "deltimer s t = Inr (s\<lparr>theap := butlast (theap s)\<rparr>, True)"
      using i ti last ne by (cases "length (theap s)") (simp_all add: deltimer_def butlast_conv_take Let_def)
    moreover have "timers_ok (s\<lparr>theap := butlast (theap s)\<rparr>)"
      using ok by (auto simp: timers_ok_def intro: backptr_butlast heap4_butlast)
    moreover have "t = last (theap s)" using i last ne by (simp add: last_conv_nth)
    then have "mset (theap s) = add_mset t (mset (butlast (theap s)))"
      using ne by (metis append_butlast_last_id mset_append mset.simps union_mset_add_mset_right add_0_right)
    ultimately show ?thesis using True by (simp add: reindexed_refl)
  next
    case False
    then have il: "i < length (theap s) - 1" using i by simp
    define h where "h = take (length (theap s) - 1) ((theap s)[i := theap s ! (length (theap s) - 1)])"
    define m where "m = set_ti (tmem s) (((theap s)[i := theap s ! (length (theap s) - 1)]) ! i) i"
    note ra = remove_at [OF ok il h_def m_def]
    obtain r where r: "go_bind (siftupTimer m h i) (\<lambda>(m, h). siftdownTimer m h i) = Inr r" "sifted m h r"
      by (rule sift_gap [OF ra(1,4,2)])
    obtain m' h' where "r = (m', h')" by force
    then have 1: "go_bind (siftupTimer m h i) (\<lambda>(m, h). siftdownTimer m h i) = Inr (m', h')" "mset h' = mset h"
      "backptr m' h'" "reindexed (set h) m m'" "heap4 (key m') h'" using r by (auto simp: sifted_def)
    have n: "nat (int (length (theap s)) - 1) = length (theap s) - 1" by simp
    have il': "\<not> int i > int (length (theap s)) - 1" using i by simp
    have "deltimer s t = Inr (s\<lparr>tmem := m', theap := h'\<rparr>, True)"
      using i ti False il 1(1) unfolding h_def m_def by (auto simp: deltimer_def Let_def n)
    moreover have "reindexed (set (theap s)) (tmem s) m'"
      using ra(5,6) 1(4) by (auto simp: reindexed_def)
    ultimately show ?thesis using 1 ra(3) i True by (simp add: timers_ok_def)
  qed
qed

section \<open>Firing\<close>

text \<open>What a round does in general: the timer that fires is the first one, with the least \<open>when\<close>.\<close>

definition next_when :: "timer \<Rightarrow> u64 \<Rightarrow> u64" where
  "next_when t now = twhen t + tperiod t * (1 + go_sdiv (- (twhen t - now)) (tperiod t))"

lemma round_periodic:
  assumes ok: "timers_ok s" and ne: "theap s \<noteq> []" and t: "t = theap s ! 0"
    and due: "\<not> 0 <s twhen (tmem s t) - now" and p: "0 <s tperiod (tmem s t)"
  shows "\<exists>s'. timerproc_round s now = Inr (s', Fire t) \<and> timers_ok s' \<and> mset (theap s') = mset (theap s) \<and>
    twhen (tmem s' t) = next_when (tmem s t) now \<and>
    (\<forall>a. tperiod (tmem s' a) = tperiod (tmem s a) \<and> (a \<noteq> t \<longrightarrow> twhen (tmem s' a) = twhen (tmem s a)))"
proof -
  define m where "m = (tmem s)(t := (tmem s t)\<lparr>twhen := next_when (tmem s t) now\<rparr>)"
  define h where "h = theap s"
  have b: "backptr (tmem s) h" and hp: "heap4 (key (tmem s)) h" using ok by (auto simp: timers_ok_def h_def)
  have b': "backptr m h" using b by (auto simp: backptr_def m_def)
  have "h ! k \<noteq> t" if "0 < k" "k < length h" for k
    using that t ne backptr_distinct [OF b] by (simp add: h_def nth_eq_iff_index_eq)
  then have same: "key m (h ! k) = key (tmem s) (h ! k)" if "0 < k" "k < length h" for k
    using that by (simp add: key_def m_def)
  have "key m (h ! par k) \<le> key m (h ! k)" if "k < length h" "0 < k" "par k \<noteq> 0" for k
    using that hp same [of k] same [of "par k"] par_less [of k] by (simp add: heap4_def)
  then have dn: "heap_down (key m) h 0" by (simp add: heap_down_def grand_def)
  obtain r where r: "siftdownTimer m h 0 = Inr r" "sifted m h r"
    by (rule siftdownTimer_sifts [OF b' _ dn]) (use ne in \<open>simp_all add: h_def\<close>)
  obtain m' h' where mh: "r = (m', h')" by force
  then have 1: "mset h' = mset h" "backptr m' h'" "reindexed (set h) m m'" "heap4 (key m') h'" using r by (auto simp: sifted_def)
  have "timerproc_round s now = Inr (s\<lparr>tmem := m', theap := h'\<rparr>, Fire t)"
    using ne due p r(1) mh by (simp add: timerproc_round_def Let_def t [symmetric] m_def h_def next_when_def)
  then show ?thesis using 1 by (auto simp: timers_ok_def reindexed_def h_def m_def)
qed

lemma round_once:
  assumes ok: "timers_ok s" and ne: "theap s \<noteq> []" and t: "t = theap s ! 0"
    and due: "\<not> 0 <s twhen (tmem s t) - now" and p: "\<not> 0 <s tperiod (tmem s t)"
  shows "\<exists>s'. timerproc_round s now = Inr (s', Fire t) \<and> timers_ok s' \<and> mset (theap s') = mset (theap s) - {#t#} \<and>
    ti (tmem s' t) = -1 \<and> (\<forall>a. tperiod (tmem s' a) = tperiod (tmem s a) \<and> twhen (tmem s' a) = twhen (tmem s a))"
proof (cases "length (theap s) = 1")
  case True
  then have "theap s = [t]" using t by (cases "theap s") auto
  then show ?thesis using due p
    by (simp add: timerproc_round_def Let_def timers_ok_def backptr_def heap4_def)
next
  case False
  then have l: "0 < length (theap s) - 1" using ne by (cases "theap s") auto
  define h where "h = take (length (theap s) - 1) ((theap s)[0 := theap s ! (length (theap s) - 1)])"
  define m where "m = set_ti (tmem s) (((theap s)[0 := theap s ! (length (theap s) - 1)]) ! 0) 0"
  note ra = remove_at [OF ok l h_def m_def]
  obtain r where r: "siftdownTimer m h 0 = Inr r" "sifted m h r"
    by (rule siftdownTimer_sifts [OF ra(1,4) heap_gap_down [OF ra(2)]]) simp_all
  obtain m' h' where mh: "r = (m', h')" by force
  then have 1: "mset h' = mset h" "backptr m' h'" "reindexed (set h) m m'" "heap4 (key m') h'" using r by (auto simp: sifted_def)
  define m2 where "m2 = m'(t := (m' t)\<lparr>ti := -1\<rparr>)"
  have "t \<notin> set h'" using ra(6) mset_eq_setD [OF 1(1)] t by simp
  then have "backptr m2 h'" using 1(2) by (auto simp: backptr_def m2_def)
  moreover have "key m2 = key m'" by (rule ext) (simp add: key_def m2_def)
  moreover have "timerproc_round s now = Inr (s\<lparr>tmem := m2, theap := h'\<rparr>, Fire t)"
    using ne due p l r(1) mh
    by (simp add: timerproc_round_def Let_def t [symmetric] m_def h_def m2_def)
  ultimately show ?thesis using 1 ra(3,5) t by (auto simp: timers_ok_def reindexed_def m2_def)
qed

lemma sint_word_of_int_64: "- (2 ^ 63) \<le> k \<Longrightarrow> k < 2 ^ 63 \<Longrightarrow> sint (word_of_int k :: u64) = k"
  by (simp add: signed_of_int signed_take_bit_int_eq_self)

lemma sint_diff_nonneg:
  fixes a b :: u64
  assumes "0 \<le> sint a" "0 \<le> sint b"
  shows "sint (a - b) = sint a - sint b"
proof -
  have "a - b = word_of_int (sint a - sint b)" by simp
  then show ?thesis using assms sint_bounds [of a] sint_bounds [of b]
    by (simp only:) (rule sint_word_of_int_64; simp)
qed

lemma next_when_after:
  assumes w: "0 \<le> sint (twhen t)" "sint (twhen t) \<le> sint now" and p: "0 < sint (tperiod t)"
    and fits: "sint now + sint (tperiod t) < 2 ^ 63"
  shows "sint (next_when t now) = sint (twhen t) + sint (tperiod t) * (1 + (sint now - sint (twhen t)) div sint (tperiod t))"
    and "sint now < sint (next_when t now)" and "sint (next_when t now) \<le> sint now + sint (tperiod t)"
proof -
  let ?w = "sint (twhen t)" and ?p = "sint (tperiod t)" and ?n = "sint now"
  define q where "q = (?n - ?w) div ?p"
  have d: "sint (twhen t - now) = ?w - ?n" using w by (intro sint_diff_nonneg) auto
  have "sint (- (twhen t - now)) = ?n - ?w"
  proof -
    have "- (twhen t - now) = word_of_int (?n - ?w)" by simp
    then show ?thesis using w sint_bounds [of now] by (simp only:) (rule sint_word_of_int_64; simp)
  qed
  then have "go_sdiv (- (twhen t - now)) (tperiod t) = word_of_int q"
    using w p by (simp only: go_sdiv_def q_def) (simp add: signed_divide_int_def sgn_if)
  then have nw: "next_when t now = word_of_int (?w + ?p * (1 + q))" by (simp add: next_when_def)
  have "?n - ?w = ?p * q + (?n - ?w) mod ?p" by (simp add: q_def)
  moreover have "0 \<le> (?n - ?w) mod ?p" "(?n - ?w) mod ?p < ?p" using p by simp_all
  ultimately have r: "?n < ?w + ?p * (1 + q)" "?w + ?p * (1 + q) \<le> ?n + ?p" by (simp_all add: algebra_simps)
  have "sint (next_when t now) = ?w + ?p * (1 + q)"
    unfolding nw using r w fits by (intro sint_word_of_int_64) simp_all
  then show "sint (next_when t now) = ?w + ?p * (1 + (?n - ?w) div ?p)" "?n < sint (next_when t now)" "sint (next_when t now) \<le> ?n + ?p"
    using r by (simp_all add: q_def)
qed

text \<open>No time in the heap is negative, and no periodic timer runs out of the range of \<open>int64\<close>.\<close>

definition times_fit :: "timers \<Rightarrow> u64 \<Rightarrow> bool" where
  "times_fit s now \<longleftrightarrow> 0 \<le> sint now \<and>
    (\<forall>t \<in> set (theap s). 0 \<le> key (tmem s) t \<and> sint now + sint (tperiod (tmem s t)) < 2 ^ 63)"

definition due :: "timers \<Rightarrow> u64 \<Rightarrow> nat set" where
  "due s now = {t \<in> set (theap s). key (tmem s) t \<le> sint now}"

lemma round_correct:
  assumes ok: "timers_ok s" and fit: "times_fit s now"
  obtains s' ev where "timerproc_round s now = Inr (s', ev)" "timers_ok s'" "times_fit s' now"
    "case ev of NoTimers \<Rightarrow> theap s = [] \<and> s' = s
     | Delay d \<Rightarrow> s' = s \<and> theap s \<noteq> [] \<and> sint d = key (tmem s) (theap s ! 0) - sint now \<and> due s now = {}
     | Fire t \<Rightarrow> t \<in> due s now \<and> (\<forall>u \<in> set (theap s). key (tmem s) t \<le> key (tmem s) u) \<and>
         due s' now = due s now - {t} \<and> (\<forall>u. u \<noteq> t \<longrightarrow> key (tmem s') u = key (tmem s) u) \<and>
         (\<forall>u. tperiod (tmem s' u) = tperiod (tmem s u)) \<and>
         set (theap s') = set (theap s) - (if 0 < sint (tperiod (tmem s t)) then {} else {t})"
proof (cases "theap s = []")
  case True
  then show ?thesis using ok fit by (intro that [of s NoTimers]) (auto simp: timerproc_round_def)
next
  case False
  define t where "t = theap s ! 0"
  have t: "t \<in> set (theap s)" using False by (simp add: t_def)
  have least: "key (tmem s) t \<le> key (tmem s) u" if "u \<in> set (theap s)" for u
    using that ok heap4_least by (auto simp: timers_ok_def t_def in_set_conv_nth)
  have tf: "0 \<le> key (tmem s) t" "sint now + sint (tperiod (tmem s t)) < 2 ^ 63" "0 \<le> sint now"
    using fit t by (auto simp: times_fit_def)
  have d: "sint (twhen (tmem s t) - now) = key (tmem s) t - sint now"
    using tf by (simp add: key_def sint_diff_nonneg)
  show ?thesis
  proof (cases "sint now < key (tmem s) t")
    case True
    then have "due s now = {}" using least by (fastforce simp: due_def)
    moreover have "0 <s twhen (tmem s t) - now" using True d by (simp add: word_sless_alt)
    ultimately show ?thesis using ok fit False d
      by (intro that [of s "Delay (twhen (tmem s t) - now)"]) (auto simp: timerproc_round_def t_def)
  next
    case now: False
    have late: "\<not> 0 <s twhen (tmem s t) - now" using now d by (simp add: word_sless_alt)
    have dist: "distinct (theap s)" using ok backptr_distinct by (auto simp: timers_ok_def)
    show ?thesis
    proof (cases "0 < sint (tperiod (tmem s t))")
      case True
      then have "0 <s tperiod (tmem s t)" by (simp add: word_sless_alt)
      from round_periodic [OF ok False t_def late this] obtain s' where s': "timerproc_round s now = Inr (s', Fire t)"
          "timers_ok s'" "mset (theap s') = mset (theap s)" "twhen (tmem s' t) = next_when (tmem s t) now"
          "\<forall>a. tperiod (tmem s' a) = tperiod (tmem s a) \<and> (a \<noteq> t \<longrightarrow> twhen (tmem s' a) = twhen (tmem s a))" by blast
      have st: "set (theap s') = set (theap s)" using s'(3) by (rule mset_eq_setD)
      have kt: "sint now < key (tmem s') t"
        using next_when_after(2) [of "tmem s t" now] tf now True s'(4) by (simp add: key_def)
      have ku: "u \<noteq> t \<Longrightarrow> key (tmem s') u = key (tmem s) u" for u using s'(5) by (simp add: key_def)
      have "x \<in> due s' now \<longleftrightarrow> x \<in> due s now - {t}" for x
        by (cases "x = t") (use st kt ku in \<open>auto simp: due_def\<close>)
      then have "due s' now = due s now - {t}" by blast
      moreover have "0 \<le> key (tmem s') x \<and> sint now + sint (tperiod (tmem s' x)) < 2 ^ 63" if "x \<in> set (theap s)" for x
        by (cases "x = t") (use that fit kt ku s'(5) tf in \<open>auto simp: times_fit_def\<close>)
      then have "times_fit s' now" using st tf(3) by (simp add: times_fit_def)
      ultimately show ?thesis using s' st ku least now t True
        by (intro that [of s' "Fire t"]) (auto simp: due_def)
    next
      case False2: False
      then have "\<not> 0 <s tperiod (tmem s t)" by (simp add: word_sless_alt)
      from round_once [OF ok False t_def late this] obtain s' where s': "timerproc_round s now = Inr (s', Fire t)"
          "timers_ok s'" "mset (theap s') = mset (theap s) - {#t#}"
          "\<forall>a. tperiod (tmem s' a) = tperiod (tmem s a) \<and> twhen (tmem s' a) = twhen (tmem s a)" by blast
      have st: "set (theap s') = set (theap s) - {t}" using s'(3) dist by (metis mset_remove1 mset_eq_setD set_remove1_eq)
      have k: "key (tmem s') = key (tmem s)" using s'(4) by (auto simp: key_def fun_eq_iff)
      have "times_fit s' now" using fit st k s'(4) by (auto simp: times_fit_def)
      then show ?thesis using s' st k least now t False2
        by (intro that [of s' "Fire t"]) (auto simp: due_def)
    qed
  qed
qed

lemma finite_due: "finite (due s now)"
  by (simp add: due_def)

section \<open>Critical sections in any order\<close>

text \<open>
  Goroutines and the timer goroutine take the lock in any order. A timer that is not in the heap belongs to
  the code that made it, which may set all its fields, the index included, and may start it; any timer may
  be stopped at any time; the clock may show anything.
\<close>

inductive timer_step :: "timers \<Rightarrow> timers \<Rightarrow> bool" where
  set_fields: "t \<notin> set (theap s) \<Longrightarrow> timer_step s (s\<lparr>tmem := (tmem s)(t := x)\<rparr>)"
| start: "t \<notin> set (theap s) \<Longrightarrow> addtimerLocked s t = Inr (s', es) \<Longrightarrow> timer_step s s'"
| sleep: "t \<notin> set (theap s) \<Longrightarrow> timeSleep s nanotime ns t = Inr (s', es) \<Longrightarrow> timer_step s s'"
| stop: "deltimer s t = Inr (s', b) \<Longrightarrow> timer_step s s'"
| proc_begin: "timer_step s (timerproc_begin s)"
| proc_round: "timerproc_round s now = Inr (s', ev) \<Longrightarrow> timer_step s s'"
| proc_end: "timer_step s (timerproc_end s faketime ev)"
| jump: "timejump s faketime = (s', r) \<Longrightarrow> timer_step s s'"

definition no_timers :: timers where
  "no_timers = \<lparr>created = False, sleeping = False, rescheduling = False, theap = [],
    tmem = (\<lambda>_. \<lparr>ti = 0, twhen = 0, tperiod = 0\<rparr>)\<rparr>"

lemma timers_ok_frame:
  assumes ok: "timers_ok s" and t: "t \<notin> set (theap s)"
  shows "timers_ok (s\<lparr>tmem := (tmem s)(t := x)\<rparr>)"
proof -
  define m where "m = (tmem s)(t := x)"
  have same: "m (theap s ! k) = tmem s (theap s ! k)" if "k < length (theap s)" for k
    using t nth_mem [OF that] by (auto simp: m_def)
  have "backptr m (theap s)" using ok same by (simp add: timers_ok_def backptr_def)
  moreover have "key m (theap s ! par k) \<le> key m (theap s ! k)" if "k < length (theap s)" "0 < k" for k
    using that ok same [of k] same [of "par k"] par_less [of k] by (simp add: timers_ok_def heap4_def key_def)
  ultimately show ?thesis by (simp add: timers_ok_def heap4_def m_def)
qed

lemma round_ok:
  assumes ok: "timers_ok s"
  shows "\<exists>s' ev. timerproc_round s now = Inr (s', ev) \<and> timers_ok s'"
proof (cases "theap s = [] \<or> 0 <s twhen (tmem s (theap s ! 0)) - now")
  case True
  then show ?thesis using ok by (auto simp: timerproc_round_def Let_def)
next
  case False
  then show ?thesis using round_periodic [OF ok _ refl] round_once [OF ok _ refl] by blast
qed

lemma timer_step_ok:
  assumes "timer_step s s'" "timers_ok s"
  shows "timers_ok s'"
  using assms
proof (induction rule: timer_step.induct)
  case (set_fields t s x)
  then show ?case by (rule_tac timers_ok_frame)
next
  case (start t s s' es)
  then show ?case using addtimerLocked_adds [of s t] by auto
next
  case (sleep t s nanotime ns s' es)
  show ?case
  proof (cases "ns \<le>s 0")
    case True
    then show ?thesis using sleep by (simp add: timeSleep_def)
  next
    case False
    let ?s = "s\<lparr>tmem := (tmem s)(t := \<lparr>ti = 0, twhen = nanotime + ns, tperiod = 0\<rparr>)\<rparr>"
    have "timers_ok ?s" using sleep by (intro timers_ok_frame)
    then show ?thesis using sleep False addtimerLocked_adds [of ?s t] by (auto simp: timeSleep_def)
  qed
next
  case (stop s t s' b)
  then show ?case using deltimer_removes [of s t] by auto
next
  case (proc_round s now s' ev)
  then show ?case using round_ok [of s now] by auto
qed (auto simp: timerproc_begin_def timerproc_end_def timejump_def timers_ok_def Let_def split: timer_event.splits if_splits)

lemma timers_ok_reach:
  assumes "timer_step\<^sup>*\<^sup>* no_timers s"
  shows "timers_ok s"
  using assms
proof (induction rule: rtranclp_induct)
  case base
  show ?case by (simp add: timers_ok_def no_timers_def backptr_def heap4_def)
qed (rule timer_step_ok)

section \<open>A pass of the timer goroutine\<close>

text \<open>
  What may happen while the lock is free: critical sections of the callback and of other goroutines, which start
  no timer that is already due at \<open>now\<close>, the time at which the pass began, and none whose times do not fit.
\<close>

definition window_ok :: "(nat \<Rightarrow> nat \<Rightarrow> timers \<Rightarrow> timers) \<Rightarrow> u64 \<Rightarrow> bool" where
  "window_ok window now \<longleftrightarrow> (\<forall>k t s. timers_ok s \<and> times_fit s now \<longrightarrow>
     timer_step\<^sup>*\<^sup>* s (window k t s) \<and> times_fit (window k t s) now \<and> due (window k t s) now \<subseteq> due s now)"

text \<open>In a quiet window no timer of the heap is changed, stopped or added.\<close>

definition quiet :: "(nat \<Rightarrow> nat \<Rightarrow> timers \<Rightarrow> timers) \<Rightarrow> bool" where
  "quiet window \<longleftrightarrow> (\<forall>k t s. set (theap (window k t s)) = set (theap s) \<and>
     (\<forall>u \<in> set (theap s). twhen (tmem (window k t s) u) = twhen (tmem s u) \<and> tperiod (tmem (window k t s) u) = tperiod (tmem s u)))"

lemma timer_steps_ok: "timer_step\<^sup>*\<^sup>* s s' \<Longrightarrow> timers_ok s \<Longrightarrow> timers_ok s'"
  by (induction rule: rtranclp_induct) (auto intro: timer_step_ok)

lemma quiet_due: "quiet window \<Longrightarrow> due (window k t s) now = due s now"
  by (auto simp: quiet_def due_def key_def)

lemma timerproc_inner_ends:
  assumes "window_ok window now"
  shows "timers_ok s \<Longrightarrow> times_fit s now \<Longrightarrow> \<exists>ts s' ev. timerproc_inner window k s now = Some (Inr (ts, s', ev)) \<and> timers_ok s' \<and>
    distinct ts \<and> set ts \<subseteq> due s now \<and> due s' now = {} \<and>
    (case ev of NoTimers \<Rightarrow> theap s' = [] | Delay d \<Rightarrow> theap s' \<noteq> [] \<and> sint d = key (tmem s') (theap s' ! 0) - sint now | Fire t \<Rightarrow> False) \<and>
    (quiet window \<longrightarrow> set ts = due s now \<and> sorted (map (key (tmem s)) ts) \<and>
       set (theap s') = set (theap s) - {t \<in> due s now. \<not> 0 < sint (tperiod (tmem s t))})"
proof (induction "card (due s now)" arbitrary: s k rule: less_induct)
  case less
  obtain s1 ev where r: "timerproc_round s now = Inr (s1, ev)" "timers_ok s1" "times_fit s1 now"
    and c: "case ev of NoTimers \<Rightarrow> theap s = [] \<and> s1 = s
     | Delay d \<Rightarrow> s1 = s \<and> theap s \<noteq> [] \<and> sint d = key (tmem s) (theap s ! 0) - sint now \<and> due s now = {}
     | Fire t \<Rightarrow> t \<in> due s now \<and> (\<forall>u \<in> set (theap s). key (tmem s) t \<le> key (tmem s) u) \<and>
         due s1 now = due s now - {t} \<and> (\<forall>u. u \<noteq> t \<longrightarrow> key (tmem s1) u = key (tmem s) u) \<and>
         (\<forall>u. tperiod (tmem s1 u) = tperiod (tmem s u)) \<and>
         set (theap s1) = set (theap s) - (if 0 < sint (tperiod (tmem s t)) then {} else {t})"
    by (rule round_correct [OF less.prems])
  show ?case
  proof (cases ev)
    case NoTimers
    then show ?thesis using c r by (subst timerproc_inner.simps) (auto simp: due_def)
  next
    case (Delay d)
    then show ?thesis using c r by (subst timerproc_inner.simps) auto
  next
    case (Fire t)
    note f = c [unfolded Fire, simplified]
    define s2 where "s2 = window k t s1"
    have w: "timers_ok s2" "times_fit s2 now" "due s2 now \<subseteq> due s1 now"
      using assms r(2,3) timer_steps_ok unfolding window_ok_def s2_def by blast+
    have "card (due s2 now) \<le> card (due s1 now)" using w(3) finite_due by (rule card_mono [rotated])
    also have "\<dots> < card (due s now)" using f finite_due by (metis card_Diff1_less)
    finally obtain ts s' ev' where i: "timerproc_inner window (k + 1) s2 now = Some (Inr (ts, s', ev'))" "timers_ok s'"
      "distinct ts" "set ts \<subseteq> due s2 now" "due s' now = {}"
      "case ev' of NoTimers \<Rightarrow> theap s' = [] | Delay d \<Rightarrow> theap s' \<noteq> [] \<and> sint d = key (tmem s') (theap s' ! 0) - sint now | Fire t \<Rightarrow> False"
      and q: "quiet window \<longrightarrow> set ts = due s2 now \<and> sorted (map (key (tmem s2)) ts) \<and>
        set (theap s') = set (theap s2) - {t \<in> due s2 now. \<not> 0 < sint (tperiod (tmem s2 t))}"
      using less.hyps [OF _ w(1,2)] by blast
    have tn: "t \<notin> set ts" "set (t # ts) \<subseteq> due s now" using i(4) w(3) f by auto
    have "timerproc_inner window k s now = Some (Inr (t # ts, s', ev'))"
      using r(1) i(1) Fire by (subst timerproc_inner.simps) (simp add: s2_def)
    moreover have "set (t # ts) = due s now \<and> sorted (map (key (tmem s)) (t # ts)) \<and>
       set (theap s') = set (theap s) - {t \<in> due s now. \<not> 0 < sint (tperiod (tmem s t))}" if quiet: "quiet window"
    proof -
      have same: "due s2 now = due s now - {t}" "set (theap s2) = set (theap s1)"
        "\<And>u. u \<in> set (theap s1) \<Longrightarrow> key (tmem s2) u = key (tmem s1) u \<and> tperiod (tmem s2 u) = tperiod (tmem s1 u)"
        using quiet quiet_due [OF quiet, of k t s1 now] f by (auto simp: s2_def quiet_def key_def)
      have ts: "set ts = due s now - {t}" using q quiet same(1) by simp
      have k: "key (tmem s2) u = key (tmem s) u \<and> tperiod (tmem s2 u) = tperiod (tmem s u)" if "u \<in> due s now - {t}" for u
      proof -
        have "u \<in> set (theap s1)" using that f by (auto simp: due_def)
        then show ?thesis using same(3) [of u] that f by auto
      qed
      have m: "map (key (tmem s2)) ts = map (key (tmem s)) ts" using ts k by (intro map_cong) auto
      have "sorted (map (key (tmem s)) ts)" using q quiet unfolding m by blast
      moreover have "\<forall>u \<in> set ts. key (tmem s) t \<le> key (tmem s) u" using ts f by (auto simp: due_def)
      ultimately have "sorted (map (key (tmem s)) (t # ts))" by simp
      moreover have "{u \<in> due s2 now. \<not> 0 < sint (tperiod (tmem s2 u))} = {u \<in> due s now - {t}. \<not> 0 < sint (tperiod (tmem s u))}"
        using same(1) k by auto
      then have "set (theap s') = set (theap s) - {t \<in> due s now. \<not> 0 < sint (tperiod (tmem s t))}"
        using q quiet same(2) f by auto
      ultimately show ?thesis using ts f by auto
    qed
    ultimately show ?thesis using i tn by (intro exI [of _ "t # ts"] exI [of _ s'] exI [of _ ev']) auto
  qed
qed

section \<open>Theorems\<close>

text \<open>C12: Whatever goroutines start, stop and prepare timers in whatever order, and whatever the clock shows,
  every timer in the heap knows its own index, no timer is in the heap twice, and no timer is earlier than
  its parent. None of the operations then indexes outside the heap.
\<close>

theorem timers_reachable_ok:
  assumes "timer_step\<^sup>*\<^sup>* no_timers s"
  shows "distinct (theap s) \<and>
    (\<forall>k < length (theap s). ti (tmem s (theap s ! k)) = int k \<and>
       (0 < k \<longrightarrow> sint (twhen (tmem s (theap s ! ((k - 1) div 4)))) \<le> sint (twhen (tmem s (theap s ! k))))) \<and>
    (\<exists>r. deltimer s t = Inr r) \<and> (\<exists>r. timerproc_round s now = Inr r) \<and>
    (t \<notin> set (theap s) \<longrightarrow> (\<exists>r. addtimerLocked s t = Inr r))"
  using timers_ok_reach [OF assms] deltimer_removes [of s t] round_ok [of s now] addtimerLocked_adds [of s t] backptr_distinct
  by (auto simp: timers_ok_def backptr_def heap4_def key_def par_def)

text \<open>\<open>deltimer\<close> returns whether the timer was in the heap and takes exactly this timer out, also when the
  index the timer stores is stale; no other timer changes but for its index. The heap stays a heap.
\<close>

theorem deltimer_exact:
  assumes "timer_step\<^sup>*\<^sup>* no_timers s"
  shows "\<exists>s'. deltimer s t = Inr (s', t \<in> set (theap s)) \<and> mset (theap s') = mset (theap s) - {#t#} \<and>
    (\<forall>a. twhen (tmem s' a) = twhen (tmem s a) \<and> tperiod (tmem s' a) = tperiod (tmem s a)) \<and> timers_ok s'"
  using deltimer_removes [OF timers_ok_reach [OF assms], of t] by (auto simp: reindexed_def)

text \<open>A new timer that is the earliest one wakes the timer goroutine: if it sleeps or has parked, the
  operation clears the flag and asks for the wake-up; a later timer leaves it asleep, and the first timer
  ever starts it. A negative time becomes the largest one.
\<close>

theorem addtimer_wakes:
  assumes "timer_step\<^sup>*\<^sup>* no_timers s" "t \<notin> set (theap s)"
  shows "\<exists>s' es. addtimerLocked s t = Inr (s', es) \<and> mset (theap s') = add_mset t (mset (theap s)) \<and>
    (NoteWakeup \<in> set es \<longleftrightarrow> sleeping s \<and> theap s' ! 0 = t) \<and> (GoReady \<in> set es \<longleftrightarrow> rescheduling s \<and> theap s' ! 0 = t) \<and>
    (theap s' ! 0 = t \<longrightarrow> \<not> sleeping s' \<and> \<not> rescheduling s') \<and> (StartProc \<in> set es \<longleftrightarrow> \<not> created s) \<and> created s' \<and>
    0 \<le> sint (twhen (tmem s' t))"
proof -
  have "0 \<le> sint (if twhen (tmem s t) <s 0 then 0x7FFFFFFFFFFFFFFF else twhen (tmem s t))"
    by (simp add: word_sless_alt)
  then show ?thesis using addtimerLocked_adds [OF timers_ok_reach [OF assms(1)] assms(2)] by fastforce
qed

text \<open>C13: One pass of the timer goroutine at the time \<open>now\<close>, for timers whose times fit in 64 bits (\<open>times_fit\<close>): the lock is
  free while a timer's function runs, and the function and other goroutines may then start and stop timers in any
  critical sections that add no timer already due at \<open>now\<close> and none whose times do not fit. The pass still ends; it
  fires each timer at most once and only timers that were due when it began; when it ends no timer of the heap is
  due, so a due timer that did not fire has been stopped, and the delay to sleep is the distance to the earliest
  one. If nothing touches the timers meanwhile, exactly the due timers fire, in the order of their times, and of
  them exactly those without a period leave the heap.
\<close>

theorem timerproc_fires_due:
  assumes "timer_step\<^sup>*\<^sup>* no_timers s" "times_fit s now" "window_ok window now"
  shows "\<exists>ts s' ev. timerproc_inner window 0 s now = Some (Inr (ts, s', ev)) \<and> timers_ok s' \<and>
    distinct ts \<and> set ts \<subseteq> {t \<in> set (theap s). sint (twhen (tmem s t)) \<le> sint now} \<and>
    (\<forall>t \<in> set (theap s'). sint now < sint (twhen (tmem s' t))) \<and>
    (case ev of NoTimers \<Rightarrow> theap s' = []
     | Delay d \<Rightarrow> theap s' \<noteq> [] \<and> sint d = sint (twhen (tmem s' (theap s' ! 0))) - sint now
     | Fire t \<Rightarrow> False) \<and>
    (quiet window \<longrightarrow> set ts = {t \<in> set (theap s). sint (twhen (tmem s t)) \<le> sint now} \<and>
       sorted (map (\<lambda>t. sint (twhen (tmem s t))) ts) \<and>
       set (theap s') = set (theap s) - {t \<in> set ts. sint (tperiod (tmem s t)) \<le> 0})"
proof -
  obtain ts s' ev where i: "timerproc_inner window 0 s now = Some (Inr (ts, s', ev))" "timers_ok s'" "distinct ts"
    "set ts \<subseteq> due s now" "due s' now = {}"
    "case ev of NoTimers \<Rightarrow> theap s' = [] | Delay d \<Rightarrow> theap s' \<noteq> [] \<and> sint d = key (tmem s') (theap s' ! 0) - sint now | Fire t \<Rightarrow> False"
    "quiet window \<longrightarrow> set ts = due s now \<and> sorted (map (key (tmem s)) ts) \<and>
       set (theap s') = set (theap s) - {t \<in> due s now. \<not> 0 < sint (tperiod (tmem s t))}"
    using timerproc_inner_ends [OF assms(3) timers_ok_reach [OF assms(1)] assms(2)] by blast
  have k: "key m = (\<lambda>t. sint (twhen (m t)))" for m by (simp add: key_def fun_eq_iff)
  have "\<forall>t \<in> set (theap s'). sint now < sint (twhen (tmem s' t))" using i(5) by (auto simp: due_def key_def)
  then show ?thesis using i unfolding k due_def by (intro exI [of _ ts] exI [of _ s'] exI [of _ ev]) (auto simp: not_less)
qed

text \<open>Two timers: 0 is due at 1 and has a period, 1 is due at 2 and has none.\<close>

definition two_timers :: "u64 \<Rightarrow> timers" where
  "two_timers p = \<lparr>created = True, sleeping = False, rescheduling = False, theap = [0, 1],
    tmem = (\<lambda>_. \<lparr>ti = 0, twhen = 0, tperiod = 0\<rparr>)(0 := \<lparr>ti = 0, twhen = 1, tperiod = p\<rparr>, 1 := \<lparr>ti = 1, twhen = 2, tperiod = 0\<rparr>)\<rparr>"

lemma two_timers_reachable: "timer_step\<^sup>*\<^sup>* no_timers (two_timers p)"
proof -
  let ?a = "\<lparr>ti = 7, twhen = 1, tperiod = p\<rparr>" and ?b = "\<lparr>ti = 0, twhen = 2, tperiod = 0\<rparr>"
  let ?s1 = "no_timers\<lparr>tmem := (tmem no_timers)(0 := ?a)\<rparr>"
  let ?s2 = "?s1\<lparr>created := True, theap := [0], tmem := (tmem no_timers)(0 := ?a\<lparr>ti := 0\<rparr>)\<rparr>"
  let ?s3 = "?s2\<lparr>tmem := (tmem ?s2)(1 := ?b)\<rparr>"
  have "timer_step no_timers ?s1" by (rule timer_step.set_fields) (simp add: no_timers_def)
  moreover have "timer_step ?s1 ?s2"
    by (rule timer_step.start [of 0 _ _ "[StartProc]"])
      (simp_all add: no_timers_def addtimerLocked_def siftupTimer_def go_get_def siftup_loop.simps set_ti_def Let_def word_sless_alt word_sle_eq)
  moreover have "timer_step ?s2 ?s3" by (rule timer_step.set_fields) simp
  moreover have "timer_step ?s3 (two_timers p)"
    by (rule timer_step.start [of 1 _ _ "[]"])
      (simp_all add: no_timers_def two_timers_def addtimerLocked_def siftupTimer_def go_get_def siftup_loop.simps set_ti_def Let_def word_sless_alt word_sle_eq)
  ultimately show ?thesis by (meson converse_rtranclp_into_rtranclp rtranclp.rtrancl_refl)
qed

theorem timers_reachable_ok_witness:
  "distinct (theap (two_timers 5)) \<and> ti (tmem (two_timers 5) (theap (two_timers 5) ! 1)) = 1"
  using timers_reachable_ok [OF two_timers_reachable, of 5 0 0] by (auto simp: two_timers_def)

theorem deltimer_exact_witness:
  "\<exists>s'. deltimer (two_timers 5) 0 = Inr (s', True) \<and> mset (theap s') = {#1#}"
  using deltimer_exact [OF two_timers_reachable, of 5 0] by (auto simp: two_timers_def)

theorem addtimer_wakes_witness:
  "\<exists>s' es. addtimerLocked (two_timers 5) 2 = Inr (s', es) \<and> mset (theap s') = {#0, 1, 2#} \<and> created s'"
proof -
  have "2 \<notin> set (theap (two_timers 5))" by (simp add: two_timers_def)
  from addtimer_wakes [OF two_timers_reachable this] show ?thesis by (auto simp: two_timers_def add_mset_commute)
qed

text \<open>A window in which the first function to run stops timer 1.\<close>

definition stop_one :: "nat \<Rightarrow> nat \<Rightarrow> timers \<Rightarrow> timers" where
  "stop_one k t s = (if k = 0 then case deltimer s 1 of Inr (s', b) \<Rightarrow> s' | Inl p \<Rightarrow> s else s)"

lemma stop_one_ok: "window_ok stop_one now"
  unfolding window_ok_def
proof (intro allI impI)
  fix k t s assume a: "timers_ok s \<and> times_fit s now"
  then obtain s' where d: "deltimer s 1 = Inr (s', 1 \<in> set (theap s))" "mset (theap s') = mset (theap s) - {#1#}"
    and r: "reindexed (set (theap s)) (tmem s) (tmem s')" using deltimer_removes [of s 1] by blast
  have sub: "set (theap s') \<subseteq> set (theap s)" using d(2) by (metis diff_subset_eq_self set_mset_mono set_mset_mset)
  have st: "timer_step s s'" using d(1) by (rule timer_step.stop)
  have "key (tmem s') = key (tmem s)" "\<And>u. tperiod (tmem s' u) = tperiod (tmem s u)"
    using r reindexed_key by (auto simp: reindexed_def)
  then have "times_fit s' now" "due s' now \<subseteq> due s now" using a sub by (auto simp: times_fit_def due_def)
  then show "timer_step\<^sup>*\<^sup>* s (stop_one k t s) \<and> times_fit (stop_one k t s) now \<and> due (stop_one k t s) now \<subseteq> due s now"
    using a st d(1) by (auto simp: stop_one_def)
qed

theorem timerproc_fires_due_witness:
  "(\<exists>ts s' ev. timerproc_inner (\<lambda>k t s. s) 0 (two_timers 5) 3 = Some (Inr (ts, s', ev)) \<and> set ts = {0, 1} \<and> set (theap s') = {0}) \<and>
   (\<exists>ts s' ev. timerproc_inner stop_one 0 (two_timers 5) 3 = Some (Inr (ts, s', ev)) \<and> distinct ts \<and> set ts \<subseteq> {0, 1})"
proof -
  have "times_fit (two_timers 5) 3" by (simp add: times_fit_def two_timers_def key_def)
  moreover have "window_ok (\<lambda>k t s. s) 3" "quiet (\<lambda>k t s. s)" by (simp_all add: window_ok_def quiet_def)
  ultimately show ?thesis
    using timerproc_fires_due [OF two_timers_reachable, of 5 3 "\<lambda>k t s. s"]
      timerproc_fires_due [OF two_timers_reachable _ stop_one_ok, of 5 3] by (fastforce simp: two_timers_def)
qed

text \<open>The next time of a periodic timer is computed without regard to overflow. A timer that is due at 1
  with a period of \<open>2\<^sup>63 - 1\<close> is set to a negative time, from which the delay overflows to a positive one:
  it stays first in the heap and a timer that is due at 2 does not fire at the time 5.
\<close>

theorem periodic_timer_wraps:
  "\<exists>s. timerproc_round (two_timers 0x7FFFFFFFFFFFFFFF) 1 = Inr (s, Fire 0) \<and> sint (twhen (tmem s 0)) < 0 \<and>
    1 \<in> set (theap s) \<and> sint (twhen (tmem s 1)) = 2 \<and> timerproc_round s 5 = Inr (s, Delay 0x7FFFFFFFFFFFFFFB)"
proof -
  let ?s = "(two_timers 0x7FFFFFFFFFFFFFFF)\<lparr>tmem := (tmem (two_timers 0x7FFFFFFFFFFFFFFF))
      (0 := \<lparr>ti = 0, twhen = 0x8000000000000000, tperiod = 0x7FFFFFFFFFFFFFFF\<rparr>)\<rparr>"
  have "timerproc_round (two_timers 0x7FFFFFFFFFFFFFFF) 1 = Inr (?s, Fire 0)"
    by (simp add: two_timers_def timerproc_round_def siftdownTimer_def go_get_def siftdown_loop.simps least_child_def
        Let_def go_sdiv_def word_sless_alt word_sle_eq)
  moreover have "timerproc_round ?s 5 = Inr (?s, Delay 0x7FFFFFFFFFFFFFFB)"
    by (simp add: two_timers_def timerproc_round_def Let_def word_sless_alt)
  ultimately show ?thesis by (intro exI [of _ ?s]) (simp add: two_timers_def)
qed

end
