(* ===== verification/Sqrt.thy ===== *)
theory Sqrt
  imports Complex_Main Prelude
begin

text \<open>
  The software square root (\<open>math/sqrt.go\<close> and, with the same text, \<open>runtime/sqrt.go\<close>), which the mips32
  ports use for \<open>math.Sqrt\<close>. A \<open>float64\<close> is its 64 bits; the comparisons of the special cases are written
  out on the bits.
\<close>

section \<open>Definitions\<close>

definition uvnan :: u64 where "uvnan = 0x7FF8000000000001"

definition fsign :: "u64 \<Rightarrow> bool" where "fsign x = bit x 63"

definition fexpo :: "u64 \<Rightarrow> nat" where "fexpo x = unat (drop_bit 52 x AND 0x7FF)"

definition fmant :: "u64 \<Rightarrow> nat" where "fmant x = unat (x AND mask 52)"

definition is_zero :: "u64 \<Rightarrow> bool" where "is_zero x \<longleftrightarrow> fexpo x = 0 \<and> fmant x = 0"

definition is_nan :: "u64 \<Rightarrow> bool" where "is_nan x \<longleftrightarrow> fexpo x = 0x7FF \<and> fmant x \<noteq> 0"

definition is_inf :: "u64 \<Rightarrow> bool" where "is_inf x \<longleftrightarrow> fexpo x = 0x7FF \<and> fmant x = 0 \<and> \<not> fsign x"

text \<open>
  The loop of a subnormal argument. \<open>&\<close> and \<open><<\<close> have the same precedence and associate to the left: the
  condition \<open>ix&1<<shift == 0\<close> is \<open>((ix & 1) << shift) == 0\<close>. \<open>None\<close> when the loop does not end.
\<close>

partial_function (option) sqrt_normalize :: "u64 \<Rightarrow> int \<Rightarrow> (u64 \<times> int) option" where
  "sqrt_normalize ix e =
    (if push_bit 52 (ix AND 1) = 0 then sqrt_normalize (push_bit 1 ix) (e - 1) else Some (ix, e))"

function sqrt_loop :: "u64 \<Rightarrow> u64 \<Rightarrow> u64 \<Rightarrow> u64 \<Rightarrow> u64 \<times> u64" where
  "sqrt_loop ix q s r =
    (if r \<noteq> 0 then
       let t = s + r;
           (s, ix, q) = (if t \<le> ix then (t + r, ix - t, q + r) else (s, ix, q)) in
       sqrt_loop (push_bit 1 ix) q s (drop_bit 1 r)
     else (ix, q))"
  by pat_completeness auto
termination
proof (relation "measure (\<lambda>(ix, q, s, r). unat r)", goal_cases)
  case (2 ix q s r x xa y xb ya)
  then show ?case using unat_shr [of 1 r] by (simp add: unat_gt_0)
qed simp

declare sqrt_loop.simps [simp del]

text \<open>The computation on the normalised argument, from the unbiased exponent on.\<close>

definition sqrt_root :: "u64 \<Rightarrow> int \<Rightarrow> u64" where
  "sqrt_root ix e =
    (let e = e - 1023;
         ix = ix AND NOT (push_bit 52 0x7FF);
         ix = ix OR push_bit 52 1;
         ix = (if e mod 2 = 1 then push_bit 1 ix else ix);
         e = e div 2;
         ix = push_bit 1 ix;
         (ix, q) = sqrt_loop ix 0 0 (push_bit 53 1);
         q = (if ix \<noteq> 0 then q + (q AND 1) else q) in
     drop_bit 1 q + push_bit 52 (word_of_int (e - 1 + 1023)))"

definition go_sqrt :: "u64 \<Rightarrow> u64 option" where
  "go_sqrt x =
    (if is_zero x \<or> is_nan x \<or> is_inf x then Some x
     else if fsign x then Some uvnan
     else
       let ix = x; e = int (fexpo ix) in
       if e = 0 then
         case sqrt_normalize ix e of
           None \<Rightarrow> None
         | Some (ix, e) \<Rightarrow> Some (sqrt_root ix (e + 1))
       else Some (sqrt_root ix e))"

section \<open>The bit-by-bit square root\<close>

lemma isqrt_step:
  fixes Q N :: nat
  assumes "X * 2 ^ j + Q ^ 2 = N" "N < (Q + 2 ^ Suc j) ^ 2" and "Q + 2 ^ Suc j \<le> 2 ^ 54"
  shows "X < 2 ^ 56" and "2 * Q + 2 ^ j \<le> X \<Longrightarrow> (X - (2 * Q + 2 ^ j)) * 2 ^ j + (Q + 2 ^ j) ^ 2 = N"
    and "2 * Q + 2 ^ j \<le> X \<Longrightarrow> N < (Q + 2 ^ j + 2 ^ j) ^ 2" and "X < 2 * Q + 2 ^ j \<Longrightarrow> N < (Q + 2 ^ j) ^ 2"
proof -
  define R where "R = (2 :: nat) ^ j"
  have R: "0 < R" "2 ^ Suc j = 2 * R" by (simp_all add: R_def)
  have N: "X * R + Q ^ 2 = N" "N < (Q + 2 * R) ^ 2" "Q + 2 * R \<le> 2 ^ 54" using assms R(2) by (simp_all add: R_def)
  have "(Q + 2 * R) ^ 2 = (4 * Q + 4 * R) * R + Q ^ 2" by (simp add: power2_eq_square algebra_simps)
  then have "X * R < (4 * Q + 4 * R) * R" using N by linarith
  then have "X < 4 * Q + 4 * R" using R(1) by (simp only: mult_less_cancel2)
  then show "X < 2 ^ 56" using N(3) by simp
  have sq: "(Q + R) ^ 2 = Q ^ 2 + (2 * Q + R) * R" by (simp add: power2_eq_square algebra_simps)
  show "2 * Q + 2 ^ j \<le> X \<Longrightarrow> (X - (2 * Q + 2 ^ j)) * 2 ^ j + (Q + 2 ^ j) ^ 2 = N"
    using N(1) sq unfolding R_def [symmetric] by (simp add: diff_mult_distrib)
  show "2 * Q + 2 ^ j \<le> X \<Longrightarrow> N < (Q + 2 ^ j + 2 ^ j) ^ 2"
    using N(2) unfolding R_def [symmetric] by (simp add: mult_2 add.assoc)
  assume "X < 2 * Q + 2 ^ j"
  then have "X * R < (2 * Q + R) * R" using R(1) by (simp only: R_def [symmetric] mult_less_cancel2)
  then show "N < (Q + 2 ^ j) ^ 2" using N(1) sq unfolding R_def [symmetric] by linarith
qed

lemma sqrt_round:
  fixes r s q ix :: u64
  assumes "unat r = 2 ^ j" "unat s = 2 * unat q" "unat ix * 2 ^ j + (unat q) ^ 2 = N"
    "N < (unat q + 2 ^ Suc j) ^ 2" "unat q + 2 ^ Suc j \<le> 2 ^ 54"
    and "(s1, ix1, q1) = (if s + r \<le> ix then (s + r + r, ix - (s + r), q + r) else (s, ix, q))"
  shows "unat s1 = 2 * unat q1" "unat ix1 * 2 ^ j + (unat q1) ^ 2 = N" "N < (unat q1 + 2 ^ j) ^ 2"
    "unat q1 + 2 ^ j \<le> 2 ^ 54" "unat (push_bit 1 ix1) = 2 * unat ix1"
proof -
  note st = isqrt_step [OF assms(3,4,5)]
  have t: "unat (s + r) = 2 * unat q + 2 ^ j" using assms(1,2,5) by (simp add: unat_word_ariths)
  have le: "s + r \<le> ix \<longleftrightarrow> 2 * unat q + 2 ^ j \<le> unat ix" by (simp only: word_le_nat_alt t)
  have q: "unat (q + r) = unat q + 2 ^ j" using assms(1,5) by (simp add: unat_word_ariths)
  have s: "unat (s + r + r) = 2 * (unat q + 2 ^ j)"
    unfolding unat_word_ariths(1) [of "s + r" r] t assms(1) using assms(5) by simp
  have "unat ix1 \<le> unat ix" using assms(6) by (cases "s + r \<le> ix") (simp_all add: unat_sub)
  then have "unat ix1 * 2 < 2 ^ 64" using st(1) by simp
  then show "unat (push_bit 1 ix1) = 2 * unat ix1" using unat_shl [of ix1 1] by simp
  show "unat s1 = 2 * unat q1" "unat ix1 * 2 ^ j + (unat q1) ^ 2 = N" "N < (unat q1 + 2 ^ j) ^ 2"
    "unat q1 + 2 ^ j \<le> 2 ^ 54"
    using assms(2-6) st s q t le by (cases "s + r \<le> ix"; simp add: unat_sub)+
qed

lemma sqrt_loop_isqrt:
  assumes "unat r = 2 ^ j" "unat s = 2 * unat q" "unat ix * 2 ^ j + (unat q) ^ 2 = N"
    "N < (unat q + 2 ^ Suc j) ^ 2" "unat q + 2 ^ Suc j \<le> 2 ^ 54"
  shows "\<exists>ix' q'. sqrt_loop ix q s r = (ix', q') \<and> (unat q') ^ 2 \<le> N \<and> N < (unat q' + 1) ^ 2 \<and>
    (ix' = 0 \<longleftrightarrow> N = (unat q') ^ 2)"
  using assms
proof (induction j arbitrary: ix q s r)
  case (0 ix q s r)
  obtain s1 ix1 q1 where d: "(s1, ix1, q1) = (if s + r \<le> ix then (s + r + r, ix - (s + r), q + r) else (s, ix, q))"
    by (metis surj_pair)
  note st = sqrt_round [OF 0 d]
  have r: "r = 1" using 0(1) by (simp add: word_unat_eq_iff)
  have "sqrt_loop ix q s r = sqrt_loop (push_bit 1 ix1) q1 s1 (drop_bit 1 r)"
    unfolding sqrt_loop.simps [of ix q s r] Let_def d [symmetric] using r by simp
  also have "\<dots> = (push_bit 1 ix1, q1)" by (subst sqrt_loop.simps) (simp add: r)
  finally have l: "sqrt_loop ix q s r = (push_bit 1 ix1, q1)" .
  have "push_bit 1 ix1 = 0 \<longleftrightarrow> unat ix1 = 0" using st(5) by (metis mult_eq_0_iff unat_eq_0 zero_neq_numeral)
  then show ?case using st(2,3) by (intro exI [of _ "push_bit 1 ix1"] exI [of _ q1]) (auto simp: l)
next
  case (Suc j ix q s r)
  obtain s1 ix1 q1 where d: "(s1, ix1, q1) = (if s + r \<le> ix then (s + r + r, ix - (s + r), q + r) else (s, ix, q))"
    by (metis surj_pair)
  note st = sqrt_round [OF Suc.prems d]
  have r: "r \<noteq> 0" using Suc.prems(1) by (auto simp: word_unat_eq_iff)
  have "sqrt_loop ix q s r = sqrt_loop (push_bit 1 ix1) q1 s1 (drop_bit 1 r)"
    unfolding sqrt_loop.simps [of ix q s r] Let_def d [symmetric] using r by simp
  moreover have "unat (drop_bit 1 r) = 2 ^ j" using Suc.prems(1) by (simp only: unat_shr) simp
  ultimately show ?case
    using Suc.IH [of "drop_bit 1 r" s1 q1 "push_bit 1 ix1"] st by (simp only: power_Suc ac_simps)
qed

section \<open>Normal arguments\<close>

text \<open>The value of a positive number is \<open>fsig x * 2 ^ (fpow x)\<close>.\<close>

definition fsig :: "u64 \<Rightarrow> nat" where
  "fsig x = (if fexpo x = 0 then fmant x else fmant x + 2 ^ 52)"

definition fpow :: "u64 \<Rightarrow> int" where
  "fpow x = (if fexpo x = 0 then 1 else int (fexpo x)) - 1075"

lemma unat_fields: "\<not> fsign x \<Longrightarrow> unat x = fexpo x * 2 ^ 52 + fmant x"
proof -
  assume s: "\<not> fsign x"
  have m: "(0x7FF :: u64) = mask 11" by (simp add: mask_eq_exp_minus_1)
  have e: "fexpo x = unat x div 2 ^ 52 mod 2 ^ 11" unfolding fexpo_def m unat_and_mask unat_shr ..
  have "unat x < 2 ^ 63"
  proof -
    have "bit x n \<longleftrightarrow> bit (take_bit 63 x) n" if "n < 64" for n
      using s that by (cases "n = 63") (auto simp: bit_take_bit_iff fsign_def)
    then have "x = take_bit 63 x" by (intro bit_word_eqI) simp
    then have "unat x = unat x mod 2 ^ 63" by (metis unsigned_take_bit_eq take_bit_eq_mod)
    then show ?thesis by (metis mod_less_divisor zero_less_numeral zero_less_power)
  qed
  then have "unat x div 2 ^ 52 < 2 ^ 11" by (simp add: less_mult_imp_div_less)
  then have "fexpo x = unat x div 2 ^ 52" using e by simp
  moreover have "fmant x = unat x mod 2 ^ 52" unfolding fmant_def unat_and_mask ..
  ultimately show ?thesis by simp
qed

lemma fmant_less: "fmant x < 2 ^ 52"
  unfolding fmant_def unat_and_mask by simp

lemma unat_significand:
  assumes "\<not> fsign x"
  shows "unat (x AND NOT (push_bit 52 0x7FF) OR push_bit 52 1) = fmant x + 2 ^ 52"
proof -
  have "x AND NOT (push_bit 52 0x7FF) = x AND mask 52"
    by (rule bit_word_eqI) (use assms in \<open>auto simp: bit_simps fsign_def less_Suc_eq numeral_eq_Suc\<close>)
  moreover have "unat (x AND mask 52 OR push_bit 52 1) = unat (push_bit 52 1 OR (x AND mask 52) :: u64)" by (simp add: or.commute)
  moreover have "\<dots> = 1 * 2 ^ 52 + unat (x AND mask 52)"
    using unat_or_shift [of "x AND mask 52" 52 1] by (simp add: unat_and_mask)
  ultimately show ?thesis by (simp add: fmant_def)
qed

text \<open>
  The root of \<open>K * 2 ^ 54\<close> has 54 bits, the last of which is the rounding bit: the result is the integer nearest
  to half of it. An odd root is never exact, since its square would be odd.
\<close>

definition nearest_half_root :: "nat \<Rightarrow> nat \<Rightarrow> bool" where
  "nearest_half_root h N \<longleftrightarrow> (2 * h - 1) ^ 2 < N \<and> N < (2 * h + 1) ^ 2"

lemma root_bounds:
  fixes Q N K :: nat
  assumes "N = K * 2 ^ 54" "2 ^ 52 \<le> K" "K \<le> 2 ^ 54 - 2" "Q ^ 2 \<le> N" "N < (Q + 1) ^ 2"
  shows "2 ^ 53 \<le> Q" "Q < 2 ^ 54 - 1"
proof -
  show "2 ^ 53 \<le> Q"
  proof (rule ccontr)
    assume "\<not> 2 ^ 53 \<le> Q"
    then have "(Q + 1) ^ 2 \<le> (2 ^ 53) ^ 2" by (intro power_mono) simp_all
    then show False using assms by simp
  qed
  show "Q < 2 ^ 54 - 1"
  proof (rule ccontr)
    assume "\<not> Q < 2 ^ 54 - 1"
    then have "(2 ^ 54 - 1) ^ 2 \<le> Q ^ 2" by (intro power_mono) simp_all
    then show False using assms by simp
  qed
qed

lemma nearest_half_rootI:
  assumes "2 * h = (if odd Q then Q + 1 else Q)" "Q ^ 2 \<le> N" "N < (Q + 1) ^ 2" "even N" "0 < h"
  shows "nearest_half_root h N"
proof -
  have "(2 * h - 1) ^ 2 \<le> Q ^ 2" "(Q + 1) ^ 2 \<le> (2 * h + 1) ^ 2"
    using assms(1) by (intro power_mono; simp split: if_splits)+
  then have "(2 * h - 1) ^ 2 \<le> N" "N < (2 * h + 1) ^ 2" using assms(2,3) by linarith+
  moreover have "(2 * h - 1) ^ 2 \<noteq> N" using assms(4,5) by auto
  ultimately show ?thesis by (simp add: nearest_half_root_def)
qed

lemma sqrt_core:
  fixes ix :: u64
  assumes "unat ix = 2 * K" "2 ^ 52 \<le> K" "K \<le> 2 ^ 54 - 2"
  obtains ix' q h where "sqrt_loop ix 0 0 (push_bit 53 1) = (ix', q)"
    "h = unat (drop_bit 1 (if ix' \<noteq> 0 then q + (q AND 1) else q))"
    "2 ^ 52 \<le> h" "h < 2 ^ 53" "nearest_half_root h (K * 2 ^ 54)"
proof -
  define N where "N = K * 2 ^ 54"
  have N0: "unat ix * 2 ^ 53 + (unat (0 :: u64)) ^ 2 = N" using assms(1) by (simp add: N_def)
  have N1: "N < (unat (0 :: u64) + 2 ^ Suc 53) ^ 2" using assms(3) by (simp add: N_def)
  have r: "unat (push_bit 53 1 :: u64) = 2 ^ 53" by simp
  obtain ix' q where l: "sqrt_loop ix 0 0 (push_bit 53 1) = (ix', q)" "(unat q) ^ 2 \<le> N" "N < (unat q + 1) ^ 2"
      "ix' = 0 \<longleftrightarrow> N = (unat q) ^ 2"
    using sqrt_loop_isqrt [of _ 53 0 0, OF r _ N0 N1] by auto
  define Q where "Q = unat q"
  have Q: "Q ^ 2 \<le> N" "N < (Q + 1) ^ 2" using l by (simp_all add: Q_def)
  note b = root_bounds [OF N_def assms(2,3) Q]
  have one: "unat (q AND 1) = Q mod 2" by (simp add: Q_def and_one_eq unat_mod)
  define h where "h = unat (drop_bit 1 (if ix' \<noteq> 0 then q + (q AND 1) else q))"
  have "unat (q + (q AND 1)) = Q + Q mod 2" using b(2) one by (simp add: unat_word_ariths Q_def)
  then have "h = (if ix' \<noteq> 0 then (Q + Q mod 2) div 2 else Q div 2)"
    by (simp add: h_def unat_shr Q_def del: drop_bit_Suc)
  moreover have "odd Q \<Longrightarrow> ix' \<noteq> 0"
  proof
    assume "odd Q" "ix' = 0"
    then have "odd N" using l(4) by (simp add: Q_def)
    then show False by (simp add: N_def)
  qed
  ultimately have h: "2 * h = (if odd Q then Q + 1 else Q)" by (auto elim!: oddE evenE)
  have h1: "2 ^ 52 \<le> h" "h < 2 ^ 53" using h b by (auto split: if_splits)
  have "nearest_half_root h N" by (rule nearest_half_rootI [OF h Q]) (use h1 in \<open>simp_all add: N_def\<close>)
  then show thesis using that [OF l(1) h_def h1] by (simp add: N_def)
qed

lemma fsign_less: "unat x < 2 ^ 63 \<Longrightarrow> \<not> fsign x"
proof -
  assume "unat x < 2 ^ 63"
  then have "\<not> bit (unat x) 63" by (simp add: bit_iff_odd)
  then show ?thesis by (simp add: fsign_def bit_unsigned_iff)
qed

lemma word_fields:
  assumes "m < 2 ^ 52" "e < 2 ^ 11"
    and "unat (r :: u64) = e * 2 ^ 52 + m"
  shows "fexpo r = e" "fmant r = m"
proof -
  have m: "(0x7FF :: u64) = mask 11" by (simp add: mask_eq_exp_minus_1)
  have "(e * 2 ^ 52 + m) div 2 ^ 52 = e" using assms(1) by simp
  then show "fexpo r = e" unfolding fexpo_def m unat_and_mask unat_shr assms(3) using assms(2) by simp
  show "fmant r = m" unfolding fmant_def unat_and_mask assms(3) using assms(1) by simp
qed

text \<open>The result of a normal argument: its exponent field is half of the argument's and its significand the rounded root.\<close>

lemma go_sqrt_normal:
  assumes "\<not> fsign x" "0 < fexpo x" "fexpo x < 0x7FF"
    and "e = (int (fexpo x) - 1023) div 2" "K = fsig x * 2 ^ nat ((int (fexpo x) - 1023) mod 2)"
  obtains r where "go_sqrt x = Some r" "2 ^ 52 \<le> fsig r" "fsig r < 2 ^ 53" "fpow r = e - 52" "\<not> fsign r"
    "nearest_half_root (fsig r) (K * 2 ^ 54)" "0 < fexpo r" "fexpo r < 0x7FF"
proof -
  define x1 where "x1 = x AND NOT (push_bit 52 0x7FF) OR push_bit 52 1"
  define x2 where "x2 = (if (int (fexpo x) - 1023) mod 2 = 1 then push_bit 1 x1 else x1)"
  have x1: "unat x1 = fsig x" unfolding x1_def unat_significand [OF assms(1)] using assms(2) by (simp add: fsig_def)
  have f: "2 ^ 52 \<le> fsig x" "fsig x < 2 ^ 53" using fmant_less [of x] assms(2) by (simp_all add: fsig_def)
  have "(int (fexpo x) - 1023) mod 2 = 0 \<or> (int (fexpo x) - 1023) mod 2 = 1" by linarith
  then have K: "K = fsig x \<or> K = 2 * fsig x" "unat x2 = K"
    using assms(5) x1 f unat_shl [of x1 1] by (auto simp: x2_def)
  then have bK: "2 ^ 52 \<le> K" "K \<le> 2 ^ 54 - 2" using f by auto
  have ix: "unat (push_bit 1 x2) = 2 * K" using K(2) bK unat_shl [of x2 1] by simp
  obtain ix' q h where l: "sqrt_loop (push_bit 1 x2) 0 0 (push_bit 53 1) = (ix', q)"
    "h = unat (drop_bit 1 (if ix' \<noteq> 0 then q + (q AND 1) else q))" "2 ^ 52 \<le> h" "h < 2 ^ 53"
    "nearest_half_root h (K * 2 ^ 54)"
    by (rule sqrt_core [OF ix bK])
  define E where "E = nat (e - 1 + 1023)"
  have e: "- 511 \<le> e" "e \<le> 511" using assms(2,3,4) by linarith+
  define r where "r = drop_bit 1 (if ix' \<noteq> 0 then q + (q AND 1) else q) + push_bit 52 (word_of_int (e - 1 + 1023))"
  have "sqrt_root x (int (fexpo x)) = r"
    unfolding sqrt_root_def Let_def x1_def [symmetric] x2_def [symmetric] assms(4) [symmetric] l(1) prod.case r_def ..
  then have go: "go_sqrt x = Some r"
    using assms(1-3) by (simp add: go_sqrt_def is_zero_def is_nan_def is_inf_def)
  have E: "E < 2 ^ 11 - 2" using e by (simp add: E_def)
  have "word_of_int (e - 1 + 1023) = (of_nat E :: u64)" using e by (simp add: E_def)
  then have "unat (push_bit 52 (word_of_int (e - 1 + 1023)) :: u64) = E * 2 ^ 52"
    using E by (simp add: unat_shl unat_of_nat)
  then have "unat r = h + E * 2 ^ 52" unfolding r_def using l(2,4) E by (simp add: unat_word_ariths)
  then have "unat r = (E + 1) * 2 ^ 52 + (h - 2 ^ 52)" using l(3) by simp
  then have rf: "fexpo r = E + 1" "fmant r = h - 2 ^ 52" using word_fields [of "h - 2 ^ 52" "E + 1" r] l(3,4) E by auto
  then have "fsig r = h" "fpow r = e - 52" using l(3) e by (simp_all add: fsig_def fpow_def E_def)
  moreover have "\<not> fsign r" using \<open>unat r = h + E * 2 ^ 52\<close> l(4) E by (intro fsign_less) simp
  ultimately show thesis using that [OF go] l(3-5) rf E by simp
qed

text \<open>The real number a finite \<open>float64\<close> stands for.\<close>

definition fval :: "u64 \<Rightarrow> real" where
  "fval x = (if fsign x then - 1 else 1) * real (fsig x) * 2 powi (fpow x)"

lemma fsig_less: "fsig x < 2 ^ 53"
  using fmant_less [of x] by (simp add: fsig_def)

lemma root_scaled:
  assumes "\<not> fsign x" "0 < fexpo x"
    and "e = (int (fexpo x) - 1023) div 2" "K = fsig x * 2 ^ nat ((int (fexpo x) - 1023) mod 2)"
  shows "sqrt (fval x) = sqrt (real (K * 2 ^ 54)) / 2 * 2 powi (e - 52)"
proof -
  have m: "0 \<le> (int (fexpo x) - 1023) mod 2" by simp
  define b where "b = nat ((int (fexpo x) - 1023) mod 2)"
  have "fpow x = (e - 52) * 2 + (int b + int 52)" using assms(2,3) m unfolding fpow_def b_def by simp
  then have "2 powi fpow x = (2 powi ((e - 52) * 2) * 2 ^ b * 2 ^ 52 :: real)"
    by (simp only: power_int_add power_int_of_nat mult.assoc zero_neq_numeral [symmetric] not_False_eq_True simp_thms)
  moreover have "(2 :: real) powi ((e - 52) * 2) = (2 powi (e - 52)) ^ 2" by (simp only: power_int_mult power_int_numeral)
  ultimately have "fval x = real (K * 2 ^ 54) / 2 ^ 2 * (2 powi (e - 52)) ^ 2"
    using assms(1,4) by (simp add: fval_def b_def)
  then show ?thesis by (simp add: real_sqrt_mult real_sqrt_divide)
qed

text \<open>
  A number whose last place is at or above that of \<open>r\<close> is an integral multiple of it, one below is under the
  smallest significand: no representable number lies between \<open>r\<close> and its two neighbours.
\<close>

lemma fval_between:
  assumes "p \<le> fpow y"
  obtains m :: int where "fval y = of_int m * 2 powi p"
proof
  have "2 powi (fpow y) = (2 :: real) powi (fpow y - p) * 2 powi p" by (simp flip: power_int_add)
  moreover have "(2 :: real) powi (fpow y - p) = of_int (2 ^ nat (fpow y - p))"
    using assms by (simp add: power_int_def)
  ultimately show "fval y = of_int ((if fsign y then - 1 else 1) * int (fsig y) * 2 ^ nat (fpow y - p)) * 2 powi p"
    by (simp add: fval_def)
qed

lemma fval_below:
  assumes "fpow y < p"
  shows "fval y < 2 ^ 52 * 2 powi p"
proof -
  have "fval y \<le> real (fsig y) * 2 powi (fpow y)" by (simp add: fval_def)
  also have "\<dots> < 2 ^ 53 * 2 powi (fpow y)"
    using of_nat_less_iff [of "fsig y" "2 ^ 53", where 'a = real] fsig_less [of y] by (intro mult_strict_right_mono) simp_all
  also have "\<dots> \<le> 2 ^ 53 * 2 powi (p - 1)" using assms by (intro mult_left_mono power_int_increasing) auto
  also have "\<dots> = 2 ^ 52 * 2 powi p" by (simp add: power_int_diff)
  finally show ?thesis .
qed

lemma nearest_rootD:
  assumes "nearest_half_root h N" "0 < h"
  shows "real h - 1 / 2 < sqrt (real N) / 2" "sqrt (real N) / 2 < real h + 1 / 2"
proof -
  have n: "(2 * h - 1) ^ 2 < N" "N < (2 * h + 1) ^ 2" using assms(1) by (simp_all add: nearest_half_root_def)
  have "real ((2 * h - 1) ^ 2) < real N" "real N < real ((2 * h + 1) ^ 2)" using n by (simp_all only: of_nat_less_iff)
  then have "real (2 * h - 1) < sqrt (real N)" "sqrt (real N) < real (2 * h + 1)"
    by (simp_all only: of_nat_power real_less_rsqrt real_less_lsqrt of_nat_0_le_iff)
  then show "real h - 1 / 2 < sqrt (real N) / 2" "sqrt (real N) / 2 < real h + 1 / 2" using assms(2) by (simp_all add: of_nat_diff)
qed

lemma scaled_nearest:
  fixes P s v :: real
  assumes "0 < P" "real h - 1 / 2 < t" "t < real h + 1 / 2" "2 ^ 52 \<le> t" "2 ^ 52 \<le> h"
    and "(\<exists>m :: int. v = of_int m * P) \<or> v < 2 ^ 52 * P" and "v \<noteq> real h * P"
  shows "\<bar>real h * P - t * P\<bar> < \<bar>v - t * P\<bar>"
proof -
  define w where "w = v / P"
  have v: "v = w * P" using assms(1) by (simp add: w_def)
  have "\<bar>real h - t\<bar> < \<bar>w - t\<bar>"
    using assms(6)
  proof
    assume "\<exists>m :: int. v = of_int m * P"
    then obtain m :: int where "w = of_int m" using assms(1) v by auto
    then have "m \<noteq> int h" using assms(7) v by auto
    then have "m \<le> int h - 1 \<or> int h + 1 \<le> m" by linarith
    then have "w \<le> real h - 1 \<or> real h + 1 \<le> w" unfolding \<open>w = of_int m\<close> by linarith
    then show ?thesis using assms(2,3) by linarith
  next
    assume "v < 2 ^ 52 * P"
    then have "w < 2 ^ 52" using v assms(1) by simp
    moreover have "h = 2 ^ 52 \<or> 2 ^ 52 + 1 \<le> h" using assms(5) by linarith
    ultimately show ?thesis
    proof (elim disjE)
      assume "h = 2 ^ 52"
      then show ?thesis using \<open>w < 2 ^ 52\<close> assms(4) by simp
    next
      assume "2 ^ 52 + 1 \<le> h"
      then have "2 ^ 52 + 1 \<le> real h" using of_nat_mono [of "2 ^ 52 + 1" h, where 'a = real] by simp
      then show ?thesis using \<open>w < 2 ^ 52\<close> assms(2-4) by linarith
    qed
  qed
  moreover have "\<bar>real h * P - t * P\<bar> = \<bar>real h - t\<bar> * P" "\<bar>v - t * P\<bar> = \<bar>w - t\<bar> * P"
    using assms(1) by (simp_all add: v abs_mult flip: left_diff_distrib)
  ultimately show ?thesis using assms(1) by simp
qed

text \<open>C11: For every positive normal \<open>float64\<close> the square root is correctly rounded: \<open>sqrt\<close> returns a positive normal
number that is strictly nearer to the real square root than every other finite \<open>float64\<close> (a tie cannot happen).\<close>

theorem sqrt_correctly_rounded:
  assumes "\<not> fsign x" "0 < fexpo x" "fexpo x < 0x7FF"
  shows "\<exists>r. go_sqrt x = Some r \<and> \<not> fsign r \<and> 0 < fexpo r \<and> fexpo r < 0x7FF \<and>
    (\<forall>y. fexpo y < 0x7FF \<and> fval y \<noteq> fval r \<longrightarrow> \<bar>fval r - sqrt (fval x)\<bar> < \<bar>fval y - sqrt (fval x)\<bar>)"
proof -
  define e where "e = (int (fexpo x) - 1023) div 2"
  define K where "K = fsig x * 2 ^ nat ((int (fexpo x) - 1023) mod 2)"
  obtain r where r: "go_sqrt x = Some r" "2 ^ 52 \<le> fsig r" "fsig r < 2 ^ 53" "fpow r = e - 52" "\<not> fsign r"
    "nearest_half_root (fsig r) (K * 2 ^ 54)" "0 < fexpo r" "fexpo r < 0x7FF"
    by (rule go_sqrt_normal [OF assms e_def K_def])
  define t where "t = sqrt (real (K * 2 ^ 54)) / 2"
  note root = root_scaled [OF assms(1,2) e_def K_def]
  have t: "real (fsig r) - 1 / 2 < t" "t < real (fsig r) + 1 / 2"
    using nearest_rootD [OF r(6)] r(2) by (simp_all add: t_def)
  have "2 ^ 52 * 1 \<le> K" unfolding K_def using assms(2) by (intro mult_le_mono) (simp_all add: fsig_def)
  then have "(2 ^ 53) ^ 2 \<le> real (K * 2 ^ 54)" by simp
  then have t52: "2 ^ 52 \<le> t" unfolding t_def using real_le_rsqrt by fastforce
  have v: "fval r = real (fsig r) * 2 powi (e - 52)" using r(4,5) by (simp add: fval_def)
  have "\<bar>fval r - sqrt (fval x)\<bar> < \<bar>fval y - sqrt (fval x)\<bar>" if "fval y \<noteq> fval r" for y
    unfolding root v t_def [symmetric]
  proof (rule scaled_nearest [OF _ t t52 r(2)])
    show "(\<exists>m :: int. fval y = of_int m * 2 powi (e - 52)) \<or> fval y < 2 ^ 52 * 2 powi (e - 52)"
      using fval_between [of "e - 52" y] fval_below [of y "e - 52"] by (metis not_le)
  qed (use that v in simp_all)
  then show ?thesis using r by blast
qed

theorem sqrt_correctly_rounded_witness:
  "\<exists>r. go_sqrt 0x4000000000000000 = Some r \<and> \<not> fsign r \<and> 0 < fexpo r \<and> fexpo r < 0x7FF \<and>
    (\<forall>y. fexpo y < 0x7FF \<and> fval y \<noteq> fval r \<longrightarrow>
      \<bar>fval r - sqrt (fval 0x4000000000000000)\<bar> < \<bar>fval y - sqrt (fval 0x4000000000000000)\<bar>)"
  by (rule sqrt_correctly_rounded) (simp_all add: fsign_def fexpo_def)

section \<open>Subnormal arguments\<close>

lemma sqrt_normalize_odd: "sqrt_normalize ix e = Some y \<Longrightarrow> bit ix 0"
proof (rule sqrt_normalize.raw_induct [where P = "\<lambda>ix e y. bit ix 0"])
  fix f and ix :: u64 and e y
  assume IH: "\<And>ix e y. f ix e = Some y \<Longrightarrow> bit ix 0"
    and 1: "(if push_bit 52 (ix AND 1) = 0 then f (push_bit 1 ix) (e - 1) else Some (ix, e)) = Some y"
  show "bit ix 0"
  proof (cases "push_bit 52 (ix AND 1) = 0")
    case True
    then have "f (push_bit 1 ix) (e - 1) = Some y" using 1 by (simp only: if_True simp_thms)
    then have "bit (push_bit 1 ix) 0" by (rule IH)
    then show ?thesis by (simp only: bit_push_bit_iff) simp
  next
    case False
    then show ?thesis by (cases "even ix") (simp_all add: and_one_eq even_iff_mod_2_eq_zero bit_0)
  qed
qed

lemma fields_or:
  assumes "fexpo x = 0"
  shows "fexpo (x OR push_bit 52 1) = 1" "fmant (x OR push_bit 52 1) = fmant x" "fsign (x OR push_bit 52 1) = fsign x"
proof -
  have "drop_bit 52 (x OR push_bit 52 1) AND 0x7FF = (drop_bit 52 x AND 0x7FF) OR 1"
    by (rule bit_word_eqI) (auto simp: bit_simps bit_1_iff)
  then show "fexpo (x OR push_bit 52 1) = 1" using assms by (simp add: fexpo_def unat_eq_0)
  have "(x OR push_bit 52 1) AND mask 52 = x AND mask 52"
    by (rule bit_word_eqI) (auto simp only: bit_and_iff bit_or_iff bit_push_bit_iff bit_mask_iff)
  then show "fmant (x OR push_bit 52 1) = fmant x" by (simp add: fmant_def)
  show "fsign (x OR push_bit 52 1) = fsign x" by (simp add: fsign_def bit_simps)
qed

lemma even_fmant: "even (fmant x) \<longleftrightarrow> \<not> bit x 0"
proof -
  have "even (fmant x) \<longleftrightarrow> even (unat x)" unfolding fmant_def unat_and_mask by (simp add: dvd_mod_iff)
  also have "\<dots> \<longleftrightarrow> \<not> bit x 0" using bit_unsigned_iff [of x 0, where 'a = nat] by (simp add: bit_0)
  finally show ?thesis .
qed

text \<open>C34: On a positive subnormal argument the square root fails, because \<open>ix&1<<shift == 0\<close> tests bit 0 and not
bit 52: when the mantissa is even the normalisation loop never ends, and when it is odd the loop ends at once and the
result is the root of a different number, the normal one with the implicit bit set (about \<open>2 ^ -1022\<close> instead of \<open>x\<close>).\<close>

theorem sqrt_subnormal_wrong:
  assumes "\<not> fsign x" "fexpo x = 0" "fmant x \<noteq> 0"
  shows "go_sqrt x = (if even (fmant x) then None else go_sqrt (x OR push_bit 52 1))"
proof (cases "bit x 0")
  case False
  then have "sqrt_normalize x 0 = None" using sqrt_normalize_odd [of x 0] by (cases "sqrt_normalize x 0") auto
  then show ?thesis using assms False by (simp add: go_sqrt_def is_zero_def is_nan_def is_inf_def even_fmant)
next
  case True
  have "push_bit 52 (x AND 1) \<noteq> 0" using True by (simp add: and_one_eq bit_0 mod_2_eq_odd)
  then have "sqrt_normalize x 0 = Some (x, 0)" by (subst sqrt_normalize.simps) simp
  then have "go_sqrt x = Some (sqrt_root x 1)"
    using assms by (simp add: go_sqrt_def is_zero_def is_nan_def is_inf_def)
  moreover have "go_sqrt (x OR push_bit 52 1) = Some (sqrt_root (x OR push_bit 52 1) 1)"
    using assms(1) fields_or [OF assms(2)] by (simp only: go_sqrt_def is_zero_def is_nan_def is_inf_def Let_def) simp
  moreover have "(x OR push_bit 52 1) AND NOT (push_bit 52 0x7FF) = x AND NOT (push_bit 52 0x7FF)"
  proof (rule bit_word_eqI)
    fix n
    show "bit ((x OR push_bit 52 1) AND NOT (push_bit 52 0x7FF)) n = bit (x AND NOT (push_bit 52 0x7FF)) n"
      by (cases "n = 52") (auto simp only: bit_and_iff bit_or_iff bit_not_iff bit_push_bit_iff bit_1_iff
        bit_numeral_Bit1_0 diff_is_0_eq diff_self_eq_0)
  qed
  then have "sqrt_root (x OR push_bit 52 1) 1 = sqrt_root x 1" unfolding sqrt_root_def by simp
  ultimately show ?thesis using True by (simp add: even_fmant)
qed

theorem sqrt_subnormal_wrong_witness: "go_sqrt 2 = None \<and> go_sqrt 1 = go_sqrt 0x10000000000001"
  using sqrt_subnormal_wrong [of 2] sqrt_subnormal_wrong [of 1] by (simp add: fsign_def fexpo_def fmant_def mask_eq_exp_minus_1)

end
