(* ===== verification/Threads.thy ===== *)
theory Threads
  imports Prelude
begin

text \<open>
  Goroutines that share state. A system is given by the moves one goroutine can make at its point of the code,
  as a list of next points and next shared states (empty when it is blocked); a step of the system is a move of
  any of its goroutines. The invariants of such systems count the goroutines at a point.
\<close>

type_synonym ('p, 'g) moves = "'p \<Rightarrow> 'g \<Rightarrow> ('p \<times> 'g) list"

section \<open>Counting goroutines\<close>

definition cnt :: "('p \<Rightarrow> bool) \<Rightarrow> 'p list \<Rightarrow> nat" where
  "cnt Q ps = length (filter Q ps)"

lemma cnt_upd:
  assumes "t < length ps"
  shows "cnt Q (ps[t := p]) + of_bool (Q (ps ! t)) = cnt Q ps + of_bool (Q p)"
proof -
  have u: "cnt Q (take t ps @ x # drop (Suc t) ps) = cnt Q (take t ps) + of_bool (Q x) + cnt Q (drop (Suc t) ps)" for x
    by (simp add: cnt_def)
  have "cnt Q ps = cnt Q (take t ps) + of_bool (Q (ps ! t)) + cnt Q (drop (Suc t) ps)"
    using u [of "ps ! t"] id_take_nth_drop [OF assms] by simp
  then show ?thesis using u [of p] upd_conv_take_nth_drop [OF assms] by simp
qed

lemma cnt_pos: "0 < cnt Q ps \<longleftrightarrow> (\<exists>t < length ps. Q (ps ! t))"
  by (simp add: cnt_def filter_empty_conv) (metis in_set_conv_nth)

lemma cnt_posI: "t < length ps \<Longrightarrow> Q (ps ! t) \<Longrightarrow> 0 < cnt Q ps"
  by (auto simp: cnt_pos)

lemma cnt_le: "cnt Q ps \<le> length ps"
  by (simp add: cnt_def)

lemma cnt_0 [simp]: "(\<And>p. p \<in> set ps \<Longrightarrow> \<not> Q p) \<Longrightarrow> cnt Q ps = 0"
  by (simp add: cnt_def)

lemma cnt_replicate [simp]: "cnt Q (replicate n p) = (if Q p then n else 0)"
  by (simp add: cnt_def)

lemma cnt_unique:
  assumes "cnt Q ps \<le> 1" "t < length ps" "u < length ps" "Q (ps ! t)" "Q (ps ! u)"
  shows "t = u"
proof (rule ccontr)
  assume "t \<noteq> u"
  have f: "filter Q ps = map ((!) ps) (filter (\<lambda>i. Q (ps ! i)) [0..<length ps])"
    by (metis (no_types, lifting) comp_apply filter_cong filter_map map_nth)
  have "distinct (filter (\<lambda>i. Q (ps ! i)) [0..<length ps])" by simp
  then have "card {i. i < length ps \<and> Q (ps ! i)} = length (filter (\<lambda>i. Q (ps ! i)) [0..<length ps])"
    by (subst distinct_card [symmetric]) (auto intro!: arg_cong [where f = card])
  then have c: "card {i. i < length ps \<and> Q (ps ! i)} = cnt Q ps" unfolding cnt_def f by simp
  have "card {t, u} \<le> card {i. i < length ps \<and> Q (ps ! i)}" using assms by (intro card_mono) auto
  then show False using c \<open>t \<noteq> u\<close> assms(1) by simp
qed

lemma cnt_move:
  assumes "t < length ps"
  shows "cnt Q (ps[t := q]) = cnt Q ps + of_bool (Q q) - of_bool (Q (ps ! t))"
  using cnt_upd [OF assms, of Q q] by simp

lemma cnt_disjoint:
  assumes "\<And>p. Q p \<Longrightarrow> \<not> R p"
  shows "cnt Q ps + cnt R ps = cnt (\<lambda>p. Q p \<or> R p) ps"
  by (induction ps) (use assms in \<open>auto simp: cnt_def\<close>)

text \<open>The sum over all goroutines of a number that a goroutine carries in its local variables.\<close>

definition tot :: "('p \<Rightarrow> nat) \<Rightarrow> 'p list \<Rightarrow> nat" where
  "tot f ps = sum_list (map f ps)"

lemma tot_move:
  assumes "t < length ps"
  shows "tot f (ps[t := q]) = tot f ps + f q - f (ps ! t)"
proof -
  have u: "tot f (take t ps @ x # drop (Suc t) ps) = tot f (take t ps) + f x + tot f (drop (Suc t) ps)" for x
    by (simp add: tot_def)
  have "tot f ps = tot f (take t ps) + f (ps ! t) + tot f (drop (Suc t) ps)"
    using u [of "ps ! t"] id_take_nth_drop [OF assms] by simp
  then show ?thesis using u [of q] upd_conv_take_nth_drop [OF assms] by simp
qed

lemma tot_0: "cnt Q ps = 0 \<Longrightarrow> (\<And>p. \<not> Q p \<Longrightarrow> f p = 0) \<Longrightarrow> tot f ps = 0"
  by (induction ps) (auto simp: tot_def cnt_def split: if_splits)

lemma tot_one:
  assumes "cnt Q ps \<le> 1" "t < length ps" "Q (ps ! t)" "\<And>p. \<not> Q p \<Longrightarrow> f p = 0" "\<not> Q q"
  shows "tot f ps = f (ps ! t)"
proof -
  have "cnt Q (ps[t := q]) = 0" using cnt_move [OF assms(2), of Q q] assms by simp
  then have "tot f (ps[t := q]) = 0" by (rule tot_0) (use assms(4) in auto)
  moreover have "f (ps ! t) \<le> tot f ps" using member_le_sum_list [of "f (ps ! t)" "map f ps"] assms(2) by (simp add: tot_def)
  ultimately show ?thesis using tot_move [OF assms(2), of f q] assms(4,5) by simp
qed

section \<open>Steps and reachable states\<close>

inductive pool_step :: "('p, 'g) moves \<Rightarrow> 'p list \<times> 'g \<Rightarrow> 'p list \<times> 'g \<Rightarrow> bool" for moves where
  "t < length ps \<Longrightarrow> (p, g') \<in> set (moves (ps ! t) g) \<Longrightarrow> pool_step moves (ps, g) (ps[t := p], g')"

inductive pool_reach :: "('p, 'g) moves \<Rightarrow> 'p list \<times> 'g \<Rightarrow> 'p list \<times> 'g \<Rightarrow> bool" for moves s0 where
  pool_start: "pool_reach moves s0 s0"
| pool_next: "pool_reach moves s0 s \<Longrightarrow> pool_step moves s s' \<Longrightarrow> pool_reach moves s0 s'"

inductive_cases pool_stepE: "pool_step moves (ps, g) s'"

lemma pool_reach_length:
  assumes "pool_reach moves s0 s"
  shows "length (fst s) = length (fst s0)"
  using assms by induction (auto elim!: pool_step.cases)

lemma pool_reach_step:
  assumes "pool_reach moves s0 (ps, g)" "t < length ps" "(p, g') \<in> set (moves (ps ! t) g)"
  shows "pool_reach moves s0 (ps[t := p], g')"
  using assms by (blast intro: pool_next pool_step.intros)

text \<open>A run along a schedule, which names the goroutine and which of its moves it makes.\<close>

fun pool_run :: "('p, 'g) moves \<Rightarrow> (nat \<times> nat) list \<Rightarrow> 'p list \<times> 'g \<Rightarrow> ('p list \<times> 'g) option" where
  "pool_run moves [] s = Some s"
| "pool_run moves ((t, k) # sch) (ps, g) =
    (if t < length ps \<and> k < length (moves (ps ! t) g)
     then pool_run moves sch (ps[t := fst (moves (ps ! t) g ! k)], snd (moves (ps ! t) g ! k)) else None)"

lemma pool_run_reach:
  assumes "pool_run moves sch s = Some s'" "pool_reach moves s0 s"
  shows "pool_reach moves s0 s'"
  using assms
proof (induction moves sch s rule: pool_run.induct)
  case (2 moves t k sch ps g)
  define pg where "pg = moves (ps ! t) g ! k"
  have k: "t < length ps" "k < length (moves (ps ! t) g)" using "2.prems"(1) by (simp_all split: if_splits)
  then have "(fst pg, snd pg) \<in> set (moves (ps ! t) g)" by (simp add: pg_def)
  then have "pool_reach moves s0 (ps[t := fst pg], snd pg)" using pool_reach_step [OF "2.prems"(2) k(1)] by blast
  then show ?case using "2.IH" [OF conjI [OF k]] "2.prems"(1) k by (simp add: pg_def)
qed simp

lemmas pool_run_reachable = pool_run_reach [OF _ pool_start]

text \<open>A predicate that the moves of every single goroutine keep holds in all reachable states.\<close>

locale pool_invariant =
  fixes moves :: "('p, 'g) moves" and init inv :: "'p list \<Rightarrow> 'g \<Rightarrow> bool"
  assumes inv_init: "init ps g \<Longrightarrow> inv ps g"
    and inv_move: "inv ps g \<Longrightarrow> t < length ps \<Longrightarrow> (p, g') \<in> set (moves (ps ! t) g) \<Longrightarrow> inv (ps[t := p]) g'"
begin

lemma reach_inv:
  assumes "pool_reach moves (ps0, g0) (ps, g)" "init ps0 g0"
  shows "inv ps g"
  using assms(1)
proof (induction "(ps, g)" arbitrary: ps g)
  case pool_start
  then show ?case using assms(2) by (simp add: inv_init)
next
  case (pool_next s)
  from pool_next.hyps(3) obtain ps1 g1 t p where "s = (ps1, g1)" "t < length ps1" "ps = ps1[t := p]"
      "(p, g) \<in> set (moves (ps1 ! t) g1)"
    by (cases rule: pool_step.cases) auto
  then show ?case using pool_next.hyps(2) by (blast intro: inv_move)
qed

end

text \<open>
  A system refines another when, in the states that satisfy the invariant, every move is a move of the other
  system on the abstract points and the abstract shared state, or changes neither.
\<close>

locale pool_refinement = pool_invariant moves init inv
  for moves :: "('p, 'g) moves" and init inv :: "'p list \<Rightarrow> 'g \<Rightarrow> bool" +
  fixes amoves :: "('q, 'h) moves" and absp :: "'p \<Rightarrow> 'q" and absg :: "'g \<Rightarrow> 'h"
  assumes move_refines: "inv ps g \<Longrightarrow> t < length ps \<Longrightarrow> (p, g') \<in> set (moves (ps ! t) g) \<Longrightarrow>
    absp p = absp (ps ! t) \<and> absg g' = absg g \<or> (absp p, absg g') \<in> set (amoves (absp (ps ! t)) (absg g))"
begin

lemma reach_refines:
  assumes "pool_reach moves (ps0, g0) (ps, g)" "init ps0 g0"
  shows "pool_reach amoves (map absp ps0, absg g0) (map absp ps, absg g)"
  using assms(1)
proof (induction "(ps, g)" arbitrary: ps g)
  case pool_start
  then show ?case by (auto intro: pool_reach.pool_start)
next
  case (pool_next s)
  from pool_next.hyps(3) obtain ps1 g1 t p where s: "s = (ps1, g1)" "t < length ps1" "ps = ps1[t := p]"
      "(p, g) \<in> set (moves (ps1 ! t) g1)"
    by (cases rule: pool_step.cases) auto
  have r: "pool_reach amoves (map absp ps0, absg g0) (map absp ps1, absg g1)" using pool_next.hyps(2) s(1) by simp
  have "inv ps1 g1" using pool_next.hyps(1) s(1) assms(2) by (auto intro: reach_inv)
  from move_refines [OF this s(2,4)] show ?case
  proof
    assume "absp p = absp (ps1 ! t) \<and> absg g = absg g1"
    then show ?thesis using r s(2,3) by (metis (no_types, lifting) length_map list_update_id map_update nth_map)
  next
    assume "(absp p, absg g) \<in> set (amoves (absp (ps1 ! t)) (absg g1))"
    then have "(absp p, absg g) \<in> set (amoves (map absp ps1 ! t) (absg g1))" using s(2) by simp
    then show ?thesis using pool_reach_step [OF r, of t] s(2,3) by (simp add: map_update)
  qed
qed

end

text \<open>
  The lock the clients of a mutex rely on: of the goroutines that ask for it at most one has it at a time.
\<close>

datatype lpc = LOut | LWaiting | LIn

fun lock_moves :: "(lpc, bool) moves" where
  "lock_moves LOut locked = [(LWaiting, locked)]"
| "lock_moves LWaiting locked = (if locked then [] else [(LIn, True)])"
| "lock_moves LIn locked = [(LOut, False)]"

definition lock_inv :: "lpc list \<Rightarrow> bool \<Rightarrow> bool" where
  "lock_inv ps locked \<longleftrightarrow> cnt (\<lambda>p. p = LIn) ps = of_bool locked"

interpretation lk: pool_invariant lock_moves "\<lambda>ps locked. set ps \<subseteq> {LOut} \<and> \<not> locked" lock_inv
proof
  fix ps locked assume "set ps \<subseteq> {LOut} \<and> \<not> locked"
  then show "lock_inv ps locked" by (auto simp: lock_inv_def intro!: cnt_0)
next
  fix ps locked t p locked'
  assume "lock_inv ps locked" "t < length ps" "(p, locked') \<in> set (lock_moves (ps ! t) locked)"
  then show "lock_inv (ps[t := p]) locked'"
    using cnt_upd [of t ps "\<lambda>p. p = LIn" p] cnt_posI [of t ps "\<lambda>p. p = LIn"]
    by (cases "ps ! t"; cases locked) (auto simp: lock_inv_def)
qed

lemma lock_exclusive:
  assumes "pool_reach lock_moves (replicate n LOut, False) (ps, locked)" "t < n" "u < n" "ps ! t = LIn" "ps ! u = LIn"
  shows "t = u"
proof -
  have "lock_inv ps locked" by (rule lk.reach_inv [OF assms(1)]) auto
  then have "cnt (\<lambda>p. p = LIn) ps \<le> 1" by (simp add: lock_inv_def)
  moreover have "length ps = n" using pool_reach_length [OF assms(1)] by simp
  ultimately show ?thesis using assms(2-5) cnt_unique [of "\<lambda>p. p = LIn" ps t u] by simp
qed

end
