(* ===== verification/Mutex.thy ===== *)
theory Mutex
  imports Threads
begin

text \<open>
  \<open>sync.Mutex\<close> (\<open>sync/mutex.go\<close>) under every interleaving of the atomic operations of its callers. A goroutine
  is at one of the points between two atomic accesses to the mutex; \<open>runtime_Semacquire\<close> blocks until the
  semaphore is positive and then decrements it, as \<open>sync/runtime.go\<close> documents. Callers lock an arbitrary
  number of times and unlock what they have locked.
\<close>

section \<open>Definitions\<close>

record mutex =
  state :: u32
  sema :: u32

definition mutexLocked :: u32 where "mutexLocked = push_bit 0 1"

definition mutexWoken :: u32 where "mutexWoken = push_bit 1 1"

definition mutexWaiterShift :: nat where "mutexWaiterShift = 2"

text \<open>
  The points of \<open>Lock\<close> (from the first compare-and-swap to the semaphore), of a goroutine that holds the mutex,
  and of \<open>Unlock\<close>. The arguments are the local variables \<open>awoke\<close> and \<open>old\<close>.
\<close>

datatype mpc =
  MIdle
| LockFast
| LockLoad bool
| LockCas bool u32
| LockSema
| Holding
| UnlockAdd
| UnlockTest u32
| UnlockCas u32
| UnlockSema
| UnlockLoad
| MPanic

definition lock_new :: "bool \<Rightarrow> u32 \<Rightarrow> u32" where
  "lock_new awoke old =
    (let new = old OR mutexLocked;
         new = (if old AND mutexLocked \<noteq> 0 then old + push_bit mutexWaiterShift 1 else new) in
     if awoke then new AND NOT mutexWoken else new)"

fun mutex_moves :: "(mpc, mutex) moves" where
  "mutex_moves MIdle m = [(LockFast, m)]"
| "mutex_moves LockFast m =
    (if state m = 0 then [(Holding, m\<lparr>state := mutexLocked\<rparr>)] else [(LockLoad False, m)])"
| "mutex_moves (LockLoad awoke) m = [(LockCas awoke (state m), m)]"
| "mutex_moves (LockCas awoke old) m =
    (if state m = old
     then [(if old AND mutexLocked = 0 then Holding else LockSema, m\<lparr>state := lock_new awoke old\<rparr>)]
     else [(LockLoad awoke, m)])"
| "mutex_moves LockSema m = (if sema m > 0 then [(LockLoad True, m\<lparr>sema := sema m - 1\<rparr>)] else [])"
| "mutex_moves Holding m = [(UnlockAdd, m)]"
| "mutex_moves UnlockAdd m =
    (let new = state m - mutexLocked in
     [(if (new + mutexLocked) AND mutexLocked = 0 then MPanic else UnlockTest new, m\<lparr>state := new\<rparr>)])"
| "mutex_moves (UnlockTest old) m =
    (if signed_drop_bit mutexWaiterShift old = 0 \<or> old AND (mutexLocked OR mutexWoken) \<noteq> 0
     then [(MIdle, m)] else [(UnlockCas old, m)])"
| "mutex_moves (UnlockCas old) m =
    (if state m = old
     then [(UnlockSema, m\<lparr>state := (old - push_bit mutexWaiterShift 1) OR mutexWoken\<rparr>)]
     else [(UnlockLoad, m)])"
| "mutex_moves UnlockSema m = [(MIdle, m\<lparr>sema := sema m + 1\<rparr>)]"
| "mutex_moves UnlockLoad m = [(UnlockTest (state m), m)]"
| "mutex_moves MPanic m = []"

definition zero_mutex :: mutex where "zero_mutex = \<lparr>state = 0, sema = 0\<rparr>"

definition mutex_init :: "mpc list \<Rightarrow> mutex \<Rightarrow> bool" where
  "mutex_init ps m \<longleftrightarrow> ps = replicate (length ps) MIdle \<and> length ps < 2 ^ 29 \<and> m = zero_mutex"

section \<open>The state word\<close>

text \<open>The number of waiters, whether one of them has been woken, and whether the mutex is locked.\<close>

definition mword :: "nat \<Rightarrow> bool \<Rightarrow> bool \<Rightarrow> u32" where
  "mword c w l = of_nat (4 * c + 2 * of_bool w + of_bool l)"

lemma unat_mword: "c < 2 ^ 29 \<Longrightarrow> unat (mword c w l) = 4 * c + 2 * of_bool w + of_bool l"
  unfolding mword_def unat_of_nat by (cases w; cases l) simp_all

lemmas mword_consts = mutexLocked_def mutexWoken_def mutexWaiterShift_def

lemma mword_inject:
  "c < 2 ^ 29 \<Longrightarrow> d < 2 ^ 29 \<Longrightarrow> mword c w l = mword d v k \<longleftrightarrow> c = d \<and> w = v \<and> l = k"
  unfolding word_unat_eq_iff by (simp only: unat_mword) (auto simp: of_bool_def split: if_splits; presburger)

lemma mword_0: "c < 2 ^ 29 \<Longrightarrow> mword c w l = 0 \<longleftrightarrow> c = 0 \<and> \<not> w \<and> \<not> l"
  using mword_inject [of c 0 w l False False] by (simp add: mword_def)

lemma mword_locked: "c < 2 ^ 29 \<Longrightarrow> mword c w l AND mutexLocked = 0 \<longleftrightarrow> \<not> l"
proof -
  assume c: "c < 2 ^ 29"
  have "unat (mword c w l AND mask 1) = of_bool l" unfolding unat_and_mask unat_mword [OF c] by (cases w; cases l) (simp_all, presburger+)
  then show ?thesis by (simp add: mutexLocked_def unat_eq_0 [symmetric] mask_eq_exp_minus_1 del: unat_eq_zero)
qed

lemma bit_mword:
  assumes "c < 2 ^ 29"
  shows "bit (mword c w l) 0 = l" "bit (mword c w l) 1 = w"
proof -
  have b: "bit (mword c w l) n = odd (unat (mword c w l) div 2 ^ n)" if "n < 32" for n
    using bit_unsigned_iff [of "mword c w l" n, where 'a = nat] that by (simp add: bit_iff_odd)
  show "bit (mword c w l) 0 = l" "bit (mword c w l) 1 = w"
    using b [of 0] b [of 1] by (simp_all only: unat_mword [OF assms]) simp_all
qed

lemma mword_set_locked: "c < 2 ^ 29 \<Longrightarrow> mword c w False OR mutexLocked = mword c w True"
  using bit_mword [of c w False] set_bit_eq_or [of 0 "mword c w False"] set_bit_eq [of 0 "mword c w False"]
  by (simp add: mutexLocked_def mword_def)

lemma mword_set_woken: "c < 2 ^ 29 \<Longrightarrow> mword c False l OR mutexWoken = mword c True l"
  using bit_mword [of c False l] set_bit_eq_or [of 1 "mword c False l"] set_bit_eq [of 1 "mword c False l"]
  by (simp add: mutexWoken_def mword_def)

lemma mword_clear_woken: "c < 2 ^ 29 \<Longrightarrow> mword c True l AND NOT mutexWoken = mword c False l"
  using bit_mword [of c True l] unset_bit_eq_and_not [of 1 "mword c True l"] unset_bit_eq [of 1 "mword c True l"]
  by (simp add: mutexWoken_def mword_def)

lemma mword_more: "mword c w l + 2 ^ mutexWaiterShift = mword (Suc c) w l"
  by (simp add: mword_def mutexWaiterShift_def)

lemma mword_fewer: "mword (Suc c) w l - 2 ^ mutexWaiterShift = mword c w l"
  by (simp add: mword_def mutexWaiterShift_def)

lemma mword_unlock: "mword c w True - mutexLocked = mword c w False" "mword c w False + mutexLocked = mword c w True"
  by (simp_all add: mword_def mutexLocked_def)

lemma mword_flags: "c < 2 ^ 29 \<Longrightarrow> mword c w l AND (mutexLocked OR mutexWoken) = 0 \<longleftrightarrow> \<not> l \<and> \<not> w"
proof -
  assume c: "c < 2 ^ 29"
  have "mutexLocked OR mutexWoken = mask 2" by (simp add: mword_consts mask_eq_exp_minus_1)
  moreover have "unat (mword c w l AND mask 2) = 2 * of_bool w + of_bool l"
    unfolding unat_and_mask unat_mword [OF c] by (cases w; cases l) (simp_all, presburger+)
  ultimately show ?thesis by (auto simp: unat_eq_0 [symmetric] simp del: unat_eq_zero)
qed

lemma mword_waiters: "c < 2 ^ 29 \<Longrightarrow> signed_drop_bit mutexWaiterShift (mword c w l) = 0 \<longleftrightarrow> c = 0"
proof -
  assume c: "c < 2 ^ 29"
  have "4 * c + 2 * of_bool w + of_bool l < 2 ^ 31" using c by (cases w; cases l) simp_all
  then have s: "sint (mword c w l) = int (4 * c + 2 * of_bool w + of_bool l)"
    using unat_mword [OF c] sint_small [of "mword c w l"] by simp
  have "signed_drop_bit 2 (mword c w l) = 0 \<longleftrightarrow> sint (signed_drop_bit 2 (mword c w l)) = 0"
    by (metis signed_0 signed_word_eqI)
  also have "\<dots> \<longleftrightarrow> drop_bit 2 (sint (mword c w l)) = 0" by (simp only: sint_signed_drop_bit_eq)
  also have "\<dots> \<longleftrightarrow> int (4 * c + 2 * of_bool w + of_bool l) div 4 = 0" unfolding s drop_bit_eq_div by simp
  also have "\<dots> \<longleftrightarrow> c = 0" by (cases w; cases l; simp; presburger)
  finally show ?thesis by (simp add: mutexWaiterShift_def)
qed

lemmas mword_simps = mword_inject mword_0 mword_locked mword_set_locked mword_set_woken mword_clear_woken mword_more
  mword_fewer mword_unlock mword_flags mword_waiters

section \<open>The invariant\<close>

definition holding :: "mpc \<Rightarrow> bool" where "holding p \<longleftrightarrow> p = Holding \<or> p = UnlockAdd"

definition awoken :: "mpc \<Rightarrow> bool" where "awoken p \<longleftrightarrow> p = LockLoad True \<or> (\<exists>old. p = LockCas True old)"

definition waking :: "mpc \<Rightarrow> u32 \<Rightarrow> bool" where
  "waking p s \<longleftrightarrow> p = UnlockTest s \<or> p = UnlockCas s \<or> p = UnlockLoad"

definition wakeable :: "u32 \<Rightarrow> bool" where
  "wakeable s \<longleftrightarrow> signed_drop_bit mutexWaiterShift s \<noteq> 0 \<and> s AND (mutexLocked OR mutexWoken) = 0"

text \<open>
  The lock bit counts the holders; the woken bit is a token that a goroutine in \<open>Unlock\<close> creates, the
  semaphore carries and a goroutine in \<open>Lock\<close> consumes; the waiter count is the number of goroutines at the
  semaphore that no token is meant for; an unlocked mutex with waiters and no token has a goroutine in \<open>Unlock\<close>
  that is going to see this state.
\<close>

definition mutex_inv :: "mpc list \<Rightarrow> mutex \<Rightarrow> bool" where
  "mutex_inv ps m \<longleftrightarrow> length ps < 2 ^ 29 \<and> cnt (\<lambda>p. p = MPanic) ps = 0 \<and>
    (\<forall>old. UnlockCas old \<in> set ps \<longrightarrow> wakeable old) \<and>
    (\<exists>c w l. state m = mword c w l \<and> cnt holding ps = of_bool l \<and>
      cnt (\<lambda>p. p = UnlockSema) ps + unat (sema m) + cnt awoken ps = of_bool w \<and>
      c + cnt (\<lambda>p. p = UnlockSema) ps + unat (sema m) = cnt (\<lambda>p. p = LockSema) ps \<and>
      (\<not> l \<and> \<not> w \<and> 0 < c \<longrightarrow> (\<exists>t < length ps. waking (ps ! t) (state m))))"

lemma mutex_inv_init: "mutex_init ps m \<Longrightarrow> mutex_inv ps m"
proof -
  assume "mutex_init ps m"
  then obtain n where "ps = replicate n MIdle" "n < 2 ^ 29" "m = zero_mutex" unfolding mutex_init_def by blast
  then show ?thesis
    unfolding mutex_inv_def
    by (auto intro!: exI [of _ 0] exI [of _ False] simp: zero_mutex_def mword_def holding_def awoken_def)
qed

text \<open>What has to be shown of one goroutine that moves from one point to another.\<close>

lemma mutex_inv_step:
  assumes "t < length ps" "length ps < 2 ^ 29" "cnt (\<lambda>p. p = MPanic) ps = 0" "\<And>old. UnlockCas old \<in> set ps \<Longrightarrow> wakeable old"
    and "\<And>old. q = UnlockCas old \<Longrightarrow> wakeable old" "q \<noteq> MPanic" "state m = mword c w l"
    and "cnt holding ps + of_bool (holding q) = of_bool l + of_bool (holding (ps ! t))"
    and "cnt (\<lambda>p. p = UnlockSema) ps + of_bool (q = UnlockSema) + unat (sema m) + cnt awoken ps + of_bool (awoken q) =
      of_bool w + of_bool (ps ! t = UnlockSema) + of_bool (awoken (ps ! t))"
    and "c + cnt (\<lambda>p. p = UnlockSema) ps + of_bool (q = UnlockSema) + unat (sema m) + of_bool (ps ! t = LockSema) =
      cnt (\<lambda>p. p = LockSema) ps + of_bool (q = LockSema) + of_bool (ps ! t = UnlockSema)"
    and "\<not> l \<Longrightarrow> \<not> w \<Longrightarrow> 0 < c \<Longrightarrow>
      waking q (state m) \<or> \<not> waking (ps ! t) (state m) \<and> (\<exists>u < length ps. waking (ps ! u) (state m))"
  shows "mutex_inv (ps[t := q]) m"
proof -
  note u = cnt_upd [OF assms(1), of _ q]
  have "cnt (\<lambda>p. p = MPanic) (ps[t := q]) = 0" using u [of "\<lambda>p. p = MPanic"] assms(3,6) by simp
  moreover have "\<forall>old. UnlockCas old \<in> set (ps[t := q]) \<longrightarrow> wakeable old"
    using assms(4,5) set_update_subset_insert [of ps t q] by blast
  moreover have "cnt holding (ps[t := q]) = of_bool l" using u [of holding] assms(8) by linarith
  moreover have "cnt (\<lambda>p. p = UnlockSema) (ps[t := q]) + unat (sema m) + cnt awoken (ps[t := q]) = of_bool w"
    using u [of "\<lambda>p. p = UnlockSema"] u [of awoken] assms(9) by linarith
  moreover have "c + cnt (\<lambda>p. p = UnlockSema) (ps[t := q]) + unat (sema m) = cnt (\<lambda>p. p = LockSema) (ps[t := q])"
    using u [of "\<lambda>p. p = UnlockSema"] u [of "\<lambda>p. p = LockSema"] assms(10) by linarith
  moreover have "\<exists>i < length (ps[t := q]). waking (ps[t := q] ! i) (state m)" if "\<not> l \<and> \<not> w \<and> 0 < c"
    using assms(11) that assms(1) by (metis length_list_update nth_list_update_eq nth_list_update_neq)
  ultimately show ?thesis using assms(2,7) unfolding mutex_inv_def by (metis length_list_update)
qed

lemmas mpc_kinds = holding_def awoken_def waking_def

lemma mutex_inv_cases:
  assumes "mutex_inv ps m" "t < length ps"
  obtains c w l where "length ps < 2 ^ 29" "cnt (\<lambda>p. p = MPanic) ps = 0" "\<And>old. UnlockCas old \<in> set ps \<Longrightarrow> wakeable old"
    "state m = mword c w l" "c < 2 ^ 29"
    "cnt holding ps = of_bool l" "cnt (\<lambda>p. p = UnlockSema) ps + unat (sema m) + cnt awoken ps = of_bool w"
    "c + cnt (\<lambda>p. p = UnlockSema) ps + unat (sema m) = cnt (\<lambda>p. p = LockSema) ps"
    "\<not> l \<Longrightarrow> \<not> w \<Longrightarrow> 0 < c \<Longrightarrow> \<exists>t < length ps. waking (ps ! t) (state m)"
    "\<And>Q. Q (ps ! t) \<Longrightarrow> 0 < cnt Q ps" "ps ! t \<noteq> LockSema \<Longrightarrow> Suc c < 2 ^ 29"
proof -
  obtain c w l where I: "length ps < 2 ^ 29" "cnt (\<lambda>p. p = MPanic) ps = 0" "\<And>old. UnlockCas old \<in> set ps \<Longrightarrow> wakeable old"
    "state m = mword c w l" "cnt holding ps = of_bool l"
    "cnt (\<lambda>p. p = UnlockSema) ps + unat (sema m) + cnt awoken ps = of_bool w"
    "c + cnt (\<lambda>p. p = UnlockSema) ps + unat (sema m) = cnt (\<lambda>p. p = LockSema) ps"
    "\<not> l \<Longrightarrow> \<not> w \<Longrightarrow> 0 < c \<Longrightarrow> \<exists>t < length ps. waking (ps ! t) (state m)"
    using assms(1) unfolding mutex_inv_def by blast
  have "c < 2 ^ 29" using I(1,7) cnt_le [of "\<lambda>p. p = LockSema" ps] by linarith
  moreover have "Suc c < 2 ^ 29" if "ps ! t \<noteq> LockSema"
    using cnt_upd [OF assms(2), of "\<lambda>p. p = LockSema" LockSema] cnt_le [of "\<lambda>p. p = LockSema" "ps[t := LockSema]"]
      that I(1,7) by simp
  ultimately show thesis using that I cnt_posI [OF assms(2)] by blast
qed

text \<open>The moves that change neither the mutex nor a count.\<close>

lemma mutex_inv_quiet:
  assumes "mutex_inv ps m" "t < length ps" "q \<noteq> MPanic" "holding q = holding (ps ! t)" "awoken q = awoken (ps ! t)"
    "(q = UnlockSema) = (ps ! t = UnlockSema)" "(q = LockSema) = (ps ! t = LockSema)"
    and "waking (ps ! t) (state m) \<Longrightarrow> wakeable (state m) \<Longrightarrow> waking q (state m)" "\<And>old. q = UnlockCas old \<Longrightarrow> wakeable old"
  shows "mutex_inv (ps[t := q]) m"
  using assms(1,2)
proof (cases rule: mutex_inv_cases)
  case (1 c w l)
  have "\<not> l \<Longrightarrow> \<not> w \<Longrightarrow> 0 < c \<Longrightarrow> wakeable (state m)" using 1(4,5) by (simp add: wakeable_def mword_simps)
  then show ?thesis
    by (intro mutex_inv_step [OF assms(2) 1(1,2) 1(3) assms(9) assms(3) 1(4)]) (use 1(6-9) assms(4-8) in auto)
qed

text \<open>A goroutine gets the mutex, or becomes a waiter.\<close>

lemma mutex_inv_LockCas:
  assumes "mutex_inv ps m" "t < length ps" "ps ! t = LockCas a (state m)" "(q, m') \<in> set (mutex_moves (ps ! t) m)"
  shows "mutex_inv (ps[t := q]) m'"
  using assms(1,2)
proof (cases rule: mutex_inv_cases)
  case (1 c w l)
  have q: "q = (if l then LockSema else Holding)" "m' = m\<lparr>state := lock_new a (mword c w l)\<rparr>"
    using assms(3,4) 1(4) mword_locked [OF 1(5)] by simp_all
  have w: "w" if a using that 1(7) 1(10) [of awoken] assms(3) by (cases w) (auto simp: awoken_def)
  have c: "Suc c < 2 ^ 29" using 1(11) assms(3) by simp
  have "lock_new a (mword c w l) = mword (if l then Suc c else c) (w \<and> \<not> a) True"
    using 1(5) c w by (cases a; cases l) (simp_all add: lock_new_def mword_simps)
  then show ?thesis using 1(4-9) q w assms(3)
    by (intro mutex_inv_step [OF assms(2) 1(1,2,3), where c = "if l then Suc c else c" and w = "w \<and> \<not> a" and l = True])
      (cases l; cases a; simp add: mpc_kinds)+
qed

text \<open>A goroutine in \<open>Unlock\<close> takes a waiter off the count and gets the token.\<close>

lemma mutex_inv_UnlockCas:
  assumes "mutex_inv ps m" "t < length ps" "ps ! t = UnlockCas (state m)" "(q, m') \<in> set (mutex_moves (ps ! t) m)"
  shows "mutex_inv (ps[t := q]) m'"
  using assms(1,2)
proof (cases rule: mutex_inv_cases)
  case (1 c w l)
  have "wakeable (state m)" using 1(3) assms(2,3) by (metis nth_mem)
  then obtain d where d: "c = Suc d" "\<not> w" "\<not> l" using 1(4,5) by (cases c) (simp_all add: wakeable_def mword_simps)
  then have "q = UnlockSema" "m' = m\<lparr>state := mword d True False\<rparr>"
    using assms(3,4) 1(4,5) by (simp_all add: mword_simps)
  then show ?thesis using 1(4-9) d assms(3)
    by (intro mutex_inv_step [OF assms(2) 1(1,2,3), where c = d and w = True and l = False]) (simp_all add: mpc_kinds)
qed

text \<open>The semaphore carries the token, the fast path and the release of the lock bit.\<close>

lemma mutex_inv_sema:
  assumes "mutex_inv ps m" "t < length ps" "ps ! t = LockSema \<or> ps ! t = UnlockSema" "(q, m') \<in> set (mutex_moves (ps ! t) m)"
  shows "mutex_inv (ps[t := q]) m'"
  using assms(1,2)
proof (cases rule: mutex_inv_cases)
  case (1 c w l)
  note step = mutex_inv_step [OF assms(2) 1(1,2,3), where c = c and w = w and l = l]
  from assms(3) show ?thesis
  proof
    assume p: "ps ! t = LockSema"
    then have s: "sema m > 0" and q: "q = LockLoad True" "m' = m\<lparr>sema := sema m - 1\<rparr>"
      using assms(4) by (simp_all split: if_splits)
    have "unat (sema m - 1) = unat (sema m) - 1" "0 < unat (sema m)" using s by (simp_all add: unat_minus_one unat_gt_0)
    then show ?thesis using p 1(4-9) q by (cases w) (auto intro!: step simp: mpc_kinds)
  next
    assume p: "ps ! t = UnlockSema"
    then have q: "q = MIdle" "m' = m\<lparr>sema := sema m + 1\<rparr>" using assms(4) by simp_all
    have "unat (sema m) \<le> 1" using 1(7) by (cases w) simp_all
    then have "unat (sema m + 1) = unat (sema m) + 1" by (simp add: unat_word_ariths)
    then show ?thesis using p 1(4-9) q by (intro step) (auto simp: mpc_kinds)
  qed
qed

lemma mutex_inv_LockFast:
  assumes "mutex_inv ps m" "t < length ps" "ps ! t = LockFast" "state m = 0" "(q, m') \<in> set (mutex_moves (ps ! t) m)"
  shows "mutex_inv (ps[t := q]) m'"
  using assms(1,2)
proof (cases rule: mutex_inv_cases)
  case (1 c w l)
  then have "c = 0" "\<not> w" "\<not> l" using assms(4) mword_0 [OF 1(5)] by simp_all
  moreover have "q = Holding" "m' = m\<lparr>state := mutexLocked\<rparr>" using assms(3,4,5) by simp_all
  ultimately show ?thesis using assms(3) 1(4-9)
    by (intro mutex_inv_step [OF assms(2) 1(1,2,3), where c = 0 and w = False and l = True])
      (auto simp: mpc_kinds mword_def mutexLocked_def)
qed

lemma mutex_inv_UnlockAdd:
  assumes "mutex_inv ps m" "t < length ps" "ps ! t = UnlockAdd" "(q, m') \<in> set (mutex_moves (ps ! t) m)"
  shows "mutex_inv (ps[t := q]) m'"
  using assms(1,2)
proof (cases rule: mutex_inv_cases)
  case (1 c w l)
  then have l using 1(10) [of holding] assms(3) by (simp add: holding_def)
  then have "q = UnlockTest (mword c w False)" "m' = m\<lparr>state := mword c w False\<rparr>"
    using assms(3,4) 1(4) by (simp_all add: mword_unlock mword_locked [OF 1(5)] Let_def)
  then show ?thesis using assms(3) \<open>l\<close> 1(4-9)
    by (intro mutex_inv_step [OF assms(2) 1(1,2,3), where c = c and w = w and l = False]) (auto simp: mpc_kinds)
qed

lemma mutex_inv_move:
  assumes "mutex_inv ps m" "t < length ps" "(q, m') \<in> set (mutex_moves (ps ! t) m)"
  shows "mutex_inv (ps[t := q]) m'"
proof -
  note quiet = mutex_inv_quiet [OF assms(1,2)]
  show ?thesis
  proof (cases "ps ! t")
    case LockFast
    then show ?thesis using assms mutex_inv_LockFast [OF assms(1,2) LockFast _ assms(3)]
      by (cases "state m = 0") (auto intro!: quiet simp: mpc_kinds)
  next
    case (LockCas a old)
    then show ?thesis using assms mutex_inv_LockCas [OF assms(1,2) _ assms(3), of a]
      by (cases "state m = old") (auto intro!: quiet simp: mpc_kinds)
  next
    case (UnlockCas old)
    then show ?thesis using assms mutex_inv_UnlockCas [OF assms(1,2) _ assms(3)]
      by (cases "state m = old") (auto intro!: quiet simp: mpc_kinds)
  next
    case (UnlockTest old)
    then show ?thesis using assms(3) by (auto intro!: quiet simp: mpc_kinds wakeable_def split: if_splits)
  qed (use assms(3) mutex_inv_sema [OF assms(1,2) _ assms(3)] mutex_inv_UnlockAdd [OF assms(1,2) _ assms(3)] in
      \<open>auto intro!: quiet simp: mpc_kinds\<close>)
qed

section \<open>The mutex is a lock\<close>

fun lock_pc :: "mpc \<Rightarrow> lpc" where
  "lock_pc LockFast = LWaiting"
| "lock_pc (LockLoad _) = LWaiting"
| "lock_pc (LockCas _ _) = LWaiting"
| "lock_pc LockSema = LWaiting"
| "lock_pc Holding = LIn"
| "lock_pc UnlockAdd = LIn"
| "lock_pc _ = LOut"

definition is_locked :: "mutex \<Rightarrow> bool" where "is_locked m \<longleftrightarrow> state m AND mutexLocked \<noteq> 0"

lemma is_locked_odd: "is_locked m \<longleftrightarrow> odd (state m)"
  by (simp add: is_locked_def mutexLocked_def and_one_eq odd_iff_mod_2_eq_one)

lemma lock_new_odd: "odd (lock_new awoke old)"
  by (simp add: lock_new_def Let_def mword_consts even_or_iff even_and_iff and_one_eq flip: even_iff_mod_2_eq_zero)

lemma mutex_move_refines:
  assumes "mutex_inv ps m" "t < length ps" "(q, m') \<in> set (mutex_moves (ps ! t) m)"
  shows "lock_pc q = lock_pc (ps ! t) \<and> is_locked m' = is_locked m \<or>
    (lock_pc q, is_locked m') \<in> set (lock_moves (lock_pc (ps ! t)) (is_locked m))"
  using assms(1,2)
proof (cases rule: mutex_inv_cases)
  case (1 c w l)
  have lk: "is_locked m = l" using 1(4) mword_locked [OF 1(5)] by (simp add: is_locked_def)
  show ?thesis
  proof (cases "ps ! t")
    case UnlockAdd
    then have l using 1(6) 1(10) [of holding] by (simp add: holding_def)
    then show ?thesis using UnlockAdd assms(3) lk 1(4)
      by (simp add: is_locked_odd mword_consts Let_def and_one_eq odd_iff_mod_2_eq_one [symmetric] split: if_splits)
  next
    case (LockCas a old)
    then show ?thesis using assms(3) lock_new_odd [of a old]
      by (auto simp: is_locked_odd mutexLocked_def and_one_eq even_iff_mod_2_eq_zero split: if_splits)
  qed (use assms(3) in \<open>auto simp: is_locked_odd mword_consts even_or_iff Let_def split: if_splits\<close>)
qed

interpretation mx: pool_refinement mutex_moves mutex_init mutex_inv lock_moves lock_pc is_locked
  by unfold_locales (rule mutex_inv_init mutex_inv_move mutex_move_refines; assumption)+

section \<open>Properties\<close>

lemma mutex_init_start: "n < 2 ^ 29 \<Longrightarrow> mutex_init (replicate n MIdle) zero_mutex"
  by (simp add: mutex_init_def)

text \<open>The first of two goroutines gets the mutex, the second one waits for it.\<close>

lemma mutex_example:
  "pool_reach mutex_moves (replicate 2 MIdle, zero_mutex) ([Holding, LockSema], \<lparr>state = 5, sema = 0\<rparr>)"
  by (rule pool_run_reachable [where sch = "[(0, 0), (0, 0), (1, 0), (1, 0), (1, 0), (1, 0)]"])
    (simp add: numeral_2_eq_2 zero_mutex_def mword_consts lock_new_def)

text \<open>C2: \<open>sync.Mutex\<close> refines a lock: under every interleaving of the atomic steps of any number of goroutines below
\<open>2 ^ 29\<close> that call \<open>Lock\<close> and \<open>Unlock\<close>, what the callers see is a run of the abstract lock, in which a goroutine
enters only while nobody is inside; in particular two goroutines never hold the mutex at the same time.\<close>

theorem mutex_refines_lock:
  assumes "pool_reach mutex_moves (replicate n MIdle, zero_mutex) (ps, m)" "n < 2 ^ 29"
  shows "pool_reach lock_moves (replicate n LOut, False) (map lock_pc ps, is_locked m) \<and>
    (\<forall>t < n. \<forall>u < n. ps ! t = Holding \<and> ps ! u = Holding \<longrightarrow> t = u)"
proof (intro conjI allI impI)
  have l: "length ps = n" using pool_reach_length [OF assms(1)] by simp
  show r: "pool_reach lock_moves (replicate n LOut, False) (map lock_pc ps, is_locked m)"
    using mx.reach_refines [OF assms(1) mutex_init_start [OF assms(2)]] by (simp add: zero_mutex_def is_locked_odd)
  fix t u assume "t < n" "u < n" "ps ! t = Holding \<and> ps ! u = Holding"
  then show "t = u" using lock_exclusive [OF r, of t u] l by simp
qed

theorem mutex_refines_lock_witness:
  "pool_reach lock_moves (replicate 2 LOut, False) ([LIn, LWaiting], True)"
  using mutex_refines_lock [OF mutex_example] by (simp add: is_locked_odd)

text \<open>C10: \<open>sync.Mutex\<close> loses no wake-up: as long as a goroutine is blocked at the semaphore of \<open>Lock\<close>, there is a
goroutine that holds the mutex or one inside \<open>Lock\<close> or \<open>Unlock\<close> that can go on, so waiters are never left
behind; and an \<open>Unlock\<close> of a goroutine that holds the mutex does not panic.\<close>

theorem mutex_no_lost_wakeup:
  assumes "pool_reach mutex_moves (replicate n MIdle, zero_mutex) (ps, m)" "n < 2 ^ 29"
  shows "MPanic \<notin> set ps \<and> (LockSema \<in> set ps \<longrightarrow> (\<exists>p \<in> set ps. p \<noteq> MIdle \<and> mutex_moves p m \<noteq> []))"
proof -
  have inv: "mutex_inv ps m" by (rule mx.reach_inv [OF assms(1) mutex_init_start [OF assms(2)]])
  have go: "\<exists>p \<in> set ps. p \<noteq> MIdle \<and> mutex_moves p m \<noteq> []"
    if "0 < cnt Q ps" "\<And>p. Q p \<Longrightarrow> p \<noteq> MIdle \<and> mutex_moves p m \<noteq> []" for Q
    using that unfolding cnt_pos by (metis nth_mem)
  have "\<exists>p \<in> set ps. p \<noteq> MIdle \<and> mutex_moves p m \<noteq> []" if "t < length ps" "ps ! t = LockSema" for t
    using inv that(1)
  proof (cases rule: mutex_inv_cases)
    case (1 c w l)
    consider "sema m > 0" | "l" | "sema m = 0" "\<not> l" "w" | "sema m = 0" "\<not> l" "\<not> w"
      by (metis word_gt_0)
    then show ?thesis
    proof cases
      case 1
      then show ?thesis using that nth_mem [of t ps] by (intro bexI [of _ LockSema]) auto
    next
      case 2
      then have "0 < cnt holding ps" using \<open>cnt holding ps = of_bool l\<close> by simp
      then show ?thesis by (rule go) (auto simp: holding_def Let_def)
    next
      case 3
      then have "0 < cnt (\<lambda>p. p = UnlockSema) ps \<or> 0 < cnt awoken ps" using 1(7) by auto
      then show ?thesis by (elim disjE; elim go) (auto simp: awoken_def split: if_splits)
    next
      case 4
      have "0 < cnt (\<lambda>p. p = LockSema) ps" using that by (auto intro: cnt_posI)
      then have "0 < c" using 1(7,8) 4 by simp
      then obtain u where "u < length ps" "waking (ps ! u) (state m)" using 1(9) 4 by blast
      then show ?thesis by (intro bexI [of _ "ps ! u"]) (auto simp: waking_def split: if_splits)
    qed
  qed
  moreover have "MPanic \<notin> set ps" using inv cnt_pos [of "\<lambda>p. p = MPanic" ps] unfolding mutex_inv_def by (auto simp: in_set_conv_nth)
  ultimately show ?thesis by (metis in_set_conv_nth)
qed

theorem mutex_no_lost_wakeup_witness:
  "\<exists>p \<in> {Holding, LockSema}. p \<noteq> MIdle \<and> mutex_moves p \<lparr>state = 5, sema = 0\<rparr> \<noteq> []"
  using mutex_no_lost_wakeup [OF mutex_example] by simp

text \<open>An \<open>Unlock\<close> of a mutex that is not locked panics.\<close>

lemma unlock_unlocked_panics:
  assumes "\<not> is_locked m"
  shows "mutex_moves UnlockAdd m = [(MPanic, m\<lparr>state := state m - mutexLocked\<rparr>)]"
  using assms by (simp add: is_locked_def)

end
