(* ===== verification/RWMutex.thy ===== *)
theory RWMutex
  imports Mutex
begin

text \<open>
  \<open>sync.RWMutex\<close> (\<open>sync/rwmutex.go\<close>) under every interleaving of the atomic operations of its callers. The
  embedded \<open>Mutex\<close> of the writers is the lock that \<open>sync.Mutex\<close> refines; the semaphores block until they are
  positive. Callers lock and unlock in pairs, any number of times.
\<close>

section \<open>Definitions\<close>

record rwmutex =
  w_locked :: bool
  writerSem :: u32
  readerSem :: u32
  readerCount :: u32
  readerWait :: u32

definition rwmutexMaxReaders :: u32 where "rwmutexMaxReaders = push_bit 30 1"

text \<open>
  The points of \<open>RLock\<close>, of a reader, of \<open>RUnlock\<close>; of \<open>Lock\<close>, of a writer and of \<open>Unlock\<close>. The arguments
  are the local variables \<open>r\<close> and \<open>i\<close>.
\<close>

datatype rwpc =
  RWIdle
| RLockSema
| Reading
| RUnlockWait
| RUnlockSema
| WLock
| WAnnounce
| WAdd u32
| WSema
| Writing
| WRelease u32 u32
| WUnlock
| RWPanic

fun rw_moves :: "(rwpc, rwmutex) moves" where
  "rw_moves RWIdle g =
    (let c = readerCount g + 1 in
     [(if c <s 0 then RLockSema else Reading, g\<lparr>readerCount := c\<rparr>), (WLock, g)])"
| "rw_moves RLockSema g = (if readerSem g > 0 then [(Reading, g\<lparr>readerSem := readerSem g - 1\<rparr>)] else [])"
| "rw_moves Reading g =
    (let r = readerCount g - 1 in
     [(if r <s 0 then (if r + 1 = 0 \<or> r + 1 = - rwmutexMaxReaders then RWPanic else RUnlockWait) else RWIdle,
       g\<lparr>readerCount := r\<rparr>)])"
| "rw_moves RUnlockWait g =
    (let v = readerWait g - 1 in [(if v = 0 then RUnlockSema else RWIdle, g\<lparr>readerWait := v\<rparr>)])"
| "rw_moves RUnlockSema g = [(RWIdle, g\<lparr>writerSem := writerSem g + 1\<rparr>)]"
| "rw_moves WLock g = (if w_locked g then [] else [(WAnnounce, g\<lparr>w_locked := True\<rparr>)])"
| "rw_moves WAnnounce g =
    (let c = readerCount g - rwmutexMaxReaders; r = c + rwmutexMaxReaders in
     [(if r \<noteq> 0 then WAdd r else Writing, g\<lparr>readerCount := c\<rparr>)])"
| "rw_moves (WAdd r) g =
    (let v = readerWait g + r in [(if v \<noteq> 0 then WSema else Writing, g\<lparr>readerWait := v\<rparr>)])"
| "rw_moves WSema g = (if writerSem g > 0 then [(Writing, g\<lparr>writerSem := writerSem g - 1\<rparr>)] else [])"
| "rw_moves Writing g =
    (let r = readerCount g + rwmutexMaxReaders in
     [(if rwmutexMaxReaders \<le>s r then RWPanic else WRelease 0 r, g\<lparr>readerCount := r\<rparr>)])"
| "rw_moves (WRelease i r) g =
    (if i <s r then [(WRelease (i + 1) r, g\<lparr>readerSem := readerSem g + 1\<rparr>)] else [(WUnlock, g)])"
| "rw_moves WUnlock g = [(RWIdle, g\<lparr>w_locked := False\<rparr>)]"
| "rw_moves RWPanic g = []"

definition zero_rwmutex :: rwmutex where
  "zero_rwmutex = \<lparr>w_locked = False, writerSem = 0, readerSem = 0, readerCount = 0, readerWait = 0\<rparr>"

definition rw_init :: "rwpc list \<Rightarrow> rwmutex \<Rightarrow> bool" where
  "rw_init ps g \<longleftrightarrow> ps = replicate (length ps) RWIdle \<and> length ps < 2 ^ 30 \<and> g = zero_rwmutex"

section \<open>The invariant\<close>

fun rest :: "rwpc \<Rightarrow> nat" where
  "rest (WRelease i r) = unat r - unat i"
| "rest _ = 0"

fun departing :: "rwpc \<Rightarrow> nat" where
  "departing (WAdd r) = unat r"
| "departing _ = 0"

fun adding :: "rwpc \<Rightarrow> bool" where
  "adding (WAdd r) = True"
| "adding _ = False"

fun leaving :: "rwpc \<Rightarrow> bool" where
  "leaving WAnnounce = True"
| "leaving (WRelease _ _) = True"
| "leaving WUnlock = True"
| "leaving _ = False"

text \<open>
  The numbers of goroutines: \<open>a\<close> reading, \<open>b\<close> at the readers' semaphore, \<open>u\<close> readers that left but are still
  counted as departing, \<open>e\<close> about to wake the writer; \<open>x\<close>, \<open>s\<close>, \<open>n\<close> writers that have announced themselves
  (before counting the readers, at their semaphore, writing), \<open>v\<close> other goroutines that have the writers' lock;
  \<open>k\<close> tokens of the readers' semaphore including those still to be released, \<open>d\<close> the departing readers not yet
  added.
\<close>

definition rw_counts ::
    "nat \<Rightarrow> nat \<Rightarrow> nat \<Rightarrow> nat \<Rightarrow> nat \<Rightarrow> nat \<Rightarrow> nat \<Rightarrow> nat \<Rightarrow> nat \<Rightarrow> nat \<Rightarrow> rwmutex \<Rightarrow> bool" where
  "rw_counts a b u e x s n v k d g \<longleftrightarrow>
    x + s + n + v = of_bool (w_locked g) \<and>
    readerCount g = word_of_int (int (a + b) - 2 ^ 30 * int (x + s + n)) \<and>
    readerWait g = (if x + s + n = 0 then 0 else word_of_int (int (a + k + u) - int d)) \<and>
    (x + s + n = 0 \<longrightarrow> b = k \<and> u = 0) \<and> k \<le> b \<and>
    (x = 1 \<longrightarrow> a + k + u \<le> d \<and> 0 < d) \<and>
    (n = 1 \<longrightarrow> a + k + u = 0) \<and>
    e + unat (writerSem g) = of_bool (s = 1 \<and> a + k + u = 0)"

definition rw_local :: "rwpc \<Rightarrow> bool" where
  "rw_local p \<longleftrightarrow> p \<noteq> RWPanic \<and> (\<forall>r. p = WAdd r \<longrightarrow> unat r < 2 ^ 30) \<and>
    (\<forall>i r. p = WRelease i r \<longrightarrow> unat i \<le> unat r \<and> unat r < 2 ^ 30)"

definition rw_inv :: "rwpc list \<Rightarrow> rwmutex \<Rightarrow> bool" where
  "rw_inv ps g \<longleftrightarrow> length ps < 2 ^ 30 \<and> (\<forall>p \<in> set ps. rw_local p) \<and>
    rw_counts (cnt (\<lambda>p. p = Reading) ps) (cnt (\<lambda>p. p = RLockSema) ps) (cnt (\<lambda>p. p = RUnlockWait) ps)
      (cnt (\<lambda>p. p = RUnlockSema) ps) (cnt adding ps) (cnt (\<lambda>p. p = WSema) ps) (cnt (\<lambda>p. p = Writing) ps)
      (cnt leaving ps) (unat (readerSem g) + tot rest ps) (tot departing ps) g"

lemma rw_inv_init: "rw_init ps g \<Longrightarrow> rw_inv ps g"
proof -
  assume "rw_init ps g"
  then obtain n where "ps = replicate n RWIdle" "n < 2 ^ 30" "g = zero_rwmutex" unfolding rw_init_def by blast
  then show ?thesis by (auto simp: rw_inv_def rw_counts_def rw_local_def zero_rwmutex_def tot_def)
qed

text \<open>The counts of the goroutines that a reader or a writer can be bounded by.\<close>

lemma rw_count_bounds:
  "cnt (\<lambda>p. p = Reading) ps + cnt (\<lambda>p. p = RLockSema) ps + cnt (\<lambda>p. p = RUnlockWait) ps + cnt (\<lambda>p. p = RWIdle) ps \<le> length ps"
  by (induction ps) (auto simp: cnt_def)

lemma small_word:
  assumes "- (2 ^ 31) \<le> k" "k < 2 ^ 31"
  shows "(word_of_int k :: u32) <s 0 \<longleftrightarrow> k < 0" "(word_of_int k :: u32) = 0 \<longleftrightarrow> k = 0"
proof -
  have s: "sint (word_of_int k :: u32) = k" using assms by (rule sint_word_of_int_32)
  show "(word_of_int k :: u32) <s 0 \<longleftrightarrow> k < 0" by (simp add: word_sless_alt s)
  show "(word_of_int k :: u32) = 0 \<longleftrightarrow> k = 0" using s by (metis signed_0 of_int_0)
qed

lemma rw_inv_step:
  assumes "rw_inv ps g" "t < length ps" "rw_local q"
    and "rw_counts (cnt (\<lambda>p. p = Reading) ps + of_bool (q = Reading) - of_bool (ps ! t = Reading))
      (cnt (\<lambda>p. p = RLockSema) ps + of_bool (q = RLockSema) - of_bool (ps ! t = RLockSema))
      (cnt (\<lambda>p. p = RUnlockWait) ps + of_bool (q = RUnlockWait) - of_bool (ps ! t = RUnlockWait))
      (cnt (\<lambda>p. p = RUnlockSema) ps + of_bool (q = RUnlockSema) - of_bool (ps ! t = RUnlockSema))
      (cnt adding ps + of_bool (adding q) - of_bool (adding (ps ! t)))
      (cnt (\<lambda>p. p = WSema) ps + of_bool (q = WSema) - of_bool (ps ! t = WSema))
      (cnt (\<lambda>p. p = Writing) ps + of_bool (q = Writing) - of_bool (ps ! t = Writing))
      (cnt leaving ps + of_bool (leaving q) - of_bool (leaving (ps ! t)))
      (unat (readerSem g') + (tot rest ps + rest q - rest (ps ! t))) (tot departing ps + departing q - departing (ps ! t)) g'"
  shows "rw_inv (ps[t := q]) g'"
proof -
  have "\<forall>p \<in> set (ps[t := q]). rw_local p"
    using assms(1,3) set_update_subset_insert [of ps t q] unfolding rw_inv_def by blast
  then show ?thesis using assms(1,4) by (simp add: rw_inv_def cnt_move [OF assms(2)] tot_move [OF assms(2)])
qed

subsection \<open>What each step does to the counts\<close>

lemma counts_one:
  assumes "rw_counts a b u e x s n v k d g"
  shows "0 < x \<Longrightarrow> x = 1 \<and> s = 0 \<and> n = 0 \<and> v = 0 \<and> w_locked g" "0 < s \<Longrightarrow> s = 1 \<and> x = 0 \<and> n = 0 \<and> v = 0 \<and> w_locked g"
    "0 < n \<Longrightarrow> n = 1 \<and> x = 0 \<and> s = 0 \<and> v = 0 \<and> w_locked g" "0 < v \<Longrightarrow> v = 1 \<and> x = 0 \<and> s = 0 \<and> n = 0 \<and> w_locked g"
  using assms by (cases "w_locked g"; simp add: rw_counts_def)+

lemma counts_RLock:
  assumes "rw_counts a b u e x s n v k d g"
  shows "x + s + n = 0 \<Longrightarrow> rw_counts (Suc a) b u e x s n v k d (g\<lparr>readerCount := readerCount g + 1\<rparr>)"
    and "x + s + n \<noteq> 0 \<Longrightarrow> rw_counts a (Suc b) u e x s n v k d (g\<lparr>readerCount := readerCount g + 1\<rparr>)"
  using assms by (auto simp: rw_counts_def algebra_simps)

lemma counts_RLockSema:
  assumes "rw_counts a b u e x s n v k d g" "0 < k"
  shows "rw_counts (Suc a) (b - 1) u e x s n v (k - 1) d (g\<lparr>readerSem := z\<rparr>)"
  using assms by (auto simp: rw_counts_def algebra_simps of_nat_diff)

lemma counts_Reading:
  assumes "rw_counts a b u e x s n v k d g" "0 < a"
  shows "x + s + n = 0 \<Longrightarrow> rw_counts (a - 1) b u e x s n v k d (g\<lparr>readerCount := readerCount g - 1\<rparr>)"
    and "x + s + n \<noteq> 0 \<Longrightarrow> rw_counts (a - 1) b (Suc u) e x s n v k d (g\<lparr>readerCount := readerCount g - 1\<rparr>)"
  using assms by (auto simp: rw_counts_def algebra_simps of_nat_diff)

lemma counts_RUnlockWait:
  assumes "rw_counts a b u e x s n v k d g" "0 < u" "s = 0 \<or> d = 0"
  shows "s = 1 \<Longrightarrow> a + k + u = 1 \<Longrightarrow> rw_counts a b (u - 1) (Suc e) x s n v k d (g\<lparr>readerWait := readerWait g - 1\<rparr>)"
    and "s \<noteq> 1 \<or> a + k + u \<noteq> 1 \<Longrightarrow> rw_counts a b (u - 1) e x s n v k d (g\<lparr>readerWait := readerWait g - 1\<rparr>)"
proof -
  assume s: "s = 1" "a + k + u = 1"
  then have "a = 0" "k = 0" "u = 1" "d = 0" using assms(2,3) by linarith+
  then show "rw_counts a b (u - 1) (Suc e) x s n v k d (g\<lparr>readerWait := readerWait g - 1\<rparr>)"
    using assms(1) s by (simp add: rw_counts_def)
next
  assume "s \<noteq> 1 \<or> a + k + u \<noteq> 1"
  then show "rw_counts a b (u - 1) e x s n v k d (g\<lparr>readerWait := readerWait g - 1\<rparr>)"
    using assms by (auto simp: rw_counts_def algebra_simps of_nat_diff)
qed

lemma counts_RUnlockSema:
  assumes "rw_counts a b u e x s n v k d g" "0 < e"
  shows "rw_counts a b u (e - 1) x s n v k d (g\<lparr>writerSem := writerSem g + 1\<rparr>)"
proof -
  have "unat (writerSem g) = 0" "e = 1" "s = 1 \<and> a + k + u = 0"
    using assms by (auto simp: rw_counts_def of_bool_def split: if_splits)
  then show ?thesis using assms(1) by (simp add: rw_counts_def unat_word_ariths)
qed

lemma counts_WLock:
  assumes "rw_counts a b u e x s n v k d g" "\<not> w_locked g"
  shows "rw_counts a b u e x s n (Suc v) k d (g\<lparr>w_locked := True\<rparr>)"
  using assms by (simp add: rw_counts_def)

lemma counts_WAnnounce:
  assumes "rw_counts a b u e x s n v k d g" "0 < v" "d = 0"
  shows "a + b \<noteq> 0 \<Longrightarrow> rw_counts a b u e (Suc x) s n (v - 1) k (a + b) (g\<lparr>readerCount := readerCount g - rwmutexMaxReaders\<rparr>)"
    and "a + b = 0 \<Longrightarrow> rw_counts a b u e x s (Suc n) (v - 1) k d (g\<lparr>readerCount := readerCount g - rwmutexMaxReaders\<rparr>)"
    and "readerCount g = word_of_int (int (a + b))"
  using assms counts_one(4) [OF assms(1,2)] by (auto simp: rw_counts_def algebra_simps rwmutexMaxReaders_def)

lemma counts_WAdd:
  assumes "rw_counts a b u e x s n v k d g" "0 < x" "r = of_nat d"
  shows "a + k + u \<noteq> 0 \<Longrightarrow> rw_counts a b u e (x - 1) (Suc s) n v k 0 (g\<lparr>readerWait := readerWait g + r\<rparr>)"
    and "a + k + u = 0 \<Longrightarrow> rw_counts a b u e (x - 1) s (Suc n) v k 0 (g\<lparr>readerWait := readerWait g + r\<rparr>)"
    and "readerWait g + r = word_of_int (int (a + k + u))"
  using assms counts_one(1) [OF assms(1,2)] by (auto simp: rw_counts_def algebra_simps)

lemma counts_WSema:
  assumes "rw_counts a b u e x s n v k d g" "0 < writerSem g" "d = 0"
  shows "rw_counts a b u e x (s - 1) (Suc n) v k d (g\<lparr>writerSem := writerSem g - 1\<rparr>)"
proof -
  have "0 < unat (writerSem g)" using assms(2) by (simp add: unat_gt_0)
  then have "unat (writerSem g) = 1" "e = 0" "s = 1 \<and> a + k + u = 0"
    using assms by (auto simp: rw_counts_def of_bool_def split: if_splits)
  moreover from this have "unat (writerSem g - 1) = 0" using unat_minus_one [of "writerSem g"] assms(2) by auto
  ultimately show ?thesis using assms(1) by (auto simp: rw_counts_def)
qed

lemma counts_Writing:
  assumes "rw_counts a b u e x s n v k d g" "0 < n" "d = 0"
  shows "rw_counts a b u e x s (n - 1) (Suc v) b d (g\<lparr>readerCount := readerCount g + rwmutexMaxReaders\<rparr>)"
    and "readerCount g + rwmutexMaxReaders = word_of_int (int b)"
  using assms counts_one(3) [OF assms(1,2)] by (auto simp: rw_counts_def algebra_simps rwmutexMaxReaders_def)

lemma counts_WUnlock:
  assumes "rw_counts a b u e x s n v k d g" "0 < v"
  shows "rw_counts a b u e x s n (v - 1) k d (g\<lparr>w_locked := False\<rparr>)"
  using assms counts_one(4) [OF assms(1,2)] by (auto simp: rw_counts_def of_bool_def split: if_splits)

subsection \<open>Every step keeps the invariant\<close>

text \<open>The values the conditions of the code test.\<close>

lemma no_numbers: "\<not> adding p \<Longrightarrow> departing p = 0" "\<not> leaving p \<Longrightarrow> rest p = 0"
  by (cases p; simp)+

lemma rw_inv_cases:
  assumes "rw_inv ps g" "t < length ps"
  obtains a b u e x s n v k d where
    "a = cnt (\<lambda>p. p = Reading) ps" "b = cnt (\<lambda>p. p = RLockSema) ps" "u = cnt (\<lambda>p. p = RUnlockWait) ps"
    "e = cnt (\<lambda>p. p = RUnlockSema) ps" "x = cnt adding ps" "s = cnt (\<lambda>p. p = WSema) ps" "n = cnt (\<lambda>p. p = Writing) ps"
    "v = cnt leaving ps" "k = unat (readerSem g) + tot rest ps" "d = tot departing ps"
    "rw_counts a b u e x s n v k d g" "a + b + u < 2 ^ 30" "ps ! t = RWIdle \<Longrightarrow> a + b + u + 1 < 2 ^ 30"
    "\<And>Q. Q (ps ! t) \<Longrightarrow> 0 < cnt Q ps" "rw_local (ps ! t)"
    "x = 0 \<Longrightarrow> d = 0" "v = 0 \<Longrightarrow> tot rest ps = 0"
    "adding (ps ! t) \<Longrightarrow> d = departing (ps ! t)" "leaving (ps ! t) \<Longrightarrow> tot rest ps = rest (ps ! t)" "d < 2 ^ 30"
proof -
  have l: "length ps < 2 ^ 30" and loc: "rw_local (ps ! t)" and
    c: "rw_counts (cnt (\<lambda>p. p = Reading) ps) (cnt (\<lambda>p. p = RLockSema) ps) (cnt (\<lambda>p. p = RUnlockWait) ps)
      (cnt (\<lambda>p. p = RUnlockSema) ps) (cnt adding ps) (cnt (\<lambda>p. p = WSema) ps) (cnt (\<lambda>p. p = Writing) ps)
      (cnt leaving ps) (unat (readerSem g) + tot rest ps) (tot departing ps) g"
    using assms by (auto simp: rw_inv_def)
  have "x + s + n + v = of_bool z \<Longrightarrow> x \<le> 1 \<and> v \<le> 1" for x s n v :: nat and z by (cases z) auto
  then have one: "cnt adding ps \<le> 1" "cnt leaving ps \<le> 1" using c unfolding rw_counts_def by blast+
  have d: "tot departing ps < 2 ^ 30"
  proof (cases "cnt adding ps = 0")
    case True
    then have "tot departing ps = 0" by (rule tot_0) (rule no_numbers)
    then show ?thesis by simp
  next
    case False
    then obtain i where i: "i < length ps" "adding (ps ! i)" unfolding neq0_conv cnt_pos by blast
    then obtain r where r: "ps ! i = WAdd r" by (cases "ps ! i") auto
    have "tot departing ps = departing (ps ! i)"
      by (rule tot_one [OF one(1) i, where q = RWIdle]) (simp_all add: no_numbers)
    moreover have "rw_local (ps ! i)" using assms(1) i(1) by (simp add: rw_inv_def)
    ultimately show ?thesis using r by (simp add: rw_local_def)
  qed
  have b: "cnt (\<lambda>p. p = Reading) ps + cnt (\<lambda>p. p = RLockSema) ps + cnt (\<lambda>p. p = RUnlockWait) ps + cnt (\<lambda>p. p = RWIdle) ps < 2 ^ 30"
    using rw_count_bounds [of ps] l by linarith
  show thesis
  proof (rule that [OF refl refl refl refl refl refl refl refl refl refl c _ _ cnt_posI [OF assms(2)] loc])
    show "ps ! t = RWIdle \<Longrightarrow>
        cnt (\<lambda>p. p = Reading) ps + cnt (\<lambda>p. p = RLockSema) ps + cnt (\<lambda>p. p = RUnlockWait) ps + 1 < 2 ^ 30"
      using cnt_posI [OF assms(2), of "\<lambda>p. p = RWIdle"] b by simp
    show "adding (ps ! t) \<Longrightarrow> tot departing ps = departing (ps ! t)"
      by (rule tot_one [OF one(1) assms(2), where q = RWIdle]) (simp_all add: no_numbers)
    show "leaving (ps ! t) \<Longrightarrow> tot rest ps = rest (ps ! t)"
      by (rule tot_one [OF one(2) assms(2), where q = RWIdle]) (simp_all add: no_numbers)
  qed (use b d in \<open>auto intro: tot_0 no_numbers\<close>)
qed

lemma counts_values:
  assumes "rw_counts a b u e x s n v k d g"
  shows "readerCount g = word_of_int (int (a + b) - 2 ^ 30 * int (x + s + n))" "x + s + n \<le> 1" "k \<le> b"
    "0 < u \<Longrightarrow> x + s + n = 1 \<and> n = 0" "x + s + n = 1 \<Longrightarrow> readerWait g = word_of_int (int (a + k + u) - int d)"
    "x = 1 \<Longrightarrow> a + k + u \<le> d"
  using assms by (cases "w_locked g"; fastforce simp: rw_counts_def)+

text \<open>Readers.\<close>

lemma rw_inv_RWIdle:
  assumes "rw_inv ps g" "t < length ps" "(q, g') \<in> set (rw_moves (ps ! t) g)" "ps ! t = RWIdle"
  shows "rw_inv (ps[t := q]) g'"
  using assms(1,2)
proof (cases rule: rw_inv_cases)
  case (1 a b u e x s n v k d)
  note step = rw_inv_step [OF assms(1,2)] and c = 1(11)
  show ?thesis
  proof (cases "q = WLock")
    case True
    then have "g' = g" using assms(3,4) by (auto simp: Let_def split: if_splits)
    then show ?thesis using True c assms(4) 1(1-10) by (intro step) (auto simp: rw_local_def)
  next
    case False
    define w where "w = int (a + b) - 2 ^ 30 * int (x + s + n) + 1"
    note xsn = counts_values(2) [OF c]
    have w: "readerCount g + 1 = word_of_int w" using counts_values(1) [OF c] by (simp add: w_def)
    have "readerCount g + 1 <s 0 \<longleftrightarrow> w < 0" unfolding w using 1(13) assms(4) xsn by (intro small_word) (auto simp: w_def)
    also have "\<dots> \<longleftrightarrow> x + s + n \<noteq> 0" using 1(13) assms(4) xsn by (auto simp: w_def)
    finally have "q = (if x + s + n = 0 then Reading else RLockSema)" "g' = g\<lparr>readerCount := readerCount g + 1\<rparr>"
      using assms(3,4) False by (auto simp: Let_def)
    then show ?thesis using counts_RLock [OF c] assms(4) 1(1-10) by (intro step) (auto simp: rw_local_def)
  qed
qed

lemma rw_inv_RLockSema:
  assumes "rw_inv ps g" "t < length ps" "(q, g') \<in> set (rw_moves (ps ! t) g)" "ps ! t = RLockSema"
  shows "rw_inv (ps[t := q]) g'"
  using assms(1,2)
proof (cases rule: rw_inv_cases)
  case (1 a b u e x s n v k d)
  have z: "readerSem g > 0" and q: "q = Reading" "g' = g\<lparr>readerSem := readerSem g - 1\<rparr>"
    using assms(3,4) by (simp_all split: if_splits)
  then have "0 < unat (readerSem g)" "unat (readerSem g - 1) = unat (readerSem g) - 1"
    by (simp_all add: unat_minus_one unat_gt_0)
  then show ?thesis using counts_RLockSema [OF 1(11), of "readerSem g - 1"] assms(4) q 1(1-10)
    by (intro rw_inv_step [OF assms(1,2)]) (auto simp: rw_local_def)
qed

lemma rw_inv_Reading:
  assumes "rw_inv ps g" "t < length ps" "(q, g') \<in> set (rw_moves (ps ! t) g)" "ps ! t = Reading"
  shows "rw_inv (ps[t := q]) g'"
  using assms(1,2)
proof (cases rule: rw_inv_cases)
  case (1 a b u e x s n v k d)
  note c = 1(11)
  have a: "0 < a" using 1(1) 1(14) [of "\<lambda>p. p = Reading"] assms(4) by simp
  define w where "w = int (a + b) - 2 ^ 30 * int (x + s + n)"
  note xsn = counts_values(2) [OF c]
  have w: "readerCount g = word_of_int w" "readerCount g - 1 = word_of_int (w - 1)" 
    "word_of_int w + rwmutexMaxReaders = word_of_int (w + 2 ^ 30)"
    using counts_values(1) [OF c] by (simp_all add: w_def rwmutexMaxReaders_def)
  have "readerCount g - 1 <s 0 \<longleftrightarrow> w - 1 < 0" unfolding w(2) using 1(12) xsn by (intro small_word) (auto simp: w_def)
  also have "\<dots> \<longleftrightarrow> x + s + n \<noteq> 0" using 1(12) xsn a by (auto simp: w_def)
  finally have lt: "readerCount g - 1 <s 0 \<longleftrightarrow> x + s + n \<noteq> 0" .
  have "readerCount g \<noteq> 0 \<and> readerCount g + rwmutexMaxReaders \<noteq> 0" if "x + s + n \<noteq> 0"
    unfolding w(1,3) using 1(12) xsn a that by (subst (1 2) small_word(2)) (auto simp: w_def)
  then have "readerCount g \<noteq> 0 \<and> readerCount g \<noteq> - rwmutexMaxReaders" if "x + s + n \<noteq> 0"
    using that by auto
  then have "q = (if x + s + n = 0 then RWIdle else RUnlockWait)" "g' = g\<lparr>readerCount := readerCount g - 1\<rparr>"
    using assms(3,4) lt by (auto simp: Let_def)
  then show ?thesis using counts_Reading [OF c a] assms(4) 1(1-10)
    by (intro rw_inv_step [OF assms(1,2)]) (auto simp: rw_local_def)
qed

lemma rw_inv_RUnlockWait:
  assumes "rw_inv ps g" "t < length ps" "(q, g') \<in> set (rw_moves (ps ! t) g)" "ps ! t = RUnlockWait"
  shows "rw_inv (ps[t := q]) g'"
  using assms(1,2)
proof (cases rule: rw_inv_cases)
  case (1 a b u e x s n v k d)
  note c = 1(11)
  have u: "0 < u" using 1(3) 1(14) [of "\<lambda>p. p = RUnlockWait"] assms(4) by simp
  have xs: "x + s = 1" "n = 0" using counts_values(4) [OF c u] by auto
  have d: "s = 0 \<or> d = 0" using xs 1(16) by (cases "x = 0") auto
  have w: "readerWait g - 1 = word_of_int (int (a + k + u) - int d - 1)" using counts_values(5) [OF c] xs by simp
  have "readerWait g - 1 = 0 \<longleftrightarrow> int (a + k + u) - int d - 1 = 0"
    unfolding w using 1(12) counts_values(3) [OF c] 1(20) by (intro small_word) auto
  also have "\<dots> \<longleftrightarrow> s = 1 \<and> a + k + u = 1" using xs d counts_values(6) [OF c] by (cases "x = 1") auto
  finally have "q = (if s = 1 \<and> a + k + u = 1 then RUnlockSema else RWIdle)" "g' = g\<lparr>readerWait := readerWait g - 1\<rparr>"
    using assms(3,4) by (auto simp: Let_def)
  then show ?thesis using counts_RUnlockWait [OF c u d] assms(4) 1(1-10)
    by (intro rw_inv_step [OF assms(1,2)]) (auto simp: rw_local_def)
qed

lemma rw_inv_RUnlockSema:
  assumes "rw_inv ps g" "t < length ps" "(q, g') \<in> set (rw_moves (ps ! t) g)" "ps ! t = RUnlockSema"
  shows "rw_inv (ps[t := q]) g'"
  using assms(1,2)
proof (cases rule: rw_inv_cases)
  case (1 a b u e x s n v k d)
  have e: "0 < e" using 1(4) 1(14) [of "\<lambda>p. p = RUnlockSema"] assms(4) by simp
  have "q = RWIdle" "g' = g\<lparr>writerSem := writerSem g + 1\<rparr>" using assms(3,4) by simp_all
  then show ?thesis using counts_RUnlockSema [OF 1(11) e] assms(4) 1(1-10)
    by (intro rw_inv_step [OF assms(1,2)]) (auto simp: rw_local_def)
qed

text \<open>Writers.\<close>

lemma rw_inv_WLock:
  assumes "rw_inv ps g" "t < length ps" "(q, g') \<in> set (rw_moves (ps ! t) g)" "ps ! t = WLock"
  shows "rw_inv (ps[t := q]) g'"
  using assms(1,2)
proof (cases rule: rw_inv_cases)
  case (1 a b u e x s n v k d)
  have "\<not> w_locked g" "q = WAnnounce" "g' = g\<lparr>w_locked := True\<rparr>" using assms(3,4) by (simp_all split: if_splits)
  then show ?thesis using counts_WLock [OF 1(11)] assms(4) 1(1-10)
    by (intro rw_inv_step [OF assms(1,2)]) (auto simp: rw_local_def)
qed

lemma rw_inv_WAnnounce:
  assumes "rw_inv ps g" "t < length ps" "(q, g') \<in> set (rw_moves (ps ! t) g)" "ps ! t = WAnnounce"
  shows "rw_inv (ps[t := q]) g'"
  using assms(1,2)
proof (cases rule: rw_inv_cases)
  case (1 a b u e x s n v k d)
  note c = 1(11)
  have v: "0 < v" using 1(8) 1(14) [of leaving] assms(4) by simp
  have d: "d = 0" using counts_one(4) [OF c v] 1(16) by simp
  note cs = counts_WAnnounce [OF c v d]
  have z: "readerCount g = 0 \<longleftrightarrow> a + b = 0" unfolding cs(3) using 1(12) by (subst small_word(2)) auto
  have r: "unat (readerCount g) = a + b" unfolding cs(3) using 1(12) by (simp add: unat_of_nat del: of_nat_add)
  have "q = (if a + b \<noteq> 0 then WAdd (readerCount g) else Writing)" "g' = g\<lparr>readerCount := readerCount g - rwmutexMaxReaders\<rparr>"
    using assms(3,4) z by (auto simp: Let_def)
  then show ?thesis using cs(1,2) assms(4) 1(1-10) d r 1(12)
    by (intro rw_inv_step [OF assms(1,2)]) (auto simp: rw_local_def)
qed

lemma rw_inv_WAdd:
  assumes "rw_inv ps g" "t < length ps" "(q, g') \<in> set (rw_moves (ps ! t) g)" "ps ! t = WAdd r"
  shows "rw_inv (ps[t := q]) g'"
  using assms(1,2)
proof (cases rule: rw_inv_cases)
  case (1 a b u e x s n v k d)
  note c = 1(11)
  have x: "0 < x" using 1(5) 1(14) [of adding] assms(4) by simp
  have d: "d = unat r" using 1(18) assms(4) by simp
  then have r: "r = of_nat d" by simp
  note cs = counts_WAdd [OF c x r]
  have "readerWait g + r = 0 \<longleftrightarrow> a + k + u = 0"
    unfolding cs(3) using 1(12) counts_values(3) [OF c] by (subst small_word(2)) auto
  then have "q = (if a + k + u \<noteq> 0 then WSema else Writing)" "g' = g\<lparr>readerWait := readerWait g + r\<rparr>"
    using assms(3,4) by (auto simp: Let_def)
  then show ?thesis using cs(1,2) assms(4) 1(1-10) d
    by (intro rw_inv_step [OF assms(1,2)]) (auto simp: rw_local_def)
qed

lemma rw_inv_WSema:
  assumes "rw_inv ps g" "t < length ps" "(q, g') \<in> set (rw_moves (ps ! t) g)" "ps ! t = WSema"
  shows "rw_inv (ps[t := q]) g'"
  using assms(1,2)
proof (cases rule: rw_inv_cases)
  case (1 a b u e x s n v k d)
  have s: "0 < s" using 1(6) 1(14) [of "\<lambda>p. p = WSema"] assms(4) by simp
  have d: "d = 0" using counts_one(2) [OF 1(11) s] 1(16) by simp
  have "0 < writerSem g" "q = Writing" "g' = g\<lparr>writerSem := writerSem g - 1\<rparr>" using assms(3,4) by (simp_all split: if_splits)
  then show ?thesis using counts_WSema [OF 1(11) _ d] assms(4) 1(1-10)
    by (intro rw_inv_step [OF assms(1,2)]) (auto simp: rw_local_def)
qed

lemma rw_inv_Writing:
  assumes "rw_inv ps g" "t < length ps" "(q, g') \<in> set (rw_moves (ps ! t) g)" "ps ! t = Writing"
  shows "rw_inv (ps[t := q]) g'"
  using assms(1,2)
proof (cases rule: rw_inv_cases)
  case (1 a b u e x s n v k d)
  note c = 1(11)
  have n: "0 < n" using 1(7) 1(14) [of "\<lambda>p. p = Writing"] assms(4) by simp
  have n1: "n = 1" "x = 0" "v = 0" using counts_one(3) [OF c n] by auto
  have d: "d = 0" using n1 1(16) by simp
  have k: "k = 0" "tot rest ps = 0" using c n1 1(17) by (auto simp: rw_counts_def)
  note cs = counts_Writing [OF c n d]
  have r: "unat (readerCount g + rwmutexMaxReaders) = b" unfolding cs(2) using 1(12) by (simp add: unat_of_nat)
  have "\<not> rwmutexMaxReaders \<le>s readerCount g + rwmutexMaxReaders"
    using r 1(12) by (subst sle_small) (simp_all add: rwmutexMaxReaders_def)
  then have "q = WRelease 0 (readerCount g + rwmutexMaxReaders)" "g' = g\<lparr>readerCount := readerCount g + rwmutexMaxReaders\<rparr>"
    using assms(3,4) by (auto simp: Let_def)
  then show ?thesis using cs(1) assms(4) 1(1-10) d r k 1(12)
    by (intro rw_inv_step [OF assms(1,2)]) (auto simp: rw_local_def)
qed

lemma rw_inv_WRelease:
  assumes "rw_inv ps g" "t < length ps" "(q, g') \<in> set (rw_moves (ps ! t) g)" "ps ! t = WRelease i r"
  shows "rw_inv (ps[t := q]) g'"
  using assms(1,2)
proof (cases rule: rw_inv_cases)
  case (1 a b u e x s n v k d)
  note c = 1(11)
  have l: "unat i \<le> unat r" "unat r < 2 ^ 30" using 1(15) assms(4) by (auto simp: rw_local_def)
  have lt: "i <s r \<longleftrightarrow> unat i < unat r" using l by (subst sless_small) simp_all
  have rest: "tot rest ps = unat r - unat i" using 1(19) assms(4) by simp
  show ?thesis
  proof (cases "unat i < unat r")
    case True
    then have q: "q = WRelease (i + 1) r" "g' = g\<lparr>readerSem := readerSem g + 1\<rparr>" using assms(3,4) lt by simp_all
    have i: "unat (i + 1) = unat i + 1" using True l by (simp add: unat_word_ariths)
    have "k < 2 ^ 30" using counts_values(3) [OF c] 1(12) by linarith
    then have rs: "unat (readerSem g + 1) = unat (readerSem g) + 1" using 1(9) by (simp add: unat_word_ariths)
    have "rw_counts a b u e x s n v k d (g\<lparr>readerSem := readerSem g + 1\<rparr>)" using c by (simp add: rw_counts_def)
    moreover have "Suc (unat (readerSem g) + unat r - Suc (unat i)) = unat (readerSem g) + unat r - unat i" using True by simp
    ultimately show ?thesis using q assms(4) 1(1-10) l i rs rest True
      by (intro rw_inv_step [OF assms(1,2)]) (auto simp: rw_local_def)
  next
    case False
    then have q: "q = WUnlock" "g' = g" using assms(3,4) lt by simp_all
    then show ?thesis using c assms(4) 1(1-10) rest False
      by (intro rw_inv_step [OF assms(1,2)]) (auto simp: rw_local_def)
  qed
qed

lemma rw_inv_WUnlock:
  assumes "rw_inv ps g" "t < length ps" "(q, g') \<in> set (rw_moves (ps ! t) g)" "ps ! t = WUnlock"
  shows "rw_inv (ps[t := q]) g'"
  using assms(1,2)
proof (cases rule: rw_inv_cases)
  case (1 a b u e x s n v k d)
  have v: "0 < v" using 1(8) 1(14) [of leaving] assms(4) by simp
  have "q = RWIdle" "g' = g\<lparr>w_locked := False\<rparr>" using assms(3,4) by simp_all
  then show ?thesis using counts_WUnlock [OF 1(11) v] assms(4) 1(1-10)
    by (intro rw_inv_step [OF assms(1,2)]) (auto simp: rw_local_def)
qed

lemma rw_inv_move:
  assumes "rw_inv ps g" "t < length ps" "(q, g') \<in> set (rw_moves (ps ! t) g)"
  shows "rw_inv (ps[t := q]) g'"
  using rw_inv_RWIdle [OF assms] rw_inv_RLockSema [OF assms] rw_inv_Reading [OF assms] rw_inv_RUnlockWait [OF assms]
    rw_inv_RUnlockSema [OF assms] rw_inv_WLock [OF assms] rw_inv_WAnnounce [OF assms] rw_inv_WAdd [OF assms]
    rw_inv_WSema [OF assms] rw_inv_Writing [OF assms] rw_inv_WRelease [OF assms] rw_inv_WUnlock [OF assms] assms(3)
  by (cases "ps ! t") simp_all

interpretation rw: pool_invariant rw_moves rw_init rw_inv
  by unfold_locales (rule rw_inv_init rw_inv_move; assumption)+

section \<open>Properties\<close>

lemma rw_reach_inv:
  assumes "pool_reach rw_moves (replicate n RWIdle, zero_rwmutex) (ps, g)" "n < 2 ^ 30"
  shows "rw_inv ps g" "length ps = n"
  using rw.reach_inv [OF assms(1)] assms(2) pool_reach_length [OF assms(1)] by (simp_all add: rw_init_def)

text \<open>Two goroutines read while a writer waits for them; the second reader has just come back.\<close>

lemma rw_example:
  "pool_reach rw_moves (replicate 3 RWIdle, zero_rwmutex) ([Reading, WSema, RLockSema],
    \<lparr>w_locked = True, writerSem = 0, readerSem = 0, readerCount = 2 - 2 ^ 30, readerWait = 1\<rparr>)"
  by (rule pool_run_reachable [where sch = "[(0, 0), (1, 1), (1, 0), (1, 0), (1, 0), (2, 0)]"])
    (simp add: numeral_3_eq_3 zero_rwmutex_def rwmutexMaxReaders_def Let_def word_sless_alt)

text \<open>C9: \<open>sync.RWMutex\<close> excludes: under every interleaving of the atomic steps of fewer than \<open>2 ^ 30\<close> goroutines that
lock and unlock in pairs, no \<open>Unlock\<close> or \<open>RUnlock\<close> ever panics, and while one goroutine writes no other one reads or
writes.\<close>

theorem rwmutex_excludes:
  assumes "pool_reach rw_moves (replicate n RWIdle, zero_rwmutex) (ps, g)" "n < 2 ^ 30"
  shows "RWPanic \<notin> set ps \<and>
    (\<forall>t u. t < n \<and> u < n \<and> t \<noteq> u \<and> ps ! t = Writing \<longrightarrow> ps ! u \<noteq> Writing \<and> ps ! u \<noteq> Reading)"
proof -
  have inv: "rw_inv ps g" and l: "length ps = n" using rw_reach_inv [OF assms] by blast+
  have "ps ! u \<noteq> Writing \<and> ps ! u \<noteq> Reading" if tu: "t < n" "u < n" "t \<noteq> u" "ps ! t = Writing" for t u
  proof -
    have t: "t < length ps" using l tu(1) by simp
    from inv t show ?thesis
    proof (cases rule: rw_inv_cases)
      case (1 a b u' e x s n' v k d)
      have "0 < n'" using 1(7) 1(14) [of "\<lambda>p. p = Writing"] tu(4) by simp
      then have "n' = 1" using counts_one(3) [OF 1(11)] by blast
      then have "a = 0" using 1(11) by (simp add: rw_counts_def)
      then have "ps ! u \<noteq> Reading" using 1(1) cnt_posI [of u ps "\<lambda>p. p = Reading"] l tu(2) by auto
      moreover have "ps ! u \<noteq> Writing"
        using cnt_unique [of "\<lambda>p. p = Writing" ps t u] 1(7) \<open>n' = 1\<close> tu l by auto
      ultimately show ?thesis by blast
    qed
  qed
  moreover have "RWPanic \<notin> set ps" using inv by (auto simp: rw_inv_def rw_local_def)
  ultimately show ?thesis by blast
qed

theorem rwmutex_excludes_witness:
  "pool_reach rw_moves (replicate 2 RWIdle, zero_rwmutex) ([Writing, RLockSema],
      \<lparr>w_locked = True, writerSem = 0, readerSem = 0, readerCount = 1 - 2 ^ 30, readerWait = 0\<rparr>) \<and>
    RWPanic \<notin> {Writing, RLockSema}"
proof -
  have r: "pool_reach rw_moves (replicate 2 RWIdle, zero_rwmutex) ([Writing, RLockSema],
      \<lparr>w_locked = True, writerSem = 0, readerSem = 0, readerCount = 1 - 2 ^ 30, readerWait = 0\<rparr>)"
    by (rule pool_run_reachable [where sch = "[(0, 1), (0, 0), (0, 0), (1, 0)]"])
      (simp add: numeral_2_eq_2 zero_rwmutex_def rwmutexMaxReaders_def Let_def word_sless_alt)
  then show ?thesis using rwmutex_excludes [OF r] by simp
qed

text \<open>C21: \<open>sync.RWMutex\<close> loses no wake-up: whenever a goroutine is blocked, at the readers' semaphore, at the writer's
semaphore or at the lock of the writers, some goroutine reads or writes or can go on inside one of the four
operations.\<close>

theorem rwmutex_no_lost_wakeup:
  assumes "pool_reach rw_moves (replicate n RWIdle, zero_rwmutex) (ps, g)" "n < 2 ^ 30"
    and "RLockSema \<in> set ps \<or> WSema \<in> set ps \<or> WLock \<in> set ps"
  shows "\<exists>p \<in> set ps. p \<noteq> RWIdle \<and> rw_moves p g \<noteq> []"
proof -
  have inv: "rw_inv ps g" using rw_reach_inv [OF assms(1,2)] by blast
  obtain t where t: "t < length ps" "ps ! t = RLockSema \<or> ps ! t = WSema \<or> ps ! t = WLock"
    using assms(3) by (metis in_set_conv_nth)
  have go: ?thesis if "0 < cnt Q ps" "\<And>p. Q p \<Longrightarrow> p \<noteq> RWIdle \<and> rw_moves p g \<noteq> []" for Q
    using that unfolding cnt_pos by (metis nth_mem)
  from inv t(1) show ?thesis
  proof (cases rule: rw_inv_cases)
    case (1 a b u e x s n' v k d)
    note c = 1(11)
    have ad: "adding p \<Longrightarrow> p \<noteq> RWIdle \<and> rw_moves p g \<noteq> []" for p by (cases p) (auto simp: Let_def)
    have lv: "leaving p \<Longrightarrow> p \<noteq> RWIdle \<and> rw_moves p g \<noteq> []" for p by (cases p) (auto simp: Let_def)
    have "0 < readerSem g \<Longrightarrow> 0 < b \<Longrightarrow> ?thesis" unfolding 1(2) by (rule go [of "\<lambda>p. p = RLockSema"]) auto
    moreover have "0 < a \<Longrightarrow> ?thesis" unfolding 1(1) by (rule go [of "\<lambda>p. p = Reading"]) (auto simp: Let_def)
    moreover have "0 < u \<Longrightarrow> ?thesis" unfolding 1(3) by (rule go [of "\<lambda>p. p = RUnlockWait"]) (auto simp: Let_def)
    moreover have "0 < e \<Longrightarrow> ?thesis" unfolding 1(4) by (rule go [of "\<lambda>p. p = RUnlockSema"]) auto
    moreover have "0 < x \<Longrightarrow> ?thesis" unfolding 1(5) using go [of adding] ad by blast
    moreover have "0 < s \<Longrightarrow> 0 < writerSem g \<Longrightarrow> ?thesis" unfolding 1(6) by (rule go [of "\<lambda>p. p = WSema"]) auto
    moreover have "0 < n' \<Longrightarrow> ?thesis" unfolding 1(7) by (rule go [of "\<lambda>p. p = Writing"]) (auto simp: Let_def)
    moreover have "0 < v \<Longrightarrow> ?thesis" unfolding 1(8) using go [of leaving] lv by blast
    moreover have "ps ! t = WLock \<Longrightarrow> \<not> w_locked g \<Longrightarrow> ?thesis" using t(1) by (intro go [of "\<lambda>p. p = WLock"]) (auto intro: cnt_posI)
    moreover have "0 < a \<or> 0 < u \<or> 0 < e \<or> 0 < x \<or> 0 < n' \<or> 0 < v \<or> (0 < readerSem g \<and> 0 < b) \<or> (0 < s \<and> 0 < writerSem g) \<or>
        (ps ! t = WLock \<and> \<not> w_locked g)"
    proof (rule ccontr)
      assume "\<not> ?thesis"
      then have z: "a = 0" "u = 0" "e = 0" "x = 0" "n' = 0" "v = 0" "readerSem g = 0 \<or> b = 0" "s = 0 \<or> writerSem g = 0"
        "ps ! t = WLock \<Longrightarrow> w_locked g" by (auto simp: word_gt_0)
      then have k: "k = unat (readerSem g)" "k = 0" using 1(9,17) counts_values(3) [OF c] by auto
      have "s = 0" using z k c by (auto simp: rw_counts_def)
      then have "b = 0" "\<not> w_locked g" using z k c by (auto simp: rw_counts_def of_bool_def split: if_splits)
      then show False using z \<open>s = 0\<close> t 1(2,6) cnt_posI [OF t(1), of "\<lambda>p. p = RLockSema"] cnt_posI [OF t(1), of "\<lambda>p. p = WSema"] by auto
    qed
    ultimately show ?thesis by blast
  qed
qed

theorem rwmutex_no_lost_wakeup_witness:
  "\<exists>p \<in> {Reading, WSema, RLockSema}. p \<noteq> RWIdle \<and> rw_moves p
    \<lparr>w_locked = True, writerSem = 0, readerSem = 0, readerCount = 2 - 2 ^ 30, readerWait = 1\<rparr> \<noteq> []"
  using rwmutex_no_lost_wakeup [OF rw_example] by simp

end
