(* ===== verification/Once.thy ===== *)
theory Once
  imports Mutex
begin

text \<open>
  \<open>sync.Once\<close> (\<open>sync/once.go\<close>) under every interleaving of its callers. The embedded \<open>Mutex\<close> is the lock that
  \<open>sync.Mutex\<close> refines. The deferred calls run in reverse order, also when the function panics. The ghost
  fields count how often the function has been started and how often it has ended.
\<close>

section \<open>Definitions\<close>

record once =
  m_locked :: bool
  once_done :: u32
  f_started :: nat
  f_ended :: nat

datatype opc = OCall | OLock | OCheck | ORun | OStore | OUnlock | OReturned

fun once_moves :: "(opc, once) moves" where
  "once_moves OCall g = [(if once_done g = 1 then OReturned else OLock, g)]"
| "once_moves OLock g = (if m_locked g then [] else [(OCheck, g\<lparr>m_locked := True\<rparr>)])"
| "once_moves OCheck g = (if once_done g = 0 then [(ORun, g\<lparr>f_started := f_started g + 1\<rparr>)] else [(OUnlock, g)])"
| "once_moves ORun g = [(OStore, g\<lparr>f_ended := f_ended g + 1\<rparr>)]"
| "once_moves OStore g = [(OUnlock, g\<lparr>once_done := 1\<rparr>)]"
| "once_moves OUnlock g = [(OReturned, g\<lparr>m_locked := False\<rparr>)]"
| "once_moves OReturned g = [(OCall, g)]"

definition zero_once :: once where
  "zero_once = \<lparr>m_locked = False, once_done = 0, f_started = 0, f_ended = 0\<rparr>"

section \<open>The invariant\<close>

definition in_once :: "opc \<Rightarrow> bool" where "in_once p \<longleftrightarrow> p = OCheck \<or> p = ORun \<or> p = OStore \<or> p = OUnlock"

text \<open>
  \<open>i\<close> goroutines hold the lock, \<open>r\<close> run the function, \<open>s\<close> have run it, \<open>z\<close> have seen that it was done.
\<close>

definition once_counts :: "nat \<Rightarrow> nat \<Rightarrow> nat \<Rightarrow> nat \<Rightarrow> once \<Rightarrow> bool" where
  "once_counts i r s z g \<longleftrightarrow> i = of_bool (m_locked g) \<and> (once_done g = 0 \<or> once_done g = 1) \<and>
    f_started g = r + s + of_bool (once_done g = 1) \<and> f_ended g + r = f_started g \<and>
    (once_done g = 1 \<longrightarrow> r = 0 \<and> s = 0) \<and> (0 < z \<longrightarrow> once_done g = 1)"

definition once_inv :: "opc list \<Rightarrow> once \<Rightarrow> bool" where
  "once_inv ps g \<longleftrightarrow> once_counts (cnt in_once ps) (cnt (\<lambda>p. p = ORun) ps) (cnt (\<lambda>p. p = OStore) ps)
    (cnt (\<lambda>p. p = OReturned \<or> p = OUnlock) ps) g"

lemma once_inv_init: "set ps \<subseteq> {OCall} \<and> g = zero_once \<Longrightarrow> once_inv ps g"
proof -
  assume a: "set ps \<subseteq> {OCall} \<and> g = zero_once"
  have z: "cnt Q ps = 0" if "\<not> Q OCall" for Q using a that by (intro cnt_0) auto
  show ?thesis using a by (simp add: once_inv_def once_counts_def zero_once_def z in_once_def)
qed

lemma once_holders: "cnt (\<lambda>p. p = ORun) ps + cnt (\<lambda>p. p = OStore) ps + cnt (\<lambda>p. p = OCheck) ps \<le> cnt in_once ps"
  unfolding in_once_def by (induction ps) (auto simp: cnt_def)

lemma once_one: "once_counts i r s z g \<Longrightarrow> i \<le> 1"
  by (cases "m_locked g") (simp_all add: once_counts_def)

lemma once_inv_move:
  assumes "once_inv ps g" "t < length ps" "(q, g') \<in> set (once_moves (ps ! t) g)"
  shows "once_inv (ps[t := q]) g'"
proof -
  obtain i r s z where d: "i = cnt in_once ps" "r = cnt (\<lambda>p. p = ORun) ps" "s = cnt (\<lambda>p. p = OStore) ps"
    "z = cnt (\<lambda>p. p = OReturned \<or> p = OUnlock) ps" by blast
  have c: "once_counts i r s z g" using assms(1) by (simp add: once_inv_def d)
  have pos: "in_once (ps ! t) \<Longrightarrow> 0 < i" "ps ! t = ORun \<Longrightarrow> 0 < r" "ps ! t = OStore \<Longrightarrow> 0 < s"
      "ps ! t = OReturned \<or> ps ! t = OUnlock \<Longrightarrow> 0 < z"
    unfolding d by (auto intro: cnt_posI [OF assms(2)])
  have chk: "ps ! t = OCheck \<Longrightarrow> r = 0 \<and> s = 0"
    using once_holders [of ps] once_one [OF c] cnt_posI [OF assms(2), of "\<lambda>p. p = OCheck"] unfolding d by auto
  have rs: "r + s \<le> 1" using once_holders [of ps] once_one [OF c] unfolding d by auto
  have "once_counts (i + of_bool (in_once q) - of_bool (in_once (ps ! t))) (r + of_bool (q = ORun) - of_bool (ps ! t = ORun))
      (s + of_bool (q = OStore) - of_bool (ps ! t = OStore))
      (z + of_bool (q = OReturned \<or> q = OUnlock) - of_bool (ps ! t = OReturned \<or> ps ! t = OUnlock)) g'"
    using c assms(3) pos chk rs
    by (cases "ps ! t") (auto simp: once_counts_def in_once_def split: if_splits)
  then show ?thesis by (simp add: once_inv_def cnt_move [OF assms(2)] d)
qed

interpretation on: pool_invariant once_moves "\<lambda>ps g. set ps \<subseteq> {OCall} \<and> g = zero_once" once_inv
  by unfold_locales (rule once_inv_init once_inv_move; assumption)+

section \<open>Properties\<close>

text \<open>C22: \<open>sync.Once\<close>: under every interleaving of any number of calls of \<open>Do\<close> the function is started at most once,
and when a call has returned the function has been run to its end; no call blocks unless another one is inside.\<close>

theorem once_runs_once:
  assumes "pool_reach once_moves (replicate n OCall, zero_once) (ps, g)"
  shows "f_started g \<le> 1 \<and> (OReturned \<in> set ps \<longrightarrow> f_started g = 1 \<and> f_ended g = 1) \<and>
    (OLock \<in> set ps \<longrightarrow> (\<exists>p \<in> set ps. p \<noteq> OCall \<and> p \<noteq> OReturned \<and> once_moves p g \<noteq> []))"
proof -
  have inv: "once_inv ps g" by (rule on.reach_inv [OF assms]) auto
  have "f_started g \<le> 1"
    using inv once_holders [of ps] once_one [of "cnt in_once ps"] unfolding once_inv_def by (fastforce simp: once_counts_def)
  moreover have "f_started g = 1 \<and> f_ended g = 1" if "OReturned \<in> set ps"
  proof -
    have "0 < cnt (\<lambda>p. p = OReturned \<or> p = OUnlock) ps" using that by (auto simp: cnt_pos in_set_conv_nth)
    then show ?thesis using inv by (auto simp: once_inv_def once_counts_def)
  qed
  moreover have "\<exists>p \<in> set ps. p \<noteq> OCall \<and> p \<noteq> OReturned \<and> once_moves p g \<noteq> []" if "OLock \<in> set ps"
  proof (cases "m_locked g")
    case True
    then have "0 < cnt in_once ps" using inv by (simp add: once_inv_def once_counts_def)
    then obtain u where "u < length ps" "in_once (ps ! u)" unfolding cnt_pos by blast
    then show ?thesis by (intro bexI [of _ "ps ! u"]) (auto simp: in_once_def split: if_splits)
  next
    case False
    then show ?thesis using that by (intro bexI [of _ OLock]) auto
  qed
  ultimately show ?thesis by blast
qed

theorem once_runs_once_witness:
  "OReturned \<in> set [OReturned, OLock] \<and> f_started \<lparr>m_locked = False, once_done = 1, f_started = 1, f_ended = 1\<rparr> \<le> 1"
proof -
  have r: "pool_reach once_moves (replicate 2 OCall, zero_once)
      ([OReturned, OLock], \<lparr>m_locked = False, once_done = 1, f_started = 1, f_ended = 1\<rparr>)"
    by (rule pool_run_reachable [where sch = "[(1, 0), (0, 0), (0, 0), (0, 0), (0, 0), (0, 0), (0, 0)]"])
      (simp add: numeral_2_eq_2 zero_once_def)
  show ?thesis using once_runs_once [OF r] by simp
qed

end
