(* ===== verification/Channel.thy ===== *)
theory Channel
  imports Prelude
begin

text \<open>
  Channels (\<open>runtime/chan.go\<close>): one channel and the goroutines that send to it, receive from it and close it. The
  code under the channel's lock is one step, and so is every access outside of it: the two reads of the
  non-blocking fast paths, the hand-over of a value to or from a parked goroutine after the lock has been
  released, and what a goroutine does when it is woken. A goroutine runs a list of calls. \<open>select\<close>, the only user
  of \<open>selectdone\<close>, is not modelled, the channel is not nil, and received values are not ignored.
\<close>

section \<open>Definitions\<close>

text \<open>
  An element slot holds a value or, as \<open>None\<close>, the zero value. A waiting goroutine is in a queue with its number
  and, for a sender on a channel without a buffer, the value it points to.
\<close>

record 'v sudog =
  sg_g :: nat
  sg_elem :: "'v option"

record 'v hchan =
  qcount :: nat
  dataqsiz :: nat
  buf :: "'v option list"
  sendx :: nat
  recvx :: nat
  closed :: bool
  recvq :: "'v sudog list"
  sendq :: "'v sudog list"

datatype 'v call = Send 'v bool | Recv bool | Close

text \<open>
  The points of the code: the fast paths, the sections under the lock, parked goroutines (without and with a
  buffer), goroutines that have to wake another one, and results.
\<close>

datatype 'v cpc =
  CIdle
| SendFast 'v
| SendFast2 'v
| SendLock 'v bool
| SendParked 'v
| SendWait 'v
| SendHand nat 'v
| SendReady nat 'v
| Sent bool 'v
| RecvFast
| RecvFast2
| RecvLock bool
| RecvParked
| RecvWait
| RecvHand nat "'v option"
| RecvReady nat
| RecvLate
| Received bool bool
| CloseLock
| CClosed
| CPanic
| CThrow

text \<open>
  The goroutines: whether one is parked, \<open>g.param\<close> (nil or not), the variable it receives into, its next calls and
  its point. The two logs are ghosts: the values sent and received with the goroutine, in the order in which they
  pass through the channel.
\<close>

record 'v sys = "'v hchan" +
  parked :: "nat \<Rightarrow> bool"
  param :: "nat \<Rightarrow> bool"
  slot :: "nat \<Rightarrow> 'v option"
  calls :: "nat \<Rightarrow> 'v call list"
  pc :: "nat \<Rightarrow> 'v cpc"
  slog :: "(nat \<times> 'v option) list"
  dlog :: "(nat \<times> 'v option) list"

definition goto :: "nat \<Rightarrow> 'v cpc \<Rightarrow> 'v sys \<Rightarrow> 'v sys" where
  "goto i p s = s\<lparr>pc := (pc s)(i := p)\<rparr>"

definition goready :: "nat \<Rightarrow> 'v sys \<Rightarrow> 'v sys" where
  "goready g s = s\<lparr>parked := (parked s)(g := False)\<rparr>"

definition gopark :: "nat \<Rightarrow> 'v cpc \<Rightarrow> 'v sys \<Rightarrow> 'v sys" where
  "gopark i p s = s\<lparr>parked := (parked s)(i := True), pc := (pc s)(i := p)\<rparr>"

definition set_param :: "nat \<Rightarrow> bool \<Rightarrow> 'v sys \<Rightarrow> 'v sys" where
  "set_param g b s = s\<lparr>param := (param s)(g := b)\<rparr>"

definition set_slot :: "nat \<Rightarrow> 'v option \<Rightarrow> 'v sys \<Rightarrow> 'v sys" where
  "set_slot g x s = s\<lparr>slot := (slot s)(g := x)\<rparr>"

definition wrap_index :: "nat \<Rightarrow> nat \<Rightarrow> nat" where
  "wrap_index x n = (if x + 1 = n then 0 else x + 1)"

definition send_locked :: "nat \<Rightarrow> 'v \<Rightarrow> bool \<Rightarrow> 'v sys \<Rightarrow> 'v sys" where
  "send_locked i v block s =
    (if closed s then goto i CPanic s
     else if dataqsiz s = 0 then
       (case recvq s of
          sg # q \<Rightarrow> goto i (SendHand (sg_g sg) v)
            (s\<lparr>recvq := q, slog := slog s @ [(i, Some v)], dlog := dlog s @ [(sg_g sg, Some v)]\<rparr>)
        | [] \<Rightarrow> if \<not> block then goto i (Sent False v) s
            else gopark i (SendParked v) (set_param i False (s\<lparr>sendq := sendq s @ [\<lparr>sg_g = i, sg_elem = Some v\<rparr>]\<rparr>)))
     else if qcount s \<ge> dataqsiz s then
       (if \<not> block then goto i (Sent False v) s
        else gopark i (SendWait v) (s\<lparr>sendq := sendq s @ [\<lparr>sg_g = i, sg_elem = None\<rparr>]\<rparr>))
     else
       let s = s\<lparr>buf := (buf s)[sendx s := Some v], sendx := wrap_index (sendx s) (dataqsiz s),
                 qcount := qcount s + 1, slog := slog s @ [(i, Some v)]\<rparr> in
       case recvq s of
         sg # q \<Rightarrow> goto i (SendReady (sg_g sg) v) (s\<lparr>recvq := q\<rparr>)
       | [] \<Rightarrow> goto i (Sent True v) s)"

definition recvclosed :: "nat \<Rightarrow> 'v sys \<Rightarrow> 'v sys" where
  "recvclosed i s = goto i (Received True False) (set_slot i None s)"

definition recv_locked :: "nat \<Rightarrow> bool \<Rightarrow> 'v sys \<Rightarrow> 'v sys" where
  "recv_locked i block s =
    (if dataqsiz s = 0 then
       (if closed s then recvclosed i s
        else case sendq s of
          sg # q \<Rightarrow> goto i (RecvHand (sg_g sg) (sg_elem sg))
            (s\<lparr>sendq := q, slog := slog s @ [(sg_g sg, sg_elem sg)], dlog := dlog s @ [(i, sg_elem sg)]\<rparr>)
        | [] \<Rightarrow> if \<not> block then goto i (Received False False) s
            else gopark i RecvParked (set_param i False (s\<lparr>recvq := recvq s @ [\<lparr>sg_g = i, sg_elem = None\<rparr>]\<rparr>)))
     else if qcount s = 0 then
       (if closed s then recvclosed i s
        else if \<not> block then goto i (Received False False) s
        else gopark i RecvWait (s\<lparr>recvq := recvq s @ [\<lparr>sg_g = i, sg_elem = None\<rparr>]\<rparr>))
     else
       let x = buf s ! recvx s;
           s = set_slot i x s;
           s = s\<lparr>buf := (buf s)[recvx s := None], recvx := wrap_index (recvx s) (dataqsiz s),
                 qcount := qcount s - 1, dlog := dlog s @ [(i, x)]\<rparr> in
       case sendq s of
         sg # q \<Rightarrow> goto i (RecvReady (sg_g sg)) (s\<lparr>sendq := q\<rparr>)
       | [] \<Rightarrow> goto i (Received True True) s)"

definition release :: "'v sudog list \<Rightarrow> 'v sys \<Rightarrow> 'v sys" where
  "release q s = fold (\<lambda>sg s. goready (sg_g sg) (set_param (sg_g sg) False s)) q s"

definition closechan :: "nat \<Rightarrow> 'v sys \<Rightarrow> 'v sys" where
  "closechan i s =
    (if closed s then goto i CPanic s
     else goto i CClosed (release (sendq s) (release (recvq s) s)\<lparr>closed := True, recvq := [], sendq := []\<rparr>))"

text \<open>The entry of a call: only a non-blocking call tries the fast path.\<close>

fun entry :: "'v call \<Rightarrow> 'v cpc" where
  "entry (Send v block) = (if block then SendLock v True else SendFast v)"
| "entry (Recv block) = (if block then RecvLock True else RecvFast)"
| "entry Close = CloseLock"

definition next_call :: "nat \<Rightarrow> 'v sys \<Rightarrow> 'v sys option" where
  "next_call i s =
    (case calls s i of [] \<Rightarrow> None | c # cs \<Rightarrow> Some (goto i (entry c) (s\<lparr>calls := (calls s)(i := cs)\<rparr>)))"

definition chan_move :: "nat \<Rightarrow> 'v sys \<Rightarrow> 'v sys option" where
  "chan_move i s =
    (case pc s i of
       CIdle \<Rightarrow> next_call i s
     | SendFast v \<Rightarrow> Some (goto i (if \<not> closed s then SendFast2 v else SendLock v False) s)
     | SendFast2 v \<Rightarrow>
         Some (goto i (if dataqsiz s = 0 \<and> recvq s = [] \<or> dataqsiz s > 0 \<and> qcount s = dataqsiz s
                       then Sent False v else SendLock v False) s)
     | SendLock v block \<Rightarrow> Some (send_locked i v block s)
     | SendParked v \<Rightarrow>
         if parked s i then None
         else if \<not> param s i then Some (goto i (if \<not> closed s then CThrow else CPanic) s)
         else Some (goto i (Sent True v) (set_param i False s))
     | SendWait v \<Rightarrow> if parked s i then None else Some (goto i (SendLock v True) s)
     | SendHand g v \<Rightarrow> Some (goto i (Sent True v) (goready g (set_param g True (set_slot g (Some v) s))))
     | SendReady g v \<Rightarrow> Some (goto i (Sent True v) (goready g s))
     | Sent ok v \<Rightarrow> next_call i s
     | RecvFast \<Rightarrow>
         Some (goto i (if dataqsiz s = 0 \<and> sendq s = [] \<or> dataqsiz s > 0 \<and> qcount s = 0
                       then RecvFast2 else RecvLock False) s)
     | RecvFast2 \<Rightarrow> Some (goto i (if \<not> closed s then Received False False else RecvLock False) s)
     | RecvLock block \<Rightarrow> Some (recv_locked i block s)
     | RecvParked \<Rightarrow>
         if parked s i then None
         else Some (goto i (if param s i then Received True True else RecvLate) (set_param i False s))
     | RecvWait \<Rightarrow> if parked s i then None else Some (goto i (RecvLock True) s)
     | RecvHand g x \<Rightarrow> Some (goto i (Received True True) (goready g (set_param g True (set_slot i x s))))
     | RecvReady g \<Rightarrow> Some (goto i (Received True True) (goready g s))
     | RecvLate \<Rightarrow> Some (if \<not> closed s then goto i CThrow s else recvclosed i s)
     | Received sel ok \<Rightarrow> next_call i s
     | CloseLock \<Rightarrow> Some (closechan i s)
     | CClosed \<Rightarrow> next_call i s
     | CPanic \<Rightarrow> None
     | CThrow \<Rightarrow> None)"

text \<open>\<open>makechan\<close>; \<open>avail\<close> is \<open>maxmem-hchanSize\<close> and \<open>n\<close> the size, an \<open>int64\<close>.\<close>

definition makechan :: "u32 \<Rightarrow> u32 \<Rightarrow> u64 \<Rightarrow> 'v hchan option" where
  "makechan avail elemsize n =
    (if n <s 0 \<or> ucast (ucast n :: u32) \<noteq> n \<or> elemsize > 0 \<and> ucast n > avail div elemsize then None
     else Some \<lparr>qcount = 0, dataqsiz = unat (ucast n :: u32), buf = replicate (unat (ucast n :: u32)) None,
                sendx = 0, recvx = 0, closed = False, recvq = [], sendq = []\<rparr>)"

definition start :: "'v hchan \<Rightarrow> (nat \<Rightarrow> 'v call list) \<Rightarrow> 'v sys" where
  "start c cs = \<lparr>qcount = qcount c, dataqsiz = dataqsiz c, buf = buf c, sendx = sendx c, recvx = recvx c,
    closed = closed c, recvq = recvq c, sendq = sendq c, parked = (\<lambda>_. False), param = (\<lambda>_. False),
    slot = (\<lambda>_. None), calls = cs, pc = (\<lambda>_. CIdle), slog = [], dlog = []\<rparr>"

inductive chan_reach :: "'v sys \<Rightarrow> 'v sys \<Rightarrow> bool" for s0 where
  chan_start: "chan_reach s0 s0"
| chan_next: "chan_reach s0 s \<Longrightarrow> chan_move i s = Some s' \<Longrightarrow> chan_reach s0 s'"

lemmas chan_defs = goto_def goready_def gopark_def set_param_def set_slot_def recvclosed_def next_call_def

section \<open>The buffer\<close>

definition contents :: "'v sys \<Rightarrow> 'v option list" where
  "contents s = map (\<lambda>k. buf s ! ((recvx s + k) mod dataqsiz s)) [0..<qcount s]"

definition ring_ok :: "'v sys \<Rightarrow> bool" where
  "ring_ok s \<longleftrightarrow> length (buf s) = dataqsiz s \<and> qcount s \<le> dataqsiz s \<and>
    (0 < dataqsiz s \<longrightarrow> recvx s < dataqsiz s \<and> sendx s = (recvx s + qcount s) mod dataqsiz s)"

definition fifo :: "'v sys \<Rightarrow> bool" where
  "fifo s \<longleftrightarrow> map snd (slog s) = map snd (dlog s) @ contents s"

lemma wrap_index_mod: "x < n \<Longrightarrow> wrap_index x n = (x + 1) mod n"
  by (cases "x + 1 = n") (simp_all add: wrap_index_def)

lemma ring_index:
  fixes r n :: nat
  assumes "r < n" "a < n"
  shows "(r + a) mod n = (if r + a < n then r + a else r + a - n)"
  using assms by (simp add: le_mod_geq)

lemma ring_index_inject:
  fixes r n :: nat
  assumes "r < n" "a < n" "b < n" "(r + a) mod n = (r + b) mod n"
  shows "a = b"
  using assms(4) unfolding ring_index [OF assms(1,2)] ring_index [OF assms(1,3)] using assms(1-3) by (simp split: if_splits)

lemma ring_write:
  assumes "ring_ok s" "qcount s < dataqsiz s"
    and "buf s' = (buf s)[sendx s := x]" "sendx s' = wrap_index (sendx s) (dataqsiz s)" "qcount s' = qcount s + 1"
      "recvx s' = recvx s" "dataqsiz s' = dataqsiz s"
  shows "ring_ok s'" "contents s' = contents s @ [x]"
proof -
  let ?n = "dataqsiz s"
  have r: "length (buf s) = ?n" "recvx s < ?n" "sendx s = (recvx s + qcount s) mod ?n" "0 < ?n"
    using assms(1,2) by (auto simp: ring_ok_def)
  have "wrap_index (sendx s) ?n = (recvx s + qcount s + 1) mod ?n"
    using r by (simp add: wrap_index_mod mod_Suc_eq)
  then show "ring_ok s'" using assms(2-) r by (simp add: ring_ok_def)
  have ne: "(recvx s + k) mod ?n \<noteq> sendx s" if "k < qcount s" for k
    using ring_index_inject [OF r(2), of k "qcount s"] that assms(2) r(3) by auto
  have "(buf s)[sendx s := x] ! sendx s = x" using r by simp
  moreover have "\<forall>k \<in> {0..<qcount s}. (buf s)[sendx s := x] ! ((recvx s + k) mod ?n) = buf s ! ((recvx s + k) mod ?n)"
    using ne by (metis atLeastLessThan_iff nth_list_update_neq)
  ultimately show "contents s' = contents s @ [x]" unfolding contents_def assms(3-7) by (simp add: r(3))
qed

lemma ring_read:
  assumes "ring_ok s" "0 < qcount s"
    and "buf s' = (buf s)[recvx s := y]" "recvx s' = wrap_index (recvx s) (dataqsiz s)" "qcount s' = qcount s - 1"
      "sendx s' = sendx s" "dataqsiz s' = dataqsiz s"
  shows "ring_ok s'" "contents s = buf s ! recvx s # contents s'"
proof -
  let ?n = "dataqsiz s"
  have r: "length (buf s) = ?n" "recvx s < ?n" "sendx s = (recvx s + qcount s) mod ?n" "0 < ?n" "qcount s \<le> ?n"
    using assms(1,2) by (auto simp: ring_ok_def)
  obtain m where m: "qcount s = Suc m" using assms(2) by (cases "qcount s") auto
  have w: "recvx s' = (recvx s + 1) mod ?n" using assms(4) wrap_index_mod [OF r(2)] by simp
  then show "ring_ok s'" using assms(3-) r m by (simp add: ring_ok_def mod_add_left_eq)
  have ix: "(recvx s' + k) mod ?n = (recvx s + Suc k) mod ?n" for k unfolding w by (simp add: mod_add_left_eq)
  have ne: "(recvx s + Suc k) mod ?n \<noteq> recvx s" if "k < m" for k
    using ring_index_inject [OF r(2), of "Suc k" 0] that m r(2,5) by auto
  have "[0..<qcount s] = 0 # map Suc [0..<m]" unfolding m by (simp add: map_Suc_upt upt_conv_Cons)
  moreover have "\<forall>k \<in> {0..<m}. buf s ! ((recvx s + Suc k) mod ?n) = (buf s)[recvx s := y] ! ((recvx s + Suc k) mod ?n)"
    using ne by (metis atLeastLessThan_iff nth_list_update_neq)
  ultimately show "contents s = buf s ! recvx s # contents s'"
    using r(2) unfolding contents_def assms(3,5,7) ix by (simp add: m)
qed

lemma contents_cong:
  assumes "buf s' = buf s" "recvx s' = recvx s" "dataqsiz s' = dataqsiz s" "qcount s' = qcount s"
  shows "contents s' = contents s"
  by (simp add: contents_def assms)

section \<open>Waiting goroutines\<close>

fun hands :: "'v cpc \<Rightarrow> nat option" where
  "hands (SendHand g v) = Some g"
| "hands (SendReady g v) = Some g"
| "hands (RecvHand g x) = Some g"
| "hands (RecvReady g) = Some g"
| "hands _ = None"

fun waiting :: "'v cpc \<Rightarrow> bool" where
  "waiting (SendParked v) = True"
| "waiting (SendWait v) = True"
| "waiting RecvParked = True"
| "waiting RecvWait = True"
| "waiting _ = False"

fun rendezvous :: "'v cpc \<Rightarrow> bool" where
  "rendezvous (SendParked v) = True"
| "rendezvous RecvParked = True"
| "rendezvous _ = False"

text \<open>Whom a goroutine may be waking.\<close>

fun partner :: "'v cpc \<Rightarrow> 'v cpc \<Rightarrow> bool" where
  "partner (SendHand g v) q \<longleftrightarrow> q = RecvParked"
| "partner (SendReady g v) q \<longleftrightarrow> q = RecvWait"
| "partner (RecvHand g x) q \<longleftrightarrow> (\<exists>v. q = SendParked v \<and> x = Some v)"
| "partner (RecvReady g) q \<longleftrightarrow> (\<exists>v. q = SendWait v)"
| "partner _ q \<longleftrightarrow> True"

definition rgs :: "'v sys \<Rightarrow> nat list" where "rgs s = map sg_g (recvq s)"

definition sgs :: "'v sys \<Rightarrow> nat list" where "sgs s = map sg_g (sendq s)"

definition gor_ok :: "'v sys \<Rightarrow> nat \<Rightarrow> bool" where
  "gor_ok s g \<longleftrightarrow> (parked s g \<longrightarrow> waiting (pc s g)) \<and>
    (rendezvous (pc s g) \<longrightarrow> (if parked s g then \<not> param s g else param s g \<or> closed s)) \<and>
    (pc s g = RecvLate \<longrightarrow> closed s) \<and> pc s g \<noteq> CThrow \<and>
    (\<forall>h. hands (pc s g) = Some h \<longrightarrow> parked s h \<and> h \<notin> set (rgs s) \<and> h \<notin> set (sgs s) \<and> partner (pc s g) (pc s h))"

definition sudog_ok :: "'v sys \<Rightarrow> 'v sudog \<Rightarrow> bool" where
  "sudog_ok s sg \<longleftrightarrow> parked s (sg_g sg) \<and>
    (if dataqsiz s = 0 then \<exists>v. pc s (sg_g sg) = SendParked v \<and> sg_elem sg = Some v else \<exists>v. pc s (sg_g sg) = SendWait v)"

definition waits :: "'v sys \<Rightarrow> bool" where
  "waits s \<longleftrightarrow> (\<forall>g. gor_ok s g) \<and> distinct (rgs s) \<and> distinct (sgs s) \<and>
    (\<forall>g \<in> set (rgs s). parked s g \<and> pc s g = (if dataqsiz s = 0 then RecvParked else RecvWait)) \<and>
    (\<forall>sg \<in> set (sendq s). sudog_ok s sg) \<and>
    (\<forall>j k g. hands (pc s j) = Some g \<and> hands (pc s k) = Some g \<longrightarrow> j = k) \<and>
    (\<forall>g. parked s g \<longrightarrow> g \<in> set (rgs s) \<or> g \<in> set (sgs s) \<or> (\<exists>j. hands (pc s j) = Some g)) \<and>
    (closed s \<longrightarrow> recvq s = [] \<and> sendq s = []) \<and> (dataqsiz s = 0 \<longrightarrow> recvq s = [] \<or> sendq s = [])"

lemma waitsI:
  assumes "\<And>g. gor_ok s g" "distinct (rgs s)" "distinct (sgs s)"
    "\<And>g. g \<in> set (rgs s) \<Longrightarrow> parked s g \<and> pc s g = (if dataqsiz s = 0 then RecvParked else RecvWait)"
    "\<And>sg. sg \<in> set (sendq s) \<Longrightarrow> sudog_ok s sg"
    "\<And>j k g. hands (pc s j) = Some g \<Longrightarrow> hands (pc s k) = Some g \<Longrightarrow> j = k"
    "\<And>g. parked s g \<Longrightarrow> g \<notin> set (rgs s) \<Longrightarrow> g \<notin> set (sgs s) \<Longrightarrow> \<exists>j. hands (pc s j) = Some g"
    "closed s \<Longrightarrow> recvq s = [] \<and> sendq s = []" "dataqsiz s = 0 \<Longrightarrow> recvq s = [] \<or> sendq s = []"
  shows "waits s"
  using assms unfolding waits_def by blast

lemma waitsD:
  assumes "waits s"
  shows "\<And>g. gor_ok s g" "distinct (rgs s)" "distinct (sgs s)"
    "\<And>g. g \<in> set (rgs s) \<Longrightarrow> parked s g \<and> pc s g = (if dataqsiz s = 0 then RecvParked else RecvWait)"
    "\<And>sg. sg \<in> set (sendq s) \<Longrightarrow> sudog_ok s sg"
    "\<And>j k g. hands (pc s j) = Some g \<Longrightarrow> hands (pc s k) = Some g \<Longrightarrow> j = k"
    "\<And>g. parked s g \<Longrightarrow> g \<notin> set (rgs s) \<Longrightarrow> g \<notin> set (sgs s) \<Longrightarrow> \<exists>j. hands (pc s j) = Some g"
    "closed s \<Longrightarrow> recvq s = [] \<and> sendq s = []" "dataqsiz s = 0 \<Longrightarrow> recvq s = [] \<or> sendq s = []"
    "\<And>g. g \<in> set (sgs s) \<Longrightarrow> parked s g"
  using assms unfolding waits_def sgs_def sudog_ok_def by auto

text \<open>A step of a goroutine that concerns nobody else.\<close>

lemma waits_local:
  assumes "waits s" "\<not> parked s i" "hands (pc s i) = None"
    and "parked s' = parked s" "pc s' = (pc s)(i := p)" "\<And>g. g \<noteq> i \<Longrightarrow> param s' g = param s g"
      "recvq s' = recvq s" "sendq s' = sendq s" "closed s' = closed s" "dataqsiz s' = dataqsiz s"
    and "hands p = None" "\<not> rendezvous p" "p = RecvLate \<Longrightarrow> closed s" "p \<noteq> CThrow"
  shows "waits s'"
proof (rule waitsI)
  have q: "rgs s' = rgs s" "sgs s' = sgs s" using assms(7,8) by (simp_all add: rgs_def sgs_def)
  note w = waitsD [OF assms(1)]
  show "gor_ok s' g" for g
    using w(1) [of g] w(1) [of i] assms(2-6,9,11-14) by (cases "g = i") (auto simp: gor_ok_def q)
  show "distinct (rgs s')" "distinct (sgs s')" using w(2,3) q by simp_all
  show "g \<in> set (rgs s') \<Longrightarrow> parked s' g \<and> pc s' g = (if dataqsiz s' = 0 then RecvParked else RecvWait)" for g
    using w(4) [of g] assms(2,4,5,10) q by auto
  show "sg \<in> set (sendq s') \<Longrightarrow> sudog_ok s' sg" for sg
    using w(5) [of sg] assms(2,4,5,8,10) by (auto simp: sudog_ok_def)
  show "hands (pc s' j) = Some g \<Longrightarrow> hands (pc s' k) = Some g \<Longrightarrow> j = k" for j k g
    using w(6) [of j g k] assms(5,11) by (auto split: if_splits)
  show "parked s' g \<Longrightarrow> g \<notin> set (rgs s') \<Longrightarrow> g \<notin> set (sgs s') \<Longrightarrow> \<exists>j. hands (pc s' j) = Some g" for g
    using w(7) [of g] assms(3,4,5) q by (metis fun_upd_other option.distinct(1))
  show "closed s' \<Longrightarrow> recvq s' = [] \<and> sendq s' = []" "dataqsiz s' = 0 \<Longrightarrow> recvq s' = [] \<or> sendq s' = []"
    using w(8,9) assms(7-10) by simp_all
qed

text \<open>A goroutine parks and enters a queue.\<close>

lemma waits_park_recv:
  assumes "waits s" "\<not> parked s i" "hands (pc s i) = None" "\<not> closed s"
    and "parked s' = (parked s)(i := True)" "pc s' = (pc s)(i := p)" "\<And>g. g \<noteq> i \<Longrightarrow> param s' g = param s g"
      "recvq s' = recvq s @ [sg]" "sg_g sg = i" "sendq s' = sendq s" "closed s' = closed s" "dataqsiz s' = dataqsiz s"
    and "p = (if dataqsiz s = 0 then RecvParked else RecvWait)" "dataqsiz s = 0 \<Longrightarrow> sendq s = [] \<and> \<not> param s' i"
  shows "waits s'"
proof (rule waitsI)
  note w = waitsD [OF assms(1)]
  have q: "rgs s' = rgs s @ [i]" "sgs s' = sgs s" using assms(8-10) by (simp_all add: rgs_def sgs_def)
  have i: "i \<notin> set (rgs s)" "i \<notin> set (sgs s)" using w(4) [of i] w(10) [of i] assms(2) by auto
  have h: "hands (pc s g) \<noteq> Some i" for g using w(1) [of g] assms(2) by (auto simp: gor_ok_def)
  have hp: "hands p = None" using assms(13) by simp
  show "gor_ok s' g" for g
    using w(1) [of g] w(1) [of i] h [of g] hp assms(2,4-7,11,13,14) by (cases "g = i") (auto simp: gor_ok_def q)
  show "distinct (rgs s')" "distinct (sgs s')" using w(2,3) q i by simp_all
  show "g \<in> set (rgs s') \<Longrightarrow> parked s' g \<and> pc s' g = (if dataqsiz s' = 0 then RecvParked else RecvWait)" for g
    using w(4) [of g] i assms(5,6,12,13) q by auto
  show "sg \<in> set (sendq s') \<Longrightarrow> sudog_ok s' sg" for sg
    using w(5) [of sg] assms(2,5,6,10,12) by (auto simp: sudog_ok_def)
  show "hands (pc s' j) = Some g \<Longrightarrow> hands (pc s' k) = Some g \<Longrightarrow> j = k" for j k g
    using w(6) [of j g k] assms(6) hp by (auto split: if_splits)
  show "parked s' g \<Longrightarrow> g \<notin> set (rgs s') \<Longrightarrow> g \<notin> set (sgs s') \<Longrightarrow> \<exists>j. hands (pc s' j) = Some g" for g
    using w(7) [of g] assms(3,5,6) q by (metis Un_iff fun_upd_other list.set_intros(1) option.distinct(1) set_append)
  show "closed s' \<Longrightarrow> recvq s' = [] \<and> sendq s' = []" "dataqsiz s' = 0 \<Longrightarrow> recvq s' = [] \<or> sendq s' = []"
    using assms(4,10-14) by simp_all
qed

lemma waits_park_send:
  assumes "waits s" "\<not> parked s i" "hands (pc s i) = None" "\<not> closed s"
    and "parked s' = (parked s)(i := True)" "pc s' = (pc s)(i := p)" "\<And>g. g \<noteq> i \<Longrightarrow> param s' g = param s g"
      "sendq s' = sendq s @ [sg]" "sg_g sg = i" "recvq s' = recvq s" "closed s' = closed s" "dataqsiz s' = dataqsiz s"
    and "if dataqsiz s = 0 then p = SendParked v \<and> sg_elem sg = Some v else p = SendWait v"
      "dataqsiz s = 0 \<Longrightarrow> recvq s = [] \<and> \<not> param s' i"
  shows "waits s'"
proof (rule waitsI)
  note w = waitsD [OF assms(1)]
  have q: "rgs s' = rgs s" "sgs s' = sgs s @ [i]" using assms(8-10) by (simp_all add: rgs_def sgs_def)
  have i: "i \<notin> set (rgs s)" "i \<notin> set (sgs s)" using w(4) [of i] w(10) [of i] assms(2) by auto
  have h: "hands (pc s g) \<noteq> Some i" for g using w(1) [of g] assms(2) by (auto simp: gor_ok_def)
  have hp: "hands p = None" "waiting p" "p \<noteq> RecvLate" "p \<noteq> CThrow" "rendezvous p \<Longrightarrow> dataqsiz s = 0"
    using assms(13) by (auto split: if_splits)
  show "gor_ok s' g" for g
    using w(1) [of g] w(1) [of i] h [of g] hp assms(2,4-7,11,14) by (cases "g = i") (auto simp: gor_ok_def q)
  show "distinct (rgs s')" "distinct (sgs s')" using w(2,3) q i by simp_all
  show "g \<in> set (rgs s') \<Longrightarrow> parked s' g \<and> pc s' g = (if dataqsiz s' = 0 then RecvParked else RecvWait)" for g
    using w(4) [of g] i assms(5,6,12) q by auto
  show "sg \<in> set (sendq s') \<Longrightarrow> sudog_ok s' sg" for sg
    using w(5) [of sg] assms(2,5,6,8,9,12,13) by (auto simp: sudog_ok_def split: if_splits)
  show "hands (pc s' j) = Some g \<Longrightarrow> hands (pc s' k) = Some g \<Longrightarrow> j = k" for j k g
    using w(6) [of j g k] assms(6) hp by (auto split: if_splits)
  show "parked s' g \<Longrightarrow> g \<notin> set (rgs s') \<Longrightarrow> g \<notin> set (sgs s') \<Longrightarrow> \<exists>j. hands (pc s' j) = Some g" for g
    using w(7) [of g] assms(3,5,6) q by (metis Un_iff fun_upd_other list.set_intros(1) option.distinct(1) set_append)
  show "closed s' \<Longrightarrow> recvq s' = [] \<and> sendq s' = []" "dataqsiz s' = 0 \<Longrightarrow> recvq s' = [] \<or> sendq s' = []"
    using assms(4,10-14) by simp_all
qed

text \<open>A goroutine takes another one out of a queue, to wake it after the lock is released.\<close>

lemma waits_take:
  assumes "waits s" "\<not> parked s i" "hands (pc s i) = None" "dataqsiz s' = dataqsiz s" "closed s' = closed s"
    and "parked s' = parked s" "pc s' = (pc s)(i := p)" "param s' = param s"
    and "hands p = Some g" "\<not> rendezvous p" "partner p (pc s g)" "parked s g"
    and "recvq s = sg # recvq s' \<and> sendq s' = sendq s \<or> sendq s = sg # sendq s' \<and> recvq s' = recvq s" "sg_g sg = g"
  shows "waits s'"
proof (rule waitsI)
  note w = waitsD [OF assms(1)]
  have q: "set (rgs s) \<union> set (sgs s) = insert g (set (rgs s') \<union> set (sgs s'))" "set (rgs s') \<subseteq> set (rgs s)"
      "set (sendq s') \<subseteq> set (sendq s)" "distinct (rgs s')" "distinct (sgs s')" "set (sgs s') \<subseteq> set (sgs s)"
    using assms(13,14) w(2,3) by (auto simp: rgs_def sgs_def)
  have g: "g \<noteq> i" "p \<noteq> RecvLate" "p \<noteq> CThrow" using assms(2,9,12) by auto
  have rs: "set (rgs s) \<inter> set (sgs s) = {}"
  proof -
    have "pc s k \<noteq> (if dataqsiz s = 0 then RecvParked else RecvWait)" if "k \<in> set (sgs s)" for k
      using that w(5) by (fastforce simp: sgs_def sudog_ok_def split: if_splits)
    then show ?thesis using w(4) by blast
  qed
  have out: "g \<notin> set (rgs s')" "g \<notin> set (sgs s')"
    using assms(13,14) w(2,3) rs by (auto simp: rgs_def sgs_def)
  have h: "hands (pc s j) \<noteq> Some g" for j
    using w(1) [of j] q(1) by (auto simp: gor_ok_def)
  show "gor_ok s' k" for k
  proof (cases "k = i")
    case True
    then show ?thesis using assms(2,6,7,9-12) g out by (simp add: gor_ok_def)
  next
    case False
    have "parked s h \<and> h \<notin> set (rgs s') \<and> h \<notin> set (sgs s') \<and> partner (pc s k) (pc s' h)" if "hands (pc s k) = Some h" for h
    proof -
      have "parked s h" "h \<notin> set (rgs s)" "h \<notin> set (sgs s)" "partner (pc s k) (pc s h)"
        using w(1) [of k] that by (simp_all add: gor_ok_def)
      then show ?thesis using assms(2,7) q(2,6) by auto
    qed
    then show ?thesis using w(1) [of k] False assms(5-8) by (simp add: gor_ok_def)
  qed
  show "distinct (rgs s')" "distinct (sgs s')" by (rule q)+
  show "k \<in> set (rgs s') \<Longrightarrow> parked s' k \<and> pc s' k = (if dataqsiz s' = 0 then RecvParked else RecvWait)" for k
    using w(4) [of k] assms(2,4,6,7) q(2) by auto
  show "sg \<in> set (sendq s') \<Longrightarrow> sudog_ok s' sg" for sg
    using w(5) [of sg] assms(2,4,6,7) q(3) by (auto simp: sudog_ok_def)
  show "hands (pc s' j) = Some l \<Longrightarrow> hands (pc s' k) = Some l \<Longrightarrow> j = k" for j k l
    using w(6) [of j l k] assms(7,9) h by (auto split: if_splits)
  show "parked s' k \<Longrightarrow> k \<notin> set (rgs s') \<Longrightarrow> k \<notin> set (sgs s') \<Longrightarrow> \<exists>j. hands (pc s' j) = Some k" for k
  proof (cases "k = g")
    case True
    then show ?thesis using assms(7,9) by (intro exI [of _ i]) simp
  next
    case False
    assume "parked s' k" "k \<notin> set (rgs s')" "k \<notin> set (sgs s')"
    then have "parked s k" "k \<notin> set (rgs s)" "k \<notin> set (sgs s)" using False q(1) assms(6) by auto
    then obtain j where "hands (pc s j) = Some k" using w(7) by blast
    then show ?thesis using assms(3,7) by (intro exI [of _ j]) auto
  qed
  show "closed s' \<Longrightarrow> recvq s' = [] \<and> sendq s' = []" "dataqsiz s' = 0 \<Longrightarrow> recvq s' = [] \<or> sendq s' = []"
    using w(8,9) assms(4,5,13) by auto
qed

text \<open>A goroutine wakes the one it has taken out of a queue.\<close>

lemma waits_wake:
  assumes "waits s" "\<not> parked s i" "hands (pc s i) = Some g"
    and "parked s' = (parked s)(g := False)" "pc s' = (pc s)(i := p)" "\<And>k. k \<noteq> g \<Longrightarrow> param s' k = param s k"
      "rendezvous (pc s g) \<Longrightarrow> param s' g"
      "recvq s' = recvq s" "sendq s' = sendq s" "closed s' = closed s" "dataqsiz s' = dataqsiz s"
    and "hands p = None" "\<not> rendezvous p" "p \<noteq> RecvLate" "p \<noteq> CThrow"
  shows "waits s'"
proof (rule waitsI)
  have q: "rgs s' = rgs s" "sgs s' = sgs s" using assms(8,9) by (simp_all add: rgs_def sgs_def)
  note w = waitsD [OF assms(1)]
  have g: "g \<notin> set (rgs s)" "g \<notin> set (sgs s)" "parked s g" using w(1) [of i] assms(3) by (auto simp: gor_ok_def)
  then have "waiting (pc s g)" using w(1) [of g] by (simp add: gor_ok_def)
  then have gp: "g \<noteq> i" "hands (pc s g) = None" "pc s g \<noteq> RecvLate" "pc s g \<noteq> CThrow" using assms(2) g(3) by (cases "pc s g"; auto)+
  have h: "hands (pc s j) = Some g \<Longrightarrow> j = i" for j using w(6) [of j g i] assms(3) by blast
  show "gor_ok s' k" for k
  proof (cases "k = i \<or> k = g")
    case True
    then show ?thesis using assms(2,4-7,12-15) gp by (auto simp: gor_ok_def)
  next
    case False
    then have "hands (pc s k) \<noteq> Some g" using h by blast
    then show ?thesis using w(1) [of k] False assms(2,4-6,10) unfolding gor_ok_def q by auto
  qed
  show "distinct (rgs s')" "distinct (sgs s')" using w(2,3) q by simp_all
  show "k \<in> set (rgs s') \<Longrightarrow> parked s' k \<and> pc s' k = (if dataqsiz s' = 0 then RecvParked else RecvWait)" for k
    using w(4) [of k] assms(2,4,5,11) q g by auto
  show "sg \<in> set (sendq s') \<Longrightarrow> sudog_ok s' sg" for sg
    using w(5) [of sg] assms(2,4,5,9,11) g by (auto simp: sudog_ok_def sgs_def)
  show "hands (pc s' j) = Some l \<Longrightarrow> hands (pc s' k) = Some l \<Longrightarrow> j = k" for j k l
    using w(6) [of j l k] assms(5,12) by (auto split: if_splits)
  show "parked s' k \<Longrightarrow> k \<notin> set (rgs s') \<Longrightarrow> k \<notin> set (sgs s') \<Longrightarrow> \<exists>j. hands (pc s' j) = Some k" for k
    using w(7) [of k] assms(3,4,5) q by (metis fun_upd_apply option.inject)
  show "closed s' \<Longrightarrow> recvq s' = [] \<and> sendq s' = []" "dataqsiz s' = 0 \<Longrightarrow> recvq s' = [] \<or> sendq s' = []"
    using w(8,9) assms(8-11) by simp_all
qed

text \<open>Closing wakes everybody in the queues.\<close>

lemma release_simps:
  "parked (release q s) g = (parked s g \<and> g \<notin> sg_g ` set q)" "param (release q s) g = (param s g \<and> g \<notin> sg_g ` set q)"
  "pc (release q s) = pc s" "recvq (release q s) = recvq s" "sendq (release q s) = sendq s" "dataqsiz (release q s) = dataqsiz s"
  "closed (release q s) = closed s" "slot (release q s) = slot s" "calls (release q s) = calls s"
  "slog (release q s) = slog s" "dlog (release q s) = dlog s" "buf (release q s) = buf s" "recvx (release q s) = recvx s"
  "sendx (release q s) = sendx s" "qcount (release q s) = qcount s"
  unfolding release_def by (induction q arbitrary: s) (auto simp: goready_def set_param_def)

lemma waits_close:
  assumes "waits s" "\<not> parked s i" "hands (pc s i) = None"
    and "\<And>g. parked s' g = (parked s g \<and> g \<notin> set (rgs s) \<and> g \<notin> set (sgs s))" "pc s' = (pc s)(i := CClosed)"
      "\<And>g. g \<notin> set (rgs s) \<Longrightarrow> g \<notin> set (sgs s) \<Longrightarrow> param s' g = param s g" "recvq s' = []" "sendq s' = []" "closed s'"
  shows "waits s'"
proof (rule waitsI)
  have q: "rgs s' = []" "sgs s' = []" using assms(7,8) by (simp_all add: rgs_def sgs_def)
  note w = waitsD [OF assms(1)]
  show "gor_ok s' k" for k
    using w(1) [of k] assms(2,4-6,9) q by (cases "k = i") (auto simp: gor_ok_def)
  show "distinct (rgs s')" "distinct (sgs s')" using q by simp_all
  show "k \<in> set (rgs s') \<Longrightarrow> parked s' k \<and> pc s' k = (if dataqsiz s' = 0 then RecvParked else RecvWait)" for k
    using q by simp
  show "sg \<in> set (sendq s') \<Longrightarrow> sudog_ok s' sg" for sg using assms(8) by simp
  show "hands (pc s' j) = Some l \<Longrightarrow> hands (pc s' k) = Some l \<Longrightarrow> j = k" for j k l
    using w(6) [of j l k] assms(5) by (auto split: if_splits)
  show "parked s' k \<Longrightarrow> k \<notin> set (rgs s') \<Longrightarrow> k \<notin> set (sgs s') \<Longrightarrow> \<exists>j. hands (pc s' j) = Some k" for k
    using w(7) [of k] assms(3,4,5) by (metis fun_upd_other option.distinct(1))
  show "closed s' \<Longrightarrow> recvq s' = [] \<and> sendq s' = []" "dataqsiz s' = 0 \<Longrightarrow> recvq s' = [] \<or> sendq s' = []"
    using assms(7,8) by simp_all
qed

section \<open>Every step keeps the invariants\<close>

lemma not_parked:
  assumes "waits s" "chan_move i s = Some s'"
  shows "\<not> parked s i"
  using assms(2) waitsD(1) [OF assms(1), of i] by (cases "pc s i") (auto simp: chan_move_def gor_ok_def)

lemma waits_send_locked:
  assumes "waits s" "\<not> parked s i" "hands (pc s i) = None"
  shows "waits (send_locked i v b s)"
proof (cases "closed s")
  case True
  then show ?thesis using assms
    by (simp add: send_locked_def) (rule waits_local [where i = i and p = CPanic], auto simp: goto_def)
next
  case False
  note w = waitsD [OF assms(1)]
  consider (sync) "dataqsiz s = 0" | (full) "0 < dataqsiz s" "dataqsiz s \<le> qcount s" | (room) "0 < dataqsiz s" "qcount s < dataqsiz s"
    by linarith
  then show ?thesis
  proof cases
    case sync
    show ?thesis
    proof (cases "recvq s")
      case (Cons sg q)
      then have "parked s (sg_g sg)" "pc s (sg_g sg) = RecvParked" using w(4) [of "sg_g sg"] sync by (auto simp: rgs_def)
      then show ?thesis using assms False sync Cons
        by (simp add: send_locked_def)
          (rule waits_take [where i = i and g = "sg_g sg" and sg = sg and p = "SendHand (sg_g sg) v"], auto simp: goto_def)
    next
      case Nil
      then show ?thesis using assms False sync w(9)
        by (cases b; simp add: send_locked_def)
          (rule waits_park_send [where i = i and v = v and p = "SendParked v" and sg = "\<lparr>sg_g = i, sg_elem = Some v\<rparr>"],
            auto simp: gopark_def set_param_def,
           rule waits_local [where i = i and p = "Sent False v"], auto simp: goto_def)
    qed
  next
    case full
    then show ?thesis using assms False
      by (cases b; simp add: send_locked_def)
        (rule waits_park_send [where i = i and v = v and p = "SendWait v" and sg = "\<lparr>sg_g = i, sg_elem = None\<rparr>"],
          auto simp: gopark_def,
         rule waits_local [where i = i and p = "Sent False v"], auto simp: goto_def)
  next
    case room
    show ?thesis
    proof (cases "recvq s")
      case (Cons sg q)
      then have "parked s (sg_g sg)" "pc s (sg_g sg) = RecvWait" using w(4) [of "sg_g sg"] room by (auto simp: rgs_def)
      then show ?thesis using assms False room Cons
        by (simp add: send_locked_def)
          (rule waits_take [where i = i and g = "sg_g sg" and sg = sg and p = "SendReady (sg_g sg) v"], auto simp: goto_def)
    next
      case Nil
      then show ?thesis using assms False room
        by (simp add: send_locked_def) (rule waits_local [where i = i and p = "Sent True v"], auto simp: goto_def)
    qed
  qed
qed

lemma waits_recv_locked:
  assumes "waits s" "\<not> parked s i" "hands (pc s i) = None"
  shows "waits (recv_locked i b s)"
proof -
  note w = waitsD [OF assms(1)]
  have rc: "waits (recvclosed i s)"
    by (rule waits_local [where i = i and p = "Received True False", OF assms]) (auto simp: recvclosed_def goto_def set_slot_def)
  have no: "waits (goto i (Received False False) s)"
    by (rule waits_local [where i = i and p = "Received False False", OF assms]) (auto simp: goto_def)
  consider (sync) "dataqsiz s = 0" "\<not> closed s" | (none) "0 < dataqsiz s" "qcount s = 0" "\<not> closed s" | (some) "0 < dataqsiz s" "0 < qcount s"
    | (over) "closed s" "dataqsiz s = 0 \<or> qcount s = 0" by linarith
  then show ?thesis
  proof cases
    case sync
    show ?thesis
    proof (cases "sendq s")
      case (Cons sg q)
      then have "sudog_ok s sg" using w(5) by simp
      then show ?thesis using assms sync Cons
        by (simp add: recv_locked_def)
          (rule waits_take [where i = i and g = "sg_g sg" and sg = sg and p = "RecvHand (sg_g sg) (sg_elem sg)"],
            auto simp: goto_def sudog_ok_def)
    next
      case Nil
      then show ?thesis using assms sync no
        by (cases b; simp add: recv_locked_def)
          (rule waits_park_recv [where i = i and p = RecvParked and sg = "\<lparr>sg_g = i, sg_elem = None\<rparr>"],
            auto simp: gopark_def set_param_def)
    qed
  next
    case none
    then show ?thesis using assms no
      by (cases b; simp add: recv_locked_def)
        (rule waits_park_recv [where i = i and p = RecvWait and sg = "\<lparr>sg_g = i, sg_elem = None\<rparr>"], auto simp: gopark_def)
  next
    case some
    show ?thesis
    proof (cases "sendq s")
      case (Cons sg q)
      then have "sudog_ok s sg" using w(5) by simp
      then show ?thesis using assms some Cons
        by (simp add: recv_locked_def Let_def set_slot_def)
          (rule waits_take [where i = i and g = "sg_g sg" and sg = sg and p = "RecvReady (sg_g sg)"],
            auto simp: goto_def sudog_ok_def)
    next
      case Nil
      then show ?thesis using assms some
        by (simp add: recv_locked_def Let_def set_slot_def)
          (rule waits_local [where i = i and p = "Received True True"], auto simp: goto_def)
    qed
  next
    case over
    then show ?thesis using rc by (auto simp: recv_locked_def)
  qed
qed

lemma waits_closechan:
  assumes "waits s" "\<not> parked s i" "hands (pc s i) = None"
  shows "waits (closechan i s)"
proof (cases "closed s")
  case True
  then show ?thesis using assms
    by (simp add: closechan_def) (rule waits_local [where i = i and p = CPanic], auto simp: goto_def)
next
  case False
  then show ?thesis using assms
    by (simp add: closechan_def) (rule waits_close [where i = i and s = s], auto simp: goto_def release_simps rgs_def sgs_def)
qed

lemma waits_next_call:
  assumes "waits s" "\<not> parked s i" "hands (pc s i) = None" "next_call i s = Some s'"
  shows "waits s'"
proof -
  obtain c cs where "s' = goto i (entry c) (s\<lparr>calls := (calls s)(i := cs)\<rparr>)"
    using assms(4) by (auto simp: next_call_def split: list.splits)
  then show ?thesis
    by (cases c) (auto intro!: waits_local [OF assms(1-3), where p = "entry c"] simp: goto_def)
qed

lemma waits_waking:
  assumes "waits s" "chan_move i s = Some s'" "hands (pc s i) = Some g"
  shows "waits s'"
proof -
  note np = not_parked [OF assms(1,2)]
  have ok: "gor_ok s i" by (rule waitsD(1) [OF assms(1)])
  have wake: "waits s'" if "s' = goto i p (goready g sa)" "parked sa = parked s" "pc sa = pc s"
      "\<And>k. k \<noteq> g \<Longrightarrow> param sa k = param s k" "rendezvous (pc s g) \<Longrightarrow> param sa g"
      "recvq sa = recvq s" "sendq sa = sendq s" "closed sa = closed s" "dataqsiz sa = dataqsiz s"
      "hands p = None" "\<not> rendezvous p" "p \<noteq> RecvLate" "p \<noteq> CThrow" for p sa
    by (rule waits_wake [OF assms(1) np assms(3), where p = p]) (use that in \<open>auto simp: goto_def goready_def\<close>)
  show ?thesis
  proof (cases "pc s i")
    case (SendHand h v)
    then show ?thesis using assms(2,3)
      by (intro wake [of "Sent True v" "set_param g True (set_slot g (Some v) s)"])
        (auto simp: chan_move_def set_param_def set_slot_def)
  next
    case (SendReady h v)
    then show ?thesis using assms(2,3) ok by (intro wake [of "Sent True v" s]) (auto simp: chan_move_def gor_ok_def)
  next
    case (RecvHand h x)
    then show ?thesis using assms(2,3)
      by (intro wake [of "Received True True" "set_param g True (set_slot i x s)"])
        (auto simp: chan_move_def set_param_def set_slot_def)
  next
    case (RecvReady h)
    then show ?thesis using assms(2,3) ok by (intro wake [of "Received True True" s]) (auto simp: chan_move_def gor_ok_def)
  qed (use assms(3) in simp_all)
qed

lemma waits_goto:
  assumes "waits s" "\<not> parked s i" "hands (pc s i) = None" "parked sa = parked s" "pc sa = pc s" "\<And>g. g \<noteq> i \<Longrightarrow> param sa g = param s g"
    "recvq sa = recvq s" "sendq sa = sendq s" "closed sa = closed s" "dataqsiz sa = dataqsiz s"
    "hands p = None" "\<not> rendezvous p" "p = RecvLate \<Longrightarrow> closed s" "p \<noteq> CThrow"
  shows "waits (goto i p sa)"
  by (rule waits_local [OF assms(1-3), where p = p]) (use assms in \<open>auto simp: goto_def\<close>)

lemma waits_move:
  assumes "waits s" "chan_move i s = Some s'"
  shows "waits s'"
proof (cases "hands (pc s i)")
  case (Some g)
  then show ?thesis by (rule waits_waking [OF assms])
next
  case None
  note np = not_parked [OF assms] and ok = waitsD(1) [OF assms(1), of i]
  note loc = waits_goto [OF assms(1) np None]
  show ?thesis
  proof (cases "pc s i")
    case (SendParked v)
    then have "param s i \<or> closed s" using ok np by (simp add: gor_ok_def)
    then have "s' = goto i (Sent True v) (set_param i False s) \<or> s' = goto i CPanic s"
      using assms(2) np SendParked by (cases "param s i") (simp_all add: chan_move_def)
    then show ?thesis by (auto intro!: loc simp: set_param_def)
  next
    case RecvParked
    then have "param s i \<or> closed s" using ok np by (simp add: gor_ok_def)
    then show ?thesis using assms(2) np RecvParked
      by (cases "param s i") (auto intro!: loc simp: chan_move_def set_param_def)
  next
    case RecvLate
    then have "closed s" using ok by (simp add: gor_ok_def)
    then show ?thesis using assms(2) RecvLate by (auto intro!: loc simp: chan_move_def recvclosed_def set_slot_def)
  next
    case (SendLock v b)
    then show ?thesis using assms np waits_send_locked [of s i v b] by (auto simp: chan_move_def)
  next
    case (RecvLock b)
    then show ?thesis using assms np waits_recv_locked [of s i b] by (auto simp: chan_move_def)
  next
    case CloseLock
    then show ?thesis using assms np waits_closechan [of s i] by (auto simp: chan_move_def)
  qed (use assms(2) np None waits_next_call [OF assms(1) np] in \<open>auto simp: chan_move_def split: if_splits intro!: loc\<close>)
qed

section \<open>Values\<close>

text \<open>The last value a log has for a goroutine.\<close>

definition latest :: "nat \<Rightarrow> (nat \<times> 'v option) list \<Rightarrow> 'v option option" where
  "latest i l = map_of (rev l) i"

lemma latest_snoc [simp]: "latest i (l @ [(j, x)]) = (if i = j then Some x else latest i l)"
  by (simp add: latest_def)

lemma latest_other: "(\<And>x. (i, x) \<notin> set l') \<Longrightarrow> latest i (l @ l') = latest i l"
  by (auto simp: latest_def map_add_def map_of_eq_None_iff split: option.splits dest!: map_of_SomeD)

text \<open>
  What the logs say about a goroutine: a sender that has got rid of its value has it in the log of sent values, a
  receiver that has got a value has in its variable the one that the log of received values has for it.
\<close>

definition data_at :: "'v sys \<Rightarrow> nat \<Rightarrow> bool" where
  "data_at s i \<longleftrightarrow>
    (case pc s i of
       SendHand g v \<Rightarrow> latest i (slog s) = Some (Some v) \<and> latest g (dlog s) = Some (Some v)
     | SendReady g v \<Rightarrow> latest i (slog s) = Some (Some v)
     | Sent ok v \<Rightarrow> ok \<longrightarrow> latest i (slog s) = Some (Some v)
     | SendParked v \<Rightarrow> \<not> parked s i \<and> param s i \<longrightarrow> latest i (slog s) = Some (Some v)
     | RecvParked \<Rightarrow> \<not> parked s i \<and> param s i \<longrightarrow> latest i (dlog s) = Some (slot s i)
     | RecvHand g x \<Rightarrow> latest i (dlog s) = Some x \<and> latest g (slog s) = Some x
     | RecvReady g \<Rightarrow> latest i (dlog s) = Some (slot s i)
     | Received sel ok \<Rightarrow> ok \<longrightarrow> sel \<and> latest i (dlog s) = Some (slot s i)
     | _ \<Rightarrow> True)"

lemma data_parked: "parked s i \<Longrightarrow> waiting (pc s i) \<Longrightarrow> data_at s i"
  by (cases "pc s i") (auto simp: data_at_def)

lemma data_frame:
  assumes "data_at s k" "k \<notin> T" "\<And>h. hands (pc s k) = Some h \<Longrightarrow> h \<notin> T"
    and "\<And>k. k \<notin> T \<Longrightarrow> pc s' k = pc s k \<and> parked s' k = parked s k \<and> param s' k = param s k \<and> slot s' k = slot s k"
    and "slog s' = slog s @ la" "dlog s' = dlog s @ lb" "\<And>j x. (j, x) \<in> set la \<or> (j, x) \<in> set lb \<Longrightarrow> j \<in> T"
  shows "data_at s' k"
proof -
  have "latest j (slog s') = latest j (slog s)" "latest j (dlog s') = latest j (dlog s)" if "j \<notin> T" for j
    using that assms(5-7) by (auto intro: latest_other)
  then show ?thesis using assms(1-4) unfolding data_at_def by (cases "pc s k") auto
qed

text \<open>
  A step touches its goroutine and perhaps goroutines in the queues or, when it wakes one, that one; the claims of
  the others are not about these.
\<close>

lemma data_step:
  assumes "waits s" "\<And>k. data_at s k" "\<not> parked s i" "T = insert i G"
    and "\<And>g j. g \<in> G \<Longrightarrow> hands (pc s j) = Some g \<Longrightarrow> j = i"
    and "\<And>k. k \<notin> T \<Longrightarrow> pc s' k = pc s k \<and> parked s' k = parked s k \<and> param s' k = param s k \<and> slot s' k = slot s k"
    and "slog s' = slog s @ la" "dlog s' = dlog s @ lb" "\<And>j x. (j, x) \<in> set la \<or> (j, x) \<in> set lb \<Longrightarrow> j \<in> T"
    and "\<And>k. k \<in> T \<Longrightarrow> data_at s' k"
  shows "data_at s' k"
proof (cases "k \<in> T")
  case True
  then show ?thesis by (rule assms(10))
next
  case False
  have "h \<notin> T" if "hands (pc s k) = Some h" for h
  proof -
    have "parked s h" using waitsD(1) [OF assms(1), of k] that by (simp add: gor_ok_def)
    then show ?thesis using that assms(3-5) False by auto
  qed
  then show ?thesis by (rule data_frame [OF assms(2) False _ assms(6-9)])
qed

lemma data_goto:
  assumes "waits s" "\<And>k. data_at s k" "\<not> parked s i"
    and "s' = goto i p sa" "pc sa = pc s" "\<And>g. g \<noteq> i \<Longrightarrow> parked sa g = parked s g \<and> param sa g = param s g \<and> slot sa g = slot s g"
      "slog sa = slog s @ la" "dlog sa = dlog s @ lb" "\<And>j x. (j, x) \<in> set la \<or> (j, x) \<in> set lb \<Longrightarrow> j = i" "data_at s' i"
  shows "data_at s' k"
  by (rule data_step [OF assms(1-3), where T = "{i}" and G = "{}" and la = la and lb = lb])
    (use assms(4-) in \<open>auto simp: goto_def\<close>)

lemma gopark_goto: "gopark i p s = goto i p (s\<lparr>parked := (parked s)(i := True)\<rparr>)"
  by (simp add: gopark_def goto_def)

text \<open>A goroutine takes one that is parked out of a queue and passes a value to it or from it.\<close>

lemma data_take:
  assumes "waits s" "\<And>k. data_at s k" "\<not> parked s i" "g \<in> set (rgs s) \<or> g \<in> set (sgs s)"
    and "s' = goto i p sa" "pc sa = pc s" "parked sa = parked s" "param sa = param s" "\<And>k. k \<noteq> i \<Longrightarrow> slot sa k = slot s k"
      "slog sa = slog s @ la" "dlog sa = dlog s @ lb" "\<And>j x. (j, x) \<in> set la \<or> (j, x) \<in> set lb \<Longrightarrow> j = i \<or> j = g" "data_at s' i"
  shows "data_at s' k"
proof -
  note w = waitsD [OF assms(1)]
  have "parked s g" using w(4,10) assms(4) by blast
  then have g: "parked s g" "waiting (pc s g)" "g \<noteq> i" using w(1) [of g] assms(3) by (auto simp: gor_ok_def)
  have d: "data_at s' g" by (rule data_parked) (use g assms(5-7) in \<open>auto simp: goto_def\<close>)
  have h: "hands (pc s j) \<noteq> Some g" for j using w(1) [of j] assms(4) by (auto simp: gor_ok_def)
  show ?thesis
    by (rule data_step [OF assms(1-3), where T = "{i, g}" and G = "{g}" and la = la and lb = lb])
      (use d h assms(5-) in \<open>auto simp: goto_def\<close>)
qed

lemma data_send_locked:
  assumes "waits s" "\<And>k. data_at s k" "\<not> parked s i"
  shows "data_at (send_locked i v b s) k"
proof -
  note d = gopark_goto set_param_def goto_def data_at_def [of _ i]
  consider "closed s" | "\<not> closed s" "dataqsiz s = 0" | "\<not> closed s" "dataqsiz s > 0" "dataqsiz s \<le> qcount s"
    | "\<not> closed s" "dataqsiz s > 0" "qcount s < dataqsiz s" by linarith
  then show ?thesis
  proof cases
    case 1
    then show ?thesis by (simp add: send_locked_def) (rule data_goto [OF assms refl, where la = "[]" and lb = "[]"], auto simp: d)
  next
    case 2
    show ?thesis
    proof (cases "recvq s")
      case (Cons sg q)
      then show ?thesis using 2
        by (simp add: send_locked_def)
          (rule data_take [OF assms _ refl, where g = "sg_g sg" and la = "[(i, Some v)]" and lb = "[(sg_g sg, Some v)]"],
            auto simp: d rgs_def)
    next
      case Nil
      then show ?thesis using 2
        by (simp add: send_locked_def gopark_goto)
          (intro conjI impI; rule data_goto [OF assms refl, where la = "[]" and lb = "[]"]; auto simp: d)
    qed
  next
    case 3
    then show ?thesis
      by (simp add: send_locked_def gopark_goto)
        (intro conjI impI; rule data_goto [OF assms refl, where la = "[]" and lb = "[]"]; auto simp: d)
  next
    case 4
    then show ?thesis
    proof (cases "recvq s")
      case (Cons sg q)
      then show ?thesis using 4
        by (simp add: send_locked_def)
          (rule data_take [OF assms _ refl, where g = "sg_g sg" and la = "[(i, Some v)]" and lb = "[]"], auto simp: d rgs_def)
    next
      case Nil
      then show ?thesis using 4
        by (simp add: send_locked_def)
          (rule data_goto [OF assms refl, where la = "[(i, Some v)]" and lb = "[]"], auto simp: d)
    qed
  qed
qed

lemma data_recv_locked:
  assumes "waits s" "\<And>k. data_at s k" "\<not> parked s i"
  shows "data_at (recv_locked i b s) k"
proof -
  note d = gopark_goto set_param_def goto_def set_slot_def data_at_def [of _ i]
  have rc: "data_at (recvclosed i s) k"
    unfolding recvclosed_def by (rule data_goto [OF assms refl, where la = "[]" and lb = "[]"]) (auto simp: d)
  have no: "data_at (goto i (Received False False) s) k"
    by (rule data_goto [OF assms refl, where la = "[]" and lb = "[]"]) (auto simp: d)
  consider "dataqsiz s = 0" "\<not> closed s" | "0 < dataqsiz s" "qcount s = 0" "\<not> closed s" | "0 < dataqsiz s" "0 < qcount s"
    | "closed s" "dataqsiz s = 0 \<or> qcount s = 0" by linarith
  then show ?thesis
  proof cases
    case 1
    show ?thesis
    proof (cases "sendq s")
      case (Cons sg q)
      then show ?thesis using 1
        by (simp add: recv_locked_def)
          (rule data_take [OF assms _ refl, where g = "sg_g sg" and la = "[(sg_g sg, sg_elem sg)]" and lb = "[(i, sg_elem sg)]"],
            auto simp: d sgs_def)
    next
      case Nil
      then show ?thesis using 1 no
        by (simp add: recv_locked_def gopark_goto)
          (intro impI; rule data_goto [OF assms refl, where la = "[]" and lb = "[]"]; auto simp: d)
    qed
  next
    case 2
    then show ?thesis using no
      by (simp add: recv_locked_def gopark_goto)
        (intro impI; rule data_goto [OF assms refl, where la = "[]" and lb = "[]"]; auto simp: d)
  next
    case 3
    show ?thesis
    proof (cases "sendq s")
      case (Cons sg q)
      then show ?thesis using 3
        by (simp add: recv_locked_def Let_def set_slot_def)
          (rule data_take [OF assms _ refl, where g = "sg_g sg" and la = "[]" and lb = "[(i, buf s ! recvx s)]"], auto simp: d sgs_def)
    next
      case Nil
      then show ?thesis using 3
        by (simp add: recv_locked_def Let_def set_slot_def)
          (rule data_goto [OF assms refl, where la = "[]" and lb = "[(i, buf s ! recvx s)]"], auto simp: d)
    qed
  next
    case 4
    then show ?thesis using rc by (auto simp: recv_locked_def)
  qed
qed

lemma data_closechan:
  assumes "waits s" "\<And>k. data_at s k" "\<not> parked s i"
  shows "data_at (closechan i s) k"
proof (cases "closed s")
  case True
  then show ?thesis
    by (simp add: closechan_def)
      (rule data_goto [OF assms refl, where la = "[]" and lb = "[]"], auto simp: goto_def data_at_def [of _ i])
next
  case False
  note w = waitsD [OF assms(1)]
  define s' where "s' = closechan i s"
  have e: "pc s' = (pc s)(i := CClosed)" "slog s' = slog s" "dlog s' = dlog s" "slot s' = slot s"
    "\<And>g. parked s' g = (parked s g \<and> g \<notin> set (rgs s) \<and> g \<notin> set (sgs s))"
    "\<And>g. param s' g = (param s g \<and> g \<notin> set (rgs s) \<and> g \<notin> set (sgs s))"
    using False by (auto simp: s'_def closechan_def goto_def release_simps rgs_def sgs_def)
  have d: "data_at s' g" if "g \<in> set (rgs s) \<or> g \<in> set (sgs s)" for g
  proof -
    have "waiting (pc s g)" using w(1) [of g] w(4,10) that by (auto simp: gor_ok_def)
    then have "waiting (pc s' g) \<or> pc s' g = CClosed" using e(1) by auto
    then show ?thesis using e(6) [of g] that by (cases "pc s' g") (auto simp: data_at_def)
  qed
  have "data_at s' k"
  proof (rule data_step [OF assms, where T = "insert i (set (rgs s) \<union> set (sgs s))" and la = "[]" and lb = "[]"])
    show "g \<in> set (rgs s) \<union> set (sgs s) \<Longrightarrow> hands (pc s j) = Some g \<Longrightarrow> j = i" for g j
      using w(1) [of j] by (auto simp: gor_ok_def)
  qed (use d e in \<open>auto simp: data_at_def [of _ i]\<close>)
  then show ?thesis by (simp add: s'_def)
qed

lemma data_wake:
  assumes "waits s" "\<And>k. data_at s k" "\<not> parked s i" "hands (pc s i) = Some g"
    and "s' = goto i p (goready g sa)" "pc sa = pc s" "parked sa = parked s" "slog sa = slog s" "dlog sa = dlog s"
      "\<And>k. k \<noteq> i \<Longrightarrow> k \<noteq> g \<Longrightarrow> param sa k = param s k \<and> slot sa k = slot s k" "data_at s' i" "data_at s' g"
  shows "data_at s' k"
proof (rule data_step [OF assms(1-3), where T = "{i, g}" and G = "{g}" and la = "[]" and lb = "[]"])
  show "h \<in> {g} \<Longrightarrow> hands (pc s j) = Some h \<Longrightarrow> j = i" for h j using waitsD(6) [OF assms(1), of j g i] assms(4) by blast
qed (use assms(5-) in \<open>auto simp: goto_def goready_def\<close>)

lemma data_waking:
  assumes "waits s" "\<And>k. data_at s k" "chan_move i s = Some s'" "hands (pc s i) = Some g"
  shows "data_at s' k"
proof -
  note np = not_parked [OF assms(1,3)]
  note d = goto_def goready_def set_param_def set_slot_def data_at_def
  note wake = data_wake [OF assms(1,2) np assms(4)]
  have di: "data_at s i" by (rule assms(2))
  have gi: "parked s g" "partner (pc s i) (pc s g)" using waitsD(1) [OF assms(1), of i] assms(4) by (simp_all add: gor_ok_def)
  then have g: "g \<noteq> i" using np by auto
  show ?thesis
  proof (cases "pc s i")
    case (SendHand h v)
    have s': "s' = goto i (Sent True v) (goready g (set_param g True (set_slot g (Some v) s)))"
      using SendHand assms(3,4) by (simp add: chan_move_def)
    show ?thesis by (rule wake [OF s']) (use SendHand assms(4) g gi di in \<open>simp_all add: s' d\<close>)
  next
    case (SendReady h v)
    have s': "s' = goto i (Sent True v) (goready g s)" using SendReady assms(3,4) by (simp add: chan_move_def)
    show ?thesis by (rule wake [OF s']) (use SendReady assms(4) g gi di in \<open>simp_all add: s' d\<close>)
  next
    case (RecvHand h x)
    then obtain v where v: "pc s g = SendParked v" "x = Some v" using gi assms(4) by auto
    have s': "s' = goto i (Received True True) (goready g (set_param g True (set_slot i x s)))"
      using RecvHand assms(3,4) by (simp add: chan_move_def)
    show ?thesis by (rule wake [OF s']) (use RecvHand assms(4) g v di in \<open>simp_all add: s' d\<close>)
  next
    case (RecvReady h)
    then obtain v where v: "pc s g = SendWait v" using gi assms(4) by auto
    have s': "s' = goto i (Received True True) (goready g s)" using RecvReady assms(3,4) by (simp add: chan_move_def)
    show ?thesis by (rule wake [OF s']) (use RecvReady assms(4) g v di in \<open>simp_all add: s' d\<close>)
  qed (use assms(4) in simp_all)
qed

lemma data_local:
  assumes "waits s" "\<And>k. data_at s k" "\<not> parked s i" "pc sa = pc s" "parked sa = parked s"
    "\<And>g. g \<noteq> i \<Longrightarrow> param sa g = param s g \<and> slot sa g = slot s g" "slog sa = slog s" "dlog sa = dlog s" "data_at (goto i p sa) i"
  shows "data_at (goto i p sa) k"
  by (rule data_goto [OF assms(1-3) refl, where la = "[]" and lb = "[]"]) (use assms(4-) in auto)

lemma data_next_call:
  assumes "waits s" "\<And>k. data_at s k" "\<not> parked s i" "next_call i s = Some s'"
  shows "data_at s' k"
proof -
  obtain c cs where s': "s' = goto i (entry c) (s\<lparr>calls := (calls s)(i := cs)\<rparr>)"
    using assms(4) by (auto simp: next_call_def split: list.splits)
  have "data_at s' i" unfolding s' by (cases c) (simp_all add: goto_def data_at_def)
  then show ?thesis unfolding s' by (rule data_local [OF assms(1-3), rotated -1]) simp_all
qed

lemma data_move:
  assumes "waits s" "\<And>k. data_at s k" "chan_move i s = Some s'"
  shows "data_at s' k"
proof (cases "hands (pc s i)")
  case (Some g)
  then show ?thesis by (rule data_waking [OF assms])
next
  case None
  note np = not_parked [OF assms(1,3)] and gi = waitsD(1) [OF assms(1), of i]
  note d = goto_def set_param_def set_slot_def data_at_def
  have di: "data_at s i" by (rule assms(2))
  note lg = data_local [OF assms(1,2) np, where k = k]
  show ?thesis
  proof (cases "pc s i")
    case (SendLock v b)
    then show ?thesis using assms(3) data_send_locked [OF assms(1,2) np, of v b k] by (auto simp: chan_move_def)
  next
    case (RecvLock b)
    then show ?thesis using assms(3) data_recv_locked [OF assms(1,2) np, of b k] by (auto simp: chan_move_def)
  next
    case CloseLock
    then show ?thesis using assms(3) data_closechan [OF assms(1,2) np, of k] by (auto simp: chan_move_def)
  next
    case RecvLate
    then have "s' = goto i (Received True False) (set_slot i None s)"
      using assms(3) gi by (simp add: chan_move_def recvclosed_def gor_ok_def)
    then show ?thesis using lg [of "set_slot i None s" "Received True False"] by (simp add: set_slot_def goto_def data_at_def [of _ i])
  next
    case (SendParked v)
    then show ?thesis using assms(3) np di
      by (cases "param s i"; cases "closed s") (auto simp: chan_move_def intro!: lg, auto simp: d)
  next
    case RecvParked
    then show ?thesis using assms(3) np di by (cases "param s i") (auto simp: chan_move_def intro!: lg, auto simp: d)
  qed (use assms(3) np None data_next_call [OF assms(1,2) np] in \<open>auto simp: chan_move_def split: if_splits intro!: lg\<close>, auto simp: d)
qed

section \<open>The buffer keeps the order\<close>

lemma fifo_cong:
  assumes "ring_ok s" "fifo s" "buf s' = buf s" "recvx s' = recvx s" "dataqsiz s' = dataqsiz s" "qcount s' = qcount s"
    "sendx s' = sendx s" "slog s' = slog s" "dlog s' = dlog s"
  shows "ring_ok s' \<and> fifo s'"
  using assms contents_cong [OF assms(3-6)] by (simp add: ring_ok_def fifo_def)

lemma fifo_hand:
  assumes "ring_ok s" "fifo s" "dataqsiz s = 0" "buf s' = buf s" "recvx s' = recvx s" "dataqsiz s' = dataqsiz s"
    "qcount s' = qcount s" "sendx s' = sendx s" "slog s' = slog s @ [(i, x)]" "dlog s' = dlog s @ [(j, x)]"
  shows "ring_ok s' \<and> fifo s'"
  using assms contents_cong [OF assms(4-7)] by (simp add: ring_ok_def fifo_def contents_def)

lemma fifo_send_locked:
  assumes "ring_ok s" "fifo s"
  shows "ring_ok (send_locked i v b s) \<and> fifo (send_locked i v b s)"
proof -
  note d = goto_def gopark_def set_param_def
  consider "closed s" | "\<not> closed s" "dataqsiz s = 0" | "\<not> closed s" "dataqsiz s > 0" "dataqsiz s \<le> qcount s"
    | "\<not> closed s" "dataqsiz s > 0" "qcount s < dataqsiz s" by linarith
  then show ?thesis
  proof cases
    case 1
    then show ?thesis by (intro fifo_cong [OF assms]) (simp_all add: send_locked_def d)
  next
    case 2
    show ?thesis
    proof (cases "recvq s")
      case Nil
      then show ?thesis using 2 by (intro fifo_cong [OF assms]) (simp_all add: send_locked_def d)
    next
      case (Cons sg q)
      then show ?thesis using 2
        by (intro fifo_hand [OF assms, where i = i and j = "sg_g sg" and x = "Some v"]) (simp_all add: send_locked_def d)
    qed
  next
    case 3
    then show ?thesis by (intro fifo_cong [OF assms]) (simp_all add: send_locked_def d)
  next
    case 4
    let ?s = "send_locked i v b s"
    have f: "buf ?s = (buf s)[sendx s := Some v]" "sendx ?s = wrap_index (sendx s) (dataqsiz s)" "qcount ?s = qcount s + 1"
      "recvx ?s = recvx s" "dataqsiz ?s = dataqsiz s" "slog ?s = slog s @ [(i, Some v)]" "dlog ?s = dlog s"
      using 4 by (cases "recvq s"; simp add: send_locked_def goto_def)+
    show ?thesis using ring_write [OF assms(1) 4(3) f(1-5)] assms(2) f(6,7) by (simp add: fifo_def)
  qed
qed

lemma fifo_recv_locked:
  assumes "ring_ok s" "fifo s"
  shows "ring_ok (recv_locked i b s) \<and> fifo (recv_locked i b s)"
proof -
  note d = goto_def gopark_def set_param_def recvclosed_def set_slot_def
  consider "dataqsiz s = 0" | "0 < dataqsiz s" "qcount s = 0" | "0 < dataqsiz s" "0 < qcount s" by linarith
  then show ?thesis
  proof cases
    case 1
    show ?thesis
    proof (cases "closed s \<or> sendq s = []")
      case True
      then show ?thesis using 1 by (intro fifo_cong [OF assms]) (auto simp: recv_locked_def d)
    next
      case False
      then obtain sg q where "sendq s = sg # q" "\<not> closed s" by (cases "sendq s") auto
      then show ?thesis using 1
        by (intro fifo_hand [OF assms, where i = "sg_g sg" and j = i and x = "sg_elem sg"]) (simp_all add: recv_locked_def d)
    qed
  next
    case 2
    then show ?thesis by (intro fifo_cong [OF assms]) (simp_all add: recv_locked_def d)
  next
    case 3
    let ?s = "recv_locked i b s"
    have f: "buf ?s = (buf s)[recvx s := None]" "recvx ?s = wrap_index (recvx s) (dataqsiz s)" "qcount ?s = qcount s - 1"
      "sendx ?s = sendx s" "dataqsiz ?s = dataqsiz s" "slog ?s = slog s" "dlog ?s = dlog s @ [(i, buf s ! recvx s)]"
      using 3 by (simp_all add: recv_locked_def Let_def goto_def set_slot_def split: list.split)
    show ?thesis using ring_read [OF assms(1) 3(2) f(1-5)] assms(2) f(6,7) by (simp add: fifo_def)
  qed
qed

lemma fifo_move:
  assumes "ring_ok s" "fifo s" "chan_move i s = Some s'"
  shows "ring_ok s' \<and> fifo s'"
proof (cases "pc s i")
  case CloseLock
  then have "s' = closechan i s" using assms(3) by (simp add: chan_move_def)
  then show ?thesis by (intro fifo_cong [OF assms(1,2)]) (simp_all add: closechan_def goto_def release_simps)
next
  case (SendLock v b)
  then show ?thesis using assms fifo_send_locked [OF assms(1,2), of i v b] by (auto simp: chan_move_def)
next
  case (RecvLock b)
  then show ?thesis using assms fifo_recv_locked [OF assms(1,2), of i b] by (auto simp: chan_move_def)
qed (use assms(3) in \<open>auto intro!: fifo_cong [OF assms(1,2), THEN conjunct1] fifo_cong [OF assms(1,2), THEN conjunct2]
    simp: chan_move_def chan_defs split: if_splits list.splits\<close>)

section \<open>Wake-ups\<close>

text \<open>Receivers and senders of a buffered channel that are on their way to the buffer, but not in a queue.\<close>

definition receiving :: "'v sys \<Rightarrow> nat \<Rightarrow> bool" where
  "receiving s g \<longleftrightarrow> pc s g = RecvLock True \<or> pc s g = RecvWait \<and> g \<notin> set (rgs s)"

definition sending :: "'v sys \<Rightarrow> nat \<Rightarrow> bool" where
  "sending s g \<longleftrightarrow> (\<exists>v. pc s g = SendLock v True \<or> pc s g = SendWait v \<and> g \<notin> set (sgs s))"

definition bounded :: "nat \<Rightarrow> 'v sys \<Rightarrow> bool" where
  "bounded n s \<longleftrightarrow> (\<forall>g \<ge> n. pc s g = CIdle \<and> calls s g = [])"

text \<open>
  While receivers wait in the queue there are at least as many others on their way as the buffer has elements, and
  while senders wait at least as many others as there is room.
\<close>

definition recv_wake :: "nat \<Rightarrow> 'v sys \<Rightarrow> bool" where
  "recv_wake n s \<longleftrightarrow> (0 < dataqsiz s \<and> recvq s \<noteq> [] \<longrightarrow> qcount s \<le> card {g. g < n \<and> receiving s g})"

definition send_wake :: "nat \<Rightarrow> 'v sys \<Rightarrow> bool" where
  "send_wake n s \<longleftrightarrow> (0 < dataqsiz s \<and> sendq s \<noteq> [] \<longrightarrow> dataqsiz s - qcount s \<le> card {g. g < n \<and> sending s g})"

lemma card_below:
  fixes n :: nat
  shows "(\<And>g. P g \<Longrightarrow> Q g) \<Longrightarrow> card {g. g < n \<and> P g} \<le> card {g. g < n \<and> Q g}"
    and "(\<And>g. P g \<Longrightarrow> g \<noteq> i \<Longrightarrow> Q g) \<Longrightarrow> card {g. g < n \<and> P g} \<le> card {g. g < n \<and> Q g} + 1"
    and "(\<And>g. P g \<Longrightarrow> Q g) \<Longrightarrow> k < n \<Longrightarrow> \<not> P k \<Longrightarrow> Q k \<Longrightarrow> card {g. g < n \<and> P g} + 1 \<le> card {g. g < n \<and> Q g}"
proof -
  show "card {g. g < n \<and> P g} \<le> card {g. g < n \<and> Q g}" if "\<And>g. P g \<Longrightarrow> Q g"
    by (rule card_mono) (use that in auto)
  show "card {g. g < n \<and> P g} \<le> card {g. g < n \<and> Q g} + 1" if "\<And>g. P g \<Longrightarrow> g \<noteq> i \<Longrightarrow> Q g"
  proof -
    have "card {g. g < n \<and> P g} \<le> card (insert i {g. g < n \<and> Q g})" by (rule card_mono) (use that in auto)
    then show ?thesis using card_insert_le_m1 [of "card {g. g < n \<and> Q g} + 1" "{g. g < n \<and> Q g}" i] by (simp add: card_insert_if split: if_splits)
  qed
  show "card {g. g < n \<and> P g} + 1 \<le> card {g. g < n \<and> Q g}" if "\<And>g. P g \<Longrightarrow> Q g" "k < n" "\<not> P k" "Q k"
  proof -
    have "card (insert k {g. g < n \<and> P g}) \<le> card {g. g < n \<and> Q g}" by (rule card_mono) (use that in auto)
    then show ?thesis using that(3) by simp
  qed
qed

lemma recv_wake_frame:
  assumes "recv_wake n s" "recvq s' = recvq s \<or> recvq s' = []" "qcount s' \<le> qcount s" "dataqsiz s' = dataqsiz s" "pc s' = (pc s)(i := p)"
    "receiving s i \<Longrightarrow> p = RecvLock True \<or> qcount s' < qcount s \<or> qcount s' = 0"
  shows "recv_wake n s'"
proof (cases "recvq s' = [] \<or> dataqsiz s = 0 \<or> qcount s' = 0")
  case True
  then show ?thesis using assms(4) by (auto simp: recv_wake_def)
next
  case False
  then have q: "rgs s' = rgs s" "recvq s \<noteq> []" using assms(2) by (auto simp: rgs_def)
  have le: "qcount s \<le> card {g. g < n \<and> receiving s g}" using assms(1) q False by (simp add: recv_wake_def)
  have "card {g. g < n \<and> receiving s g} \<le> card {g. g < n \<and> receiving s' g} + 1"
    by (rule card_below(2) [where i = i]) (use q assms(5) in \<open>auto simp: receiving_def\<close>)
  moreover have "card {g. g < n \<and> receiving s g} \<le> card {g. g < n \<and> receiving s' g}" if "\<not> receiving s i \<or> p = RecvLock True"
    by (rule card_below(1)) (use q that assms(5) in \<open>auto simp: receiving_def\<close>)
  ultimately show ?thesis using le assms(3,6) False by (cases "receiving s i \<and> p \<noteq> RecvLock True") (auto simp: recv_wake_def)
qed

lemma send_wake_frame:
  assumes "send_wake n s" "sendq s' = sendq s \<or> sendq s' = []" "qcount s \<le> qcount s'" "dataqsiz s' = dataqsiz s" "pc s' = (pc s)(i := p)"
    "sending s i \<Longrightarrow> (\<exists>v. p = SendLock v True) \<or> qcount s < qcount s' \<or> dataqsiz s \<le> qcount s'" "qcount s' \<le> dataqsiz s"
  shows "send_wake n s'"
proof (cases "sendq s' = [] \<or> dataqsiz s = 0 \<or> dataqsiz s \<le> qcount s'")
  case True
  then show ?thesis using assms(4) by (auto simp: send_wake_def)
next
  case False
  then have q: "sgs s' = sgs s" "sendq s \<noteq> []" using assms(2) by (auto simp: sgs_def)
  have le: "dataqsiz s - qcount s \<le> card {g. g < n \<and> sending s g}" using assms(1) q False by (simp add: send_wake_def)
  have "card {g. g < n \<and> sending s g} \<le> card {g. g < n \<and> sending s' g} + 1"
    by (rule card_below(2) [where i = i]) (use q assms(5) in \<open>auto simp: sending_def\<close>)
  moreover have "card {g. g < n \<and> sending s g} \<le> card {g. g < n \<and> sending s' g}" if "\<not> sending s i \<or> (\<exists>v. p = SendLock v True)"
    by (rule card_below(1)) (use q that assms(5) in \<open>auto simp: sending_def\<close>)
  ultimately show ?thesis using le assms(3,4,6) False
    by (cases "sending s i \<and> (\<forall>v. p \<noteq> SendLock v True)") (auto simp: send_wake_def)
qed

lemma recv_wake_take:
  assumes "recv_wake n s" "waits s" "bounded n s" "0 < dataqsiz s" "recvq s = sg # recvq s'" "qcount s' = qcount s + 1"
    "dataqsiz s' = dataqsiz s" "pc s' = (pc s)(i := p)" "\<not> receiving s i" "\<not> parked s i"
  shows "recv_wake n s'"
proof -
  note w = waitsD [OF assms(2)]
  have q: "rgs s = sg_g sg # rgs s'" using assms(5) by (simp add: rgs_def)
  then have g: "pc s (sg_g sg) = RecvWait" "sg_g sg \<noteq> i" using w(4) [of "sg_g sg"] assms(4,10) by auto
  have n: "sg_g sg < n" using g assms(3) unfolding bounded_def by (metis cpc.distinct(25) leI cpc.simps)
  have "sg_g sg \<notin> set (rgs s')" using w(2) q by simp
  then have "card {g. g < n \<and> receiving s g} + 1 \<le> card {g. g < n \<and> receiving s' g}"
    by (intro card_below(3) [where k = "sg_g sg"]) (use q g n assms(8,9) in \<open>auto simp: receiving_def\<close>)
  then show ?thesis using assms(1,4-7) by (simp add: recv_wake_def)
qed

lemma send_wake_take:
  assumes "send_wake n s" "waits s" "bounded n s" "0 < dataqsiz s" "sendq s = sg # sendq s'" "qcount s' = qcount s - 1"
    "dataqsiz s' = dataqsiz s" "pc s' = (pc s)(i := p)" "\<not> sending s i" "\<not> parked s i"
  shows "send_wake n s'"
proof -
  note w = waitsD [OF assms(2)]
  have q: "sgs s = sg_g sg # sgs s'" using assms(5) by (simp add: sgs_def)
  have "sudog_ok s sg" using w(5) assms(5) by simp
  then obtain v where g: "pc s (sg_g sg) = SendWait v" "sg_g sg \<noteq> i" using assms(4,10) by (auto simp: sudog_ok_def)
  have n: "sg_g sg < n" using g assms(3) unfolding bounded_def by (metis cpc.distinct(9) leI cpc.simps)
  have "sg_g sg \<notin> set (sgs s')" using w(3) q by simp
  then have "card {g. g < n \<and> sending s g} + 1 \<le> card {g. g < n \<and> sending s' g}"
    by (intro card_below(3) [where k = "sg_g sg"]) (use q g n assms(8,9) in \<open>auto simp: sending_def\<close>)
  then show ?thesis using assms(1,4-7) by (auto simp: send_wake_def)
qed

lemma wake_send_locked:
  assumes "recv_wake n s" "send_wake n s" "waits s" "bounded n s" "ring_ok s" "pc s i = SendLock v b" "\<not> parked s i"
  shows "recv_wake n (send_locked i v b s) \<and> send_wake n (send_locked i v b s)"
proof -
  let ?s = "send_locked i v b s"
  note d = send_locked_def gopark_def goto_def set_param_def Let_def
  have r: "\<not> receiving s i" using assms(6) by (simp add: receiving_def)
  have le: "qcount s \<le> dataqsiz s" using assms(5) by (simp add: ring_ok_def)
  consider (over) "closed s" | (sync) "\<not> closed s" "dataqsiz s = 0" | (full) "\<not> closed s" "dataqsiz s > 0" "dataqsiz s \<le> qcount s"
    | (room) "\<not> closed s" "dataqsiz s > 0" "qcount s < dataqsiz s" by linarith
  then show ?thesis
  proof cases
    case over
    then have "recvq s = []" "sendq s = []" using waitsD(8) [OF assms(3)] by blast+
    then show ?thesis using over by (simp add: d recv_wake_def send_wake_def)
  next
    case sync
    then show ?thesis by (simp add: d recv_wake_def send_wake_def split: list.split)
  next
    case full
    have "recv_wake n ?s" by (rule recv_wake_frame [OF assms(1), where i = i and p = "pc ?s i"]) (use full r in \<open>auto simp: d\<close>)
    then show ?thesis using full by (simp add: d send_wake_def)
  next
    case room
    have f: "qcount ?s = qcount s + 1" "dataqsiz ?s = dataqsiz s" "pc ?s = (pc s)(i := pc ?s i)" "sendq ?s = sendq s" "recvq ?s = tl (recvq s)"
      using room by (simp_all add: d split: list.split)
    have "send_wake n ?s" by (rule send_wake_frame [OF assms(2) _ _ f(2,3)]) (use f room in auto)
    moreover have "recv_wake n ?s"
    proof (cases "recvq s")
      case Nil
      then show ?thesis using f by (simp add: recv_wake_def)
    next
      case (Cons sg q)
      then show ?thesis using f(5) by (intro recv_wake_take [OF assms(1,3,4) room(2) _ f(1-3) r assms(7)]) simp
    qed
    ultimately show ?thesis by blast
  qed
qed

lemma wake_recv_locked:
  assumes "recv_wake n s" "send_wake n s" "waits s" "bounded n s" "ring_ok s" "pc s i = RecvLock b" "\<not> parked s i"
  shows "recv_wake n (recv_locked i b s) \<and> send_wake n (recv_locked i b s)"
proof -
  let ?s = "recv_locked i b s"
  note d = recv_locked_def gopark_def goto_def set_param_def set_slot_def recvclosed_def Let_def
  have r: "\<not> sending s i" using assms(6) by (simp add: sending_def)
  have le: "qcount s \<le> dataqsiz s" using assms(5) by (simp add: ring_ok_def)
  consider (sync) "dataqsiz s = 0" | (none) "dataqsiz s > 0" "qcount s = 0" | (some) "dataqsiz s > 0" "0 < qcount s" by linarith
  then show ?thesis
  proof cases
    case sync
    then show ?thesis by (simp add: d recv_wake_def send_wake_def split: list.split)
  next
    case none
    have "send_wake n ?s" by (rule send_wake_frame [OF assms(2), where i = i and p = "pc ?s i"]) (use none r in \<open>auto simp: d\<close>)
    then show ?thesis using none by (simp add: d recv_wake_def)
  next
    case some
    have f: "qcount ?s = qcount s - 1" "dataqsiz ?s = dataqsiz s" "pc ?s = (pc s)(i := pc ?s i)" "recvq ?s = recvq s" "sendq ?s = tl (sendq s)"
      using some by (simp_all add: d split: list.split)
    have "recv_wake n ?s" by (rule recv_wake_frame [OF assms(1) _ _ f(2,3)]) (use f some in auto)
    moreover have "send_wake n ?s"
    proof (cases "sendq s")
      case Nil
      then show ?thesis using f by (simp add: send_wake_def)
    next
      case (Cons sg q)
      then show ?thesis using f(5) by (intro send_wake_take [OF assms(2,3,4) some(1) _ f(1-3) r assms(7)]) simp
    qed
    ultimately show ?thesis by blast
  qed
qed

lemma wake_move:
  assumes "recv_wake n s" "send_wake n s" "waits s" "bounded n s" "ring_ok s" "chan_move i s = Some s'"
  shows "recv_wake n s' \<and> send_wake n s'"
proof -
  note np = not_parked [OF assms(3,6)]
  have le: "qcount s \<le> dataqsiz s" using assms(5) by (simp add: ring_ok_def)
  have loc: "recv_wake n t \<and> send_wake n t" if "\<And>j. j \<noteq> i \<Longrightarrow> pc t j = pc s j" "recvq t = recvq s" "sendq t = sendq s"
      "qcount t = qcount s" "dataqsiz t = dataqsiz s" "pc s i = RecvWait \<Longrightarrow> pc t i = RecvLock True"
      "\<And>v. pc s i = SendWait v \<Longrightarrow> pc t i = SendLock v True" "pc s i \<noteq> RecvLock True" "\<And>v. pc s i \<noteq> SendLock v True" for t
  proof -
    have "pc t = (pc s)(i := pc t i)" using that(1) by auto
    then show ?thesis
      using recv_wake_frame [OF assms(1), of t i "pc t i"] send_wake_frame [OF assms(2), of t i "pc t i"] that(2-) le
      by (auto simp: receiving_def sending_def)
  qed
  show ?thesis
  proof (cases "pc s i")
    case (SendLock v b)
    then show ?thesis using wake_send_locked [OF assms(1-5) SendLock np] assms(6) by (simp add: chan_move_def)
  next
    case (RecvLock b)
    then show ?thesis using wake_recv_locked [OF assms(1-5) RecvLock np] assms(6) by (simp add: chan_move_def)
  next
    case CloseLock
    then have s': "s' = closechan i s" using assms(6) by (simp add: chan_move_def)
    show ?thesis
    proof (cases "closed s")
      case True
      then show ?thesis unfolding s' by (intro loc) (simp_all add: CloseLock closechan_def goto_def)
    next
      case False
      then show ?thesis by (simp add: s' closechan_def goto_def recv_wake_def send_wake_def)
    qed
  qed (use assms(6) np in \<open>auto intro!: loc [THEN conjunct1] loc [THEN conjunct2] simp: chan_move_def chan_defs split: if_splits list.splits\<close>)
qed

lemma bounded_move:
  assumes "bounded n s" "chan_move i s = Some s'"
  shows "bounded n s'"
proof -
  have "i < n" using assms by (cases "n \<le> i") (auto simp: bounded_def chan_move_def next_call_def)
  moreover have "pc s' j = pc s j \<and> calls s' j = calls s j" if "j \<noteq> i" for j
    using assms(2) that
    by (cases "pc s i") (auto simp: chan_move_def chan_defs send_locked_def recv_locked_def closechan_def release_simps Let_def
        split: if_splits list.splits)
  ultimately show ?thesis using assms(1) unfolding bounded_def by (metis leD)
qed

section \<open>Properties\<close>

definition chan_inv :: "nat \<Rightarrow> 'v sys \<Rightarrow> bool" where
  "chan_inv n s \<longleftrightarrow> waits s \<and> (\<forall>k. data_at s k) \<and> ring_ok s \<and> fifo s \<and> bounded n s \<and> recv_wake n s \<and> send_wake n s"

lemma chan_inv_start: "makechan avail es k = Some c \<Longrightarrow> (\<And>g. n \<le> g \<Longrightarrow> cs g = []) \<Longrightarrow> chan_inv n (start c cs)"
  by (auto simp: makechan_def chan_inv_def waits_def gor_ok_def data_at_def ring_ok_def fifo_def contents_def start_def
      rgs_def sgs_def bounded_def recv_wake_def send_wake_def split: if_splits)

lemma chan_reach_inv:
  assumes "chan_reach s0 s" "chan_inv n s0"
  shows "chan_inv n s"
  using assms
proof induction
  case (chan_next s i s')
  then have inv: "waits s" "\<And>k. data_at s k" "ring_ok s" "fifo s" "bounded n s" "recv_wake n s" "send_wake n s"
    by (auto simp: chan_inv_def)
  note m = chan_next.hyps(2)
  show ?case
    using waits_move [OF inv(1) m] data_move [OF inv(1,2) m] fifo_move [OF inv(3,4) m] bounded_move [OF inv(5) m]
      wake_move [OF inv(6,7,1,5,3) m]
    by (simp add: chan_inv_def)
qed

lemmas chan_run_inv = chan_reach_inv [OF _ chan_inv_start]

text \<open>A run along a schedule of goroutine numbers.\<close>

fun chan_run :: "nat list \<Rightarrow> 'v sys \<Rightarrow> 'v sys option" where
  "chan_run [] s = Some s"
| "chan_run (i # is) s = (case chan_move i s of None \<Rightarrow> None | Some s' \<Rightarrow> chan_run is s')"

lemma chan_run_reach:
  assumes "chan_run is s = Some s'" "chan_reach s0 s"
  shows "chan_reach s0 s'"
  using assms by (induction "is" s rule: chan_run.induct) (auto split: option.splits intro: chan_next)

text \<open>
  Three goroutines on a channel with one slot: two receivers wait, the first of two sent values wakes one of them;
  in the end both values are received, the channel is closed and a further receive returns at once.
\<close>

definition example_calls :: "nat \<Rightarrow> nat call list" where
  "example_calls g = (if g = 0 then [Send 7 True, Send 8 True] else if g = 1 then [Recv True, Recv True]
    else if g = 2 then [Recv True, Close] else [])"

definition example_chan :: "nat hchan" where
  "example_chan = the (makechan 0x10000 4 1)"

definition example_waking :: "nat sys" where
  "example_waking = the (chan_run [1, 1, 2, 2, 0, 0] (start example_chan example_calls))"

definition example_closed :: "nat sys" where
  "example_closed = the (chan_run [0, 1, 1, 0, 0, 0, 2, 2, 2, 2, 1] example_waking)"

definition example_end :: "nat sys" where
  "example_end = the (chan_move 1 example_closed)"

lemma example_made: "makechan 0x10000 4 1 = Some example_chan"
  by (simp add: example_chan_def makechan_def word_sless_alt)

lemma example_waking_reach: "chan_reach (start example_chan example_calls) example_waking"
proof -
  have "chan_run [1, 1, 2, 2, 0, 0] (start example_chan example_calls) \<noteq> None" by code_simp
  then show ?thesis by (metis chan_run_reach chan_start example_waking_def option.collapse)
qed

lemma example_closed_reach: "chan_reach (start example_chan example_calls) example_closed"
proof -
  have "chan_run [0, 1, 1, 0, 0, 0, 2, 2, 2, 2, 1] example_waking \<noteq> None" by code_simp
  then show ?thesis by (metis chan_run_reach example_waking_reach example_closed_def option.collapse)
qed

lemma example_last_move: "chan_move 1 example_closed = Some example_end"
proof -
  have "chan_move 1 example_closed \<noteq> None" by code_simp
  then show ?thesis by (simp add: example_end_def)
qed

lemmas example_end_reach = chan_next [OF example_closed_reach example_last_move]

lemma example_bounded: "3 \<le> g \<Longrightarrow> example_calls g = []"
  by (simp add: example_calls_def)

text \<open>C1: A channel is a queue: under every interleaving of any finite number of goroutines that send, receive (blocking
or not) and close, the values that have passed through the channel in the order of the sends are those received,
in the order of the receives, followed by the contents of the buffer; a send that has returned true has put its
value there, a receive that has returned one has got exactly the value that the channel delivered to it, and no
goroutine runs into one of the fatal errors for spurious wake-ups.\<close>

theorem channel_fifo:
  assumes "makechan avail es k = Some c" "\<And>g. n \<le> g \<Longrightarrow> cs g = []" "chan_reach (start c cs) s"
  shows "map snd (slog s) = map snd (dlog s) @ contents s \<and>
    (\<forall>i v. pc s i = Sent True v \<longrightarrow> latest i (slog s) = Some (Some v)) \<and>
    (\<forall>i sel. pc s i = Received sel True \<longrightarrow> latest i (dlog s) = Some (slot s i)) \<and> (\<forall>i. pc s i \<noteq> CThrow)"
proof -
  have inv: "chan_inv n s" by (rule chan_run_inv [OF assms(3,1,2)])
  then have d: "data_at s i" and w: "waits s" for i by (auto simp: chan_inv_def)
  have "latest i (slog s) = Some (Some v)" if "pc s i = Sent True v" for i v using d [of i] that by (simp add: data_at_def)
  moreover have "latest i (dlog s) = Some (slot s i)" if "pc s i = Received sel True" for i sel
    using d [of i] that by (simp add: data_at_def)
  moreover have "pc s i \<noteq> CThrow" for i using waitsD(1) [OF w, of i] by (simp add: gor_ok_def)
  ultimately show ?thesis using inv by (simp add: chan_inv_def fifo_def)
qed

theorem channel_fifo_witness:
  "map snd (slog example_end) = map snd (dlog example_end) @ contents example_end \<and> (\<forall>i. pc example_end i \<noteq> CThrow) \<and>
    slog example_end = [(0, Some 7), (0, Some 8)] \<and> dlog example_end = [(1, Some 7), (2, Some 8)] \<and>
    pc example_end 1 = Received True False"
proof -
  have "slog example_end = [(0, Some 7), (0, Some 8)]" by code_simp
  moreover have "dlog example_end = [(1, Some 7), (2, Some 8)]" by code_simp
  moreover have "pc example_end 1 = Received True False" by code_simp
  ultimately show ?thesis using channel_fifo [OF example_made example_bounded example_end_reach] by blast
qed

text \<open>C8: Channels lose no wake-up: a closed channel has nobody in its queues; without a buffer, senders and receivers are
never in their queues at the same time; with a buffer, while receivers are in the queue there are at least as many
other receivers under way as the buffer has elements, and while senders are in the queue at least as many senders
under way as the buffer has room; and a parked goroutine that is in no queue is about to be woken by another one,
which is able to go on.\<close>

theorem channel_no_lost_wakeup:
  assumes "makechan avail es k = Some c" "\<And>g. n \<le> g \<Longrightarrow> cs g = []" "chan_reach (start c cs) s"
  shows "(closed s \<longrightarrow> recvq s = [] \<and> sendq s = []) \<and> (dataqsiz s = 0 \<longrightarrow> recvq s = [] \<or> sendq s = []) \<and>
    (0 < dataqsiz s \<and> recvq s \<noteq> [] \<longrightarrow> qcount s \<le> card {g. g < n \<and> receiving s g}) \<and>
    (0 < dataqsiz s \<and> sendq s \<noteq> [] \<longrightarrow> dataqsiz s - qcount s \<le> card {g. g < n \<and> sending s g}) \<and>
    (\<forall>g. parked s g \<and> g \<notin> set (rgs s) \<and> g \<notin> set (sgs s) \<longrightarrow> (\<exists>j. hands (pc s j) = Some g \<and> chan_move j s \<noteq> None))"
proof -
  have inv: "waits s" "recv_wake n s" "send_wake n s" using chan_run_inv [OF assms(3,1,2)] by (auto simp: chan_inv_def)
  note w = waitsD [OF inv(1)]
  have "\<exists>j. hands (pc s j) = Some g \<and> chan_move j s \<noteq> None" if "parked s g" "g \<notin> set (rgs s)" "g \<notin> set (sgs s)" for g
  proof -
    from w(7) [OF that] obtain j where "hands (pc s j) = Some g" by blast
    then show ?thesis by (intro exI [of _ j]) (cases "pc s j"; simp add: chan_move_def)
  qed
  then show ?thesis using w(8,9) inv(2,3) by (auto simp: recv_wake_def send_wake_def)
qed

theorem channel_no_lost_wakeup_witness:
  "map sg_g (recvq example_waking) = [2] \<and> qcount example_waking = 1 \<and> 1 \<le> card {g. g < 3 \<and> receiving example_waking g}"
proof -
  have e: "map sg_g (recvq example_waking) = [2]" "qcount example_waking = 1" "dataqsiz example_waking = 1" by code_simp+
  then have "recvq example_waking \<noteq> []" by auto
  then show ?thesis using channel_no_lost_wakeup [OF example_made example_bounded example_waking_reach] e by auto
qed

text \<open>C19: The representation of a channel stays well-formed: the buffer keeps its length, the number of elements and the
two indices stay in range, so that every access to the buffer is inside of it; the queues hold every goroutine at
most once, and only goroutines that are parked in an operation of the right kind.\<close>

theorem channel_well_formed:
  assumes "makechan avail es k = Some c" "\<And>g. n \<le> g \<Longrightarrow> cs g = []" "chan_reach (start c cs) s"
  shows "length (buf s) = dataqsiz s \<and> qcount s \<le> dataqsiz s \<and> (0 < dataqsiz s \<longrightarrow> sendx s < dataqsiz s \<and> recvx s < dataqsiz s) \<and>
    distinct (map sg_g (recvq s) @ map sg_g (sendq s)) \<and>
    (\<forall>sg \<in> set (recvq s). parked s (sg_g sg) \<and> pc s (sg_g sg) \<in> {RecvParked, RecvWait}) \<and>
    (\<forall>sg \<in> set (sendq s). parked s (sg_g sg) \<and> (\<exists>v. pc s (sg_g sg) \<in> {SendParked v, SendWait v}))"
proof -
  have inv: "waits s" "ring_ok s" using chan_run_inv [OF assms(3,1,2)] by (auto simp: chan_inv_def)
  note w = waitsD [OF inv(1)]
  have r: "\<forall>sg \<in> set (recvq s). parked s (sg_g sg) \<and> pc s (sg_g sg) \<in> {RecvParked, RecvWait}"
    using w(4) by (auto simp: rgs_def)
  have s: "parked s (sg_g sg) \<and> (\<exists>v. pc s (sg_g sg) \<in> {SendParked v, SendWait v})" if "sg \<in> set (sendq s)" for sg
    using w(5) [OF that] by (auto simp: sudog_ok_def split: if_splits)
  have "set (map sg_g (recvq s)) \<inter> set (map sg_g (sendq s)) = {}"
  proof (rule ccontr)
    assume "\<not> ?thesis"
    then obtain a b where "a \<in> set (recvq s)" "b \<in> set (sendq s)" "sg_g a = sg_g b" by auto
    then show False using r s [of b] by auto
  qed
  then have "distinct (map sg_g (recvq s) @ map sg_g (sendq s))" using w(2,3) by (simp add: rgs_def sgs_def)
  then show ?thesis using r s inv(2) by (auto simp: ring_ok_def)
qed

theorem channel_well_formed_witness:
  "length (buf example_waking) = dataqsiz example_waking \<and> sendx example_waking < dataqsiz example_waking \<and>
    distinct (map sg_g (recvq example_waking) @ map sg_g (sendq example_waking))"
proof -
  have "0 < dataqsiz example_waking" by code_simp
  then show ?thesis using channel_well_formed [OF example_made example_bounded example_waking_reach] by blast
qed

text \<open>C20: A closed channel stays closed: a send under the lock panics and so does a second close; a receive takes the
oldest value of the buffer and, once the buffer is empty, returns at once with the zero value and false.\<close>

theorem closed_channel:
  assumes "makechan avail es k = Some c" "\<And>g. n \<le> g \<Longrightarrow> cs g = []" "chan_reach (start c cs) s" "closed s" "chan_move i s = Some s'"
  shows "closed s' \<and> ((\<exists>v b. pc s i = SendLock v b) \<or> pc s i = CloseLock \<longrightarrow> pc s' i = CPanic) \<and>
    ((\<exists>b. pc s i = RecvLock b) \<longrightarrow>
      (case contents s of
         [] \<Rightarrow> pc s' i = Received True False \<and> slot s' i = None
       | x # xs \<Rightarrow> pc s' i = Received True True \<and> slot s' i = x \<and> contents s' = xs))"
proof -
  have inv: "waits s" "ring_ok s" using chan_run_inv [OF assms(3,1,2)] by (auto simp: chan_inv_def)
  have q: "sendq s = []" using waitsD(8) [OF inv(1)] assms(4) by blast
  have cl: "closed s'"
    using assms(4,5) by (cases "pc s i") (auto simp: chan_move_def chan_defs send_locked_def recv_locked_def closechan_def Let_def
      split: if_splits list.splits)
  have "case contents s of [] \<Rightarrow> pc s' i = Received True False \<and> slot s' i = None
      | x # xs \<Rightarrow> pc s' i = Received True True \<and> slot s' i = x \<and> contents s' = xs" if "pc s i = RecvLock b" for b
  proof (cases "qcount s = 0")
    case True
    then have "contents s = []" by (simp add: contents_def)
    moreover have "s' = recvclosed i s" using that assms(4,5) True by (cases "dataqsiz s = 0") (auto simp: chan_move_def recv_locked_def)
    ultimately show ?thesis by (simp add: recvclosed_def goto_def set_slot_def)
  next
    case False
    then have n: "0 < dataqsiz s" "0 < qcount s" using inv(2) by (auto simp: ring_ok_def)
    have f: "buf s' = (buf s)[recvx s := None]" "recvx s' = wrap_index (recvx s) (dataqsiz s)" "qcount s' = qcount s - 1"
      "sendx s' = sendx s" "dataqsiz s' = dataqsiz s" "pc s' i = Received True True" "slot s' i = buf s ! recvx s"
      using that assms(5) n q by (auto simp: chan_move_def recv_locked_def Let_def goto_def set_slot_def)
    show ?thesis using ring_read(2) [OF inv(2) n(2) f(1-5)] f(6,7) by simp
  qed
  moreover have "pc s' i = CPanic" if "(\<exists>v b. pc s i = SendLock v b) \<or> pc s i = CloseLock"
    using that assms(4,5) by (auto simp: chan_move_def send_locked_def closechan_def goto_def)
  ultimately show ?thesis using cl by blast
qed

theorem closed_channel_witness: "closed example_closed \<and> pc example_end 1 = Received True False \<and> slot example_end 1 = None"
proof -
  have c: "closed example_closed" "contents example_closed = []" "pc example_closed 1 = RecvLock True" by code_simp+
  show ?thesis using closed_channel [where n = 3, OF example_made example_bounded example_closed_reach c(1) example_last_move] c by auto
qed

end
