(* ===== verification/Spec2Isabelle.thy ===== *)
theory Spec2Isabelle
  imports Vlrt Softfloat Atomics Utf8 Utf16 Unicode GoString StableSort GoHeap Varint StringSearch StringOps StringMap StringFields StringFold Strconv Refinement GoList GoRing Timers Sqrt Mutex RWMutex Once Channel
begin

text \<open>
  \<^bold>\<open>Verification of the core of the Go tree with the mips32 ports\<close>

  The repository is the Go 1.4 distribution with ports to the big- and little-endian 32-bit MIPS architecture
  (\<open>mips32\<close>, \<open>mips32le\<close>). What a program on these ports relies on first is the part of the run-time that replaces
  missing hardware (64-bit division, floating point, square roots, 64-bit atomic operations), the run-time's
  strings, timers and channels, and the basic packages: \<open>sync\<close>, \<open>unicode/utf8\<close>, \<open>unicode/utf16\<close>, \<open>strings\<close>,
  \<open>bytes\<close>, \<open>strconv\<close>, \<open>sort\<close>, \<open>container/*\<close> and \<open>encoding/binary\<close>. This development models those parts as
  executable definitions, in the order of the code, and proves what they promise. Paths below are relative to
  \<^verbatim>\<open>src/src/\<close>.

  \<^bold>\<open>Conventions\<close> (\<open>Prelude\<close>). Go's integers of \<open>w\<close> bits are words of that width, so arithmetic wraps as in Go; a
  signed reading is \<open>sint\<close>; \<open>int\<close> has 32 bits on these ports. A run-time panic is the left value of a sum; loops
  without an obvious bound are \<open>partial_function (option)\<close>, where \<open>None\<close> means that the loop does not return, and
  it is proved where they do return. Pointer structures live in an explicit heap of fields. Indices and counts of
  collections in memory are natural numbers where the code bounds them by a length; where they can overflow they are
  integers wrapped to 32 bits by \<open>wrap32\<close>. \<open>make\<close> of a slice panics as \<open>makeslice\<close> of \<open>runtime/slice.go\<close> does when the
  slice does not fit in the address space. No definition uses fuel.

  \<^bold>\<open>Arithmetic of the 32-bit ports.\<close>
  \<^item> \<open>Vlrt\<close> (\<open>runtime/vlrt.go\<close>): the software division of 64-bit integers, \<open>slowdodiv\<close> and the assembly variant of
    the 386 port behind one interface (locale \<open>divmod64\<close>, interpreted for both), signed and unsigned quotient and
    remainder, the conversion of doubles to 64-bit integers.
  \<^item> \<open>Softfloat\<close> (\<open>runtime/softfloat64.go\<close>): packing, unpacking, arithmetic, comparison and conversions of IEEE
    numbers given by their bits; the round trip of packing is proved once for both formats (locale
    \<open>float_format\<close>), the 128-bit product and quotient are exact, and a class of subtractions with wrong results is
    determined.
  \<^item> \<open>Sqrt\<close> (\<open>math/sqrt.go\<close>, with the same text \<open>runtime/sqrt.go\<close>): the bit-by-bit square root is correctly rounded
    on normal numbers, and does not work on subnormal ones.

  \<^bold>\<open>Concurrency.\<close>
  \<^item> \<open>Atomics\<close> (\<open>runtime/atomic_mips32x.go\<close>, \<open>atomic_mips32.go\<close>, \<open>atomic_mips32le.go\<close>): step relations of
    goroutines inside the compare-and-swap loops and inside the sections under the address locks; both refine atomic
    operations, and the byte operation of the big-endian port misses its byte.
  \<^item> \<open>Threads\<close>: pools of goroutines, their interleavings, invariants by counting the goroutines at a point of the
    code, and refinement between pools (locales \<open>pool_invariant\<close> and \<open>pool_refinement\<close>).
  \<^item> \<open>Mutex\<close>, \<open>RWMutex\<close>, \<open>Once\<close> (\<open>sync/mutex.go\<close>, \<open>rwmutex.go\<close>, \<open>once.go\<close>): every atomic access of the
    operations is a step. \<open>Mutex\<close> refines an abstract lock, on which \<open>RWMutex\<close> and \<open>Once\<close> build; exclusion and the
    absence of lost wake-ups follow from the invariants. The bounds \<open>2 ^ 29\<close> and \<open>2 ^ 30\<close> on the number of
    goroutines are those of the packed words of the code and far above what fits in a 32-bit memory.
  \<^item> \<open>Channel\<close> (\<open>runtime/chan.go\<close>): a channel with its buffer and wait queues and the goroutines that send, receive
    and close. The code under the channel's lock, every access outside of it and every wake-up is a step. The
    channel is a queue, its representation stays well-formed, no wake-up is lost, and a closed channel behaves as
    the language says. \<open>select\<close> is not modelled.
  \<^item> \<open>Timers\<close> (\<open>runtime/time.go\<close>): the four-child heap of timers with its back pointers, starting and stopping of
    timers, and the passes of the timer goroutine, in any order. A pass releases the lock to run the function of a
    timer; what the function and other goroutines do with the timers in that window is an argument of the pass. The
    statement on a pass is for times that fit in 64 bits, since the next time of a periodic timer can wrap around.

  \<^bold>\<open>Text.\<close>
  \<^item> \<open>Utf8\<close> (\<open>unicode/utf8/utf8.go\<close>, \<open>runtime/rune.go\<close>) and \<open>Utf16\<close> (\<open>unicode/utf16/utf16.go\<close>): the decoders of
    the package and of the run-time agree and are inverse to the encoders, which write the Unicode encoding; the
    uniqueness of decoding is proved once (locale \<open>prefix_code\<close>).
  \<^item> \<open>Unicode\<close> (\<open>unicode/letter.go\<close>, \<open>graphic.go\<close>, \<open>digit.go\<close>, \<open>casetables.go\<close>): classes of runes and case mapping
    by linear and binary search in tables of ranges (locale \<open>ordered_ranges\<close>); the generated tables other than the
    one of white space are an argument.
  \<^item> \<open>GoString\<close> (\<open>runtime/string.go\<close>): concatenation with its overflow checks, and conversions between strings, bytes
    and runes, on top of \<open>Utf8\<close>.
  \<^item> \<open>StringSearch\<close> and \<open>StringOps\<close> (\<open>strings/strings.go\<close>, \<open>bytes/bytes.go\<close>, the mips32 comparison and byte search
    of the run-time): the Rabin-Karp search and the other searches return what a definition by occurrences says;
    splitting, joining, replacing and repeating. Splitting panics where \<open>make\<close> does, from \<open>2 ^ 29\<close> strings on.
  \<^item> \<open>StringMap\<close> (the same files): \<open>Map\<close> with a function that may keep variables, the case conversions and \<open>Title\<close>;
    the buffer grows as needed for every function that returns valid runes, and what happens to the first rune without
    an encoding is determined. Strings are below \<open>2 ^ 28\<close> bytes, so that the size of the buffer is an \<open>int\<close>.
  \<^item> \<open>StringFields\<close> (the same files): searching by a predicate, trimming and fields, described by the chunks of a
    string, its encoded runes and single invalid bytes; the chunks are the same read from either end.
  \<^item> \<open>StringFold\<close> (the same files): \<open>EqualFold\<close>, with the documented promise of \<open>SimpleFold\<close> as a condition on the
    generated tables.
  \<^item> \<open>Strconv\<close> (\<open>strconv/itoa.go\<close>, \<open>atoi.go\<close>, \<open>atob.go\<close>): formatting within its buffer, parsing with exact range
    errors, and their round trips.
  \<^item> \<open>Varint\<close> (\<open>encoding/binary/varint.go\<close>): encoding and decoding of variable-length integers from slices and
    readers; a reader is a parameter.

  \<^bold>\<open>Collections.\<close>
  \<^item> \<open>Sort\<close>, \<open>StableSort\<close> (\<open>sort/sort.go\<close>, \<open>search.go\<close>): quicksort with its heap sort and insertion sort, the
    stable merge sort by rotations, binary search; for every \<open>Less\<close> that is a strict weak order (locale
    \<open>strict_weak\<close>, interpreted for the slice types of the package). The indices are those of the code, 32-bit
    integers that wrap around and are checked by \<open>Less\<close> and \<open>Swap\<close>. \<open>SortNat\<close> and \<open>StableNat\<close> are reference
    versions over natural numbers: they are shown to sort, and the code to agree with them, up to \<open>2 ^ 30\<close> elements
    (less than \<open>2 ^ 30\<close> for the stable sort); beyond that the heap sort can overflow an index and panic.
  \<^item> \<open>GoHeap\<close> (\<open>container/heap/heap.go\<close>): the heap invariant and the priority queue a client sees (locale
    \<open>priority_queue\<close>).
  \<^item> \<open>Links\<close>, \<open>GoList\<close>, \<open>GoRing\<close> (\<open>container/list/list.go\<close>, \<open>container/ring/ring.go\<close>): doubly linked structures on
    a heap. Programs of list operations, \<open>Init\<close> included, refine sequences, by the simulation of \<open>Refinement\<close>
    (locale \<open>simulation\<close>), as long as they do not use the elements that \<open>Init\<close> dropped; rings are cut and joined,
    and their loops end.

  \<^bold>\<open>Not modelled.\<close> The compiler, assembler and linker are written in C. The allocator, collector, scheduler and
  network poller of the run-time work on raw memory and system calls; parking and waking of a goroutine are steps
  of the models above. Assembly is modelled where a Go function is only a wrapper of it. \<open>select\<close>, maps, \<open>sync.Pool\<close>,
  \<open>WaitGroup\<close> and \<open>Cond\<close>, floating-point formatting, the encoders, compressors, hashes and
  cryptography, \<open>fmt\<close>, \<open>regexp\<close>, \<open>time\<close>, \<open>net\<close> and the tools are left out: they are independent of what is
  modelled, most of them as large as all of it.
\<close>

end
